(* ===== verification/Prelude.thy ===== *)
theory Prelude
  imports Main "HOL-Library.Word" "HOL-Library.Sublist"
begin

text \<open>
  Shared vocabulary of the development: the machine types of the source, the operations of
  the Rust standard library that the modelled code calls (string slicing and splitting,
  checked and saturating integer arithmetic, decimal printing and parsing) and the generic
  lemmas on lists, options and words that the component theories rest on.

  A Rust \<open>str\<close> is the list of its UTF-8 bytes (\<open>char\<close> is an 8-bit byte), so
  \<open>len()\<close> and all byte indices of the source are the list length and list positions.
  A \<open>usize\<close> is a natural number with the bound \<open>usize_max\<close> written out where the
  source checks it; a \<open>u64\<close> is a 64-bit word.  A call that panics is \<open>None\<close> (or the
  constructor \<open>Panic\<close> of the result type of theory Errors).
\<close>

section \<open>Types and collections of facts\<close>

type_synonym byte = "8 word"
type_synonym bytes = "byte list"
type_synonym u64 = "64 word"
type_synonym usize = nat
type_synonym str = "string"

named_theorems str_defs \<open>definitions of the string operations\<close>
named_theorems u64_defs \<open>definitions of the 64-bit operations\<close>

section \<open>Strings\<close>

abbreviation slash :: char where
  "slash \<equiv> CHR ''/''"

definition starts_with :: "'a list \<Rightarrow> 'a list \<Rightarrow> bool" where
  "starts_with s p \<longleftrightarrow> take (length p) s = p"

definition ends_with :: "'a list \<Rightarrow> 'a list \<Rightarrow> bool" where
  "ends_with s p \<longleftrightarrow> starts_with (rev s) (rev p)"

definition ends_with_char :: "'a list \<Rightarrow> 'a \<Rightarrow> bool" where
  "ends_with_char s c \<longleftrightarrow> s \<noteq> [] \<and> last s = c"

definition starts_with_char :: "'a list \<Rightarrow> 'a \<Rightarrow> bool" where
  "starts_with_char s c \<longleftrightarrow> s \<noteq> [] \<and> hd s = c"

definition strip_prefix :: "'a list \<Rightarrow> 'a list \<Rightarrow> 'a list option" where
  "strip_prefix s p = (if starts_with s p then Some (drop (length p) s) else None)"

text \<open>\<open>s.split(c)\<close>: the pieces between the separators, never an empty list of pieces.\<close>

fun split_on :: "'a \<Rightarrow> 'a list \<Rightarrow> 'a list list" where
  "split_on c [] = [[]]"
| "split_on c (x # xs) =
     (if x = c then [] # split_on c xs
      else (case split_on c xs of [] \<Rightarrow> [[x]] | y # ys \<Rightarrow> (x # y) # ys))"

text \<open>\<open>v.join(c)\<close> for a one-character separator.\<close>

fun join_with :: "'a \<Rightarrow> 'a list list \<Rightarrow> 'a list" where
  "join_with c [] = []"
| "join_with c [x] = x"
| "join_with c (x # y # ys) = x @ c # join_with c (y # ys)"

text \<open>\<open>s.find(c)\<close> and \<open>s.rfind(c)\<close>: the first and the last position of a character.\<close>

fun find_char :: "'a list \<Rightarrow> 'a \<Rightarrow> nat option" where
  "find_char [] c = None"
| "find_char (x # xs) c = (if x = c then Some 0 else map_option Suc (find_char xs c))"

definition rfind_char :: "'a list \<Rightarrow> 'a \<Rightarrow> nat option" where
  "rfind_char s c = map_option (\<lambda>i. length s - 1 - i) (find_char (rev s) c)"

text \<open>
  \<open>s.trim()\<close> removes leading and trailing characters with the Unicode property
  \<open>White_Space\<close>; here they are given by their UTF-8 encodings.
\<close>

definition whitespace :: "string list" where
  "whitespace =
     [[CHR 0x09], [CHR 0x0A], [CHR 0x0B], [CHR 0x0C], [CHR 0x0D], [CHR 0x20],
      [CHR 0xC2, CHR 0x85], [CHR 0xC2, CHR 0xA0],
      [CHR 0xE1, CHR 0x9A, CHR 0x80],
      [CHR 0xE2, CHR 0x80, CHR 0x80], [CHR 0xE2, CHR 0x80, CHR 0x81],
      [CHR 0xE2, CHR 0x80, CHR 0x82], [CHR 0xE2, CHR 0x80, CHR 0x83],
      [CHR 0xE2, CHR 0x80, CHR 0x84], [CHR 0xE2, CHR 0x80, CHR 0x85],
      [CHR 0xE2, CHR 0x80, CHR 0x86], [CHR 0xE2, CHR 0x80, CHR 0x87],
      [CHR 0xE2, CHR 0x80, CHR 0x88], [CHR 0xE2, CHR 0x80, CHR 0x89],
      [CHR 0xE2, CHR 0x80, CHR 0x8A], [CHR 0xE2, CHR 0x80, CHR 0xA8],
      [CHR 0xE2, CHR 0x80, CHR 0xA9], [CHR 0xE2, CHR 0x80, CHR 0xAF],
      [CHR 0xE2, CHR 0x81, CHR 0x9F], [CHR 0xE3, CHR 0x80, CHR 0x80]]"

function strip_heads :: "'a list list \<Rightarrow> 'a list \<Rightarrow> 'a list" where
  "strip_heads ws s =
     (case List.find (\<lambda>w. w \<noteq> [] \<and> starts_with s w) ws of
        None \<Rightarrow> s
      | Some w \<Rightarrow> strip_heads ws (drop (length w) s))"
  by pat_completeness auto
termination
proof (relation "measure (\<lambda>(ws, s). length s)", simp)
  fix ws :: "'a list list" and s w
  assume "List.find (\<lambda>w. w \<noteq> [] \<and> starts_with s w) ws = Some w"
  then have "w \<noteq> []" "take (length w) s = w"
    by (auto simp: find_Some_iff starts_with_def)
  then have "s \<noteq> []" "length w > 0" by auto
  then show "((ws, drop (length w) s), ws, s) \<in> measure (\<lambda>(ws, s). length s)"
    by simp
qed

declare strip_heads.simps [simp del]

definition trim_start :: "string \<Rightarrow> string" where
  "trim_start s = strip_heads whitespace s"

definition trim_end :: "string \<Rightarrow> string" where
  "trim_end s = rev (strip_heads (map rev whitespace) (rev s))"

definition trim :: "string \<Rightarrow> string" where
  "trim s = trim_end (trim_start s)"

text \<open>\<open>s.trim_start_matches(c)\<close> for a character.\<close>

definition trim_start_matches :: "'a \<Rightarrow> 'a list \<Rightarrow> 'a list" where
  "trim_start_matches c s = dropWhile (\<lambda>x. x = c) s"

lemmas [str_defs] = starts_with_def ends_with_def ends_with_char_def starts_with_char_def
  strip_prefix_def trim_start_matches_def

section \<open>Integers\<close>

definition usize_max :: nat where
  "usize_max = 2 ^ 64 - 1"

definition u64_max :: u64 where
  "u64_max = - 1"

definition checked_add_u64 :: "u64 \<Rightarrow> u64 \<Rightarrow> u64 option" where
  "checked_add_u64 a b = (if unat a + unat b < 2 ^ 64 then Some (a + b) else None)"

definition checked_sub_u64 :: "u64 \<Rightarrow> u64 \<Rightarrow> u64 option" where
  "checked_sub_u64 a b = (if b \<le> a then Some (a - b) else None)"

definition saturating_add_u64 :: "u64 \<Rightarrow> u64 \<Rightarrow> u64" where
  "saturating_add_u64 a b = (if unat a + unat b < 2 ^ 64 then a + b else u64_max)"

definition saturating_sub_u64 :: "u64 \<Rightarrow> u64 \<Rightarrow> u64" where
  "saturating_sub_u64 a b = (if b \<le> a then a - b else 0)"

lemmas [u64_defs] = checked_add_u64_def checked_sub_u64_def saturating_add_u64_def
  saturating_sub_u64_def u64_max_def

text \<open>Decimal printing of an unsigned integer and \<open>str::parse::<u64>()\<close>.\<close>

definition digit_char :: "nat \<Rightarrow> char" where
  "digit_char d = char_of (48 + d)"

definition char_digit :: "char \<Rightarrow> nat option" where
  "char_digit c = (if 48 \<le> (of_char c :: nat) \<and> (of_char c :: nat) \<le> 57
                   then Some (of_char c - 48) else None)"

fun show_nat :: "nat \<Rightarrow> string" where
  "show_nat n = (if n < 10 then [digit_char n]
                 else show_nat (n div 10) @ [digit_char (n mod 10)])"

declare show_nat.simps [simp del]

definition show_u64 :: "u64 \<Rightarrow> string" where
  "show_u64 w = show_nat (unat w)"

datatype int_error = EmptyInt | InvalidDigit | PosOverflow

fun show_int_error :: "int_error \<Rightarrow> string" where
  "show_int_error EmptyInt = ''cannot parse integer from empty string''"
| "show_int_error InvalidDigit = ''invalid digit found in string''"
| "show_int_error PosOverflow = ''number too large to fit in target type''"

fun parse_digits :: "nat \<Rightarrow> string \<Rightarrow> int_error + nat" where
  "parse_digits acc [] = Inr acc"
| "parse_digits acc (c # cs) =
     (case char_digit c of
        None \<Rightarrow> Inl InvalidDigit
      | Some d \<Rightarrow>
          (if 10 * acc + d < 2 ^ 64 then parse_digits (10 * acc + d) cs else Inl PosOverflow))"

definition parse_u64 :: "string \<Rightarrow> int_error + u64" where
  "parse_u64 s =
     (if s = [] then Inl EmptyInt
      else if s = ''+'' \<or> s = ''-'' then Inl InvalidDigit
      else case parse_digits 0 (if starts_with_char s (CHR ''+'') then tl s else s) of
             Inl e \<Rightarrow> Inl e
           | Inr n \<Rightarrow> Inr (of_nat n))"

section \<open>Lemmas on strings\<close>

lemma starts_with_iff: "starts_with s p \<longleftrightarrow> (\<exists>t. s = p @ t)"
  unfolding starts_with_def by (metis append_eq_conv_conj append_take_drop_id)

lemma starts_with_append [simp]: "starts_with (p @ t) p"
  by (simp add: starts_with_def)

lemma starts_with_Nil [simp]: "starts_with s []"
  by (simp add: starts_with_def)

lemma Nil_starts_with [simp]: "starts_with [] p \<longleftrightarrow> p = []"
  by (auto simp: starts_with_def)

lemma starts_with_Cons [simp]: "starts_with (x # s) (y # p) \<longleftrightarrow> x = y \<and> starts_with s p"
  by (auto simp: starts_with_def)

lemma starts_with_drop: "starts_with s p \<Longrightarrow> p @ drop (length p) s = s"
  unfolding starts_with_def by (metis append_take_drop_id)

lemma ends_with_iff: "ends_with s p \<longleftrightarrow> (\<exists>t. s = t @ p)"
  unfolding ends_with_def starts_with_iff
  by (metis rev_append rev_rev_ident)

lemma ends_with_char_append [simp]: "ends_with_char (s @ [c]) d \<longleftrightarrow> c = d"
  by (simp add: ends_with_char_def)

lemma ends_with_char_append2:
  "t \<noteq> [] \<Longrightarrow> ends_with_char (s @ t) d \<longleftrightarrow> ends_with_char t d"
  by (simp add: ends_with_char_def)

lemma ends_with_char_Cons:
  "ends_with_char (x # xs) c \<longleftrightarrow> (if xs = [] then x = c else ends_with_char xs c)"
  by (simp add: ends_with_char_def)

lemma ends_with_char_Nil [simp]: "\<not> ends_with_char [] c"
  by (simp add: ends_with_char_def)

lemma not_ends_with_char [simp]: "c \<notin> set t \<Longrightarrow> \<not> ends_with_char t c"
  by (metis ends_with_char_def last_in_set)

lemma ends_with_char_middle [simp]:
  "ends_with_char (q @ c # t) d \<longleftrightarrow> (if t = [] then c = d else ends_with_char t d)"
  by (simp add: ends_with_char_def)

lemma last_filter: "xs \<noteq> [] \<Longrightarrow> P (last xs) \<Longrightarrow> last (filter P xs) = last xs"
proof -
  assume "xs \<noteq> []" "P (last xs)"
  then have "filter P xs = filter P (butlast xs) @ [last xs]"
    by (metis append_butlast_last_id filter.simps filter_append)
  then show ?thesis by simp
qed

lemma starts_with_char_simps [simp]:
  "\<not> starts_with_char [] c" "starts_with_char (x # xs) c \<longleftrightarrow> x = c"
  by (auto simp: starts_with_char_def)

lemma ends_with_char_iff: "ends_with_char s c \<longleftrightarrow> (\<exists>t. s = t @ [c])"
  unfolding ends_with_char_def by (metis append_butlast_last_id last_snoc snoc_eq_iff_butlast)

lemma strip_prefix_append [simp]: "strip_prefix (p @ s) p = Some s"
  by (simp add: strip_prefix_def)

subsection \<open>Splitting and joining\<close>

lemma split_on_not_Nil [simp]: "split_on c s \<noteq> []"
  by (induction s) (auto split: list.split)

lemma join_with_Cons: "ys \<noteq> [] \<Longrightarrow> join_with c (x # ys) = x @ c # join_with c ys"
  by (cases ys) auto

lemma join_split [simp]: "join_with c (split_on c s) = s"
proof (induction s)
  case (Cons x xs)
  then show ?case
    by (cases "split_on c xs"; cases "tl (split_on c xs)") (auto simp: join_with_Cons)
qed simp

lemma split_on_no_sep: "p \<in> set (split_on c s) \<Longrightarrow> c \<notin> set p"
  by (induction s arbitrary: p) (fastforce split: if_splits list.splits)+

lemma split_on_plain: "c \<notin> set s \<Longrightarrow> split_on c s = [s]"
  by (induction s) auto

lemma split_on_append: "c \<notin> set s \<Longrightarrow> split_on c (s @ c # t) = s # split_on c t"
  by (induction s) auto

lemma split_join:
  "ps \<noteq> [] \<Longrightarrow> \<forall>p \<in> set ps. c \<notin> set p \<Longrightarrow> split_on c (join_with c ps) = ps"
  by (induction c ps rule: join_with.induct) (auto simp: split_on_plain split_on_append)

lemma split_on_append_sep: "split_on c (s @ c # t) = split_on c s @ split_on c t"
proof (induction s)
  case (Cons x xs)
  then show ?case by (cases "split_on c xs") auto
qed simp

lemma split_on_Cons_sep [simp]: "split_on c (c # t) = [] # split_on c t"
  by simp

lemma join_with_append:
  "xs \<noteq> [] \<Longrightarrow> ys \<noteq> [] \<Longrightarrow> join_with c (xs @ ys) = join_with c xs @ c # join_with c ys"
  by (induction c xs rule: join_with.induct) (auto simp: join_with_Cons)

lemma last_split_on_no_sep: "c \<notin> set (last (split_on c s))"
  by (rule split_on_no_sep[of _ c s]) simp

lemma hd_join_with:
  "ps \<noteq> [] \<Longrightarrow> hd ps \<noteq> [] \<Longrightarrow> hd (join_with c ps) = hd (hd ps)"
  by (induction c ps rule: join_with.induct) auto

lemma join_with_eq_Nil: "[] \<notin> set ps \<Longrightarrow> join_with c ps = [] \<longleftrightarrow> ps = []"
  by (induction c ps rule: join_with.induct) auto

lemma last_join_with:
  "ps \<noteq> [] \<Longrightarrow> last ps \<noteq> [] \<Longrightarrow> last (join_with c ps) = last (last ps)"
proof (induction c ps rule: join_with.induct)
  case (3 c x y ys)
  moreover have "join_with c (y # ys) \<noteq> []"
  proof -
    have "last (y # ys) \<noteq> []" using 3 by simp
    then show ?thesis by (cases ys) (auto simp: join_with_Cons)
  qed
  ultimately show ?case by simp
qed auto

lemma last_split_on_suffix: "\<exists>t. s = t @ last (split_on c s) \<and> (t = [] \<or> last t = c)"
proof (induction s)
  case (Cons x xs)
  then obtain t where t: "xs = t @ last (split_on c xs)" "t = [] \<or> last t = c" by blast
  show ?case
  proof (cases "tl (split_on c xs)")
    case Nil
    then obtain p where p: "split_on c xs = [p]"
      by (metis split_on_not_Nil list.collapse)
    then have "xs = p" using join_split[of c xs] by simp
    with p show ?thesis by (cases "x = c") (auto intro: exI[of _ "[c]"])
  next
    case (Cons q qs)
    then obtain p where p: "split_on c xs = p # q # qs"
      by (metis split_on_not_Nil list.collapse)
    have "t \<noteq> []"
    proof
      assume "t = []"
      with t(1) have "c \<notin> set xs" using last_split_on_no_sep[of c xs] by simp
      then show False using p split_on_plain[of c xs] by simp
    qed
    with t p show ?thesis by (auto intro!: exI[of _ "x # t"])
  qed
qed simp

subsection \<open>Searching for a character\<close>

lemma find_char_None_iff: "find_char s c = None \<longleftrightarrow> c \<notin> set s"
  by (induction s) auto

lemma find_char_None [simp]: "c \<notin> set s \<Longrightarrow> find_char s c = None"
  by (simp add: find_char_None_iff)

lemma find_char_Some_iff:
  "find_char s c = Some i \<longleftrightarrow> i < length s \<and> s ! i = c \<and> c \<notin> set (take i s)"
proof (induction s arbitrary: i)
  case (Cons x xs)
  then show ?case by (cases i) auto
qed simp

lemma find_char_split: "find_char s c = Some i \<Longrightarrow> s = take i s @ c # drop (Suc i) s"
  by (metis find_char_Some_iff id_take_nth_drop)

lemma rfind_char_None_iff: "rfind_char s c = None \<longleftrightarrow> c \<notin> set s"
  by (simp add: rfind_char_def find_char_None_iff)

lemma rfind_char_None [simp]: "c \<notin> set s \<Longrightarrow> rfind_char s c = None"
  by (simp add: rfind_char_None_iff)

lemma rfind_char_append [simp]: "c \<notin> set t \<Longrightarrow> rfind_char (s @ c # t) c = Some (length s)"
proof -
  assume "c \<notin> set t"
  then have "find_char (rev t @ c # rev s) c = Some (length t)"
    by (simp add: find_char_Some_iff nth_append)
  then show ?thesis by (simp add: rfind_char_def)
qed

lemma rfind_char_cases:
  obtains (none) "c \<notin> set s" "rfind_char s c = None"
    | (some) p t where "s = p @ c # t" "c \<notin> set t" "rfind_char s c = Some (length p)"
proof (cases "c \<in> set s")
  case True
  then obtain p t where "s = p @ c # t" "c \<notin> set t" by (metis split_list_last)
  then show ?thesis by (auto intro: some)
qed (use none in simp)

subsection \<open>Trimming\<close>

lemma strip_heads_none: "\<forall>w \<in> set ws. w \<noteq> [] \<longrightarrow> \<not> starts_with s w \<Longrightarrow> strip_heads ws s = s"
  by (subst strip_heads.simps) (auto simp: find_Some_iff split: option.split)

lemma strip_heads_result: "w \<in> set ws \<Longrightarrow> w \<noteq> [] \<Longrightarrow> \<not> starts_with (strip_heads ws s) w"
proof (induction ws s rule: strip_heads.induct)
  case (1 ws s)
  show ?case
  proof (cases "List.find (\<lambda>w. w \<noteq> [] \<and> starts_with s w) ws")
    case None
    then have "strip_heads ws s = s" by (simp add: strip_heads.simps[of ws s])
    with None 1 show ?thesis by (auto simp: find_None_iff)
  next
    case (Some v)
    with 1 show ?thesis by (auto simp: strip_heads.simps[of ws s])
  qed
qed

lemma strip_heads_suffix: "\<exists>t. s = t @ strip_heads ws s"
proof (induction ws s rule: strip_heads.induct)
  case (1 ws s)
  show ?case
  proof (cases "List.find (\<lambda>w. w \<noteq> [] \<and> starts_with s w) ws")
    case None
    then show ?thesis by (subst strip_heads.simps) auto
  next
    case (Some w)
    then obtain t where t: "drop (length w) s = t @ strip_heads ws (drop (length w) s)"
      using 1 by blast
    from Some have "starts_with s w" by (auto simp: find_Some_iff)
    then have "s = (w @ t) @ strip_heads ws (drop (length w) s)"
      using t starts_with_drop by fastforce
    moreover from Some have "strip_heads ws s = strip_heads ws (drop (length w) s)"
      by (simp add: strip_heads.simps[of ws s])
    ultimately show ?thesis by metis
  qed
qed

lemma strip_heads_idem [simp]: "strip_heads ws (strip_heads ws s) = strip_heads ws s"
  by (rule strip_heads_none) (simp add: strip_heads_result)

definition ws_free_start :: "string \<Rightarrow> bool" where
  "ws_free_start s \<longleftrightarrow> (\<forall>w \<in> set whitespace. \<not> starts_with s w)"

definition ws_free_end :: "string \<Rightarrow> bool" where
  "ws_free_end s \<longleftrightarrow> (\<forall>w \<in> set whitespace. \<not> ends_with s w)"

lemma whitespace_not_Nil: "w \<in> set whitespace \<Longrightarrow> w \<noteq> []"
  by (auto simp: whitespace_def)

lemma whitespace_no_slash: "w \<in> set whitespace \<Longrightarrow> slash \<notin> set w"
  by (auto simp: whitespace_def)

lemma trim_start_id: "ws_free_start s \<Longrightarrow> trim_start s = s"
  unfolding trim_start_def ws_free_start_def by (rule strip_heads_none) simp

lemma trim_end_id: "ws_free_end s \<Longrightarrow> trim_end s = s"
  unfolding trim_end_def ws_free_end_def
  by (subst strip_heads_none) (auto simp: ends_with_def)

lemma trim_id: "ws_free_start s \<Longrightarrow> ws_free_end s \<Longrightarrow> trim s = s"
  by (simp add: trim_def trim_start_id trim_end_id)

lemma ws_free_end_trim: "ws_free_end (trim s)"
  unfolding ws_free_end_def ends_with_def trim_def trim_end_def
  using strip_heads_result[of _ "map rev whitespace"] whitespace_not_Nil by fastforce

lemma trim_end_prefix: "\<exists>t. s = trim_end s @ t"
proof -
  obtain t where "rev s = t @ strip_heads (map rev whitespace) (rev s)"
    using strip_heads_suffix by blast
  then have "s = trim_end s @ rev t"
    unfolding trim_end_def by (metis rev_append rev_rev_ident)
  then show ?thesis by blast
qed

lemma ws_free_start_trim_start: "ws_free_start (trim_start s)"
  unfolding ws_free_start_def trim_start_def
  using strip_heads_result whitespace_not_Nil by blast

lemma ws_free_start_prefix:
  assumes "ws_free_start (s @ t)" shows "ws_free_start s"
  using assms unfolding ws_free_start_def starts_with_iff by (metis append.assoc)

lemma ws_free_start_trim: "ws_free_start (trim s)"
  using trim_end_prefix[of "trim_start s"] ws_free_start_trim_start[of s]
  unfolding trim_def by (metis ws_free_start_prefix)

lemma ws_free_suffix: "ws_free_end (s @ t) \<Longrightarrow> ws_free_end t"
  unfolding ws_free_end_def ends_with_iff by (metis append.assoc)

lemma ws_free_end_slash [simp]: "ws_free_end (s @ [slash])"
  unfolding ws_free_end_def ends_with_iff
  by (metis append_self_conv2 last.simps last_appendR last_in_set list.distinct(1) whitespace_no_slash whitespace_not_Nil)

section \<open>Lemmas on integers\<close>

lemma unat_u64_max [simp]: "unat u64_max = 2 ^ 64 - 1"
  unfolding u64_max_def by (simp add: unsigned_minus_1_eq_mask mask_eq_exp_minus_1)

lemma unat_lt_u64: "unat (w :: u64) < 2 ^ 64"
proof -
  have "unat w < 2 ^ LENGTH(64)" by (rule unsigned_less)
  then show ?thesis by simp
qed

lemma checked_add_u64_Some_iff:
  "checked_add_u64 a b = Some c \<longleftrightarrow> unat c = unat a + unat b"
proof -
  have "unat (a + b) = unat a + unat b" if "unat a + unat b < 2 ^ 64"
    using that by (simp add: unat_word_ariths)
  then show ?thesis
    using unat_lt_u64[of c] by (auto simp: checked_add_u64_def intro: word_unat_eq_iff[THEN iffD2])
qed

lemma checked_add_u64_None_iff: "checked_add_u64 a b = None \<longleftrightarrow> 2 ^ 64 \<le> unat a + unat b"
  by (auto simp: checked_add_u64_def)

lemma unat_sub_u64: "b \<le> a \<Longrightarrow> unat (a - b :: u64) = unat a - unat b"
  by (simp add: unat_sub_if_size word_le_nat_alt)

lemma checked_sub_u64_Some_iff:
  "checked_sub_u64 a b = Some c \<longleftrightarrow> unat a = unat b + unat c"
  unfolding checked_sub_u64_def
  by (auto simp: unat_sub_u64 word_le_nat_alt word_unat_eq_iff)

lemma unat_saturating_add_u64:
  "unat (saturating_add_u64 a b) = min (unat a + unat b) (2 ^ 64 - 1)"
  by (auto simp: saturating_add_u64_def unat_word_ariths)

lemma unat_saturating_sub_u64: "unat (saturating_sub_u64 a b) = unat a - unat b"
  by (auto simp: saturating_sub_u64_def unat_sub_u64 word_le_nat_alt)

subsection \<open>Decimal round trip\<close>

lemma char_digit_digit_char [simp]: "d < 10 \<Longrightarrow> char_digit (digit_char d) = Some d"
  by (simp add: char_digit_def digit_char_def)

lemma digit_char_simps:
  "digit_char d = CHR ''+'' \<Longrightarrow> d < 10 \<Longrightarrow> False"
  "digit_char d = CHR ''-'' \<Longrightarrow> d < 10 \<Longrightarrow> False"
  "digit_char d = CHR '','' \<Longrightarrow> d < 10 \<Longrightarrow> False"
  "digit_char d = CHR ''/'' \<Longrightarrow> d < 10 \<Longrightarrow> False"
  "digit_char d = CHR ''*'' \<Longrightarrow> d < 10 \<Longrightarrow> False"
  by (drule arg_cong[where f = "of_char :: char \<Rightarrow> nat"], simp add: digit_char_def)+

lemma show_nat_not_Nil [simp]: "show_nat n \<noteq> []"
  by (subst show_nat.simps) simp

lemma show_nat_digits: "c \<in> set (show_nat n) \<Longrightarrow> \<exists>d < 10. c = digit_char d"
proof (induction n rule: show_nat.induct)
  case (1 n)
  show ?case
  proof (cases "n < 10")
    case True
    with "1.prems" show ?thesis by (auto simp: show_nat.simps[of n])
  next
    case False
    with "1.prems" consider "c \<in> set (show_nat (n div 10))" | "c = digit_char (n mod 10)"
      by (subst (asm) show_nat.simps) auto
    then show ?thesis
    proof cases
      case 1
      with False "1.IH" show ?thesis by simp
    next
      case 2
      then show ?thesis by (auto intro!: exI[of _ "n mod 10"])
    qed
  qed
qed

lemma show_nat_free:
  "CHR ''+'' \<notin> set (show_nat n)" "CHR ''-'' \<notin> set (show_nat n)"
  "CHR '','' \<notin> set (show_nat n)" "CHR ''/'' \<notin> set (show_nat n)"
  "CHR ''*'' \<notin> set (show_nat n)"
  using show_nat_digits digit_char_simps by metis+

lemma parse_digits_append:
  "parse_digits acc (s @ t) =
     (case parse_digits acc s of Inl e \<Rightarrow> Inl e | Inr a \<Rightarrow> parse_digits a t)"
  by (induction s arbitrary: acc) (auto split: option.split)

lemma parse_digits_show_nat: "n < 2 ^ 64 \<Longrightarrow> parse_digits 0 (show_nat n) = Inr n"
proof (induction n rule: show_nat.induct)
  case (1 n)
  show ?case
  proof (cases "n < 10")
    case True
    then show ?thesis by (subst show_nat.simps) simp
  next
    case False
    have "n div 10 < 2 ^ 64" using "1.prems" by simp
    with False "1.IH" have "parse_digits 0 (show_nat (n div 10)) = Inr (n div 10)" by simp
    with False "1.prems" show ?thesis
      by (subst show_nat.simps) (simp add: parse_digits_append)
  qed
qed

lemma parse_show_u64 [simp]: "parse_u64 (show_u64 w) = Inr w"
proof -
  have "\<not> starts_with_char (show_nat (unat w)) (CHR ''+'')"
    "show_nat (unat w) \<noteq> ''+''" "show_nat (unat w) \<noteq> ''-''"
    using show_nat_free(1,2)[of "unat w"] by (cases "show_nat (unat w)"; force)+
  then show ?thesis
    using parse_digits_show_nat[of "unat w"] unat_lt_u64[of w]
    by (simp add: parse_u64_def show_u64_def)
qed

lemma show_u64_not_Nil [simp]: "show_u64 w \<noteq> []"
  by (simp add: show_u64_def)

lemmas show_u64_free = show_nat_free[of "unat w" for w :: u64, folded show_u64_def]

section \<open>Chopping a list into pieces\<close>

function chop :: "nat \<Rightarrow> 'a list \<Rightarrow> 'a list list" where
  "chop n xs = (if n = 0 \<or> xs = [] then [] else take n xs # chop n (drop n xs))"
  by pat_completeness auto
termination
  by (relation "measure (\<lambda>(n, xs). length xs)") auto

declare chop.simps [simp del]

lemma chop_Nil [simp]: "chop n [] = []"
  by (simp add: chop.simps)

lemma chop_step: "0 < n \<Longrightarrow> xs \<noteq> [] \<Longrightarrow> chop n xs = take n xs # chop n (drop n xs)"
  by (subst chop.simps) simp

lemma concat_chop [simp]: "0 < n \<Longrightarrow> concat (chop n xs) = xs"
  by (induction n xs rule: chop.induct) (subst chop.simps, auto)

lemma chop_append: "0 < n \<Longrightarrow> length xs = n \<Longrightarrow> chop n (xs @ ys) = xs # chop n ys"
  by (subst chop.simps) auto

lemma length_chop: "0 < n \<Longrightarrow> length (chop n xs) = (length xs + n - 1) div n"
proof (induction n xs rule: chop.induct)
  case (1 n xs)
  show ?case
  proof (cases "xs = []")
    case False
    with 1 have "length (chop n xs) = Suc ((length xs - n + n - 1) div n)"
      by (simp add: chop_step)
    also have "\<dots> = (length xs + n - 1) div n"
    proof (cases "n \<le> length xs")
      case True
      then have "length xs + n - 1 = (length xs - n + n - 1) + n"
        using 1(2) by simp
      with 1(2) show ?thesis by (metis Suc_eq_plus1 div_add_self2 less_not_refl)
    next
      case less: False
      have "0 < length xs" using False by simp
      have "(length xs + n - 1) div n = 1"
        using less 1(2) \<open>0 < length xs\<close> by (intro div_nat_eqI) (simp_all del: length_greater_0_conv)
      with less 1(2) show ?thesis by simp
    qed
    finally show ?thesis .
  qed (use 1 in simp)
qed

lemma chop_lengths:
  "0 < n \<Longrightarrow> x \<in> set (butlast (chop n xs)) \<Longrightarrow> length x = n"
proof (induction n xs rule: chop.induct)
  case (1 n xs)
  show ?case
  proof (cases "xs = [] \<or> drop n xs = []")
    case True
    with 1(2,3) show ?thesis by (cases "xs = []") (auto simp: chop_step)
  next
    case False
    with 1 show ?thesis by (auto simp: chop_step split: if_splits)
  qed
qed

section \<open>Options as lists\<close>

definition opt_list :: "'a option \<Rightarrow> 'a list" where
  "opt_list x = (case x of None \<Rightarrow> [] | Some a \<Rightarrow> [a])"

lemma opt_list_simps [simp]: "opt_list None = []" "opt_list (Some a) = [a]"
  by (simp_all add: opt_list_def)

end
