(* ===== verification/Errors.thy ===== *)
theory Errors
  imports Prelude
begin

text \<open>
  The error type of the library: \<open>ErrorKind\<close>, \<open>ErrorStatus\<close> and \<open>Error\<close> of
  \<open>core/core/src/types/error.rs\<close>, the result type the modelled operations return, and the
  conversions from and to \<open>std::io\<close> errors of \<open>core/core/src/raw/std_io_util.rs\<close>.
  A source error (an opaque \<open>anyhow::Error\<close>) is carried by its printed form; the backtrace
  of an \<open>Error\<close> is not modelled, since no code reads it.
\<close>

datatype error_kind =
    Unexpected | Unsupported | ConfigInvalid | NotFound | PermissionDenied | IsADirectory
  | NotADirectory | AlreadyExists | RateLimited | IsSameFile | ConditionNotMatch
  | RangeNotSatisfied

fun error_kind_into_static :: "error_kind \<Rightarrow> str" where
  "error_kind_into_static Unexpected = ''Unexpected''"
| "error_kind_into_static Unsupported = ''Unsupported''"
| "error_kind_into_static ConfigInvalid = ''ConfigInvalid''"
| "error_kind_into_static NotFound = ''NotFound''"
| "error_kind_into_static PermissionDenied = ''PermissionDenied''"
| "error_kind_into_static IsADirectory = ''IsADirectory''"
| "error_kind_into_static NotADirectory = ''NotADirectory''"
| "error_kind_into_static AlreadyExists = ''AlreadyExists''"
| "error_kind_into_static RateLimited = ''RateLimited''"
| "error_kind_into_static IsSameFile = ''IsSameFile''"
| "error_kind_into_static ConditionNotMatch = ''ConditionNotMatch''"
| "error_kind_into_static RangeNotSatisfied = ''RangeNotSatisfied''"

datatype error_status = Permanent | Temporary | Persistent

fun show_error_status :: "error_status \<Rightarrow> str" where
  "show_error_status Permanent = ''permanent''"
| "show_error_status Temporary = ''temporary''"
| "show_error_status Persistent = ''persistent''"

record error =
  e_kind :: error_kind
  e_message :: str
  e_status :: error_status
  e_operation :: str
  e_context :: "(str \<times> str) list"
  e_source :: "str option"

text \<open>
  The outcome of a call: \<open>Ok\<close> and \<open>Err\<close> are the two cases of \<open>Result\<close>, \<open>Panic\<close>
  is a call that panics.  A function whose Rust type is not a \<open>Result\<close> never gives \<open>Err\<close>.
\<close>

datatype 'a res = Ok 'a | Err error | Panic

fun bind_res :: "'a res \<Rightarrow> ('a \<Rightarrow> 'b res) \<Rightarrow> 'b res" where
  "bind_res (Ok x) f = f x"
| "bind_res (Err e) f = Err e"
| "bind_res Panic f = Panic"

definition res_of_option :: "'a option \<Rightarrow> 'a res" where
  "res_of_option r = (case r of Some x \<Rightarrow> Ok x | None \<Rightarrow> Panic)"

definition error_new :: "error_kind \<Rightarrow> str \<Rightarrow> error" where
  "error_new k m = \<lparr>e_kind = k, e_message = m, e_status = Permanent, e_operation = [],
                    e_context = [], e_source = None\<rparr>"

definition with_operation :: "str \<Rightarrow> error \<Rightarrow> error" where
  "with_operation op e =
     (let e' = (if e_operation e \<noteq> []
                then e\<lparr>e_context := e_context e @ [(''called'', e_operation e)]\<rparr> else e)
      in e'\<lparr>e_operation := op\<rparr>)"

definition with_context :: "str \<Rightarrow> str \<Rightarrow> error \<Rightarrow> error" where
  "with_context k v e = e\<lparr>e_context := e_context e @ [(k, v)]\<rparr>"

definition set_source :: "str \<Rightarrow> error \<Rightarrow> error" where
  "set_source src e = e\<lparr>e_source := Some src\<rparr>"

definition set_permanent :: "error \<Rightarrow> error" where
  "set_permanent e = e\<lparr>e_status := Permanent\<rparr>"

definition set_temporary :: "error \<Rightarrow> error" where
  "set_temporary e = e\<lparr>e_status := Temporary\<rparr>"

definition set_persistent :: "error \<Rightarrow> error" where
  "set_persistent e = e\<lparr>e_status := Persistent\<rparr>"

definition is_permanent :: "error \<Rightarrow> bool" where
  "is_permanent e \<longleftrightarrow> e_status e = Permanent"

definition is_temporary :: "error \<Rightarrow> bool" where
  "is_temporary e \<longleftrightarrow> e_status e = Temporary"

definition is_persistent :: "error \<Rightarrow> bool" where
  "is_persistent e \<longleftrightarrow> e_status e = Persistent"

text \<open>\<open>Display for Error\<close>.\<close>

fun show_context :: "(str \<times> str) list \<Rightarrow> str" where
  "show_context [] = []"
| "show_context [(k, v)] = k @ '': '' @ v"
| "show_context ((k, v) # kv # kvs) = k @ '': '' @ v @ '', '' @ show_context (kv # kvs)"

definition show_error :: "error \<Rightarrow> str" where
  "show_error e =
     error_kind_into_static (e_kind e) @ '' ('' @ show_error_status (e_status e) @ '') at ''
       @ e_operation e
     @ (if e_context e \<noteq> [] then '', context: { '' @ show_context (e_context e) @ '' }'' else [])
     @ (if e_message e \<noteq> [] then '' => '' @ e_message e else [])
     @ (case e_source e of Some s \<Rightarrow> '', source: '' @ s | None \<Rightarrow> [])"

section \<open>Standard input/output errors\<close>

datatype io_error_kind =
    IoNotFound | IoPermissionDenied | IoAlreadyExists | IoUnsupported | IoInterrupted
  | IoUnexpectedEof | IoTimedOut | IoWouldBlock | IoInvalidInput | IoOther

fun std_io_kind :: "io_error_kind \<Rightarrow> error_kind \<times> bool" where
  "std_io_kind IoNotFound = (NotFound, False)"
| "std_io_kind IoPermissionDenied = (PermissionDenied, False)"
| "std_io_kind IoAlreadyExists = (AlreadyExists, False)"
| "std_io_kind IoUnsupported = (Unsupported, False)"
| "std_io_kind IoInterrupted = (Unexpected, True)"
| "std_io_kind IoUnexpectedEof = (Unexpected, True)"
| "std_io_kind IoTimedOut = (Unexpected, True)"
| "std_io_kind IoWouldBlock = (Unexpected, True)"
| "std_io_kind _ = (Unexpected, True)"

definition new_std_io_error :: "io_error_kind \<Rightarrow> str \<Rightarrow> str \<Rightarrow> error" where
  "new_std_io_error k kind_text src =
     (let (kind, retryable) = std_io_kind k;
          err = set_source src (error_new kind kind_text)
      in if retryable then set_temporary err else err)"

definition format_std_io_error :: "error \<Rightarrow> io_error_kind" where
  "format_std_io_error e =
     (case e_kind e of
        NotFound \<Rightarrow> IoNotFound
      | PermissionDenied \<Rightarrow> IoPermissionDenied
      | _ \<Rightarrow> IoInterrupted)"

definition io_error_from :: "error \<Rightarrow> io_error_kind" where
  "io_error_from e =
     (case e_kind e of
        NotFound \<Rightarrow> IoNotFound
      | PermissionDenied \<Rightarrow> IoPermissionDenied
      | _ \<Rightarrow> IoOther)"

section \<open>Lemmas\<close>

named_theorems error_defs \<open>definitions of the error operations\<close>

lemmas [error_defs] = error_new_def with_operation_def with_context_def set_source_def
  set_permanent_def set_temporary_def set_persistent_def is_permanent_def is_temporary_def is_persistent_def

lemma e_kind_simps [simp]:
  "e_kind (error_new k m) = k" "e_kind (with_operation op e) = e_kind e"
  "e_kind (with_context a b e) = e_kind e" "e_kind (set_source s e) = e_kind e"
  "e_kind (set_temporary e) = e_kind e" "e_kind (set_permanent e) = e_kind e"
  "e_kind (set_persistent e) = e_kind e"
  by (simp_all add: error_defs Let_def)

lemma e_status_simps [simp]:
  "e_status (error_new k m) = Permanent" "e_status (with_operation op e) = e_status e"
  "e_status (with_context a b e) = e_status e" "e_status (set_source s e) = e_status e"
  "e_status (set_temporary e) = Temporary" "e_status (set_permanent e) = Permanent"
  "e_status (set_persistent e) = Persistent"
  by (simp_all add: error_defs Let_def)

lemma is_temporary_simps [simp]:
  "\<not> is_temporary (error_new k m)" "is_temporary (set_temporary e)"
  "is_temporary (with_context a b e) \<longleftrightarrow> is_temporary e"
  "is_temporary (with_operation op e) \<longleftrightarrow> is_temporary e"
  by (simp_all add: is_temporary_def)

lemma bind_res_Ok_iff: "bind_res m f = Ok y \<longleftrightarrow> (\<exists>x. m = Ok x \<and> f x = Ok y)"
  by (cases m) auto

lemma bind_res_assoc: "bind_res (bind_res m f) g = bind_res m (\<lambda>x. bind_res (f x) g)"
  by (cases m) auto

lemma res_of_option_simps [simp]:
  "res_of_option (Some x) = Ok x" "res_of_option None = Panic"
  by (simp_all add: res_of_option_def)

text \<open>
  The operations an error went through: \<open>with_operation\<close> moves the previous name to the
  context, so the trail of names is never lost.
\<close>

definition error_trail :: "error \<Rightarrow> str list" where
  "error_trail e = map snd (filter (\<lambda>kv. fst kv = ''called'') (e_context e)) @
                   (if e_operation e \<noteq> [] then [e_operation e] else [])"

lemma error_trail_with_operation:
  "op \<noteq> [] \<Longrightarrow> error_trail (with_operation op e) = error_trail e @ [op]"
  by (simp add: error_trail_def with_operation_def Let_def)

lemma error_trail_with_context:
  "k \<noteq> ''called'' \<Longrightarrow> error_trail (with_context k v e) = error_trail e"
  by (simp add: error_trail_def with_context_def)

lemma new_std_io_error_temporary_iff:
  "is_temporary (new_std_io_error k t s) \<longleftrightarrow> e_kind (new_std_io_error k t s) = Unexpected"
  by (cases k) (simp_all add: new_std_io_error_def is_temporary_def)

end
