(* ===== verification/Paths.thy ===== *)
theory Paths
  imports Errors
begin

text \<open>
  The path rules of \<open>core/core/src/raw/path.rs\<close> and the entry modes of
  \<open>core/core/src/types/mode.rs\<close>: normalisation of paths and roots, absolute and relative
  paths, parent and base name, temporary names.  The \<open>debug_assert!\<close> checks of the source
  (absent from release builds) are not part of the definitions; the slicing panics are.
\<close>

section \<open>Entry modes\<close>

datatype entry_mode = FILE | DIR | Unknown

definition is_file :: "entry_mode \<Rightarrow> bool" where
  "is_file m \<longleftrightarrow> m = FILE"

definition is_dir :: "entry_mode \<Rightarrow> bool" where
  "is_dir m \<longleftrightarrow> m = DIR"

definition mode_from_path :: "str \<Rightarrow> entry_mode" where
  "mode_from_path path = (if ends_with_char path slash then DIR else FILE)"

definition validate_path :: "str \<Rightarrow> entry_mode \<Rightarrow> bool" where
  "validate_path path mode =
     (case mode of
        FILE \<Rightarrow> \<not> ends_with_char path slash
      | DIR \<Rightarrow> ends_with_char path slash
      | Unknown \<Rightarrow> False)"

section \<open>Slicing of strings\<close>

text \<open>
  \<open>s[i..]\<close> panics when \<open>i\<close> is past the end or not on a character boundary, that is
  when the byte at \<open>i\<close> is a UTF-8 continuation byte.
\<close>

definition is_continuation :: "char \<Rightarrow> bool" where
  "is_continuation c \<longleftrightarrow> 128 \<le> (of_char c :: nat) \<and> (of_char c :: nat) < 192"

definition is_char_boundary :: "str \<Rightarrow> nat \<Rightarrow> bool" where
  "is_char_boundary s i \<longleftrightarrow> i = 0 \<or> i = length s \<or> (i < length s \<and> \<not> is_continuation (s ! i))"

definition str_from :: "str \<Rightarrow> nat \<Rightarrow> str option" where
  "str_from s i = (if is_char_boundary s i then Some (drop i s) else None)"

section \<open>Absolute and relative paths\<close>

definition build_abs_path :: "str \<Rightarrow> str \<Rightarrow> str option" where
  "build_abs_path root path =
     (case str_from root 1 of
        None \<Rightarrow> None
      | Some p \<Rightarrow> Some (if path = [slash] then p else p @ path))"

definition build_rooted_abs_path :: "str \<Rightarrow> str \<Rightarrow> str" where
  "build_rooted_abs_path root path = (if path = [slash] then root else root @ path)"

definition build_rel_path :: "str \<Rightarrow> str \<Rightarrow> str option" where
  "build_rel_path root path =
     (if starts_with_char path slash then str_from path (length root)
      else if root = [] then None
      else str_from path (length root - 1))"

section \<open>Normalisation\<close>

definition normalize_path :: "str \<Rightarrow> str" where
  "normalize_path s =
     (let path = trim_start_matches slash (trim s)
      in if path = [] then [slash]
         else let has_trailing = ends_with_char path slash;
                  p = join_with slash (filter (\<lambda>v. v \<noteq> []) (split_on slash path))
              in if has_trailing then p @ [slash] else p)"

definition normalize_root :: "str \<Rightarrow> str" where
  "normalize_root s =
     (let v = join_with slash (filter (\<lambda>v. v \<noteq> []) (split_on slash s));
          v = (if starts_with_char v slash then v else slash # v)
      in if ends_with_char v slash then v else v @ [slash])"

section \<open>Base name and parent\<close>

definition get_basename :: "str \<Rightarrow> str" where
  "get_basename path =
     (if path = [slash] then [slash]
      else if \<not> ends_with_char path slash then last (split_on slash path)
      else case map_option Suc (rfind_char (butlast path) slash) of
             Some v \<Rightarrow> drop v path
           | None \<Rightarrow> path)"

definition get_parent :: "str \<Rightarrow> str" where
  "get_parent path =
     (if path = [slash] then [slash]
      else if \<not> ends_with_char path slash then
        (case rfind_char path slash of
           Some v \<Rightarrow> take (v + 1) path
         | None \<Rightarrow> [slash])
      else case map_option Suc (rfind_char (butlast path) slash) of
             Some v \<Rightarrow> take v path
           | None \<Rightarrow> [slash])"

section \<open>Temporary names\<close>

definition RANDOM_TMP_PATH_POSTFIX_LENGTH :: nat where
  "RANDOM_TMP_PATH_POSTFIX_LENGTH = 8"

definition CHARS :: str where
  "CHARS = ''ABCDEFGHIJKLMNOPQRSTUVWXYZabcdefghijklmnopqrstuvwxyz0123456789''"

text \<open>\<open>random i\<close> is the value of the \<open>i\<close>-th freshly built hasher.\<close>

definition build_tmp_path_of :: "(nat \<Rightarrow> u64) \<Rightarrow> str \<Rightarrow> str" where
  "build_tmp_path_of random path =
     get_basename path @ ''.'' @
     map (\<lambda>i. CHARS ! (unat (random i) mod length CHARS)) [0..<RANDOM_TMP_PATH_POSTFIX_LENGTH]"

section \<open>Specification: a path as a list of components\<close>

definition path_components :: "str \<Rightarrow> str list" where
  "path_components s = filter (\<lambda>v. v \<noteq> []) (split_on slash s)"

definition render_path :: "str list \<Rightarrow> bool \<Rightarrow> str" where
  "render_path cs dir =
     (if cs = [] then [slash] else join_with slash cs @ (if dir then [slash] else []))"

definition render_root :: "str list \<Rightarrow> str" where
  "render_root cs = slash # concat (map (\<lambda>c. c @ [slash]) cs)"

text \<open>A component is a non-empty string without a slash.\<close>

definition wf_components :: "str list \<Rightarrow> bool" where
  "wf_components cs \<longleftrightarrow> (\<forall>c \<in> set cs. c \<noteq> [] \<and> slash \<notin> set c)"

definition wf_root :: "str \<Rightarrow> bool" where
  "wf_root r \<longleftrightarrow> r = render_root (path_components r)"

definition wf_path :: "str \<Rightarrow> bool" where
  "wf_path p \<longleftrightarrow> p = render_path (path_components p) (ends_with_char p slash)"

definition valid_str :: "str \<Rightarrow> bool" where
  "valid_str s \<longleftrightarrow> (s = [] \<or> \<not> is_continuation (hd s))"

section \<open>Lemmas\<close>

lemma path_components_simps [simp]:
  "path_components [] = []" "path_components (slash # s) = path_components s"
  by (simp_all add: path_components_def)

lemma path_components_slash [simp]: "path_components [slash] = []"
  by (simp add: path_components_def)

lemma path_components_append_slash [simp]: "path_components (s @ [slash]) = path_components s"
  using split_on_append_sep[of slash s "[]"] by (simp add: path_components_def)

lemma wf_path_components [simp]: "wf_components (path_components s)"
  by (auto simp: wf_components_def path_components_def dest: split_on_no_sep)

lemma path_components_join: "wf_components cs \<Longrightarrow> path_components (join_with slash cs) = cs"
  by (cases "cs = []")
     (auto simp: path_components_def wf_components_def split_join intro!: filter_True)

lemma path_components_trim_slashes:
  "path_components (trim_start_matches slash s) = path_components s"
  by (induction s) (auto simp: trim_start_matches_def)

lemma path_components_empty_iff: "path_components s = [] \<longleftrightarrow> trim_start_matches slash s = []"
proof (induction s)
  case (Cons x xs)
  have "x \<noteq> slash \<Longrightarrow> path_components (x # xs) \<noteq> []"
    by (cases "split_on slash xs") (auto simp: path_components_def)
  with Cons show ?case by (cases "x = slash") (auto simp: trim_start_matches_def)
qed (simp add: trim_start_matches_def)

lemma ends_with_trim_slashes:
  "trim_start_matches slash s \<noteq> [] \<Longrightarrow>
     ends_with_char (trim_start_matches slash s) slash \<longleftrightarrow> ends_with_char s slash"
proof (induction s)
  case (Cons x xs)
  show ?case
  proof (cases "x = slash")
    case True
    with Cons have "xs \<noteq> []" by (auto simp: trim_start_matches_def)
    with True Cons show ?thesis
      by (auto simp: trim_start_matches_def ends_with_char_Cons)
  qed (simp add: trim_start_matches_def)
qed (simp add: trim_start_matches_def)

lemma normalize_path_render:
  "normalize_path s = render_path (path_components (trim s)) (ends_with_char (trim s) slash)"
proof (cases "trim_start_matches slash (trim s) = []")
  case True
  then show ?thesis
    by (simp add: normalize_path_def render_path_def path_components_empty_iff)
next
  case False
  then have "path_components (trim s) \<noteq> []" by (simp add: path_components_empty_iff)
  with False show ?thesis
    using path_components_trim_slashes[of "trim s"]
    by (simp add: normalize_path_def render_path_def Let_def ends_with_trim_slashes
          path_components_def[symmetric])
qed

lemma join_with_components_last:
  assumes "wf_components cs" "cs \<noteq> []"
  shows "join_with slash cs \<noteq> []" "last (join_with slash cs) \<noteq> slash"
    "hd (join_with slash cs) \<noteq> slash"
proof -
  have ne: "[] \<notin> set cs" using assms by (auto simp: wf_components_def)
  then show "join_with slash cs \<noteq> []" using assms by (simp add: join_with_eq_Nil)
  have "last cs \<in> set cs" "hd cs \<in> set cs" using assms by auto
  then have "last cs \<noteq> []" "slash \<notin> set (last cs)" "hd cs \<noteq> []" "slash \<notin> set (hd cs)"
    using assms by (auto simp: wf_components_def)
  then show "last (join_with slash cs) \<noteq> slash" "hd (join_with slash cs) \<noteq> slash"
    using assms by (simp_all add: last_join_with hd_join_with) (metis last_in_set hd_in_set)+
qed

lemma path_components_render [simp]:
  "wf_components cs \<Longrightarrow> path_components (render_path cs d) = cs"
  by (cases "cs = []") (simp_all add: render_path_def path_components_join)

lemma ends_with_render:
  "wf_components cs \<Longrightarrow> ends_with_char (render_path cs d) slash \<longleftrightarrow> cs = [] \<or> d"
  using join_with_components_last[of cs]
  by (auto simp: render_path_def ends_with_char_def)

lemma wf_path_render: "wf_components cs \<Longrightarrow> wf_path (render_path cs d)"
  by (auto simp: wf_path_def ends_with_render) (auto simp: render_path_def)

lemma wf_path_normalize [simp]: "wf_path (normalize_path s)"
  by (simp add: normalize_path_render wf_path_render)

lemma wf_path_cases:
  assumes "wf_path p"
  obtains (top) "p = [slash]"
    | (leaf) cs where "cs \<noteq> []" "wf_components cs" "p = join_with slash cs"
    | (folder) cs where "cs \<noteq> []" "wf_components cs" "p = join_with slash cs @ [slash]"
  using assms unfolding wf_path_def render_path_def
  by (metis append_Nil2 wf_path_components)

lemma wf_path_not_slash_start: "wf_path p \<Longrightarrow> p \<noteq> [slash] \<Longrightarrow> p \<noteq> [] \<and> hd p \<noteq> slash"
  by (erule wf_path_cases) (auto dest: join_with_components_last)

lemma ws_free_end_join:
  assumes "wf_components cs" "cs \<noteq> []" "ws_free_end (last cs)"
  shows "ws_free_end (join_with slash cs)"
proof -
  obtain t where t: "join_with slash cs = t @ last cs" "t = [] \<or> last t = slash"
  proof (cases "butlast cs = []")
    case True
    then have "cs = [last cs]" using assms(2) by (metis append_butlast_last_id append_Nil)
    then have "join_with slash cs = last cs" by (metis join_with.simps(2))
    then show ?thesis using that[of "[]"] by simp
  next
    case False
    then have "join_with slash (butlast cs @ [last cs]) =
        join_with slash (butlast cs) @ slash # join_with slash [last cs]"
      by (subst join_with_append) auto
    then show ?thesis using that[of "join_with slash (butlast cs) @ [slash]"] assms(2) by simp
  qed
  show ?thesis
    unfolding ws_free_end_def
  proof (intro ballI notI)
    fix w assume w: "w \<in> set whitespace" "ends_with (join_with slash cs) w"
    then obtain u where u: "t @ last cs = u @ w" using t by (auto simp: ends_with_iff)
    have "(\<exists>v. last cs = v @ w) \<or> (\<exists>v. v \<noteq> [] \<and> w = v @ last cs \<and> t = u @ v)"
      using u by (force simp: append_eq_append_conv2)
    then consider v where "last cs = v @ w" | v where "v \<noteq> []" "w = v @ last cs" "t = u @ v"
      by blast
    then show False
    proof cases
      case 1
      then show ?thesis using assms(3) w(1) by (auto simp: ws_free_end_def ends_with_iff)
    next
      case 2
      then have "last v = slash" using t(2) by auto
      then have "slash \<in> set w" using 2(1,2) by (metis UnCI last_in_set set_append)
      then show ?thesis using whitespace_no_slash[OF w(1)] by simp
    qed
  qed
qed

lemma last_component:
  assumes "path_components s \<noteq> []" "\<not> ends_with_char s slash"
  shows "\<exists>t. s = t @ last (path_components s)"
proof -
  obtain t where t: "s = t @ last (split_on slash s)" "t = [] \<or> last t = slash"
    using last_split_on_suffix[of s slash] by blast
  have "last (split_on slash s) \<noteq> []"
  proof
    assume "last (split_on slash s) = []"
    then have "s = t" using t(1) by (metis append_Nil2)
    with t(2) assms show False by (auto simp: ends_with_char_def)
  qed
  then have "last (split_on slash s) = last (path_components s)"
    unfolding path_components_def by (simp add: last_filter)
  from t(1)[unfolded this] show ?thesis by (rule exI)
qed

lemma normalize_path_idem_aux:
  assumes "ws_free_start (normalize_path s)"
  shows "normalize_path (normalize_path s) = normalize_path s"
proof -
  let ?t = "trim s" and ?cs = "path_components (trim s)"
  have "ws_free_end (normalize_path s)"
  proof (cases "?cs = [] \<or> ends_with_char ?t slash")
    case True
    then show ?thesis
      using ws_free_end_slash[of "[]"] by (auto simp: normalize_path_render render_path_def)
  next
    case False
    then obtain t where "?t = t @ last ?cs" using last_component by blast
    then have "ws_free_end (last ?cs)" using ws_free_end_trim ws_free_suffix by metis
    with False show ?thesis
      by (simp add: normalize_path_render render_path_def ws_free_end_join)
  qed
  then have "trim (normalize_path s) = normalize_path s" using assms by (simp add: trim_id)
  moreover have "wf_path (normalize_path s)" by simp
  ultimately show ?thesis unfolding wf_path_def by (metis normalize_path_render)
qed

subsection \<open>Roots\<close>

lemma join_slash_concat:
  "cs \<noteq> [] \<Longrightarrow> join_with slash cs @ [slash] = concat (map (\<lambda>c. c @ [slash]) cs)"
  by (induction slash cs rule: join_with.induct) auto

lemma path_components_concat:
  "wf_components cs \<Longrightarrow> path_components (concat (map (\<lambda>c. c @ [slash]) cs)) = cs"
  using join_slash_concat[of cs] path_components_join[of cs]
  by (cases "cs = []") (simp, metis path_components_append_slash)

lemma path_components_render_root [simp]:
  "wf_components cs \<Longrightarrow> path_components (render_root cs) = cs"
  by (simp add: render_root_def path_components_concat)

lemma normalize_root_render: "normalize_root s = render_root (path_components s)"
proof (cases "path_components s = []")
  case True
  then show ?thesis
    by (simp add: normalize_root_def path_components_def render_root_def ends_with_char_def)
next
  case False
  note last = join_with_components_last[OF wf_path_components False]
  have "join_with slash (filter (\<lambda>v. v \<noteq> []) (split_on slash s)) =
      join_with slash (path_components s)" by (simp add: path_components_def)
  with last show ?thesis
    using join_slash_concat[OF False]
    by (simp add: normalize_root_def render_root_def Let_def starts_with_char_def
        ends_with_char_def)
qed

lemma wf_root_render [simp]: "wf_components cs \<Longrightarrow> wf_root (render_root cs)"
  by (simp add: wf_root_def)

lemma wf_root_cases:
  assumes "wf_root r"
  obtains (top) "r = [slash]"
    | (below) c r' where "r = slash # c # r'" "c \<noteq> slash" "ends_with_char r slash"
proof (cases "path_components r")
  case Nil
  with assms show ?thesis by (intro top) (simp add: wf_root_def render_root_def)
next
  case (Cons a as)
  then have a: "a \<noteq> []" "slash \<notin> set a"
    using wf_path_components[of r] by (auto simp: wf_components_def)
  obtain c a' where ca: "a = c # a'" using a by (cases a) auto
  have r: "r = slash # concat (map (\<lambda>c. c @ [slash]) (a # as))"
    using assms Cons unfolding wf_root_def render_root_def by simp
  have "last (concat (map (\<lambda>c. c @ [slash]) (a # as))) = slash"
    by (induction as arbitrary: a) auto
  then have "ends_with_char r slash" unfolding r by (simp add: ends_with_char_def)
  then show ?thesis
    using below[of c "a' @ [slash] @ concat (map (\<lambda>c. c @ [slash]) as)"] r ca a by auto
qed

subsection \<open>Parents\<close>

text \<open>Every path but the empty one and the root has one of four shapes.\<close>

lemma path_shapes:
  assumes "p \<noteq> []" "p \<noteq> [slash]"
  obtains (name) t where "p = t" "t \<noteq> []" "slash \<notin> set t"
    | (below) q t where "p = q @ slash # t" "t \<noteq> []" "slash \<notin> set t"
    | (name_dir) t where "p = t @ [slash]" "t \<noteq> []" "slash \<notin> set t"
    | (below_dir) q t where "p = q @ slash # t @ [slash]" "slash \<notin> set t"
proof (cases "ends_with_char p slash")
  case False
  show ?thesis
  proof (cases rule: rfind_char_cases[of slash p])
    case none
    then show ?thesis using assms name by blast
  next
    case (some q t)
    then have "t \<noteq> []" using False by (auto simp: ends_with_char_def)
    with some show ?thesis using below by blast
  qed
next
  case True
  then obtain q where q: "p = q @ [slash]" by (auto simp: ends_with_char_iff)
  show ?thesis
  proof (cases rule: rfind_char_cases[of slash q])
    case none
    then show ?thesis using q assms name_dir by auto
  next
    case (some q' t)
    then show ?thesis using q below_dir by auto
  qed
qed

lemma get_parent_shapes [simp]:
  "slash \<notin> set t \<Longrightarrow> get_parent t = [slash]"
  "t \<noteq> [] \<Longrightarrow> slash \<notin> set t \<Longrightarrow> get_parent (q @ slash # t) = q @ [slash]"
  "slash \<notin> set t \<Longrightarrow> get_parent (t @ [slash]) = [slash]"
  "slash \<notin> set t \<Longrightarrow> get_parent (q @ slash # t @ [slash]) = q @ [slash]"
  by (auto simp: get_parent_def butlast_append append_eq_Cons_conv)

lemma get_basename_shapes [simp]:
  "slash \<notin> set t \<Longrightarrow> get_basename t = t"
  "t \<noteq> [] \<Longrightarrow> slash \<notin> set t \<Longrightarrow> get_basename (q @ slash # t) = t"
  "t \<noteq> [] \<Longrightarrow> slash \<notin> set t \<Longrightarrow> get_basename (t @ [slash]) = t @ [slash]"
  "slash \<notin> set t \<Longrightarrow> get_basename (q @ slash # t @ [slash]) = t @ [slash]"
  by (auto simp: get_basename_def butlast_append append_eq_Cons_conv split_on_plain
      split_on_append_sep)

lemma get_parent_basename_aux:
  assumes "p \<noteq> []" "p \<noteq> [slash]"
  shows "(get_parent p = [slash] \<and> get_basename p = p \<and> slash \<notin> set (butlast p)) \<or>
         get_parent p @ get_basename p = p"
  using assms by (cases rule: path_shapes) (auto dest: in_set_butlastD)

lemma get_parent_shorter: "p \<noteq> [slash] \<Longrightarrow> p \<noteq> [] \<Longrightarrow>
    get_parent p = [slash] \<or> length (get_parent p) < length p"
  by (cases rule: path_shapes[of p]) auto

lemma get_parent_ends: "ends_with_char (get_parent p) slash"
proof (cases "p = [] \<or> p = [slash]")
  case True
  then show ?thesis by (auto simp: get_parent_def ends_with_char_def)
next
  case False
  then have "p \<noteq> []" "p \<noteq> [slash]" by auto
  then show ?thesis by (cases rule: path_shapes) (auto simp: ends_with_char_Cons)
qed

subsection \<open>Relative and absolute paths\<close>

lemma str_from_append [simp]: "valid_str t \<Longrightarrow> str_from (s @ t) (length s) = Some t"
  by (cases t) (auto simp: str_from_def is_char_boundary_def valid_str_def nth_append)

lemma str_from_root [simp]:
  assumes "wf_root r" "valid_str (tl r)"
  shows "str_from r 1 = Some (tl r)"
proof -
  have "r = [slash] @ tl r" using assms(1) by (rule wf_root_cases) auto
  then show ?thesis using str_from_append[OF assms(2), of "[slash]"] by simp
qed

subsection \<open>Lengths\<close>

lemma length_join_filter:
  "length (join_with c (filter (\<lambda>v. v \<noteq> []) ps)) \<le> length (join_with c ps)"
proof (induction c ps rule: join_with.induct)
  case (3 c x y ys)
  then show ?case
    by (cases "filter (\<lambda>v. v \<noteq> []) (y # ys) = []") (auto simp: join_with_Cons)
qed auto

lemma length_join_components: "length (join_with slash (path_components s)) \<le> length s"
  unfolding path_components_def using length_join_filter[of slash "split_on slash s"] by simp

lemma length_render_components:
  "length (render_path (path_components s) (ends_with_char s slash)) \<le> max 1 (length s)"
proof (cases "ends_with_char s slash")
  case True
  then obtain q where "s = q @ [slash]" by (auto simp: ends_with_char_iff)
  then show ?thesis using length_join_components[of q] by (auto simp: render_path_def)
next
  case False
  then show ?thesis using length_join_components[of s] by (auto simp: render_path_def)
qed

lemma length_trim: "length (trim s) \<le> length (trim_start s)"
  using trim_end_prefix[of "trim_start s"] unfolding trim_def by (metis le_add1 length_append)

lemma length_trim_less: "\<not> ws_free_start s \<Longrightarrow> length (trim s) < length s"
proof -
  assume "\<not> ws_free_start s"
  then have "trim_start s \<noteq> s" using ws_free_start_trim_start[of s] by metis
  moreover obtain t where "s = t @ trim_start s"
    using strip_heads_suffix[of s whitespace] unfolding trim_start_def by blast
  ultimately have "length (trim_start s) < length s"
    by (metis append_Nil length_append length_greater_0_conv less_add_same_cancel2)
  then show ?thesis using length_trim[of s] by linarith
qed

lemma ws_free_start_slash: "ws_free_start [slash]"
  by (auto simp: ws_free_start_def whitespace_def)

lemma get_parent_iterate: "(get_parent ^^ Suc (length p)) p = [slash]"
proof -
  have fix_root: "(get_parent ^^ n) [slash] = [slash]" for n
    by (induction n) (simp_all add: get_parent_def)
  have "length p \<le> n \<Longrightarrow> (get_parent ^^ Suc n) p = [slash]" for n
  proof (induction n arbitrary: p)
    case 0
    then show ?case by (simp add: get_parent_def)
  next
    case (Suc n)
    show ?case
    proof (cases "p = [] \<or> get_parent p = [slash]")
      case True
      then have "get_parent p = [slash]" by (auto simp: get_parent_def)
      then show ?thesis using fix_root[of "Suc n"] by (simp only: funpow_Suc_right o_apply)
    next
      case False
      then have "length (get_parent p) < length p"
        using get_parent_shorter[of p] by (cases "p = [slash]") (auto simp: get_parent_def)
      then have "(get_parent ^^ Suc n) (get_parent p) = [slash]"
        using Suc by (intro Suc.IH) linarith
      then show ?thesis by (simp only: funpow_Suc_right o_apply)
    qed
  qed
  then show ?thesis by blast
qed

section \<open>Properties\<close>

text \<open>
  C32: \<open>normalize_path\<close> computes the canonical form of a path.  Its result is the rendering of
  the non-empty components of the trimmed input, with a trailing slash exactly when the trimmed
  input has one (and the root \<open>/\<close> when there is no component), and it is well formed.
\<close>

theorem normalize_path_canonical:
  "normalize_path s = render_path (path_components (trim s)) (ends_with_char (trim s) slash) \<and>
   path_components (normalize_path s) = path_components (trim s) \<and>
   wf_path (normalize_path s)"
  by (metis normalize_path_render path_components_render wf_path_components wf_path_normalize)

text \<open>
  \<open>normalize_path\<close> is idempotent on an input exactly when its output does not start with
  white space.  (White space that was hidden behind leading slashes, as in \<open>"/ abc"\<close>, survives
  the first call and is trimmed by the second.)
\<close>

theorem normalize_path_idempotent_iff:
  "normalize_path (normalize_path s) = normalize_path s \<longleftrightarrow> ws_free_start (normalize_path s)"
proof
  let ?p = "normalize_path s"
  assume eq: "normalize_path ?p = ?p"
  show "ws_free_start ?p"
  proof (rule ccontr)
    assume not_free: "\<not> ws_free_start ?p"
    have "length ?p = length (render_path (path_components (trim ?p)) (ends_with_char (trim ?p) slash))"
      using eq by (metis normalize_path_render)
    also have "\<dots> \<le> max 1 (length (trim ?p))" by (rule length_render_components)
    finally have "length ?p \<le> 1" using length_trim_less[OF not_free] by simp
    then have "length (trim ?p) = 0" using length_trim_less[OF not_free] by linarith
    then have "trim ?p = []" by simp
    then have "?p = [slash]" using eq by (simp add: normalize_path_render render_path_def)
    with not_free ws_free_start_slash show False by simp
  qed
qed (rule normalize_path_idem_aux)

text \<open>
  \<open>normalize_root\<close> gives the canonical root with the same components (it starts and ends
  with a slash and has no empty component), and applying it twice is applying it once.
\<close>

theorem normalize_root_canonical:
  "normalize_root s = render_root (path_components s) \<and> wf_root (normalize_root s) \<and>
   normalize_root (normalize_root s) = normalize_root s"
  by (simp add: normalize_root_render)

text \<open>
  \<open>build_rel_path\<close> undoes \<open>build_abs_path\<close> and \<open>build_rooted_abs_path\<close> for a
  well-formed root and any relative path other than the root, and none of them panics.
\<close>

theorem rel_abs_roundtrip:
  assumes "wf_root root" "valid_str (tl root)" "valid_str path"
    and "path \<noteq> []" "\<not> starts_with_char path slash"
  shows "build_rel_path root (build_rooted_abs_path root path) = Some path \<and>
    (\<exists>p. build_abs_path root path = Some p \<and> build_rel_path root p = Some path)"
proof -
  have ne: "path \<noteq> [slash]" using assms(5) by auto
  have "starts_with_char (root @ path) slash" using assms(1) by (rule wf_root_cases) auto
  then have rooted: "build_rel_path root (build_rooted_abs_path root path) = Some path"
    using ne assms(3) by (simp add: build_rel_path_def build_rooted_abs_path_def)
  have p: "build_abs_path root path = Some (tl root @ path)"
    using ne str_from_root[OF assms(1,2)] by (simp add: build_abs_path_def)
  have "\<not> starts_with_char (tl root @ path) slash" "root \<noteq> []"
    "length root - 1 = length (tl root)"
    using assms(1,5) by (auto elim!: wf_root_cases)
  then have "build_rel_path root (tl root @ path) = Some path"
    using str_from_append[OF assms(3), of "tl root"] by (simp add: build_rel_path_def)
  with p rooted show ?thesis by blast
qed

text \<open>
  \<open>get_parent\<close> and \<open>get_basename\<close> split a path.  Their concatenation is the path,
  or the parent is the root and the base name is the whole path; the parent is a directory path,
  the base name has no inner slash and has the path's own mode.
\<close>

theorem parent_basename_split:
  assumes "p \<noteq> []" "p \<noteq> [slash]"
  shows "(get_parent p @ get_basename p = p \<or> get_parent p = [slash] \<and> get_basename p = p) \<and>
    ends_with_char (get_parent p) slash \<and>
    slash \<notin> set (butlast (get_basename p)) \<and>
    mode_from_path (get_basename p) = mode_from_path p"
proof -
  have "slash \<notin> set (butlast (get_basename p))"
    using assms by (cases rule: path_shapes) (auto dest: in_set_butlastD)
  moreover have "mode_from_path (get_basename p) = mode_from_path p"
    using assms by (cases rule: path_shapes) (auto simp: mode_from_path_def)
  ultimately show ?thesis using get_parent_basename_aux[OF assms] get_parent_ends by blast
qed

text \<open>
  Climbing with \<open>get_parent\<close> reaches the root from every path, in at most one step more
  than the path has bytes; the loops over parents of the source therefore end.
\<close>

theorem get_parent_reaches_root: "(get_parent ^^ Suc (length p)) p = [slash]"
  by (rule get_parent_iterate)

end
