(* ===== verification/Ranges.thy ===== *)
theory Ranges
  imports Errors
begin

text \<open>
  Byte ranges of HTTP requests and responses: \<open>BytesRange\<close> of
  \<open>core/core/src/raw/http_util/bytes_range.rs\<close> and \<open>BytesContentRange\<close> of
  \<open>core/core/src/raw/http_util/bytes_content_range.rs\<close>, with their printers and parsers.
  Plain \<open>+\<close> on \<open>u64\<close> wraps around, as in a release build; \<open>checked_add\<close> and
  \<open>saturating_add\<close> are the functions of theory Prelude.  A \<open>to_header\<close> whose
  \<open>Display\<close> fails panics and is \<open>None\<close>.
\<close>

section \<open>BytesRange\<close>

datatype 'a bound = Included 'a | Excluded 'a | Unbounded

datatype bytes_range = BytesRange (br_offset: u64) (br_size: "u64 option")

definition br_advance :: "bytes_range \<Rightarrow> u64 \<Rightarrow> bytes_range option" where
  "br_advance r n =
     (case checked_add_u64 (br_offset r) n of
        None \<Rightarrow> None
      | Some offset \<Rightarrow>
          (case br_size r of
             None \<Rightarrow> Some (BytesRange offset None)
           | Some sz \<Rightarrow>
               (case checked_sub_u64 sz n of
                  None \<Rightarrow> None
                | Some sz_new \<Rightarrow> Some (BytesRange offset (Some sz_new)))))"

text \<open>\<open>Display\<close>: \<open>None\<close> is the formatting error.\<close>

definition show_bytes_range :: "bytes_range \<Rightarrow> str option" where
  "show_bytes_range r =
     (case br_size r of
        None \<Rightarrow> Some (show_u64 (br_offset r) @ ''-'')
      | Some sz \<Rightarrow>
          (if sz = 0 then None
           else case checked_add_u64 (br_offset r) (sz - 1) of
                  None \<Rightarrow> None
                | Some stop \<Rightarrow> Some (show_u64 (br_offset r) @ ''-'' @ show_u64 stop)))"

definition br_to_header :: "bytes_range \<Rightarrow> str option" where
  "br_to_header r = map_option (\<lambda>t. ''bytes='' @ t) (show_bytes_range r)"

definition br_to_range :: "bytes_range \<Rightarrow> (u64 bound \<times> u64 bound) option" where
  "br_to_range r =
     (case br_size r of
        Some sz \<Rightarrow>
          (case checked_add_u64 (br_offset r) sz of
             Some stop \<Rightarrow> Some (Included (br_offset r), Excluded stop)
           | None \<Rightarrow> None)
      | None \<Rightarrow> Some (Included (br_offset r), Unbounded))"

text \<open>\<open>try_into::<usize>()\<close>, which never fails where \<open>usize\<close> has 64 bits.\<close>

definition usize_of_u64 :: "u64 \<Rightarrow> usize option" where
  "usize_of_u64 w = (if unat w \<le> usize_max then Some (unat w) else None)"

definition br_to_range_as_usize :: "bytes_range \<Rightarrow> (usize bound \<times> usize bound) option" where
  "br_to_range_as_usize r =
     (case usize_of_u64 (br_offset r) of
        None \<Rightarrow> None
      | Some offset \<Rightarrow>
          (case br_size r of
             Some sz \<Rightarrow>
               (case Option.bind (checked_add_u64 (br_offset r) sz) usize_of_u64 of
                  Some stop \<Rightarrow> Some (Included offset, Excluded stop)
                | None \<Rightarrow> None)
           | None \<Rightarrow> Some (Included offset, Unbounded)))"

definition br_error :: "str \<Rightarrow> str \<Rightarrow> error" where
  "br_error msg value =
     with_context ''value'' value
       (with_operation ''BytesRange::from_str'' (error_new Unexpected msg))"

definition br_parse_int :: "str \<Rightarrow> str \<Rightarrow> u64 res" where
  "br_parse_int value s =
     (case parse_u64 s of
        Inr w \<Rightarrow> Ok w
      | Inl e \<Rightarrow> Err (set_source (show_int_error e) (br_error ''header range is invalid'' value)))"

definition br_from_str :: "str \<Rightarrow> bytes_range res" where
  "br_from_str value =
     (case strip_prefix value ''bytes='' of
        None \<Rightarrow> Err (br_error ''header range is invalid'' value)
      | Some s \<Rightarrow>
          if CHR '','' \<in> set s then Err (br_error ''header range is invalid'' value)
          else (case split_on (CHR ''-'') s of
                  [v0, v1] \<Rightarrow>
                    if v1 = [] then
                      bind_res (br_parse_int value v0) (\<lambda>start. Ok (BytesRange start None))
                    else if v0 = [] then
                      Err (br_error ''header range with tailing is not supported'' value)
                    else
                      bind_res (br_parse_int value v0) (\<lambda>start.
                      bind_res (br_parse_int value v1) (\<lambda>stop.
                        if stop < start
                        then Err (br_error ''header range is invalid: end is less than start'' value)
                        else Ok (BytesRange start (Some (stop - start + 1)))))
                | _ \<Rightarrow> Err (br_error ''header range is invalid'' value)))"

definition br_from_bounds :: "u64 bound \<Rightarrow> u64 bound \<Rightarrow> bytes_range" where
  "br_from_bounds start_bound end_bound =
     (let offset = (case start_bound of
                      Included n \<Rightarrow> n
                    | Excluded n \<Rightarrow> saturating_add_u64 n 1
                    | Unbounded \<Rightarrow> 0);
          sz = (case end_bound of
                    Included n \<Rightarrow> Some (saturating_sub_u64 (saturating_add_u64 n 1) offset)
                  | Excluded n \<Rightarrow> Some (saturating_sub_u64 n offset)
                  | Unbounded \<Rightarrow> None)
      in BytesRange offset sz)"

section \<open>BytesContentRange\<close>

datatype bytes_content_range =
  BytesContentRange (bcr_start: "u64 option") (bcr_end: "u64 option") (bcr_size: "u64 option")

definition bcr_default :: bytes_content_range where
  "bcr_default = BytesContentRange None None None"

definition bcr_with_range :: "u64 \<Rightarrow> u64 \<Rightarrow> bytes_content_range \<Rightarrow> bytes_content_range" where
  "bcr_with_range start stop b = BytesContentRange (Some start) (Some stop) (bcr_size b)"

definition bcr_with_size :: "u64 \<Rightarrow> bytes_content_range \<Rightarrow> bytes_content_range" where
  "bcr_with_size sz b = BytesContentRange (bcr_start b) (bcr_end b) (Some sz)"

definition bcr_len :: "bytes_content_range \<Rightarrow> u64 option" where
  "bcr_len b =
     (case (bcr_start b, bcr_end b) of
        (Some start, Some stop) \<Rightarrow> if stop < start then Some 0 else Some (stop - start + 1)
      | _ \<Rightarrow> None)"

text \<open>\<open>Display\<close>; the \<open>unreachable!\<close> branch panics.\<close>

definition show_bytes_content_range :: "bytes_content_range \<Rightarrow> str option" where
  "show_bytes_content_range b =
     (case (bcr_start b, bcr_end b, bcr_size b) of
        (Some start, Some stop, Some sz) \<Rightarrow>
          Some (show_u64 start @ ''-'' @ show_u64 stop @ ''/'' @ show_u64 sz)
      | (Some start, Some stop, None) \<Rightarrow> Some (show_u64 start @ ''-'' @ show_u64 stop @ ''/*'')
      | (None, None, Some sz) \<Rightarrow> Some (''*/'' @ show_u64 sz)
      | _ \<Rightarrow> None)"

definition bcr_to_header :: "bytes_content_range \<Rightarrow> str option" where
  "bcr_to_header b = map_option (\<lambda>t. ''bytes '' @ t) (show_bytes_content_range b)"

definition bcr_error :: "str \<Rightarrow> str \<Rightarrow> error" where
  "bcr_error msg value =
     with_context ''value'' value
       (with_operation ''BytesContentRange::from_str'' (error_new Unexpected msg))"

definition bcr_parse_int :: "str \<Rightarrow> str \<Rightarrow> u64 res" where
  "bcr_parse_int value s =
     (case parse_u64 s of
        Inr w \<Rightarrow> Ok w
      | Inl e \<Rightarrow>
          Err (set_source (show_int_error e) (bcr_error ''header content range is invalid'' value)))"

definition bcr_from_str :: "str \<Rightarrow> bytes_content_range res" where
  "bcr_from_str value =
     (case strip_prefix value ''bytes '' of
        None \<Rightarrow> Err (bcr_error ''header content range is invalid'' value)
      | Some s \<Rightarrow>
          (case strip_prefix s ''*/'' of
             Some sz \<Rightarrow>
               bind_res (bcr_parse_int value sz) (\<lambda>sz. Ok (bcr_with_size sz bcr_default))
           | None \<Rightarrow>
               (case split_on slash s of
                  [s0, s1] \<Rightarrow>
                    (case split_on (CHR ''-'') s0 of
                       [v0, v1] \<Rightarrow>
                         bind_res (bcr_parse_int value v0) (\<lambda>start.
                         bind_res (bcr_parse_int value v1) (\<lambda>stop.
                           if stop < start
                           then Err (bcr_error
                                  ''header content range is invalid: end is less than start'' value)
                           else
                             (let bcr = bcr_with_range start stop bcr_default
                              in if s1 \<noteq> ''*''
                                 then bind_res (bcr_parse_int value s1)
                                        (\<lambda>sz. Ok (bcr_with_size sz bcr))
                                 else Ok bcr)))
                     | _ \<Rightarrow> Err (bcr_error ''header content range is invalid'' value))
                | _ \<Rightarrow> Err (bcr_error ''header content range is invalid'' value))))"

section \<open>Specification: the positions a range covers\<close>

definition br_covers :: "bytes_range \<Rightarrow> nat \<Rightarrow> bool" where
  "br_covers r x \<longleftrightarrow>
     unat (br_offset r) \<le> x \<and>
     (case br_size r of None \<Rightarrow> True | Some sz \<Rightarrow> x < unat (br_offset r) + unat sz)"

fun start_admits :: "u64 bound \<Rightarrow> nat \<Rightarrow> bool" where
  "start_admits (Included n) x \<longleftrightarrow> unat n \<le> x"
| "start_admits (Excluded n) x \<longleftrightarrow> unat n < x"
| "start_admits Unbounded x \<longleftrightarrow> True"

fun end_admits :: "u64 bound \<Rightarrow> nat \<Rightarrow> bool" where
  "end_admits (Included n) x \<longleftrightarrow> x \<le> unat n"
| "end_admits (Excluded n) x \<longleftrightarrow> x < unat n"
| "end_admits Unbounded x \<longleftrightarrow> True"

definition bcr_wf :: "bytes_content_range \<Rightarrow> bool" where
  "bcr_wf b \<longleftrightarrow>
     (case (bcr_start b, bcr_end b, bcr_size b) of
        (Some start, Some stop, _) \<Rightarrow> start \<le> stop
      | (None, None, Some _) \<Rightarrow> True
      | _ \<Rightarrow> False)"

section \<open>Lemmas\<close>

lemma br_parse_int_show [simp]: "br_parse_int value (show_u64 w) = Ok w"
  by (simp add: br_parse_int_def)

lemma bcr_parse_int_show [simp]: "bcr_parse_int value (show_u64 w) = Ok w"
  by (simp add: bcr_parse_int_def)

lemma split_dash [simp]:
  "split_on (CHR ''-'') (show_u64 a @ CHR ''-'' # t) = show_u64 a # split_on (CHR ''-'') t"
  "split_on (CHR ''-'') (show_u64 a) = [show_u64 a]"
  by (simp_all add: split_on_append split_on_plain show_u64_free)

lemma br_from_str_open:
  "br_from_str (''bytes='' @ show_u64 a @ ''-'') = Ok (BytesRange a None)"
  using strip_prefix_append[of "''bytes=''"]
  by (simp add: br_from_str_def show_u64_free)

lemma br_from_str_closed:
  "br_from_str (''bytes='' @ show_u64 a @ ''-'' @ show_u64 b) =
     (if b < a then Err (br_error ''header range is invalid: end is less than start''
                          (''bytes='' @ show_u64 a @ ''-'' @ show_u64 b))
      else Ok (BytesRange a (Some (b - a + 1))))"
  using strip_prefix_append[of "''bytes=''"]
  by (simp add: br_from_str_def show_u64_free)

lemma end_minus_start:
  assumes "sz \<noteq> 0" "checked_add_u64 a (sz - 1) = Some b"
  shows "\<not> b < a" "b - a + 1 = sz"
proof -
  have u: "unat b = unat a + unat (sz - 1)"
    using assms(2) by (simp add: checked_add_u64_Some_iff)
  then show "\<not> b < a" by (simp add: word_less_nat_alt)
  from u have "a \<le> b" by (simp add: word_le_nat_alt)
  then have "unat (b - a) = unat (sz - 1)" using u by (simp add: unat_sub_u64)
  then have "b - a = sz - 1" by (simp add: word_unat_eq_iff)
  then show "b - a + 1 = sz" by simp
qed

lemma br_from_bounds_offset:
  "br_offset (br_from_bounds s e) =
     (case s of Included n \<Rightarrow> n | Excluded n \<Rightarrow> saturating_add_u64 n 1 | Unbounded \<Rightarrow> 0)"
  by (simp add: br_from_bounds_def Let_def)

lemma br_from_bounds_size:
  "br_size (br_from_bounds s e) =
     (case e of
        Included n \<Rightarrow>
          Some (saturating_sub_u64 (saturating_add_u64 n 1) (br_offset (br_from_bounds s e)))
      | Excluded n \<Rightarrow> Some (saturating_sub_u64 n (br_offset (br_from_bounds s e)))
      | Unbounded \<Rightarrow> None)"
  by (cases e) (simp_all add: br_from_bounds_def Let_def)

lemma br_from_bounds_start:
  "x < 2 ^ 64 - 1 \<Longrightarrow> unat (br_offset (br_from_bounds s e)) \<le> x \<longleftrightarrow> start_admits s x"
  by (cases s) (auto simp: br_from_bounds_offset unat_saturating_add_u64)

lemma br_from_bounds_end:
  assumes "x < 2 ^ 64 - 1" "unat (br_offset (br_from_bounds s e)) \<le> x"
  shows "(case br_size (br_from_bounds s e) of None \<Rightarrow> True
          | Some sz \<Rightarrow> x < unat (br_offset (br_from_bounds s e)) + unat sz) \<longleftrightarrow> end_admits e x"
  using assms
  by (cases e) (auto simp: br_from_bounds_size unat_saturating_add_u64 unat_saturating_sub_u64)

lemma br_from_bounds_no_overflow:
  "br_size (br_from_bounds s e) = Some sz \<Longrightarrow>
     unat (br_offset (br_from_bounds s e)) + unat sz < 2 ^ 64"
  using unat_lt_u64[of "br_offset (br_from_bounds s e)"]
    unat_lt_u64[of "case e of Excluded n \<Rightarrow> n | _ \<Rightarrow> 0"]
  by (cases e) (auto simp: br_from_bounds_size unat_saturating_sub_u64 unat_saturating_add_u64)

lemma br_to_range_covers:
  "br_to_range r = Some (lo, hi) \<Longrightarrow> start_admits lo x \<and> end_admits hi x \<longleftrightarrow> br_covers r x"
  by (auto simp: br_to_range_def br_covers_def checked_add_u64_Some_iff split: option.splits)

lemma bcr_from_str_wf: "bcr_from_str h = Ok b \<Longrightarrow> bcr_wf b"
  unfolding bcr_from_str_def
  by (auto split: option.splits list.splits if_splits
      simp: bind_res_Ok_iff bcr_wf_def bcr_with_size_def bcr_with_range_def bcr_default_def Let_def)

lemma strip_star [simp]: "strip_prefix (show_u64 a @ t) (CHR ''*'' # u) = None"
  using show_u64_free(5)[of a] show_u64_not_Nil[of a]
  by (cases "show_u64 a") (auto simp: strip_prefix_def)

lemma split_slash [simp]:
  "split_on slash (show_u64 a @ CHR ''-'' # show_u64 b @ slash # t) =
     (show_u64 a @ CHR ''-'' # show_u64 b) # split_on slash t"
  "split_on slash (show_u64 a) = [show_u64 a]"
  using split_on_append[of slash "show_u64 a @ CHR ''-'' # show_u64 b" t]
  by (simp_all add: split_on_plain show_u64_free)

lemma show_u64_not_star [simp]: "show_u64 a \<noteq> ''*''"
  using show_u64_free(5)[of a] by force

lemma bcr_roundtrip_aux:
  assumes "bcr_wf b" shows "\<exists>h. bcr_to_header b = Some h \<and> bcr_from_str h = Ok b"
proof (cases b)
  case (BytesContentRange s e z)
  have pre: "strip_prefix (''bytes '' @ t) ''bytes '' = Some t" for t
    by (rule strip_prefix_append)
  have star: "strip_prefix (''*/'' @ t) ''*/'' = Some t" for t
    by (rule strip_prefix_append)
  show ?thesis
  proof (cases s)
    case None
    with assms BytesContentRange obtain sz where "e = None" "z = Some sz"
      by (auto simp: bcr_wf_def split: option.splits)
    with BytesContentRange None show ?thesis
      using pre[of "''*/'' @ show_u64 sz"] star[of "show_u64 sz"]
      by (simp add: bcr_to_header_def show_bytes_content_range_def bcr_from_str_def
          bcr_with_size_def bcr_default_def)
  next
    case (Some a)
    with assms BytesContentRange obtain c where c: "e = Some c" "a \<le> c"
      by (auto simp: bcr_wf_def split: option.splits)
    show ?thesis
    proof (cases z)
      case None
      with BytesContentRange Some c show ?thesis
        using pre[of "show_u64 a @ ''-'' @ show_u64 c @ ''/*''"]
        by (simp add: bcr_to_header_def show_bytes_content_range_def bcr_from_str_def
            bcr_with_range_def bcr_default_def)
    next
      case (Some sz)
      with BytesContentRange \<open>s = Some a\<close> c show ?thesis
        using pre[of "show_u64 a @ ''-'' @ show_u64 c @ ''/'' @ show_u64 sz"]
        by (simp add: bcr_to_header_def show_bytes_content_range_def bcr_from_str_def
            bcr_with_range_def bcr_with_size_def bcr_default_def Let_def)
    qed
  qed
qed

section \<open>Properties\<close>

text \<open>
  C34: Printing a \<open>BytesRange\<close> as a \<open>Range\<close> header and parsing the header gives the range
  back; printing fails (panics) exactly for an empty range and for a range whose last position
  does not fit in 64 bits.
\<close>

theorem bytes_range_roundtrip:
  "(case br_to_header r of Some h \<Rightarrow> br_from_str h = Ok r | None \<Rightarrow> True) \<and>
   (br_to_header r = None \<longleftrightarrow>
      (\<exists>sz. br_size r = Some sz \<and> (sz = 0 \<or> 2 ^ 64 \<le> unat (br_offset r) + unat (sz - 1))))"
proof (cases r)
  case (BytesRange a s)
  show ?thesis
  proof (cases s)
    case None
    then show ?thesis
      using BytesRange br_from_str_open[of a] by (simp add: br_to_header_def show_bytes_range_def)
  next
    case (Some sz)
    show ?thesis
    proof (cases "sz = 0 \<or> checked_add_u64 a (sz - 1) = None")
      case True
      with BytesRange Some show ?thesis
        using checked_add_u64_None_iff[of a "sz - 1"]
        by (cases "sz = 0") (auto simp: br_to_header_def show_bytes_range_def)
    next
      case False
      then obtain b where b: "sz \<noteq> 0" "checked_add_u64 a (sz - 1) = Some b" by auto
      with BytesRange Some show ?thesis
        using br_from_str_closed[of a b] end_minus_start[OF b] checked_add_u64_None_iff[of a "sz - 1"]
        by (simp add: br_to_header_def show_bytes_range_def)
    qed
  qed
qed

text \<open>
  Parsing \<open>bytes=a-b\<close> with \<open>a \<le> b\<close> gives offset \<open>a\<close> and size \<open>b - a + 1\<close>, with one
  exception: the range of all \<open>2^64\<close> positions wraps around to an empty range.
\<close>

theorem bytes_range_parse_size:
  assumes "a \<le> b"
  shows "\<exists>sz. br_from_str (''bytes='' @ show_u64 a @ ''-'' @ show_u64 b) =
                Ok (BytesRange a (Some sz)) \<and>
              unat sz = (if a = 0 \<and> b = u64_max then 0 else unat b - unat a + 1)"
proof -
  have "unat (b - a) = unat b - unat a" using assms by (rule unat_sub_u64)
  then have "unat (b - a + 1) = (unat b - unat a + 1) mod 2 ^ 64"
    by (simp add: unat_word_ariths)
  moreover have "unat b - unat a + 1 = 2 ^ 64 \<longleftrightarrow> a = 0 \<and> b = u64_max"
    using unat_lt_u64[of b] unat_u64_max by (auto simp: word_unat_eq_iff)
  moreover have "unat b - unat a + 1 \<le> 2 ^ 64" using unat_lt_u64[of b] by simp
  ultimately have "unat (b - a + 1) = (if a = 0 \<and> b = u64_max then 0 else unat b - unat a + 1)"
    by (metis le_neq_implies_less mod_less mod_self)
  then show ?thesis using br_from_str_closed[of a b] assms by auto
qed

text \<open>
  A range built from Rust bounds covers exactly the positions the bounds admit (below
  \<open>u64::MAX\<close>, where the saturating arithmetic is exact), and converting it back to bounds
  never panics.
\<close>

theorem bytes_range_from_bounds:
  assumes "x < 2 ^ 64 - 1"
  shows "(br_covers (br_from_bounds s e) x \<longleftrightarrow> start_admits s x \<and> end_admits e x) \<and>
         (\<exists>lo hi. br_to_range (br_from_bounds s e) = Some (lo, hi) \<and>
            (start_admits lo x \<and> end_admits hi x \<longleftrightarrow> start_admits s x \<and> end_admits e x))"
proof -
  let ?r = "br_from_bounds s e"
  have covers: "br_covers ?r x \<longleftrightarrow> start_admits s x \<and> end_admits e x"
    unfolding br_covers_def
    using br_from_bounds_start[OF assms] br_from_bounds_end[OF assms] by metis
  have "br_to_range ?r \<noteq> None"
    using br_from_bounds_no_overflow[of s e]
    by (auto simp: br_to_range_def checked_add_u64_def split: option.splits)
  then obtain lo hi where "br_to_range ?r = Some (lo, hi)" by auto
  with covers br_to_range_covers show ?thesis by blast
qed

text \<open>
  \<open>BytesRange::advance\<close> by \<open>n\<close> keeps exactly the covered positions from
  \<open>offset + n\<close> on; it panics exactly when the offset overflows or \<open>n\<close> exceeds the size.
\<close>

theorem bytes_range_advance:
  "case br_advance r n of
     Some r' \<Rightarrow> (\<forall>x. br_covers r' x \<longleftrightarrow> br_covers r x \<and> unat (br_offset r) + unat n \<le> x)
   | None \<Rightarrow> 2 ^ 64 \<le> unat (br_offset r) + unat n \<or> (\<exists>sz. br_size r = Some sz \<and> sz < n)"
proof (cases "br_advance r n")
  case None
  then show ?thesis
    by (auto simp: br_advance_def checked_add_u64_None_iff checked_sub_u64_def
        split: option.splits if_splits)
next
  case (Some r')
  then show ?thesis
    by (auto simp: br_advance_def br_covers_def checked_add_u64_Some_iff checked_sub_u64_Some_iff
        split: option.splits)
qed

text \<open>
  The \<open>Content-Range\<close> parser accepts exactly well-formed values (a known range has
  \<open>start \<le> end\<close>, an unknown range has a size), and every well-formed value is printed to a
  header that parses back to it.
\<close>

theorem content_range_roundtrip:
  "(bcr_wf b \<longleftrightarrow> (\<exists>h. bcr_from_str h = Ok b)) \<and>
   (bcr_wf b \<longleftrightarrow> (\<exists>h. bcr_to_header b = Some h \<and> bcr_from_str h = Ok b))"
  using bcr_roundtrip_aux bcr_from_str_wf by blast

end
