(* ===== verification/Buffers.thy ===== *)
theory Buffers
  imports Ranges
begin

text \<open>
  The zero-copy byte buffer of \<open>core/core/src/types/buffer.rs\<close>.  A \<open>bytes::Bytes\<close> is its
  byte sequence; \<open>Arc<[Bytes]>\<close> is the list of parts.  An operation that panics (a failed
  \<open>assert!\<close>, an index or slice out of range, an underflow under overflow checks) is
  \<open>None\<close>.  Buffers live in memory, so the sums of their part lengths fit in \<open>usize\<close> and are
  natural numbers.

  The abstraction \<open>buffer_view\<close> reads a buffer as the byte sequence it stands for, and
  \<open>buffer_wf\<close> is the invariant of the representation.
\<close>

section \<open>Representation\<close>

datatype buffer =
    Contiguous bytes
  | NonContiguous (buf_parts: "bytes list") (buf_size: nat) (buf_idx: nat) (buf_offset: nat)

text \<open>\<open>&b[lo..hi]\<close> and \<open>Bytes::slice(lo..hi)\<close>; the empty \<open>parts[idx]\<close> out of range.\<close>

definition bytes_slice :: "bytes \<Rightarrow> nat \<Rightarrow> nat \<Rightarrow> bytes option" where
  "bytes_slice bs lo hi =
     (if lo \<le> hi \<and> hi \<le> length bs then Some (take (hi - lo) (drop lo bs)) else None)"

definition nth_part :: "'a list \<Rightarrow> nat \<Rightarrow> 'a option" where
  "nth_part xs i = (if i < length xs then Some (xs ! i) else None)"

section \<open>Operations\<close>

definition buffer_new :: buffer where
  "buffer_new = Contiguous []"

fun buffer_len :: "buffer \<Rightarrow> usize" where
  "buffer_len (Contiguous b) = length b"
| "buffer_len (NonContiguous parts sz idx off) = sz"

definition buffer_is_empty :: "buffer \<Rightarrow> bool" where
  "buffer_is_empty b \<longleftrightarrow> buffer_len b = 0"

fun buffer_count :: "buffer \<Rightarrow> usize" where
  "buffer_count (Contiguous b) = 1"
| "buffer_count (NonContiguous parts sz idx off) =
     fst (fold (\<lambda>bs (count, s). if s = 0 then (count, 0) else (count + 1, s - length bs))
       (drop idx parts) (0, sz + off))"

text \<open>The piece of the current part that \<open>current\<close>, \<open>chunk\<close>, \<open>fill_buf\<close> and \<open>next\<close> take.\<close>

definition current_piece :: "bytes list \<Rightarrow> nat \<Rightarrow> nat \<Rightarrow> nat \<Rightarrow> bytes option" where
  "current_piece parts sz idx off =
     (case nth_part parts idx of
        None \<Rightarrow> None
      | Some chunk \<Rightarrow>
          (if length chunk < off then None
           else bytes_slice chunk off (off + min (length chunk - off) sz)))"

fun buffer_current :: "buffer \<Rightarrow> bytes option" where
  "buffer_current (Contiguous inner) = Some inner"
| "buffer_current (NonContiguous parts sz idx off) = current_piece parts sz idx off"

fun buffer_truncate :: "buffer \<Rightarrow> usize \<Rightarrow> buffer" where
  "buffer_truncate (Contiguous bs) len = Contiguous (take len bs)"
| "buffer_truncate (NonContiguous parts sz idx off) len =
     NonContiguous parts (min sz len) idx off"

text \<open>The \<open>while\<close> loop of \<open>Buf::advance\<close>: the new index and the new offset.\<close>

function advance_loop :: "bytes list \<Rightarrow> nat \<Rightarrow> nat \<Rightarrow> nat \<Rightarrow> (nat \<times> nat) option" where
  "advance_loop parts idx off cnt =
     (if cnt = 0 then Some (idx, off)
      else case nth_part parts idx of
        None \<Rightarrow> None
      | Some part \<Rightarrow>
          (if length part < off then None
           else if cnt < length part - off then Some (idx, off + cnt)
           else advance_loop parts (idx + 1) 0 (cnt - (length part - off))))"
  by pat_completeness auto
termination
  by (relation "measure (\<lambda>(parts, idx, _, _). length parts - idx)")
    (auto simp: nth_part_def split: if_splits)

declare advance_loop.simps [simp del]

fun buffer_advance :: "buffer \<Rightarrow> usize \<Rightarrow> buffer option" where
  "buffer_advance (Contiguous b) cnt = (if cnt \<le> length b then Some (Contiguous (drop cnt b)) else None)"
| "buffer_advance (NonContiguous parts sz idx off) cnt =
     (if sz < cnt then None
      else case advance_loop parts idx off cnt of
             None \<Rightarrow> None
           | Some (idx', off') \<Rightarrow> Some (NonContiguous parts (sz - cnt) idx' off'))"

definition usize_checked_add :: "usize \<Rightarrow> usize \<Rightarrow> usize option" where
  "usize_checked_add a b = (if a + b \<le> usize_max then Some (a + b) else None)"

definition buffer_slice :: "buffer \<Rightarrow> usize bound \<Rightarrow> usize bound \<Rightarrow> buffer option" where
  "buffer_slice b start_bound end_bound =
     (let len = buffer_len b;
          begin_opt = (case start_bound of
              Included n \<Rightarrow> Some n | Excluded n \<Rightarrow> usize_checked_add n 1 | Unbounded \<Rightarrow> Some 0);
          end_opt = (case end_bound of
              Included n \<Rightarrow> usize_checked_add n 1 | Excluded n \<Rightarrow> Some n | Unbounded \<Rightarrow> Some len)
      in case (begin_opt, end_opt) of
           (Some lo, Some hi) \<Rightarrow>
             (if \<not> lo \<le> hi then None
              else if \<not> hi \<le> len then None
              else if hi = lo then Some buffer_new
              else buffer_advance (buffer_truncate b hi) lo)
         | _ \<Rightarrow> None)"

text \<open>
  \<open>BufMut::put\<close> of the \<open>bytes\<close> crate is the parameter \<open>put\<close>: destination and source to the
  filled destination.
\<close>

type_synonym put_fn = "bytes \<Rightarrow> buffer \<Rightarrow> bytes option"

fun buffer_to_bytes :: "put_fn \<Rightarrow> buffer \<Rightarrow> bytes option" where
  "buffer_to_bytes put (Contiguous b) = Some b"
| "buffer_to_bytes put (NonContiguous parts sz idx off) =
     (if length parts = 1 then bytes_slice (parts ! 0) off (off + sz)
      else put [] (NonContiguous parts sz idx off))"

definition buffer_to_vec :: "put_fn \<Rightarrow> buffer \<Rightarrow> bytes option" where
  "buffer_to_vec put b = put [] b"

text \<open>\<open>&part[new_offset..]\<close> for every part, with \<open>new_offset\<close> zero after the first.\<close>

fun slices_from :: "bytes list \<Rightarrow> nat \<Rightarrow> bytes list option" where
  "slices_from [] off = Some []"
| "slices_from (p # ps) off =
     (if length p < off then None else map_option ((#) (drop off p)) (slices_from ps 0))"

fun buffer_to_io_slice :: "buffer \<Rightarrow> bytes list option" where
  "buffer_to_io_slice (Contiguous bs) = Some [bs]"
| "buffer_to_io_slice (NonContiguous parts sz idx off) = slices_from (drop idx parts) off"

text \<open>\<open>&mut self\<close> with a result: the pair of the result and the new \<open>self\<close>.\<close>

definition buffer_split_to :: "buffer \<Rightarrow> usize \<Rightarrow> (buffer \<times> buffer) option" where
  "buffer_split_to b at =
     (if \<not> at \<le> buffer_len b then None
      else case buffer_slice b Unbounded (Excluded at) of
        None \<Rightarrow> None
      | Some head \<Rightarrow> map_option (\<lambda>b'. (head, b')) (buffer_advance b at))"

definition buffer_split_off :: "buffer \<Rightarrow> usize \<Rightarrow> (buffer \<times> buffer) option" where
  "buffer_split_off b at =
     (if \<not> at \<le> buffer_len b then None
      else case buffer_slice b (Included at) Unbounded of
        None \<Rightarrow> None
      | Some tail \<Rightarrow> Some (tail, buffer_truncate b at))"

definition buffer_from_bytes :: "bytes \<Rightarrow> buffer" where
  "buffer_from_bytes bs = Contiguous bs"

definition buffer_from_parts :: "bytes list \<Rightarrow> buffer" where
  "buffer_from_parts bs = NonContiguous bs (sum_list (map length bs)) 0 0"

definition buffer_remaining :: "buffer \<Rightarrow> usize" where
  "buffer_remaining b = buffer_len b"

fun buffer_chunk :: "buffer \<Rightarrow> bytes option" where
  "buffer_chunk (Contiguous b) = Some b"
| "buffer_chunk (NonContiguous parts sz idx off) =
     (if sz = 0 then Some [] else current_piece parts sz idx off)"

text \<open>\<open>chunks_vectored\<close>: the number of slices written and the destination after them.\<close>

fun buffer_chunks_vectored :: "buffer \<Rightarrow> bytes list \<Rightarrow> (usize \<times> bytes list) option" where
  "buffer_chunks_vectored (Contiguous b) dst =
     (case dst of [] \<Rightarrow> Some (0, []) | _ # ds \<Rightarrow> Some (1, b # ds))"
| "buffer_chunks_vectored (NonContiguous parts sz idx off) dst =
     (if dst = [] then Some (0, [])
      else map_option (\<lambda>ss. (length ss, ss @ drop (length ss) dst))
             (slices_from (take (length dst) (drop idx parts)) off))"

section \<open>Iteration\<close>

text \<open>\<open>Iterator::next\<close>: \<open>None\<close> panics; otherwise the yielded item, if any, and the new state.\<close>

fun buffer_next :: "buffer \<Rightarrow> (bytes option \<times> buffer) option" where
  "buffer_next (Contiguous bs) =
     (if bs = [] then Some (None, Contiguous bs) else Some (Some bs, Contiguous []))"
| "buffer_next (NonContiguous parts sz idx off) =
     (if sz = 0 then Some (None, NonContiguous parts sz idx off)
      else case current_piece parts sz idx off of
        None \<Rightarrow> None
      | Some piece \<Rightarrow>
          (let n = length piece; off' = off + n
           in if off' = length (parts ! idx)
              then Some (Some piece, NonContiguous parts (sz - n) (idx + 1) 0)
              else Some (Some piece, NonContiguous parts (sz - n) idx off')))"

fun buffer_size_hint :: "buffer \<Rightarrow> usize \<times> usize option" where
  "buffer_size_hint (Contiguous bs) = (if bs = [] then (0, Some 0) else (1, Some 1))"
| "buffer_size_hint (NonContiguous parts sz idx off) =
     (length parts - idx, Some (length parts - idx))"

text \<open>Running the iterator to its end, as \<open>for\<close>, \<open>flatten\<close> and \<open>collect\<close> do.\<close>

fun buffer_fuel :: "buffer \<Rightarrow> nat" where
  "buffer_fuel (Contiguous bs) = length bs"
| "buffer_fuel (NonContiguous parts sz idx off) = sz + (length parts - idx)"

lemma buffer_next_fuel:
  "buffer_next b = Some (Some piece, b') \<Longrightarrow> buffer_fuel b' < buffer_fuel b"
  by (cases b)
    (auto simp: current_piece_def nth_part_def bytes_slice_def Let_def split: if_splits option.splits)

function buffer_into_iter :: "buffer \<Rightarrow> bytes list option" where
  "buffer_into_iter b =
     (case buffer_next b of
        None \<Rightarrow> None
      | Some (None, _) \<Rightarrow> Some []
      | Some (Some piece, b') \<Rightarrow> map_option ((#) piece) (buffer_into_iter b'))"
  by pat_completeness auto
termination
  by (relation "measure buffer_fuel") (auto simp: buffer_next_fuel)

declare buffer_into_iter.simps [simp del]

section \<open>std::io traits\<close>

text \<open>\<open>Read::read\<close> into a buffer of \<open>n\<close> bytes: the bytes copied and the new state.\<close>

definition buffer_read :: "buffer \<Rightarrow> usize \<Rightarrow> (bytes \<times> buffer) option" where
  "buffer_read b n =
     (case buffer_chunk b of
        None \<Rightarrow> None
      | Some chunk \<Rightarrow>
          (let len = min (length chunk) n
           in map_option (\<lambda>b'. (take len chunk, b')) (buffer_advance b len)))"

text \<open>\<open>SeekFrom\<close>; an \<open>i64\<close> offset is an integer within \<open>[-2^63, 2^63)\<close>.\<close>

datatype seek_from = SeekStart nat | SeekEnd int | SeekCurrent int

definition seek_error :: "str \<Rightarrow> (io_error_kind \<times> str) + 'a" where
  "seek_error msg = Inl (IoInvalidInput, msg)"

definition seek_target :: "nat \<Rightarrow> seek_from \<Rightarrow> (io_error_kind \<times> str) + nat" where
  "seek_target len pos =
     (case pos of
        SeekStart n \<Rightarrow> Inr n
      | SeekEnd n \<Rightarrow>
          (if n < 0 then
             (if nat (- n) \<le> len then Inr (len - nat (- n))
              else seek_error ''invalid seek to a negative position'')
           else if len + nat n < 2 ^ 64 then Inr (len + nat n)
           else seek_error ''seek out of bounds'')
      | SeekCurrent n \<Rightarrow>
          (let current_pos = int (len - len)
           in if \<not> (current_pos + n < 2 ^ 63) then seek_error ''seek out of bounds''
              else if current_pos + n < 0 then seek_error ''invalid seek to a negative position''
              else Inr (nat (current_pos + n))))"

definition buffer_seek :: "buffer \<Rightarrow> seek_from \<Rightarrow> ((io_error_kind \<times> str) + nat) \<times> buffer option" where
  "buffer_seek b pos =
     (let len = buffer_len b
      in case seek_target len pos of
           Inl e \<Rightarrow> (Inl e, Some b)
         | Inr new_pos \<Rightarrow>
             (if len < new_pos then (seek_error ''seek out of bounds'', Some b)
              else (Inr new_pos, buffer_advance b (new_pos - (len - buffer_remaining b)))))"

fun buffer_fill_buf :: "buffer \<Rightarrow> bytes option" where
  "buffer_fill_buf (Contiguous b) = Some b"
| "buffer_fill_buf (NonContiguous parts sz idx off) =
     (if sz = 0 then Some [] else current_piece parts sz idx off)"

definition buffer_consume :: "buffer \<Rightarrow> usize \<Rightarrow> buffer option" where
  "buffer_consume b amt = buffer_advance b amt"

section \<open>BufferChunks\<close>

record buffer_chunks =
  bc_buffer :: buffer
  bc_chunk_size :: usize
  bc_position :: usize
  bc_len :: usize

definition buffer_chunks_of :: "buffer \<Rightarrow> usize \<Rightarrow> buffer_chunks option" where
  "buffer_chunks_of b chunk_size =
     (if chunk_size = 0 then None
      else Some \<lparr>bc_buffer = b, bc_chunk_size = chunk_size, bc_position = 0, bc_len = buffer_len b\<rparr>)"

definition buffer_chunks_next :: "buffer_chunks \<Rightarrow> (buffer option \<times> buffer_chunks) option" where
  "buffer_chunks_next c =
     (if bc_len c \<le> bc_position c then Some (None, c)
      else let stop = min (bc_position c + bc_chunk_size c) (bc_len c)
           in map_option (\<lambda>chunk. (Some chunk, c\<lparr>bc_position := stop\<rparr>))
                (buffer_slice (bc_buffer c) (Included (bc_position c)) (Excluded stop)))"

definition buffer_chunks_size_hint :: "buffer_chunks \<Rightarrow> (usize \<times> usize option) option" where
  "buffer_chunks_size_hint c =
     (if bc_chunk_size c = 0 then None
      else let remaining = bc_len c - bc_position c;
               chunks = (remaining + bc_chunk_size c - 1) div bc_chunk_size c
           in Some (chunks, Some chunks))"

section \<open>Abstraction and invariant\<close>

text \<open>The bytes from a position of the parts on, and the positions the operations produce.\<close>

definition rest_at :: "bytes list \<Rightarrow> nat \<Rightarrow> nat \<Rightarrow> bytes" where
  "rest_at parts idx off = drop off (concat (drop idx parts))"

definition pos_ok :: "bytes list \<Rightarrow> nat \<Rightarrow> nat \<Rightarrow> bool" where
  "pos_ok parts idx off \<longleftrightarrow>
     idx < length parts \<and> off \<le> length (parts ! idx) \<or> idx = length parts \<and> off = 0"

fun buffer_view :: "buffer \<Rightarrow> bytes" where
  "buffer_view (Contiguous b) = b"
| "buffer_view (NonContiguous parts sz idx off) = take sz (rest_at parts idx off)"

fun buffer_wf :: "buffer \<Rightarrow> bool" where
  "buffer_wf (Contiguous b) = True"
| "buffer_wf (NonContiguous parts sz idx off) \<longleftrightarrow>
     pos_ok parts idx off \<and> sz \<le> length (rest_at parts idx off)"

text \<open>The parts still to be read are not empty, so that \<open>chunk\<close> makes progress.\<close>

fun buffer_dense :: "buffer \<Rightarrow> bool" where
  "buffer_dense (Contiguous b) = True"
| "buffer_dense (NonContiguous parts sz idx off) \<longleftrightarrow>
     [] \<notin> set (drop idx parts) \<and> (idx < length parts \<longrightarrow> off < length (parts ! idx))"

text \<open>
  Reading a buffer through \<open>chunk\<close> and \<open>advance\<close>, the protocol of the \<open>Buf\<close> trait.  A reader
  that makes no progress does not return.
\<close>

partial_function (option) buffer_drain :: "buffer \<Rightarrow> bytes option" where
  "buffer_drain b =
     (if buffer_remaining b = 0 then Some []
      else case buffer_chunk b of
        None \<Rightarrow> None
      | Some c \<Rightarrow>
          (case buffer_advance b (length c) of
             None \<Rightarrow> None
           | Some b' \<Rightarrow> Option.bind (buffer_drain b') (\<lambda>r. Some (c @ r))))"

text \<open>What \<open>BufMut::put\<close> documents: it appends what it reads through the protocol.\<close>

definition put_spec :: "put_fn \<Rightarrow> bool" where
  "put_spec put \<longleftrightarrow> (\<forall>dst src bs. buffer_drain src = Some bs \<longrightarrow> put dst src = Some (dst @ bs))"

section \<open>Lemmas\<close>

named_theorems buffer_defs \<open>definitions of the representation\<close>

lemmas [buffer_defs] = rest_at_def pos_ok_def nth_part_def bytes_slice_def current_piece_def

lemma rest_at_step:
  "idx < length parts \<Longrightarrow> off \<le> length (parts ! idx) \<Longrightarrow>
     rest_at parts idx off = drop off (parts ! idx) @ rest_at parts (Suc idx) 0"
  by (simp add: rest_at_def Cons_nth_drop_Suc[symmetric])

lemma rest_at_end [simp]: "rest_at parts (length parts) off = []"
  by (simp add: rest_at_def)

lemma rest_at_within:
  "pos_ok parts idx off \<Longrightarrow> idx < length parts \<Longrightarrow> off + n \<le> length (parts ! idx) \<Longrightarrow>
     rest_at parts idx (off + n) = drop n (rest_at parts idx off)"
  by (simp add: rest_at_def add.commute)

lemma pos_ok_next: "idx < length parts \<Longrightarrow> pos_ok parts (Suc idx) 0"
  by (auto simp: pos_ok_def not_less_eq less_Suc_eq)

lemma buffer_len_view: "buffer_wf b \<Longrightarrow> buffer_len b = length (buffer_view b)"
  by (cases b) auto

lemma buffer_new_simps [simp]:
  "buffer_wf buffer_new" "buffer_view buffer_new = []" "buffer_len buffer_new = 0"
  by (simp_all add: buffer_new_def)

lemma buffer_from_parts_simps [simp]:
  "buffer_wf (buffer_from_parts bs)" "buffer_view (buffer_from_parts bs) = concat bs"
  "buffer_len (buffer_from_parts bs) = length (concat bs)"
  by (auto simp: buffer_from_parts_def rest_at_def pos_ok_def length_concat)

lemma buffer_from_bytes_simps [simp]:
  "buffer_wf (buffer_from_bytes bs)" "buffer_view (buffer_from_bytes bs) = bs"
  by (simp_all add: buffer_from_bytes_def)

lemma buffer_wf_truncate [simp]: "buffer_wf b \<Longrightarrow> buffer_wf (buffer_truncate b n)"
  by (cases b) auto

lemma buffer_view_truncate [simp]: "buffer_view (buffer_truncate b n) = take n (buffer_view b)"
  by (cases b) (simp_all add: min.commute)

lemma buffer_len_truncate [simp]: "buffer_len (buffer_truncate b n) = min (buffer_len b) n"
  by (cases b) simp_all

lemma advance_loop_spec:
  "pos_ok parts idx off \<Longrightarrow> cnt \<le> length (rest_at parts idx off) \<Longrightarrow>
     \<exists>i o'. advance_loop parts idx off cnt = Some (i, o') \<and> pos_ok parts i o' \<and>
       rest_at parts i o' = drop cnt (rest_at parts idx off)"
proof (induction parts idx off cnt rule: advance_loop.induct)
  case (1 parts idx off cnt)
  show ?case
  proof (cases "cnt = 0")
    case True
    with 1 show ?thesis by (simp add: advance_loop.simps)
  next
    case False
    with 1(2,3) have idx: "idx < length parts" and off: "off \<le> length (parts ! idx)"
      by (auto simp: pos_ok_def)
    then have nth: "nth_part parts idx = Some (parts ! idx)" by (simp add: nth_part_def)
    show ?thesis
    proof (cases "cnt < length (parts ! idx) - off")
      case True
      with idx off nth False 1(2) show ?thesis
        by (simp add: advance_loop.simps pos_ok_def rest_at_within)
    next
      case False
      let ?n = "length (parts ! idx) - off"
      have step: "rest_at parts idx off = drop off (parts ! idx) @ rest_at parts (Suc idx) 0"
        using idx off by (rule rest_at_step)
      have "cnt - ?n \<le> length (rest_at parts (Suc idx) 0)"
        using 1(3) step by auto
      with 1(1)[OF \<open>cnt \<noteq> 0\<close> nth] False off idx obtain i o' where
        "advance_loop parts (Suc idx) 0 (cnt - ?n) = Some (i, o')" "pos_ok parts i o'"
        "rest_at parts i o' = drop (cnt - ?n) (rest_at parts (Suc idx) 0)"
        using pos_ok_next by auto
      with nth \<open>cnt \<noteq> 0\<close> False off step show ?thesis
        by (simp add: advance_loop.simps[of parts idx])
    qed
  qed
qed

lemma buffer_advance_ok:
  assumes "buffer_wf b" "cnt \<le> buffer_len b"
  shows "\<exists>b'. buffer_advance b cnt = Some b' \<and> buffer_wf b' \<and>
           buffer_view b' = drop cnt (buffer_view b) \<and> buffer_len b' = buffer_len b - cnt"
proof (cases b)
  case (NonContiguous parts sz idx off)
  with assms have "pos_ok parts idx off" "cnt \<le> length (rest_at parts idx off)" by auto
  from advance_loop_spec[OF this] NonContiguous assms show ?thesis
    by (auto simp: drop_take)
qed (use assms in auto)

lemma buffer_advance_fail: "buffer_len b < cnt \<Longrightarrow> buffer_advance b cnt = None"
  by (cases b) auto

lemma bounds_le_usize: "usize_checked_add n 1 = Some m \<longleftrightarrow> m = n + 1 \<and> n < usize_max"
  by (auto simp: usize_checked_add_def)

text \<open>The positions \<open>begin\<close> and \<open>end\<close> a range stands for in a buffer of length \<open>len\<close>.\<close>

definition slice_bounds :: "nat \<Rightarrow> usize bound \<Rightarrow> usize bound \<Rightarrow> nat \<times> nat" where
  "slice_bounds len s e =
     (case s of Included n \<Rightarrow> n | Excluded n \<Rightarrow> n + 1 | Unbounded \<Rightarrow> 0,
      case e of Included n \<Rightarrow> n + 1 | Excluded n \<Rightarrow> n | Unbounded \<Rightarrow> len)"

lemma buffer_slice_eq:
  assumes "buffer_len b \<le> usize_max" "slice_bounds (buffer_len b) s e = (lo, hi)"
  shows "buffer_slice b s e =
    (if lo \<le> hi \<and> hi \<le> buffer_len b
     then if hi = lo then Some buffer_new else buffer_advance (buffer_truncate b hi) lo
     else None)"
  using assms
  by (cases s; cases e) (auto simp: buffer_slice_def slice_bounds_def usize_checked_add_def Let_def)

lemma buffer_slice_ok:
  assumes "buffer_wf b" "buffer_len b \<le> usize_max" "slice_bounds (buffer_len b) s e = (lo, hi)"
    "lo \<le> hi" "hi \<le> buffer_len b"
  shows "\<exists>b'. buffer_slice b s e = Some b' \<and> buffer_wf b' \<and>
           buffer_view b' = take (hi - lo) (drop lo (buffer_view b)) \<and> buffer_len b' = hi - lo"
proof -
  have "min (buffer_len b) hi = hi" using assms(5) by simp
  with assms buffer_advance_ok[of "buffer_truncate b hi" lo] show ?thesis
    by (auto simp: buffer_slice_eq[OF assms(2,3)] drop_take)
qed

lemma current_piece_ok:
  assumes "pos_ok parts idx off" "sz \<le> length (rest_at parts idx off)" "sz \<noteq> 0"
  shows "idx < length parts" "off \<le> length (parts ! idx)"
    "current_piece parts sz idx off = Some (take sz (drop off (parts ! idx)))"
proof -
  show "idx < length parts" "off \<le> length (parts ! idx)"
    using assms by (auto simp: pos_ok_def)
  then show "current_piece parts sz idx off = Some (take sz (drop off (parts ! idx)))"
    by (auto simp: current_piece_def nth_part_def bytes_slice_def min_def)
qed

lemma buffer_next_ok:
  assumes "buffer_wf b"
  shows "(buffer_len b = 0 \<and> buffer_next b = Some (None, b)) \<or>
         (\<exists>p b'. buffer_len b \<noteq> 0 \<and> buffer_next b = Some (Some p, b') \<and> buffer_wf b' \<and>
            buffer_view b = p @ buffer_view b' \<and> buffer_len b' = buffer_len b - length p)"
proof (cases b)
  case (NonContiguous parts sz idx off)
  show ?thesis
  proof (cases "sz = 0")
    case False
    let ?p = "take sz (drop off (parts ! idx))"
    from assms NonContiguous have pos: "pos_ok parts idx off"
      and sz: "sz \<le> length (rest_at parts idx off)" by auto
    note cp = current_piece_ok[OF pos sz False]
    have step: "rest_at parts idx off = drop off (parts ! idx) @ rest_at parts (Suc idx) 0"
      using cp(1,2) by (rule rest_at_step)
    show ?thesis
    proof (cases "off + length ?p = length (parts ! idx)")
      case True
      with cp have "take sz (drop off (parts ! idx)) = drop off (parts ! idx)" by auto
      with True cp False NonContiguous sz step pos_ok_next[of idx parts] show ?thesis
        by (auto simp: Let_def)
    next
      case lt: False
      with cp have "sz < length (parts ! idx) - off" by (auto simp: min_def split: if_splits)
      with lt cp False NonContiguous sz step show ?thesis
        by (auto simp: Let_def pos_ok_def)
    qed
  qed (use NonContiguous in auto)
qed auto

lemma buffer_into_iter_ok:
  "buffer_wf b \<Longrightarrow> \<exists>ps. buffer_into_iter b = Some ps \<and> concat ps = buffer_view b"
proof (induction b rule: buffer_into_iter.induct)
  case (1 b)
  from buffer_next_ok[OF 1(2)] show ?case
  proof
    assume "buffer_len b = 0 \<and> buffer_next b = Some (None, b)"
    with 1(2) show ?thesis by (simp add: buffer_into_iter.simps buffer_len_view)
  next
    assume "\<exists>p b'. buffer_len b \<noteq> 0 \<and> buffer_next b = Some (Some p, b') \<and> buffer_wf b' \<and>
      buffer_view b = p @ buffer_view b' \<and> buffer_len b' = buffer_len b - length p"
    then obtain p b' where n: "buffer_next b = Some (Some p, b')" "buffer_wf b'"
      "buffer_view b = p @ buffer_view b'" by auto
    with 1(1)[OF n(1) refl refl n(2)] show ?thesis
      by (auto simp: buffer_into_iter.simps[of b])
  qed
qed

lemma fold_count_acc:
  "fst (fold (\<lambda>bs (count, s). if s = (0::nat) then (count, 0) else (count + 1, s - length bs)) ps (c, s)) =
     c + fst (fold (\<lambda>bs (count, s). if s = 0 then (count, 0) else (count + 1, s - length bs)) ps (0::nat, s))"
proof (induction ps arbitrary: c s)
  case (Cons p ps)
  show ?case
    using Cons[of c 0] Cons[of "c + 1" "s - length p"] Cons[of 1 "s - length p"] by simp
qed simp

lemma fold_count_zero [simp]:
  "fold (\<lambda>bs (count, s). if s = (0::nat) then (count, 0) else (count + 1, s - length bs)) ps (c, 0) =
     (c, 0)"
  by (induction ps) auto

lemma count_step:
  assumes "idx < length parts" "off \<le> length (parts ! idx)" "sz \<noteq> 0"
  shows "buffer_count (NonContiguous parts sz idx off) =
    Suc (buffer_count (NonContiguous parts (sz - (length (parts ! idx) - off)) (Suc idx) 0))"
proof -
  have "sz + off - length (parts ! idx) = sz - (length (parts ! idx) - off)"
    using assms(2) by simp
  with assms show ?thesis
    using fold_count_acc[of "drop (Suc idx) parts" 1 "sz + off - length (parts ! idx)"]
    by (simp add: Cons_nth_drop_Suc[symmetric])
qed

lemma buffer_into_iter_Nil: "buffer_len b = 0 \<Longrightarrow> buffer_into_iter b = Some []"
  by (cases b) (simp_all add: buffer_into_iter.simps)

lemma buffer_count_iter:
  "buffer_wf b \<Longrightarrow> buffer_len b \<noteq> 0 \<Longrightarrow> buffer_into_iter b = Some ps \<Longrightarrow> buffer_count b = length ps"
proof (induction b arbitrary: ps rule: buffer_into_iter.induct)
  case (1 b)
  show ?case
  proof (cases b)
    case (Contiguous bs)
    with 1(3,4) show ?thesis
      by (auto simp: buffer_into_iter.simps[of "Contiguous bs"] buffer_into_iter_Nil)
  next
    case (NonContiguous parts sz idx off)
    let ?p = "take sz (drop off (parts ! idx))"
    from 1 NonContiguous have pos: "pos_ok parts idx off" "sz \<le> length (rest_at parts idx off)"
      "sz \<noteq> 0" by auto
    note cp = current_piece_ok[OF pos]
    from buffer_next_ok[OF 1(2)] 1(3) obtain p b' where
      n': "buffer_next b = Some (Some p, b')" "buffer_wf b'"
        "buffer_len b' = buffer_len b - length p"
      by blast
    moreover have "p = ?p"
      using n'(1) NonContiguous cp(3) pos(3) by (auto simp: Let_def split: if_splits)
    ultimately have n: "buffer_next b = Some (Some ?p, b')" "buffer_wf b'"
        "buffer_len b' = sz - length ?p"
      using NonContiguous by simp_all
    with 1(4) obtain qs where qs: "buffer_into_iter b' = Some qs" "ps = ?p # qs"
      by (auto simp: buffer_into_iter.simps[of b])
    show ?thesis
    proof (cases "buffer_len b' = 0")
      case True
      with qs have "ps = [?p]" by (simp add: buffer_into_iter_Nil)
      moreover from True n(3) have "sz - (length (parts ! idx) - off) = 0" by auto
      ultimately show ?thesis using count_step[OF cp(1,2) pos(3)] NonContiguous by simp
    next
      case False
      with n(3) have "length ?p = length (parts ! idx) - off" "off + length ?p = length (parts ! idx)"
        using cp by auto
      with n(1) NonContiguous pos cp have
        "b' = NonContiguous parts (sz - (length (parts ! idx) - off)) (Suc idx) 0"
        by (auto simp: Let_def)
      then show ?thesis
        using count_step[OF cp(1,2) pos(3)] NonContiguous qs 1(1)[OF n(1) refl refl n(2) False qs(1)]
        by simp
    qed
  qed
qed

lemma slices_from_ok:
  "(ps = [] \<longrightarrow> off = 0) \<Longrightarrow> (ps \<noteq> [] \<longrightarrow> off \<le> length (hd ps)) \<Longrightarrow>
     \<exists>ss. slices_from ps off = Some ss \<and> concat ss = drop off (concat ps)"
proof (induction ps arbitrary: off)
  case (Cons p ps)
  from Cons.IH[of 0] Cons.prems show ?case by auto
qed simp

lemma buffer_to_io_slice_ok:
  assumes "buffer_wf b"
  shows "\<exists>ss. buffer_to_io_slice b = Some ss \<and> buffer_view b = take (buffer_len b) (concat ss) \<and>
           (case b of Contiguous _ \<Rightarrow> concat ss = buffer_view b
            | NonContiguous parts sz idx off \<Rightarrow> concat ss = rest_at parts idx off)"
proof (cases b)
  case (NonContiguous parts sz idx off)
  with assms slices_from_ok[of "drop idx parts" off] show ?thesis
    by (auto simp: pos_ok_def rest_at_def hd_drop_conv_nth)
qed simp

lemma buffer_drain_dense: "buffer_wf b \<Longrightarrow> buffer_dense b \<Longrightarrow> buffer_drain b = Some (buffer_view b)"
proof (induction "buffer_len b" arbitrary: b rule: less_induct)
  case less
  show ?case
  proof (cases b)
    case (Contiguous bs)
    then show ?thesis
      by (simp add: buffer_drain.simps buffer_remaining_def)
  next
    case (NonContiguous parts sz idx off)
    show ?thesis
    proof (cases "sz = 0")
      case True
      with NonContiguous show ?thesis by (simp add: buffer_drain.simps buffer_remaining_def)
    next
      case False
      let ?p = "take sz (drop off (parts ! idx))"
      from less.prems NonContiguous have pos: "pos_ok parts idx off"
        "sz \<le> length (rest_at parts idx off)" by auto
      note cp = current_piece_ok[OF pos False]
      from less.prems cp NonContiguous have off: "off < length (parts ! idx)"
        and dense: "[] \<notin> set (drop (Suc idx) parts)"
        using in_set_dropD by (auto simp: Cons_nth_drop_Suc[symmetric])
      from buffer_advance_ok[OF less.prems(1), of "length ?p"] NonContiguous obtain b' where
        b': "buffer_advance b (length ?p) = Some b'" "buffer_wf b'"
          "buffer_view b' = drop (length ?p) (buffer_view b)" "buffer_len b' = sz - length ?p"
        by auto
      have "0 < length ?p" using False off by simp
      have "buffer_dense b'"
      proof (cases "sz < length (parts ! idx) - off")
        case True
        with b'(1) NonContiguous cp False off less.prems(2) show ?thesis
          by (auto simp: advance_loop.simps nth_part_def)
      next
        case full: False
        have "Suc idx < length parts \<Longrightarrow> parts ! Suc idx \<noteq> []"
          using dense by (metis Cons_nth_drop_Suc list.set_intros(1))
        with b'(1) NonContiguous cp False off dense full show ?thesis
          by (auto simp: advance_loop.simps[of parts idx] advance_loop.simps[of parts "Suc idx"]
              nth_part_def)
      qed
      with less.hyps[of b'] b' NonContiguous \<open>0 < length ?p\<close> False
      have "buffer_drain b' = Some (drop (length ?p) (buffer_view b))" by auto
      moreover have "buffer_view b = ?p @ drop (length ?p) (buffer_view b)"
        using NonContiguous rest_at_step[OF cp(1,2)] by (simp add: min_def)
      ultimately show ?thesis
        using NonContiguous False cp b'(1)
        by (subst buffer_drain.simps) (simp add: buffer_remaining_def)
    qed
  qed
qed

lemma dense_nth: "[] \<notin> set (drop idx parts) \<Longrightarrow> idx < length parts \<Longrightarrow> parts ! idx \<noteq> []"
  by (metis Cons_nth_drop_Suc list.set_intros(1))

lemma dense_drop: "[] \<notin> set (drop idx parts) \<Longrightarrow> [] \<notin> set (drop (Suc idx) parts)"
  using set_drop_subset_set_drop[of idx "Suc idx" parts] by auto

lemma advance_loop_dense:
  "advance_loop parts idx off cnt = Some (i, o') \<Longrightarrow> [] \<notin> set (drop idx parts) \<Longrightarrow>
     (idx < length parts \<longrightarrow> off < length (parts ! idx)) \<Longrightarrow>
     [] \<notin> set (drop i parts) \<and> (i < length parts \<longrightarrow> o' < length (parts ! i))"
proof (induction parts idx off cnt rule: advance_loop.induct)
  case (1 parts idx off cnt)
  show ?case
  proof (cases "cnt = 0 \<or> (idx < length parts \<and> cnt < length (parts ! idx) - off)")
    case True
    with 1(2,3,4) show ?thesis
      by (auto simp: advance_loop.simps[of parts idx] nth_part_def split: if_splits)
  next
    case False
    with 1(2) have idx: "idx < length parts" "off \<le> length (parts ! idx)"
      and rest: "advance_loop parts (Suc idx) 0 (cnt - (length (parts ! idx) - off)) = Some (i, o')"
      by (auto simp: advance_loop.simps[of parts idx] nth_part_def split: if_splits)
    with False 1(1)[of "parts ! idx"] dense_drop[OF 1(3)] dense_nth[OF dense_drop[OF 1(3)]]
    show ?thesis by (simp add: nth_part_def)
  qed
qed

lemma buffer_advance_dense:
  "buffer_dense b \<Longrightarrow> buffer_advance b cnt = Some b' \<Longrightarrow> buffer_dense b'"
  using advance_loop_dense
  by (cases b) (auto split: if_splits option.splits)

lemma buffer_truncate_dense [simp]: "buffer_dense (buffer_truncate b n) = buffer_dense b"
  by (cases b) auto

lemma buffer_slice_dense:
  assumes "buffer_dense b" "buffer_slice b s e = Some b'"
  shows "buffer_dense b'"
  using assms(2) buffer_advance_dense[of "buffer_truncate b _"] assms(1)
  by (auto simp: buffer_slice_def buffer_new_def Let_def split: option.splits if_splits)

lemma buffer_next_dense:
  assumes "buffer_wf b" "buffer_dense b" "buffer_next b = Some (Some p, b')"
  shows "p \<noteq> [] \<and> buffer_dense b'"
proof (cases b)
  case (NonContiguous parts sz idx off)
  with assms have pos: "pos_ok parts idx off" "sz \<le> length (rest_at parts idx off)" "sz \<noteq> 0"
    by (auto split: if_splits)
  note cp = current_piece_ok[OF pos]
  with assms(2) NonContiguous have "off < length (parts ! idx)" "[] \<notin> set (drop idx parts)" by auto
  with dense_drop[of idx parts] dense_nth[of "Suc idx" parts] assms(3) NonContiguous cp pos(3)
  show ?thesis by (auto simp: Let_def split: if_splits)
qed (use assms in \<open>auto split: if_splits\<close>)

lemma buffer_into_iter_dense:
  "buffer_wf b \<Longrightarrow> buffer_dense b \<Longrightarrow> buffer_into_iter b = Some ps \<Longrightarrow> [] \<notin> set ps"
proof (induction b arbitrary: ps rule: buffer_into_iter.induct)
  case (1 b)
  from buffer_next_ok[OF 1(2)] show ?case
  proof
    assume "buffer_len b = 0 \<and> buffer_next b = Some (None, b)"
    with 1(4) show ?thesis by (simp add: buffer_into_iter.simps)
  next
    assume "\<exists>p b'. buffer_len b \<noteq> 0 \<and> buffer_next b = Some (Some p, b') \<and> buffer_wf b' \<and>
      buffer_view b = p @ buffer_view b' \<and> buffer_len b' = buffer_len b - length p"
    then obtain p b' where n: "buffer_next b = Some (Some p, b')" "buffer_wf b'" by auto
    with 1(4) obtain qs where "buffer_into_iter b' = Some qs" "ps = p # qs"
      by (auto simp: buffer_into_iter.simps[of b])
    with 1(1)[OF n(1) refl refl n(2)] buffer_next_dense[OF 1(2,3) n(1)] show ?thesis by auto
  qed
qed

text \<open>Well-formed and without empty parts: the buffers the writers hand on.\<close>

definition buffer_ok :: "buffer \<Rightarrow> bool" where
  "buffer_ok b \<longleftrightarrow> buffer_wf b \<and> buffer_dense b"

lemma buffer_ok_new [simp]: "buffer_ok buffer_new"
  by (simp add: buffer_ok_def buffer_new_def)

lemma buffer_ok_from_bytes [simp]: "buffer_ok (buffer_from_bytes bs)"
  by (simp add: buffer_ok_def buffer_from_bytes_def)

lemma buffer_ok_from_parts: "[] \<notin> set ps \<Longrightarrow> buffer_ok (buffer_from_parts ps)"
  using dense_nth[of 0 ps]
  by (auto simp: buffer_ok_def) (auto simp: buffer_from_parts_def)

lemma buffer_ok_len: "buffer_ok b \<Longrightarrow> buffer_len b = length (buffer_view b)"
  by (simp add: buffer_ok_def buffer_len_view)

lemma buffer_ok_truncate [simp]: "buffer_ok b \<Longrightarrow> buffer_ok (buffer_truncate b n)"
  by (simp add: buffer_ok_def)

lemma buffer_ok_advance:
  assumes "buffer_ok b" "cnt \<le> buffer_len b"
  shows "\<exists>b'. buffer_advance b cnt = Some b' \<and> buffer_ok b' \<and>
           buffer_view b' = drop cnt (buffer_view b) \<and> buffer_len b' = buffer_len b - cnt"
  using assms buffer_advance_ok[of b cnt] buffer_advance_dense[of b cnt]
  by (auto simp: buffer_ok_def)

lemma buffer_ok_slice:
  assumes "buffer_ok b" "buffer_len b \<le> usize_max" "slice_bounds (buffer_len b) s e = (lo, hi)"
    "lo \<le> hi" "hi \<le> buffer_len b"
  shows "\<exists>b'. buffer_slice b s e = Some b' \<and> buffer_ok b' \<and>
           buffer_view b' = take (hi - lo) (drop lo (buffer_view b)) \<and> buffer_len b' = hi - lo"
  using assms buffer_slice_ok[of b s e lo hi] buffer_slice_dense[of b s e]
  by (auto simp: buffer_ok_def)

lemma buffer_ok_into_iter:
  "buffer_ok b \<Longrightarrow> \<exists>ps. buffer_into_iter b = Some ps \<and> concat ps = buffer_view b \<and> [] \<notin> set ps"
  using buffer_into_iter_ok[of b] buffer_into_iter_dense[of b] by (auto simp: buffer_ok_def)

text \<open>Running a \<open>BufferChunks\<close> iterator for at most the given number of calls.\<close>

fun chunks_run :: "nat \<Rightarrow> buffer_chunks \<Rightarrow> buffer list option" where
  "chunks_run 0 c = None"
| "chunks_run (Suc n) c =
     (case buffer_chunks_next c of
        None \<Rightarrow> None
      | Some (None, _) \<Rightarrow> Some []
      | Some (Some x, c') \<Rightarrow> map_option ((#) x) (chunks_run n c'))"

lemma buffer_chunks_next_ok:
  assumes "buffer_wf (bc_buffer c)" "bc_len c = buffer_len (bc_buffer c)" "bc_len c \<le> usize_max"
    "bc_position c < bc_len c"
  defines "stop \<equiv> min (bc_position c + bc_chunk_size c) (bc_len c)"
  shows "\<exists>x. buffer_chunks_next c = Some (Some x, c\<lparr>bc_position := stop\<rparr>) \<and> buffer_wf x \<and>
    buffer_view x = take (bc_chunk_size c) (drop (bc_position c) (buffer_view (bc_buffer c)))"
proof -
  have le: "bc_position c \<le> stop" "stop \<le> buffer_len (bc_buffer c)"
    using assms by auto
  obtain x where x: "buffer_slice (bc_buffer c) (Included (bc_position c)) (Excluded stop) = Some x"
    "buffer_wf x"
    "buffer_view x = take (stop - bc_position c) (drop (bc_position c) (buffer_view (bc_buffer c)))"
    using buffer_slice_ok[OF assms(1) _ _ le, of "Included (bc_position c)" "Excluded stop"] assms(2,3)
    by (auto simp: slice_bounds_def)
  have "take (stop - bc_position c) (drop (bc_position c) (buffer_view (bc_buffer c))) =
        take (bc_chunk_size c) (drop (bc_position c) (buffer_view (bc_buffer c)))"
    using buffer_len_view[OF assms(1)] assms(2) by (auto simp: stop_def min_def)
  with x assms(4) show ?thesis by (simp add: buffer_chunks_next_def stop_def Let_def)
qed

lemma chunks_run_ok:
  "\<lbrakk>buffer_wf (bc_buffer c); bc_len c = buffer_len (bc_buffer c); bc_len c \<le> usize_max;
    0 < bc_chunk_size c;
    length (chop (bc_chunk_size c) (drop (bc_position c) (buffer_view (bc_buffer c)))) < n\<rbrakk> \<Longrightarrow>
   \<exists>cs. chunks_run n c = Some cs \<and> (\<forall>x\<in>set cs. buffer_wf x) \<and>
     map buffer_view cs = chop (bc_chunk_size c) (drop (bc_position c) (buffer_view (bc_buffer c)))"
proof (induction n arbitrary: c)
  case (Suc n)
  let ?v = "drop (bc_position c) (buffer_view (bc_buffer c))"
  let ?k = "bc_chunk_size c"
  have len: "bc_len c = length (buffer_view (bc_buffer c))"
    using Suc.prems buffer_len_view by simp
  show ?case
  proof (cases "bc_position c < bc_len c")
    case False
    with len show ?thesis by (simp add: buffer_chunks_next_def)
  next
    case True
    let ?stop = "min (bc_position c + ?k) (bc_len c)"
    obtain x where x: "buffer_chunks_next c = Some (Some x, c\<lparr>bc_position := ?stop\<rparr>)" "buffer_wf x"
      "buffer_view x = take ?k ?v"
      using buffer_chunks_next_ok[of c] Suc.prems True by auto
    have chop: "chop ?k ?v = take ?k ?v # chop ?k (drop ?k ?v)"
      using Suc.prems(4) True len by (intro chop_step) auto
    have "drop ?k ?v = drop ?stop (buffer_view (bc_buffer c))"
      using len by (auto simp: min_def add.commute)
    with Suc.IH[of "c\<lparr>bc_position := ?stop\<rparr>"] Suc.prems chop x show ?thesis by auto
  qed
qed simp

section \<open>Properties\<close>

text \<open>
  C29: \<open>Buf::advance\<close> on a well-formed buffer drops exactly \<open>cnt\<close> bytes from the front and
  keeps the buffer well-formed; it panics exactly when fewer than \<open>cnt\<close> bytes are left.
\<close>

theorem buffer_advance_refines:
  assumes "buffer_wf b"
  shows "case buffer_advance b cnt of
           Some b' \<Rightarrow> cnt \<le> length (buffer_view b) \<and> buffer_wf b' \<and>
                       buffer_view b' = drop cnt (buffer_view b)
         | None \<Rightarrow> length (buffer_view b) < cnt"
proof (cases "cnt \<le> buffer_len b")
  case True
  with buffer_advance_ok[OF assms True] buffer_len_view[OF assms] show ?thesis by auto
next
  case False
  with buffer_advance_fail[of b cnt] buffer_len_view[OF assms] show ?thesis by simp
qed

theorem buffer_advance_refines_witness:
  "\<exists>b'. buffer_advance (buffer_from_parts [[1, 2], [], [3, 4, 5]]) 3 = Some b' \<and> buffer_wf b' \<and>
     buffer_view b' = [4, 5]"
  using buffer_advance_refines[of "buffer_from_parts [[1, 2], [], [3, 4, 5]]" 3]
  by (auto split: option.splits)

text \<open>
  C30: \<open>Buffer::slice\<close> returns a well-formed buffer for exactly the requested bytes, and
  panics exactly when the range is reversed or reaches past the end.
\<close>

theorem buffer_slice_refines:
  assumes "buffer_wf b" "buffer_len b \<le> usize_max"
  shows "case (buffer_slice b s e, slice_bounds (buffer_len b) s e) of
           (Some b', (lo, hi)) \<Rightarrow> lo \<le> hi \<and> hi \<le> length (buffer_view b) \<and> buffer_wf b' \<and>
                       buffer_view b' = take (hi - lo) (drop lo (buffer_view b))
         | (None, (lo, hi)) \<Rightarrow> hi < lo \<or> length (buffer_view b) < hi"
proof -
  obtain lo hi where b: "slice_bounds (buffer_len b) s e = (lo, hi)" by force
  show ?thesis
  proof (cases "lo \<le> hi \<and> hi \<le> buffer_len b")
    case True
    with buffer_slice_ok[OF assms b] buffer_len_view[OF assms(1)] b show ?thesis by auto
  next
    case False
    with buffer_slice_eq[OF assms(2) b] buffer_len_view[OF assms(1)] b show ?thesis by auto
  qed
qed

theorem buffer_slice_refines_witness:
  "\<exists>b'. buffer_slice (buffer_from_parts [[1, 2], [3, 4, 5]]) (Included 1) (Excluded 4) = Some b' \<and>
     buffer_wf b' \<and> buffer_view b' = [2, 3, 4]"
  using buffer_slice_refines[of "buffer_from_parts [[1, 2], [3, 4, 5]]" "Included 1" "Excluded 4"]
  by (auto simp: usize_max_def slice_bounds_def split: option.splits)

text \<open>
  \<open>split_to\<close> and \<open>split_off\<close> at a position within the buffer cut its bytes in two:
  the result and the remaining buffer are well-formed and stand for the two halves.
\<close>

theorem buffer_split_refines:
  assumes "buffer_wf b" "buffer_len b \<le> usize_max" "at \<le> buffer_len b"
  shows "\<exists>hd tl hd' tl'.
           buffer_split_to b at = Some (hd, tl) \<and> buffer_split_off b at = Some (tl', hd') \<and>
           (\<forall>x\<in>{hd, hd'}. buffer_wf x \<and> buffer_view x = take at (buffer_view b)) \<and>
           (\<forall>x\<in>{tl, tl'}. buffer_wf x \<and> buffer_view x = drop at (buffer_view b))"
proof -
  have len: "buffer_len b = length (buffer_view b)" using assms(1) by (rule buffer_len_view)
  obtain hd where "buffer_slice b Unbounded (Excluded at) = Some hd" "buffer_wf hd"
    "buffer_view hd = take at (buffer_view b)"
    using buffer_slice_ok[OF assms(1,2) _ _ assms(3), of Unbounded "Excluded at" 0]
    by (auto simp: slice_bounds_def)
  moreover obtain tl where "buffer_advance b at = Some tl" "buffer_wf tl"
    "buffer_view tl = drop at (buffer_view b)"
    using buffer_advance_ok[OF assms(1,3)] by auto
  moreover obtain tl' where "buffer_slice b (Included at) Unbounded = Some tl'" "buffer_wf tl'"
    "buffer_view tl' = drop at (buffer_view b)"
    using buffer_slice_ok[OF assms(1,2) _ assms(3), of "Included at" Unbounded] len
    by (auto simp: slice_bounds_def)
  ultimately show ?thesis
    using assms by (simp add: buffer_split_to_def buffer_split_off_def)
qed

text \<open>
  C31: Iterating a well-formed buffer to its end never panics and yields pieces that concatenate to its bytes.  Of
  a buffer with bytes, \<open>count\<close> is the number of these pieces.  An empty buffer yields no piece; \<open>count\<close> of an
  empty contiguous one is 1 nevertheless, as its documentation says.
\<close>

theorem buffer_iteration_complete:
  assumes "buffer_wf b"
  shows "\<exists>ps. buffer_into_iter b = Some ps \<and> concat ps = buffer_view b \<and>
    (if buffer_len b = 0 then ps = [] else buffer_count b = length ps) \<and>
    buffer_count (Contiguous []) = 1"
  using buffer_into_iter_ok[OF assms] buffer_count_iter[OF assms] buffer_into_iter_Nil[of b] by auto

theorem buffer_iteration_complete_witness:
  "\<exists>ps. buffer_into_iter (buffer_from_parts [[1], [2, 3]]) = Some ps \<and> concat ps = [1, 2, 3] \<and>
     buffer_count (buffer_from_parts [[1], [2, 3]]) = length ps"
  using buffer_iteration_complete[of "buffer_from_parts [[1], [2, 3]]"] by simp

text \<open>
  \<open>Buffer::chunks\<close> with a positive size yields, after exactly as many calls of
  \<open>next\<close> as its \<open>size_hint\<close> says, the bytes of the buffer cut into pieces of that size
  (the last one possibly shorter); with size zero it panics.
\<close>

theorem buffer_chunks_exact:
  assumes "buffer_wf b" "buffer_len b \<le> usize_max"
  shows "case buffer_chunks_of b k of
           None \<Rightarrow> k = 0
         | Some c \<Rightarrow> (\<exists>n cs. buffer_chunks_size_hint c = Some (n, Some n) \<and>
             chunks_run (Suc n) c = Some cs \<and> length cs = n \<and> (\<forall>x\<in>set cs. buffer_wf x) \<and>
             map buffer_view cs = chop k (buffer_view b))"
proof (cases "k = 0")
  case True
  then show ?thesis by (simp add: buffer_chunks_of_def)
next
  case False
  let ?c = "\<lparr>bc_buffer = b, bc_chunk_size = k, bc_position = 0, bc_len = buffer_len b\<rparr>"
  let ?n = "length (chop k (buffer_view b))"
  have "buffer_chunks_size_hint ?c = Some (?n, Some ?n)"
    using False buffer_len_view[OF assms(1)]
    by (simp add: buffer_chunks_size_hint_def length_chop Let_def)
  moreover obtain cs where cs: "chunks_run (Suc ?n) ?c = Some cs" "\<forall>x\<in>set cs. buffer_wf x"
    "map buffer_view cs = chop k (buffer_view b)"
    using chunks_run_ok[of ?c "Suc ?n"] assms False by auto
  moreover have "length cs = ?n" using arg_cong[OF cs(3), of length] by simp
  ultimately show ?thesis using False by (auto simp: buffer_chunks_of_def)
qed

text \<open>
  Given the documented behaviour of \<open>BufMut::put\<close>, \<open>to_bytes\<close> and \<open>to_vec\<close> of a
  well-formed buffer without empty parts return exactly its bytes.
\<close>

theorem buffer_to_bytes_correct:
  assumes "put_spec put" "buffer_wf b" "buffer_dense b"
  shows "buffer_to_bytes put b = Some (buffer_view b) \<and> buffer_to_vec put b = Some (buffer_view b)"
proof -
  have put: "put [] b = Some (buffer_view b)"
    using assms buffer_drain_dense by (simp add: put_spec_def)
  moreover have "buffer_to_bytes put b = Some (buffer_view b)"
  proof (cases b)
    case (NonContiguous parts sz idx off)
    show ?thesis
    proof (cases "length parts = 1")
      case True
      then obtain p where "parts = [p]" by (auto simp: length_Suc_conv)
      with NonContiguous assms(2) show ?thesis
        by (auto simp: pos_ok_def rest_at_def bytes_slice_def)
    qed (use NonContiguous put in simp)
  qed simp
  ultimately show ?thesis by (simp add: buffer_to_vec_def)
qed

lemma buffer_drain_stuck_aux:
  assumes "buffer_drain b = Some r"
  shows "\<not> (buffer_remaining b \<noteq> 0 \<and> buffer_chunk b = Some [] \<and> buffer_advance b 0 = Some b)"
  by (rule buffer_drain.raw_induct[OF _ assms])
    (fastforce simp: bind_eq_Some_conv split: option.splits if_splits)

text \<open>
  C40: A buffer whose current part is exhausted or empty while bytes remain (as in
  \<open>Buffer::from(vec![Bytes::new(), \<dots>])\<close>) reports an empty \<open>chunk\<close>: \<open>read\<close> returns
  zero bytes as at the end of the data, and reading it through the \<open>Buf\<close> protocol does not
  end.
\<close>

theorem buffer_empty_part_stalls:
  assumes "idx < length parts" "off = length (parts ! idx)" "0 < sz"
  defines "b \<equiv> NonContiguous parts sz idx off"
  shows "buffer_chunk b = Some [] \<and> buffer_remaining b \<noteq> 0 \<and> buffer_read b n = Some ([], b) \<and>
         buffer_drain b = None"
proof -
  have chunk: "buffer_chunk b = Some []"
    using assms by (simp add: current_piece_def nth_part_def bytes_slice_def)
  moreover have adv: "buffer_advance b 0 = Some b"
    by (simp add: b_def advance_loop.simps)
  moreover have rem: "buffer_remaining b \<noteq> 0" using assms(3) by (simp add: b_def buffer_remaining_def)
  ultimately show ?thesis
    using buffer_drain_stuck_aux[of b] by (cases "buffer_drain b") (auto simp: buffer_read_def)
qed

theorem buffer_empty_part_stalls_witness:
  "buffer_read (buffer_from_parts [[], [7]]) 8 = Some ([], buffer_from_parts [[], [7]]) \<and>
   buffer_view (buffer_from_parts [[], [7]]) = [7]"
  using buffer_empty_part_stalls[of 0 "[[], [7]]" 0 1 8]
  by (simp add: buffer_from_parts_def rest_at_def)

text \<open>
  The slices of \<open>to_io_slice\<close> start with the bytes of the buffer, but they are exactly
  its bytes only when nothing was cut off the end: a truncated non-contiguous buffer exposes
  the bytes behind its end.
\<close>

theorem buffer_io_slices:
  assumes "buffer_wf (NonContiguous parts sz idx off)"
  shows "\<exists>ss. buffer_to_io_slice (NonContiguous parts sz idx off) = Some ss \<and>
           buffer_view (NonContiguous parts sz idx off) = take sz (concat ss) \<and>
           (concat ss = buffer_view (NonContiguous parts sz idx off) \<longleftrightarrow>
              sz = length (rest_at parts idx off))"
  using buffer_to_io_slice_ok[OF assms] assms
  by (auto simp del: buffer_to_io_slice.simps)

end
