(* ===== verification/Buf_Queues.thy ===== *)
theory Buf_Queues
  imports Buffers
begin

text \<open>
  The buffers of \<open>core/core/src/raw/oio/buf\<close>: the queue of buffers \<open>QueueBuf\<close>
  (\<open>queue_buf.rs\<close>), the freezable buffer \<open>FlexBuf\<close> (\<open>flex_buf.rs\<close>) and the pool
  \<open>PooledBuf\<close> (\<open>pooled_buf.rs\<close>).  Locale \<open>byte_queue\<close> is the contract of a queue of
  buffers towards the writers; \<open>QueueBuf\<close> interprets it.
\<close>

section \<open>QueueBuf\<close>

type_synonym queue_buf = "buffer list"

definition queue_new :: queue_buf where
  "queue_new = []"

definition queue_push :: "queue_buf \<Rightarrow> buffer \<Rightarrow> queue_buf" where
  "queue_push q buf = (if buffer_is_empty buf then q else q @ [buf])"

definition queue_len :: "queue_buf \<Rightarrow> usize" where
  "queue_len q = sum_list (map buffer_len q)"

definition queue_is_empty :: "queue_buf \<Rightarrow> bool" where
  "queue_is_empty q \<longleftrightarrow> queue_len q = 0"

text \<open>\<open>mem::take\<close>: the queue and what is left behind.\<close>

definition queue_take :: "queue_buf \<Rightarrow> queue_buf \<times> queue_buf" where
  "queue_take q = (q, queue_new)"

text \<open>\<open>flatten\<close> runs every buffer's iterator.\<close>

fun queue_flatten :: "queue_buf \<Rightarrow> bytes list option" where
  "queue_flatten [] = Some []"
| "queue_flatten (b # q) =
     (case buffer_into_iter b of
        None \<Rightarrow> None
      | Some ps \<Rightarrow> map_option ((@) ps) (queue_flatten q))"

definition queue_collect :: "queue_buf \<Rightarrow> buffer option" where
  "queue_collect q =
     (case q of
        [] \<Rightarrow> Some buffer_new
      | [b] \<Rightarrow> Some b
      | _ \<Rightarrow> map_option buffer_from_parts (queue_flatten q))"

fun queue_advance_loop :: "queue_buf \<Rightarrow> usize \<Rightarrow> queue_buf option" where
  "queue_advance_loop [] cnt = (if cnt = 0 then Some [] else None)"
| "queue_advance_loop (b # q) cnt =
     (if cnt = 0 then Some (b # q)
      else if cnt < buffer_remaining b
      then map_option (\<lambda>b'. b' # q) (buffer_advance b cnt)
      else queue_advance_loop q (cnt - buffer_remaining b))"

definition queue_advance :: "queue_buf \<Rightarrow> usize \<Rightarrow> queue_buf option" where
  "queue_advance q cnt = (if cnt \<le> queue_len q then queue_advance_loop q cnt else None)"

definition queue_clear :: "queue_buf \<Rightarrow> queue_buf" where
  "queue_clear q = []"

section \<open>FlexBuf\<close>

record flex_buf =
  fb_cap :: usize
  fb_len :: usize
  fb_buf :: bytes
  fb_frozen :: "bytes option"

definition flex_new :: "usize \<Rightarrow> flex_buf" where
  "flex_new cap = \<lparr>fb_cap = cap, fb_len = 0, fb_buf = [], fb_frozen = None\<rparr>"

text \<open>\<open>BytesMut::split\<close> takes everything written so far and leaves the buffer empty.\<close>

definition flex_put :: "flex_buf \<Rightarrow> bytes \<Rightarrow> usize \<times> flex_buf" where
  "flex_put f bs =
     (if fb_frozen f \<noteq> None then (0, f)
      else let n = min (fb_cap f - fb_len f) (length bs);
               f1 = f\<lparr>fb_buf := fb_buf f @ take n bs, fb_len := fb_len f + n\<rparr>
           in if fb_cap f1 \<le> fb_len f1
              then (n, f1\<lparr>fb_buf := [], fb_len := 0, fb_frozen := Some (fb_buf f1)\<rparr>)
              else (n, f1))"

definition flex_freeze :: "flex_buf \<Rightarrow> flex_buf" where
  "flex_freeze f =
     (if fb_len f = 0 then f
      else f\<lparr>fb_buf := [], fb_len := 0, fb_frozen := Some (fb_buf f)\<rparr>)"

definition flex_get :: "flex_buf \<Rightarrow> bytes option" where
  "flex_get f = fb_frozen f"

definition flex_clean :: "flex_buf \<Rightarrow> flex_buf" where
  "flex_clean f = f\<lparr>fb_frozen := None\<rparr>"

definition flex_advance :: "flex_buf \<Rightarrow> usize \<Rightarrow> flex_buf option" where
  "flex_advance f cnt =
     (case fb_frozen f of
        None \<Rightarrow> None
      | Some bs \<Rightarrow>
          (if length bs < cnt then None
           else let f1 = f\<lparr>fb_frozen := Some (drop cnt bs)\<rparr>
                in Some (if drop cnt bs = [] then flex_clean f1 else f1)))"

section \<open>PooledBuf\<close>

text \<open>
  A pooled buffer is its contents; the state of the mutex at the time of the call is the
  argument \<open>locked\<close> of \<open>try_lock\<close>.
\<close>

record pooled_buf =
  pb_pool :: "bytes list"
  pb_size :: usize
  pb_initial_capacity :: usize

definition pooled_new :: "usize \<Rightarrow> pooled_buf" where
  "pooled_new sz = \<lparr>pb_pool = [], pb_size = sz, pb_initial_capacity = 0\<rparr>"

definition pooled_with_initial_capacity :: "usize \<Rightarrow> pooled_buf \<Rightarrow> pooled_buf" where
  "pooled_with_initial_capacity cap p = p\<lparr>pb_initial_capacity := cap\<rparr>"

definition pooled_get :: "bool \<Rightarrow> pooled_buf \<Rightarrow> bytes \<times> pooled_buf" where
  "pooled_get locked p =
     (if locked then ([], p)
      else case pb_pool p of
             b # bs \<Rightarrow> (b, p\<lparr>pb_pool := bs\<rparr>)
           | [] \<Rightarrow> ([], p))"

definition pooled_put :: "bool \<Rightarrow> bytes \<Rightarrow> pooled_buf \<Rightarrow> pooled_buf" where
  "pooled_put locked buf p =
     (if locked then p
      else if length (pb_pool p) < pb_size p then p\<lparr>pb_pool := pb_pool p @ [[]]\<rparr>
      else p)"

section \<open>The contract of a queue of buffers\<close>

locale byte_queue =
  fixes empty :: 'q
    and push :: "'q \<Rightarrow> buffer \<Rightarrow> 'q"
    and qlen :: "'q \<Rightarrow> usize"
    and collect :: "'q \<Rightarrow> buffer option"
    and qadvance :: "'q \<Rightarrow> usize \<Rightarrow> 'q option"
    and content :: "'q \<Rightarrow> bytes"
    and inv :: "'q \<Rightarrow> bool"
  assumes empty_inv: "inv empty" and empty_content: "content empty = []"
    and push_inv: "inv q \<Longrightarrow> buffer_ok b \<Longrightarrow> inv (push q b)"
    and push_content: "inv q \<Longrightarrow> buffer_ok b \<Longrightarrow> content (push q b) = content q @ buffer_view b"
    and len_content: "inv q \<Longrightarrow> qlen q = length (content q)"
    and collect_ok: "inv q \<Longrightarrow> \<exists>b. collect q = Some b \<and> buffer_ok b \<and> buffer_view b = content q"
    and advance_ok: "inv q \<Longrightarrow> cnt \<le> qlen q \<Longrightarrow>
      \<exists>q'. qadvance q cnt = Some q' \<and> inv q' \<and> content q' = drop cnt (content q)"
    and advance_panics: "inv q \<Longrightarrow> qlen q < cnt \<Longrightarrow> qadvance q cnt = None"
begin

text \<open>Pushing buffers one after the other and collecting gives their concatenation.\<close>

lemma push_all:
  "inv q \<Longrightarrow> \<forall>b\<in>set bs. buffer_ok b \<Longrightarrow>
     inv (foldl push q bs) \<and> content (foldl push q bs) = content q @ concat (map buffer_view bs)"
  by (induction bs arbitrary: q) (auto simp: push_inv push_content)

lemma collect_pushed:
  assumes "\<forall>b\<in>set bs. buffer_ok b"
  shows "\<exists>b. collect (foldl push empty bs) = Some b \<and> buffer_ok b \<and>
           buffer_view b = concat (map buffer_view bs)"
  using push_all[OF empty_inv assms] collect_ok[of "foldl push empty bs"]
  by (simp add: empty_content)

lemma collect_len: "inv q \<Longrightarrow> collect q = Some b \<Longrightarrow> buffer_len b = qlen q"
  using collect_ok[of q] len_content[of q] by (auto simp: buffer_ok_len)

text \<open>A collected prefix and the advanced queue split the content.\<close>

lemma advance_collect:
  assumes "inv q" "cnt \<le> qlen q"
  shows "\<exists>q' b. qadvance q cnt = Some q' \<and> collect q' = Some b \<and> buffer_ok b \<and>
           content q = take cnt (content q) @ buffer_view b"
  using advance_ok[OF assms] collect_ok by (metis append_take_drop_id)

end

section \<open>QueueBuf fulfils the contract\<close>

definition queue_view :: "queue_buf \<Rightarrow> bytes" where
  "queue_view q = concat (map buffer_view q)"

definition queue_ok :: "queue_buf \<Rightarrow> bool" where
  "queue_ok q \<longleftrightarrow> (\<forall>b\<in>set q. buffer_ok b \<and> buffer_len b \<noteq> 0)"

lemma queue_len_view: "queue_ok q \<Longrightarrow> queue_len q = length (queue_view q)"
  unfolding queue_len_def queue_view_def queue_ok_def
proof (induction q)
  case (Cons b q)
  then show ?case using buffer_ok_len[of b] by simp
qed simp

lemma queue_flatten_ok:
  "\<forall>b\<in>set q. buffer_ok b \<Longrightarrow>
     \<exists>ps. queue_flatten q = Some ps \<and> concat ps = queue_view q \<and> [] \<notin> set ps"
proof (induction q)
  case (Cons b q)
  with buffer_ok_into_iter[of b] show ?case by (auto simp: queue_view_def)
qed (simp add: queue_view_def)

lemma queue_collect_ok:
  assumes "queue_ok q"
  shows "\<exists>b. queue_collect q = Some b \<and> buffer_ok b \<and> buffer_view b = queue_view q"
proof -
  from assms queue_flatten_ok[of q] obtain ps where
    "queue_flatten q = Some ps" "concat ps = queue_view q" "[] \<notin> set ps"
    by (auto simp: queue_ok_def)
  then show ?thesis
    using assms buffer_ok_from_parts[of ps]
    by (auto simp: queue_collect_def queue_view_def queue_ok_def split: list.split)
qed

lemma queue_advance_loop_ok:
  "queue_ok q \<Longrightarrow> cnt \<le> queue_len q \<Longrightarrow>
     \<exists>q'. queue_advance_loop q cnt = Some q' \<and> queue_ok q' \<and> queue_view q' = drop cnt (queue_view q)"
proof (induction q cnt rule: queue_advance_loop.induct)
  case (2 b q cnt)
  have b: "buffer_ok b" "buffer_len b \<noteq> 0" "queue_ok q" using 2(2) by (auto simp: queue_ok_def)
  have len: "buffer_len b = length (buffer_view b)" using b(1) by (rule buffer_ok_len)
  show ?case
  proof (cases "cnt = 0 \<or> cnt < buffer_len b")
    case True
    with buffer_ok_advance[OF b(1), of cnt] b len show ?thesis
      by (auto simp: buffer_remaining_def queue_ok_def queue_view_def)
  next
    case False
    with 2 b(3) have "\<exists>q'. queue_advance_loop q (cnt - buffer_len b) = Some q' \<and> queue_ok q' \<and>
        queue_view q' = drop (cnt - buffer_len b) (queue_view q)"
      by (auto simp: buffer_remaining_def queue_len_def)
    with False len show ?thesis by (auto simp: buffer_remaining_def queue_view_def)
  qed
qed (simp add: queue_len_def queue_view_def queue_ok_def)

interpretation qb: byte_queue queue_new queue_push queue_len queue_collect queue_advance
  queue_view queue_ok
proof
  show "queue_ok queue_new" "queue_view queue_new = []"
    by (simp_all add: queue_ok_def queue_new_def queue_view_def)
next
  fix q b assume "queue_ok q" "buffer_ok b"
  then show "queue_ok (queue_push q b)" "queue_view (queue_push q b) = queue_view q @ buffer_view b"
    by (auto simp: queue_ok_def queue_push_def queue_view_def buffer_is_empty_def buffer_ok_len)
next
  fix q cnt assume "queue_ok q" "cnt \<le> queue_len q"
  then show "\<exists>q'. queue_advance q cnt = Some q' \<and> queue_ok q' \<and>
      queue_view q' = drop cnt (queue_view q)"
    using queue_advance_loop_ok by (simp add: queue_advance_def)
next
  fix q cnt assume "queue_ok q" "queue_len q < cnt"
  then show "queue_advance q cnt = None" by (simp add: queue_advance_def)
qed (auto simp: queue_len_view queue_collect_ok)

section \<open>Lemmas on FlexBuf and PooledBuf\<close>

text \<open>A frozen \<open>FlexBuf\<close> has nothing in the unfrozen part; an open one is not full.\<close>

definition flex_inv :: "flex_buf \<Rightarrow> bool" where
  "flex_inv f \<longleftrightarrow> fb_len f = length (fb_buf f) \<and>
     (case fb_frozen f of None \<Rightarrow> fb_len f < fb_cap f \<or> fb_cap f = 0 \<and> fb_len f = 0
      | Some bs \<Rightarrow> fb_len f = 0 \<and> length bs \<le> fb_cap f)"

definition flex_content :: "flex_buf \<Rightarrow> bytes" where
  "flex_content f = (case fb_frozen f of None \<Rightarrow> fb_buf f | Some bs \<Rightarrow> bs)"

lemma flex_new_inv: "flex_inv (flex_new cap)"
  by (auto simp: flex_inv_def flex_new_def)

lemma flex_put_inv:
  "flex_inv f \<Longrightarrow> flex_put f bs = (n, f') \<Longrightarrow>
     flex_inv f' \<and> flex_content f' = flex_content f @ take n bs \<and> n \<le> length bs"
  by (auto simp: flex_inv_def flex_put_def flex_content_def Let_def split: if_splits option.splits)

lemma flex_freeze_inv:
  "flex_inv f \<Longrightarrow> flex_inv (flex_freeze f) \<and> flex_content (flex_freeze f) = flex_content f"
  by (auto simp: flex_inv_def flex_freeze_def flex_content_def split: option.splits)

lemma flex_advance_inv:
  "flex_inv f \<Longrightarrow> flex_advance f cnt = Some f' \<Longrightarrow>
     flex_inv f' \<and> flex_content f' = drop cnt (flex_content f)"
  by (auto simp: flex_inv_def flex_advance_def flex_clean_def flex_content_def Let_def
      split: if_splits option.splits)

lemma pooled_bounded:
  "length (pb_pool p) \<le> pb_size p \<Longrightarrow> length (pb_pool (pooled_put l b p)) \<le> pb_size (pooled_put l b p)"
  by (auto simp: pooled_put_def)

lemma pooled_get_empty:
  "\<forall>b\<in>set (pb_pool p). b = [] \<Longrightarrow> pooled_get l p = (b, p') \<Longrightarrow>
     b = [] \<and> (\<forall>b\<in>set (pb_pool (pooled_put l' x p')). b = [])"
  by (auto simp: pooled_get_def pooled_put_def split: if_splits list.splits)

section \<open>Properties\<close>

text \<open>
  Whatever buffers are pushed into a \<open>QueueBuf\<close> and however far it is then advanced,
  collecting it returns exactly the bytes pushed minus the bytes advanced; advancing panics
  exactly when it would pass the end.
\<close>

theorem queue_buf_fifo:
  assumes "\<forall>b\<in>set bs. buffer_ok b"
  shows "case queue_advance (foldl queue_push queue_new bs) cnt of
           None \<Rightarrow> length (concat (map buffer_view bs)) < cnt
         | Some q \<Rightarrow> (\<exists>b. queue_collect q = Some b \<and> buffer_ok b \<and>
             buffer_view b = drop cnt (concat (map buffer_view bs)) \<and> buffer_len b = queue_len q)"
proof -
  let ?q = "foldl queue_push queue_new bs"
  have q: "queue_ok ?q" "queue_view ?q = concat (map buffer_view bs)"
    using qb.push_all[OF qb.empty_inv assms] by (auto simp: qb.empty_content)
  show ?thesis
  proof (cases "cnt \<le> queue_len ?q")
    case True
    from qb.advance_ok[OF q(1) True] obtain q' where
      q': "queue_advance ?q cnt = Some q'" "queue_ok q'" "queue_view q' = drop cnt (queue_view ?q)"
      by blast
    from qb.collect_ok[OF q'(2)] obtain b where
      b: "queue_collect q' = Some b" "buffer_ok b" "buffer_view b = queue_view q'" by blast
    from qb.collect_len[OF q'(2) b(1)] q q' b show ?thesis by simp
  next
    case False
    with qb.advance_panics[OF q(1)] q qb.len_content[OF q(1)] show ?thesis by simp
  qed
qed

text \<open>
  Along \<open>put\<close>, \<open>freeze\<close> and \<open>advance\<close> a \<open>FlexBuf\<close> keeps its invariant (it never holds
  more than its capacity, and a frozen buffer has nothing unfrozen) and hands out exactly the
  bytes it accepted, in order.
\<close>

theorem flex_buf_fifo:
  assumes "flex_inv f"
  shows "(case flex_put f bs of (n, f') \<Rightarrow>
            flex_inv f' \<and> n \<le> length bs \<and> flex_content f' = flex_content f @ take n bs) \<and>
         flex_inv (flex_freeze f) \<and> flex_content (flex_freeze f) = flex_content f \<and>
         (case flex_advance f cnt of
            None \<Rightarrow> flex_get f = None \<or> length (flex_content f) < cnt
          | Some f' \<Rightarrow> flex_inv f' \<and> flex_content f' = drop cnt (flex_content f))"
proof (intro conjI)
  show "case flex_put f bs of (n, f') \<Rightarrow>
    flex_inv f' \<and> n \<le> length bs \<and> flex_content f' = flex_content f @ take n bs"
    using flex_put_inv[OF assms, of bs] by (cases "flex_put f bs") simp
  show "case flex_advance f cnt of None \<Rightarrow> flex_get f = None \<or> length (flex_content f) < cnt
    | Some f' \<Rightarrow> flex_inv f' \<and> flex_content f' = drop cnt (flex_content f)"
  proof (cases "flex_advance f cnt")
    case None
    then show ?thesis
      by (auto simp: flex_advance_def flex_get_def flex_content_def Let_def
          split: option.splits if_splits)
  next
    case (Some f')
    with flex_advance_inv[OF assms] show ?thesis by simp
  qed
qed (use flex_freeze_inv[OF assms] in simp_all)

end
