(* ===== verification/Ops.thy ===== *)
theory Ops
  imports Paths Ranges
begin

text \<open>
  The arguments of the operations (\<open>core/core/src/raw/ops.rs\<close>), the user-facing options they
  are built from (\<open>core/core/src/types/options.rs\<close>), the capabilities of a service
  (\<open>core/core/src/types/capability.rs\<close>) and the metadata of an entry
  (\<open>core/core/src/types/metadata.rs\<close>).  A struct is a record with the source's fields, so its
  plain getters are the selectors; \<open>HashMap<String, String>\<close> is a map and a \<open>Timestamp\<close> is
  an opaque integer instant.
\<close>

type_synonym timestamp = int

section \<open>Metadata\<close>

record metadata =
  md_mode :: entry_mode
  md_is_current :: "bool option"
  md_is_deleted :: bool
  md_cache_control :: "str option"
  md_content_disposition :: "str option"
  md_content_length :: "u64 option"
  md_content_md5 :: "str option"
  md_content_type :: "str option"
  md_content_encoding :: "str option"
  md_etag :: "str option"
  md_last_modified :: "timestamp option"
  md_version :: "str option"
  md_user_metadata :: "(str \<rightharpoonup> str) option"

definition metadata_new :: "entry_mode \<Rightarrow> metadata" where
  "metadata_new mode = \<lparr>md_mode = mode, md_is_current = None, md_is_deleted = False,
     md_cache_control = None, md_content_disposition = None, md_content_length = None,
     md_content_md5 = None, md_content_type = None, md_content_encoding = None, md_etag = None,
     md_last_modified = None, md_version = None, md_user_metadata = None\<rparr>"

definition metadata_default :: metadata where
  "metadata_default = metadata_new Unknown"

definition metadata_is_file :: "metadata \<Rightarrow> bool" where
  "metadata_is_file m \<longleftrightarrow> is_file (md_mode m)"

definition metadata_content_length :: "metadata \<Rightarrow> u64" where
  "metadata_content_length m = (case md_content_length m of Some n \<Rightarrow> n | None \<Rightarrow> 0)"

definition metadata_has_content_length :: "metadata \<Rightarrow> bool" where
  "metadata_has_content_length m \<longleftrightarrow> md_content_length m \<noteq> None"

definition md_set_mode :: "entry_mode \<Rightarrow> metadata \<Rightarrow> metadata" where
  "md_set_mode v x = x\<lparr>md_mode := v\<rparr>"

definition md_set_cache_control :: "str \<Rightarrow> metadata \<Rightarrow> metadata" where
  "md_set_cache_control v x = x\<lparr>md_cache_control := Some v\<rparr>"

definition md_set_content_length :: "u64 \<Rightarrow> metadata \<Rightarrow> metadata" where
  "md_set_content_length v x = x\<lparr>md_content_length := Some v\<rparr>"

definition md_with_content_length :: "u64 \<Rightarrow> metadata \<Rightarrow> metadata" where
  "md_with_content_length v x = x\<lparr>md_content_length := Some v\<rparr>"

definition md_set_content_type :: "str \<Rightarrow> metadata \<Rightarrow> metadata" where
  "md_set_content_type v x = x\<lparr>md_content_type := Some v\<rparr>"

definition md_set_content_encoding :: "str \<Rightarrow> metadata \<Rightarrow> metadata" where
  "md_set_content_encoding v x = x\<lparr>md_content_encoding := Some v\<rparr>"

definition md_set_content_disposition :: "str \<Rightarrow> metadata \<Rightarrow> metadata" where
  "md_set_content_disposition v x = x\<lparr>md_content_disposition := Some v\<rparr>"

section \<open>Capability\<close>

record capability =
  cap_stat :: bool
  cap_stat_with_if_match :: bool
  cap_stat_with_if_none_match :: bool
  cap_stat_with_if_modified_since :: bool
  cap_stat_with_if_unmodified_since :: bool
  cap_stat_with_override_cache_control :: bool
  cap_stat_with_override_content_disposition :: bool
  cap_stat_with_override_content_type :: bool
  cap_stat_with_version :: bool
  cap_read :: bool
  cap_read_with_if_match :: bool
  cap_read_with_if_none_match :: bool
  cap_read_with_if_modified_since :: bool
  cap_read_with_if_unmodified_since :: bool
  cap_read_with_override_cache_control :: bool
  cap_read_with_override_content_disposition :: bool
  cap_read_with_override_content_type :: bool
  cap_read_with_version :: bool
  cap_write :: bool
  cap_write_can_multi :: bool
  cap_write_can_empty :: bool
  cap_write_can_append :: bool
  cap_write_with_content_type :: bool
  cap_write_with_content_disposition :: bool
  cap_write_with_content_encoding :: bool
  cap_write_with_cache_control :: bool
  cap_write_with_if_match :: bool
  cap_write_with_if_none_match :: bool
  cap_write_with_if_not_exists :: bool
  cap_write_with_user_metadata :: bool
  cap_write_multi_max_size :: "usize option"
  cap_write_multi_min_size :: "usize option"
  cap_write_total_max_size :: "usize option"
  cap_create_dir :: bool
  cap_delete :: bool
  cap_delete_with_version :: bool
  cap_delete_with_recursive :: bool
  cap_delete_max_size :: "usize option"
  cap_copy :: bool
  cap_copy_with_if_not_exists :: bool
  cap_copy_with_if_match :: bool
  cap_copy_can_multi :: bool
  cap_copy_multi_max_size :: "usize option"
  cap_copy_multi_min_size :: "usize option"
  cap_rename :: bool
  cap_list :: bool
  cap_list_with_limit :: bool
  cap_list_with_start_after :: bool
  cap_list_with_recursive :: bool
  cap_list_with_versions :: bool
  cap_list_with_deleted :: bool
  cap_presign :: bool
  cap_presign_read :: bool
  cap_presign_stat :: bool
  cap_presign_write :: bool
  cap_presign_delete :: bool
  cap_shared :: bool

definition capability_default :: capability where
  "capability_default = \<lparr>cap_stat = False, cap_stat_with_if_match = False,
     cap_stat_with_if_none_match = False, cap_stat_with_if_modified_since = False,
     cap_stat_with_if_unmodified_since = False, cap_stat_with_override_cache_control = False,
     cap_stat_with_override_content_disposition = False,
     cap_stat_with_override_content_type = False, cap_stat_with_version = False,
     cap_read = False, cap_read_with_if_match = False, cap_read_with_if_none_match = False,
     cap_read_with_if_modified_since = False, cap_read_with_if_unmodified_since = False,
     cap_read_with_override_cache_control = False,
     cap_read_with_override_content_disposition = False,
     cap_read_with_override_content_type = False, cap_read_with_version = False,
     cap_write = False, cap_write_can_multi = False, cap_write_can_empty = False,
     cap_write_can_append = False, cap_write_with_content_type = False,
     cap_write_with_content_disposition = False, cap_write_with_content_encoding = False,
     cap_write_with_cache_control = False, cap_write_with_if_match = False,
     cap_write_with_if_none_match = False, cap_write_with_if_not_exists = False,
     cap_write_with_user_metadata = False, cap_write_multi_max_size = None,
     cap_write_multi_min_size = None, cap_write_total_max_size = None, cap_create_dir = False,
     cap_delete = False, cap_delete_with_version = False, cap_delete_with_recursive = False,
     cap_delete_max_size = None, cap_copy = False, cap_copy_with_if_not_exists = False,
     cap_copy_with_if_match = False, cap_copy_can_multi = False, cap_copy_multi_max_size = None,
     cap_copy_multi_min_size = None, cap_rename = False, cap_list = False,
     cap_list_with_limit = False, cap_list_with_start_after = False,
     cap_list_with_recursive = False, cap_list_with_versions = False,
     cap_list_with_deleted = False, cap_presign = False, cap_presign_read = False,
     cap_presign_stat = False, cap_presign_write = False, cap_presign_delete = False,
     cap_shared = False\<rparr>"

section \<open>Options\<close>

record delete_options =
  do_version :: "str option"
  do_recursive :: bool

definition delete_options_default :: delete_options where
  "delete_options_default = \<lparr>do_version = None, do_recursive = False\<rparr>"

record list_options =
  lo_limit :: "usize option"
  lo_start_after :: "str option"
  lo_recursive :: bool
  lo_versions :: bool
  lo_deleted :: bool

definition list_options_default :: list_options where
  "list_options_default = \<lparr>lo_limit = None, lo_start_after = None, lo_recursive = False,
     lo_versions = False, lo_deleted = False\<rparr>"

record read_options =
  ro_range :: bytes_range
  ro_version :: "str option"
  ro_if_match :: "str option"
  ro_if_none_match :: "str option"
  ro_if_modified_since :: "timestamp option"
  ro_if_unmodified_since :: "timestamp option"
  ro_content_length_hint :: "u64 option"
  ro_concurrent :: usize
  ro_chunk :: "usize option"
  ro_gap :: "usize option"
  ro_override_content_type :: "str option"
  ro_override_cache_control :: "str option"
  ro_override_content_disposition :: "str option"

definition read_options_default :: read_options where
  "read_options_default = \<lparr>ro_range = BytesRange 0 None, ro_version = None,
     ro_if_match = None, ro_if_none_match = None, ro_if_modified_since = None,
     ro_if_unmodified_since = None, ro_content_length_hint = None, ro_concurrent = 0,
     ro_chunk = None, ro_gap = None, ro_override_content_type = None,
     ro_override_cache_control = None, ro_override_content_disposition = None\<rparr>"

record reader_options =
  rro_version :: "str option"
  rro_if_match :: "str option"
  rro_if_none_match :: "str option"
  rro_if_modified_since :: "timestamp option"
  rro_if_unmodified_since :: "timestamp option"
  rro_content_length_hint :: "u64 option"
  rro_concurrent :: usize
  rro_chunk :: "usize option"
  rro_gap :: "usize option"
  rro_prefetch :: usize

definition reader_options_default :: reader_options where
  "reader_options_default = \<lparr>rro_version = None, rro_if_match = None,
     rro_if_none_match = None, rro_if_modified_since = None, rro_if_unmodified_since = None,
     rro_content_length_hint = None, rro_concurrent = 0, rro_chunk = None, rro_gap = None,
     rro_prefetch = 0\<rparr>"

record stat_options =
  so_version :: "str option"
  so_if_match :: "str option"
  so_if_none_match :: "str option"
  so_if_modified_since :: "timestamp option"
  so_if_unmodified_since :: "timestamp option"
  so_override_content_type :: "str option"
  so_override_cache_control :: "str option"
  so_override_content_disposition :: "str option"

definition stat_options_default :: stat_options where
  "stat_options_default = \<lparr>so_version = None, so_if_match = None, so_if_none_match = None,
     so_if_modified_since = None, so_if_unmodified_since = None, so_override_content_type = None,
     so_override_cache_control = None, so_override_content_disposition = None\<rparr>"

record write_options =
  wo_append :: bool
  wo_cache_control :: "str option"
  wo_content_type :: "str option"
  wo_content_disposition :: "str option"
  wo_content_encoding :: "str option"
  wo_user_metadata :: "(str \<rightharpoonup> str) option"
  wo_if_match :: "str option"
  wo_if_none_match :: "str option"
  wo_if_not_exists :: bool
  wo_concurrent :: usize
  wo_chunk :: "usize option"

definition write_options_default :: write_options where
  "write_options_default = \<lparr>wo_append = False, wo_cache_control = None,
     wo_content_type = None, wo_content_disposition = None, wo_content_encoding = None,
     wo_user_metadata = None, wo_if_match = None, wo_if_none_match = None,
     wo_if_not_exists = False, wo_concurrent = 0, wo_chunk = None\<rparr>"

record copy_options =
  co_if_not_exists :: bool
  co_if_match :: "str option"
  co_source_content_length_hint :: "u64 option"
  co_concurrent :: usize
  co_chunk :: "usize option"

definition copy_options_default :: copy_options where
  "copy_options_default = \<lparr>co_if_not_exists = False, co_if_match = None,
     co_source_content_length_hint = None, co_concurrent = 0, co_chunk = None\<rparr>"

section \<open>Operation arguments\<close>

record op_delete =
  od_version :: "str option"
  od_recursive :: bool

definition op_delete_default :: op_delete where
  "op_delete_default = \<lparr>od_version = None, od_recursive = False\<rparr>"

definition od_with_version :: "str \<Rightarrow> op_delete \<Rightarrow> op_delete" where
  "od_with_version v x = x\<lparr>od_version := Some v\<rparr>"

definition od_with_recursive :: "bool \<Rightarrow> op_delete \<Rightarrow> op_delete" where
  "od_with_recursive v x = x\<lparr>od_recursive := v\<rparr>"

record op_list =
  ol_limit :: "usize option"
  ol_start_after :: "str option"
  ol_recursive :: bool
  ol_versions :: bool
  ol_deleted :: bool

definition op_list_default :: op_list where
  "op_list_default = \<lparr>ol_limit = None, ol_start_after = None, ol_recursive = False,
     ol_versions = False, ol_deleted = False\<rparr>"

definition ol_with_limit :: "usize \<Rightarrow> op_list \<Rightarrow> op_list" where
  "ol_with_limit v x = x\<lparr>ol_limit := Some v\<rparr>"

definition ol_with_recursive :: "bool \<Rightarrow> op_list \<Rightarrow> op_list" where
  "ol_with_recursive v x = x\<lparr>ol_recursive := v\<rparr>"

record op_read =
  ord_range :: bytes_range
  ord_if_match :: "str option"
  ord_if_none_match :: "str option"
  ord_if_modified_since :: "timestamp option"
  ord_if_unmodified_since :: "timestamp option"
  ord_override_content_type :: "str option"
  ord_override_cache_control :: "str option"
  ord_override_content_disposition :: "str option"
  ord_version :: "str option"

definition op_read_default :: op_read where
  "op_read_default = \<lparr>ord_range = BytesRange 0 None, ord_if_match = None,
     ord_if_none_match = None, ord_if_modified_since = None, ord_if_unmodified_since = None,
     ord_override_content_type = None, ord_override_cache_control = None,
     ord_override_content_disposition = None, ord_version = None\<rparr>"

definition ord_with_range :: "bytes_range \<Rightarrow> op_read \<Rightarrow> op_read" where
  "ord_with_range v x = x\<lparr>ord_range := v\<rparr>"

record op_reader =
  orr_concurrent :: usize
  orr_chunk :: "usize option"
  orr_gap :: "usize option"
  orr_prefetch :: usize
  orr_content_length_hint :: "u64 option"

definition op_reader_default :: op_reader where
  "op_reader_default = \<lparr>orr_concurrent = 1, orr_chunk = None, orr_gap = None,
     orr_prefetch = 0,
     orr_content_length_hint = None\<rparr>"

definition orr_with_chunk :: "usize \<Rightarrow> op_reader \<Rightarrow> op_reader" where
  "orr_with_chunk v x = x\<lparr>orr_chunk := Some (max v 1)\<rparr>"

record op_stat =
  os_if_match :: "str option"
  os_if_none_match :: "str option"
  os_if_modified_since :: "timestamp option"
  os_if_unmodified_since :: "timestamp option"
  os_override_content_type :: "str option"
  os_override_cache_control :: "str option"
  os_override_content_disposition :: "str option"
  os_version :: "str option"

definition op_stat_default :: op_stat where
  "op_stat_default = \<lparr>os_if_match = None, os_if_none_match = None,
     os_if_modified_since = None, os_if_unmodified_since = None, os_override_content_type = None,
     os_override_cache_control = None, os_override_content_disposition = None,
     os_version = None\<rparr>"

definition os_with_version :: "str \<Rightarrow> op_stat \<Rightarrow> op_stat" where
  "os_with_version v x = x\<lparr>os_version := Some v\<rparr>"

record op_write =
  ow_append :: bool
  ow_concurrent :: usize
  ow_content_type :: "str option"
  ow_content_disposition :: "str option"
  ow_content_encoding :: "str option"
  ow_cache_control :: "str option"
  ow_if_match :: "str option"
  ow_if_none_match :: "str option"
  ow_if_not_exists :: bool
  ow_user_metadata :: "(str \<rightharpoonup> str) option"

definition op_write_default :: op_write where
  "op_write_default = \<lparr>ow_append = False, ow_concurrent = 0, ow_content_type = None,
     ow_content_disposition = None, ow_content_encoding = None, ow_cache_control = None,
     ow_if_match = None, ow_if_none_match = None, ow_if_not_exists = False,
     ow_user_metadata = None\<rparr>"

record op_writer =
  owr_chunk :: "usize option"

record op_copy =
  oc_if_not_exists :: bool
  oc_if_match :: "str option"

record op_copier =
  ocr_concurrent :: usize
  ocr_chunk :: "usize option"
  ocr_source_content_length_hint :: "u64 option"

section \<open>From options to arguments\<close>

definition op_delete_from :: "delete_options \<Rightarrow> op_delete" where
  "op_delete_from v =
     \<lparr>od_version = do_version v,
       od_recursive = do_recursive v\<rparr>"

definition op_list_from :: "list_options \<Rightarrow> op_list" where
  "op_list_from v =
     \<lparr>ol_limit = lo_limit v,
       ol_start_after = lo_start_after v,
       ol_recursive = lo_recursive v,
       ol_versions = lo_versions v,
       ol_deleted = lo_deleted v\<rparr>"

definition op_read_from :: "read_options \<Rightarrow> op_read \<times> op_reader" where
  "op_read_from v =
     (\<lparr>ord_range = ro_range v,
       ord_if_match = ro_if_match v,
       ord_if_none_match = ro_if_none_match v,
       ord_if_modified_since = ro_if_modified_since v,
       ord_if_unmodified_since = ro_if_unmodified_since v,
       ord_override_content_type = ro_override_content_type v,
       ord_override_cache_control = ro_override_cache_control v,
       ord_override_content_disposition = ro_override_content_disposition v,
       ord_version = ro_version v\<rparr>,
      \<lparr>orr_concurrent = max (ro_concurrent v) 1,
       orr_chunk = ro_chunk v,
       orr_gap = ro_gap v,
       orr_prefetch = 0,
       orr_content_length_hint = ro_content_length_hint v\<rparr>)"

definition op_reader_from :: "reader_options \<Rightarrow> op_read \<times> op_reader" where
  "op_reader_from v =
     (\<lparr>ord_range = BytesRange 0 None,
       ord_if_match = rro_if_match v,
       ord_if_none_match = rro_if_none_match v,
       ord_if_modified_since = rro_if_modified_since v,
       ord_if_unmodified_since = rro_if_unmodified_since v,
       ord_override_content_type = None,
       ord_override_cache_control = None,
       ord_override_content_disposition = None,
       ord_version = rro_version v\<rparr>,
      \<lparr>orr_concurrent = max (rro_concurrent v) 1,
       orr_chunk = rro_chunk v,
       orr_gap = rro_gap v,
       orr_prefetch = rro_prefetch v,
       orr_content_length_hint = rro_content_length_hint v\<rparr>)"

definition op_stat_from :: "stat_options \<Rightarrow> op_stat" where
  "op_stat_from v =
     \<lparr>os_if_match = so_if_match v,
       os_if_none_match = so_if_none_match v,
       os_if_modified_since = so_if_modified_since v,
       os_if_unmodified_since = so_if_unmodified_since v,
       os_override_content_type = so_override_content_type v,
       os_override_cache_control = so_override_cache_control v,
       os_override_content_disposition = so_override_content_disposition v,
       os_version = so_version v\<rparr>"

definition op_write_from :: "write_options \<Rightarrow> op_write \<times> op_writer" where
  "op_write_from v =
     (\<lparr>ow_append = wo_append v,
       ow_concurrent = max (wo_concurrent v) 1,
       ow_content_type = wo_content_type v,
       ow_content_disposition = wo_content_disposition v,
       ow_content_encoding = wo_content_encoding v,
       ow_cache_control = wo_cache_control v,
       ow_if_match = wo_if_match v,
       ow_if_none_match = wo_if_none_match v,
       ow_if_not_exists = wo_if_not_exists v,
       ow_user_metadata = wo_user_metadata v\<rparr>,
      \<lparr>owr_chunk = wo_chunk v\<rparr>)"

definition op_copy_from :: "copy_options \<Rightarrow> op_copy \<times> op_copier" where
  "op_copy_from v =
     (\<lparr>oc_if_not_exists = co_if_not_exists v,
       oc_if_match = co_if_match v\<rparr>,
      \<lparr>ocr_concurrent = max (co_concurrent v) 1,
       ocr_chunk = co_chunk v,
       ocr_source_content_length_hint = co_source_content_length_hint v\<rparr>)"

end
