(* ===== verification/Concurrent_Tasks.thy ===== *)
theory Concurrent_Tasks
  imports Errors
begin

text \<open>
  \<open>ConcurrentTasks\<close> of \<open>core/core/src/raw/futures_util.rs\<close>: a bounded queue of background
  tasks whose results are handed out in the order the tasks were submitted.

  A task is \<open>Running\<close> until the executor resolves it (\<open>ct_complete\<close>, an event of the
  environment) and \<open>Done\<close> afterwards.  An operation that awaits a task takes the outcomes of
  the futures as its argument \<open>run\<close>: \<open>run i\<close> is what the task for input \<open>i\<close> resolves to
  if it is still running when it is awaited.  \<open>ct_reach\<close> is the set of the states reachable
  by any interleaving of operations and completions, together with the inputs accepted and the
  results returned so far.
\<close>

section \<open>State and operations\<close>

datatype ('i, 'o) task = Running (task_input: 'i) | Done (task_input: 'i) "error + 'o"

record ('i, 'o) concurrent_tasks =
  ct_tasks :: "('i, 'o) task list"
  ct_results :: "'o list"
  ct_concurrent :: nat
  ct_prefetch :: nat
  ct_completed :: nat
  ct_errored :: bool

definition ct_new :: "nat \<Rightarrow> nat \<Rightarrow> ('i, 'o) concurrent_tasks" where
  "ct_new concurrent prefetch =
     \<lparr>ct_tasks = [], ct_results = [], ct_concurrent = concurrent, ct_prefetch = prefetch,
      ct_completed = 0, ct_errored = False\<rparr>"

definition ct_is_concurrent :: "('i, 'o) concurrent_tasks \<Rightarrow> bool" where
  "ct_is_concurrent s \<longleftrightarrow> 1 < ct_concurrent s"

definition ct_clear :: "('i, 'o) concurrent_tasks \<Rightarrow> ('i, 'o) concurrent_tasks" where
  "ct_clear s = s\<lparr>ct_tasks := [], ct_results := []\<rparr>"

definition ct_has_remaining :: "('i, 'o) concurrent_tasks \<Rightarrow> bool" where
  "ct_has_remaining s \<longleftrightarrow>
     length (ct_tasks s) < ct_concurrent s + min (ct_completed s) (ct_prefetch s)"

definition ct_has_result :: "('i, 'o) concurrent_tasks \<Rightarrow> bool" where
  "ct_has_result s \<longleftrightarrow> ct_results s \<noteq> []"

definition ct_create_task :: "'i \<Rightarrow> ('i, 'o) task" where
  "ct_create_task input = Running input"

text \<open>The executor resolves the task at position \<open>k\<close>; \<open>inspect\<close> counts it as completed.\<close>

definition ct_complete ::
  "('i \<Rightarrow> error + 'o) \<Rightarrow> nat \<Rightarrow> ('i, 'o) concurrent_tasks \<Rightarrow> ('i, 'o) concurrent_tasks" where
  "ct_complete run k s =
     (if k < length (ct_tasks s) then
        (case ct_tasks s ! k of
           Running i \<Rightarrow> s\<lparr>ct_tasks := (ct_tasks s)[k := Done i (run i)], ct_completed := ct_completed s + 1\<rparr>
         | Done _ _ \<Rightarrow> s)
      else s)"

text \<open>Awaiting the front task and taking it off the counter: its input, its result, the new state.\<close>

definition ct_await_front ::
  "('i \<Rightarrow> error + 'o) \<Rightarrow> ('i, 'o) task \<Rightarrow> ('i, 'o) concurrent_tasks \<Rightarrow>
     'i \<times> (error + 'o) \<times> ('i, 'o) concurrent_tasks" where
  "ct_await_front run t s =
     (case t of
        Running i \<Rightarrow> (i, run i, s)
      | Done i r \<Rightarrow> (i, r, s\<lparr>ct_completed := ct_completed s - 1\<rparr>))"

text \<open>The handling of a failed front task, shared by \<open>execute\<close> and \<open>next\<close>.\<close>

definition ct_on_error ::
  "'i \<Rightarrow> error \<Rightarrow> ('i, 'o) concurrent_tasks \<Rightarrow> ('i, 'o) concurrent_tasks" where
  "ct_on_error i err s =
     (if is_temporary err then s\<lparr>ct_tasks := (ct_tasks s)[0 := ct_create_task i]\<rparr>
      else (ct_clear s)\<lparr>ct_errored := True\<rparr>)"

definition ct_unrecoverable :: error where
  "ct_unrecoverable = error_new Unexpected ''concurrent tasks met an unrecoverable error''"

definition ct_push :: "'i \<Rightarrow> ('i, 'o) concurrent_tasks \<Rightarrow> ('i, 'o) concurrent_tasks" where
  "ct_push input s = s\<lparr>ct_tasks := ct_tasks s @ [ct_create_task input]\<rparr>"

definition ct_execute ::
  "('i \<Rightarrow> error + 'o) \<Rightarrow> 'i \<Rightarrow> ('i, 'o) concurrent_tasks \<Rightarrow> unit res \<times> ('i, 'o) concurrent_tasks" where
  "ct_execute run input s =
     (if ct_errored s then (Err ct_unrecoverable, s)
      else if \<not> ct_is_concurrent s then
        (case run input of
           Inr o' \<Rightarrow> (Ok (), s\<lparr>ct_results := ct_results s @ [o']\<rparr>)
         | Inl err \<Rightarrow> (Err err, s))
      else if \<not> ct_has_remaining s then
        (case ct_tasks s of
           [] \<Rightarrow> (Panic, s)
         | t # ts \<Rightarrow>
             (case ct_await_front run t s of
                (i, Inr o', s1) \<Rightarrow>
                  (Ok (), ct_push input (s1\<lparr>ct_tasks := ts, ct_results := ct_results s1 @ [o']\<rparr>))
              | (i, Inl err, s1) \<Rightarrow> (Err err, ct_on_error i err s1)))
      else (Ok (), ct_push input s))"

definition ct_next ::
  "('i \<Rightarrow> error + 'o) \<Rightarrow> ('i, 'o) concurrent_tasks \<Rightarrow> 'o res option \<times> ('i, 'o) concurrent_tasks" where
  "ct_next run s =
     (if ct_errored s then (Some (Err ct_unrecoverable), s)
      else case ct_results s of
        o' # os \<Rightarrow> (Some (Ok o'), s\<lparr>ct_results := os\<rparr>)
      | [] \<Rightarrow>
          (case ct_tasks s of
             t # ts \<Rightarrow>
               (case ct_await_front run t s of
                  (i, Inr o', s1) \<Rightarrow> (Some (Ok o'), s1\<lparr>ct_tasks := ts\<rparr>)
                | (i, Inl err, s1) \<Rightarrow> (Some (Err err), ct_on_error i err s1))
           | [] \<Rightarrow> (None, s)))"

text \<open>
  The loop \<open>while let Some(result) = tasks.next().await.transpose()? { ... }\<close> with which the
  writers collect the results: the outcome, the results collected so far, the state.
\<close>

lemma ct_next_decreases:
  "ct_next run s = (Some (Ok o'), s') \<Longrightarrow>
     length (ct_results s') + length (ct_tasks s') < length (ct_results s) + length (ct_tasks s)"
  by (auto simp: ct_next_def ct_await_front_def split: if_splits list.splits task.splits sum.splits)

function ct_drain ::
  "('i \<Rightarrow> error + 'o) \<Rightarrow> ('i, 'o) concurrent_tasks \<Rightarrow> 'o list \<Rightarrow>
     unit res \<times> 'o list \<times> ('i, 'o) concurrent_tasks" where
  "ct_drain run s acc =
     (case ct_next run s of
        (None, s') \<Rightarrow> (Ok (), acc, s')
      | (Some (Ok o'), s') \<Rightarrow> ct_drain run s' (acc @ [o'])
      | (Some (Err e), s') \<Rightarrow> (Err e, acc, s')
      | (Some Panic, s') \<Rightarrow> (Panic, acc, s'))"
  by pat_completeness auto
termination
  by (relation "measure (\<lambda>(_, s, _). length (ct_results s) + length (ct_tasks s))")
    (auto intro: ct_next_decreases[OF sym])

declare ct_drain.simps [simp del]

section \<open>Reachable states\<close>

text \<open>The outcomes the factory may produce: a result \<open>o\<close> for input \<open>i\<close> only if \<open>R i o\<close>.\<close>

definition run_ok :: "('i \<Rightarrow> 'o \<Rightarrow> bool) \<Rightarrow> ('i \<Rightarrow> error + 'o) \<Rightarrow> bool" where
  "run_ok R run \<longleftrightarrow> (\<forall>i o'. run i = Inr o' \<longrightarrow> R i o')"

text \<open>
  \<open>ct_reach R c p s is os\<close>: the state \<open>s\<close> is reachable from a new queue; since the last
  \<open>clear\<close>, \<open>is\<close> are the inputs \<open>execute\<close> accepted and \<open>os\<close> the results \<open>next\<close> returned.
\<close>

inductive ct_reach ::
  "('i \<Rightarrow> 'o \<Rightarrow> bool) \<Rightarrow> nat \<Rightarrow> nat \<Rightarrow> ('i, 'o) concurrent_tasks \<Rightarrow> 'i list \<Rightarrow> 'o list \<Rightarrow> bool"
  for R c p where
  reach_new: "ct_reach R c p (ct_new c p) [] []"
| reach_complete: "ct_reach R c p s is os \<Longrightarrow> run_ok R run \<Longrightarrow>
    ct_reach R c p (ct_complete run k s) is os"
| reach_execute: "ct_reach R c p s is os \<Longrightarrow> run_ok R run \<Longrightarrow>
    ct_execute run i s = (Ok (), s') \<Longrightarrow> ct_reach R c p s' (is @ [i]) os"
| reach_execute_err: "ct_reach R c p s is os \<Longrightarrow> run_ok R run \<Longrightarrow>
    ct_execute run i s = (Err e, s') \<Longrightarrow> ct_reach R c p s' is os"
| reach_next: "ct_reach R c p s is os \<Longrightarrow> run_ok R run \<Longrightarrow>
    ct_next run s = (Some (Ok o'), s') \<Longrightarrow> ct_reach R c p s' is (os @ [o'])"
| reach_next_err: "ct_reach R c p s is os \<Longrightarrow> run_ok R run \<Longrightarrow>
    ct_next run s = (Some (Err e), s') \<Longrightarrow> ct_reach R c p s' is os"
| reach_clear: "ct_reach R c p s is os \<Longrightarrow> ct_reach R c p (ct_clear s) [] []"

fun task_ok :: "('i \<Rightarrow> 'o \<Rightarrow> bool) \<Rightarrow> ('i, 'o) task \<Rightarrow> bool" where
  "task_ok R (Running i) = True"
| "task_ok R (Done i (Inr o')) = R i o'"
| "task_ok R (Done i (Inl e)) = True"

fun is_running :: "('i, 'o) task \<Rightarrow> bool" where
  "is_running (Running i) = True"
| "is_running (Done i r) = False"

definition ct_running :: "('i, 'o) concurrent_tasks \<Rightarrow> nat" where
  "ct_running s = length (filter is_running (ct_tasks s))"

definition ct_done :: "('i, 'o) concurrent_tasks \<Rightarrow> nat" where
  "ct_done s = length (filter (\<lambda>t. \<not> is_running t) (ct_tasks s))"

section \<open>The invariant\<close>

text \<open>
  Results returned and results waiting match the accepted inputs in order, and the queued
  tasks are the rest of the inputs in order.
\<close>

definition fifo_inv ::
  "('i \<Rightarrow> 'o \<Rightarrow> bool) \<Rightarrow> ('i, 'o) concurrent_tasks \<Rightarrow> 'i list \<Rightarrow> 'o list \<Rightarrow> bool" where
  "fifo_inv R s is os \<longleftrightarrow>
     (\<exists>js. is = js @ map task_input (ct_tasks s) \<and> list_all2 R js (os @ ct_results s)) \<and>
     (\<forall>t\<in>set (ct_tasks s). task_ok R t)"

definition ct_inv ::
  "('i \<Rightarrow> 'o \<Rightarrow> bool) \<Rightarrow> nat \<Rightarrow> nat \<Rightarrow> ('i, 'o) concurrent_tasks \<Rightarrow> 'i list \<Rightarrow> 'o list \<Rightarrow> bool" where
  "ct_inv R c p s is os \<longleftrightarrow>
     ct_concurrent s = c \<and> ct_prefetch s = p \<and> ct_done s \<le> ct_completed s \<and>
     length (ct_tasks s) \<le> c + p \<and> (\<not> 1 < c \<longrightarrow> ct_tasks s = []) \<and>
     (ct_errored s \<longrightarrow> ct_tasks s = [] \<and> ct_results s = []) \<and>
     (\<not> ct_errored s \<longrightarrow> fifo_inv R s is os)"

lemmas ct_defs = ct_new_def ct_is_concurrent_def ct_clear_def ct_has_remaining_def
  ct_create_task_def ct_on_error_def ct_push_def ct_done_def

lemma ct_inv_new: "ct_inv R c p (ct_new c p) [] []"
  by (simp add: ct_inv_def ct_defs fifo_inv_def)

lemma task_ok_done: "run_ok R run \<Longrightarrow> task_ok R (Done i (run i))"
  by (cases "run i") (auto simp: run_ok_def)

lemma filter_update_done:
  "k < length ts \<Longrightarrow> ts ! k = Running i \<Longrightarrow>
     length (filter (\<lambda>t. \<not> is_running t) (ts[k := Done i r])) =
     Suc (length (filter (\<lambda>t. \<not> is_running t) ts))"
proof (induction ts arbitrary: k)
  case (Cons t ts)
  then show ?case by (cases k) auto
qed simp

lemma map_input_update: "k < length ts \<Longrightarrow> ts ! k = Running i \<Longrightarrow>
    map task_input (ts[k := Done i r]) = map task_input ts"
  by (metis list_update_id map_update task.sel)

lemma ct_inv_complete:
  assumes "ct_inv R c p s is os" "run_ok R run"
  shows "ct_inv R c p (ct_complete run k s) is os"
proof (cases "k < length (ct_tasks s) \<and> is_running (ct_tasks s ! k)")
  case True
  then obtain i where i: "ct_tasks s ! k = Running i" by (cases "ct_tasks s ! k") auto
  have "\<forall>t\<in>set ((ct_tasks s)[k := Done i (run i)]). task_ok R t"
    if "\<forall>t\<in>set (ct_tasks s). task_ok R t"
    using that task_ok_done[OF assms(2)] set_update_subset_insert by (metis insertE subsetD)
  with True i assms(1) show ?thesis
    by (auto simp: ct_inv_def ct_complete_def ct_done_def fifo_inv_def filter_update_done
        map_input_update)
next
  case False
  then have "ct_complete run k s = s"
    by (auto simp: ct_complete_def split: task.splits)
  with assms show ?thesis by simp
qed

text \<open>What awaiting the front task gives in a state with the invariant.\<close>

lemma ct_await_front_inv:
  assumes "ct_inv R c p s is os" "ct_tasks s = t # ts" "run_ok R run"
    "ct_await_front run t s = (i, r, s1)"
  shows "i = task_input t" "ct_tasks s1 = t # ts" "ct_results s1 = ct_results s"
    "ct_concurrent s1 = c" "ct_prefetch s1 = p" "ct_errored s1 = ct_errored s"
    "length (filter (\<lambda>t. \<not> is_running t) ts) \<le> ct_completed s1"
    "r = Inr o' \<Longrightarrow> \<not> ct_errored s \<Longrightarrow> R i o'"
  using assms
  by (auto simp: ct_await_front_def ct_inv_def ct_done_def fifo_inv_def run_ok_def
      split: task.splits)

lemma list_all2_snoc:
  "list_all2 R xs (ys @ zs) \<Longrightarrow> R a b \<Longrightarrow> list_all2 R (xs @ [a]) (ys @ zs @ [b])"
  using list_all2_appendI[of R xs "ys @ zs" "[a]" "[b]"] by simp

lemma fifo_inv_pop:
  assumes "fifo_inv R s is os" "ct_tasks s = t # ts" "R (task_input t) o'"
  shows "\<exists>js. is = js @ map task_input ts \<and> list_all2 R js ((os @ ct_results s) @ [o'])"
proof -
  from assms obtain js where js: "is = js @ task_input t # map task_input ts"
    "list_all2 R js (os @ ct_results s)"
    by (auto simp: fifo_inv_def)
  then have "is = (js @ [task_input t]) @ map task_input ts"
    "list_all2 R (js @ [task_input t]) ((os @ ct_results s) @ [o'])"
    using assms(3) by (simp_all add: list_all2_snoc)
  then show ?thesis by blast
qed

lemma ct_on_error_inv:
  assumes "ct_inv R c p s is os" "ct_tasks s = t # ts" "\<not> ct_errored s" "run_ok R run"
    "ct_await_front run t s = (i, Inl e, s1)"
  shows "ct_inv R c p (ct_on_error i e s1) is os"
proof -
  note aw = ct_await_front_inv[OF assms(1,2,4,5)]
  show ?thesis
  proof (cases "is_temporary e")
    case True
    with aw assms show ?thesis
      by (auto simp: ct_inv_def ct_on_error_def ct_create_task_def fifo_inv_def ct_done_def)
  next
    case False
    with aw assms show ?thesis by (auto simp: ct_inv_def ct_defs)
  qed
qed

lemma ct_inv_execute:
  assumes "ct_inv R c p s is os" "run_ok R run" "ct_execute run i s = (r, s')"
  shows "r \<noteq> Panic \<and> (r = Ok () \<longrightarrow> ct_inv R c p s' (is @ [i]) os) \<and>
         ((\<exists>e. r = Err e) \<longrightarrow> ct_inv R c p s' is os)"
proof -
  consider "ct_errored s" | "\<not> ct_errored s" "\<not> 1 < c"
    | "\<not> ct_errored s" "1 < c" "ct_has_remaining s"
    | "\<not> ct_errored s" "1 < c" "\<not> ct_has_remaining s"
    by blast
  then show ?thesis
  proof cases
    case 1
    with assms show ?thesis by (auto simp: ct_execute_def)
  next
    case 2
    with assms show ?thesis
      by (auto simp: ct_execute_def ct_is_concurrent_def ct_inv_def fifo_inv_def ct_done_def
          run_ok_def list_all2_snoc split: sum.splits)
  next
    case 3
    with assms show ?thesis
      by (auto simp: ct_execute_def ct_inv_def fifo_inv_def ct_defs)
  next
    case 4
    with assms(1) obtain t ts where ts: "ct_tasks s = t # ts"
      by (cases "ct_tasks s") (auto simp: ct_has_remaining_def ct_inv_def)
    obtain j q s1 where aw: "ct_await_front run t s = (j, q, s1)" by (metis prod_cases3)
    note awi = ct_await_front_inv[OF assms(1) ts assms(2) aw]
    show ?thesis
    proof (cases q)
      case (Inl e)
      with 4 ts aw assms ct_on_error_inv[OF assms(1) ts 4(1) assms(2)] show ?thesis
        by (auto simp: ct_execute_def ct_is_concurrent_def ct_inv_def)
    next
      case (Inr o')
      have fifo: "fifo_inv R s is os" using assms(1) 4(1) by (simp add: ct_inv_def)
      have "R (task_input t) o'" using awi(8)[OF Inr 4(1)] awi(1) by simp
      from fifo_inv_pop[OF fifo ts this] obtain js where
        js: "is = js @ map task_input ts" "list_all2 R js ((os @ ct_results s) @ [o'])"
        by blast
      with 4 ts aw assms awi Inr fifo show ?thesis
        by (auto simp: ct_execute_def ct_is_concurrent_def ct_inv_def ct_push_def
            ct_create_task_def ct_done_def fifo_inv_def)
    qed
  qed
qed

lemma ct_inv_next:
  assumes "ct_inv R c p s is os" "run_ok R run" "ct_next run s = (r, s')"
  shows "r \<noteq> Some Panic \<and> (\<forall>o'. r = Some (Ok o') \<longrightarrow> ct_inv R c p s' is (os @ [o'])) \<and>
         ((\<exists>e. r = Some (Err e)) \<longrightarrow> ct_inv R c p s' is os) \<and> (r = None \<longrightarrow> s' = s)"
proof -
  consider "ct_errored s" | o' rs where "\<not> ct_errored s" "ct_results s = o' # rs"
    | "\<not> ct_errored s" "ct_results s = []" "ct_tasks s = []"
    | t ts where "\<not> ct_errored s" "ct_results s = []" "ct_tasks s = t # ts"
    by (metis neq_Nil_conv)
  then show ?thesis
  proof cases
    case 1
    with assms show ?thesis by (auto simp: ct_next_def)
  next
    case 2
    with assms show ?thesis by (auto simp: ct_next_def ct_inv_def fifo_inv_def ct_done_def)
  next
    case 3
    with assms show ?thesis by (auto simp: ct_next_def)
  next
    case (4 t ts)
    obtain j q s1 where aw: "ct_await_front run t s = (j, q, s1)" by (metis prod_cases3)
    note awi = ct_await_front_inv[OF assms(1) 4(3) assms(2) aw]
    show ?thesis
    proof (cases q)
      case (Inl e)
      with 4 aw assms ct_on_error_inv[OF assms(1) 4(3,1) assms(2)] show ?thesis
        by (auto simp: ct_next_def)
    next
      case (Inr o')
      have fifo: "fifo_inv R s is os" using assms(1) 4(1) by (simp add: ct_inv_def)
      have "R (task_input t) o'" using awi(8)[OF Inr 4(1)] awi(1) by simp
      from fifo_inv_pop[OF fifo 4(3) this] 4 aw assms awi Inr fifo show ?thesis
        by (auto simp: ct_next_def ct_inv_def ct_done_def fifo_inv_def)
    qed
  qed
qed

lemma ct_inv_clear: "ct_inv R c p s is os \<Longrightarrow> ct_inv R c p (ct_clear s) [] []"
  by (auto simp: ct_inv_def ct_clear_def fifo_inv_def ct_done_def)

lemma ct_reach_inv: "ct_reach R c p s is os \<Longrightarrow> ct_inv R c p s is os"
proof (induction rule: ct_reach.induct)
  case reach_new
  show ?case by (rule ct_inv_new)
next
  case (reach_complete s "is" os run k)
  then show ?case by (simp add: ct_inv_complete)
next
  case (reach_execute s "is" os run i s')
  with ct_inv_execute show ?case by metis
next
  case (reach_execute_err s "is" os run i e s')
  with ct_inv_execute show ?case by metis
next
  case (reach_next s "is" os run o' s')
  with ct_inv_next show ?case by metis
next
  case (reach_next_err s "is" os run e s')
  with ct_inv_next show ?case by metis
next
  case (reach_clear s "is" os)
  from reach_clear.IH show ?case by (rule ct_inv_clear)
qed

lemma ct_next_None: "ct_next run s = (None, s') \<Longrightarrow> ct_results s = [] \<and> ct_tasks s = [] \<and> \<not> ct_errored s"
  by (auto simp: ct_next_def ct_await_front_def split: if_splits list.splits prod.splits sum.splits)

lemma ct_drain_inv:
  "ct_inv R c p s is os \<Longrightarrow> run_ok R run \<Longrightarrow> ct_drain run s acc = (r, rs, s') \<Longrightarrow>
     r \<noteq> Panic \<and> (\<exists>ys. rs = acc @ ys \<and> ct_inv R c p s' is (os @ ys)) \<and>
     (r = Ok () \<longrightarrow> ct_tasks s' = [] \<and> ct_results s' = [] \<and> \<not> ct_errored s')"
proof (induction run s acc arbitrary: os rule: ct_drain.induct)
  case (1 run s acc)
  obtain q t where n: "ct_next run s = (q, t)" by force
  note inv = ct_inv_next[OF 1(2,3) n]
  show ?case
  proof (cases q)
    case None
    with n 1(2,4) inv ct_next_None show ?thesis by (auto simp: ct_drain.simps[of run s])
  next
    case (Some w)
    show ?thesis
    proof (cases w)
      case (Ok o')
      with Some inv have "ct_inv R c p t is (os @ [o'])" by auto
      with 1(1)[OF n[symmetric] Some Ok _ 1(3), of "os @ [o']"] 1(4) n Some Ok show ?thesis
        by (force simp: ct_drain.simps[of run s])
    next
      case (Err e)
      with Some n 1(4) inv show ?thesis by (auto simp: ct_drain.simps[of run s])
    next
      case Panic
      with Some inv show ?thesis by simp
    qed
  qed
qed

lemma ct_inv_all_delivered:
  assumes "ct_inv R c p s is os" "ct_tasks s = []" "ct_results s = []" "\<not> ct_errored s"
  shows "list_all2 R is os"
  using assms by (auto simp: ct_inv_def fifo_inv_def)

lemma ct_running_le: "ct_running s \<le> length (ct_tasks s)"
  by (simp add: ct_running_def)

text \<open>Once an unrecoverable error was met, the queue stays errored.\<close>

lemma ct_errored_sticky:
  assumes "ct_errored s"
  shows "ct_execute run i s = (Err ct_unrecoverable, s)" "ct_next run s = (Some (Err ct_unrecoverable), s)"
    "ct_errored (ct_complete run k s)" "ct_errored (ct_clear s)"
  using assms
  by (auto simp: ct_execute_def ct_next_def ct_complete_def ct_clear_def split: task.splits)

section \<open>Deliveries and runs without failures\<close>

lemma ct_inv_delivered: "ct_inv R c p t is os \<Longrightarrow> \<not> ct_errored t \<Longrightarrow> length os \<le> length is"
  by (auto simp: ct_inv_def fifo_inv_def dest!: list_all2_lengthD)

lemma ct_next_answer:
  assumes "ct_inv R c p t is os" "run_ok R run" "ct_next run t = (Some (Ok b), t')"
  shows "ct_inv R c p t' is (os @ [b])" "\<exists>i. drop (length os) is = i # drop (length (os @ [b])) is \<and> R i b"
proof -
  from ct_inv_next[OF assms] show inv: "ct_inv R c p t' is (os @ [b])" by simp
  have "\<not> ct_errored t'" using assms(3)
    by (auto simp: ct_next_def ct_await_front_def ct_on_error_def split: if_splits list.splits task.splits sum.splits)
  then obtain js where js: "is = js @ map task_input (ct_tasks t')" "list_all2 R js ((os @ [b]) @ ct_results t')"
    using inv by (auto simp: ct_inv_def fifo_inv_def)
  have lt: "length os < length js" using list_all2_lengthD[OF js(2)] by simp
  then have "R (js ! length os) b" using list_all2_nthD[OF js(2) lt] by (simp add: nth_append)
  moreover have "drop (length os) is = js ! length os # drop (Suc (length os)) is"
    using lt js(1) Cons_nth_drop_Suc[of "length os" "is"] by (simp add: nth_append)
  ultimately show "\<exists>i. drop (length os) is = i # drop (length (os @ [b])) is \<and> R i b" by auto
qed

text \<open>Without failing tasks no operation fails.\<close>

definition ct_healthy :: "('i, 'o) concurrent_tasks \<Rightarrow> bool" where
  "ct_healthy t \<longleftrightarrow> \<not> ct_errored t \<and> (\<forall>i e. Done i (Inl e) \<notin> set (ct_tasks t))"

lemma ct_healthy_new: "ct_healthy (ct_new c p)"
  by (simp add: ct_healthy_def ct_new_def)

lemma ct_healthy_await:
  assumes "\<forall>i. Running i \<in> set (ct_tasks t) \<longrightarrow> (\<exists>b. run i = Inr b)" "ct_healthy t" "ct_tasks t = x # xs"
  shows "\<exists>j b t1. ct_await_front run x t = (j, Inr b, t1) \<and> ct_tasks t1 = ct_tasks t \<and>
    ct_errored t1 = ct_errored t"
proof (cases x)
  case (Running i)
  with assms(1,3) obtain b where "run i = Inr b" by auto
  with Running show ?thesis by (simp add: ct_await_front_def)
next
  case (Done i r)
  with assms(2,3) obtain b where "r = Inr b" by (cases r) (auto simp: ct_healthy_def)
  with Done show ?thesis by (auto simp: ct_await_front_def)
qed

lemma ct_healthy_push: "ct_healthy t \<Longrightarrow> ct_healthy (ct_push i t)"
  by (auto simp: ct_healthy_def ct_push_def ct_create_task_def)

lemma ct_healthy_pop:
  "ct_healthy t \<Longrightarrow> ct_tasks t = x # xs \<Longrightarrow> ct_errored t1 = ct_errored t \<Longrightarrow>
     ct_healthy (t1\<lparr>ct_tasks := xs, ct_results := rs\<rparr>) \<and> ct_healthy (t1\<lparr>ct_tasks := xs\<rparr>)"
  by (simp add: ct_healthy_def)

text \<open>It is enough that the tasks that are still running, and the new one, succeed.\<close>

lemma ct_healthy_execute_running:
  assumes "ct_inv R c p t is os" "run_ok R run"
    "\<forall>j. j = i \<or> Running j \<in> set (ct_tasks t) \<longrightarrow> (\<exists>b. run j = Inr b)" "ct_healthy t"
    "ct_execute run i t = (r, t')"
  shows "r = Ok () \<and> ct_healthy t'"
proof -
  have r: "r \<noteq> Panic" using ct_inv_execute[OF assms(1,2,5)] by simp
  have ok: "\<not> ct_errored t" using assms(4) by (simp add: ct_healthy_def)
  obtain b where b: "run i = Inr b" using assms(3) by blast
  consider "\<not> ct_is_concurrent t" | "ct_is_concurrent t" "ct_has_remaining t"
    | x xs where "ct_is_concurrent t" "\<not> ct_has_remaining t" "ct_tasks t = x # xs"
    | "ct_is_concurrent t" "\<not> ct_has_remaining t" "ct_tasks t = []"
    by (cases "ct_tasks t") auto
  then show ?thesis
  proof cases
    case 1
    with assms(4,5) b ok show ?thesis by (auto simp: ct_execute_def ct_healthy_def)
  next
    case 2
    with assms(4,5) ok ct_healthy_push[OF assms(4), of i] show ?thesis by (auto simp: ct_execute_def)
  next
    case (3 x xs)
    from ct_healthy_await[OF _ assms(4) 3(3), of run] assms(3) obtain j b' t1 where
      aw: "ct_await_front run x t = (j, Inr b', t1)" "ct_errored t1 = ct_errored t" by blast
    with 3 assms(5) ok have "r = Ok ()" "t' = ct_push i (t1\<lparr>ct_tasks := xs, ct_results := ct_results t1 @ [b']\<rparr>)"
      by (auto simp: ct_execute_def)
    with ct_healthy_pop[OF assms(4) 3(3) aw(2)] show ?thesis by (auto intro!: ct_healthy_push)
  next
    case 4
    with assms(5) ok r show ?thesis by (auto simp: ct_execute_def)
  qed
qed

lemma ct_healthy_next_running:
  assumes "\<forall>i. Running i \<in> set (ct_tasks t) \<longrightarrow> (\<exists>b. run i = Inr b)" "ct_healthy t" "ct_next run t = (r, t')"
  shows "(\<forall>e. r \<noteq> Some (Err e)) \<and> ct_healthy t'"
proof -
  have ok: "\<not> ct_errored t" using assms(2) by (simp add: ct_healthy_def)
  consider o' rs where "ct_results t = o' # rs" | "ct_results t = []" "ct_tasks t = []"
    | x xs where "ct_results t = []" "ct_tasks t = x # xs"
    by (cases "ct_results t"; cases "ct_tasks t") auto
  then show ?thesis
  proof cases
    case 1
    with assms(2,3) ok show ?thesis by (auto simp: ct_next_def ct_healthy_def)
  next
    case 2
    with assms(2,3) ok show ?thesis by (auto simp: ct_next_def)
  next
    case (3 x xs)
    from ct_healthy_await[OF assms(1,2) 3(2)] obtain j b t1 where
      aw: "ct_await_front run x t = (j, Inr b, t1)" "ct_errored t1 = ct_errored t" by blast
    with 3 assms(3) ok have "r = Some (Ok b)" "t' = t1\<lparr>ct_tasks := xs\<rparr>" by (auto simp: ct_next_def)
    with ct_healthy_pop[OF assms(2) 3(2) aw(2)] show ?thesis by simp
  qed
qed

lemma ct_healthy_execute:
  assumes "ct_inv R c p t is os" "run_ok R run" "\<forall>i. \<exists>b. run i = Inr b" "ct_healthy t"
    "ct_execute run i t = (r, t')"
  shows "r = Ok () \<and> ct_healthy t'"
  using ct_healthy_execute_running[OF assms(1,2) _ assms(4,5)] assms(3) by blast

lemma ct_healthy_next:
  assumes "\<forall>i. \<exists>b. run i = Inr b" "ct_healthy t" "ct_next run t = (r, t')"
  shows "(\<forall>e. r \<noteq> Some (Err e)) \<and> ct_healthy t'"
  using ct_healthy_next_running[OF _ assms(2,3)] assms(1) by blast

section \<open>Background completions\<close>

text \<open>The executor resolves the tasks at the positions \<open>ks\<close>, one after the other.\<close>

definition ct_background ::
  "('i \<Rightarrow> error + 'o) \<Rightarrow> nat list \<Rightarrow> ('i, 'o) concurrent_tasks \<Rightarrow> ('i, 'o) concurrent_tasks" where
  "ct_background run ks s = fold (ct_complete run) ks s"

lemma ct_complete_frame [simp]:
  "ct_results (ct_complete run k s) = ct_results s" "ct_concurrent (ct_complete run k s) = ct_concurrent s"
  "ct_prefetch (ct_complete run k s) = ct_prefetch s" "ct_errored (ct_complete run k s) = ct_errored s"
  "length (ct_tasks (ct_complete run k s)) = length (ct_tasks s)"
  by (simp_all add: ct_complete_def split: task.split)

lemma ct_background_frame [simp]:
  "ct_results (ct_background run ks s) = ct_results s" "ct_concurrent (ct_background run ks s) = ct_concurrent s"
  "ct_prefetch (ct_background run ks s) = ct_prefetch s" "ct_errored (ct_background run ks s) = ct_errored s"
  "length (ct_tasks (ct_background run ks s)) = length (ct_tasks s)"
  by (induction ks arbitrary: s) (simp_all add: ct_background_def)

lemma ct_background_idle: "ct_tasks s = [] \<Longrightarrow> ct_background run ks s = s"
  by (induction ks) (simp_all add: ct_background_def ct_complete_def)

lemma ct_inv_background:
  "ct_inv R c p s is os \<Longrightarrow> run_ok R run \<Longrightarrow> ct_inv R c p (ct_background run ks s) is os"
  by (induction ks arbitrary: s) (simp_all add: ct_background_def ct_inv_complete)

lemma ct_complete_running: "Running i \<in> set (ct_tasks (ct_complete run k s)) \<Longrightarrow> Running i \<in> set (ct_tasks s)"
  by (auto simp: ct_complete_def dest!: subsetD[OF set_update_subset_insert] split: if_splits task.splits)

lemma ct_background_running: "Running i \<in> set (ct_tasks (ct_background run ks s)) \<Longrightarrow> Running i \<in> set (ct_tasks s)"
  by (induction ks arbitrary: s) (auto simp: ct_background_def dest: ct_complete_running)

lemma ct_healthy_complete:
  assumes "\<forall>i. Running i \<in> set (ct_tasks s) \<longrightarrow> (\<exists>b. run i = Inr b)" "ct_healthy s"
  shows "ct_healthy (ct_complete run k s)"
proof (cases "k < length (ct_tasks s)")
  case True
  with assms show ?thesis
    by (cases "ct_tasks s ! k") (force simp: ct_healthy_def ct_complete_def dest: nth_mem subsetD[OF set_update_subset_insert])+
qed (use assms in \<open>simp add: ct_complete_def\<close>)

lemma ct_healthy_background:
  "\<forall>i. Running i \<in> set (ct_tasks s) \<longrightarrow> (\<exists>b. run i = Inr b) \<Longrightarrow> ct_healthy s \<Longrightarrow> ct_healthy (ct_background run ks s)"
proof (induction ks arbitrary: s)
  case (Cons k ks)
  from Cons.IH[OF _ ct_healthy_complete[OF Cons.prems]] Cons.prems(1) ct_complete_running[of _ run k s] show ?case
    by (auto simp: ct_background_def)
qed (simp add: ct_background_def)

section \<open>Properties\<close>

text \<open>
  C23: In every reachable state without an unrecoverable error, and for every interleaving of
  submissions, completions, retries and fetches, the results returned so far belong to the
  first accepted inputs, in order; every other accepted input is still queued or has its
  result waiting, so that none is lost or duplicated.
\<close>

theorem concurrent_tasks_fifo:
  assumes "ct_reach R c p s is os" "\<not> ct_errored s"
  shows "list_all2 R (take (length os) is) os \<and>
         length is = length os + length (ct_results s) + length (ct_tasks s)"
proof -
  from ct_reach_inv[OF assms(1)] assms(2) obtain js where
    js: "is = js @ map task_input (ct_tasks s)" "list_all2 R js (os @ ct_results s)"
    by (auto simp: ct_inv_def fifo_inv_def)
  from js(2) have len: "length js = length os + length (ct_results s)"
    by (auto dest: list_all2_lengthD)
  moreover have "list_all2 R (take (length os) js) os"
    using list_all2_takeI[OF js(2), of "length os"] by simp
  ultimately show ?thesis using js(1) by simp
qed

theorem concurrent_tasks_fifo_witness:
  "\<exists>s. ct_reach (\<lambda>i o'. o' = i + 1) 2 8 s [5::nat] [6::nat] \<and> list_all2 (\<lambda>i o'. o' = i + 1) [5] [6]"
proof -
  let ?run = "\<lambda>i::nat. Inr (i + 1)"
  let ?R = "\<lambda>i o'. o' = i + (1::nat)"
  have run: "run_ok ?R ?run" by (simp add: run_ok_def)
  have "ct_reach ?R 2 8 (ct_push 5 (ct_new 2 8)) ([] @ [5]) []"
    by (rule ct_reach.reach_execute[OF ct_reach.reach_new run]) (simp add: ct_execute_def ct_defs)
  from ct_reach.reach_next[OF this run, of 6 "ct_new 2 8"]
  have r: "ct_reach ?R 2 8 (ct_new 2 8) [5] [6]"
    by (simp add: ct_next_def ct_await_front_def ct_defs)
  with concurrent_tasks_fifo[OF r] show ?thesis by (auto simp: ct_new_def)
qed

text \<open>
  C33: The number of tasks held, and so of tasks running at the same time, never exceeds
  \<open>concurrent + prefetch\<close>, and no operation ever finds the queue unexpectedly empty (the
  \<open>expect\<close> in \<open>execute\<close> never panics).
\<close>

theorem concurrent_tasks_bounded:
  assumes "ct_reach R c p s is os" "run_ok R run"
  shows "length (ct_tasks s) \<le> c + p \<and> ct_running s \<le> c + p \<and> fst (ct_execute run i s) \<noteq> Panic"
  using ct_reach_inv[OF assms(1)] ct_running_le[of s]
    ct_inv_execute[OF ct_reach_inv[OF assms(1)] assms(2), of i]
  by (auto simp: ct_inv_def prod_eq_iff)

theorem concurrent_tasks_bounded_witness:
  "length (ct_tasks (ct_new 2 8 :: (nat, nat) concurrent_tasks)) \<le> 10 \<and>
   fst (ct_execute (\<lambda>i::nat. Inr i :: error + nat) 0 (ct_new 2 8)) \<noteq> Panic"
  using concurrent_tasks_bounded[of "\<lambda>i o'. True" 2 8 "ct_new 2 8" "[]" "[]" "\<lambda>i::nat. Inr i :: error + nat" 0]
  by (simp add: run_ok_def ct_reach.reach_new)

text \<open>
  The limit \<open>concurrent\<close> itself is not respected: with \<open>concurrent = 2\<close> three tasks can
  run at the same time, because \<open>execute\<close> replaces an already completed front task by a new
  running one while two others run.
\<close>

theorem concurrent_limit_exceeded:
  assumes "0 < p"
  shows "\<exists>s is. ct_reach (\<lambda>i o'. True) 2 p (s :: (nat, nat) concurrent_tasks) is [] \<and> ct_running s = 3"
proof -
  let ?R = "\<lambda>(i::nat) (o'::nat). True"
  let ?run = "\<lambda>i::nat. Inr i :: error + nat"
  have run: "run_ok ?R ?run" by (simp add: run_ok_def)
  define s1 :: "(nat, nat) concurrent_tasks" where "s1 = ct_push 1 (ct_push 0 (ct_new 2 p))"
  have "ct_reach ?R 2 p (ct_push 0 (ct_new 2 p)) [0] []"
    using ct_reach.reach_execute[OF ct_reach.reach_new run] by (force simp: ct_execute_def ct_defs)
  then have "ct_reach ?R 2 p s1 [0, 1] []"
    using ct_reach.reach_execute[OF _ run] by (force simp: s1_def ct_execute_def ct_defs)
  then have "ct_reach ?R 2 p (ct_complete ?run 0 s1) [0, 1] []"
    by (rule ct_reach.reach_complete[OF _ run])
  then have "ct_reach ?R 2 p (ct_push 2 (ct_complete ?run 0 s1)) [0, 1, 2] []"
    using ct_reach.reach_execute[OF _ run, of 2 p "ct_complete ?run 0 s1" "[0, 1]" "[]" 2] assms
    by (force simp: s1_def ct_execute_def ct_complete_def ct_defs)
  then have "ct_reach ?R 2 p (snd (ct_execute ?run 3 (ct_push 2 (ct_complete ?run 0 s1)))) [0, 1, 2, 3] []"
    using ct_reach.reach_execute[OF _ run, of 2 p "ct_push 2 (ct_complete ?run 0 s1)" "[0, 1, 2]" "[]" 3]
      assms
    by (force simp: s1_def ct_execute_def ct_complete_def ct_await_front_def ct_defs)
  moreover have "ct_running (snd (ct_execute ?run 3 (ct_push 2 (ct_complete ?run 0 s1)))) = 3"
    using assms
    by (simp add: s1_def ct_execute_def ct_complete_def ct_await_front_def ct_defs ct_running_def)
  ultimately show ?thesis by blast
qed

text \<open>
  Collecting the results to the end: when the loop over \<open>next\<close> ends without an error,
  the results returned before and by the loop belong to all accepted inputs, in order.
\<close>

theorem concurrent_tasks_drain:
  assumes "ct_reach R c p s is os" "run_ok R run" "ct_drain run s [] = (Ok (), rs, s')"
  shows "list_all2 R is (os @ rs)"
  using ct_drain_inv[OF ct_reach_inv[OF assms(1)] assms(2,3)] ct_inv_all_delivered by auto

end
