(* ===== verification/Oio_Write.thy ===== *)
theory Oio_Write
  imports Buf_Queues Ops
begin

text \<open>
  The interface \<open>oio::Write\<close> (\<open>core/core/src/raw/oio/write/api.rs\<close>) and the two adapters
  without background tasks: \<open>OneShotWriter\<close> (\<open>one_shot_write.rs\<close>) and \<open>AppendWriter\<close>
  (\<open>append_write.rs\<close>).

  An asynchronous method is a function of the state that returns its result and the new state.
  The trait is the record \<open>write_ops\<close>; the methods a service implements for an adapter are
  arguments of the adapter's operations, as functions on the service's state.  Locale
  \<open>oio_writer\<close> is the contract the trait documents.
\<close>

section \<open>The trait\<close>

record 'w write_ops =
  w_write :: "'w \<Rightarrow> buffer \<Rightarrow> unit res \<times> 'w"
  w_close :: "'w \<Rightarrow> metadata res \<times> 'w"
  w_abort :: "'w \<Rightarrow> unit res \<times> 'w"

text \<open>\<open>impl Write for ()\<close>; \<open>unimplemented!\<close> panics.\<close>

definition unit_write_ops :: "unit write_ops" where
  "unit_write_ops =
     \<lparr>w_write = (\<lambda>w bs. (Panic, w)),
      w_close = (\<lambda>w. (Err (error_new Unsupported ''output writer doesn't support close''), w)),
      w_abort = (\<lambda>w. (Err (error_new Unsupported ''output writer doesn't support abort''), w))\<rparr>"

section \<open>OneShotWriter\<close>

record 's one_shot_writer =
  osw_inner :: 's
  osw_buffer :: "buffer option"

definition one_shot_new :: "'s \<Rightarrow> 's one_shot_writer" where
  "one_shot_new inner = \<lparr>osw_inner = inner, osw_buffer = None\<rparr>"

definition one_shot_write :: "'s one_shot_writer \<Rightarrow> buffer \<Rightarrow> unit res \<times> 's one_shot_writer" where
  "one_shot_write w bs =
     (case osw_buffer w of
        Some _ \<Rightarrow>
          (Err (error_new Unsupported ''OneShotWriter doesn't support multiple write''), w)
      | None \<Rightarrow> (Ok (), w\<lparr>osw_buffer := Some bs\<rparr>))"

definition one_shot_close ::
  "(buffer \<Rightarrow> 's \<Rightarrow> metadata res \<times> 's) \<Rightarrow> 's one_shot_writer \<Rightarrow> metadata res \<times> 's one_shot_writer" where
  "one_shot_close write_once w =
     (let bs = (case osw_buffer w of Some bs \<Rightarrow> bs | None \<Rightarrow> buffer_new);
          (r, inner) = write_once bs (osw_inner w)
      in (r, w\<lparr>osw_inner := inner\<rparr>))"

definition one_shot_abort :: "'s one_shot_writer \<Rightarrow> unit res \<times> 's one_shot_writer" where
  "one_shot_abort w = (Ok (), w\<lparr>osw_buffer := None\<rparr>)"

definition one_shot_ops :: "(buffer \<Rightarrow> 's \<Rightarrow> metadata res \<times> 's) \<Rightarrow> 's one_shot_writer write_ops" where
  "one_shot_ops write_once =
     \<lparr>w_write = one_shot_write, w_close = one_shot_close write_once, w_abort = one_shot_abort\<rparr>"

section \<open>AppendWriter\<close>

text \<open>The methods of \<open>AppendWrite\<close>: \<open>offset\<close> and \<open>append(offset, size, body)\<close>.\<close>

record 's append_service =
  as_offset :: "'s \<Rightarrow> u64 res \<times> 's"
  as_append :: "u64 \<Rightarrow> u64 \<Rightarrow> buffer \<Rightarrow> 's \<Rightarrow> metadata res \<times> 's"

record 's append_writer =
  aw_inner :: 's
  aw_offset :: "u64 option"
  aw_meta :: metadata

definition append_new :: "'s \<Rightarrow> 's append_writer" where
  "append_new inner = \<lparr>aw_inner = inner, aw_offset = None, aw_meta = metadata_default\<rparr>"

text \<open>The \<open>match self.offset\<close> at the head of \<open>write\<close>.\<close>

definition append_get_offset ::
  "'s append_service \<Rightarrow> 's append_writer \<Rightarrow> u64 res \<times> 's append_writer" where
  "append_get_offset svc w =
     (case aw_offset w of
        Some offset \<Rightarrow> (Ok offset, w)
      | None \<Rightarrow>
          (case as_offset svc (aw_inner w) of
             (Ok offset, s) \<Rightarrow> (Ok offset, w\<lparr>aw_inner := s, aw_offset := Some offset\<rparr>)
           | (Err e, s) \<Rightarrow> (Err e, w\<lparr>aw_inner := s\<rparr>)
           | (Panic, s) \<Rightarrow> (Panic, w\<lparr>aw_inner := s\<rparr>)))"

definition append_write ::
  "'s append_service \<Rightarrow> 's append_writer \<Rightarrow> buffer \<Rightarrow> unit res \<times> 's append_writer" where
  "append_write svc w bs =
     (case append_get_offset svc w of
        (Ok offset, w1) \<Rightarrow>
          (let sz = of_nat (buffer_len bs)
           in case as_append svc offset sz bs (aw_inner w1) of
                (Ok meta, s) \<Rightarrow>
                  (Ok (), w1\<lparr>aw_inner := s, aw_meta := meta, aw_offset := Some (offset + sz)\<rparr>)
              | (Err e, s) \<Rightarrow> (Err e, w1\<lparr>aw_inner := s\<rparr>)
              | (Panic, s) \<Rightarrow> (Panic, w1\<lparr>aw_inner := s\<rparr>))
      | (Err e, w1) \<Rightarrow> (Err e, w1)
      | (Panic, w1) \<Rightarrow> (Panic, w1))"

definition append_close :: "'s append_writer \<Rightarrow> metadata res \<times> 's append_writer" where
  "append_close w =
     (let meta = md_set_content_length (case aw_offset w of Some n \<Rightarrow> n | None \<Rightarrow> 0) (aw_meta w)
      in (Ok meta, w\<lparr>aw_meta := meta\<rparr>))"

definition append_abort :: "'s append_writer \<Rightarrow> unit res \<times> 's append_writer" where
  "append_abort w = (Ok (), w)"

definition append_ops :: "'s append_service \<Rightarrow> 's append_writer write_ops" where
  "append_ops svc =
     \<lparr>w_write = append_write svc, w_close = append_close, w_abort = append_abort\<rparr>"

section \<open>The contract\<close>

text \<open>
  What \<open>oio::Write\<close> documents: \<open>Ok(())\<close> means all bytes have been written, \<open>Err\<close> means no
  bytes have been written, and a successful \<open>close\<close> flushes everything (the clients write
  no empty buffers, so the laws are about non-empty ones).  \<open>writes\<close> are the
  pieces accepted so far and \<open>stored\<close> is the object the writer has committed.
\<close>

locale oio_writer =
  fixes ops :: "'w write_ops"
    and winv :: "'w \<Rightarrow> bool"
    and writes :: "'w \<Rightarrow> bytes list"
    and stored :: "'w \<Rightarrow> bytes option"
  assumes write_Ok: "winv w \<Longrightarrow> buffer_ok bs \<Longrightarrow> buffer_view bs \<noteq> [] \<Longrightarrow> w_write ops w bs = (Ok (), w') \<Longrightarrow>
      winv w' \<and> writes w' = writes w @ [buffer_view bs]"
    and write_Err: "winv w \<Longrightarrow> buffer_ok bs \<Longrightarrow> buffer_view bs \<noteq> [] \<Longrightarrow> w_write ops w bs = (Err e, w') \<Longrightarrow>
      winv w' \<and> writes w' = writes w"
    and write_no_panic: "winv w \<Longrightarrow> buffer_ok bs \<Longrightarrow> buffer_view bs \<noteq> [] \<Longrightarrow> fst (w_write ops w bs) \<noteq> Panic"
    and close_Ok: "winv w \<Longrightarrow> w_close ops w = (Ok m, w') \<Longrightarrow> stored w' = Some (concat (writes w))"

text \<open>A writer that does not fail, and reports the length of what it stored.\<close>

locale reliable_writer = oio_writer +
  assumes write_total: "winv w \<Longrightarrow> buffer_ok bs \<Longrightarrow> buffer_view bs \<noteq> [] \<Longrightarrow> \<exists>w'. w_write ops w bs = (Ok (), w')"
    and close_total: "winv w \<Longrightarrow>
      \<exists>m w'. w_close ops w = (Ok m, w') \<and> metadata_content_length m = of_nat (length (concat (writes w)))"

section \<open>Adapters fulfil the contract\<close>

text \<open>
  A one-shot service commits exactly the bytes it is given.  Then \<open>OneShotWriter\<close> is a writer
  in the sense of the contract.
\<close>

definition one_shot_service_ok ::
  "(buffer \<Rightarrow> 's \<Rightarrow> metadata res \<times> 's) \<Rightarrow> ('s \<Rightarrow> bytes option) \<Rightarrow> bool" where
  "one_shot_service_ok write_once obj \<longleftrightarrow>
     (\<forall>bs s m s'. write_once bs s = (Ok m, s') \<longrightarrow> obj s' = Some (buffer_view bs))"

definition one_shot_writes :: "'s one_shot_writer \<Rightarrow> bytes list" where
  "one_shot_writes w = (case osw_buffer w of None \<Rightarrow> [] | Some b \<Rightarrow> [buffer_view b])"

lemma one_shot_contract:
  assumes "one_shot_service_ok write_once obj"
  shows "oio_writer (one_shot_ops write_once) (\<lambda>w. True) one_shot_writes (\<lambda>w. obj (osw_inner w))"
proof
  fix w m w'
  assume "w_close (one_shot_ops write_once) w = (Ok m, w')"
  then show "obj (osw_inner w') = Some (concat (one_shot_writes w))"
    using assms
    by (cases "osw_buffer w")
      (auto simp: one_shot_ops_def one_shot_close_def one_shot_service_ok_def one_shot_writes_def
        split: prod.splits)
qed (auto simp: one_shot_ops_def one_shot_write_def one_shot_writes_def split: option.splits)

text \<open>
  An append service reports the length of the object as its offset; an \<open>append\<close> at the end of
  the object appends the body, and a failed one leaves the object alone.
\<close>

definition append_service_ok :: "'s append_service \<Rightarrow> ('s \<Rightarrow> bytes) \<Rightarrow> bool" where
  "append_service_ok svc obj \<longleftrightarrow>
     (\<forall>s r s'. as_offset svc s = (r, s') \<longrightarrow>
        obj s' = obj s \<and> r \<noteq> Panic \<and> (\<forall>n. r = Ok n \<longrightarrow> n = of_nat (length (obj s)))) \<and>
     (\<forall>bs s r s'. buffer_ok bs \<longrightarrow>
        as_append svc (of_nat (length (obj s))) (of_nat (buffer_len bs)) bs s = (r, s') \<longrightarrow>
        r \<noteq> Panic \<and> obj s' = (if (\<exists>m. r = Ok m) then obj s @ buffer_view bs else obj s))"

lemma append_service_offset:
  assumes "append_service_ok svc obj" "as_offset svc s = (r, s')"
  shows "obj s' = obj s" "r \<noteq> Panic" "r = Ok n \<Longrightarrow> n = of_nat (length (obj s))"
  using assms unfolding append_service_ok_def by blast+

lemma append_service_append:
  assumes "append_service_ok svc obj" "buffer_ok bs"
    "as_append svc (of_nat (length (obj s))) (of_nat (buffer_len bs)) bs s = (r, s')"
  shows "r \<noteq> Panic" "obj s' = (if (\<exists>m. r = Ok m) then obj s @ buffer_view bs else obj s)"
  using assms unfolding append_service_ok_def by blast+

definition append_inv :: "('s \<Rightarrow> bytes) \<Rightarrow> 's append_writer \<Rightarrow> bool" where
  "append_inv obj w \<longleftrightarrow> (\<forall>n. aw_offset w = Some n \<longrightarrow> n = of_nat (length (obj (aw_inner w))))"

lemma append_get_offset_ok:
  assumes "append_service_ok svc obj" "append_inv obj w" "append_get_offset svc w = (r, w')"
  shows "r \<noteq> Panic \<and> append_inv obj w' \<and> obj (aw_inner w') = obj (aw_inner w) \<and>
    (\<forall>n. r = Ok n \<longrightarrow> n = of_nat (length (obj (aw_inner w'))))"
proof (cases "aw_offset w")
  case None
  obtain q s where q: "as_offset svc (aw_inner w) = (q, s)" by force
  note svc = append_service_offset[OF assms(1) q]
  from svc None q assms(2,3) show ?thesis
    by (cases q) (auto simp: append_get_offset_def append_inv_def)
qed (use assms(2,3) in \<open>auto simp: append_get_offset_def append_inv_def\<close>)

lemma append_write_ok:
  assumes svc: "append_service_ok svc obj" and inv: "append_inv obj w" and bs: "buffer_ok bs"
    and w': "append_write svc w bs = (r, w')"
  shows "r \<noteq> Panic \<and> append_inv obj w' \<and>
    obj (aw_inner w') = obj (aw_inner w) @ (if r = Ok () then buffer_view bs else [])"
proof -
  obtain q w1 where q: "append_get_offset svc w = (q, w1)" by force
  note off = append_get_offset_ok[OF svc inv q]
  show ?thesis
  proof (cases q)
    case (Ok n)
    let ?sz = "of_nat (buffer_len bs) :: u64"
    obtain a s where a: "as_append svc n ?sz bs (aw_inner w1) = (a, s)" by force
    from off Ok have n: "n = of_nat (length (obj (aw_inner w1)))" by simp
    note app = append_service_append[OF svc bs a[unfolded n]]
    from app off Ok q a n w' buffer_ok_len[OF bs] show ?thesis
      by (cases a) (auto simp: append_write_def append_inv_def)
  qed (use q off w' in \<open>auto simp: append_write_def\<close>)
qed

section \<open>Properties\<close>

fun append_run ::
  "'s append_service \<Rightarrow> 's append_writer \<Rightarrow> buffer list \<Rightarrow> bool list \<times> 's append_writer" where
  "append_run svc w [] = ([], w)"
| "append_run svc w (b # bs) =
     (case append_write svc w b of
        (r, w1) \<Rightarrow> (case append_run svc w1 bs of (oks, w2) \<Rightarrow> ((r = Ok ()) # oks, w2)))"

lemma append_run_ok:
  "append_service_ok svc obj \<Longrightarrow> append_inv obj w \<Longrightarrow> \<forall>b\<in>set bs. buffer_ok b \<Longrightarrow>
     append_run svc w bs = (oks, w') \<Longrightarrow>
     length oks = length bs \<and> append_inv obj w' \<and>
     obj (aw_inner w') = obj (aw_inner w) @ concat (map (buffer_view \<circ> snd) (filter fst (zip oks bs)))"
proof (induction bs arbitrary: w oks w')
  case (Cons b bs)
  obtain r w1 where r: "append_write svc w b = (r, w1)" by force
  obtain ks w2 where k: "append_run svc w1 bs = (ks, w2)" by force
  have w1: "append_inv obj w1"
    "obj (aw_inner w1) = obj (aw_inner w) @ (if r = Ok () then buffer_view b else [])"
    using append_write_ok[OF Cons.prems(1,2) _ r] Cons.prems(3) by auto
  from Cons.IH[OF Cons.prems(1) w1(1) _ k] Cons.prems(3,4) r k w1(2) show ?case by auto
qed simp

text \<open>
  Over a service that appends at the end of the object, every sequence of \<open>write\<close> calls on
  an \<open>AppendWriter\<close>, some of which may fail, extends the object by exactly the buffers whose
  \<open>write\<close> succeeded, in order; a following \<open>close\<close> reports the length of the object as content
  length, if any \<open>write\<close> got as far as learning the offset.
\<close>

theorem append_writer_appends:
  assumes "append_service_ok svc obj" "\<forall>b\<in>set bs. buffer_ok b"
    "append_run svc (append_new s) bs = (oks, w)"
  shows "length oks = length bs \<and>
    obj (aw_inner w) = obj s @ concat (map (buffer_view \<circ> snd) (filter fst (zip oks bs))) \<and>
    (\<exists>m. fst (append_close w) = Ok m \<and>
       (metadata_content_length m = of_nat (length (obj (aw_inner w))) \<or> aw_offset w = None))"
proof -
  have "append_inv obj (append_new s)" by (simp add: append_inv_def append_new_def)
  from append_run_ok[OF assms(1) this assms(2,3)] show ?thesis
    by (cases "aw_offset w")
      (auto simp: append_inv_def append_close_def append_new_def metadata_content_length_def
        md_set_content_length_def Let_def)
qed

text \<open>A byte list as an append service, for the witness.\<close>

definition list_append_service :: "bytes append_service" where
  "list_append_service =
     \<lparr>as_offset = (\<lambda>s. (Ok (of_nat (length s)), s)),
      as_append = (\<lambda>off sz bs s. (Ok (metadata_new FILE), s @ buffer_view bs))\<rparr>"

end
