(* ===== verification/Task_Writers.thy ===== *)
theory Task_Writers
  imports Oio_Write Concurrent_Tasks
begin

text \<open>
  The three writers that upload in background tasks (\<open>core/core/src/raw/oio/write\<close>):
  \<open>MultipartWriter\<close> (\<open>multipart_write.rs\<close>), \<open>PositionWriter\<close> (\<open>position_write.rs\<close>) and
  \<open>BlockWriter\<close> (\<open>block_write.rs\<close>).  Each keeps the last buffer in a cache and hands the
  one before it to a \<open>ConcurrentTasks\<close> queue.

  The methods of the service that are called in the foreground are functions on its state
  \<open>'s\<close>; those called in the task factory are an argument, and \<open>run\<close> is the outcome of the
  factory's future (theory Concurrent\_Tasks).  The relation \<open>R i o\<close> stands for ``the service
  has accepted the upload \<open>i\<close> and answered \<open>o\<close>''.
\<close>

text \<open>\<open>let _ = e;\<close>: only a panic of \<open>e\<close> matters.\<close>

fun discard :: "'a res \<times> 's \<Rightarrow> unit res \<times> 's" where
  "discard (r, s) = (bind_res r (\<lambda>_. Ok ()), s)"

section \<open>MultipartWriter\<close>

record multipart_part =
  part_number :: usize
  part_etag :: str
  part_checksum :: "str option"
  part_size :: "u64 option"

record 's multipart_service =
  mp_write_once :: "u64 \<Rightarrow> buffer \<Rightarrow> 's \<Rightarrow> metadata res \<times> 's"
  mp_initiate_part :: "'s \<Rightarrow> str res \<times> 's"
  mp_complete_part :: "str \<Rightarrow> multipart_part list \<Rightarrow> 's \<Rightarrow> metadata res \<times> 's"
  mp_abort_part :: "str \<Rightarrow> 's \<Rightarrow> unit res \<times> 's"

record multipart_input =
  mi_upload_id :: str
  mi_part_number :: usize
  mi_bytes :: buffer

record 's multipart_writer =
  mpw_w :: 's
  mpw_upload_id :: "str option"
  mpw_parts :: "multipart_part list"
  mpw_cache :: "buffer option"
  mpw_next_part_number :: usize
  mpw_tasks :: "(multipart_input, multipart_part) concurrent_tasks"

text \<open>The future the factory builds: \<open>write_part\<close>, or the timeout if that comes first.\<close>

definition multipart_task ::
  "(str \<Rightarrow> usize \<Rightarrow> u64 \<Rightarrow> buffer \<Rightarrow> error + multipart_part) \<Rightarrow> (multipart_input \<Rightarrow> bool) \<Rightarrow>
     multipart_input \<Rightarrow> error + multipart_part" where
  "multipart_task write_part timed_out i =
     (if timed_out i then
        Inl (set_temporary
               (with_context ''part_number'' (show_nat (mi_part_number i))
                 (with_context ''upload_id'' (mi_upload_id i)
                   (error_new Unexpected ''write part timeout''))))
      else write_part (mi_upload_id i) (mi_part_number i) (of_nat (buffer_len (mi_bytes i))) (mi_bytes i))"

definition multipart_new :: "'s \<Rightarrow> nat \<Rightarrow> 's multipart_writer" where
  "multipart_new inner concurrent =
     \<lparr>mpw_w = inner, mpw_upload_id = None, mpw_parts = [], mpw_cache = None,
      mpw_next_part_number = 0, mpw_tasks = ct_new concurrent 8192\<rparr>"

text \<open>\<open>fill_cache\<close> asserts that the cache is empty.\<close>

definition multipart_fill_cache ::
  "buffer \<Rightarrow> 's multipart_writer \<Rightarrow> usize res \<times> 's multipart_writer" where
  "multipart_fill_cache bs w =
     (case mpw_cache w of
        None \<Rightarrow> (Ok (buffer_len bs), w\<lparr>mpw_cache := Some bs\<rparr>)
      | Some _ \<Rightarrow> (Panic, w))"

text \<open>\<open>self.tasks.execute(..).await?\<close> on a buffer, clearing the cache and counting the part.\<close>

definition multipart_submit ::
  "(multipart_input \<Rightarrow> error + multipart_part) \<Rightarrow> str \<Rightarrow> buffer \<Rightarrow> 's multipart_writer \<Rightarrow>
     unit res \<times> 's multipart_writer" where
  "multipart_submit run upload_id bytes w =
     (case ct_execute run
         \<lparr>mi_upload_id = upload_id, mi_part_number = mpw_next_part_number w, mi_bytes = bytes\<rparr>
         (mpw_tasks w) of
        (Ok _, t) \<Rightarrow>
          (Ok (), w\<lparr>mpw_tasks := t, mpw_cache := None,
                   mpw_next_part_number := mpw_next_part_number w + 1\<rparr>)
      | (Err e, t) \<Rightarrow> (Err e, w\<lparr>mpw_tasks := t\<rparr>)
      | (Panic, t) \<Rightarrow> (Panic, w\<lparr>mpw_tasks := t\<rparr>))"

text \<open>The part of \<open>write\<close> after the upload id is known.\<close>

definition multipart_write_with ::
  "(multipart_input \<Rightarrow> error + multipart_part) \<Rightarrow> str \<Rightarrow> buffer \<Rightarrow> 's multipart_writer \<Rightarrow>
     unit res \<times> 's multipart_writer" where
  "multipart_write_with run upload_id bs w =
     (case mpw_cache w of
        None \<Rightarrow> (Panic, w)
      | Some bytes \<Rightarrow>
          (case multipart_submit run upload_id bytes w of
             (Ok _, w1) \<Rightarrow> discard (multipart_fill_cache bs w1)
           | (r, w1) \<Rightarrow> (r, w1)))"

definition multipart_write ::
  "'s multipart_service \<Rightarrow> (multipart_input \<Rightarrow> error + multipart_part) \<Rightarrow> 's multipart_writer \<Rightarrow> buffer \<Rightarrow>
     unit res \<times> 's multipart_writer" where
  "multipart_write svc run w bs =
     (case mpw_upload_id w of
        Some v \<Rightarrow> multipart_write_with run v bs w
      | None \<Rightarrow>
          if mpw_cache w = None then discard (multipart_fill_cache bs w)
          else (case mp_initiate_part svc (mpw_w w) of
                  (Ok v, s) \<Rightarrow>
                    multipart_write_with run v bs (w\<lparr>mpw_w := s, mpw_upload_id := Some v\<rparr>)
                | (Err e, s) \<Rightarrow> (Err e, w\<lparr>mpw_w := s\<rparr>)
                | (Panic, s) \<Rightarrow> (Panic, w\<lparr>mpw_w := s\<rparr>)))"

text \<open>The end of \<open>close\<close>: collect the parts and complete the upload.\<close>

definition multipart_finish ::
  "'s multipart_service \<Rightarrow> (multipart_input \<Rightarrow> error + multipart_part) \<Rightarrow> str \<Rightarrow> 's multipart_writer \<Rightarrow>
     metadata res \<times> 's multipart_writer" where
  "multipart_finish svc run upload_id w =
     (case ct_drain run (mpw_tasks w) (mpw_parts w) of
        (Ok _, parts, t) \<Rightarrow>
          (let w1 = w\<lparr>mpw_tasks := t, mpw_parts := parts\<rparr>
           in if length parts \<noteq> mpw_next_part_number w
              then (Err (with_context ''upload_id'' upload_id
                          (with_context ''actual'' (show_nat (length parts))
                            (with_context ''expected'' (show_nat (mpw_next_part_number w))
                              (error_new Unexpected
                                ''multipart part numbers mismatch, please report bug to opendal'')))), w1)
              else (case mp_complete_part svc upload_id parts (mpw_w w1) of
                      (r, s) \<Rightarrow> (r, w1\<lparr>mpw_w := s\<rparr>)))
      | (Err e, parts, t) \<Rightarrow> (Err e, w\<lparr>mpw_tasks := t, mpw_parts := parts\<rparr>)
      | (Panic, parts, t) \<Rightarrow> (Panic, w\<lparr>mpw_tasks := t, mpw_parts := parts\<rparr>))"

definition multipart_close ::
  "'s multipart_service \<Rightarrow> (multipart_input \<Rightarrow> error + multipart_part) \<Rightarrow> 's multipart_writer \<Rightarrow>
     metadata res \<times> 's multipart_writer" where
  "multipart_close svc run w =
     (case mpw_upload_id w of
        None \<Rightarrow>
          (let body = (case mpw_cache w of Some cache \<Rightarrow> cache | None \<Rightarrow> buffer_new)
           in case mp_write_once svc (of_nat (buffer_len body)) body (mpw_w w) of
                (Ok meta, s) \<Rightarrow> (Ok meta, w\<lparr>mpw_w := s, mpw_cache := None\<rparr>)
              | (r, s) \<Rightarrow> (r, w\<lparr>mpw_w := s\<rparr>))
      | Some upload_id \<Rightarrow>
          (case mpw_cache w of
             None \<Rightarrow> multipart_finish svc run upload_id w
           | Some cache \<Rightarrow>
               (case multipart_submit run upload_id cache w of
                  (Ok _, w1) \<Rightarrow> multipart_finish svc run upload_id w1
                | (Err e, w1) \<Rightarrow> (Err e, w1)
                | (Panic, w1) \<Rightarrow> (Panic, w1))))"

definition multipart_abort ::
  "'s multipart_service \<Rightarrow> 's multipart_writer \<Rightarrow> unit res \<times> 's multipart_writer" where
  "multipart_abort svc w =
     (case mpw_upload_id w of
        None \<Rightarrow> (Ok (), w)
      | Some upload_id \<Rightarrow>
          (let w1 = w\<lparr>mpw_tasks := ct_clear (mpw_tasks w), mpw_cache := None\<rparr>
           in case mp_abort_part svc upload_id (mpw_w w1) of (r, s) \<Rightarrow> (r, w1\<lparr>mpw_w := s\<rparr>)))"

definition multipart_ops ::
  "'s multipart_service \<Rightarrow> (multipart_input \<Rightarrow> error + multipart_part) \<Rightarrow> 's multipart_writer write_ops" where
  "multipart_ops svc run =
     \<lparr>w_write = multipart_write svc run, w_close = multipart_close svc run,
      w_abort = multipart_abort svc\<rparr>"

section \<open>PositionWriter\<close>

record 's position_service =
  ps_write_all_at :: "u64 \<Rightarrow> buffer \<Rightarrow> 's \<Rightarrow> unit res \<times> 's"
  ps_close :: "u64 \<Rightarrow> 's \<Rightarrow> metadata res \<times> 's"
  ps_abort :: "'s \<Rightarrow> unit res \<times> 's"

record position_input =
  pi_offset :: u64
  pi_bytes :: buffer

record 's position_writer =
  pw_w :: 's
  pw_next_offset :: u64
  pw_cache :: "buffer option"
  pw_tasks :: "(position_input, unit) concurrent_tasks"

definition position_task ::
  "(u64 \<Rightarrow> buffer \<Rightarrow> error + unit) \<Rightarrow> (position_input \<Rightarrow> bool) \<Rightarrow> position_input \<Rightarrow> error + unit" where
  "position_task write_all_at timed_out i =
     (if timed_out i then
        Inl (set_temporary
               (with_context ''offset'' (show_u64 (pi_offset i))
                 (error_new Unexpected ''write position timeout'')))
      else write_all_at (pi_offset i) (pi_bytes i))"

definition position_new :: "'s \<Rightarrow> nat \<Rightarrow> 's position_writer" where
  "position_new inner concurrent =
     \<lparr>pw_w = inner, pw_next_offset = 0, pw_cache = None, pw_tasks = ct_new concurrent 8192\<rparr>"

definition position_fill_cache ::
  "buffer \<Rightarrow> 's position_writer \<Rightarrow> usize res \<times> 's position_writer" where
  "position_fill_cache bs w =
     (case pw_cache w of
        None \<Rightarrow> (Ok (buffer_len bs), w\<lparr>pw_cache := Some bs\<rparr>)
      | Some _ \<Rightarrow> (Panic, w))"

definition position_write ::
  "(position_input \<Rightarrow> error + unit) \<Rightarrow> 's position_writer \<Rightarrow> buffer \<Rightarrow> unit res \<times> 's position_writer" where
  "position_write run w bs =
     (case pw_cache w of
        None \<Rightarrow> discard (position_fill_cache bs w)
      | Some bytes \<Rightarrow>
          (let length = of_nat (buffer_len bytes); offset = pw_next_offset w
           in case ct_execute run \<lparr>pi_offset = offset, pi_bytes = bytes\<rparr> (pw_tasks w) of
                (Ok _, t) \<Rightarrow>
                  discard (position_fill_cache bs
                    (w\<lparr>pw_tasks := t, pw_cache := None, pw_next_offset := pw_next_offset w + length\<rparr>))
              | (Err e, t) \<Rightarrow> (Err e, w\<lparr>pw_tasks := t\<rparr>)
              | (Panic, t) \<Rightarrow> (Panic, w\<lparr>pw_tasks := t\<rparr>)))"

text \<open>The last buffer is written in the foreground, once all tasks are finished.\<close>

definition position_flush_cache ::
  "'s position_service \<Rightarrow> 's position_writer \<Rightarrow> unit res \<times> 's position_writer" where
  "position_flush_cache svc w =
     (case pw_cache w of
        None \<Rightarrow> (Ok (), w)
      | Some buffer \<Rightarrow>
          (case ps_write_all_at svc (pw_next_offset w) buffer (pw_w w) of
             (Ok _, s) \<Rightarrow>
               (Ok (), w\<lparr>pw_w := s, pw_cache := None,
                        pw_next_offset := pw_next_offset w + of_nat (buffer_len buffer)\<rparr>)
           | (r, s) \<Rightarrow> (r, w\<lparr>pw_w := s\<rparr>)))"

definition position_close ::
  "'s position_service \<Rightarrow> (position_input \<Rightarrow> error + unit) \<Rightarrow> 's position_writer \<Rightarrow>
     metadata res \<times> 's position_writer" where
  "position_close svc run w =
     (case ct_drain run (pw_tasks w) [] of
        (Ok _, _, t) \<Rightarrow>
          (case position_flush_cache svc (w\<lparr>pw_tasks := t\<rparr>) of
             (Ok _, w1) \<Rightarrow>
               (case ps_close svc (pw_next_offset w1) (pw_w w1) of (r, s) \<Rightarrow> (r, w1\<lparr>pw_w := s\<rparr>))
           | (Err e, w1) \<Rightarrow> (Err e, w1)
           | (Panic, w1) \<Rightarrow> (Panic, w1))
      | (Err e, _, t) \<Rightarrow> (Err e, w\<lparr>pw_tasks := t\<rparr>)
      | (Panic, _, t) \<Rightarrow> (Panic, w\<lparr>pw_tasks := t\<rparr>))"

definition position_abort ::
  "'s position_service \<Rightarrow> 's position_writer \<Rightarrow> unit res \<times> 's position_writer" where
  "position_abort svc w =
     (let w1 = w\<lparr>pw_tasks := ct_clear (pw_tasks w), pw_cache := None\<rparr>
      in case ps_abort svc (pw_w w1) of (r, s) \<Rightarrow> (r, w1\<lparr>pw_w := s\<rparr>))"

definition position_ops ::
  "'s position_service \<Rightarrow> (position_input \<Rightarrow> error + unit) \<Rightarrow> 's position_writer write_ops" where
  "position_ops svc run =
     \<lparr>w_write = position_write run, w_close = position_close svc run, w_abort = position_abort svc\<rparr>"

section \<open>BlockWriter\<close>

text \<open>A \<open>Uuid\<close> is opaque; the one \<open>new_v4\<close> draws is an argument of the operation.\<close>

record ('s, 'u) block_service =
  bs_write_once :: "u64 \<Rightarrow> buffer \<Rightarrow> 's \<Rightarrow> metadata res \<times> 's"
  bs_complete_block :: "'u list \<Rightarrow> 's \<Rightarrow> metadata res \<times> 's"
  bs_abort_block :: "'u list \<Rightarrow> 's \<Rightarrow> unit res \<times> 's"

record 'u block_input =
  bi_block_id :: 'u
  bi_bytes :: buffer

record ('s, 'u) block_writer =
  bw_w :: 's
  bw_started :: bool
  bw_block_ids :: "'u list"
  bw_cache :: "buffer option"
  bw_tasks :: "('u block_input, 'u) concurrent_tasks"

definition block_task ::
  "('u \<Rightarrow> str) \<Rightarrow> ('u \<Rightarrow> u64 \<Rightarrow> buffer \<Rightarrow> error + unit) \<Rightarrow> ('u block_input \<Rightarrow> bool) \<Rightarrow> 'u block_input \<Rightarrow>
     error + 'u" where
  "block_task show_uuid write_block timed_out i =
     (if timed_out i then
        Inl (set_temporary
               (with_context ''block_id'' (show_uuid (bi_block_id i))
                 (error_new Unexpected ''write block timeout'')))
      else (case write_block (bi_block_id i) (of_nat (buffer_len (bi_bytes i))) (bi_bytes i) of
              Inl e \<Rightarrow> Inl e
            | Inr _ \<Rightarrow> Inr (bi_block_id i)))"

definition block_new :: "'s \<Rightarrow> nat \<Rightarrow> ('s, 'u) block_writer" where
  "block_new inner concurrent =
     \<lparr>bw_w = inner, bw_started = False, bw_block_ids = [], bw_cache = None,
      bw_tasks = ct_new concurrent 8192\<rparr>"

definition block_fill_cache ::
  "buffer \<Rightarrow> ('s, 'u) block_writer \<Rightarrow> usize res \<times> ('s, 'u) block_writer" where
  "block_fill_cache bs w =
     (case bw_cache w of
        None \<Rightarrow> (Ok (buffer_len bs), w\<lparr>bw_cache := Some bs\<rparr>)
      | Some _ \<Rightarrow> (Panic, w))"

definition block_submit ::
  "('u block_input \<Rightarrow> error + 'u) \<Rightarrow> 'u \<Rightarrow> buffer \<Rightarrow> ('s, 'u) block_writer \<Rightarrow>
     unit res \<times> ('s, 'u) block_writer" where
  "block_submit run uuid bytes w =
     (case ct_execute run \<lparr>bi_block_id = uuid, bi_bytes = bytes\<rparr> (bw_tasks w) of
        (Ok _, t) \<Rightarrow> (Ok (), w\<lparr>bw_tasks := t, bw_cache := None\<rparr>)
      | (r, t) \<Rightarrow> (r, w\<lparr>bw_tasks := t\<rparr>))"

definition block_write ::
  "('u block_input \<Rightarrow> error + 'u) \<Rightarrow> 'u \<Rightarrow> ('s, 'u) block_writer \<Rightarrow> buffer \<Rightarrow>
     unit res \<times> ('s, 'u) block_writer" where
  "block_write run uuid w bs =
     (if \<not> bw_started w \<and> bw_cache w = None then discard (block_fill_cache bs w)
      else
        (let w1 = w\<lparr>bw_started := True\<rparr>
         in case bw_cache w1 of
              None \<Rightarrow> (Panic, w1)
            | Some bytes \<Rightarrow>
                (case block_submit run uuid bytes w1 of
                   (Ok _, w2) \<Rightarrow> discard (block_fill_cache bs w2)
                 | (r, w2) \<Rightarrow> (r, w2))))"

definition block_finish ::
  "('s, 'u) block_service \<Rightarrow> ('u block_input \<Rightarrow> error + 'u) \<Rightarrow> ('s, 'u) block_writer \<Rightarrow>
     metadata res \<times> ('s, 'u) block_writer" where
  "block_finish svc run w =
     (case ct_drain run (bw_tasks w) (bw_block_ids w) of
        (Ok _, ids, t) \<Rightarrow>
          (let w1 = w\<lparr>bw_tasks := t, bw_block_ids := ids\<rparr>
           in case bs_complete_block svc ids (bw_w w1) of (r, s) \<Rightarrow> (r, w1\<lparr>bw_w := s\<rparr>))
      | (Err e, ids, t) \<Rightarrow> (Err e, w\<lparr>bw_tasks := t, bw_block_ids := ids\<rparr>)
      | (Panic, ids, t) \<Rightarrow> (Panic, w\<lparr>bw_tasks := t, bw_block_ids := ids\<rparr>))"

definition block_close ::
  "('s, 'u) block_service \<Rightarrow> ('u block_input \<Rightarrow> error + 'u) \<Rightarrow> 'u \<Rightarrow> ('s, 'u) block_writer \<Rightarrow>
     metadata res \<times> ('s, 'u) block_writer" where
  "block_close svc run uuid w =
     (if \<not> bw_started w then
        (let body = (case bw_cache w of Some cache \<Rightarrow> cache | None \<Rightarrow> buffer_new)
         in case bs_write_once svc (of_nat (buffer_len body)) body (bw_w w) of
              (Ok meta, s) \<Rightarrow> (Ok meta, w\<lparr>bw_w := s, bw_cache := None\<rparr>)
            | (r, s) \<Rightarrow> (r, w\<lparr>bw_w := s\<rparr>))
      else
        (case bw_cache w of
           None \<Rightarrow> block_finish svc run w
         | Some cache \<Rightarrow>
             (case block_submit run uuid cache w of
                (Ok _, w1) \<Rightarrow> block_finish svc run w1
              | (Err e, w1) \<Rightarrow> (Err e, w1)
              | (Panic, w1) \<Rightarrow> (Panic, w1))))"

definition block_abort ::
  "('s, 'u) block_service \<Rightarrow> ('s, 'u) block_writer \<Rightarrow> unit res \<times> ('s, 'u) block_writer" where
  "block_abort svc w =
     (if \<not> bw_started w then (Ok (), w)
      else
        (let w1 = w\<lparr>bw_tasks := ct_clear (bw_tasks w), bw_cache := None\<rparr>
         in case bs_abort_block svc (bw_block_ids w1) (bw_w w1) of (r, s) \<Rightarrow> (r, w1\<lparr>bw_w := s\<rparr>)))"

section \<open>Sessions\<close>

text \<open>
  \<open>multipart_reach svc R c w bufs\<close>: the writer \<open>w\<close> is reached from a new one by writes (of
  which those of \<open>bufs\<close> succeeded), failed closes and completions of background tasks, in
  any order.
\<close>

inductive multipart_reach ::
  "'s multipart_service \<Rightarrow> (multipart_input \<Rightarrow> multipart_part \<Rightarrow> bool) \<Rightarrow> nat \<Rightarrow>
     's multipart_writer \<Rightarrow> buffer list \<Rightarrow> bool"
  for svc R c where
  mp_new: "multipart_reach svc R c (multipart_new s c) []"
| mp_write: "multipart_reach svc R c w bufs \<Longrightarrow> run_ok R run \<Longrightarrow>
    multipart_write svc run w bs = (Ok (), w') \<Longrightarrow> multipart_reach svc R c w' (bufs @ [bs])"
| mp_write_err: "multipart_reach svc R c w bufs \<Longrightarrow> run_ok R run \<Longrightarrow>
    multipart_write svc run w bs = (Err e, w') \<Longrightarrow> multipart_reach svc R c w' bufs"
| mp_close_err: "multipart_reach svc R c w bufs \<Longrightarrow> run_ok R run \<Longrightarrow>
    multipart_close svc run w = (Err e, w') \<Longrightarrow> multipart_reach svc R c w' bufs"
| mp_complete: "multipart_reach svc R c w bufs \<Longrightarrow> run_ok R run \<Longrightarrow>
    multipart_reach svc R c (w\<lparr>mpw_tasks := ct_complete run k (mpw_tasks w)\<rparr>) bufs"

inductive position_reach ::
  "'s position_service \<Rightarrow> (position_input \<Rightarrow> bool) \<Rightarrow> nat \<Rightarrow> 's position_writer \<Rightarrow> buffer list \<Rightarrow> bool"
  for svc W c where
  pos_new: "position_reach svc W c (position_new s c) []"
| pos_write: "position_reach svc W c w bufs \<Longrightarrow> run_ok (\<lambda>i _. W i) run \<Longrightarrow>
    position_write run w bs = (Ok (), w') \<Longrightarrow> position_reach svc W c w' (bufs @ [bs])"
| pos_write_err: "position_reach svc W c w bufs \<Longrightarrow> run_ok (\<lambda>i _. W i) run \<Longrightarrow>
    position_write run w bs = (Err e, w') \<Longrightarrow> position_reach svc W c w' bufs"
| pos_close_err: "position_reach svc W c w bufs \<Longrightarrow> run_ok (\<lambda>i _. W i) run \<Longrightarrow>
    position_close svc run w = (Err e, w') \<Longrightarrow> position_reach svc W c w' bufs"
| pos_complete: "position_reach svc W c w bufs \<Longrightarrow> run_ok (\<lambda>i _. W i) run \<Longrightarrow>
    position_reach svc W c (w\<lparr>pw_tasks := ct_complete run k (pw_tasks w)\<rparr>) bufs"

inductive block_reach ::
  "('s, 'u) block_service \<Rightarrow> ('u block_input \<Rightarrow> bool) \<Rightarrow> nat \<Rightarrow> ('s, 'u) block_writer \<Rightarrow> buffer list \<Rightarrow> bool"
  for svc W c where
  blk_new: "block_reach svc W c (block_new s c) []"
| blk_write: "block_reach svc W c w bufs \<Longrightarrow> run_ok (\<lambda>i o'. W i \<and> o' = bi_block_id i) run \<Longrightarrow>
    block_write run uuid w bs = (Ok (), w') \<Longrightarrow> block_reach svc W c w' (bufs @ [bs])"
| blk_write_err: "block_reach svc W c w bufs \<Longrightarrow> run_ok (\<lambda>i o'. W i \<and> o' = bi_block_id i) run \<Longrightarrow>
    block_write run uuid w bs = (Err e, w') \<Longrightarrow> block_reach svc W c w' bufs"
| blk_close_err: "block_reach svc W c w bufs \<Longrightarrow> run_ok (\<lambda>i o'. W i \<and> o' = bi_block_id i) run \<Longrightarrow>
    block_close svc run uuid w = (Err e, w') \<Longrightarrow> block_reach svc W c w' bufs"
| blk_complete: "block_reach svc W c w bufs \<Longrightarrow> run_ok (\<lambda>i o'. W i \<and> o' = bi_block_id i) run \<Longrightarrow>
    block_reach svc W c (w\<lparr>bw_tasks := ct_complete run k (bw_tasks w)\<rparr>) bufs"

section \<open>MultipartWriter: invariant\<close>

text \<open>The uploads of the buffers: the parts are numbered from 0 in the order of the writes.\<close>

definition multipart_inputs :: "str \<Rightarrow> buffer list \<Rightarrow> multipart_input list" where
  "multipart_inputs upload_id bufs =
     map (\<lambda>(k, b). \<lparr>mi_upload_id = upload_id, mi_part_number = k, mi_bytes = b\<rparr>) (enumerate 0 bufs)"

lemma multipart_inputs_simps [simp]:
  "multipart_inputs v [] = []"
  "multipart_inputs v (bufs @ [b]) =
     multipart_inputs v bufs @ [\<lparr>mi_upload_id = v, mi_part_number = length bufs, mi_bytes = b\<rparr>]"
  "length (multipart_inputs v bufs) = length bufs"
  by (simp_all add: multipart_inputs_def enumerate_append_eq)

definition multipart_inv ::
  "(multipart_input \<Rightarrow> multipart_part \<Rightarrow> bool) \<Rightarrow> nat \<Rightarrow> 's multipart_writer \<Rightarrow> buffer list \<Rightarrow> bool" where
  "multipart_inv R c w bufs \<longleftrightarrow>
     (\<exists>sent. bufs = sent @ opt_list (mpw_cache w) \<and> mpw_next_part_number w = length sent \<and>
       (mpw_upload_id w = None \<longrightarrow> sent = []) \<and>
       ct_inv R c 8192 (mpw_tasks w) (multipart_inputs (the (mpw_upload_id w)) sent) (mpw_parts w))"

lemma multipart_inv_new: "multipart_inv R c (multipart_new s c) []"
  by (simp add: multipart_inv_def multipart_new_def ct_inv_new)

lemma multipart_fill_cache_inv:
  assumes "multipart_inv R c w bufs" "mpw_cache w = None"
  shows "\<exists>w'. multipart_fill_cache bs w = (Ok (buffer_len bs), w') \<and> multipart_inv R c w' (bufs @ [bs])"
  using assms by (auto simp: multipart_fill_cache_def multipart_inv_def)

lemma multipart_submit_inv:
  assumes "multipart_inv R c w bufs" "run_ok R run" "mpw_upload_id w = Some v" "mpw_cache w = Some b"
    "multipart_submit run v b w = (r, w')"
  shows "r \<noteq> Panic \<and> multipart_inv R c w' bufs \<and> mpw_upload_id w' = Some v \<and> mpw_w w' = mpw_w w \<and>
    (r = Ok () \<longrightarrow> mpw_cache w' = None)"
proof -
  from assms(1,3,4) obtain sent where sent: "bufs = sent @ [b]" "mpw_next_part_number w = length sent"
    "ct_inv R c 8192 (mpw_tasks w) (multipart_inputs v sent) (mpw_parts w)"
    by (auto simp: multipart_inv_def)
  obtain q t where ex: "ct_execute run \<lparr>mi_upload_id = v, mi_part_number = length sent, mi_bytes = b\<rparr>
      (mpw_tasks w) = (q, t)" by force
  note inv = ct_inv_execute[OF sent(3) assms(2) ex]
  show ?thesis
  proof (cases q)
    case (Ok u)
    with ex sent(2) assms(5) have w': "r = Ok ()" "w' = w\<lparr>mpw_tasks := t, mpw_cache := None,
        mpw_next_part_number := mpw_next_part_number w + 1\<rparr>"
      by (simp_all add: multipart_submit_def)
    have "ct_inv R c 8192 t (multipart_inputs v (sent @ [b])) (mpw_parts w)" using inv Ok by simp
    with w' sent assms(3) show ?thesis by (auto simp: multipart_inv_def)
  next
    case (Err e)
    with ex sent(2) assms(5) have w': "r = Err e" "w' = w\<lparr>mpw_tasks := t\<rparr>"
      by (simp_all add: multipart_submit_def)
    with inv Err sent assms(3,4) show ?thesis by (auto simp: multipart_inv_def)
  next
    case Panic
    with inv show ?thesis by simp
  qed
qed

lemma multipart_write_with_inv:
  assumes "multipart_inv R c w bufs" "run_ok R run" "mpw_upload_id w = Some v"
    "multipart_write_with run v bs w = (r, w')"
  shows "(r = Ok () \<longrightarrow> multipart_inv R c w' (bufs @ [bs])) \<and> (\<forall>e. r = Err e \<longrightarrow> multipart_inv R c w' bufs) \<and>
    (r = Panic \<longrightarrow> mpw_cache w = None)"
proof (cases "mpw_cache w")
  case None
  with assms(4) show ?thesis by (simp add: multipart_write_with_def)
next
  case (Some b)
  obtain q w1 where sub: "multipart_submit run v b w = (q, w1)" by force
  note inv = multipart_submit_inv[OF assms(1,2,3) Some sub]
  show ?thesis
  proof (cases q)
    case (Ok u)
    then have "mpw_cache w1 = None" "multipart_inv R c w1 bufs" using inv by auto
    from multipart_fill_cache_inv[OF this(2,1), of bs] sub Ok Some assms(4) show ?thesis
      by (auto simp: multipart_write_with_def)
  next
    case (Err e)
    with inv sub Some assms(4) show ?thesis by (auto simp: multipart_write_with_def)
  next
    case Panic
    with inv show ?thesis by simp
  qed
qed

lemma multipart_write_inv:
  assumes "multipart_inv R c w bufs" "run_ok R run" "multipart_write svc run w bs = (r, w')"
  shows "(r = Ok () \<longrightarrow> multipart_inv R c w' (bufs @ [bs])) \<and> (\<forall>e. r = Err e \<longrightarrow> multipart_inv R c w' bufs)"
proof (cases "mpw_upload_id w")
  case (Some v)
  with multipart_write_with_inv[OF assms(1,2) Some] assms(3) show ?thesis by (simp add: multipart_write_def)
next
  case None
  show ?thesis
  proof (cases "mpw_cache w")
    case (Some b)
    obtain q s where i: "mp_initiate_part svc (mpw_w w) = (q, s)" by force
    have inv: "multipart_inv R c (w\<lparr>mpw_w := s, mpw_upload_id := Some v\<rparr>) bufs"
      "multipart_inv R c (w\<lparr>mpw_w := s\<rparr>) bufs" for v
      using assms(1) None by (auto simp: multipart_inv_def)
    show ?thesis
    proof (cases q)
      case (Ok v)
      with multipart_write_with_inv[OF inv(1)[of v] assms(2), of v bs r w'] None Some i assms(3)
      show ?thesis by (simp add: multipart_write_def)
    next
      case (Err e)
      with inv(2) None Some i assms(3) show ?thesis by (auto simp: multipart_write_def)
    next
      case Panic
      with None Some i assms(3) show ?thesis by (auto simp: multipart_write_def)
    qed
  next
    case cache: None
    from multipart_fill_cache_inv[OF assms(1) cache, of bs] None cache assms(3) show ?thesis
      by (auto simp: multipart_write_def)
  qed
qed

text \<open>What the end of \<open>close\<close> does once everything was submitted.\<close>

lemma multipart_finish_inv:
  assumes "multipart_inv R c w bufs" "run_ok R run" "mpw_upload_id w = Some v" "mpw_cache w = None"
    "multipart_finish svc run v w = (r, w')"
  shows "multipart_inv R c w' bufs \<and>
    (\<forall>m. r = Ok m \<longrightarrow> mp_complete_part svc v (mpw_parts w') (mpw_w w) = (Ok m, mpw_w w') \<and>
      list_all2 R (multipart_inputs v bufs) (mpw_parts w')) \<and>
    (\<forall>e. r = Err e \<longrightarrow> fst (ct_drain run (mpw_tasks w) (mpw_parts w)) = Err e \<or>
      (\<exists>parts. fst (mp_complete_part svc v parts (mpw_w w)) = Err e))"
proof -
  from assms(1,3,4) have w: "mpw_next_part_number w = length bufs"
    "ct_inv R c 8192 (mpw_tasks w) (multipart_inputs v bufs) (mpw_parts w)"
    by (auto simp: multipart_inv_def)
  obtain q parts t where dr: "ct_drain run (mpw_tasks w) (mpw_parts w) = (q, parts, t)" by (metis prod_cases3)
  from ct_drain_inv[OF w(2) assms(2) dr] have inv: "q \<noteq> Panic" "ct_inv R c 8192 t (multipart_inputs v bufs) parts"
    and ok: "q = Ok () \<Longrightarrow> list_all2 R (multipart_inputs v bufs) parts"
    using ct_inv_all_delivered[of R c 8192 t "multipart_inputs v bufs" parts] by auto
  show ?thesis
  proof (cases q)
    case (Ok u)
    then have all: "list_all2 R (multipart_inputs v bufs) parts" using ok by simp
    then have "length parts = length bufs" using list_all2_lengthD[OF all] by simp
    moreover obtain z s where "mp_complete_part svc v parts (mpw_w w) = (z, s)" by force
    moreover from this have "\<exists>parts. fst (mp_complete_part svc v parts (mpw_w w)) = z" by (metis fst_conv)
    ultimately show ?thesis using assms(3,4,5) dr Ok w(1) all inv
      by (auto simp: multipart_finish_def multipart_inv_def)
  next
    case (Err e)
    with assms dr w(1) inv show ?thesis by (auto simp: multipart_finish_def multipart_inv_def)
  next
    case Panic
    with inv show ?thesis by simp
  qed
qed

lemma multipart_close_cases:
  assumes "multipart_inv R c w bufs" "run_ok R run" "multipart_close svc run w = (r, w')"
  shows "(\<forall>e. r = Err e \<longrightarrow> multipart_inv R c w' bufs) \<and>
    (\<forall>m. r = Ok m \<longrightarrow>
      (case mpw_upload_id w of
         None \<Rightarrow> (let body = (case bufs of [] \<Rightarrow> buffer_new | b # _ \<Rightarrow> b)
                 in length bufs \<le> 1 \<and>
                    mp_write_once svc (of_nat (buffer_len body)) body (mpw_w w) = (Ok m, mpw_w w'))
       | Some v \<Rightarrow> mp_complete_part svc v (mpw_parts w') (mpw_w w) = (Ok m, mpw_w w') \<and>
                   list_all2 R (multipart_inputs v bufs) (mpw_parts w')))"
proof (cases "mpw_upload_id w")
  case None
  with assms(1) have bufs: "bufs = opt_list (mpw_cache w)" by (auto simp: multipart_inv_def)
  let ?body = "case mpw_cache w of Some cache \<Rightarrow> cache | None \<Rightarrow> buffer_new"
  obtain q s where o: "mp_write_once svc (of_nat (buffer_len ?body)) ?body (mpw_w w) = (q, s)" by force
  have "multipart_inv R c (w\<lparr>mpw_w := s\<rparr>) bufs" using assms(1) by (simp add: multipart_inv_def)
  with o None bufs assms(3) show ?thesis
    by (cases q; cases "mpw_cache w") (auto simp: multipart_close_def)
next
  case (Some v)
  show ?thesis
  proof (cases "mpw_cache w")
    case None
    with multipart_finish_inv[OF assms(1,2) Some None, of svc r w'] Some assms(3) show ?thesis
      by (simp add: multipart_close_def)
  next
    case cache: (Some b)
    obtain q w1 where sub: "multipart_submit run v b w = (q, w1)" by force
    note inv = multipart_submit_inv[OF assms(1,2) Some cache sub]
    show ?thesis
    proof (cases q)
      case (Ok u)
      then have w1: "multipart_inv R c w1 bufs" "mpw_upload_id w1 = Some v" "mpw_cache w1 = None"
        "mpw_w w1 = mpw_w w" using inv by auto
      from multipart_finish_inv[OF w1(1) assms(2) w1(2,3), of svc r w'] w1(4) Some cache sub Ok assms(3)
      show ?thesis by (simp add: multipart_close_def)
    next
      case (Err e)
      with inv Some cache sub assms(3) show ?thesis by (auto simp: multipart_close_def)
    next
      case Panic
      with inv show ?thesis by simp
    qed
  qed
qed

lemma multipart_reach_inv: "multipart_reach svc R c w bufs \<Longrightarrow> multipart_inv R c w bufs"
proof (induction rule: multipart_reach.induct)
  case (mp_new s)
  show ?case by (rule multipart_inv_new)
next
  case (mp_write w bufs run bs w')
  from multipart_write_inv[OF mp_write(4,2,3)] show ?case by simp
next
  case (mp_write_err w bufs run bs e w')
  from multipart_write_inv[OF mp_write_err(4,2,3)] show ?case by simp
next
  case (mp_close_err w bufs run e w')
  from multipart_close_cases[OF mp_close_err(4,2,3)] show ?case by simp
next
  case (mp_complete w bufs run k)
  then show ?case by (auto simp: multipart_inv_def intro: ct_inv_complete)
qed

section \<open>PositionWriter: invariant\<close>

text \<open>The uploads of the buffers, one after the other from \<open>offset\<close> on.\<close>

fun position_inputs :: "u64 \<Rightarrow> buffer list \<Rightarrow> position_input list" where
  "position_inputs offset [] = []"
| "position_inputs offset (b # bufs) =
     \<lparr>pi_offset = offset, pi_bytes = b\<rparr> # position_inputs (offset + of_nat (buffer_len b)) bufs"

definition total_len :: "buffer list \<Rightarrow> u64" where
  "total_len bufs = of_nat (sum_list (map buffer_len bufs))"

lemma total_len_simps [simp]:
  "total_len [] = 0" "total_len (b # bufs) = of_nat (buffer_len b) + total_len bufs"
  "total_len (bufs @ bufs') = total_len bufs + total_len bufs'"
  by (simp_all add: total_len_def)

lemma position_inputs_snoc [simp]:
  "position_inputs offset (bufs @ [b]) =
     position_inputs offset bufs @ [\<lparr>pi_offset = offset + total_len bufs, pi_bytes = b\<rparr>]"
  by (induction bufs arbitrary: offset) (simp_all add: ac_simps)

text \<open>Every buffer that left the cache was written or is in the queue.\<close>

definition position_inv ::
  "(position_input \<Rightarrow> bool) \<Rightarrow> nat \<Rightarrow> 's position_writer \<Rightarrow> buffer list \<Rightarrow> bool" where
  "position_inv W c w bufs \<longleftrightarrow>
     (\<exists>sent is os. bufs = sent @ opt_list (pw_cache w) \<and> pw_next_offset w = total_len sent \<and>
       ct_inv (\<lambda>i _. W i) c 8192 (pw_tasks w) is os \<and>
       set (position_inputs 0 sent) \<subseteq> Collect W \<union> set is)"

text \<open>The foreground \<open>write_all_at\<close> confirms a write like the one in the tasks.\<close>

definition position_service_ok :: "'s position_service \<Rightarrow> (position_input \<Rightarrow> bool) \<Rightarrow> bool" where
  "position_service_ok svc W \<longleftrightarrow>
     (\<forall>offset b s s'. ps_write_all_at svc offset b s = (Ok (), s') \<longrightarrow> W \<lparr>pi_offset = offset, pi_bytes = b\<rparr>)"

lemma position_invI:
  "bufs = sent @ opt_list (pw_cache w) \<Longrightarrow> pw_next_offset w = total_len sent \<Longrightarrow>
   ct_inv (\<lambda>i _. W i) c 8192 (pw_tasks w) is os \<Longrightarrow> set (position_inputs 0 sent) \<subseteq> Collect W \<union> set is \<Longrightarrow>
   position_inv W c w bufs"
  unfolding position_inv_def by blast

lemma position_inv_new: "position_inv W c (position_new s c) []"
  using ct_inv_new[of "\<lambda>i _. W i" c 8192] by (auto simp: position_inv_def position_new_def)

lemma position_write_inv:
  assumes "position_inv W c w bufs" "run_ok (\<lambda>i _. W i) run" "position_write run w bs = (r, w')"
  shows "r \<noteq> Panic \<and> (r = Ok () \<longrightarrow> position_inv W c w' (bufs @ [bs])) \<and>
    (\<forall>e. r = Err e \<longrightarrow> position_inv W c w' bufs)"
proof (cases "pw_cache w")
  case None
  with assms show ?thesis by (fastforce simp: position_write_def position_fill_cache_def position_inv_def)
next
  case (Some b)
  with assms(1) obtain sent "is" os where inv: "bufs = sent @ [b]" "pw_next_offset w = total_len sent"
    "ct_inv (\<lambda>i _. W i) c 8192 (pw_tasks w) is os" "set (position_inputs 0 sent) \<subseteq> Collect W \<union> set is"
    by (auto simp: position_inv_def)
  let ?i = "\<lparr>pi_offset = total_len sent, pi_bytes = b\<rparr>"
  obtain q t where ex: "ct_execute run ?i (pw_tasks w) = (q, t)" by force
  note ei = ct_inv_execute[OF inv(3) assms(2) ex]
  show ?thesis
  proof (cases q)
    case (Ok u)
    with ex inv(2) assms(3) Some have w': "r = Ok ()" "w' = w\<lparr>pw_tasks := t,
        pw_next_offset := total_len sent + of_nat (buffer_len b), pw_cache := Some bs\<rparr>"
      by (auto simp: position_write_def position_fill_cache_def Let_def)
    have "ct_inv (\<lambda>i _. W i) c 8192 t (is @ [?i]) os" using ei Ok by simp
    moreover have "set (position_inputs 0 (sent @ [b])) \<subseteq> Collect W \<union> set (is @ [?i])" using inv(4) by auto
    ultimately show ?thesis
      using w' inv(1) by (auto intro!: position_invI[of _ "sent @ [b]" _ W c "is @ [?i]" os])
  next
    case (Err e)
    with ex inv ei assms(3) Some show ?thesis
      by (auto simp: position_write_def Let_def intro!: position_invI[of _ sent _ W c "is" os])
  next
    case Panic
    with ei show ?thesis by simp
  qed
qed

text \<open>After the tasks are drained, everything that left the cache was written.\<close>

definition position_done :: "(position_input \<Rightarrow> bool) \<Rightarrow> 's position_writer \<Rightarrow> buffer list \<Rightarrow> bool" where
  "position_done W w bufs \<longleftrightarrow>
     (\<exists>sent. bufs = sent @ opt_list (pw_cache w) \<and> pw_next_offset w = total_len sent \<and>
       set (position_inputs 0 sent) \<subseteq> Collect W)"

lemma position_drain_inv:
  assumes "position_inv W c w bufs" "run_ok (\<lambda>i _. W i) run" "ct_drain run (pw_tasks w) [] = (q, rs, t)"
  shows "q \<noteq> Panic \<and> position_inv W c (w\<lparr>pw_tasks := t\<rparr>) bufs \<and>
    (q = Ok () \<longrightarrow> position_done W (w\<lparr>pw_tasks := t\<rparr>) bufs)"
proof -
  from assms(1) obtain sent "is" os where inv: "bufs = sent @ opt_list (pw_cache w)"
    "pw_next_offset w = total_len sent" "ct_inv (\<lambda>i _. W i) c 8192 (pw_tasks w) is os"
    "set (position_inputs 0 sent) \<subseteq> Collect W \<union> set is"
    by (auto simp: position_inv_def)
  from ct_drain_inv[OF inv(3) assms(2,3)] obtain ys where
    d: "q \<noteq> Panic" "ct_inv (\<lambda>i _. W i) c 8192 t is (os @ ys)"
      "q = Ok () \<longrightarrow> ct_tasks t = [] \<and> ct_results t = [] \<and> \<not> ct_errored t" by auto
  have "set is \<subseteq> Collect W" if "q = Ok ()"
  proof -
    have "list_all2 (\<lambda>i _. W i) is (os @ ys)" using ct_inv_all_delivered[OF d(2)] d(3) that by simp
    then show ?thesis by (auto simp: list_all2_conv_all_nth in_set_conv_nth)
  qed
  with inv d show ?thesis unfolding position_inv_def position_done_def by auto
qed

lemma position_flush_inv:
  assumes "position_done W w bufs" "position_service_ok svc W" "position_flush_cache svc w = (r, w')"
  shows "position_done W w' bufs \<and> pw_tasks w' = pw_tasks w \<and> (r = Ok () \<longrightarrow> pw_cache w' = None)"
proof (cases "pw_cache w")
  case None
  with assms show ?thesis by (auto simp: position_flush_cache_def)
next
  case (Some b)
  with assms(1) obtain sent where sent: "bufs = sent @ [b]" "pw_next_offset w = total_len sent"
    "set (position_inputs 0 sent) \<subseteq> Collect W" by (auto simp: position_done_def)
  obtain q s where q: "ps_write_all_at svc (total_len sent) b (pw_w w) = (q, s)" by force
  show ?thesis
  proof (cases "q = Ok ()")
    case True
    then have "W \<lparr>pi_offset = total_len sent, pi_bytes = b\<rparr>"
      using q assms(2) by (auto simp: position_service_ok_def)
    then have "set (position_inputs 0 (sent @ [b])) \<subseteq> Collect W" using sent(3) by simp
    with True q sent Some assms(3) show ?thesis
      by (auto simp: position_flush_cache_def position_done_def intro!: exI[of _ "sent @ [b]"])
  next
    case False
    with q sent Some assms(3) show ?thesis
      by (cases q) (auto simp: position_flush_cache_def position_done_def)
  qed
qed

lemma position_done_inv:
  "position_done W w bufs \<Longrightarrow> ct_inv (\<lambda>i _. W i) c 8192 (pw_tasks w) is os \<Longrightarrow> position_inv W c w bufs"
  by (auto simp: position_done_def position_inv_def)

lemma position_close_cases:
  assumes "position_inv W c w bufs" "run_ok (\<lambda>i _. W i) run" "position_service_ok svc W"
    "position_close svc run w = (r, w')"
  shows "(\<forall>e. r = Err e \<longrightarrow> position_inv W c w' bufs) \<and>
    (\<forall>m. r = Ok m \<longrightarrow> (\<forall>i\<in>set (position_inputs 0 bufs). W i) \<and>
      (\<exists>s. ps_close svc (total_len bufs) s = (Ok m, pw_w w')))"
proof -
  obtain q rs t where dr: "ct_drain run (pw_tasks w) [] = (q, rs, t)" by (metis prod_cases3)
  note d = position_drain_inv[OF assms(1,2) dr]
  show ?thesis
  proof (cases q)
    case (Ok u)
    obtain z w1 where fl: "position_flush_cache svc (w\<lparr>pw_tasks := t\<rparr>) = (z, w1)" by force
    have pd: "position_done W (w\<lparr>pw_tasks := t\<rparr>) bufs" using d Ok by simp
    note f = position_flush_inv[OF pd assms(3) fl]
    obtain "is" os where ct: "ct_inv (\<lambda>i _. W i) c 8192 t is os" using d by (auto simp: position_inv_def)
    then have inv: "position_inv W c w1 bufs" "position_inv W c (w1\<lparr>pw_w := s\<rparr>) bufs" for s
      using f position_done_inv[of W w1 bufs c "is" os] by (auto simp: position_inv_def)
    show ?thesis
    proof (cases z)
      case z: (Ok u)
      then have w1: "pw_next_offset w1 = total_len bufs" "set (position_inputs 0 bufs) \<subseteq> Collect W"
        using f by (auto simp: position_done_def)
      obtain y s where "ps_close svc (total_len bufs) (pw_w w1) = (y, s)" by force
      with w1 inv z Ok fl dr assms(4) show ?thesis by (auto simp: position_close_def)
    qed (use inv Ok fl dr assms(4) in \<open>auto simp: position_close_def\<close>)
  next
    case (Err e)
    with d dr assms(4) show ?thesis by (auto simp: position_close_def)
  next
    case Panic
    with d show ?thesis by simp
  qed
qed

lemma position_reach_inv:
  "position_reach svc W c w bufs \<Longrightarrow> position_service_ok svc W \<Longrightarrow> position_inv W c w bufs"
proof (induction rule: position_reach.induct)
  case (pos_new s)
  show ?case by (rule position_inv_new)
next
  case (pos_write w bufs run bs w')
  from position_write_inv[OF pos_write(4)[OF pos_write(5)] pos_write(2,3)] show ?case by simp
next
  case (pos_write_err w bufs run bs e w')
  from position_write_inv[OF pos_write_err(4)[OF pos_write_err(5)] pos_write_err(2,3)] show ?case by simp
next
  case (pos_close_err w bufs run e w')
  from position_close_cases[OF pos_close_err(4)[OF pos_close_err(5)] pos_close_err(2,5,3)] show ?case by simp
next
  case (pos_complete w bufs run k)
  then show ?case by (fastforce simp: position_inv_def intro: ct_inv_complete)
qed

section \<open>BlockWriter: invariant\<close>

abbreviation block_answer :: "('u block_input \<Rightarrow> bool) \<Rightarrow> 'u block_input \<Rightarrow> 'u \<Rightarrow> bool" where
  "block_answer W i o' \<equiv> W i \<and> o' = bi_block_id i"

definition block_inv ::
  "('u block_input \<Rightarrow> bool) \<Rightarrow> nat \<Rightarrow> ('s, 'u) block_writer \<Rightarrow> buffer list \<Rightarrow> bool" where
  "block_inv W c w bufs \<longleftrightarrow>
     (\<exists>is. bufs = map bi_bytes is @ opt_list (bw_cache w) \<and> (\<not> bw_started w \<longrightarrow> is = []) \<and>
       ct_inv (block_answer W) c 8192 (bw_tasks w) is (bw_block_ids w))"

lemma block_invI:
  "bufs = map bi_bytes is @ opt_list (bw_cache w) \<Longrightarrow> (\<not> bw_started w \<Longrightarrow> is = []) \<Longrightarrow>
   ct_inv (block_answer W) c 8192 (bw_tasks w) is (bw_block_ids w) \<Longrightarrow> block_inv W c w bufs"
  unfolding block_inv_def by blast

lemma block_inv_new: "block_inv W c (block_new s c) []"
  using ct_inv_new[of "block_answer W" c 8192] by (auto simp: block_inv_def block_new_def)

lemma block_submit_inv:
  assumes "block_inv W c w bufs" "run_ok (block_answer W) run" "bw_started w" "bw_cache w = Some b"
    "block_submit run uuid b w = (r, w')"
  shows "r \<noteq> Panic \<and> block_inv W c w' bufs \<and> bw_started w' \<and> bw_w w' = bw_w w \<and>
    (r = Ok () \<longrightarrow> bw_cache w' = None)"
proof -
  from assms(1,4) obtain "is" where inv: "bufs = map bi_bytes is @ [b]"
    "ct_inv (block_answer W) c 8192 (bw_tasks w) is (bw_block_ids w)" by (auto simp: block_inv_def)
  let ?i = "\<lparr>bi_block_id = uuid, bi_bytes = b\<rparr>"
  obtain q t where ex: "ct_execute run ?i (bw_tasks w) = (q, t)" by force
  note ei = ct_inv_execute[OF inv(2) assms(2) ex]
  show ?thesis
  proof (cases q)
    case (Ok u)
    with ex ei inv assms(3,5) show ?thesis
      by (auto simp: block_submit_def intro!: block_invI[of _ "is @ [?i]"])
  next
    case (Err e)
    with ex ei inv assms(3,4,5) show ?thesis
      by (auto simp: block_submit_def intro!: block_invI[of _ "is"])
  next
    case Panic
    with ei show ?thesis by simp
  qed
qed

lemma block_fill_cache_inv:
  assumes "block_inv W c w bufs" "bw_cache w = None"
  shows "\<exists>w'. block_fill_cache bs w = (Ok (buffer_len bs), w') \<and> block_inv W c w' (bufs @ [bs])"
  using assms by (auto simp: block_fill_cache_def block_inv_def)

lemma block_write_inv:
  assumes "block_inv W c w bufs" "run_ok (block_answer W) run" "block_write run uuid w bs = (r, w')"
  shows "(r = Ok () \<longrightarrow> block_inv W c w' (bufs @ [bs])) \<and> (\<forall>e. r = Err e \<longrightarrow> block_inv W c w' bufs)"
proof (cases "bw_cache w")
  case None
  with block_fill_cache_inv[OF assms(1) None, of bs] assms(3) show ?thesis
    by (auto simp: block_write_def Let_def split: if_splits)
next
  case (Some b)
  let ?w = "w\<lparr>bw_started := True\<rparr>"
  obtain q w1 where sub: "block_submit run uuid b ?w = (q, w1)" by force
  have "block_inv W c ?w bufs" using assms(1) by (auto simp: block_inv_def)
  from block_submit_inv[OF this assms(2) _ _ sub] Some have inv: "q \<noteq> Panic" "block_inv W c w1 bufs"
    "q = Ok () \<Longrightarrow> bw_cache w1 = None" by auto
  show ?thesis
  proof (cases q)
    case (Ok u)
    with block_fill_cache_inv[OF inv(2), of bs] inv(3) Some sub assms(3) show ?thesis
      by (auto simp: block_write_def Let_def)
  next
    case (Err e)
    with inv Some sub assms(3) show ?thesis by (auto simp: block_write_def Let_def)
  next
    case Panic
    with inv show ?thesis by simp
  qed
qed

lemma block_finish_inv:
  assumes "block_inv W c w bufs" "run_ok (block_answer W) run" "bw_started w" "bw_cache w = None"
    "block_finish svc run w = (r, w')"
  shows "block_inv W c w' bufs \<and>
    (\<forall>m. r = Ok m \<longrightarrow> bs_complete_block svc (bw_block_ids w') (bw_w w) = (Ok m, bw_w w') \<and>
      (\<exists>is. map bi_bytes is = bufs \<and> map bi_block_id is = bw_block_ids w' \<and> (\<forall>i\<in>set is. W i)))"
proof -
  from assms(1,4) obtain "is" where inv: "bufs = map bi_bytes is"
    "ct_inv (block_answer W) c 8192 (bw_tasks w) is (bw_block_ids w)" by (auto simp: block_inv_def)
  obtain q ids t where dr: "ct_drain run (bw_tasks w) (bw_block_ids w) = (q, ids, t)" by (metis prod_cases3)
  from ct_drain_inv[OF inv(2) assms(2) dr] have d: "q \<noteq> Panic" "ct_inv (block_answer W) c 8192 t is ids"
    and all: "q = Ok () \<Longrightarrow> list_all2 (block_answer W) is ids"
    using ct_inv_all_delivered[of "block_answer W" c 8192 t "is" ids] by auto
  show ?thesis
  proof (cases q)
    case (Ok u)
    then have la: "list_all2 (block_answer W) is ids" using all by simp
    then have "map bi_block_id is = ids"
      by (auto simp: list_all2_conv_all_nth intro: nth_equalityI)
    moreover have "\<forall>i\<in>set is. W i" using la by (auto simp: list_all2_conv_all_nth in_set_conv_nth)
    moreover obtain z s where "bs_complete_block svc ids (bw_w w) = (z, s)" by force
    ultimately show ?thesis using dr Ok d inv(1) assms(3,4,5)
      by (auto simp: block_finish_def Let_def intro!: block_invI[of _ "is"])
  next
    case (Err e)
    with dr d inv(1) assms(3,4,5) show ?thesis
      by (auto simp: block_finish_def intro!: block_invI[of _ "is"])
  next
    case Panic
    with d show ?thesis by simp
  qed
qed

lemma block_close_cases:
  assumes "block_inv W c w bufs" "run_ok (block_answer W) run" "block_close svc run uuid w = (r, w')"
  shows "(\<forall>e. r = Err e \<longrightarrow> block_inv W c w' bufs) \<and>
    (\<forall>m. r = Ok m \<longrightarrow>
      (if bw_started w
       then bs_complete_block svc (bw_block_ids w') (bw_w w) = (Ok m, bw_w w') \<and>
         (\<exists>is. map bi_bytes is = bufs \<and> map bi_block_id is = bw_block_ids w' \<and> (\<forall>i\<in>set is. W i))
       else (let body = (case bufs of [] \<Rightarrow> buffer_new | b # _ \<Rightarrow> b)
             in length bufs \<le> 1 \<and>
                bs_write_once svc (of_nat (buffer_len body)) body (bw_w w) = (Ok m, bw_w w'))))"
proof (cases "bw_started w")
  case False
  with assms(1) have bufs: "bufs = opt_list (bw_cache w)" by (auto simp: block_inv_def)
  let ?body = "case bw_cache w of Some cache \<Rightarrow> cache | None \<Rightarrow> buffer_new"
  obtain q s where o: "bs_write_once svc (of_nat (buffer_len ?body)) ?body (bw_w w) = (q, s)" by force
  have "block_inv W c (w\<lparr>bw_w := s\<rparr>) bufs" using assms(1) by (simp add: block_inv_def)
  with o False bufs assms(3) show ?thesis
    by (cases q; cases "bw_cache w") (auto simp: block_close_def)
next
  case True
  show ?thesis
  proof (cases "bw_cache w")
    case None
    with block_finish_inv[OF assms(1,2) True None, of svc r w'] True assms(3) show ?thesis
      by (simp add: block_close_def)
  next
    case cache: (Some b)
    obtain q w1 where sub: "block_submit run uuid b w = (q, w1)" by force
    note inv = block_submit_inv[OF assms(1,2) True cache sub]
    show ?thesis
    proof (cases q)
      case (Ok u)
      then have w1: "block_inv W c w1 bufs" "bw_started w1" "bw_cache w1 = None" "bw_w w1 = bw_w w"
        using inv by auto
      from block_finish_inv[OF w1(1) assms(2) w1(2,3), of svc r w'] w1(4) True cache sub Ok assms(3)
      show ?thesis by (simp add: block_close_def)
    next
      case (Err e)
      with inv True cache sub assms(3) show ?thesis by (auto simp: block_close_def)
    next
      case Panic
      with inv show ?thesis by simp
    qed
  qed
qed

lemma block_reach_inv: "block_reach svc W c w bufs \<Longrightarrow> block_inv W c w bufs"
proof (induction rule: block_reach.induct)
  case (blk_new s)
  show ?case by (rule block_inv_new)
next
  case (blk_write w bufs run uuid bs w')
  from block_write_inv[OF blk_write(4,2,3)] show ?case by simp
next
  case (blk_write_err w bufs run uuid bs e w')
  from block_write_inv[OF blk_write_err(4,2,3)] show ?case by simp
next
  case (blk_close_err w bufs run uuid e w')
  from block_close_cases[OF blk_close_err(4,2,3)] show ?case by simp
next
  case (blk_complete w bufs run k)
  then show ?case by (auto simp: block_inv_def intro: ct_inv_complete)
qed

text \<open>Services that accept everything, for the examples.\<close>

definition accepting_multipart :: "unit multipart_service" where
  "accepting_multipart =
     \<lparr>mp_write_once = (\<lambda>n b s. (Ok metadata_default, s)), mp_initiate_part = (\<lambda>s. (Ok ''u'', s)),
      mp_complete_part = (\<lambda>v ps s. (Ok metadata_default, s)), mp_abort_part = (\<lambda>v s. (Ok (), s))\<rparr>"

definition accepting_part :: "str \<Rightarrow> usize \<Rightarrow> u64 \<Rightarrow> buffer \<Rightarrow> error + multipart_part" where
  "accepting_part v k n b = Inr \<lparr>part_number = k, part_etag = [], part_checksum = None, part_size = Some n\<rparr>"

definition accepting_position :: "unit position_service" where
  "accepting_position =
     \<lparr>ps_write_all_at = (\<lambda>n b s. (Ok (), s)), ps_close = (\<lambda>n s. (Ok metadata_default, s)),
      ps_abort = (\<lambda>s. (Ok (), s))\<rparr>"

definition accepting_block :: "(unit, nat) block_service" where
  "accepting_block =
     \<lparr>bs_write_once = (\<lambda>n b s. (Ok metadata_default, s)),
      bs_complete_block = (\<lambda>ids s. (Ok metadata_default, s)), bs_abort_block = (\<lambda>ids s. (Ok (), s))\<rparr>"

section \<open>Properties\<close>

text \<open>
  C17: For every sequence of writes, failed closes and retries, and every interleaving of the
  background uploads: when \<open>close\<close> of a \<open>MultipartWriter\<close> succeeds, either the upload was never
  started and all that was written (at most one buffer) went into one \<open>write_once\<close>, or
  \<open>complete_part\<close> was called with the answers to the uploads of exactly the buffers written,
  numbered from 0 in the order of the writes.
\<close>

theorem multipart_upload_complete:
  assumes "multipart_reach svc R c w bufs" "run_ok R run" "multipart_close svc run w = (Ok m, w')"
  shows "case mpw_upload_id w of
      None \<Rightarrow> (let body = (case bufs of [] \<Rightarrow> buffer_new | b # _ \<Rightarrow> b)
               in length bufs \<le> 1 \<and>
                  mp_write_once svc (of_nat (buffer_len body)) body (mpw_w w) = (Ok m, mpw_w w'))
    | Some v \<Rightarrow> mp_complete_part svc v (mpw_parts w') (mpw_w w) = (Ok m, mpw_w w') \<and>
                list_all2 R (multipart_inputs v bufs) (mpw_parts w')"
  using multipart_close_cases[OF multipart_reach_inv[OF assms(1)] assms(2,3)] by simp

theorem multipart_upload_complete_witness:
  "let run = multipart_task accepting_part (\<lambda>_. False); b = buffer_from_bytes [1]; b' = buffer_from_bytes [2, 3];
       w1 = snd (multipart_write accepting_multipart run (multipart_new () 2) b);
       w2 = snd (multipart_write accepting_multipart run w1 b');
       w3 = snd (multipart_close accepting_multipart run w2)
   in map part_number (mpw_parts w3) = [0, 1] \<and>
      list_all2 (\<lambda>i p. part_number p = mi_part_number i) (multipart_inputs ''u'' [b, b']) (mpw_parts w3)"
proof -
  let ?run = "multipart_task accepting_part (\<lambda>_. False)"
  let ?R = "\<lambda>i p. part_number p = mi_part_number i"
  let ?b = "buffer_from_bytes [1]" and ?b' = "buffer_from_bytes [2, 3]"
  have run: "run_ok ?R ?run" by (simp add: run_ok_def multipart_task_def accepting_part_def)
  define w1 where "w1 = (multipart_new () 2)\<lparr>mpw_cache := Some ?b\<rparr>"
  have e1: "multipart_write accepting_multipart ?run (multipart_new () 2) ?b = (Ok (), w1)"
    by (simp add: w1_def multipart_write_def multipart_fill_cache_def multipart_new_def)
  define w2 where "w2 = w1\<lparr>mpw_upload_id := Some ''u'', mpw_next_part_number := 1, mpw_cache := Some ?b',
    mpw_tasks := ct_push \<lparr>mi_upload_id = ''u'', mi_part_number = 0, mi_bytes = ?b\<rparr> (ct_new 2 8192)\<rparr>"
  have e2: "multipart_write accepting_multipart ?run w1 ?b' = (Ok (), w2)"
    by (simp add: w1_def w2_def multipart_write_def multipart_write_with_def multipart_submit_def
        multipart_fill_cache_def multipart_new_def accepting_multipart_def ct_execute_def ct_defs)
  have "multipart_reach accepting_multipart ?R 2 w1 ([] @ [?b])"
    by (rule mp_write[OF mp_new run e1])
  from mp_write[OF this run e2] have reach: "multipart_reach accepting_multipart ?R 2 w2 [?b, ?b']" by simp
  obtain w3 where e3: "multipart_close accepting_multipart ?run w2 = (Ok metadata_default, w3)"
    and parts: "map part_number (mpw_parts w3) = [0, 1]"
    by (simp add: w1_def w2_def multipart_close_def multipart_submit_def multipart_finish_def multipart_new_def
        accepting_multipart_def ct_execute_def ct_drain.simps ct_next_def ct_await_front_def ct_defs
        multipart_task_def accepting_part_def)
  have "mpw_upload_id w2 = Some ''u''" by (simp add: w2_def)
  with multipart_upload_complete[OF reach run e3] parts show ?thesis
    by (simp add: e1 e2 e3)
qed

text \<open>
  C18: When \<open>close\<close> of a \<open>PositionWriter\<close> succeeds, every buffer was written at the offset that is
  the length of all buffers before it, and the file was closed with the total length, for every
  interleaving of the background writes and after any number of failed operations.
\<close>

theorem position_upload_complete:
  assumes "position_reach svc W c w bufs" "position_service_ok svc W" "run_ok (\<lambda>i _. W i) run"
    "position_close svc run w = (Ok m, w')"
  shows "(\<forall>i\<in>set (position_inputs 0 bufs). W i) \<and>
    (\<exists>s. ps_close svc (total_len bufs) s = (Ok m, pw_w w'))"
  using position_close_cases[OF position_reach_inv[OF assms(1,2)] assms(3,2,4)] by simp

theorem position_upload_complete_witness:
  "let run = position_task (\<lambda>n b. Inr ()) (\<lambda>_. False); b = buffer_from_bytes [1]; b' = buffer_from_bytes [2, 3];
       w1 = snd (position_write run (position_new () 2) b); w2 = snd (position_write run w1 b')
   in fst (position_close accepting_position run w2) = Ok metadata_default \<and>
      map pi_offset (position_inputs 0 [b, b']) = [0, 1] \<and>
      (\<exists>s. ps_close accepting_position (total_len [b, b']) s = (Ok metadata_default, ()))"
proof -
  let ?run = "position_task (\<lambda>n b. Inr ()) (\<lambda>_. False)"
  let ?W = "\<lambda>i :: position_input. True"
  let ?b = "buffer_from_bytes [1]" and ?b' = "buffer_from_bytes [2, 3]"
  have run: "run_ok (\<lambda>i _. ?W i) ?run" by (simp add: run_ok_def)
  have svc: "position_service_ok accepting_position ?W" by (simp add: position_service_ok_def)
  define w1 where "w1 = (position_new () 2)\<lparr>pw_cache := Some ?b\<rparr>"
  have e1: "position_write ?run (position_new () 2) ?b = (Ok (), w1)"
    by (simp add: w1_def position_write_def position_fill_cache_def position_new_def)
  define w2 where "w2 = w1\<lparr>pw_next_offset := 1, pw_cache := Some ?b',
    pw_tasks := ct_push \<lparr>pi_offset = 0, pi_bytes = ?b\<rparr> (ct_new 2 8192)\<rparr>"
  have e2: "position_write ?run w1 ?b' = (Ok (), w2)"
    by (simp add: w1_def w2_def position_write_def position_fill_cache_def position_new_def ct_execute_def
        ct_defs buffer_from_bytes_def)
  have "position_reach accepting_position ?W 2 w1 ([] @ [?b])"
    by (rule pos_write[OF pos_new run e1])
  from pos_write[OF this run e2] have reach: "position_reach accepting_position ?W 2 w2 [?b, ?b']" by simp
  obtain w3 where e3: "position_close accepting_position ?run w2 = (Ok metadata_default, w3)"
    by (simp add: w1_def w2_def position_close_def position_flush_cache_def position_new_def
        accepting_position_def ct_drain.simps ct_next_def ct_await_front_def ct_defs position_task_def)
  have "buffer_len ?b = 1" by (simp add: buffer_from_bytes_def)
  with position_upload_complete[OF reach svc run e3] show ?thesis
    by (simp add: e1 e2 e3)
qed

text \<open>
  C19: When \<open>close\<close> of a \<open>BlockWriter\<close> succeeds, either nothing was started and all that was written
  went into one \<open>write_once\<close>, or \<open>complete_block\<close> was called with the ids of uploaded blocks
  whose contents are exactly the buffers written, in the order of the writes.
\<close>

theorem block_upload_complete:
  assumes "block_reach svc W c w bufs" "run_ok (\<lambda>i o'. W i \<and> o' = bi_block_id i) run"
    "block_close svc run uuid w = (Ok m, w')"
  shows "if bw_started w
    then bs_complete_block svc (bw_block_ids w') (bw_w w) = (Ok m, bw_w w') \<and>
      (\<exists>is. map bi_bytes is = bufs \<and> map bi_block_id is = bw_block_ids w' \<and> (\<forall>i\<in>set is. W i))
    else (let body = (case bufs of [] \<Rightarrow> buffer_new | b # _ \<Rightarrow> b)
          in length bufs \<le> 1 \<and>
             bs_write_once svc (of_nat (buffer_len body)) body (bw_w w) = (Ok m, bw_w w'))"
  using block_close_cases[OF block_reach_inv[OF assms(1)] assms(2,3)] by simp

theorem block_upload_complete_witness:
  "let run = block_task (\<lambda>_. []) (\<lambda>u n b. Inr ()) (\<lambda>_. False);
       b = buffer_from_bytes [1]; b' = buffer_from_bytes [2, 3];
       w1 = snd (block_write run 7 (block_new () 2) b); w2 = snd (block_write run 8 w1 b');
       w3 = snd (block_close accepting_block run 9 w2)
   in bw_block_ids w3 = [8, 9] \<and> (\<exists>is :: nat block_input list. map bi_bytes is = [b, b'] \<and> map bi_block_id is = bw_block_ids w3)"
proof -
  let ?run = "block_task (\<lambda>_. []) (\<lambda>u n b. Inr ()) (\<lambda>_. False) :: nat block_input \<Rightarrow> error + nat"
  let ?W = "\<lambda>i :: nat block_input. True"
  let ?b = "buffer_from_bytes [1]" and ?b' = "buffer_from_bytes [2, 3]"
  let ?w0 = "block_new () 2 :: (unit, nat) block_writer"
  have run: "run_ok (block_answer ?W) ?run" by (simp add: run_ok_def block_task_def)
  define w1 where "w1 = ?w0\<lparr>bw_cache := Some ?b\<rparr>"
  have e1: "block_write ?run 7 ?w0 ?b = (Ok (), w1)"
    by (simp add: w1_def block_write_def block_fill_cache_def block_new_def)
  define w2 where "w2 = w1\<lparr>bw_started := True, bw_cache := Some ?b',
    bw_tasks := ct_push \<lparr>bi_block_id = 8, bi_bytes = ?b\<rparr> (ct_new 2 8192)\<rparr>"
  have e2: "block_write ?run 8 w1 ?b' = (Ok (), w2)"
    by (simp add: w1_def w2_def block_write_def block_submit_def block_fill_cache_def block_new_def
        ct_execute_def ct_defs)
  have "block_reach accepting_block ?W 2 w1 ([] @ [?b])"
    by (rule blk_write[OF blk_new run e1])
  from blk_write[OF this run e2] have reach: "block_reach accepting_block ?W 2 w2 [?b, ?b']" by simp
  obtain w3 where e3: "block_close accepting_block ?run 9 w2 = (Ok metadata_default, w3)"
    and ids: "bw_block_ids w3 = [8, 9]"
    by (simp add: w1_def w2_def block_close_def block_submit_def block_finish_def block_new_def
        accepting_block_def ct_execute_def ct_drain.simps ct_next_def ct_await_front_def ct_defs
        block_task_def)
  have "bw_started w2" by (simp add: w2_def)
  with block_upload_complete[OF reach run e3] ids show ?thesis
    unfolding Let_def e1 e2 e3 snd_conv by (simp only: if_True) metis
qed

end
