(* ===== verification/Read_Context.thy ===== *)
theory Read_Context
  imports Buf_Queues Ops Concurrent_Tasks
begin

text \<open>
  The reading side: \<open>oio::Read\<close> (\<open>core/core/src/raw/oio/read/api.rs\<close>), \<open>ReadContext\<close> and
  \<open>ReadGenerator\<close> (\<open>types/context/read.rs\<close>), the streaming and the chunked reader behind
  \<open>BufferStream\<close> (\<open>types/read/buffer_stream.rs\<close>), and \<open>Reader\<close> (\<open>types/read/reader.rs\<close>).

  The accessor is the record \<open>read_ops\<close> of functions on a service state \<open>'s\<close>; \<open>'r\<close> is the type of
  the readers it opens.  The \<open>OnceLock\<close> of the shared context is a field of the context that the
  operations pass on.  A chunked reader reads in background tasks, with the outcomes \<open>run\<close> of
  theory Concurrent\_Tasks.  A stream is polled until it is ready: the states \<open>Idle\<close> and
  \<open>Reading\<close> around a pending future are one step here.
\<close>

section \<open>Read\<close>

record ('r, 's) read_ops =
  rop_open :: "str \<Rightarrow> op_read \<Rightarrow> 's \<Rightarrow> (metadata option \<times> 'r) res \<times> 's"
  rop_read :: "'r \<Rightarrow> 's \<Rightarrow> buffer res \<times> 'r \<times> 's"
  rop_stat :: "str \<Rightarrow> op_stat \<Rightarrow> 's \<Rightarrow> metadata res \<times> 's"

text \<open>\<open>bufs.into_iter().flatten().collect()\<close>\<close>

definition flatten_collect :: "buffer list \<Rightarrow> buffer res" where
  "flatten_collect bufs = res_of_option (map_option buffer_from_parts (queue_flatten bufs))"

partial_function (option) read_all_loop ::
  "('r, 's) read_ops \<Rightarrow> buffer list \<Rightarrow> 'r \<Rightarrow> 's \<Rightarrow> (buffer list res \<times> 'r \<times> 's) option" where
  "read_all_loop ops bufs r s =
     (case rop_read ops r s of
        (Ok buf, r', s') \<Rightarrow>
          if buffer_is_empty buf then Some (Ok bufs, r', s')
          else read_all_loop ops (bufs @ [buf]) r' s'
      | (Err e, r', s') \<Rightarrow> Some (Err e, r', s')
      | (Panic, r', s') \<Rightarrow> Some (Panic, r', s'))"

definition read_all :: "('r, 's) read_ops \<Rightarrow> 'r \<Rightarrow> 's \<Rightarrow> (buffer res \<times> 'r \<times> 's) option" where
  "read_all ops r s =
     map_option (\<lambda>(x, r', s'). (bind_res x flatten_collect, r', s')) (read_all_loop ops [] r s)"

text \<open>The readers of the crate itself: \<open>()\<close> and \<open>Buffer\<close>.\<close>

definition unit_read :: "unit \<Rightarrow> buffer res \<times> unit" where
  "unit_read r = (Err (error_new Unsupported ''output reader doesn't support read''), r)"

definition buffer_take :: "buffer \<Rightarrow> buffer res \<times> buffer" where
  "buffer_take b = (Ok b, buffer_new)"

section \<open>ReadContext\<close>

record read_context =
  rc_path :: str
  rc_args :: op_read
  rc_options :: op_reader
  rc_metadata :: "metadata option"

definition rc_new :: "str \<Rightarrow> op_read \<Rightarrow> op_reader \<Rightarrow> read_context" where
  "rc_new path args options =
     \<lparr>rc_path = path, rc_args = args, rc_options = options, rc_metadata = None\<rparr>"

definition rc_set_metadata :: "metadata \<Rightarrow> read_context \<Rightarrow> read_context" where
  "rc_set_metadata m ctx =
     (case rc_metadata ctx of None \<Rightarrow> ctx\<lparr>rc_metadata := Some m\<rparr> | Some _ \<Rightarrow> ctx)"

text \<open>The metadata of an \<open>RpRead\<close> goes into the context if it is the first.\<close>

definition rc_observe :: "metadata option \<Rightarrow> read_context \<Rightarrow> read_context" where
  "rc_observe rp ctx =
     (case rp of
        None \<Rightarrow> ctx
      | Some m \<Rightarrow> if rc_metadata ctx = None then rc_set_metadata m ctx else ctx)"

definition parse_start :: "u64 bound \<Rightarrow> u64 res" where
  "parse_start b =
     (case b of
        Included v \<Rightarrow> Ok v
      | Excluded v \<Rightarrow>
          (case checked_add_u64 v 1 of
             Some x \<Rightarrow> Ok x
           | None \<Rightarrow> Err (error_new RangeNotSatisfied
               ''range start overflow: excluded bound at u64::MAX cannot be incremented''))
      | Unbounded \<Rightarrow> Ok 0)"

text \<open>The arguments of the \<open>stat\<close> that looks up the content length.\<close>

definition reader_stat_op :: "op_read \<Rightarrow> op_stat" where
  "reader_stat_op args =
     (case ord_version args of Some v \<Rightarrow> os_with_version v op_stat_default | None \<Rightarrow> op_stat_default)"

definition parse_into_range ::
  "('r, 's) read_ops \<Rightarrow> read_context \<Rightarrow> u64 bound \<Rightarrow> u64 bound \<Rightarrow> 's \<Rightarrow> (u64 \<times> u64) res \<times> 's" where
  "parse_into_range ops ctx start_bound end_bound s =
     (case parse_start start_bound of
        Ok start \<Rightarrow>
          (case end_bound of
             Included v \<Rightarrow>
               (case checked_add_u64 v 1 of
                  Some x \<Rightarrow> (Ok (start, x), s)
                | None \<Rightarrow> (Err (error_new RangeNotSatisfied
                    ''range end overflow: inclusive bound at u64::MAX cannot be incremented''), s))
           | Excluded v \<Rightarrow> (Ok (start, v), s)
           | Unbounded \<Rightarrow>
               (case orr_content_length_hint (rc_options ctx) of
                  Some v \<Rightarrow> (Ok (start, v), s)
                | None \<Rightarrow>
                    (let op_stat = reader_stat_op (rc_args ctx)
                     in case rop_stat ops (rc_path ctx) op_stat s of
                          (r, s1) \<Rightarrow> (bind_res r (\<lambda>m. Ok (start, metadata_content_length m)), s1))))
      | Err e \<Rightarrow> (Err e, s)
      | Panic \<Rightarrow> (Panic, s))"

section \<open>ReadGenerator\<close>

text \<open>
  The step of \<open>ReadGenerator::next_range\<close> and \<open>ChunkedReader::next_range\<close>: the next rng, and the
  new offset and remaining size.
\<close>

definition next_range ::
  "usize option \<Rightarrow> u64 \<Rightarrow> u64 option \<Rightarrow> (bytes_range \<times> u64 \<times> u64 option) option" where
  "next_range chunk offset sz =
     (if sz = Some 0 then None
      else
        (case sz of
           None \<Rightarrow> Some (BytesRange offset None, offset, Some 0)
         | Some remaining \<Rightarrow>
             (let read_size = (case chunk of None \<Rightarrow> remaining | Some c \<Rightarrow> min remaining (of_nat c))
              in Some (BytesRange offset (Some read_size), offset + read_size, Some (remaining - read_size)))))"

record read_generator =
  rg_offset :: u64
  rg_size :: "u64 option"

definition rg_new :: "u64 \<Rightarrow> u64 option \<Rightarrow> read_generator" where
  "rg_new offset sz = \<lparr>rg_offset = offset, rg_size = sz\<rparr>"

definition rg_next_range :: "read_context \<Rightarrow> read_generator \<Rightarrow> bytes_range option \<times> read_generator" where
  "rg_next_range ctx g =
     (case next_range (orr_chunk (rc_options ctx)) (rg_offset g) (rg_size g) of
        None \<Rightarrow> (None, g)
      | Some (r, off, sz) \<Rightarrow> (Some r, \<lparr>rg_offset = off, rg_size = sz\<rparr>))"

text \<open>\<open>next_reader\<close>: the result, the generator, the context and the service afterwards.\<close>

definition rg_next_reader ::
  "('r, 's) read_ops \<Rightarrow> read_context \<Rightarrow> read_generator \<Rightarrow> 's \<Rightarrow>
     'r option res \<times> read_generator \<times> read_context \<times> 's" where
  "rg_next_reader ops ctx g s =
     (case rg_next_range ctx g of
        (None, g1) \<Rightarrow> (Ok None, g1, ctx, s)
      | (Some rng, g1) \<Rightarrow>
          (case rop_open ops (rc_path ctx) (ord_with_range rng (rc_args ctx)) s of
             (Ok (rp, r), s1) \<Rightarrow> (Ok (Some r), g1, rc_observe rp ctx, s1)
           | (Err e, s1) \<Rightarrow> (Err e, g1, ctx, s1)
           | (Panic, s1) \<Rightarrow> (Panic, g1, ctx, s1)))"

section \<open>StreamingReader\<close>

record 'r streaming_reader =
  sr_generator :: read_generator
  sr_reader :: "'r option"

definition sr_new :: "bytes_range \<Rightarrow> 'r streaming_reader" where
  "sr_new rng = \<lparr>sr_generator = rg_new (br_offset rng) (br_size rng), sr_reader = None\<rparr>"

text \<open>\<open>if self.reader.is_none() { self.reader = self.generator.next_reader().await?; }\<close>\<close>

definition sr_open ::
  "('r, 's) read_ops \<Rightarrow> read_context \<Rightarrow> 'r streaming_reader \<Rightarrow> 's \<Rightarrow>
     unit res \<times> 'r streaming_reader \<times> read_context \<times> 's" where
  "sr_open ops ctx sr s =
     (case sr_reader sr of
        Some _ \<Rightarrow> (Ok (), sr, ctx, s)
      | None \<Rightarrow>
          (case rg_next_reader ops ctx (sr_generator sr) s of
             (Ok r, g, ctx1, s1) \<Rightarrow> (Ok (), sr\<lparr>sr_generator := g, sr_reader := r\<rparr>, ctx1, s1)
           | (Err e, g, ctx1, s1) \<Rightarrow> (Err e, sr\<lparr>sr_generator := g\<rparr>, ctx1, s1)
           | (Panic, g, ctx1, s1) \<Rightarrow> (Panic, sr\<lparr>sr_generator := g\<rparr>, ctx1, s1)))"

definition sr_prepare_metadata ::
  "('r, 's) read_ops \<Rightarrow> read_context \<Rightarrow> 'r streaming_reader \<Rightarrow> 's \<Rightarrow>
     unit res \<times> 'r streaming_reader \<times> read_context \<times> 's" where
  "sr_prepare_metadata ops ctx sr s =
     (if rc_metadata ctx \<noteq> None then (Ok (), sr, ctx, s) else sr_open ops ctx sr s)"

definition metadata_or_unsupported :: "read_context \<Rightarrow> metadata res" where
  "metadata_or_unsupported ctx =
     (case rc_metadata ctx of
        Some m \<Rightarrow> Ok m
      | None \<Rightarrow> Err (error_new Unsupported ''read metadata is not available''))"

definition sr_metadata ::
  "('r, 's) read_ops \<Rightarrow> read_context \<Rightarrow> 'r streaming_reader \<Rightarrow> 's \<Rightarrow>
     metadata res \<times> 'r streaming_reader \<times> read_context \<times> 's" where
  "sr_metadata ops ctx sr s =
     (case sr_prepare_metadata ops ctx sr s of
        (r, sr1, ctx1, s1) \<Rightarrow> (bind_res r (\<lambda>_. metadata_or_unsupported ctx1), sr1, ctx1, s1))"

partial_function (option) sr_read ::
  "('r, 's) read_ops \<Rightarrow> read_context \<Rightarrow> 'r streaming_reader \<Rightarrow> 's \<Rightarrow>
     (buffer res \<times> 'r streaming_reader \<times> read_context \<times> 's) option" where
  "sr_read ops ctx sr s =
     (case sr_open ops ctx sr s of
        (Ok _, sr1, ctx1, s1) \<Rightarrow>
          (case sr_reader sr1 of
             None \<Rightarrow> Some (Ok buffer_new, sr1, ctx1, s1)
           | Some r \<Rightarrow>
               (case rop_read ops r s1 of
                  (Ok buf, r', s2) \<Rightarrow>
                    if buffer_is_empty buf
                    then sr_read ops ctx1 (sr1\<lparr>sr_reader := None\<rparr>) s2
                    else Some (Ok buf, sr1\<lparr>sr_reader := Some r'\<rparr>, ctx1, s2)
                | (Err e, r', s2) \<Rightarrow> Some (Err e, sr1\<lparr>sr_reader := Some r'\<rparr>, ctx1, s2)
                | (Panic, r', s2) \<Rightarrow> Some (Panic, sr1\<lparr>sr_reader := Some r'\<rparr>, ctx1, s2)))
      | (Err e, sr1, ctx1, s1) \<Rightarrow> Some (Err e, sr1, ctx1, s1)
      | (Panic, sr1, ctx1, s1) \<Rightarrow> Some (Panic, sr1, ctx1, s1))"

section \<open>ChunkedReader\<close>

record 'r chunked_input =
  ci_range :: bytes_range
  ci_reader :: "'r option"

record 'r chunked_reader =
  cr_offset :: u64
  cr_remaining :: "u64 option"
  cr_opened :: "'r chunked_input option"
  cr_tasks :: "('r chunked_input, buffer) concurrent_tasks"
  cr_done :: bool

text \<open>
  The future of a task: the reader opened before, or a new one, read to its end.  It returns the input,
  whose reader has been taken, and its result, with the context and the service afterwards, or \<open>None\<close>
  if the reader never ends.
\<close>

definition chunked_task ::
  "('r, 's) read_ops \<Rightarrow> 'r chunked_input \<Rightarrow> read_context \<Rightarrow> 's \<Rightarrow>
     ('r chunked_input \<times> buffer res \<times> read_context \<times> 's) option" where
  "chunked_task ops input ctx s =
     (let taken = input\<lparr>ci_reader := None\<rparr>
      in case ci_reader input of
           Some reader \<Rightarrow> map_option (\<lambda>(b, _, s1). (taken, b, ctx, s1)) (read_all ops reader s)
         | None \<Rightarrow>
             (case rop_open ops (rc_path ctx) (ord_with_range (ci_range input) (rc_args ctx)) s of
                (Ok (rp, r), s1) \<Rightarrow>
                  map_option (\<lambda>(b, _, s2). (taken, b, rc_observe rp ctx, s2)) (read_all ops r s1)
              | (Err e, s1) \<Rightarrow> Some (taken, Err e, ctx, s1)
              | (Panic, s1) \<Rightarrow> Some (taken, Panic, ctx, s1)))"

text \<open>
  The tasks run in the background while the reader works.  \<open>chunk_env\<close> is what the reader sees of them:
  \<open>ce_run i\<close> is what the task of input \<open>i\<close> resolves to, and \<open>ce_done t\<close> are the positions of
  the tasks that the executor resolves before the reader looks at the queue \<open>t\<close>.  In \<open>chunked_runs\<close>
  every task runs \<open>chunked_task\<close> from some state of the service with \<open>P\<close>.  A task that panics or does not
  end delivers no buffer.
\<close>

record 'r chunk_env =
  ce_run :: "'r chunked_input \<Rightarrow> error + buffer"
  ce_done :: "('r chunked_input, buffer) concurrent_tasks \<Rightarrow> nat list"

fun task_outcome :: "('r chunked_input \<times> buffer res \<times> read_context \<times> 's) option \<Rightarrow> error + buffer \<Rightarrow> bool" where
  "task_outcome (Some (_, Ok b, _)) q \<longleftrightarrow> q = Inr b"
| "task_outcome (Some (_, Err e, _)) q \<longleftrightarrow> q = Inl e"
| "task_outcome (Some (_, Panic, _)) q \<longleftrightarrow> isl q"
| "task_outcome None q \<longleftrightarrow> isl q"

definition chunked_runs ::
  "('r, 's) read_ops \<Rightarrow> read_context \<Rightarrow> ('s \<Rightarrow> bool) \<Rightarrow> 'r chunk_env \<Rightarrow> bool" where
  "chunked_runs ops ctx P env \<longleftrightarrow>
     (\<forall>i. ci_reader i = None \<longrightarrow> (\<exists>s. P s \<and> task_outcome (chunked_task ops i ctx s) (ce_run env i)))"

text \<open>The environment in which every task runs in the state \<open>s\<close>, and only when it is awaited.\<close>

definition chunk_env_at :: "('r, 's) read_ops \<Rightarrow> read_context \<Rightarrow> 's \<Rightarrow> 'r chunk_env" where
  "chunk_env_at ops ctx s =
     \<lparr>ce_run = (\<lambda>i. case chunked_task ops i ctx s of
          Some (_, Ok b, _) \<Rightarrow> Inr b
        | Some (_, Err e, _) \<Rightarrow> Inl e
        | _ \<Rightarrow> Inl (error_new Unexpected [])),
      ce_done = (\<lambda>_. [])\<rparr>"

lemma chunked_runs_mono: "chunked_runs ops ctx P env \<Longrightarrow> (\<And>s. P s \<Longrightarrow> Q s) \<Longrightarrow> chunked_runs ops ctx Q env"
  unfolding chunked_runs_def by blast

lemma chunked_runs_at: "P s \<Longrightarrow> chunked_runs ops ctx P (chunk_env_at ops ctx s)"
  unfolding chunked_runs_def chunk_env_at_def
  by (auto split: option.split prod.split res.split intro!: exI[of _ s])

definition cr_new :: "read_context \<Rightarrow> bytes_range \<Rightarrow> 'r chunked_reader" where
  "cr_new ctx rng =
     \<lparr>cr_offset = br_offset rng, cr_remaining = br_size rng, cr_opened = None,
      cr_tasks = ct_new (orr_concurrent (rc_options ctx)) (orr_prefetch (rc_options ctx)),
      cr_done = False\<rparr>"

definition cr_next_range :: "read_context \<Rightarrow> 'r chunked_reader \<Rightarrow> bytes_range option \<times> 'r chunked_reader" where
  "cr_next_range ctx cr =
     (case next_range (orr_chunk (rc_options ctx)) (cr_offset cr) (cr_remaining cr) of
        None \<Rightarrow> (None, cr)
      | Some (r, off, sz) \<Rightarrow> (Some r, cr\<lparr>cr_offset := off, cr_remaining := sz\<rparr>))"

definition cr_prepare_metadata ::
  "('r, 's) read_ops \<Rightarrow> read_context \<Rightarrow> 'r chunked_reader \<Rightarrow> 's \<Rightarrow>
     unit res \<times> 'r chunked_reader \<times> read_context \<times> 's" where
  "cr_prepare_metadata ops ctx cr s =
     (if rc_metadata ctx \<noteq> None \<or> cr_opened cr \<noteq> None then (Ok (), cr, ctx, s)
      else
        (case cr_next_range ctx cr of
           (Some rng, cr1) \<Rightarrow>
             (case rop_open ops (rc_path ctx) (ord_with_range rng (rc_args ctx)) s of
                (Ok (rp, reader), s1) \<Rightarrow>
                  (Ok (), cr1\<lparr>cr_opened := Some \<lparr>ci_range = rng, ci_reader = Some reader\<rparr>\<rparr>,
                   rc_observe rp ctx, s1)
              | (Err e, s1) \<Rightarrow> (Err e, cr1, ctx, s1)
              | (Panic, s1) \<Rightarrow> (Panic, cr1, ctx, s1))
         | (None, cr1) \<Rightarrow> (Ok (), cr1\<lparr>cr_done := True\<rparr>, ctx, s)))"

definition cr_metadata ::
  "('r, 's) read_ops \<Rightarrow> read_context \<Rightarrow> 'r chunked_reader \<Rightarrow> 's \<Rightarrow>
     metadata res \<times> 'r chunked_reader \<times> read_context \<times> 's" where
  "cr_metadata ops ctx cr s =
     (case cr_prepare_metadata ops ctx cr s of
        (r, cr1, ctx1, s1) \<Rightarrow> (bind_res r (\<lambda>_. metadata_or_unsupported ctx1), cr1, ctx1, s1))"

text \<open>The input of the next task: the one opened for its metadata, or the next range.\<close>

definition cr_next_input ::
  "read_context \<Rightarrow> 'r chunked_reader \<Rightarrow> 'r chunked_input option \<times> 'r chunked_reader" where
  "cr_next_input ctx cr =
     (case cr_opened cr of
        Some input \<Rightarrow> (Some input, cr\<lparr>cr_opened := None\<rparr>)
      | None \<Rightarrow>
          (case cr_next_range ctx cr of
             (Some rng, cr1) \<Rightarrow> (Some \<lparr>ci_range = rng, ci_reader = None\<rparr>, cr1)
           | (None, cr1) \<Rightarrow> (None, cr1)))"

lemma cr_next_input_tasks: "cr_next_input ctx cr = (i, cr') \<Longrightarrow> cr_tasks cr' = cr_tasks cr"
  by (auto simp: cr_next_input_def cr_next_range_def split: option.splits prod.splits)

lemma ct_execute_grows:
  "ct_execute run i t = (Ok u, t') \<Longrightarrow> ct_has_remaining t \<Longrightarrow> \<not> ct_has_result t' \<Longrightarrow>
     ct_concurrent t' + ct_prefetch t' - length (ct_tasks t') < ct_concurrent t + ct_prefetch t - length (ct_tasks t)"
  by (auto simp: ct_execute_def ct_has_result_def ct_has_remaining_def ct_push_def
      split: if_splits sum.splits)

text \<open>What the executor has resolved when the reader looks at its tasks.\<close>

definition cr_background :: "'r chunk_env \<Rightarrow> 'r chunked_reader \<Rightarrow> 'r chunked_reader" where
  "cr_background env cr = cr\<lparr>cr_tasks := ct_background (ce_run env) (ce_done env (cr_tasks cr)) (cr_tasks cr)\<rparr>"

lemma cr_background_frame [simp]:
  "cr_offset (cr_background env cr) = cr_offset cr" "cr_remaining (cr_background env cr) = cr_remaining cr"
  "cr_opened (cr_background env cr) = cr_opened cr" "cr_done (cr_background env cr) = cr_done cr"
  "cr_tasks (cr_background env cr) = ct_background (ce_run env) (ce_done env (cr_tasks cr)) (cr_tasks cr)"
  by (simp_all add: cr_background_def)

lemma cr_background_idle: "ct_tasks (cr_tasks cr) = [] \<Longrightarrow> cr_background env cr = cr"
  by (simp add: cr_background_def ct_background_idle)

text \<open>The loop at the head of \<open>read\<close> that keeps the tasks busy; tasks may be resolved in every round.\<close>

function cr_fill :: "'r chunk_env \<Rightarrow> read_context \<Rightarrow> 'r chunked_reader \<Rightarrow> unit res \<times> 'r chunked_reader" where
  "cr_fill env ctx cr0 =
     (let cr = cr_background env cr0
      in if ct_has_remaining (cr_tasks cr) \<and> \<not> cr_done cr then
           (case cr_next_input ctx cr of
              (None, cr1) \<Rightarrow> (Ok (), cr1\<lparr>cr_done := True\<rparr>)
            | (Some input, cr1) \<Rightarrow>
                (case ct_execute (ce_run env) input (cr_tasks cr1) of
                   (Ok _, t) \<Rightarrow>
                     if ct_has_result t then (Ok (), cr1\<lparr>cr_tasks := t\<rparr>)
                     else cr_fill env ctx (cr1\<lparr>cr_tasks := t\<rparr>)
                 | (Err e, t) \<Rightarrow> (Err e, cr1\<lparr>cr_tasks := t\<rparr>)
                 | (Panic, t) \<Rightarrow> (Panic, cr1\<lparr>cr_tasks := t\<rparr>)))
         else (Ok (), cr))"
  by pat_completeness auto
termination
  by (relation "measure (\<lambda>(_, _, cr). let t = cr_tasks cr in ct_concurrent t + ct_prefetch t - length (ct_tasks t))")
    (auto simp: Let_def dest!: cr_next_input_tasks[OF sym] ct_execute_grows[OF sym])

declare cr_fill.simps [simp del]

text \<open>A task that is created anew after a temporary error has the input that the future returned.\<close>

definition cr_taken :: "('r chunked_input, buffer) concurrent_tasks \<Rightarrow> ('r chunked_input, buffer) concurrent_tasks" where
  "cr_taken t =
     t\<lparr>ct_tasks := (case ct_tasks t of
          Running i # ts \<Rightarrow> Running (i\<lparr>ci_reader := None\<rparr>) # ts
        | ts \<Rightarrow> ts)\<rparr>"

definition cr_read :: "'r chunk_env \<Rightarrow> read_context \<Rightarrow> 'r chunked_reader \<Rightarrow> buffer res \<times> 'r chunked_reader" where
  "cr_read env ctx cr =
     (case cr_fill env ctx cr of
        (Ok _, cr1) \<Rightarrow>
          (case ct_next (ce_run env) (cr_tasks cr1) of
             (None, t) \<Rightarrow> (Ok buffer_new, cr1\<lparr>cr_tasks := t\<rparr>)
           | (Some (Ok b), t) \<Rightarrow> (Ok b, cr1\<lparr>cr_tasks := t\<rparr>)
           | (Some (Err e), t) \<Rightarrow> (Err e, cr1\<lparr>cr_tasks := cr_taken t\<rparr>)
           | (Some Panic, t) \<Rightarrow> (Panic, cr1\<lparr>cr_tasks := t\<rparr>))
      | (Err e, cr1) \<Rightarrow> (Err e, cr1)
      | (Panic, cr1) \<Rightarrow> (Panic, cr1))"

section \<open>BufferStream\<close>

datatype 'r two_ways = One "'r streaming_reader" | Two "'r chunked_reader"

record 'r buffer_stream =
  bst_ctx :: read_context
  bst_reader :: "'r two_ways"

definition bst_new :: "read_context \<Rightarrow> u64 \<Rightarrow> u64 option \<Rightarrow> 'r buffer_stream" where
  "bst_new ctx offset sz =
     \<lparr>bst_ctx = ctx,
      bst_reader = (if orr_chunk (rc_options ctx) \<noteq> None
                    then Two (cr_new ctx (BytesRange offset sz))
                    else One (sr_new (BytesRange offset sz)))\<rparr>"

definition bst_create ::
  "('r, 's) read_ops \<Rightarrow> read_context \<Rightarrow> u64 bound \<Rightarrow> u64 bound \<Rightarrow> 's \<Rightarrow> 'r buffer_stream res \<times> 's" where
  "bst_create ops ctx lo hi s =
     (if orr_chunk (rc_options ctx) \<noteq> None then
        (case parse_into_range ops ctx lo hi s of
           (r, s1) \<Rightarrow>
             (bind_res r (\<lambda>(a, b). Ok \<lparr>bst_ctx = ctx,
                bst_reader = Two (cr_new ctx (br_from_bounds (Included a) (Excluded b)))\<rparr>), s1))
      else (Ok \<lparr>bst_ctx = ctx, bst_reader = One (sr_new (br_from_bounds lo hi))\<rparr>, s))"

definition bst_metadata ::
  "('r, 's) read_ops \<Rightarrow> 'r buffer_stream \<Rightarrow> 's \<Rightarrow> metadata res \<times> 'r buffer_stream \<times> 's" where
  "bst_metadata ops st s =
     (case rc_metadata (bst_ctx st) of
        Some m \<Rightarrow> (Ok m, st, s)
      | None \<Rightarrow>
          (case bst_reader st of
             One v \<Rightarrow>
               (case sr_metadata ops (bst_ctx st) v s of
                  (r, v1, ctx1, s1) \<Rightarrow> (r, \<lparr>bst_ctx = ctx1, bst_reader = One v1\<rparr>, s1))
           | Two v \<Rightarrow>
               (case cr_metadata ops (bst_ctx st) v s of
                  (r, v1, ctx1, s1) \<Rightarrow> (r, \<lparr>bst_ctx = ctx1, bst_reader = Two v1\<rparr>, s1))))"

text \<open>\<open>reader.read().await\<close> of the two ways, and the item \<open>poll_next\<close> makes of it.\<close>

definition bst_read ::
  "('r, 's) read_ops \<Rightarrow> 'r chunk_env \<Rightarrow> 'r buffer_stream \<Rightarrow> 's \<Rightarrow>
     (buffer res \<times> 'r buffer_stream \<times> 's) option" where
  "bst_read ops env st s =
     (case bst_reader st of
        One v \<Rightarrow>
          map_option (\<lambda>(r, v1, ctx1, s1). (r, \<lparr>bst_ctx = ctx1, bst_reader = One v1\<rparr>, s1))
            (sr_read ops (bst_ctx st) v s)
      | Two v \<Rightarrow>
          (case cr_read env (bst_ctx st) v of
             (r, v1) \<Rightarrow> Some (r, st\<lparr>bst_reader := Two v1\<rparr>, s)))"

definition stream_item :: "buffer res \<Rightarrow> buffer option res" where
  "stream_item r = bind_res r (\<lambda>buf. Ok (if buffer_is_empty buf then None else Some buf))"

definition bst_poll_next ::
  "('r, 's) read_ops \<Rightarrow> 'r chunk_env \<Rightarrow> 'r buffer_stream \<Rightarrow> 's \<Rightarrow>
     (buffer option res \<times> 'r buffer_stream \<times> 's) option" where
  "bst_poll_next ops env st s = map_option (\<lambda>(r, st1, s1). (stream_item r, st1, s1)) (bst_read ops env st s)"

section \<open>Reader\<close>

text \<open>\<open>try_collect\<close>: all items up to the end of the stream or the first error.\<close>

partial_function (option) bst_collect ::
  "('r, 's) read_ops \<Rightarrow> 'r chunk_env \<Rightarrow> buffer list \<Rightarrow> 'r buffer_stream \<Rightarrow> 's \<Rightarrow>
     (buffer list res \<times> 'r buffer_stream \<times> 's) option" where
  "bst_collect ops env acc st s =
     (case bst_poll_next ops env st s of
        None \<Rightarrow> None
      | Some (Ok None, st1, s1) \<Rightarrow> Some (Ok acc, st1, s1)
      | Some (Ok (Some b), st1, s1) \<Rightarrow> bst_collect ops env (acc @ [b]) st1 s1
      | Some (Err e, st1, s1) \<Rightarrow> Some (Err e, st1, s1)
      | Some (Panic, st1, s1) \<Rightarrow> Some (Panic, st1, s1))"

definition reader_read ::
  "('r, 's) read_ops \<Rightarrow> 'r chunk_env \<Rightarrow> read_context \<Rightarrow> u64 bound \<Rightarrow> u64 bound \<Rightarrow> 's \<Rightarrow>
     (buffer res \<times> 's) option" where
  "reader_read ops env ctx lo hi s =
     (case bst_create ops ctx lo hi s of
        (Ok st, s1) \<Rightarrow>
          map_option (\<lambda>(r, _, s2). (bind_res r flatten_collect, s2)) (bst_collect ops env [] st s1)
      | (Err e, s1) \<Rightarrow> Some (Err e, s1)
      | (Panic, s1) \<Rightarrow> Some (Panic, s1))"

text \<open>\<open>read_into\<close>; \<open>put\<close> is \<open>BufMut::put\<close> of the target.\<close>

partial_function (option) read_into_loop ::
  "('b \<Rightarrow> buffer \<Rightarrow> 'b) \<Rightarrow> ('r, 's) read_ops \<Rightarrow> 'r chunk_env \<Rightarrow> usize \<Rightarrow> 'b \<Rightarrow>
     'r buffer_stream \<Rightarrow> 's \<Rightarrow> (usize res \<times> 'b \<times> 's) option" where
  "read_into_loop put ops env n buf st s =
     (case bst_poll_next ops env st s of
        None \<Rightarrow> None
      | Some (Ok None, st1, s1) \<Rightarrow> Some (Ok n, buf, s1)
      | Some (Ok (Some b), st1, s1) \<Rightarrow> read_into_loop put ops env (n + buffer_len b) (put buf b) st1 s1
      | Some (Err e, st1, s1) \<Rightarrow> Some (Err e, buf, s1)
      | Some (Panic, st1, s1) \<Rightarrow> Some (Panic, buf, s1))"

definition reader_read_into ::
  "('b \<Rightarrow> buffer \<Rightarrow> 'b) \<Rightarrow> ('r, 's) read_ops \<Rightarrow> 'r chunk_env \<Rightarrow> read_context \<Rightarrow>
     u64 bound \<Rightarrow> u64 bound \<Rightarrow> 'b \<Rightarrow> 's \<Rightarrow> (usize res \<times> 'b \<times> 's) option" where
  "reader_read_into put ops env ctx lo hi buf s =
     (case bst_create ops ctx lo hi s of
        (Ok st, s1) \<Rightarrow> read_into_loop put ops env 0 buf st s1
      | (Err e, s1) \<Rightarrow> Some (Err e, buf, s1)
      | (Panic, s1) \<Rightarrow> Some (Panic, buf, s1))"

text \<open>
  \<open>merge_ranges\<close>.  \<open>sort_unstable_by_key\<close> leaves the order of ranges with the same start open;
  they are kept in their order here, and the lemmas about the loop hold for every sorted list.
\<close>

fun merge_loop :: "u64 \<Rightarrow> u64 \<times> u64 \<Rightarrow> (u64 \<times> u64) list \<Rightarrow> (u64 \<times> u64) list" where
  "merge_loop gap cur [] = [cur]"
| "merge_loop gap cur (rng # rs) =
     (if fst rng \<le> snd cur + gap
      then merge_loop gap (fst cur, max (snd cur) (snd rng)) rs
      else cur # merge_loop gap rng rs)"

definition fetch_gap :: "op_reader \<Rightarrow> usize" where
  "fetch_gap options = (case orr_gap options of Some g \<Rightarrow> g | None \<Rightarrow> 1024 * 1024)"

definition merge_ranges :: "op_reader \<Rightarrow> (u64 \<times> u64) list \<Rightarrow> (u64 \<times> u64) list option" where
  "merge_ranges options ranges =
     (let gap = of_nat (fetch_gap options)
      in case sort_key fst ranges of
           [] \<Rightarrow> None
         | cur # rs \<Rightarrow> Some (merge_loop gap cur rs))"

fun fetch_submit ::
  "(u64 \<times> u64 \<Rightarrow> error + buffer) \<Rightarrow> (u64 \<times> u64) list \<Rightarrow> (u64 \<times> u64, buffer) concurrent_tasks \<Rightarrow>
     unit res \<times> (u64 \<times> u64, buffer) concurrent_tasks" where
  "fetch_submit run [] t = (Ok (), t)"
| "fetch_submit run (rng # rs) t =
     (case ct_execute run rng t of
        (Ok _, t1) \<Rightarrow> fetch_submit run rs t1
      | (r, t1) \<Rightarrow> (r, t1))"

text \<open>\<open>merged_ranges.partition_point(|v| v.start <= range.start) - 1\<close>, and the slice of the buffer.\<close>

definition fetch_slice :: "(u64 \<times> u64) list \<Rightarrow> buffer list \<Rightarrow> u64 \<times> u64 \<Rightarrow> buffer option" where
  "fetch_slice merged bufs rng =
     (let p = length (takeWhile (\<lambda>v. fst v \<le> fst rng) merged)
      in if p = 0 \<or> length bufs < p then None
         else
           (let idx = p - 1; start = fst rng - fst (merged ! idx); stop = snd rng - fst (merged ! idx)
            in buffer_slice (bufs ! idx) (Included (unat start)) (Excluded (unat stop))))"

fun fetch_slices :: "(u64 \<times> u64) list \<Rightarrow> buffer list \<Rightarrow> (u64 \<times> u64) list \<Rightarrow> buffer list option" where
  "fetch_slices merged bufs [] = Some []"
| "fetch_slices merged bufs (rng # rs) =
     (case fetch_slice merged bufs rng of
        None \<Rightarrow> None
      | Some b \<Rightarrow> map_option ((#) b) (fetch_slices merged bufs rs))"

definition reader_fetch ::
  "(u64 \<times> u64 \<Rightarrow> error + buffer) \<Rightarrow> op_reader \<Rightarrow> (u64 \<times> u64) list \<Rightarrow> buffer list res" where
  "reader_fetch run options ranges =
     (if ranges = [] then Ok []
      else
        (case merge_ranges options ranges of
           None \<Rightarrow> Panic
         | Some merged \<Rightarrow>
             (case fetch_submit run merged (ct_new (orr_concurrent options) (orr_prefetch options)) of
                (Ok _, t) \<Rightarrow>
                  (case ct_drain run t [] of
                     (Ok _, bufs, _) \<Rightarrow> res_of_option (fetch_slices merged bufs ranges)
                   | (Err e, _, _) \<Rightarrow> Err e
                   | (Panic, _, _) \<Rightarrow> Panic)
              | (Err e, t) \<Rightarrow> Err e
              | (Panic, t) \<Rightarrow> Panic)))"

section \<open>Requested bytes\<close>

text \<open>The bytes of an object a range asks for.\<close>

definition requested :: "bytes_range \<Rightarrow> bytes \<Rightarrow> bytes" where
  "requested r bs =
     (case br_size r of
        None \<Rightarrow> drop (unat (br_offset r)) bs
      | Some sz \<Rightarrow> take (unat sz) (drop (unat (br_offset r)) bs))"

lemma requested_simps [simp]:
  "requested (BytesRange off None) bs = drop (unat off) bs"
  "requested (BytesRange off (Some n)) bs = take (unat n) (drop (unat off) bs)"
  by (simp_all add: requested_def)

text \<open>A range cut into chunks of \<open>k\<close> bytes.\<close>

function chunk_ranges :: "u64 \<Rightarrow> u64 \<Rightarrow> u64 \<Rightarrow> bytes_range list" where
  "chunk_ranges k off n =
     (if k = 0 \<or> n = 0 then []
      else BytesRange off (Some (min n k)) # chunk_ranges k (off + min n k) (n - min n k))"
  by pat_completeness auto
termination
proof (relation "measure (\<lambda>(_, _, n). unat n)")
  fix k off n :: u64
  assume "\<not> (k = 0 \<or> n = 0)"
  then have "min n k \<le> n" "min n k \<noteq> 0" by (auto simp: min_def)
  then show "((k, off + min n k, n - min n k), k, off, n) \<in> measure (\<lambda>(_, _, n). unat n)"
    using unat_sub_u64[of "min n k" n] unat_eq_zero[of "min n k"] by (auto simp: word_le_nat_alt)
qed simp

declare chunk_ranges.simps [simp del]

lemma chunk_ranges_0 [simp]: "chunk_ranges k off 0 = []"
  by (simp add: chunk_ranges.simps)

lemma chunk_ranges_Nil_iff: "k \<noteq> 0 \<Longrightarrow> chunk_ranges k off n = [] \<longleftrightarrow> n = 0"
  by (simp add: chunk_ranges.simps)

lemma chunk_ranges_Cons:
  "chunk_ranges k off n = r # rs \<longleftrightarrow>
     k \<noteq> 0 \<and> n \<noteq> 0 \<and> r = BytesRange off (Some (min n k)) \<and>
     rs = chunk_ranges k (off + min n k) (n - min n k)"
  by (auto simp: chunk_ranges.simps[of k off n])

text \<open>One step of cutting: what was asked for is the first chunk and what the rest asks for.\<close>

lemma requested_step:
  assumes "unat off + unat n < 2 ^ 64" "k \<noteq> 0" "n \<noteq> 0"
  defines "m \<equiv> min n k"
  shows "requested (BytesRange off (Some n)) bs =
      requested (BytesRange off (Some m)) bs @ requested (BytesRange (off + m) (Some (n - m))) bs"
    "unat (off + m) + unat (n - m) < 2 ^ 64"
    "requested (BytesRange off (Some m)) bs = [] \<Longrightarrow> requested (BytesRange off (Some n)) bs = []"
proof -
  have m: "m \<le> n" "unat m \<le> unat n" "m \<noteq> 0"
    using assms(2,3) by (auto simp: m_def min_def word_le_nat_alt)
  have nm: "unat (n - m) = unat n - unat m" using m(1) by (rule unat_sub_u64)
  have om: "unat (off + m) = unat off + unat m"
    using assms(1) m(2) by (simp add: unat_word_ariths)
  show "requested (BytesRange off (Some n)) bs =
      requested (BytesRange off (Some m)) bs @ requested (BytesRange (off + m) (Some (n - m))) bs"
    using take_add[of "unat m" "unat n - unat m" "drop (unat off) bs"] m(2)
    by (simp add: nm om) (simp add: add.commute)
  show "unat (off + m) + unat (n - m) < 2 ^ 64" using assms(1) m(2) by (simp add: nm om)
  have "unat m \<noteq> 0" using m(3) by (simp add: unat_eq_zero)
  then show "requested (BytesRange off (Some m)) bs = [] \<Longrightarrow> requested (BytesRange off (Some n)) bs = []"
    by simp
qed

section \<open>ChunkedReader: invariant\<close>

definition chunk_answer :: "bytes \<Rightarrow> 'r chunked_input \<Rightarrow> buffer \<Rightarrow> bool" where
  "chunk_answer content i b \<longleftrightarrow> buffer_ok b \<and> buffer_view b = requested (ci_range i) content"

definition fresh_input :: "bytes_range \<Rightarrow> 'r chunked_input" where
  "fresh_input rng = \<lparr>ci_range = rng, ci_reader = None\<rparr>"

lemma fresh_input_sel [simp]: "ci_range (fresh_input rng) = rng" "ci_reader (fresh_input rng) = None"
  by (simp_all add: fresh_input_def)

text \<open>The answers of the tasks that open their reader themselves, as all do that \<open>read\<close> submits.\<close>

definition fresh_answer :: "bytes \<Rightarrow> 'r chunked_input \<Rightarrow> buffer \<Rightarrow> bool" where
  "fresh_answer content i b \<longleftrightarrow> (ci_reader i = None \<longrightarrow> chunk_answer content i b)"

text \<open>
  \<open>cr_inv content k c p cr off n\<close>: the chunks queued or not yet asked for are those of the
  range of \<open>n\<close> bytes from \<open>off\<close>: this is what the reader has left to return.
\<close>

definition cr_inv ::
  "bytes \<Rightarrow> u64 \<Rightarrow> nat \<Rightarrow> nat \<Rightarrow> 'r chunked_reader \<Rightarrow> u64 \<Rightarrow> u64 \<Rightarrow> bool" where
  "cr_inv content k c p cr off n \<longleftrightarrow>
     (\<exists>is os rem. ct_inv (fresh_answer content) c p (cr_tasks cr) is os \<and> cr_remaining cr = Some rem \<and>
        drop (length os) is @ map fresh_input (chunk_ranges k (cr_offset cr) rem) =
          map fresh_input (chunk_ranges k off n) \<and>
        unat off + unat n < 2 ^ 64 \<and> cr_opened cr = None \<and> (cr_done cr \<longrightarrow> rem = 0))"

lemma cr_invI:
  "ct_inv (fresh_answer content) c p (cr_tasks cr) is os \<Longrightarrow> cr_remaining cr = Some rem \<Longrightarrow>
   drop (length os) is @ map fresh_input (chunk_ranges k (cr_offset cr) rem) = map fresh_input (chunk_ranges k off n) \<Longrightarrow>
   unat off + unat n < 2 ^ 64 \<Longrightarrow> cr_opened cr = None \<Longrightarrow> (cr_done cr \<Longrightarrow> rem = 0) \<Longrightarrow>
   cr_inv content k c p cr off n"
  unfolding cr_inv_def by blast

lemma cr_invE:
  assumes "cr_inv content k c p cr off n"
  obtains "is" os rem where "ct_inv (fresh_answer content) c p (cr_tasks cr) is os" "cr_remaining cr = Some rem"
    "drop (length os) is @ map fresh_input (chunk_ranges k (cr_offset cr) rem) = map fresh_input (chunk_ranges k off n)"
    "unat off + unat n < 2 ^ 64" "cr_opened cr = None" "cr_done cr \<longrightarrow> rem = 0"
  using assms unfolding cr_inv_def by blast

lemma cr_inv_new:
  assumes "unat (br_offset rng) + unat n < 2 ^ 64" "br_size rng = Some n"
  shows "cr_inv content k (orr_concurrent (rc_options ctx)) (orr_prefetch (rc_options ctx))
    (cr_new ctx rng) (br_offset rng) n"
  using assms
  by (intro cr_invI[of content _ _ _ "[]" "[]" n]) (simp_all add: cr_new_def ct_inv_new)

lemma cr_inv_background:
  assumes "cr_inv content k c p cr off n" "run_ok (fresh_answer content) (ce_run env)"
  shows "cr_inv content k c p (cr_background env cr) off n"
proof -
  from assms(1) obtain "is" os rem where inv: "ct_inv (fresh_answer content) c p (cr_tasks cr) is os" "cr_remaining cr = Some rem"
    "drop (length os) is @ map fresh_input (chunk_ranges k (cr_offset cr) rem) = map fresh_input (chunk_ranges k off n)"
    "unat off + unat n < 2 ^ 64" "cr_opened cr = None" "cr_done cr \<longrightarrow> rem = 0"
    by (rule cr_invE)
  from ct_inv_background[OF inv(1) assms(2)] inv(2-) show ?thesis
    by (intro cr_invI[of content c p _ "is" os rem]) simp_all
qed

text \<open>Taking the next input moves it from the rest to the queue.\<close>

lemma cr_next_input_cases:
  assumes "orr_chunk (rc_options ctx) = Some ch" "of_nat ch = k" "k \<noteq> 0" "cr_remaining cr = Some rem"
    "cr_opened cr = None" "cr_next_input ctx cr = (x, cr')"
  shows "cr_tasks cr' = cr_tasks cr \<and> cr_done cr' = cr_done cr \<and> cr_opened cr' = None \<and>
    (case x of
       None \<Rightarrow> rem = 0 \<and> cr' = cr
     | Some i \<Rightarrow> \<exists>rem' r. cr_remaining cr' = Some rem' \<and> i = fresh_input r \<and>
         chunk_ranges k (cr_offset cr) rem = r # chunk_ranges k (cr_offset cr') rem')"
  using assms chunk_ranges.simps[of k "cr_offset cr" rem]
  by (cases "rem = 0")
    (auto simp: cr_next_input_def cr_next_range_def next_range_def Let_def fresh_input_def)

text \<open>One round of the loop: the task is queued and what is left is the same.\<close>

lemma cr_fill_step:
  assumes "of_nat ch = k" "k \<noteq> 0" "cr_inv content k c p cr off n" "run_ok (fresh_answer content) run"
    "orr_chunk (rc_options ctx) = Some ch" "\<not> cr_done cr" "cr_next_input ctx cr = (Some i, cr1)"
  shows "ct_execute run i (cr_tasks cr) = (Ok u, t) \<Longrightarrow> cr_inv content k c p (cr1\<lparr>cr_tasks := t\<rparr>) off n"
    "fst (ct_execute run i (cr_tasks cr)) \<noteq> Panic"
proof -
  from assms(3) obtain "is" os rem where inv: "ct_inv (fresh_answer content) c p (cr_tasks cr) is os"
    "cr_remaining cr = Some rem"
    "drop (length os) is @ map fresh_input (chunk_ranges k (cr_offset cr) rem) = map fresh_input (chunk_ranges k off n)"
    "unat off + unat n < 2 ^ 64" "cr_opened cr = None"
    by (rule cr_invE)
  from cr_next_input_cases[OF assms(5,1,2) inv(2,5) assms(7)] assms(6) obtain rem' r where
    cr1: "cr_tasks cr1 = cr_tasks cr" "\<not> cr_done cr1" "cr_opened cr1 = None" "cr_remaining cr1 = Some rem'"
      "i = fresh_input r" "chunk_ranges k (cr_offset cr) rem = r # chunk_ranges k (cr_offset cr1) rem'"
    by auto
  obtain q t' where ex: "ct_execute run i (cr_tasks cr) = (q, t')" by force
  note ei = ct_inv_execute[OF inv(1) assms(4) ex]
  then show "fst (ct_execute run i (cr_tasks cr)) \<noteq> Panic" using ex by simp
  assume ok: "ct_execute run i (cr_tasks cr) = (Ok u, t)"
  then have "\<not> ct_errored (cr_tasks cr)" by (auto simp: ct_execute_def)
  from ct_inv_delivered[OF inv(1) this] have del: "length os \<le> length is" .
  show "cr_inv content k c p (cr1\<lparr>cr_tasks := t\<rparr>) off n"
  proof (rule cr_invI[of content c p _ "is @ [i]" os rem'])
    show "ct_inv (fresh_answer content) c p (cr_tasks (cr1\<lparr>cr_tasks := t\<rparr>)) (is @ [i]) os"
      using ei ok ex by simp
    show "drop (length os) (is @ [i]) @ map fresh_input (chunk_ranges k (cr_offset (cr1\<lparr>cr_tasks := t\<rparr>)) rem') =
        map fresh_input (chunk_ranges k off n)"
      using inv(3) cr1(5,6) del by simp
  qed (use cr1 inv(4) in simp_all)
qed

text \<open>
  The rounds of the loop, as the cases of an induction: the reader \<open>cr\<close> after the executor has worked is
  full or done, has nothing left to submit, or submits an input.
\<close>

lemma cr_fill_cases:
  assumes "cr_fill env ctx cr0 = (r, cr')" "cr = cr_background env cr0"
  obtains (idle) "\<not> (ct_has_remaining (cr_tasks cr) \<and> \<not> cr_done cr)" "r = Ok ()" "cr' = cr"
  | (last) cr1 where "ct_has_remaining (cr_tasks cr)" "\<not> cr_done cr" "cr_next_input ctx cr = (None, cr1)" "r = Ok ()"
      "cr' = cr1\<lparr>cr_done := True\<rparr>"
  | (failed) i cr1 t where "\<not> cr_done cr" "cr_next_input ctx cr = (Some i, cr1)"
      "ct_execute (ce_run env) i (cr_tasks cr) = (r, t)" "r \<noteq> Ok ()" "cr' = cr1\<lparr>cr_tasks := t\<rparr>"
  | (result) i cr1 t where "\<not> cr_done cr" "cr_next_input ctx cr = (Some i, cr1)"
      "ct_execute (ce_run env) i (cr_tasks cr) = (Ok (), t)" "ct_has_result t" "r = Ok ()" "cr' = cr1\<lparr>cr_tasks := t\<rparr>"
  | (again) i cr1 t where "ct_has_remaining (cr_tasks cr)" "\<not> cr_done cr" "cr_next_input ctx cr = (Some i, cr1)"
      "ct_execute (ce_run env) i (cr_tasks cr) = (Ok (), t)" "\<not> ct_has_result t"
      "cr_fill env ctx (cr1\<lparr>cr_tasks := t\<rparr>) = (r, cr')"
proof (cases "ct_has_remaining (cr_tasks cr) \<and> \<not> cr_done cr")
  case True
  obtain x cr1 where nx: "cr_next_input ctx cr = (x, cr1)" by force
  note t1 = cr_next_input_tasks[OF nx]
  show thesis
  proof (cases x)
    case None
    with True nx assms have "r = Ok ()" "cr' = cr1\<lparr>cr_done := True\<rparr>" by (simp_all add: cr_fill.simps[of env ctx cr0])
    with True nx None show thesis using last by blast
  next
    case (Some i)
    obtain q t where ex: "ct_execute (ce_run env) i (cr_tasks cr) = (q, t)" by force
    have fill: "(r, cr') = (case (q, t) of
        (Ok _, t) \<Rightarrow> if ct_has_result t then (Ok (), cr1\<lparr>cr_tasks := t\<rparr>) else cr_fill env ctx (cr1\<lparr>cr_tasks := t\<rparr>)
      | (Err e, t) \<Rightarrow> (Err e, cr1\<lparr>cr_tasks := t\<rparr>)
      | (Panic, t) \<Rightarrow> (Panic, cr1\<lparr>cr_tasks := t\<rparr>))"
      unfolding assms(1)[symmetric] ex[symmetric]
      using True nx Some t1 assms(2) by (simp add: cr_fill.simps[of env ctx cr0] Let_def)
    consider "q \<noteq> Ok ()" | "q = Ok ()" "ct_has_result t" | "q = Ok ()" "\<not> ct_has_result t" by blast
    then show thesis
    proof cases
      case 1
      then have "r = q" "cr' = cr1\<lparr>cr_tasks := t\<rparr>" using fill by (cases q; simp)+
      with 1 True nx Some ex show thesis using failed by blast
    next
      case 2
      with fill True nx Some ex show thesis using result by auto
    next
      case 3
      then have "cr_fill env ctx (cr1\<lparr>cr_tasks := t\<rparr>) = (r, cr')" using fill by simp
      with 3 True nx Some ex show thesis using again by blast
    qed
  qed
next
  case False
  with assms have "r = Ok ()" "cr' = cr" by (auto simp: cr_fill.simps[of env ctx cr0] Let_def)
  with False show thesis using idle by blast
qed

lemma cr_fill_inv:
  assumes "0 < c" "of_nat ch = k" "k \<noteq> 0" "run_ok (fresh_answer content) (ce_run env)" "orr_chunk (rc_options ctx) = Some ch"
  shows "cr_inv content k c p cr off n \<Longrightarrow> cr_fill env ctx cr = (r, cr') \<Longrightarrow>
    r \<noteq> Panic \<and>
    (r = Ok () \<longrightarrow> cr_inv content k c p cr' off n \<and>
      (ct_tasks (cr_tasks cr') = [] \<and> ct_results (cr_tasks cr') = [] \<longrightarrow> cr_done cr' \<or> ct_errored (cr_tasks cr')))"
proof (induction "ct_concurrent (cr_tasks cr) + ct_prefetch (cr_tasks cr) - length (ct_tasks (cr_tasks cr))" arbitrary: cr rule: less_induct)
  case less
  let ?cr = "cr_background env cr"
  note inv = cr_inv_background[OF less.prems(1) assms(4)]
  note step = cr_fill_step[OF assms(2,3) inv assms(4,5)]
  from less.prems(2) refl show ?case
  proof (cases rule: cr_fill_cases)
    case idle
    moreover have "ct_tasks (cr_tasks ?cr) = [] \<Longrightarrow> cr_done ?cr"
      using idle(1) inv \<open>0 < c\<close> by (auto simp: ct_has_remaining_def ct_inv_def cr_inv_def)
    ultimately show ?thesis using inv by simp
  next
    case (last cr1)
    from inv obtain "is" os rem where i: "ct_inv (fresh_answer content) c p (cr_tasks ?cr) is os"
      "cr_remaining ?cr = Some rem"
      "drop (length os) is @ map fresh_input (chunk_ranges k (cr_offset ?cr) rem) = map fresh_input (chunk_ranges k off n)"
      "unat off + unat n < 2 ^ 64" "cr_opened ?cr = None"
      by (rule cr_invE)
    from cr_next_input_cases[OF assms(5,2,3) i(2,5) last(3)] have "rem = 0" "cr1 = ?cr" by auto
    with i last(4,5) show ?thesis by (auto intro!: cr_invI[of content c p _ "is" os rem])
  next
    case (failed i cr1 t)
    with step(2)[OF failed(1,2)] show ?thesis by simp
  next
    case (result i cr1 t)
    with step(1)[OF result(1,2,3)] show ?thesis by (simp add: ct_has_result_def)
  next
    case (again i cr1 t)
    have "cr_tasks cr1 = cr_tasks ?cr" using cr_next_input_tasks[OF again(3)] .
    then have "ct_concurrent t + ct_prefetch t - length (ct_tasks t) <
        ct_concurrent (cr_tasks cr) + ct_prefetch (cr_tasks cr) - length (ct_tasks (cr_tasks cr))"
      using ct_execute_grows[OF again(4,1,5)] by simp
    from less.hyps[OF _ step(1)[OF again(2,3,4)] again(6)] this show ?thesis by simp
  qed
qed

text \<open>
  \<open>cr_step\<close>: the buffer \<open>b\<close> is the next part of what was left, \<open>cr'\<close> is left with the rest, and
  \<open>b\<close> is empty only if nothing was left.
\<close>

definition cr_step ::
  "bytes \<Rightarrow> u64 \<Rightarrow> nat \<Rightarrow> nat \<Rightarrow> u64 \<Rightarrow> u64 \<Rightarrow> buffer \<Rightarrow> 'r chunked_reader \<Rightarrow> bool" where
  "cr_step content k c p off n b cr' \<longleftrightarrow> buffer_ok b \<and>
    (\<exists>off' n'. cr_inv content k c p cr' off' n' \<and>
      requested (BytesRange off (Some n)) content =
        buffer_view b @ requested (BytesRange off' (Some n')) content \<and>
      (buffer_view b = [] \<longrightarrow> requested (BytesRange off (Some n)) content = []))"

lemma cr_stepI:
  "buffer_ok b \<Longrightarrow> cr_inv content k c p cr' off' n' \<Longrightarrow>
   requested (BytesRange off (Some n)) content =
     buffer_view b @ requested (BytesRange off' (Some n')) content \<Longrightarrow>
   (buffer_view b = [] \<Longrightarrow> requested (BytesRange off (Some n)) content = []) \<Longrightarrow>
   cr_step content k c p off n b cr'"
  unfolding cr_step_def by blast

lemma cr_read_step:
  assumes "0 < c" "of_nat ch = k" "k \<noteq> 0" "cr_inv content k c p cr off n" "run_ok (fresh_answer content) (ce_run env)"
    "orr_chunk (rc_options ctx) = Some ch" "cr_read env ctx cr = (r, cr')"
  shows "r \<noteq> Panic \<and> (\<forall>b. r = Ok b \<longrightarrow> cr_step content k c p off n b cr')"
proof -
  obtain q cr1 where fill: "cr_fill env ctx cr = (q, cr1)" by force
  note f = cr_fill_inv[OF assms(1-3,5,6,4) fill]
  show ?thesis
  proof (cases q)
    case (Ok u)
    then have inv1: "cr_inv content k c p cr1 off n" and
      fin: "ct_tasks (cr_tasks cr1) = [] \<and> ct_results (cr_tasks cr1) = [] \<longrightarrow> cr_done cr1 \<or> ct_errored (cr_tasks cr1)"
      using f by auto
    from inv1 obtain "is" os rem where inv: "ct_inv (fresh_answer content) c p (cr_tasks cr1) is os"
      "cr_remaining cr1 = Some rem"
      "drop (length os) is @ map fresh_input (chunk_ranges k (cr_offset cr1) rem) = map fresh_input (chunk_ranges k off n)"
      "unat off + unat n < 2 ^ 64" "cr_opened cr1 = None" "cr_done cr1 \<longrightarrow> rem = 0"
      by (rule cr_invE)
    obtain z t where nx: "ct_next (ce_run env) (cr_tasks cr1) = (z, t)" by force
    note ni = ct_inv_next[OF inv(1) assms(5) nx]
    consider "z = None" | b where "z = Some (Ok b)" | e where "z = Some (Err e)" | "z = Some Panic"
      by (metis not_None_eq res.exhaust)
    then show ?thesis
    proof cases
      case 1
      with ct_next_None[of "ce_run env" "cr_tasks cr1" t] nx have emp: "ct_tasks (cr_tasks cr1) = []"
        "ct_results (cr_tasks cr1) = []" "\<not> ct_errored (cr_tasks cr1)" by auto
      with fin have "cr_done cr1" by simp
      moreover have "length is = length os"
        using list_all2_lengthD[OF ct_inv_all_delivered[OF inv(1) emp]] .
      ultimately have "chunk_ranges k off n = []" using inv(3,6) by simp
      then have "n = 0" using assms(3) by (simp add: chunk_ranges_Nil_iff)
      moreover have "r = Ok buffer_new" "cr' = cr1"
        using 1 nx ni fill Ok assms(7) by (auto simp: cr_read_def)
      ultimately have "cr_step content k c p off n buffer_new cr'"
        using inv1 by (intro cr_stepI[of _ _ _ _ _ _ off n]) simp_all
      then show ?thesis by (simp add: \<open>r = Ok buffer_new\<close>)
    next
      case (2 b)
      from ct_next_answer[OF inv(1) assms(5)] nx 2 obtain i where
        ans: "ct_inv (fresh_answer content) c p t is (os @ [b])" "fresh_answer content i b"
          "drop (length os) is = i # drop (length (os @ [b])) is" by blast
      have r: "r = Ok b" "cr' = cr1\<lparr>cr_tasks := t\<rparr>"
        using 2 nx fill Ok assms(7) by (auto simp: cr_read_def)
      let ?m = "min n k"
      from inv(3) ans(3) obtain r' rs where cr: "chunk_ranges k off n = r' # rs" "i = fresh_input r'"
        "drop (length (os @ [b])) is @ map fresh_input (chunk_ranges k (cr_offset cr1) rem) = map fresh_input rs"
        by (cases "chunk_ranges k off n") auto
      then have ch: "n \<noteq> 0" "i = fresh_input (BytesRange off (Some ?m))"
        "drop (length (os @ [b])) is @ map fresh_input (chunk_ranges k (cr_offset cr1) rem) =
           map fresh_input (chunk_ranges k (off + ?m) (n - ?m))"
        by (simp_all add: chunk_ranges_Cons)
      note st = requested_step(1)[OF inv(4) assms(3) ch(1), of content]
        requested_step(2)[OF inv(4) assms(3) ch(1)] requested_step(3)[OF inv(4) assms(3) ch(1), of content]
      have "cr_inv content k c p cr' (off + ?m) (n - ?m)"
        using ans(1) inv(2,5,6) ch(3) st(2) r(2)
        by (intro cr_invI[of content c p _ "is" "os @ [b]" rem]) auto
      moreover have "buffer_ok b" "buffer_view b = requested (BytesRange off (Some ?m)) content"
        using ans(2) ch(2) by (simp_all add: fresh_answer_def chunk_answer_def)
      ultimately have "cr_step content k c p off n b cr'"
        using st(1,3) by (intro cr_stepI[of b content k c p cr' "off + ?m" "n - ?m"]) (simp_all only:)
      then show ?thesis by (simp add: r(1))
    next
      case (3 e)
      then show ?thesis using nx fill Ok assms(7) by (auto simp: cr_read_def)
    next
      case 4
      then show ?thesis using ni by simp
    qed
  next
    case (Err e)
    then show ?thesis using fill assms(7) by (auto simp: cr_read_def)
  next
    case Panic
    with f show ?thesis by simp
  qed
qed

text \<open>A chunked reader whose running tasks, and those not yet submitted, ask for ranges with \<open>good\<close>.\<close>

definition cr_good :: "(bytes_range \<Rightarrow> bool) \<Rightarrow> u64 \<Rightarrow> 'r chunked_reader \<Rightarrow> bool" where
  "cr_good good k cr \<longleftrightarrow> ct_healthy (cr_tasks cr) \<and>
     (\<forall>i. Running i \<in> set (ct_tasks (cr_tasks cr)) \<longrightarrow> ci_reader i = None \<and> good (ci_range i)) \<and>
     (\<forall>rem. cr_remaining cr = Some rem \<longrightarrow> (\<forall>r\<in>set (chunk_ranges k (cr_offset cr) rem). good r))"

definition run_good :: "(bytes_range \<Rightarrow> bool) \<Rightarrow> 'r chunk_env \<Rightarrow> bool" where
  "run_good good env \<longleftrightarrow> (\<forall>r. good r \<longrightarrow> (\<exists>b. ce_run env (fresh_input r) = Inr b))"

lemma run_good_input: "run_good good env \<Longrightarrow> ci_reader i = None \<Longrightarrow> good (ci_range i) \<Longrightarrow> \<exists>b. ce_run env i = Inr b"
  unfolding run_good_def fresh_input_def by (metis chunked_input.surjective old.unit.exhaust)

lemma cr_good_background:
  assumes "cr_good good k cr" "run_good good env"
  shows "cr_good good k (cr_background env cr)"
proof -
  have "\<forall>i. Running i \<in> set (ct_tasks (cr_tasks cr)) \<longrightarrow> (\<exists>b. ce_run env i = Inr b)"
    using assms run_good_input[OF assms(2)] by (simp add: cr_good_def)
  from ct_healthy_background[OF this] assms(1) show ?thesis
    by (auto simp: cr_good_def dest: ct_background_running)
qed

lemma ct_execute_running:
  "ct_execute run i t = (Ok u, t') \<Longrightarrow> Running j \<in> set (ct_tasks t') \<Longrightarrow> j = i \<or> Running j \<in> set (ct_tasks t)"
  by (auto simp: ct_execute_def ct_push_def ct_create_task_def ct_await_front_def
      split: if_splits sum.splits list.splits task.splits prod.splits)

lemma cr_good_step:
  assumes "cr_good good k cr" "run_good good env" "cr_inv content k c p cr off n" "run_ok (fresh_answer content) (ce_run env)"
    "of_nat ch = k" "k \<noteq> 0" "orr_chunk (rc_options ctx) = Some ch" "cr_next_input ctx cr = (Some i, cr1)"
    "ct_execute (ce_run env) i (cr_tasks cr) = (q, t)"
  shows "q = Ok () \<and> cr_good good k (cr1\<lparr>cr_tasks := t\<rparr>)"
proof -
  from assms(3) obtain "is" os rem where inv: "ct_inv (fresh_answer content) c p (cr_tasks cr) is os"
    "cr_remaining cr = Some rem" "cr_opened cr = None" by (rule cr_invE)
  from cr_next_input_cases[OF assms(7,5,6) inv(2,3) assms(8)] obtain rem' r where
    cr1: "cr_remaining cr1 = Some rem'" "i = fresh_input r"
      "chunk_ranges k (cr_offset cr) rem = r # chunk_ranges k (cr_offset cr1) rem'" by auto
  have g: "ct_healthy (cr_tasks cr)" "good r" "\<forall>r\<in>set (chunk_ranges k (cr_offset cr1) rem'). good r"
    "\<And>j. Running j \<in> set (ct_tasks (cr_tasks cr)) \<Longrightarrow> ci_reader j = None \<and> good (ci_range j)"
    using assms(1) inv(2) cr1(3) by (auto simp: cr_good_def)
  have "\<forall>j. j = i \<or> Running j \<in> set (ct_tasks (cr_tasks cr)) \<longrightarrow> (\<exists>b. ce_run env j = Inr b)"
    using run_good_input[OF assms(2)] g cr1(2) by auto
  from ct_healthy_execute_running[OF inv(1) assms(4) this g(1) assms(9)] have q: "q = Ok ()" "ct_healthy t" by auto
  have "ci_reader j = None \<and> good (ci_range j)" if "Running j \<in> set (ct_tasks t)" for j
    using ct_execute_running[OF assms(9)[unfolded q(1)] that] g(2,4) cr1(2) by auto
  with q g(3) cr1(1) show ?thesis by (simp add: cr_good_def)
qed

lemma cr_fill_healthy:
  assumes "0 < c" "of_nat ch = k" "k \<noteq> 0" "run_ok (fresh_answer content) (ce_run env)" "orr_chunk (rc_options ctx) = Some ch"
    "run_good good env"
  shows "cr_inv content k c p cr off n \<Longrightarrow> cr_good good k cr \<Longrightarrow> cr_fill env ctx cr = (r, cr') \<Longrightarrow>
    r = Ok () \<and> cr_good good k cr'"
proof (induction "ct_concurrent (cr_tasks cr) + ct_prefetch (cr_tasks cr) - length (ct_tasks (cr_tasks cr))" arbitrary: cr rule: less_induct)
  case less
  let ?cr = "cr_background env cr"
  note inv = cr_inv_background[OF less.prems(1) assms(4)]
  note good = cr_good_background[OF less.prems(2) assms(6)]
  note step = cr_good_step[OF good assms(6) inv assms(4,2,3,5)]
  from less.prems(3) refl show ?case
  proof (cases rule: cr_fill_cases)
    case idle
    with good show ?thesis by simp
  next
    case (last cr1)
    from inv obtain rem where i: "cr_remaining ?cr = Some rem" "cr_opened ?cr = None" by (rule cr_invE)
    from cr_next_input_cases[OF assms(5,2,3) i last(3)] have "cr1 = ?cr" by simp
    with good last(4,5) show ?thesis by (simp add: cr_good_def)
  next
    case (failed i cr1 t)
    with step[OF failed(2,3)] show ?thesis by simp
  next
    case (result i cr1 t)
    with step[OF result(2,3)] show ?thesis by simp
  next
    case (again i cr1 t)
    have "cr_tasks cr1 = cr_tasks ?cr" using cr_next_input_tasks[OF again(3)] .
    then have "ct_concurrent t + ct_prefetch t - length (ct_tasks t) <
        ct_concurrent (cr_tasks cr) + ct_prefetch (cr_tasks cr) - length (ct_tasks (cr_tasks cr))"
      using ct_execute_grows[OF again(4,1,5)] by simp
    from less.hyps[OF _ cr_fill_step(1)[OF assms(2,3) inv assms(4,5) again(2,3,4)] _ again(6)] this
      step[OF again(3,4)] show ?thesis by simp
  qed
qed

lemma ct_next_running:
  "ct_next run t = (Some (Ok b), t') \<or> ct_next run t = (None, t') \<Longrightarrow> Running j \<in> set (ct_tasks t') \<Longrightarrow>
     Running j \<in> set (ct_tasks t)"
  by (auto simp: ct_next_def ct_await_front_def split: if_splits sum.splits list.splits task.splits prod.splits)

lemma cr_read_healthy:
  assumes "0 < c" "of_nat ch = k" "k \<noteq> 0" "cr_inv content k c p cr off n" "run_ok (fresh_answer content) (ce_run env)"
    "run_good good env" "orr_chunk (rc_options ctx) = Some ch" "cr_good good k cr"
    "cr_read env ctx cr = (r, cr')"
  shows "(\<exists>b. r = Ok b) \<and> cr_good good k cr'"
proof -
  obtain q cr1 where fill: "cr_fill env ctx cr = (q, cr1)" by force
  from cr_fill_healthy[OF assms(1-3,5,7,6,4,8) fill] have q: "q = Ok ()" "cr_good good k cr1" by auto
  obtain z t where nx: "ct_next (ce_run env) (cr_tasks cr1) = (z, t)" by force
  have g1: "ct_healthy (cr_tasks cr1)"
    "\<forall>i. Running i \<in> set (ct_tasks (cr_tasks cr1)) \<longrightarrow> (\<exists>b. ce_run env i = Inr b)"
    using q(2) run_good_input[OF assms(6)] by (auto simp: cr_good_def)
  from ct_healthy_next_running[OF g1(2,1) nx] have t: "ct_healthy t" "\<forall>e. z \<noteq> Some (Err e)" by auto
  have "r \<noteq> Panic" using cr_read_step[OF assms(1-5,7,9)] by simp
  with fill q(1) nx t(2) assms(9) have z: "z = None \<or> (\<exists>b. z = Some (Ok b))" "\<exists>b. r = Ok b" "cr' = cr1\<lparr>cr_tasks := t\<rparr>"
    by (auto simp: cr_read_def split: option.splits res.splits)
  have "Running j \<in> set (ct_tasks (cr_tasks cr1))" if "Running j \<in> set (ct_tasks t)" for j
    using nx z(1) ct_next_running[OF _ that] by blast
  with t(1) q(2) z(2,3) show ?thesis by (simp add: cr_good_def)
qed

lemma flatten_collect_ok:
  assumes "\<forall>b\<in>set bufs. buffer_ok b"
  shows "\<exists>b. flatten_collect bufs = Ok b \<and> buffer_ok b \<and> buffer_view b = concat (map buffer_view bufs)"
  using queue_flatten_ok[OF assms] buffer_ok_from_parts
  by (auto simp: flatten_collect_def res_of_option_def queue_view_def)

lemma ord_range_with_range [simp]: "ord_range (ord_with_range rng args) = rng"
  by (simp add: ord_with_range_def)

section \<open>The contract of a reader\<close>

text \<open>
  An accessor whose readers return the object at \<open>path\<close>: \<open>rest r\<close> is what the open reader \<open>r\<close> has left,
  and \<open>content\<close> does not change while it is read.
\<close>

locale object_reader =
  fixes ops :: "('r, 's) read_ops" and path :: str and content :: bytes
    and sinv :: "'s \<Rightarrow> bool" and rinv :: "'r \<Rightarrow> bool" and rest :: "'r \<Rightarrow> bytes"
  assumes open_ok: "sinv s \<Longrightarrow> rop_open ops path args s = (Ok (rp, r), s') \<Longrightarrow>
      sinv s' \<and> rinv r \<and> rest r = requested (ord_range args) content"
    and read_ok: "sinv s \<Longrightarrow> rinv r \<Longrightarrow> rop_read ops r s = (Ok b, r', s') \<Longrightarrow>
      sinv s' \<and> rinv r' \<and> buffer_ok b \<and> rest r = buffer_view b @ rest r' \<and> (buffer_view b = [] \<longrightarrow> rest r = [])"
    and stat_ok: "sinv s \<Longrightarrow> rop_stat ops path sargs s = (Ok m, s') \<Longrightarrow>
      sinv s' \<and> metadata_content_length m = of_nat (length content)"
    and content_len: "sinv s \<Longrightarrow> length content < 2 ^ 64"

locale reliable_reader = object_reader +
  fixes good :: "op_read \<Rightarrow> bool" and rgood :: "'r \<Rightarrow> bool"
  assumes open_total: "sinv s \<Longrightarrow> good args \<Longrightarrow> \<exists>rp r s'. rop_open ops path args s = (Ok (rp, r), s') \<and> rgood r"
    and read_total: "sinv s \<Longrightarrow> rinv r \<Longrightarrow> rgood r \<Longrightarrow> \<exists>b r' s'. rop_read ops r s = (Ok b, r', s') \<and> rgood r'"
    and stat_total: "sinv s \<Longrightarrow> good args \<Longrightarrow> \<exists>m s'. rop_stat ops path (reader_stat_op args) s = (Ok m, s')"

text \<open>The task of a chunk reads exactly the bytes of its range, whatever state the service is in.\<close>

context object_reader
begin

lemma read_all_loop_exact:
  "sinv s \<Longrightarrow> rinv r \<Longrightarrow> \<forall>b\<in>set bufs. buffer_ok b \<Longrightarrow>
   \<exists>x r' s'. read_all_loop ops bufs r s = Some (x, r', s') \<and>
     (\<forall>bs. x = Ok bs \<longrightarrow> (\<forall>b\<in>set bs. buffer_ok b) \<and> concat (map buffer_view bs) = concat (map buffer_view bufs) @ rest r)"
proof (induction "length (rest r)" arbitrary: r s bufs rule: less_induct)
  case less
  obtain x r' s' where rd: "rop_read ops r s = (x, r', s')" by (metis prod_cases3)
  show ?case
  proof (cases x)
    case (Ok b)
    note b = read_ok[OF less.prems(1,2) rd[unfolded Ok]]
    then have emp: "buffer_is_empty b \<longleftrightarrow> buffer_view b = []"
      using buffer_ok_len[of b] by (auto simp: buffer_is_empty_def)
    show ?thesis
    proof (cases "buffer_is_empty b")
      case True
      with rd Ok b emp less.prems(3) show ?thesis by (auto simp: read_all_loop.simps[of ops bufs r s])
    next
      case False
      then have "length (rest r') < length (rest r)" using b emp by (metis add_less_cancel_right add_0 length_append length_greater_0_conv)
      from less.hyps[OF this, of s' "bufs @ [b]"] b less.prems(3) rd Ok False show ?thesis
        by (auto simp: read_all_loop.simps[of ops bufs r s])
    qed
  qed (use rd in \<open>simp_all add: read_all_loop.simps[of ops bufs r s]\<close>)
qed

lemma read_all_exact:
  assumes "sinv s" "rinv r"
  shows "\<exists>x r' s'. read_all ops r s = Some (x, r', s') \<and> (\<forall>b. x = Ok b \<longrightarrow> buffer_ok b \<and> buffer_view b = rest r)"
proof -
  from read_all_loop_exact[OF assms, of "[]"] obtain x r' s' where
    x: "read_all_loop ops [] r s = Some (x, r', s')"
      "\<And>bs. x = Ok bs \<Longrightarrow> (\<forall>b\<in>set bs. buffer_ok b) \<and> concat (map buffer_view bs) = rest r" by auto
  have "\<exists>b. flatten_collect bs = Ok b \<and> buffer_ok b \<and> buffer_view b = rest r" if "x = Ok bs" for bs
    using x(2)[OF that] flatten_collect_ok[of bs] by simp
  with x(1) show ?thesis by (cases x) (auto simp: read_all_def)
qed

lemma chunked_task_exact:
  assumes "sinv s" "rc_path ctx = path" "ci_reader i = None" "task_outcome (chunked_task ops i ctx s) (Inr b)"
  shows "chunk_answer content i b"
proof -
  obtain x s1 where op: "rop_open ops path (ord_with_range (ci_range i) (rc_args ctx)) s = (x, s1)" by force
  with assms(2-4) obtain rp r where x: "x = Ok (rp, r)" by (cases x) (auto simp: chunked_task_def)
  from open_ok[OF assms(1) op[unfolded x]] have r: "sinv s1" "rinv r" "rest r = requested (ci_range i) content" by auto
  from read_all_exact[OF r(1,2)] obtain y r' s2 where
    y: "read_all ops r s1 = Some (y, r', s2)" "\<forall>b. y = Ok b \<longrightarrow> buffer_ok b \<and> buffer_view b = rest r" by blast
  with assms(2-4) op x have "y = Ok b" by (cases y) (auto simp: chunked_task_def)
  with y(2) r(3) show ?thesis by (simp add: chunk_answer_def)
qed

lemma chunked_runs_exact:
  assumes "chunked_runs ops ctx sinv env" "rc_path ctx = path"
  shows "run_ok (fresh_answer content) (ce_run env)"
  unfolding run_ok_def fresh_answer_def
proof (intro allI impI)
  fix i b assume run: "ce_run env i = Inr b" and i: "ci_reader i = None"
  from assms(1) i obtain s where s: "sinv s" "task_outcome (chunked_task ops i ctx s) (ce_run env i)"
    unfolding chunked_runs_def by blast
  from chunked_task_exact[OF s(1) assms(2) i s(2)[unfolded run]] show "chunk_answer content i b" .
qed

end

text \<open>Over a reliable service the tasks of the ranges it serves do not fail.\<close>

context reliable_reader
begin

lemma read_all_loop_total:
  "sinv s \<Longrightarrow> rinv r \<Longrightarrow> rgood r \<Longrightarrow> \<exists>bs r' s'. read_all_loop ops bufs r s = Some (Ok bs, r', s')"
proof (induction "length (rest r)" arbitrary: r s bufs rule: less_induct)
  case less
  from read_total[OF less.prems] obtain b r' s' where rd: "rop_read ops r s = (Ok b, r', s')" "rgood r'" by blast
  note b = read_ok[OF less.prems(1,2) rd(1)]
  show ?case
  proof (cases "buffer_is_empty b")
    case True
    with rd show ?thesis by (simp add: read_all_loop.simps[of ops bufs r s])
  next
    case False
    then have "buffer_view b \<noteq> []" using b buffer_ok_len[of b] by (auto simp: buffer_is_empty_def)
    then have "length (rest r') < length (rest r)" using b by (metis add_less_cancel_right add_0 length_append length_greater_0_conv)
    from less.hyps[OF this, of s' "bufs @ [b]"] b rd False show ?thesis by (simp add: read_all_loop.simps[of ops bufs r s])
  qed
qed

lemma chunked_runs_total:
  assumes "chunked_runs ops ctx sinv env" "rc_path ctx = path"
  shows "run_good (\<lambda>r. good (ord_with_range r (rc_args ctx))) env"
  unfolding run_good_def
proof (intro allI impI)
  fix rng assume g: "good (ord_with_range rng (rc_args ctx))"
  from assms(1) obtain s where s: "sinv s"
    "task_outcome (chunked_task ops (fresh_input rng) ctx s) (ce_run env (fresh_input rng))"
    unfolding chunked_runs_def by (metis fresh_input_sel(2))
  from open_total[OF s(1) g] obtain rp r s1 where
    op: "rop_open ops path (ord_with_range rng (rc_args ctx)) s = (Ok (rp, r), s1)" "rgood r" by blast
  from open_ok[OF s(1) op(1)] have r: "sinv s1" "rinv r" by auto
  from read_all_loop_total[OF r op(2), of "[]"] obtain bs r' s2 where
    bs: "read_all_loop ops [] r s1 = Some (Ok bs, r', s2)" by blast
  with read_all_loop_exact[OF r, of "[]"] have "\<forall>b\<in>set bs. buffer_ok b" by auto
  from flatten_collect_ok[OF this] bs obtain b where "read_all ops r s1 = Some (Ok b, r', s2)"
    by (auto simp: read_all_def)
  with op(1) s(2) assms(2) show "\<exists>b. ce_run env (fresh_input rng) = Inr b" by (auto simp: chunked_task_def)
qed

end

text \<open>What a streaming reader has left: the rest of its open reader and the range not yet opened.\<close>

definition sr_left :: "('r \<Rightarrow> bytes) \<Rightarrow> bytes \<Rightarrow> 'r streaming_reader \<Rightarrow> bytes" where
  "sr_left rest content sr =
     (case sr_reader sr of None \<Rightarrow> [] | Some r \<Rightarrow> rest r) @
     requested (BytesRange (rg_offset (sr_generator sr)) (rg_size (sr_generator sr))) content"

definition sr_fuel :: "'r streaming_reader \<Rightarrow> nat" where
  "sr_fuel sr = (if sr_reader sr = None then 0 else 1) + (if rg_size (sr_generator sr) = Some 0 then 0 else 2)"

definition sr_ok :: "('r \<Rightarrow> bool) \<Rightarrow> 'r streaming_reader \<Rightarrow> bool" where
  "sr_ok rinv sr \<longleftrightarrow> (\<forall>r. sr_reader sr = Some r \<longrightarrow> rinv r)"

text \<open>
  A streaming reader over a service that serves the opens \<open>good\<close>: its open reader is one such an
  open returned, and the range not yet opened is one the service serves.
\<close>

definition sr_good :: "(op_read \<Rightarrow> bool) \<Rightarrow> ('r \<Rightarrow> bool) \<Rightarrow> op_read \<Rightarrow> 'r streaming_reader \<Rightarrow> bool" where
  "sr_good good rgood args sr \<longleftrightarrow>
     (\<forall>r. sr_reader sr = Some r \<longrightarrow> rgood r) \<and>
     (rg_size (sr_generator sr) = Some 0 \<or>
      good (ord_with_range (BytesRange (rg_offset (sr_generator sr)) (rg_size (sr_generator sr))) args))"

definition same_context :: "read_context \<Rightarrow> read_context \<Rightarrow> bool" where
  "same_context ctx ctx' \<longleftrightarrow>
     rc_path ctx' = rc_path ctx \<and> rc_args ctx' = rc_args ctx \<and> rc_options ctx' = rc_options ctx"

lemma same_context_refl [simp]: "same_context ctx ctx"
  by (simp add: same_context_def)

lemma same_context_trans: "same_context a b \<Longrightarrow> same_context b c \<Longrightarrow> same_context a c"
  by (simp add: same_context_def)

lemma same_context_observe [simp]: "same_context ctx (rc_observe rp ctx)"
  by (auto simp: same_context_def rc_observe_def rc_set_metadata_def split: option.splits)

lemma rg_next_range_stream:
  assumes "orr_chunk (rc_options ctx) = None" "rg_next_range ctx g = (x, g')"
  shows "rg_size g = Some 0 \<and> x = None \<and> g' = g \<or>
    rg_size g \<noteq> Some 0 \<and> x = Some (BytesRange (rg_offset g) (rg_size g)) \<and> rg_size g' = Some 0"
  using assms by (auto simp: rg_next_range_def next_range_def Let_def split: option.splits if_splits)

context object_reader
begin

lemma sr_open_step:
  assumes "orr_chunk (rc_options ctx) = None" "rc_path ctx = path" "sinv s" "sr_ok rinv sr"
    "sr_open ops ctx sr s = (Ok u, sr1, ctx1, s1)"
  shows "sinv s1 \<and> sr_ok rinv sr1 \<and> sr_left rest content sr1 = sr_left rest content sr \<and>
    same_context ctx ctx1 \<and> (sr_reader sr1 = None \<longrightarrow> sr_left rest content sr = []) \<and>
    sr_fuel (sr1\<lparr>sr_reader := None\<rparr>) < sr_fuel sr + (if sr_reader sr1 = None then 1 else 0)"
proof (cases "sr_reader sr")
  case (Some r)
  with assms show ?thesis by (auto simp: sr_open_def sr_fuel_def)
next
  case None
  obtain x g' where nx: "rg_next_range ctx (sr_generator sr) = (x, g')" by force
  from rg_next_range_stream[OF assms(1) nx] show ?thesis
  proof
    assume "rg_size (sr_generator sr) = Some 0 \<and> x = None \<and> g' = sr_generator sr"
    with None nx assms show ?thesis
      by (auto simp: sr_open_def rg_next_reader_def sr_left_def sr_fuel_def sr_ok_def)
  next
    assume x: "rg_size (sr_generator sr) \<noteq> Some 0 \<and>
      x = Some (BytesRange (rg_offset (sr_generator sr)) (rg_size (sr_generator sr))) \<and> rg_size g' = Some 0"
    let ?rng = "BytesRange (rg_offset (sr_generator sr)) (rg_size (sr_generator sr))"
    obtain q s' where op: "rop_open ops path (ord_with_range ?rng (rc_args ctx)) s = (q, s')" by force
    from assms(2,5) None nx x op obtain rp r where q: "q = Ok (rp, r)" "s1 = s'" "ctx1 = rc_observe rp ctx"
      "sr1 = sr\<lparr>sr_generator := g', sr_reader := Some r\<rparr>"
      by (cases q) (auto simp: sr_open_def rg_next_reader_def)
    from open_ok[OF assms(3)] op q(1) have "sinv s'" "rinv r" "rest r = requested ?rng content" by auto
    with q x None show ?thesis by (simp add: sr_left_def sr_fuel_def sr_ok_def)
  qed
qed

text \<open>\<open>StreamingReader::read\<close> always returns; a successful one returns the next bytes.\<close>

lemma sr_read_step:
  "orr_chunk (rc_options ctx) = None \<Longrightarrow> rc_path ctx = path \<Longrightarrow> sinv s \<Longrightarrow> sr_ok rinv sr \<Longrightarrow>
   \<exists>x sr' ctx' s'. sr_read ops ctx sr s = Some (x, sr', ctx', s') \<and>
     (\<forall>b. x = Ok b \<longrightarrow> sinv s' \<and> sr_ok rinv sr' \<and> same_context ctx ctx' \<and> buffer_ok b \<and>
       sr_left rest content sr = buffer_view b @ sr_left rest content sr' \<and>
       (buffer_view b = [] \<longrightarrow> sr_left rest content sr = []))"
proof (induction "sr_fuel sr" arbitrary: sr ctx s rule: less_induct)
  case less
  obtain y sr1 ctx1 s1 where op: "sr_open ops ctx sr s = (y, sr1, ctx1, s1)" by (metis prod_cases4)
  show ?case
  proof (cases y)
    case (Ok u)
    from sr_open_step[OF less.prems op[unfolded Ok]] have o1: "sinv s1" "sr_ok rinv sr1"
      "sr_left rest content sr1 = sr_left rest content sr" "same_context ctx ctx1"
      "sr_reader sr1 = None \<Longrightarrow> sr_left rest content sr = []"
      "sr_reader sr1 \<noteq> None \<Longrightarrow> sr_fuel (sr1\<lparr>sr_reader := None\<rparr>) < sr_fuel sr" by auto
    show ?thesis
    proof (cases "sr_reader sr1")
      case None
      with op Ok o1 show ?thesis by (simp add: sr_read.simps[of ops ctx sr s])
    next
      case (Some r)
      obtain z r' s2 where rd: "rop_read ops r s1 = (z, r', s2)" by (metis prod_cases3)
      show ?thesis
      proof (cases z)
        case z: (Ok b)
        from o1(2) Some have "rinv r" by (simp add: sr_ok_def)
        from read_ok[OF o1(1) this rd[unfolded z]] have b: "sinv s2" "rinv r'" "buffer_ok b"
          "rest r = buffer_view b @ rest r'" "buffer_view b = [] \<Longrightarrow> rest r = []" by auto
        show ?thesis
        proof (cases "buffer_is_empty b")
          case True
          then have e: "buffer_view b = []" using b(3) buffer_ok_len[of b] by (simp add: buffer_is_empty_def)
          let ?sr = "sr1\<lparr>sr_reader := None\<rparr>"
          have left: "sr_left rest content ?sr = sr_left rest content sr"
            using o1(3) b(5)[OF e] Some by (simp add: sr_left_def)
          have c1: "orr_chunk (rc_options ctx1) = None" "rc_path ctx1 = path"
            using o1(4) less.prems by (simp_all add: same_context_def)
          have "sr_read ops ctx sr s = sr_read ops ctx1 ?sr s2"
            using op Ok Some rd z True by (simp add: sr_read.simps[of ops ctx sr s])
          moreover have "sr_ok rinv ?sr" by (simp add: sr_ok_def)
          ultimately show ?thesis
            using less.hyps[OF o1(6) c1 b(1), OF _ \<open>sr_ok rinv ?sr\<close>] Some left
              same_context_trans[OF o1(4)] by fastforce
        next
          case False
          then have ne: "buffer_view b \<noteq> []" using b(3) buffer_ok_len[of b] by (simp add: buffer_is_empty_def)
          have "sr_left rest content sr = buffer_view b @ sr_left rest content (sr1\<lparr>sr_reader := Some r'\<rparr>)"
            using o1(3)[symmetric] b(4) Some by (simp add: sr_left_def)
          with op Ok Some rd z False b o1 ne show ?thesis
            by (simp add: sr_read.simps[of ops ctx sr s] sr_ok_def)
        qed
      qed (use op Ok Some rd in \<open>simp_all add: sr_read.simps[of ops ctx sr s]\<close>)
    qed
  qed (use op in \<open>simp_all add: sr_read.simps[of ops ctx sr s]\<close>)
qed

end

context reliable_reader
begin

lemma sr_open_reliable:
  assumes "orr_chunk (rc_options ctx) = None" "rc_path ctx = path" "sinv s" "sr_good good rgood (rc_args ctx) sr"
  shows "\<exists>sr1 ctx1 s1. sr_open ops ctx sr s = (Ok (), sr1, ctx1, s1) \<and> sr_good good rgood (rc_args ctx) sr1"
proof (cases "sr_reader sr")
  case None
  obtain x g' where nx: "rg_next_range ctx (sr_generator sr) = (x, g')" by force
  from rg_next_range_stream[OF assms(1) nx] show ?thesis
  proof
    assume "rg_size (sr_generator sr) = Some 0 \<and> x = None \<and> g' = sr_generator sr"
    with None nx assms(4) show ?thesis by (simp add: sr_open_def rg_next_reader_def sr_good_def)
  next
    assume x: "rg_size (sr_generator sr) \<noteq> Some 0 \<and>
      x = Some (BytesRange (rg_offset (sr_generator sr)) (rg_size (sr_generator sr))) \<and> rg_size g' = Some 0"
    let ?args = "ord_with_range (BytesRange (rg_offset (sr_generator sr)) (rg_size (sr_generator sr))) (rc_args ctx)"
    from x assms(4) have "good ?args" by (simp add: sr_good_def)
    from open_total[OF assms(3) this] obtain rp r s' where
      "rop_open ops path ?args s = (Ok (rp, r), s')" "rgood r" by blast
    with None nx x assms(2) show ?thesis by (simp add: sr_open_def rg_next_reader_def sr_good_def)
  qed
qed (use assms(4) in \<open>simp add: sr_open_def\<close>)

lemma sr_read_reliable:
  "orr_chunk (rc_options ctx) = None \<Longrightarrow> rc_path ctx = path \<Longrightarrow> sinv s \<Longrightarrow> sr_ok rinv sr \<Longrightarrow>
   sr_good good rgood (rc_args ctx) sr \<Longrightarrow>
   \<exists>b sr' ctx' s'. sr_read ops ctx sr s = Some (Ok b, sr', ctx', s') \<and> sr_good good rgood (rc_args ctx) sr'"
proof (induction "sr_fuel sr" arbitrary: sr ctx s rule: less_induct)
  case less
  from sr_open_reliable[OF less.prems(1,2,3,5)] obtain sr1 ctx1 s1 where
    op: "sr_open ops ctx sr s = (Ok (), sr1, ctx1, s1)" and g1: "sr_good good rgood (rc_args ctx) sr1" by blast
  from sr_open_step[OF less.prems(1-4) op] have o1: "sinv s1" "sr_ok rinv sr1" "same_context ctx ctx1"
    "sr_reader sr1 \<noteq> None \<Longrightarrow> sr_fuel (sr1\<lparr>sr_reader := None\<rparr>) < sr_fuel sr" by auto
  show ?case
  proof (cases "sr_reader sr1")
    case None
    with op g1 show ?thesis by (simp add: sr_read.simps[of ops ctx sr s])
  next
    case (Some r)
    then have r: "rinv r" "rgood r" using o1(2) g1 by (simp_all add: sr_ok_def sr_good_def)
    from read_total[OF o1(1) r] obtain b r' s2 where
      rd: "rop_read ops r s1 = (Ok b, r', s2)" "rgood r'" by blast
    have s2: "sinv s2" using read_ok[OF o1(1) r(1) rd(1)] by simp
    have c1: "orr_chunk (rc_options ctx1) = None" "rc_path ctx1 = path" "rc_args ctx1 = rc_args ctx"
      using o1(3) less.prems by (simp_all add: same_context_def)
    have "sr_ok rinv (sr1\<lparr>sr_reader := None\<rparr>)" "sr_good good rgood (rc_args ctx1) (sr1\<lparr>sr_reader := None\<rparr>)"
      using g1 c1(3) by (simp_all add: sr_ok_def sr_good_def)
    from less.hyps[OF o1(4) c1(1,2) s2 this] Some op rd g1 c1(3) show ?thesis
      by (cases "buffer_is_empty b") (simp_all add: sr_read.simps[of ops ctx sr s] sr_good_def)
  qed
qed

end

section \<open>Streams\<close>

text \<open>
  \<open>stream_inv \<dots> st s l\<close>: the stream \<open>st\<close> has exactly the bytes \<open>l\<close> left to return.
\<close>

definition stream_inv ::
  "str \<Rightarrow> bytes \<Rightarrow> ('s \<Rightarrow> bool) \<Rightarrow> ('r \<Rightarrow> bool) \<Rightarrow> ('r \<Rightarrow> bytes) \<Rightarrow> 'r buffer_stream \<Rightarrow> 's \<Rightarrow> bytes \<Rightarrow> bool" where
  "stream_inv path content sinv rinv rest st s l \<longleftrightarrow>
     sinv s \<and> rc_path (bst_ctx st) = path \<and>
     (case bst_reader st of
        One v \<Rightarrow> orr_chunk (rc_options (bst_ctx st)) = None \<and> sr_ok rinv v \<and> l = sr_left rest content v
      | Two v \<Rightarrow> \<exists>ch c p off n. orr_chunk (rc_options (bst_ctx st)) = Some ch \<and> (of_nat ch :: u64) \<noteq> 0 \<and>
          0 < c \<and> cr_inv content (of_nat ch) c p v off n \<and> l = requested (BytesRange off (Some n)) content)"

lemma stream_inv_TwoI:
  "sinv s \<Longrightarrow> rc_path (bst_ctx st) = path \<Longrightarrow> bst_reader st = Two v \<Longrightarrow>
   orr_chunk (rc_options (bst_ctx st)) = Some ch \<Longrightarrow> (of_nat ch :: u64) \<noteq> 0 \<Longrightarrow> 0 < c \<Longrightarrow>
   cr_inv content (of_nat ch) c p v off n \<Longrightarrow> l = requested (BytesRange off (Some n)) content \<Longrightarrow>
   stream_inv path content sinv rinv rest st s l"
  unfolding stream_inv_def by (simp del: requested_simps) blast

definition stream_healthy :: "(op_read \<Rightarrow> bool) \<Rightarrow> ('r \<Rightarrow> bool) \<Rightarrow> 'r buffer_stream \<Rightarrow> bool" where
  "stream_healthy good rgood st \<longleftrightarrow>
     (case bst_reader st of
        One v \<Rightarrow> sr_good good rgood (rc_args (bst_ctx st)) v
      | Two v \<Rightarrow> \<forall>ch. orr_chunk (rc_options (bst_ctx st)) = Some ch \<longrightarrow>
          cr_good (\<lambda>r. good (ord_with_range r (rc_args (bst_ctx st)))) (of_nat ch) v)"

context object_reader
begin

lemma bst_read_step:
  assumes "stream_inv path content sinv rinv rest st s l" "run_ok (fresh_answer content) (ce_run env)"
  shows "\<exists>x st' s'. bst_read ops env st s = Some (x, st', s') \<and>
    (\<forall>b. x = Ok b \<longrightarrow> buffer_ok b \<and>
      (\<exists>l'. stream_inv path content sinv rinv rest st' s' l' \<and> l = buffer_view b @ l' \<and>
        (buffer_view b = [] \<longrightarrow> l = [])))"
proof (cases "bst_reader st")
  case (One v)
  with assms(1) have v: "orr_chunk (rc_options (bst_ctx st)) = None" "rc_path (bst_ctx st) = path" "sinv s"
    "sr_ok rinv v" "l = sr_left rest content v" by (simp_all add: stream_inv_def)
  from sr_read_step[OF v(1-4)] obtain x v' ctx' s' where
    rd: "sr_read ops (bst_ctx st) v s = Some (x, v', ctx', s')"
      "\<forall>b. x = Ok b \<longrightarrow> sinv s' \<and> sr_ok rinv v' \<and> same_context (bst_ctx st) ctx' \<and> buffer_ok b \<and>
       sr_left rest content v = buffer_view b @ sr_left rest content v' \<and>
       (buffer_view b = [] \<longrightarrow> sr_left rest content v = [])" by blast
  with One v show ?thesis
    by (auto simp: bst_read_def stream_inv_def same_context_def)
next
  case (Two v)
  with assms(1) obtain ch c p off n where v: "orr_chunk (rc_options (bst_ctx st)) = Some ch"
    "(of_nat ch :: u64) \<noteq> 0" "0 < c" "cr_inv content (of_nat ch) c p v off n" "sinv s" "rc_path (bst_ctx st) = path"
    "l = requested (BytesRange off (Some n)) content" by (auto simp: stream_inv_def)
  obtain x v' where rd: "cr_read env (bst_ctx st) v = (x, v')" by force
  note step = cr_read_step[OF v(3) refl v(2,4) assms(2) v(1) rd]
  have "\<exists>l'. stream_inv path content sinv rinv rest (st\<lparr>bst_reader := Two v'\<rparr>) s l' \<and> l = buffer_view b @ l' \<and>
      (buffer_view b = [] \<longrightarrow> l = [])" if "cr_step content (of_nat ch) c p off n b v'" for b
  proof -
    from that obtain off' n' where "cr_inv content (of_nat ch) c p v' off' n'"
      "l = buffer_view b @ requested (BytesRange off' (Some n')) content" "buffer_view b = [] \<longrightarrow> l = []"
      unfolding cr_step_def v(7) by blast
    moreover from this(1) have "stream_inv path content sinv rinv rest (st\<lparr>bst_reader := Two v'\<rparr>) s
        (requested (BytesRange off' (Some n')) content)"
      using v by (intro stream_inv_TwoI[where v = v' and ch = ch and c = c and p = p]) simp_all
    ultimately show ?thesis by blast
  qed
  with step rd Two show ?thesis by (auto simp: bst_read_def cr_step_def)
qed

lemma bst_collect_exact:
  "stream_inv path content sinv rinv rest st s l \<Longrightarrow> run_ok (fresh_answer content) (ce_run env) \<Longrightarrow>
   \<forall>b\<in>set acc. buffer_ok b \<Longrightarrow>
   \<exists>x st' s'. bst_collect ops env acc st s = Some (x, st', s') \<and>
     (\<forall>bufs. x = Ok bufs \<longrightarrow> (\<forall>b\<in>set bufs. buffer_ok b) \<and>
       concat (map buffer_view bufs) = concat (map buffer_view acc) @ l)"
proof (induction "length l" arbitrary: l st s acc rule: less_induct)
  case less
  from bst_read_step[OF less.prems(1,2)] obtain x st' s' where rd: "bst_read ops env st s = Some (x, st', s')"
    and step: "\<And>b. x = Ok b \<Longrightarrow> buffer_ok b \<and> (\<exists>l'. stream_inv path content sinv rinv rest st' s' l' \<and>
      l = buffer_view b @ l' \<and> (buffer_view b = [] \<longrightarrow> l = []))" by blast
  show ?case
  proof (cases x)
    case (Ok b)
    from step[OF Ok] obtain l' where b: "buffer_ok b" "stream_inv path content sinv rinv rest st' s' l'"
      "l = buffer_view b @ l'" "buffer_view b = [] \<Longrightarrow> l = []" by blast
    have emp: "buffer_is_empty b \<longleftrightarrow> buffer_view b = []"
      using buffer_ok_len[OF b(1)] by (simp add: buffer_is_empty_def)
    show ?thesis
    proof (cases "buffer_is_empty b")
      case True
      with rd Ok b emp less.prems(3) show ?thesis
        by (simp add: bst_collect.simps[of ops env acc st s] bst_poll_next_def stream_item_def)
    next
      case False
      then have "length l' < length l" using b(3) emp by simp
      from less.hyps[OF this b(2) less.prems(2), of "acc @ [b]"] less.prems(3) b(1,3) rd Ok False show ?thesis
        by (auto simp: bst_collect.simps[of ops env acc st s] bst_poll_next_def stream_item_def)
    qed
  qed (use rd in \<open>simp_all add: bst_collect.simps[of ops env acc st s] bst_poll_next_def stream_item_def\<close>)
qed

end

text \<open>The options under which a reader reads an object of the given length.\<close>

definition reader_ready :: "str \<Rightarrow> bytes \<Rightarrow> read_context \<Rightarrow> bool" where
  "reader_ready path content ctx \<longleftrightarrow>
     rc_path ctx = path \<and> 0 < orr_concurrent (rc_options ctx) \<and>
     (\<forall>ch. orr_chunk (rc_options ctx) = Some ch \<longrightarrow> 0 < ch \<and> ch \<le> usize_max) \<and>
     (\<forall>h. orr_content_length_hint (rc_options ctx) = Some h \<longrightarrow> h = of_nat (length content))"

lemma of_nat_chunk: "0 < ch \<Longrightarrow> ch \<le> usize_max \<Longrightarrow> (of_nat ch :: u64) \<noteq> 0"
  by (auto simp: usize_max_def unat_eq_zero[symmetric] unsigned_of_nat take_bit_nat_eq_self
      simp del: unat_eq_zero)

lemma unat_of_nat_u64: "n < 2 ^ 64 \<Longrightarrow> unat (of_nat n :: u64) = n"
  by (simp add: unsigned_of_nat take_bit_nat_eq_self)

lemma saturating_sub_no_overflow: "unat (a :: u64) + unat (saturating_sub_u64 b a) < 2 ^ 64"
  using unat_lt_u64[of a] unat_lt_u64[of b] by (auto simp: unat_saturating_sub_u64)

lemma br_from_range [simp]:
  "br_from_bounds (Included a) (Excluded b) = BytesRange a (Some (saturating_sub_u64 b a))"
  by (simp add: br_from_bounds_def)

text \<open>The range a chunked reader works on asks for the same bytes as the bounds it was given.\<close>

lemma parse_into_range_bounds:
  assumes "parse_into_range ops ctx lo hi s = (Ok (a, b), s')"
    "\<forall>h. orr_content_length_hint (rc_options ctx) = Some h \<longrightarrow> h = of_nat (length content)"
    "\<forall>sargs m s1. rop_stat ops (rc_path ctx) sargs s = (Ok m, s1) \<longrightarrow>
       metadata_content_length m = of_nat (length content)"
  shows "br_offset (br_from_bounds lo hi) = a"
    "br_size (br_from_bounds lo hi) = Some (saturating_sub_u64 b a) \<or>
     br_size (br_from_bounds lo hi) = None \<and> b = of_nat (length content)"
proof -
  from assms(1) have a: "parse_start lo = Ok a"
    by (auto simp: parse_into_range_def split: res.splits bound.splits option.splits prod.splits)
      (auto simp: Let_def split: prod.splits elim!: bind_res.elims)
  then show off: "br_offset (br_from_bounds lo hi) = a"
    by (cases lo) (auto simp: parse_start_def br_from_bounds_offset saturating_add_u64_def checked_add_u64_def
        split: if_splits option.splits)
  show "br_size (br_from_bounds lo hi) = Some (saturating_sub_u64 b a) \<or>
     br_size (br_from_bounds lo hi) = None \<and> b = of_nat (length content)"
  proof (cases hi)
    case (Included v)
    with assms(1) a have "checked_add_u64 v 1 = Some b"
      by (auto simp: parse_into_range_def split: option.splits)
    then have "b = saturating_add_u64 v 1"
      by (auto simp: checked_add_u64_def saturating_add_u64_def split: if_splits)
    then show ?thesis using off Included br_from_bounds_size[of lo hi] by simp
  next
    case (Excluded v)
    with assms(1) a have "b = v" by (auto simp: parse_into_range_def)
    then show ?thesis using off Excluded br_from_bounds_size[of lo hi] by simp
  next
    case Unbounded
    have "b = of_nat (length content)"
    proof (cases "orr_content_length_hint (rc_options ctx)")
      case None
      with assms(1) a Unbounded assms(3) show ?thesis
        by (auto simp: parse_into_range_def Let_def split: prod.splits elim!: bind_res.elims)
    next
      case (Some h)
      with assms(1,2) a Unbounded show ?thesis by (auto simp: parse_into_range_def)
    qed
    then show ?thesis using Unbounded br_from_bounds_size[of lo hi] by simp
  qed
qed

lemma parse_into_range_requested:
  assumes "parse_into_range ops ctx lo hi s = (Ok (a, b), s')" "length content < 2 ^ 64"
    "\<forall>h. orr_content_length_hint (rc_options ctx) = Some h \<longrightarrow> h = of_nat (length content)"
    "\<forall>sargs m s1. rop_stat ops (rc_path ctx) sargs s = (Ok m, s1) \<longrightarrow>
       metadata_content_length m = of_nat (length content)"
  shows "requested (BytesRange a (Some (saturating_sub_u64 b a))) content = requested (br_from_bounds lo hi) content"
proof -
  note b = parse_into_range_bounds[OF assms(1,3,4)]
  from b(2) show ?thesis
  proof
    assume n: "br_size (br_from_bounds lo hi) = None \<and> b = of_nat (length content)"
    then have "unat b = length content" using assms(2) by (simp add: unat_of_nat_u64)
    with n b(1) show ?thesis by (simp add: requested_def unat_saturating_sub_u64)
  qed (use b(1) in \<open>simp add: requested_def\<close>)
qed

text \<open>The parts of a range within an object, which the chunks ask for one by one.\<close>

definition range_part :: "bytes \<Rightarrow> bytes_range \<Rightarrow> bytes_range \<Rightarrow> bool" where
  "range_part content rng r \<longleftrightarrow>
     (\<exists>off n. r = BytesRange off (Some n) \<and> n \<noteq> 0 \<and> br_offset rng \<le> off \<and>
        unat off + unat n \<le>
          (case br_size rng of Some m \<Rightarrow> unat (br_offset rng) + unat m | None \<Rightarrow> length content))"

lemma chunk_ranges_part:
  "unat off + unat n < 2 ^ 64 \<Longrightarrow> r \<in> set (chunk_ranges k off n) \<Longrightarrow>
   \<exists>o' m. r = BytesRange o' (Some m) \<and> m \<noteq> 0 \<and> off \<le> o' \<and> unat o' + unat m \<le> unat off + unat n"
proof (induction k off n rule: chunk_ranges.induct)
  case (1 k off n)
  have nz: "k \<noteq> 0" "n \<noteq> 0" using 1(3) by (auto simp: chunk_ranges.simps[of k off n] split: if_splits)
  let ?m = "min n k"
  have m: "?m \<le> n" "?m \<noteq> 0" "unat ?m \<le> unat n" using nz by (auto simp: min_def word_le_nat_alt)
  have om: "unat (off + ?m) = unat off + unat ?m" using 1(2) m(3) by (simp add: unat_word_ariths)
  have nm: "unat (n - ?m) = unat n - unat ?m" using m(1) by (rule unat_sub_u64)
  from 1(3) nz consider "r = BytesRange off (Some ?m)" | "r \<in> set (chunk_ranges k (off + ?m) (n - ?m))"
    by (auto simp: chunk_ranges.simps[of k off n])
  then show ?case
  proof cases
    case 1
    with m show ?thesis by simp
  next
    case 2
    have "unat (off + ?m) + unat (n - ?m) = unat off + unat n" using om nm m(3) by simp
    with 1(1)[OF _ _ 2] 1(2) nz obtain o' q where
      "r = BytesRange o' (Some q)" "q \<noteq> 0" "off + ?m \<le> o'" "unat o' + unat q \<le> unat off + unat n" by auto
    moreover have "off \<le> off + ?m" using om by (simp add: word_le_nat_alt)
    ultimately show ?thesis by (intro exI[of _ o'] exI[of _ q]) auto
  qed
qed

context object_reader
begin

lemma bst_create_inv:
  assumes "reader_ready path content ctx" "sinv s" "bst_create ops ctx lo hi s = (Ok st, s')"
  shows "stream_inv path content sinv rinv rest st s' (requested (br_from_bounds lo hi) content) \<and> bst_ctx st = ctx \<and>
    (good (ord_with_range (br_from_bounds lo hi) (rc_args ctx)) \<longrightarrow>
     (\<forall>r. range_part content (br_from_bounds lo hi) r \<longrightarrow> good (ord_with_range r (rc_args ctx))) \<longrightarrow>
      stream_healthy good rgood st)"
proof (cases "orr_chunk (rc_options ctx)")
  case None
  with assms show ?thesis
    by (auto simp: bst_create_def stream_inv_def reader_ready_def sr_ok_def sr_new_def sr_left_def rg_new_def
        stream_healthy_def sr_good_def)
next
  case (Some ch)
  obtain r s1 where pr: "parse_into_range ops ctx lo hi s = (r, s1)" by force
  with assms(3) Some obtain a b where ab: "r = Ok (a, b)" "s1 = s'"
    "st = \<lparr>bst_ctx = ctx, bst_reader = Two (cr_new ctx (BytesRange a (Some (saturating_sub_u64 b a))))\<rparr>"
    by (cases r) (auto simp: bst_create_def)
  let ?n = "saturating_sub_u64 b a"
  have ready: "rc_path ctx = path" "0 < orr_concurrent (rc_options ctx)" "(of_nat ch :: u64) \<noteq> 0"
    "\<forall>h. orr_content_length_hint (rc_options ctx) = Some h \<longrightarrow> h = of_nat (length content)"
    using assms(1) Some of_nat_chunk[of ch] by (auto simp: reader_ready_def)
  have stat: "\<forall>sargs m s1. rop_stat ops (rc_path ctx) sargs s = (Ok m, s1) \<longrightarrow>
      metadata_content_length m = of_nat (length content)"
    using stat_ok[OF assms(2)] ready(1) by blast
  have "requested (br_from_bounds lo hi) content = requested (BytesRange a (Some ?n)) content"
    using parse_into_range_requested[OF pr[unfolded ab] content_len[OF assms(2)] ready(4) stat, symmetric] .
  moreover have "sinv s'"
    using pr ab assms(2) stat_ok[OF assms(2)] ready(1)
    by (auto simp: parse_into_range_def Let_def split: res.splits bound.splits option.splits prod.splits
        elim!: bind_res.elims)
  moreover have "cr_inv content (of_nat ch) (orr_concurrent (rc_options ctx)) (orr_prefetch (rc_options ctx))
      (cr_new ctx (BytesRange a (Some ?n))) a ?n"
    using cr_inv_new[of "BytesRange a (Some ?n)" ?n] saturating_sub_no_overflow[of a b] by simp
  ultimately have "stream_inv path content sinv rinv rest st s' (requested (br_from_bounds lo hi) content)"
    using ready Some ab(3) by (intro stream_inv_TwoI[OF _ _ _ _ ready(3,2)]) (simp_all del: requested_simps)
  moreover have "range_part content (br_from_bounds lo hi) r" if r: "r \<in> set (chunk_ranges (of_nat ch) a ?n)" for r
  proof -
    from chunk_ranges_part[OF saturating_sub_no_overflow r] obtain o' m where
      m: "r = BytesRange o' (Some m)" "m \<noteq> 0" "a \<le> o'" "unat o' + unat m \<le> unat a + unat ?n" by blast
    note bd = parse_into_range_bounds[OF pr[unfolded ab] ready(4) stat]
    have "unat a + unat ?n \<le> length content" if "b = of_nat (length content)" "?n \<noteq> 0"
      using that content_len[OF assms(2)] by (auto simp: unat_saturating_sub_u64 unat_of_nat_u64 unat_eq_zero[symmetric] simp del: unat_eq_zero)
    moreover have "?n \<noteq> 0" using r by auto
    ultimately show ?thesis using m bd by (auto simp: range_part_def)
  qed
  then have "(\<forall>r. range_part content (br_from_bounds lo hi) r \<longrightarrow> good (ord_with_range r (rc_args ctx))) \<longrightarrow>
      stream_healthy good rgood st"
    using ab(3) Some by (auto simp: stream_healthy_def cr_new_def ct_healthy_def cr_good_def ct_new_def)
  ultimately show ?thesis using ab(3) by simp
qed

lemma reader_read_spec:
  assumes "reader_ready path content ctx" "sinv s" "chunked_runs ops ctx sinv env"
  shows "\<exists>x s'. reader_read ops env ctx lo hi s = Some (x, s') \<and>
    (\<forall>b. x = Ok b \<longrightarrow> buffer_ok b \<and> buffer_view b = requested (br_from_bounds lo hi) content)"
proof -
  obtain q s1 where cr: "bst_create ops ctx lo hi s = (q, s1)" by force
  show ?thesis
  proof (cases q)
    case (Ok st)
    from bst_create_inv[OF assms(1,2) cr[unfolded Ok]]
    have inv: "stream_inv path content sinv rinv rest st s1 (requested (br_from_bounds lo hi) content)" by simp
    have "rc_path ctx = path" using assms(1) by (simp add: reader_ready_def)
    from bst_collect_exact[OF inv chunked_runs_exact[OF assms(3) this], of "[]"] obtain x st' s' where
      c: "bst_collect ops env [] st s1 = Some (x, st', s')"
        "\<And>bufs. x = Ok bufs \<Longrightarrow> (\<forall>b\<in>set bufs. buffer_ok b) \<and>
           concat (map buffer_view bufs) = requested (br_from_bounds lo hi) content" by auto
    have "\<exists>b. flatten_collect bufs = Ok b \<and> buffer_ok b \<and> buffer_view b = requested (br_from_bounds lo hi) content"
      if "x = Ok bufs" for bufs
      using c(2)[OF that] flatten_collect_ok[of bufs] by simp
    with c(1) cr Ok show ?thesis
      by (cases x) (auto simp: reader_read_def)
  qed (use cr in \<open>simp_all add: reader_read_def\<close>)
qed

end

context reliable_reader
begin

lemma bst_read_reliable:
  assumes "stream_inv path content sinv rinv rest st s l" "run_ok (fresh_answer content) (ce_run env)"
    "run_good (\<lambda>r. good (ord_with_range r (rc_args (bst_ctx st)))) env" "stream_healthy good rgood st"
  shows "\<exists>b st' s'. bst_read ops env st s = Some (Ok b, st', s') \<and> stream_healthy good rgood st' \<and>
    rc_args (bst_ctx st') = rc_args (bst_ctx st)"
proof (cases "bst_reader st")
  case (One v)
  with assms(1,4) have v: "orr_chunk (rc_options (bst_ctx st)) = None" "rc_path (bst_ctx st) = path" "sinv s"
    "sr_ok rinv v" "sr_good good rgood (rc_args (bst_ctx st)) v"
    by (simp_all add: stream_inv_def stream_healthy_def)
  from sr_read_reliable[OF v] obtain b v' ctx' s' where
    rd: "sr_read ops (bst_ctx st) v s = Some (Ok b, v', ctx', s')" "sr_good good rgood (rc_args (bst_ctx st)) v'"
    by blast
  from sr_read_step[OF v(1-4)] rd(1) have "same_context (bst_ctx st) ctx'" by auto
  with One rd show ?thesis by (auto simp: bst_read_def stream_healthy_def same_context_def)
next
  case (Two v)
  with assms(1) obtain ch c p off n where v: "orr_chunk (rc_options (bst_ctx st)) = Some ch"
    "(of_nat ch :: u64) \<noteq> 0" "0 < c" "cr_inv content (of_nat ch) c p v off n" by (auto simp: stream_inv_def)
  obtain x v' where rd: "cr_read env (bst_ctx st) v = (x, v')" by force
  from cr_read_healthy[OF v(3) refl v(2,4) assms(2,3) v(1) _ rd] assms(4) Two rd v(1) show ?thesis
    by (auto simp: bst_read_def stream_healthy_def)
qed

lemma bst_collect_reliable:
  "stream_inv path content sinv rinv rest st s l \<Longrightarrow> run_ok (fresh_answer content) (ce_run env) \<Longrightarrow>
   run_good (\<lambda>r. good (ord_with_range r (rc_args (bst_ctx st)))) env \<Longrightarrow> stream_healthy good rgood st \<Longrightarrow>
   \<exists>bufs st' s'. bst_collect ops env acc st s = Some (Ok bufs, st', s')"
proof (induction "length l" arbitrary: l st s acc rule: less_induct)
  case less
  from bst_read_reliable[OF less.prems] obtain b st' s' where
    rd: "bst_read ops env st s = Some (Ok b, st', s')" "stream_healthy good rgood st'"
      "rc_args (bst_ctx st') = rc_args (bst_ctx st)" by blast
  from bst_read_step[OF less.prems(1,2)] rd(1) obtain l' where
    b: "buffer_ok b" "stream_inv path content sinv rinv rest st' s' l'" "l = buffer_view b @ l'"
    by auto
  show ?case
  proof (cases "buffer_is_empty b")
    case True
    with rd show ?thesis
      by (simp add: bst_collect.simps[of ops env acc st s] bst_poll_next_def stream_item_def)
  next
    case False
    then have "length l' < length l" using b(3) buffer_ok_len[OF b(1)] by (simp add: buffer_is_empty_def)
    from less.hyps[OF this b(2) less.prems(2) _ rd(2), of "acc @ [b]"] less.prems(3) rd(1,3) False show ?thesis
      by (simp add: bst_collect.simps[of ops env acc st s] bst_poll_next_def stream_item_def)
  qed
qed

lemma bst_create_reliable:
  assumes "rc_path ctx = path" "sinv s"
    "orr_chunk (rc_options ctx) = None \<or> lo \<noteq> Excluded u64_max \<and> hi \<noteq> Included u64_max"
    "good (ord_with_range rng (rc_args ctx))"
  shows "\<exists>st s'. bst_create ops ctx lo hi s = (Ok st, s')"
proof (cases "orr_chunk (rc_options ctx)")
  case None
  then show ?thesis by (simp add: bst_create_def)
next
  case (Some ch)
  have add: "\<exists>y. checked_add_u64 v 1 = Some y" if "v \<noteq> u64_max" for v
  proof -
    have "unat v \<noteq> 2 ^ 64 - 1" using that unat_u64_max by (metis word_unat_eq_iff)
    then show ?thesis using unat_lt_u64[of v] by (simp add: checked_add_u64_def)
  qed
  from Some assms(3) add have lo: "\<exists>a. parse_start lo = Ok a"
    by (cases lo) (fastforce simp: parse_start_def)+
  have "\<exists>ab s'. parse_into_range ops ctx lo hi s = (Ok ab, s')"
  proof (cases hi)
    case (Included v)
    with Some assms(3) add[of v] lo show ?thesis by (auto simp: parse_into_range_def)
  next
    case (Excluded v)
    with lo show ?thesis by (auto simp: parse_into_range_def)
  next
    case Unbounded
    have "reader_stat_op (ord_with_range rng (rc_args ctx)) = reader_stat_op (rc_args ctx)"
      by (simp add: reader_stat_op_def ord_with_range_def)
    with stat_total[OF assms(2,4)] Unbounded lo assms(1) show ?thesis
      by (cases "orr_content_length_hint (rc_options ctx)") (auto simp: parse_into_range_def Let_def)
  qed
  with Some show ?thesis by (auto simp: bst_create_def)
qed

lemma reader_read_total:
  assumes "reader_ready path content ctx" "sinv s" "chunked_runs ops ctx sinv env"
    "orr_chunk (rc_options ctx) = None \<or> lo \<noteq> Excluded u64_max \<and> hi \<noteq> Included u64_max"
    "good (ord_with_range (br_from_bounds lo hi) (rc_args ctx))"
    "\<forall>r. range_part content (br_from_bounds lo hi) r \<longrightarrow> good (ord_with_range r (rc_args ctx))"
  shows "\<exists>b s'. reader_read ops env ctx lo hi s = Some (Ok b, s')"
proof -
  from bst_create_reliable[OF _ assms(2,4,5)] assms(1) obtain st s1 where
    cr: "bst_create ops ctx lo hi s = (Ok st, s1)" by (auto simp: reader_ready_def)
  have path: "rc_path ctx = path" using assms(1) by (simp add: reader_ready_def)
  note runs = chunked_runs_exact[OF assms(3) path] chunked_runs_total[OF assms(3) path]
  note st = bst_create_inv[OF assms(1,2) cr, of good rgood]
  then have s1: "stream_inv path content sinv rinv rest st s1 (requested (br_from_bounds lo hi) content)"
    "bst_ctx st = ctx" "stream_healthy good rgood st" using assms(5,6) by blast+
  from bst_collect_reliable[OF s1(1) runs(1) runs(2)[folded s1(2)] s1(3), of "[]"]
  obtain bufs st' s' where c: "bst_collect ops env [] st s1 = Some (Ok bufs, st', s')" by blast
  from st bst_collect_exact[of st s1 _ env "[]"] runs(1) c have "\<forall>b\<in>set bufs. buffer_ok b" by fastforce
  from flatten_collect_ok[OF this] cr c show ?thesis by (auto simp: reader_read_def)
qed

end

section \<open>Fetching several ranges\<close>

text \<open>
  In the list \<open>merge_loop\<close> returns, the last range that starts at or before a requested one
  contains it.
\<close>

definition covered_by :: "u64 \<times> u64 \<Rightarrow> (u64 \<times> u64) list \<Rightarrow> bool" where
  "covered_by r merged \<longleftrightarrow>
     (\<exists>pre m post. merged = pre @ m # post \<and> (\<forall>v\<in>set pre. fst v \<le> fst r) \<and> fst m \<le> fst r \<and>
        snd r \<le> snd m \<and> (\<forall>v\<in>set post. fst r < fst v))"

lemma covered_by_Cons: "covered_by r ms \<Longrightarrow> fst m \<le> fst r \<Longrightarrow> covered_by r (m # ms)"
  unfolding covered_by_def by (metis (no_types, lifting) append_Cons set_ConsD)

definition range_fits :: "u64 \<Rightarrow> u64 \<times> u64 \<Rightarrow> bool" where
  "range_fits gap r \<longleftrightarrow> fst r \<le> snd r \<and> unat (snd r) + unat gap < 2 ^ 64"

lemma range_fits_gap: "range_fits gap r \<Longrightarrow> x \<le> snd r + gap \<longleftrightarrow> unat x \<le> unat (snd r) + unat gap"
  by (simp add: range_fits_def word_le_nat_alt unat_word_ariths)

lemma merge_loop_starts:
  "v \<in> set (merge_loop gap cur rs) \<Longrightarrow> fst v = fst cur \<or> (\<exists>r\<in>set rs. fst v = fst r)"
  by (induction gap cur rs rule: merge_loop.induct) (auto split: if_splits)

lemma merge_loop_covers:
  assumes "sorted (map fst (cur # rs))" "\<forall>r\<in>set (cur # rs). range_fits gap r"
    "r \<in> set rs \<or> fst cur \<le> fst r \<and> snd r \<le> snd cur \<and> fst r \<le> snd r"
  shows "covered_by r (merge_loop gap cur rs)"
  using assms
proof (induction gap cur rs rule: merge_loop.induct)
  case (1 gap cur)
  then show ?case unfolding covered_by_def by (intro exI[of _ "[]"] exI[of _ cur]) auto
next
  case (2 gap cur rng rs)
  have fits: "range_fits gap cur" "range_fits gap rng" using 2(4) by auto
  show ?case
  proof (cases "fst rng \<le> snd cur + gap")
    case True
    let ?cur = "(fst cur, max (snd cur) (snd rng))"
    have "range_fits gap ?cur" using fits 2(3) by (auto simp: range_fits_def max_def)
    then have "covered_by r (merge_loop gap ?cur rs)"
      using True 2(1,3,4,5) fits by (auto simp: range_fits_def le_max_iff_disj)
    with True show ?thesis by simp
  next
    case False
    show ?thesis
    proof (cases "r \<in> set (rng # rs)")
      case True
      then have "covered_by r (merge_loop gap rng rs)"
        using 2(2)[OF False] 2(3,4) by (auto simp: range_fits_def)
      moreover have "fst cur \<le> fst r" using True 2(3) by auto
      ultimately show ?thesis using False by (simp add: covered_by_Cons)
    next
      case other: False
      then have r: "fst cur \<le> fst r" "snd r \<le> snd cur" "fst r \<le> snd r" using 2(5) by auto
      have "snd cur < fst rng"
        using False fits(1) by (simp add: range_fits_gap word_less_nat_alt)
      moreover have "fst rng \<le> fst v" if "v \<in> set (merge_loop gap rng rs)" for v
        using merge_loop_starts[OF that] 2(3) by auto
      ultimately have "\<forall>v\<in>set (merge_loop gap rng rs). fst r < fst v" using r by force
      with r False show ?thesis unfolding covered_by_def
        by (intro exI[of _ "[]"] exI[of _ cur] exI[of _ "merge_loop gap rng rs"]) simp
    qed
  qed
qed

lemma merge_loop_fits:
  "\<forall>r\<in>set (cur # rs). fst r \<le> snd r \<and> unat (snd r) \<le> n \<Longrightarrow>
     m \<in> set (merge_loop gap cur rs) \<Longrightarrow> sorted (map fst (cur # rs)) \<Longrightarrow> fst m \<le> snd m \<and> unat (snd m) \<le> n"
proof (induction gap cur rs rule: merge_loop.induct)
  case (2 gap cur rng rs)
  then show ?case by (auto simp: max_def split: if_splits)
qed auto

definition slice_of :: "bytes \<Rightarrow> u64 \<times> u64 \<Rightarrow> bytes" where
  "slice_of content r = take (unat (snd r) - unat (fst r)) (drop (unat (fst r)) content)"

definition fetch_answer :: "bytes \<Rightarrow> u64 \<times> u64 \<Rightarrow> buffer \<Rightarrow> bool" where
  "fetch_answer content r b \<longleftrightarrow> buffer_ok b \<and> buffer_view b = slice_of content r"

lemma merge_ranges_some:
  assumes "ranges \<noteq> []" "\<forall>r\<in>set ranges. fst r \<le> snd r \<and> unat (snd r) \<le> n" "n + fetch_gap options < 2 ^ 64"
  shows "\<exists>merged. merge_ranges options ranges = Some merged \<and> (\<forall>r\<in>set ranges. covered_by r merged) \<and>
    (\<forall>m\<in>set merged. fst m \<le> snd m \<and> unat (snd m) \<le> n)"
proof -
  let ?gap = "of_nat (fetch_gap options) :: u64"
  have gap: "unat ?gap = fetch_gap options" using assms(3) by (simp add: unat_of_nat_u64)
  obtain cur rs where sk: "sort_key fst ranges = cur # rs"
    using assms(1) by (metis list.exhaust set_empty set_sort)
  have srt: "sorted (map fst (cur # rs))" using sorted_sort_key[of fst ranges] sk by simp
  have set: "set (cur # rs) = set ranges" using set_sort[of fst ranges] sk by simp
  have fits: "\<forall>r\<in>set (cur # rs). range_fits ?gap r"
    unfolding set using assms(2,3) gap by (fastforce simp: range_fits_def)
  have "covered_by r (merge_loop ?gap cur rs)" if "r \<in> set ranges" for r
  proof (rule merge_loop_covers[OF srt fits])
    show "r \<in> set rs \<or> fst cur \<le> fst r \<and> snd r \<le> snd cur \<and> fst r \<le> snd r"
      using that set assms(2) by (cases "r = cur") auto
  qed
  moreover have "fst m \<le> snd m \<and> unat (snd m) \<le> n" if "m \<in> set (merge_loop ?gap cur rs)" for m
    using merge_loop_fits[OF _ that srt, of n] assms(2) set by auto
  ultimately show ?thesis using sk by (simp add: merge_ranges_def)
qed

lemma fetch_submit_inv:
  "ct_inv R c p t is os \<Longrightarrow> run_ok R run \<Longrightarrow> fetch_submit run rs t = (r, t') \<Longrightarrow>
     r \<noteq> Panic \<and> (r = Ok () \<longrightarrow> ct_inv R c p t' (is @ rs) os)"
proof (induction run rs t arbitrary: "is" rule: fetch_submit.induct)
  case (2 run rng rs t)
  obtain q t1 where ex: "ct_execute run rng t = (q, t1)" by force
  note ei = ct_inv_execute[OF 2(2,3) ex]
  show ?case
  proof (cases q)
    case (Ok u)
    with ei have "ct_inv R c p t1 (is @ [rng]) os" by simp
    from 2(1)[OF ex[symmetric] Ok this 2(3)] 2(4) ex Ok show ?thesis by simp
  qed (use ei ex 2(4) in auto)
qed auto

lemma fetch_slice_exact:
  assumes "covered_by r merged" "list_all2 (fetch_answer content) merged bufs" "length content < 2 ^ 64"
    "\<forall>m\<in>set merged. fst m \<le> snd m \<and> unat (snd m) \<le> length content" "fst r \<le> snd r"
  shows "\<exists>b. fetch_slice merged bufs r = Some b \<and> buffer_view b = slice_of content r"
proof -
  from assms(1) obtain pre m post where m: "merged = pre @ m # post" "\<forall>v\<in>set pre. fst v \<le> fst r"
    "fst m \<le> fst r" "snd r \<le> snd m" "\<forall>v\<in>set post. fst r < fst v"
    unfolding covered_by_def by blast
  have tw: "takeWhile (\<lambda>v. fst v \<le> fst r) merged = pre @ [m]"
    using m by (cases post) (auto simp: takeWhile_append2 not_le)
  have len: "length merged = length bufs" using assms(2) by (rule list_all2_lengthD)
  let ?b = "bufs ! length pre"
  have mi: "merged ! length pre = m" using m(1) by simp
  have "fetch_answer content m ?b" using list_all2_nthD[OF assms(2), of "length pre"] mi m(1) by simp
  then have b: "buffer_ok ?b" "buffer_view ?b = slice_of content m" by (simp_all add: fetch_answer_def)
  have mm: "fst m \<le> snd m" "unat (snd m) \<le> length content" using assms(4) m(1) by auto
  let ?lo = "unat (fst r - fst m)" and ?hi = "unat (snd r - fst m)"
  have lo: "?lo = unat (fst r) - unat (fst m)" using m(3) by (rule unat_sub_u64)
  have hi: "?hi = unat (snd r) - unat (fst m)" using m(3) assms(5) by (intro unat_sub_u64) simp
  have le: "unat (fst m) \<le> unat (fst r)" "unat (fst r) \<le> unat (snd r)" "unat (snd r) \<le> unat (snd m)"
    using m(3,4) assms(5) by (simp_all add: word_le_nat_alt)
  have blen: "buffer_len ?b = unat (snd m) - unat (fst m)"
    using buffer_ok_len[OF b(1)] b(2) mm(2) by (simp add: slice_of_def)
  have bounds: "slice_bounds (buffer_len ?b) (Included ?lo) (Excluded ?hi) = (?lo, ?hi)"
    by (simp add: slice_bounds_def)
  have "buffer_len ?b \<le> usize_max" using blen mm(2) assms(3) by (simp add: usize_max_def)
  have lohi: "?lo \<le> ?hi" "?hi \<le> buffer_len ?b" unfolding lo hi blen using le by linarith+
  from buffer_ok_slice[OF b(1) \<open>buffer_len ?b \<le> usize_max\<close> bounds lohi] obtain b' where
    b': "buffer_slice ?b (Included ?lo) (Excluded ?hi) = Some b'"
      "buffer_view b' = take (?hi - ?lo) (drop ?lo (slice_of content m))"
    unfolding b(2) by blast
  have "buffer_view b' = slice_of content r"
    unfolding b'(2) slice_of_def lo hi drop_take take_take drop_drop using le by (simp add: min_def)
  moreover have "fetch_slice merged bufs r = buffer_slice ?b (Included ?lo) (Excluded ?hi)"
    using len unfolding fetch_slice_def tw Let_def by (simp add: mi) (simp add: m(1))
  ultimately show ?thesis using b'(1) by simp
qed

lemma fetch_slices_exact:
  assumes "\<forall>r\<in>set rs. covered_by r merged \<and> fst r \<le> snd r" "list_all2 (fetch_answer content) merged bufs"
    "length content < 2 ^ 64" "\<forall>m\<in>set merged. fst m \<le> snd m \<and> unat (snd m) \<le> length content"
  shows "\<exists>bs. fetch_slices merged bufs rs = Some bs \<and> map buffer_view bs = map (slice_of content) rs"
  using assms(1)
proof (induction rs)
  case (Cons r rs)
  with fetch_slice_exact[OF _ assms(2,3,4), of r] show ?case by fastforce
qed simp

lemma reader_fetch_spec:
  assumes "\<forall>r\<in>set ranges. fst r \<le> snd r \<and> unat (snd r) \<le> length content"
    "length content + fetch_gap options < 2 ^ 64" "run_ok (fetch_answer content) run"
  shows "reader_fetch run options ranges \<noteq> Panic \<and>
    (\<forall>bufs. reader_fetch run options ranges = Ok bufs \<longrightarrow>
      map buffer_view bufs = map (slice_of content) ranges)"
proof (cases "ranges = []")
  case True
  then show ?thesis by (simp add: reader_fetch_def)
next
  case False
  from merge_ranges_some[OF False assms(1,2)] obtain merged where
    mg: "merge_ranges options ranges = Some merged" "\<forall>r\<in>set ranges. covered_by r merged"
      "\<forall>m\<in>set merged. fst m \<le> snd m \<and> unat (snd m) \<le> length content" by blast
  let ?t = "ct_new (orr_concurrent options) (orr_prefetch options)"
  obtain q t where sub: "fetch_submit run merged ?t = (q, t)" by force
  note si = fetch_submit_inv[OF ct_inv_new assms(3) sub]
  show ?thesis
  proof (cases q)
    case (Ok u)
    then have ct: "ct_inv (fetch_answer content) (orr_concurrent options) (orr_prefetch options) t merged []"
      using si by simp
    obtain y bufs t' where dr: "ct_drain run t [] = (y, bufs, t')" by (metis prod_cases3)
    note di = ct_drain_inv[OF ct assms(3) dr]
    show ?thesis
    proof (cases y)
      case y: (Ok u)
      from di have "ct_inv (fetch_answer content) (orr_concurrent options) (orr_prefetch options) t' merged bufs"
        "ct_tasks t' = []" "ct_results t' = []" "\<not> ct_errored t'" using y by auto
      from ct_inv_all_delivered[OF this] have la: "list_all2 (fetch_answer content) merged bufs" .
      have len: "length content < 2 ^ 64" using assms(2) by simp
      from fetch_slices_exact[OF _ la len mg(3), of ranges] mg(2) assms(1) obtain bs where
        "fetch_slices merged bufs ranges = Some bs" "map buffer_view bs = map (slice_of content) ranges" by auto
      with False mg(1) sub Ok dr y show ?thesis by (simp add: reader_fetch_def res_of_option_def)
    qed (use di False mg(1) sub Ok dr in \<open>auto simp: reader_fetch_def\<close>)
  qed (use si False mg(1) sub in \<open>auto simp: reader_fetch_def\<close>)
qed

section \<open>Failures and a chunk size of zero\<close>

lemma cr_fill_sequential:
  assumes "ct_concurrent (cr_tasks cr) = 1" "ct_tasks (cr_tasks cr) = []" "\<not> ct_errored (cr_tasks cr)"
    "\<not> cr_done cr" "cr_next_input ctx cr = (Some i, cr1)"
  shows "cr_fill env ctx cr =
    (case ce_run env i of
       Inl e \<Rightarrow> (Err e, cr1)
     | Inr b \<Rightarrow> (Ok (), cr1\<lparr>cr_tasks := (cr_tasks cr)\<lparr>ct_results := ct_results (cr_tasks cr) @ [b]\<rparr>\<rparr>))"
proof -
  have t: "cr_tasks cr1 = cr_tasks cr" using cr_next_input_tasks[OF assms(5)] .
  then have "cr1\<lparr>cr_tasks := cr_tasks cr\<rparr> = cr1" by simp
  with assms t show ?thesis
    by (auto simp: cr_fill.simps[of env ctx cr] cr_background_idle Let_def ct_has_remaining_def ct_execute_def ct_is_concurrent_def
        ct_has_result_def split: sum.splits)
qed

lemma cr_next_input_range:
  assumes "orr_chunk (rc_options ctx) = Some ch" "cr_opened cr = None" "cr_remaining cr = Some n" "n \<noteq> 0"
  shows "cr_next_input ctx cr =
    (Some \<lparr>ci_range = BytesRange (cr_offset cr) (Some (min n (of_nat ch))), ci_reader = None\<rparr>,
     cr\<lparr>cr_offset := cr_offset cr + min n (of_nat ch), cr_remaining := Some (n - min n (of_nat ch))\<rparr>)"
  using assms by (simp add: cr_next_input_def cr_next_range_def next_range_def Let_def)

lemma cr_read_zero_chunk:
  fixes env :: "'r chunk_env"
  assumes "orr_chunk (rc_options ctx) = Some 0" "run_ok (fresh_answer content) (ce_run env)" "\<forall>i. \<exists>b. ce_run env i = Inr b"
    "orr_concurrent (rc_options ctx) = 1"
  shows "\<exists>b cr'. cr_read env ctx (cr_new ctx (BytesRange a (Some n))) = (Ok b, cr') \<and> buffer_is_empty b"
proof (cases "n = 0")
  case True
  with assms show ?thesis
    by (simp add: cr_read_def cr_fill.simps cr_background_idle Let_def cr_new_def ct_new_def ct_has_remaining_def cr_next_input_def
        cr_next_range_def next_range_def ct_next_def buffer_is_empty_def)
next
  case False
  let ?cr = "cr_new ctx (BytesRange a (Some n)) :: 'r chunked_reader"
  let ?i = "\<lparr>ci_range = BytesRange a (Some 0), ci_reader = None\<rparr> :: 'r chunked_input"
  from assms(3) obtain b where b: "ce_run env ?i = Inr b" by blast
  then have "fresh_answer content ?i b" using assms(2) unfolding run_ok_def by blast
  then have "buffer_is_empty b"
    using buffer_ok_len[of b] by (simp add: fresh_answer_def chunk_answer_def buffer_is_empty_def)
  moreover have "cr_next_input ctx ?cr = (Some ?i, ?cr)"
    using False cr_next_input_range[OF assms(1), of ?cr n] by (simp add: cr_new_def)
  from cr_fill_sequential[OF _ _ _ _ this, of env] b assms(4)
  have "cr_read env ctx ?cr = (Ok b, ?cr)"
    by (simp add: cr_read_def cr_new_def ct_new_def ct_next_def)
  ultimately show ?thesis by blast
qed

section \<open>Properties\<close>

text \<open>
  C11: Reading any range through \<open>Reader::read\<close> over a service that returns the object, streaming or in chunks
  of a size other than zero, always returns, and a successful result holds exactly the bytes of the object
  the range asks for.  The tasks of the chunks run the code of \<open>ChunkedReader::new\<close>, each in any state of
  the service, and end in any order.  If in addition the service serves the requested range and its parts,
  and the bounds do not overflow, the result is successful.
\<close>

theorem reader_read_exact:
  assumes "object_reader ops path content sinv rinv rest" "reader_ready path content ctx" "sinv s"
    "chunked_runs ops ctx sinv env"
  shows "\<exists>x s'. reader_read ops env ctx lo hi s = Some (x, s') \<and>
    (\<forall>b. x = Ok b \<longrightarrow> buffer_ok b \<and> buffer_view b = requested (br_from_bounds lo hi) content) \<and>
    (reliable_reader ops path content sinv rinv rest good rgood \<longrightarrow>
      good (ord_with_range (br_from_bounds lo hi) (rc_args ctx)) \<longrightarrow>
      (\<forall>r. range_part content (br_from_bounds lo hi) r \<longrightarrow> good (ord_with_range r (rc_args ctx))) \<longrightarrow>
      lo \<noteq> Excluded u64_max \<longrightarrow> hi \<noteq> Included u64_max \<longrightarrow> (\<exists>b. x = Ok b))"
proof -
  from object_reader.reader_read_spec[OF assms, of lo hi] obtain x s' where
    x: "reader_read ops env ctx lo hi s = Some (x, s')"
      "\<forall>b. x = Ok b \<longrightarrow> buffer_ok b \<and> buffer_view b = requested (br_from_bounds lo hi) content" by blast
  moreover have "\<exists>b. x = Ok b" if "reliable_reader ops path content sinv rinv rest good rgood"
    "good (ord_with_range (br_from_bounds lo hi) (rc_args ctx))"
    "\<forall>r. range_part content (br_from_bounds lo hi) r \<longrightarrow> good (ord_with_range r (rc_args ctx))"
    "lo \<noteq> Excluded u64_max" "hi \<noteq> Included u64_max"
    using reliable_reader.reader_read_total[OF that(1) assms(2,3,4) _ that(2,3)] that(4,5) x(1) by auto
  ultimately show ?thesis by blast
qed



text \<open>
  A chunk size of zero (which \<open>OpReader::with_chunk\<close> excludes, but the conversions from the
  user's options do not) makes \<open>Reader::read\<close> succeed with no bytes, whatever the object holds.
\<close>

theorem zero_chunk_reads_nothing:
  assumes "orr_chunk (rc_options ctx) = Some 0" "orr_concurrent (rc_options ctx) = 1"
    "run_ok (fresh_answer content) (ce_run env)" "\<forall>i. \<exists>b. ce_run env i = Inr b"
    "bst_create ops ctx lo hi s = (Ok st, s')"
  shows "\<exists>b. reader_read ops env ctx lo hi s = Some (Ok b, s') \<and> buffer_view b = []"
proof -
  from assms(1,5) obtain a n where st: "st = \<lparr>bst_ctx = ctx, bst_reader = Two (cr_new ctx (BytesRange a (Some n)))\<rparr>"
    by (auto simp: bst_create_def split: prod.splits elim!: bind_res.elims)
  from cr_read_zero_chunk[OF assms(1,3,4,2), of a n] obtain b cr' where
    "cr_read env ctx (cr_new ctx (BytesRange a (Some n))) = (Ok b, cr')" "buffer_is_empty b" by blast
  then have "bst_collect ops env [] st s' = Some (Ok [], st\<lparr>bst_reader := Two cr'\<rparr>, s')"
    by (simp add: bst_collect.simps bst_poll_next_def bst_read_def st stream_item_def)
  with assms(5) show ?thesis
    by (simp add: reader_read_def flatten_collect_def res_of_option_def)
qed

text \<open>
  C36: A failed open is not retried: after the service failed to open the object, a streaming
  reader that is read again reports the end of the data, without asking the service.
\<close>

theorem failed_open_is_eof:
  assumes "orr_chunk (rc_options ctx) = None" "br_size rng \<noteq> Some 0"
    "rop_open ops (rc_path ctx) (ord_with_range rng (rc_args ctx)) s = (Err e, s1)"
  shows "\<exists>sr. sr_read ops ctx (sr_new rng) s = Some (Err e, sr, ctx, s1) \<and>
    (\<forall>s2. sr_read ops ctx sr s2 = Some (Ok buffer_new, sr, ctx, s2))"
proof -
  obtain off sz where rng: "rng = BytesRange off sz" by (cases rng)
  obtain x g where nx: "rg_next_range ctx (rg_new off sz) = (x, g)" by force
  from rg_next_range_stream[OF assms(1) nx] assms(2) rng have g: "x = Some rng" "rg_size g = Some 0"
    by (auto simp: rg_new_def)
  let ?sr = "\<lparr>sr_generator = g, sr_reader = None\<rparr>"
  have "sr_open ops ctx (sr_new rng) s = (Err e, ?sr, ctx, s1)"
    using assms(3) nx g rng by (simp add: sr_open_def sr_new_def rg_next_reader_def)
  then have "sr_read ops ctx (sr_new rng) s = Some (Err e, ?sr, ctx, s1)"
    by (simp add: sr_read.simps[of ops ctx "sr_new rng" s])
  moreover have "sr_open ops ctx ?sr s2 = (Ok (), ?sr, ctx, s2)" for s2
    using g(2) by (simp add: sr_open_def rg_next_reader_def rg_next_range_def next_range_def)
  then have "sr_read ops ctx ?sr s2 = Some (Ok buffer_new, ?sr, ctx, s2)" for s2
    by (simp add: sr_read.simps[of ops ctx ?sr s2])
  ultimately show ?thesis by blast
qed

theorem failed_open_is_eof_witness:
  "let ops = \<lparr>rop_open = (\<lambda>p a s. if s then (Err (error_new Unexpected []), False) else (Ok (None, [1]), s)),
        rop_read = (\<lambda>r s. (Ok (buffer_from_bytes r), [], s)), rop_stat = (\<lambda>p a s. (Ok metadata_default, s))\<rparr>;
       ctx = rc_new ''f'' op_read_default op_reader_default
   in \<exists>sr. sr_read ops ctx (sr_new (BytesRange 0 None)) True = Some (Err (error_new Unexpected []), sr, ctx, False) \<and>
        sr_read ops ctx sr False = Some (Ok buffer_new, sr, ctx, False)"
proof -
  let ?ops = "\<lparr>rop_open = (\<lambda>p a s. if s then (Err (error_new Unexpected []), False) else (Ok (None, [1]), s)),
        rop_read = (\<lambda>r s. (Ok (buffer_from_bytes r), [], s)), rop_stat = (\<lambda>p a s. (Ok metadata_default, s))\<rparr>"
  let ?ctx = "rc_new ''f'' op_read_default op_reader_default"
  have "orr_chunk (rc_options ?ctx) = None" "br_size (BytesRange 0 None) \<noteq> Some 0"
    "rop_open ?ops (rc_path ?ctx) (ord_with_range (BytesRange 0 None) (rc_args ?ctx)) True =
       (Err (error_new Unexpected []), False)"
    by (simp_all add: rc_new_def op_reader_default_def)
  from failed_open_is_eof[OF this] show ?thesis unfolding Let_def by blast
qed

text \<open>
  A failed chunk is not retried: when a chunk fails, a sequential chunked reader that is read
  again goes on behind that chunk.
\<close>

theorem failed_chunk_is_skipped:
  assumes "orr_chunk (rc_options ctx) = Some ch" "orr_concurrent (rc_options ctx) = 1" "n \<noteq> 0"
    "m = min n (of_nat ch)" "ce_run env \<lparr>ci_range = BytesRange off (Some m), ci_reader = None\<rparr> = Inl e"
  shows "cr_read env ctx (cr_new ctx (BytesRange off (Some n))) =
    (Err e, cr_new ctx (BytesRange (off + m) (Some (n - m))))"
proof -
  let ?cr = "cr_new ctx (BytesRange off (Some n))"
  have nx: "cr_next_input ctx ?cr = (Some \<lparr>ci_range = BytesRange off (Some m), ci_reader = None\<rparr>,
      cr_new ctx (BytesRange (off + m) (Some (n - m))))"
    using cr_next_input_range[OF assms(1), of ?cr n] assms(3,4) by (simp add: cr_new_def)
  show ?thesis
    using cr_fill_sequential[OF _ _ _ _ nx, of env] assms(2,5)
    by (simp add: cr_read_def cr_new_def ct_new_def)
qed

end
