(* ===== verification/Write_Context.thy ===== *)
theory Write_Context
  imports Oio_Write
begin

text \<open>
  The buffering writer of \<open>core/core/src/types/context/write.rs\<close> (\<open>WriteGenerator\<close>) and the
  user-facing \<open>Writer\<close> of \<open>core/core/src/types/write/writer.rs\<close>.  The underlying writer is a
  state \<open>'w\<close> with the operations \<open>ops\<close> of theory Oio\_Write.  The lemmas about the bytes that
  reach it are proved once, in the context of the contract \<open>oio_writer\<close>.
\<close>

section \<open>WriteContext and WriteGenerator\<close>

definition calculate_chunk_size :: "capability \<Rightarrow> op_writer \<Rightarrow> usize option \<times> bool" where
  "calculate_chunk_size cap options =
     (let exact = (owr_chunk options \<noteq> None);
          chunk_size = map_option
            (\<lambda>sz. let sz1 = (case cap_write_multi_max_size cap of Some v \<Rightarrow> min sz v | None \<Rightarrow> sz)
                  in case cap_write_multi_min_size cap of Some v \<Rightarrow> max sz1 v | None \<Rightarrow> sz1)
            (case owr_chunk options of Some c \<Rightarrow> Some c | None \<Rightarrow> cap_write_multi_min_size cap)
      in (chunk_size, exact))"

record 'w write_generator =
  wg_w :: 'w
  wg_chunk_size :: "usize option"
  wg_exact :: bool
  wg_buffer :: queue_buf

text \<open>\<open>create\<close> with the result of the accessor's \<open>write\<close>.\<close>

definition wg_create :: "capability \<Rightarrow> op_writer \<Rightarrow> 'w res \<Rightarrow> 'w write_generator res" where
  "wg_create cap options opened =
     (let (chunk_size, exact) = calculate_chunk_size cap options
      in bind_res opened
           (\<lambda>w. Ok \<lparr>wg_w = w, wg_chunk_size = chunk_size, wg_exact = exact, wg_buffer = queue_new\<rparr>))"

text \<open>\<open>self.w.write_dyn(buf).await?\<close>: the result and the generator with the new writer.\<close>

definition wg_flush ::
  "'w write_ops \<Rightarrow> 'w write_generator \<Rightarrow> buffer \<Rightarrow> unit res \<times> 'w write_generator" where
  "wg_flush ops g buf = (case w_write ops (wg_w g) buf of (r, w) \<Rightarrow> (r, g\<lparr>wg_w := w\<rparr>))"

text \<open>\<open>let buf = self.buffer.take().collect(); self.w.write_dyn(buf).await?\<close>\<close>

definition wg_flush_all :: "'w write_ops \<Rightarrow> 'w write_generator \<Rightarrow> unit res \<times> 'w write_generator" where
  "wg_flush_all ops g =
     (let (q, rest) = queue_take (wg_buffer g); g1 = g\<lparr>wg_buffer := rest\<rparr>
      in case queue_collect q of
           None \<Rightarrow> (Panic, g1)
         | Some buf \<Rightarrow> wg_flush ops g1 buf)"

text \<open>Pass on the error of a \<open>?\<close>, or continue.\<close>

fun and_then_state :: "'a res \<times> 's \<Rightarrow> ('a \<Rightarrow> 's \<Rightarrow> 'b res \<times> 's) \<Rightarrow> 'b res \<times> 's" where
  "and_then_state (Ok a, s) f = f a s"
| "and_then_state (Err e, s) f = (Err e, s)"
| "and_then_state (Panic, s) f = (Panic, s)"

definition wg_write ::
  "'w write_ops \<Rightarrow> 'w write_generator \<Rightarrow> buffer \<Rightarrow> usize res \<times> 'w write_generator" where
  "wg_write ops g bs =
     (case wg_chunk_size g of
        None \<Rightarrow>
          (let sz = buffer_len bs
           in and_then_state (wg_flush ops g bs) (\<lambda>_ g1. (Ok sz, g1)))
      | Some chunk_size \<Rightarrow>
          (if queue_len (wg_buffer g) + buffer_len bs < chunk_size
           then (Ok (buffer_len bs), g\<lparr>wg_buffer := queue_push (wg_buffer g) bs\<rparr>)
           else if \<not> wg_exact g
           then (let fill_size = buffer_len bs; g1 = g\<lparr>wg_buffer := queue_push (wg_buffer g) bs\<rparr>
                 in and_then_state (wg_flush_all ops g1) (\<lambda>_ g2. (Ok fill_size, g2)))
           else and_then_state
             (if chunk_size \<le> queue_len (wg_buffer g) then wg_flush_all ops g else (Ok (), g))
             (\<lambda>_ g1.
                let remaining = chunk_size - queue_len (wg_buffer g1);
                    bs1 = buffer_truncate bs remaining
                in (Ok (buffer_len bs1), g1\<lparr>wg_buffer := queue_push (wg_buffer g1) bs1\<rparr>))))"

text \<open>\<open>close\<close>: the loop leaves the buffer empty after its first iteration.\<close>

definition wg_close :: "'w write_ops \<Rightarrow> 'w write_generator \<Rightarrow> metadata res \<times> 'w write_generator" where
  "wg_close ops g =
     and_then_state
       (if queue_is_empty (wg_buffer g) then (Ok (), g) else wg_flush_all ops g)
       (\<lambda>_ g1. case w_close ops (wg_w g1) of (r, w) \<Rightarrow> (r, g1\<lparr>wg_w := w\<rparr>))"

definition wg_abort :: "'w write_ops \<Rightarrow> 'w write_generator \<Rightarrow> unit res \<times> 'w write_generator" where
  "wg_abort ops g =
     (let g1 = g\<lparr>wg_buffer := queue_clear (wg_buffer g)\<rparr>
      in case w_abort ops (wg_w g1) of (r, w) \<Rightarrow> (r, g1\<lparr>wg_w := w\<rparr>))"

section \<open>Writer\<close>

text \<open>The \<open>while\<close> loop of \<open>Writer::write\<close>; a loop that does not end is \<open>None\<close>.\<close>

partial_function (option) writer_write ::
  "'w write_ops \<Rightarrow> 'w write_generator \<Rightarrow> buffer \<Rightarrow> (unit res \<times> 'w write_generator) option" where
  "writer_write ops g bs =
     (if buffer_is_empty bs then Some (Ok (), g)
      else case wg_write ops g bs of
        (Ok n, g1) \<Rightarrow>
          (case buffer_advance bs n of
             None \<Rightarrow> Some (Panic, g1)
           | Some bs1 \<Rightarrow> writer_write ops g1 bs1)
      | (Err e, g1) \<Rightarrow> Some (Err e, g1)
      | (Panic, g1) \<Rightarrow> Some (Panic, g1))"

definition writer_close :: "'w write_ops \<Rightarrow> 'w write_generator \<Rightarrow> metadata res \<times> 'w write_generator" where
  "writer_close ops g = wg_close ops g"

definition writer_abort :: "'w write_ops \<Rightarrow> 'w write_generator \<Rightarrow> unit res \<times> 'w write_generator" where
  "writer_abort ops g = wg_abort ops g"

section \<open>Invariant\<close>

text \<open>
  The state of a generator that has accepted the bytes \<open>data\<close>: what reached the writer and
  what is buffered make up \<open>data\<close>; in exact mode every piece written has the chunk size and
  at most one chunk is buffered; otherwise every piece has at least the chunk size and less
  than one chunk is buffered.
\<close>

definition pieces_ok :: "usize option \<Rightarrow> bool \<Rightarrow> bytes list \<Rightarrow> usize \<Rightarrow> bool" where
  "pieces_ok chunk exact ps buffered \<longleftrightarrow>
     (case chunk of
        None \<Rightarrow> buffered = 0
      | Some k \<Rightarrow> (if exact then (\<forall>p\<in>set ps. length p = k) \<and> buffered \<le> k
                  else (\<forall>p\<in>set ps. k \<le> length p) \<and> (k = 0 \<or> buffered < k)))"

lemma and_then_Ok:
  "and_then_state x f = (Ok b, s') \<longleftrightarrow> (\<exists>a s. x = (Ok a, s) \<and> f a s = (Ok b, s'))"
  by (cases x; cases "fst x") auto

lemma and_then_Panic:
  "and_then_state x f = (Panic, s') \<longleftrightarrow>
     x = (Panic, s') \<or> (\<exists>a s. x = (Ok a, s) \<and> f a s = (Panic, s'))"
  by (cases x; cases "fst x") auto

text \<open>A user's sequence of \<open>write\<close> calls, up to the first failure.\<close>

fun writer_write_all ::
  "'w write_ops \<Rightarrow> 'w write_generator \<Rightarrow> buffer list \<Rightarrow> (unit res \<times> 'w write_generator) option" where
  "writer_write_all ops g [] = Some (Ok (), g)"
| "writer_write_all ops g (b # bs) =
     (case writer_write ops g b of
        None \<Rightarrow> None
      | Some (Ok _, g1) \<Rightarrow> writer_write_all ops g1 bs
      | Some (r, g1) \<Rightarrow> Some (r, g1))"

text \<open>Pieces of equal size followed by a shorter rest are the pieces of their concatenation.\<close>

lemma chop_pieces:
  assumes "0 < k" "\<forall>p\<in>set ps. length p = k" "length q \<le> k"
  shows "chop k (concat ps @ q) = ps @ (if q = [] then [] else [q])"
  using assms(2)
proof (induction ps)
  case Nil
  with assms(1,3) show ?case by (simp add: chop_step)
next
  case (Cons p ps)
  with assms(1) show ?case by (simp add: chop_append)
qed

lemma queue_push_simps:
  assumes "queue_ok q" "buffer_ok bs"
  shows "queue_ok (queue_push q bs)" "queue_view (queue_push q bs) = queue_view q @ buffer_view bs"
    "queue_len (queue_push q bs) = queue_len q + buffer_len bs"
  using qb.push_inv[OF assms] qb.push_content[OF assms] qb.len_content[OF assms(1)]
    buffer_ok_len[OF assms(2)] qb.len_content[OF qb.push_inv[OF assms]] by simp_all

lemma queue_new_simps [simp]: "queue_ok queue_new" "queue_view queue_new = []" "queue_len queue_new = 0"
  using qb.empty_inv qb.empty_content qb.len_content[OF qb.empty_inv] by simp_all

context oio_writer
begin

definition wg_inv :: "'w write_generator \<Rightarrow> bytes \<Rightarrow> bool" where
  "wg_inv g data \<longleftrightarrow> winv (wg_w g) \<and> queue_ok (wg_buffer g) \<and>
     concat (writes (wg_w g)) @ queue_view (wg_buffer g) = data \<and>
     pieces_ok (wg_chunk_size g) (wg_exact g) (writes (wg_w g)) (queue_len (wg_buffer g))"

lemma wg_flush_inv:
  assumes "winv (wg_w g)" "buffer_ok buf" "buffer_view buf \<noteq> []" "wg_flush ops g buf = (r, g')"
  shows "r \<noteq> Panic" "winv (wg_w g')" "wg_buffer g' = wg_buffer g" "wg_chunk_size g' = wg_chunk_size g"
    "wg_exact g' = wg_exact g"
    "writes (wg_w g') = writes (wg_w g) @ (if r = Ok () then [buffer_view buf] else [])"
proof -
  obtain w where w: "w_write ops (wg_w g) buf = (r, w)" "g' = g\<lparr>wg_w := w\<rparr>"
    using assms(4) by (auto simp: wg_flush_def split: prod.splits)
  show "r \<noteq> Panic" using write_no_panic[OF assms(1,2,3)] w by simp
  then have "winv (wg_w g') \<and>
    writes (wg_w g') = writes (wg_w g) @ (if r = Ok () then [buffer_view buf] else [])"
    using write_Ok[OF assms(1,2,3), of w] write_Err[OF assms(1,2,3), of _ w] w by (cases r) simp_all
  then show "winv (wg_w g')"
    "writes (wg_w g') = writes (wg_w g) @ (if r = Ok () then [buffer_view buf] else [])"
    by simp_all
  show "wg_buffer g' = wg_buffer g" "wg_chunk_size g' = wg_chunk_size g" "wg_exact g' = wg_exact g"
    using w by simp_all
qed

lemma wg_flush_all_inv:
  assumes "winv (wg_w g)" "queue_ok (wg_buffer g)" "queue_view (wg_buffer g) \<noteq> []"
    "wg_flush_all ops g = (r, g')"
  shows "r \<noteq> Panic" "winv (wg_w g')" "wg_buffer g' = queue_new" "wg_chunk_size g' = wg_chunk_size g"
    "wg_exact g' = wg_exact g"
    "writes (wg_w g') = writes (wg_w g) @ (if r = Ok () then [queue_view (wg_buffer g)] else [])"
proof -
  obtain buf where buf: "queue_collect (wg_buffer g) = Some buf" "buffer_ok buf"
    "buffer_view buf = queue_view (wg_buffer g)"
    using qb.collect_ok[OF assms(2)] by auto
  then have "wg_flush ops (g\<lparr>wg_buffer := queue_new\<rparr>) buf = (r, g')"
    using assms(4) by (simp add: wg_flush_all_def queue_take_def)
  from wg_flush_inv[OF _ buf(2) _ this] assms(1,3) buf(3) show
    "r \<noteq> Panic" "winv (wg_w g')" "wg_buffer g' = queue_new" "wg_chunk_size g' = wg_chunk_size g"
    "wg_exact g' = wg_exact g"
    "writes (wg_w g') = writes (wg_w g) @ (if r = Ok () then [queue_view (wg_buffer g)] else [])"
    by simp_all
qed

text \<open>The outcome of a successful \<open>write\<close>, by the branch of the code that was taken.\<close>

lemma wg_write_Ok_cases:
  assumes "wg_write ops g bs = (Ok n, g')"
  obtains (direct) "wg_chunk_size g = None" "wg_flush ops g bs = (Ok (), g')" "n = buffer_len bs"
  | (small) k where "wg_chunk_size g = Some k" "queue_len (wg_buffer g) + buffer_len bs < k"
      "g' = g\<lparr>wg_buffer := queue_push (wg_buffer g) bs\<rparr>" "n = buffer_len bs"
  | (loose) k where "wg_chunk_size g = Some k" "k \<le> queue_len (wg_buffer g) + buffer_len bs"
      "\<not> wg_exact g" "n = buffer_len bs"
      "wg_flush_all ops (g\<lparr>wg_buffer := queue_push (wg_buffer g) bs\<rparr>) = (Ok (), g')"
  | (full) k g1 where "wg_chunk_size g = Some k" "wg_exact g" "k \<le> queue_len (wg_buffer g)"
      "wg_flush_all ops g = (Ok (), g1)"
      "n = buffer_len (buffer_truncate bs (k - queue_len (wg_buffer g1)))"
      "g' = g1\<lparr>wg_buffer := queue_push (wg_buffer g1) (buffer_truncate bs (k - queue_len (wg_buffer g1)))\<rparr>"
  | (fill) k where "wg_chunk_size g = Some k" "wg_exact g" "queue_len (wg_buffer g) < k"
      "k \<le> queue_len (wg_buffer g) + buffer_len bs"
      "n = buffer_len (buffer_truncate bs (k - queue_len (wg_buffer g)))"
      "g' = g\<lparr>wg_buffer := queue_push (wg_buffer g) (buffer_truncate bs (k - queue_len (wg_buffer g)))\<rparr>"
proof (cases "wg_chunk_size g")
  case None
  with assms have "wg_flush ops g bs = (Ok (), g')" "n = buffer_len bs"
    by (auto simp: wg_write_def and_then_Ok Let_def)
  with None show ?thesis by (rule direct)
next
  case (Some k)
  let ?g = "g\<lparr>wg_buffer := queue_push (wg_buffer g) bs\<rparr>"
  consider (a) "queue_len (wg_buffer g) + buffer_len bs < k"
    | (b) "k \<le> queue_len (wg_buffer g) + buffer_len bs" "\<not> wg_exact g"
    | (c) "k \<le> queue_len (wg_buffer g) + buffer_len bs" "wg_exact g" "k \<le> queue_len (wg_buffer g)"
    | (d) "k \<le> queue_len (wg_buffer g) + buffer_len bs" "wg_exact g" "queue_len (wg_buffer g) < k"
    by linarith
  then show ?thesis
  proof cases
    case a
    with assms Some have "g' = ?g" "n = buffer_len bs" by (auto simp: wg_write_def)
    with Some a show ?thesis by (rule small)
  next
    case b
    with assms Some have "n = buffer_len bs" "wg_flush_all ops ?g = (Ok (), g')"
      by (auto simp: wg_write_def and_then_Ok Let_def)
    with Some b show ?thesis by (rule loose)
  next
    case c
    with assms Some obtain g1 where g1: "wg_flush_all ops g = (Ok (), g1)"
      "n = buffer_len (buffer_truncate bs (k - queue_len (wg_buffer g1)))"
      "g' = g1\<lparr>wg_buffer := queue_push (wg_buffer g1) (buffer_truncate bs (k - queue_len (wg_buffer g1)))\<rparr>"
      by (auto simp: wg_write_def and_then_Ok Let_def)
    show ?thesis by (rule full[OF Some c(2,3) g1])
  next
    case d
    with assms Some have
      "n = buffer_len (buffer_truncate bs (k - queue_len (wg_buffer g)))"
      "g' = g\<lparr>wg_buffer := queue_push (wg_buffer g) (buffer_truncate bs (k - queue_len (wg_buffer g)))\<rparr>"
      by (auto simp: wg_write_def Let_def)
    with Some d(2,3,1) show ?thesis by (rule fill)
  qed
qed

text \<open>A successful \<open>write\<close> accepts a non-empty prefix.\<close>

lemma wg_write_Ok:
  assumes inv: "wg_inv g data" and bs: "buffer_ok bs" "buffer_len bs \<noteq> 0"
    and k0: "wg_chunk_size g \<noteq> Some 0" and w: "wg_write ops g bs = (Ok n, g')"
  shows "0 < n \<and> n \<le> buffer_len bs \<and> wg_inv g' (data @ take n (buffer_view bs)) \<and>
    wg_chunk_size g' = wg_chunk_size g \<and> wg_exact g' = wg_exact g"
proof -
  from inv have g: "winv (wg_w g)" "queue_ok (wg_buffer g)"
    and data: "data = concat (writes (wg_w g)) @ queue_view (wg_buffer g)"
    and pieces: "pieces_ok (wg_chunk_size g) (wg_exact g) (writes (wg_w g)) (queue_len (wg_buffer g))"
    by (auto simp: wg_inv_def)
  have len: "take (buffer_len bs) (buffer_view bs) = buffer_view bs"
    using buffer_ok_len[OF bs(1)] by simp
  have ne: "buffer_view bs \<noteq> []" using buffer_ok_len[OF bs(1)] bs(2) by auto
  have trunc: "buffer_view (buffer_truncate bs m) = take (buffer_len (buffer_truncate bs m)) (buffer_view bs)"
    for m using buffer_ok_len[OF bs(1)] by (simp add: min_def)
  from w show ?thesis
  proof (cases rule: wg_write_Ok_cases)
    case direct
    from pieces direct(1) have q: "queue_len (wg_buffer g) = 0" by (simp add: pieces_ok_def)
    then have "queue_view (wg_buffer g) = []" using qb.len_content[OF g(2)] by simp
    with wg_flush_inv[OF g(1) bs(1) ne direct(2)] direct g data q len bs(2) show ?thesis
      by (simp add: wg_inv_def pieces_ok_def)
  next
    case (small k)
    with queue_push_simps[OF g(2) bs(1)] g data pieces len bs(2) show ?thesis
      by (simp add: wg_inv_def pieces_ok_def split: if_splits)
  next
    case (loose k)
    note p = queue_push_simps[OF g(2) bs(1)]
    have "k \<le> length (queue_view (wg_buffer g) @ buffer_view bs)" "0 < k"
      using loose(1,2) k0 qb.len_content[OF g(2)] buffer_ok_len[OF bs(1)] by simp_all
    with wg_flush_all_inv[OF _ _ _ loose(5)] loose(1,3,4) p g data pieces len bs(2) ne show ?thesis
      by (auto simp: wg_inv_def pieces_ok_def)
  next
    case (full k g1)
    from pieces full(1,2,3) have "queue_len (wg_buffer g) = k" by (simp add: pieces_ok_def)
    then have k: "length (queue_view (wg_buffer g)) = k" "0 < k"
      using qb.len_content[OF g(2)] k0 full(1) by simp_all
    then have "queue_view (wg_buffer g) \<noteq> []" by auto
    note fl = wg_flush_all_inv[OF g this full(4)]
    have "buffer_ok (buffer_truncate bs k)" using bs by simp
    note p = queue_push_simps[OF _ this, of queue_new]
    from fl full k p g data pieces trunc[of k] bs(2) show ?thesis
      by (simp add: wg_inv_def pieces_ok_def)
  next
    case (fill k)
    let ?m = "k - queue_len (wg_buffer g)"
    have "buffer_ok (buffer_truncate bs ?m)" using bs by simp
    note p = queue_push_simps[OF g(2) this]
    from fill(1,2,3,4,5,6) p g data pieces trunc[of ?m] bs(2) show ?thesis
      by (simp add: wg_inv_def pieces_ok_def)
  qed
qed

lemma wg_write_no_panic:
  assumes inv: "wg_inv g data" and bs: "buffer_ok bs" "buffer_len bs \<noteq> 0"
    and k0: "wg_chunk_size g \<noteq> Some 0"
  shows "wg_write ops g bs \<noteq> (Panic, g')"
proof -
  from inv have g: "winv (wg_w g)" "queue_ok (wg_buffer g)" by (auto simp: wg_inv_def)
  have ne: "buffer_view bs \<noteq> []" using buffer_ok_len[OF bs(1)] bs(2) by auto
  let ?g = "g\<lparr>wg_buffer := queue_push (wg_buffer g) bs\<rparr>"
  have "wg_flush ops g bs \<noteq> (Panic, g1)" for g1
    using wg_flush_inv(1)[OF g(1) bs(1) ne] by blast
  moreover have "wg_flush_all ops ?g \<noteq> (Panic, g1)" for g1
    using wg_flush_all_inv(1)[of ?g Panic g1] queue_push_simps[OF g(2) bs(1)] g ne by auto
  moreover have "wg_flush_all ops g \<noteq> (Panic, g1)" if "k \<le> queue_len (wg_buffer g)" "k \<noteq> 0" for g1 k
    using wg_flush_all_inv(1)[OF g, of Panic g1] that qb.len_content[OF g(2)]
    by (cases "queue_view (wg_buffer g)") auto
  ultimately show ?thesis
    using k0 by (auto simp: wg_write_def and_then_Panic Let_def split: option.splits if_splits)
qed

text \<open>\<open>Writer::write\<close> always returns, and if it succeeds the generator has accepted all bytes.\<close>

lemma writer_write_ok:
  "wg_inv g data \<Longrightarrow> buffer_ok bs \<Longrightarrow> wg_chunk_size g \<noteq> Some 0 \<Longrightarrow>
   \<exists>r g'. writer_write ops g bs = Some (r, g') \<and> r \<noteq> Panic \<and>
     (r = Ok () \<longrightarrow> wg_inv g' (data @ buffer_view bs) \<and>
        wg_chunk_size g' = wg_chunk_size g \<and> wg_exact g' = wg_exact g)"
proof (induction "buffer_len bs" arbitrary: g data bs rule: less_induct)
  case less
  show ?case
  proof (cases "buffer_len bs = 0")
    case True
    with less.prems show ?thesis
      by (simp add: writer_write.simps[of ops g bs] buffer_is_empty_def buffer_ok_len)
  next
    case False
    obtain q g1 where q: "wg_write ops g bs = (q, g1)" by force
    show ?thesis
    proof (cases q)
      case (Ok n)
      from wg_write_Ok[OF less.prems(1,2) False less.prems(3) q[unfolded Ok]]
      have n: "0 < n" "n \<le> buffer_len bs" "wg_inv g1 (data @ take n (buffer_view bs))"
        "wg_chunk_size g1 = wg_chunk_size g" "wg_exact g1 = wg_exact g" by auto
      obtain b1 where b1: "buffer_advance bs n = Some b1" "buffer_ok b1"
        "buffer_view b1 = drop n (buffer_view bs)" "buffer_len b1 = buffer_len bs - n"
        using buffer_ok_advance[OF less.prems(2) n(2)] by auto
      with n have "buffer_len b1 < buffer_len bs" by simp
      from less.hyps[OF this n(3) b1(2)] n(4,5) less.prems(3) b1 q Ok False show ?thesis
        by (simp add: writer_write.simps[of ops g bs] buffer_is_empty_def)
    next
      case (Err e)
      with q False show ?thesis by (simp add: writer_write.simps[of ops g bs] buffer_is_empty_def)
    next
      case Panic
      with q wg_write_no_panic[OF less.prems(1,2) False less.prems(3)] show ?thesis by blast
    qed
  qed
qed

lemma writer_write_all_ok:
  "wg_inv g data \<Longrightarrow> \<forall>b\<in>set bs. buffer_ok b \<Longrightarrow> wg_chunk_size g \<noteq> Some 0 \<Longrightarrow>
   \<exists>r g'. writer_write_all ops g bs = Some (r, g') \<and> r \<noteq> Panic \<and>
     (r = Ok () \<longrightarrow> wg_inv g' (data @ concat (map buffer_view bs)) \<and>
        wg_chunk_size g' = wg_chunk_size g \<and> wg_exact g' = wg_exact g)"
proof (induction bs arbitrary: g data)
  case (Cons b bs)
  from Cons.prems have "buffer_ok b" by simp
  from writer_write_ok[OF Cons.prems(1) this Cons.prems(3)] obtain r g1 where
    r: "writer_write ops g b = Some (r, g1)" "r \<noteq> Panic"
      "r = Ok () \<Longrightarrow> wg_inv g1 (data @ buffer_view b) \<and>
        wg_chunk_size g1 = wg_chunk_size g \<and> wg_exact g1 = wg_exact g" by blast
  show ?case
  proof (cases r)
    case (Ok u)
    with r(3) have g1: "wg_inv g1 (data @ buffer_view b)" "wg_chunk_size g1 = wg_chunk_size g"
      "wg_exact g1 = wg_exact g" by auto
    from Cons.IH[OF g1(1)] g1(2,3) Cons.prems r(1) Ok show ?thesis by simp
  qed (use r in auto)
qed simp

lemma wg_close_ok:
  assumes "wg_inv g data" "wg_close ops g = (Ok m, g')"
  shows "stored (wg_w g') = Some data"
proof -
  from assms(1) have g: "winv (wg_w g)" "queue_ok (wg_buffer g)"
    and data: "data = concat (writes (wg_w g)) @ queue_view (wg_buffer g)"
    by (auto simp: wg_inv_def)
  show ?thesis
  proof (cases "queue_view (wg_buffer g) = []")
    case True
    with assms(2) qb.len_content[OF g(2)] obtain w where
      "w_close ops (wg_w g) = (Ok m, w)" "g' = g\<lparr>wg_w := w\<rparr>"
      by (auto simp: wg_close_def queue_is_empty_def split: prod.splits)
    with close_Ok[OF g(1)] True data show ?thesis by simp
  next
    case False
    with assms(2) qb.len_content[OF g(2)] obtain g1 w where
      g1: "wg_flush_all ops g = (Ok (), g1)" "w_close ops (wg_w g1) = (Ok m, w)" "g' = g1\<lparr>wg_w := w\<rparr>"
      by (cases "w_close ops (wg_w (snd (wg_flush_all ops g)))")
        (auto simp: wg_close_def queue_is_empty_def and_then_Ok)
    note fl = wg_flush_all_inv[OF g False g1(1)]
    from close_Ok[OF fl(2) g1(2)] fl(6) g1(3) data show ?thesis by simp
  qed
qed

text \<open>In exact mode the pieces written and the buffered rest are the chopped data.\<close>

lemma wg_inv_chop:
  assumes "wg_inv g data" "wg_chunk_size g = Some k" "0 < k" "wg_exact g"
  shows "writes (wg_w g) @ (if queue_view (wg_buffer g) = [] then [] else [queue_view (wg_buffer g)]) =
    chop k data"
  using assms qb.len_content[of "wg_buffer g"] chop_pieces[of k "writes (wg_w g)" "queue_view (wg_buffer g)"]
  by (auto simp: wg_inv_def pieces_ok_def)

lemma wg_inv_new:
  "winv w \<Longrightarrow> writes w = [] \<Longrightarrow>
     wg_inv \<lparr>wg_w = w, wg_chunk_size = c, wg_exact = x, wg_buffer = queue_new\<rparr> []"
  by (auto simp: wg_inv_def pieces_ok_def split: option.splits)

text \<open>A whole session: create, write all buffers, close.\<close>

lemma writer_session:
  fixes w :: 'w and c x
  defines "g \<equiv> \<lparr>wg_w = w, wg_chunk_size = c, wg_exact = x, wg_buffer = queue_new\<rparr>"
  assumes "winv w" "writes w = []" "\<forall>b\<in>set bs. buffer_ok b" "c \<noteq> Some 0"
  shows "\<exists>r g'. writer_write_all ops g bs = Some (r, g') \<and> r \<noteq> Panic \<and>
    (r = Ok () \<longrightarrow>
       (\<forall>m g''. wg_close ops g' = (Ok m, g'') \<longrightarrow>
          stored (wg_w g'') = Some (concat (map buffer_view bs))) \<and>
       (\<forall>k. c = Some k \<longrightarrow> x \<longrightarrow>
          (\<exists>q. writes (wg_w g') @ q = chop k (concat (map buffer_view bs)) \<and> length q \<le> 1)))"
proof -
  have "wg_inv g []" using assms by (simp add: wg_inv_new)
  from writer_write_all_ok[OF this assms(4)] assms(1,5) obtain r g' where
    r: "writer_write_all ops g bs = Some (r, g')" "r \<noteq> Panic"
      "r = Ok () \<Longrightarrow> wg_inv g' (concat (map buffer_view bs)) \<and> wg_chunk_size g' = c \<and> wg_exact g' = x"
    by auto
  have "\<exists>q. writes (wg_w g') @ q = chop k (concat (map buffer_view bs)) \<and> length q \<le> 1"
    if "r = Ok ()" "c = Some k" x for k
  proof (intro exI conjI)
    show "writes (wg_w g') @ (if queue_view (wg_buffer g') = [] then [] else [queue_view (wg_buffer g')]) =
      chop k (concat (map buffer_view bs))"
      using wg_inv_chop[of g' _ k] r(3)[OF that(1)] that assms(5) by simp
  qed simp
  with r wg_close_ok show ?thesis by blast
qed

end

context reliable_writer
begin

lemma wg_flush_total:
  assumes "winv (wg_w g)" "buffer_ok buf" "buffer_view buf \<noteq> []"
  shows "\<exists>g'. wg_flush ops g buf = (Ok (), g')"
  using write_total[OF assms] by (auto simp: wg_flush_def)

lemma wg_flush_all_total:
  assumes "winv (wg_w g)" "queue_ok (wg_buffer g)" "queue_view (wg_buffer g) \<noteq> []"
  shows "\<exists>g'. wg_flush_all ops g = (Ok (), g')"
proof -
  obtain buf where buf: "queue_collect (wg_buffer g) = Some buf" "buffer_ok buf"
    "buffer_view buf = queue_view (wg_buffer g)"
    using qb.collect_ok[OF assms(2)] by auto
  with wg_flush_total[of "g\<lparr>wg_buffer := queue_new\<rparr>" buf] assms show ?thesis
    by (simp add: wg_flush_all_def queue_take_def)
qed

lemma wg_write_total:
  assumes inv: "wg_inv g data" and bs: "buffer_ok bs" "buffer_len bs \<noteq> 0"
    and k0: "wg_chunk_size g \<noteq> Some 0"
  shows "\<exists>n g'. wg_write ops g bs = (Ok n, g')"
proof -
  from inv have g: "winv (wg_w g)" "queue_ok (wg_buffer g)" by (auto simp: wg_inv_def)
  have ne: "buffer_view bs \<noteq> []" using buffer_ok_len[OF bs(1)] bs(2) by auto
  let ?g = "g\<lparr>wg_buffer := queue_push (wg_buffer g) bs\<rparr>"
  from wg_flush_total[OF g(1) bs(1) ne] obtain g1 where g1: "wg_flush ops g bs = (Ok (), g1)" by blast
  from wg_flush_all_total[of ?g] queue_push_simps[OF g(2) bs(1)] g ne obtain g2 where
    g2: "wg_flush_all ops ?g = (Ok (), g2)" by auto
  show ?thesis
  proof (cases "wg_chunk_size g")
    case None
    with g1 show ?thesis by (simp add: wg_write_def Let_def)
  next
    case (Some k)
    show ?thesis
    proof (cases "k \<le> queue_len (wg_buffer g)")
      case True
      then have "queue_view (wg_buffer g) \<noteq> []" using Some k0 qb.len_content[OF g(2)] by auto
      from wg_flush_all_total[OF g this] obtain g3 where "wg_flush_all ops g = (Ok (), g3)" by blast
      with True Some g2 show ?thesis by (simp add: wg_write_def Let_def)
    qed (use Some g2 in \<open>simp add: wg_write_def Let_def\<close>)
  qed
qed

lemma writer_write_total:
  "wg_inv g data \<Longrightarrow> buffer_ok bs \<Longrightarrow> wg_chunk_size g \<noteq> Some 0 \<Longrightarrow>
   \<exists>g'. writer_write ops g bs = Some (Ok (), g') \<and> wg_inv g' (data @ buffer_view bs)"
proof (induction "buffer_len bs" arbitrary: g data bs rule: less_induct)
  case less
  show ?case
  proof (cases "buffer_len bs = 0")
    case True
    with less.prems show ?thesis
      by (simp add: writer_write.simps[of ops g bs] buffer_is_empty_def buffer_ok_len)
  next
    case False
    from wg_write_total[OF less.prems(1,2) False less.prems(3)] obtain n g1 where
      q: "wg_write ops g bs = (Ok n, g1)" by blast
    from wg_write_Ok[OF less.prems(1,2) False less.prems(3) q]
    have n: "0 < n" "n \<le> buffer_len bs" "wg_inv g1 (data @ take n (buffer_view bs))"
      "wg_chunk_size g1 = wg_chunk_size g" by auto
    obtain b1 where b1: "buffer_advance bs n = Some b1" "buffer_ok b1"
      "buffer_view b1 = drop n (buffer_view bs)" "buffer_len b1 = buffer_len bs - n"
      using buffer_ok_advance[OF less.prems(2) n(2)] by auto
    with n have "buffer_len b1 < buffer_len bs" by simp
    from less.hyps[OF this n(3) b1(2)] n(4) less.prems(3) b1 q False show ?thesis
      by (simp add: writer_write.simps[of ops g bs] buffer_is_empty_def)
  qed
qed

lemma wg_close_total:
  assumes "wg_inv g data"
  shows "\<exists>m g'. wg_close ops g = (Ok m, g') \<and> metadata_content_length m = of_nat (length data) \<and>
    stored (wg_w g') = Some data"
proof -
  from assms have g: "winv (wg_w g)" "queue_ok (wg_buffer g)"
    and data: "data = concat (writes (wg_w g)) @ queue_view (wg_buffer g)"
    by (auto simp: wg_inv_def)
  have "\<exists>m g'. wg_close ops g = (Ok m, g') \<and> metadata_content_length m = of_nat (length data)"
  proof (cases "queue_view (wg_buffer g) = []")
    case True
    with close_total[OF g(1)] data qb.len_content[OF g(2)] show ?thesis
      by (auto simp: wg_close_def queue_is_empty_def)
  next
    case False
    from wg_flush_all_total[OF g False] obtain g1 where g1: "wg_flush_all ops g = (Ok (), g1)" by blast
    note fl = wg_flush_all_inv[OF g False g1]
    from close_total[OF fl(2)] fl(6) data g1 False qb.len_content[OF g(2)] show ?thesis
      by (auto simp: wg_close_def queue_is_empty_def)
  qed
  with wg_close_ok[OF assms] show ?thesis by blast
qed

text \<open>Writing one buffer to a fresh writer and closing it.\<close>

lemma writer_put_total:
  assumes "winv w" "writes w = []" "buffer_ok bs" "c \<noteq> Some 0"
  shows "\<exists>g1 m g2. writer_write ops \<lparr>wg_w = w, wg_chunk_size = c, wg_exact = x, wg_buffer = queue_new\<rparr> bs = Some (Ok (), g1) \<and>
    writer_close ops g1 = (Ok m, g2) \<and> metadata_content_length m = of_nat (length (buffer_view bs)) \<and>
    stored (wg_w g2) = Some (buffer_view bs)"
proof -
  let ?g = "\<lparr>wg_w = w, wg_chunk_size = c, wg_exact = x, wg_buffer = queue_new\<rparr>"
  have "wg_inv ?g []" using assms(1,2,4) by (auto simp: wg_inv_def pieces_ok_def split: option.splits)
  from writer_write_total[OF this assms(3)] assms(4) obtain g1 where
    g1: "writer_write ops ?g bs = Some (Ok (), g1)" "wg_inv g1 (buffer_view bs)" by auto
  from wg_close_total[OF g1(2)] g1(1) show ?thesis by (auto simp: writer_close_def)
qed

end

section \<open>A chunk size of zero\<close>

text \<open>With exact chunks of size zero, \<open>write\<close> accepts nothing, again and again.\<close>

lemma wg_write_zero:
  assumes "wg_chunk_size g = Some 0" "wg_exact g" "queue_len (wg_buffer g) = 0"
    "wg_flush_all ops g = (Ok (), g1)" "wg_buffer g1 = queue_new"
  shows "wg_write ops g bs = (Ok 0, g1\<lparr>wg_buffer := queue_new\<rparr>)"
  using assms
  by (cases bs)
    (auto simp: wg_write_def Let_def queue_len_def queue_new_def queue_push_def buffer_is_empty_def)

definition always_ok :: "'w write_ops \<Rightarrow> bool" where
  "always_ok ops \<longleftrightarrow> (\<forall>w bs. fst (w_write ops w bs) = Ok ())"

lemma wg_flush_all_zero:
  assumes "always_ok ops" "wg_buffer g = queue_new"
  shows "\<exists>g1. wg_flush_all ops g = (Ok (), g1) \<and> wg_buffer g1 = queue_new \<and>
    wg_chunk_size g1 = wg_chunk_size g \<and> wg_exact g1 = wg_exact g"
proof -
  have "fst (w_write ops (wg_w g) buffer_new) = Ok ()" using assms(1) by (simp add: always_ok_def)
  with assms(2) show ?thesis
    by (cases "w_write ops (wg_w g) buffer_new")
      (simp add: wg_flush_all_def queue_take_def queue_new_def queue_collect_def wg_flush_def)
qed

definition zero_chunk_state :: "'w write_ops \<Rightarrow> 'w write_generator \<Rightarrow> buffer \<Rightarrow> bool" where
  "zero_chunk_state ops g bs \<longleftrightarrow> always_ok ops \<and> wg_chunk_size g = Some 0 \<and> wg_exact g \<and>
     wg_buffer g = queue_new \<and> buffer_ok bs \<and> buffer_len bs \<noteq> 0"

lemma zero_chunk_step:
  assumes "zero_chunk_state ops g bs"
  shows "\<exists>g1 b1. wg_write ops g bs = (Ok 0, g1) \<and> buffer_advance bs 0 = Some b1 \<and>
    zero_chunk_state ops g1 b1"
proof -
  from assms have st: "always_ok ops" "wg_chunk_size g = Some 0" "wg_exact g"
    "wg_buffer g = queue_new" "buffer_ok bs" "buffer_len bs \<noteq> 0"
    by (auto simp: zero_chunk_state_def)
  from wg_flush_all_zero[OF st(1,4)] obtain g1 where
    g1: "wg_flush_all ops g = (Ok (), g1)" "wg_buffer g1 = queue_new"
      "wg_chunk_size g1 = wg_chunk_size g" "wg_exact g1 = wg_exact g" by blast
  have "queue_len (wg_buffer g) = 0" using st(4) by simp
  from wg_write_zero[OF st(2,3) this g1(1,2)] buffer_ok_advance[OF st(5), of 0] st g1 show ?thesis
    by (auto simp: zero_chunk_state_def)
qed

lemma writer_write_zero_aux:
  assumes "writer_write ops g bs = Some r"
  shows "\<not> zero_chunk_state ops g bs"
proof (rule writer_write.raw_induct[OF _ assms, where P = "\<lambda>ops g bs r. \<not> zero_chunk_state ops g bs"])
  fix f :: "'a write_ops \<Rightarrow> 'a write_generator \<Rightarrow> buffer \<Rightarrow> (unit res \<times> 'a write_generator) option"
    and ops g bs r
  assume IH: "\<And>ops g bs r. f ops g bs = Some r \<Longrightarrow> \<not> zero_chunk_state ops g bs"
    and eq: "(if buffer_is_empty bs then Some (Ok (), g)
      else case wg_write ops g bs of
        (Ok n, g1) \<Rightarrow> (case buffer_advance bs n of None \<Rightarrow> Some (Panic, g1) | Some bs1 \<Rightarrow> f ops g1 bs1)
      | (Err e, g1) \<Rightarrow> Some (Err e, g1)
      | (Panic, g1) \<Rightarrow> Some (Panic, g1)) = Some r"
  show "\<not> zero_chunk_state ops g bs"
  proof
    assume st: "zero_chunk_state ops g bs"
    from zero_chunk_step[OF st] obtain g1 b1 where
      s: "wg_write ops g bs = (Ok 0, g1)" "buffer_advance bs 0 = Some b1" "zero_chunk_state ops g1 b1"
      by blast
    have "\<not> buffer_is_empty bs" using st by (simp add: zero_chunk_state_def buffer_is_empty_def)
    with eq s have "f ops g1 b1 = Some r" by simp
    with IH s(3) show False by blast
  qed
qed

section \<open>Properties\<close>

text \<open>
  C10: For any underlying writer that keeps the contract of \<open>oio::Write\<close> and any chunk size
  but zero, every sequence of \<open>Writer::write\<close> calls returns without panicking.  If they all
  succeed, a successful \<open>close\<close> stores exactly the concatenation of the buffers written; in
  exact mode the pieces handed to the underlying writer are the data cut into chunks of
  exactly the configured size (all but the last one before \<open>close\<close>).
\<close>

theorem writer_stores_all:
  assumes "oio_writer ops winv writes stored" "winv w" "writes w = []"
    "\<forall>b\<in>set bs. buffer_ok b" "c \<noteq> Some 0"
  shows "\<exists>r g'. writer_write_all ops \<lparr>wg_w = w, wg_chunk_size = c, wg_exact = x, wg_buffer = queue_new\<rparr> bs =
      Some (r, g') \<and> r \<noteq> Panic \<and>
    (r = Ok () \<longrightarrow>
       (\<forall>m g''. wg_close ops g' = (Ok m, g'') \<longrightarrow>
          stored (wg_w g'') = Some (concat (map buffer_view bs))) \<and>
       (\<forall>k. c = Some k \<longrightarrow> x \<longrightarrow>
          (\<exists>q. writes (wg_w g') @ q = chop k (concat (map buffer_view bs)) \<and> length q \<le> 1)))"
  using oio_writer.writer_session[OF assms] .

text \<open>
  An exact chunk size of zero (\<open>WriteOptions\<close> and \<open>OpWriter\<close> accept it unchecked) makes
  \<open>Writer::write\<close> of any non-empty buffer loop forever.
\<close>

theorem zero_chunk_never_returns:
  assumes "always_ok ops" "wg_chunk_size g = Some 0" "wg_exact g" "wg_buffer g = queue_new"
    "buffer_ok bs" "buffer_len bs \<noteq> 0"
  shows "writer_write ops g bs = None"
  using writer_write_zero_aux[of ops g bs] assms
  by (cases "writer_write ops g bs") (auto simp: zero_chunk_state_def)

text \<open>A writer that accepts everything, and one whose second write fails once.\<close>

definition sink_ops :: "bytes write_ops" where
  "sink_ops = \<lparr>w_write = (\<lambda>w b. (Ok (), w @ buffer_view b)),
     w_close = (\<lambda>w. (Ok (metadata_new FILE), w)), w_abort = (\<lambda>w. (Ok (), w))\<rparr>"

text \<open>
  C35: A failed flush loses data: when the underlying write fails during \<open>close\<close>, the buffered
  bytes are gone, and calling \<open>close\<close> again succeeds without having written them.
\<close>

theorem failed_close_drops_buffer:
  assumes "queue_len (wg_buffer g) \<noteq> 0" "queue_collect (wg_buffer g) = Some buf"
    "w_write ops (wg_w g) buf = (Err e, w1)" "w_close ops w1 = (Ok m, w2)"
  shows "\<exists>g1. wg_close ops g = (Err e, g1) \<and> wg_close ops g1 = (Ok m, g1\<lparr>wg_w := w2\<rparr>)"
  using assms
  by (auto simp: wg_close_def queue_is_empty_def wg_flush_all_def queue_take_def wg_flush_def
      queue_new_def queue_len_def)

text \<open>The writer of the witness fails on its first write only.\<close>

definition flaky_ops :: "(nat \<times> bytes) write_ops" where
  "flaky_ops = \<lparr>w_write = (\<lambda>(n, w) b. if n = 0 then (Err (set_temporary (error_new Unexpected ''timeout'')), (1, w))
                                      else (Ok (), (n, w @ buffer_view b))),
     w_close = (\<lambda>w. (Ok (metadata_new FILE), w)), w_abort = (\<lambda>w. (Ok (), w))\<rparr>"

theorem failed_close_drops_buffer_witness:
  "\<exists>g1. wg_close flaky_ops
       \<lparr>wg_w = (0, []), wg_chunk_size = Some 8, wg_exact = True, wg_buffer = [buffer_from_bytes [1, 2]]\<rparr> =
     (Err (set_temporary (error_new Unexpected ''timeout'')), g1) \<and>
     wg_close flaky_ops g1 = (Ok (metadata_new FILE), g1\<lparr>wg_w := (1, [])\<rparr>)"
  using failed_close_drops_buffer[of
      "\<lparr>wg_w = (0, []), wg_chunk_size = Some 8, wg_exact = True, wg_buffer = [buffer_from_bytes [1, 2]]\<rparr>"
      "buffer_from_bytes [1, 2]" flaky_ops "set_temporary (error_new Unexpected ''timeout'')" "(1, [])"
      "metadata_new FILE" "(1, [])"]
  by (simp add: flaky_ops_def queue_len_def queue_collect_def buffer_from_bytes_def)

end
