(* ===== verification/Listers.thy ===== *)
theory Listers
  imports Ops
begin

text \<open>
  Listing: the raw and the public entry (\<open>raw/oio/entry.rs\<close>, \<open>types/entry.rs\<close>), the
  interface \<open>oio::List\<close> (\<open>raw/oio/list/api.rs\<close>), the adapters \<open>PrefixLister\<close>,
  \<open>HierarchyLister\<close> and \<open>PageLister\<close> of \<open>raw/oio/list\<close>, and the public stream
  \<open>Lister\<close> of \<open>types/list.rs\<close> (all under \<open>core/core/src\<close>).

  The method \<open>next\<close> returns its result and the new state; \<open>None\<close> stands for a call that
  does not return, since the adapters loop over an inner lister.  Locale \<open>finite_lister\<close> is
  the contract of a lister that yields a finite list of entries without failing; the adapters
  keep it.
\<close>

section \<open>Entries\<close>

record oio_entry =
  oe_path :: str
  oe_meta :: metadata

definition oio_entry_with :: "str \<Rightarrow> metadata \<Rightarrow> oio_entry" where
  "oio_entry_with path meta = \<lparr>oe_path = (if path = [] then ''/'' else path), oe_meta = meta\<rparr>"

definition oio_entry_new :: "str \<Rightarrow> metadata \<Rightarrow> oio_entry" where
  "oio_entry_new path meta = oio_entry_with path meta"

definition oio_entry_set_path :: "str \<Rightarrow> oio_entry \<Rightarrow> oio_entry" where
  "oio_entry_set_path path e = e\<lparr>oe_path := path\<rparr>"

definition oio_entry_set_mode :: "entry_mode \<Rightarrow> oio_entry \<Rightarrow> oio_entry" where
  "oio_entry_set_mode mode e = e\<lparr>oe_meta := md_set_mode mode (oe_meta e)\<rparr>"

definition oio_entry_mode :: "oio_entry \<Rightarrow> entry_mode" where
  "oio_entry_mode e = md_mode (oe_meta e)"

record entry =
  en_path :: str
  en_metadata :: metadata

definition into_entry :: "oio_entry \<Rightarrow> entry" where
  "into_entry e = \<lparr>en_path = oe_path e, en_metadata = oe_meta e\<rparr>"

section \<open>The trait\<close>

type_synonym 'l lister_next = "'l \<Rightarrow> (oio_entry option res \<times> 'l) option"

text \<open>\<open>impl List for ()\<close> and \<open>impl List for Option<P>\<close>.\<close>

definition unit_next :: "unit lister_next" where
  "unit_next l = Some (Ok None, l)"

definition option_next :: "'l lister_next \<Rightarrow> 'l option lister_next" where
  "option_next inner l =
     (case l of
        Some p \<Rightarrow> map_option (\<lambda>(r, p'). (r, Some p')) (inner p)
      | None \<Rightarrow> Some (Ok None, None))"

section \<open>PrefixLister\<close>

record 'l prefix_lister =
  pl_lister :: 'l
  pl_prefix :: str

definition prefix_new :: "'l \<Rightarrow> str \<Rightarrow> 'l prefix_lister" where
  "prefix_new lister pre = \<lparr>pl_lister = lister, pl_prefix = pre\<rparr>"

partial_function (option) prefix_next ::
  "'l lister_next \<Rightarrow> 'l prefix_lister \<Rightarrow> (oio_entry option res \<times> 'l prefix_lister) option" where
  "prefix_next inner p =
     (case inner (pl_lister p) of
        None \<Rightarrow> None
      | Some (Ok (Some e), l) \<Rightarrow>
          (if \<not> starts_with (oe_path e) (pl_prefix p) then prefix_next inner (p\<lparr>pl_lister := l\<rparr>)
           else Some (Ok (Some e), p\<lparr>pl_lister := l\<rparr>))
      | Some (Ok None, l) \<Rightarrow> Some (Ok None, p\<lparr>pl_lister := l\<rparr>)
      | Some (Err e, l) \<Rightarrow> Some (Err e, p\<lparr>pl_lister := l\<rparr>)
      | Some (Panic, l) \<Rightarrow> Some (Panic, p\<lparr>pl_lister := l\<rparr>))"

section \<open>HierarchyLister\<close>

record 'l hierarchy_lister =
  hl_lister :: 'l
  hl_path :: str
  hl_visited :: "str set"
  hl_recursive :: bool

definition hierarchy_new :: "'l \<Rightarrow> str \<Rightarrow> bool \<Rightarrow> 'l hierarchy_lister" where
  "hierarchy_new lister path recursive =
     \<lparr>hl_lister = lister, hl_path = (if path = ''/'' then [] else path), hl_visited = {},
      hl_recursive = recursive\<rparr>"

text \<open>\<open>keep_entry\<close>: whether to keep it, the entry as modified, and the visited directories.\<close>

definition keep_entry :: "str \<Rightarrow> str set \<Rightarrow> oio_entry \<Rightarrow> bool \<times> oio_entry \<times> str set" where
  "keep_entry path visited e =
     (if \<not> starts_with (oe_path e) path then (False, e, visited)
      else if oe_path e \<in> visited then (False, e, visited)
      else let prefix_len = length path
           in case find_char (drop prefix_len (oe_path e)) slash of
                None \<Rightarrow> (True, e, visited)
              | Some i \<Rightarrow>
                  (let idx = i + prefix_len + 1
                   in if idx = length (oe_path e) then (True, e, insert (oe_path e) visited)
                      else let dir = take idx (oe_path e)
                           in if dir \<notin> visited
                              then (True, oio_entry_set_mode DIR (oio_entry_set_path dir e),
                                    insert dir visited)
                              else (False, e, visited)))"

partial_function (option) hierarchy_next ::
  "'l lister_next \<Rightarrow> 'l hierarchy_lister \<Rightarrow> (oio_entry option res \<times> 'l hierarchy_lister) option" where
  "hierarchy_next inner h =
     (case inner (hl_lister h) of
        None \<Rightarrow> None
      | Some (Ok (Some e), l) \<Rightarrow>
          (let h1 = h\<lparr>hl_lister := l\<rparr>
           in if hl_recursive h then Some (Ok (Some e), h1)
              else case keep_entry (hl_path h) (hl_visited h) e of
                     (keep, e', visited) \<Rightarrow>
                       (if keep then Some (Ok (Some e'), h1\<lparr>hl_visited := visited\<rparr>)
                        else hierarchy_next inner (h1\<lparr>hl_visited := visited\<rparr>)))
      | Some (Ok None, l) \<Rightarrow> Some (Ok None, h\<lparr>hl_lister := l\<rparr>)
      | Some (Err e, l) \<Rightarrow> Some (Err e, h\<lparr>hl_lister := l\<rparr>)
      | Some (Panic, l) \<Rightarrow> Some (Panic, h\<lparr>hl_lister := l\<rparr>))"

section \<open>PageLister\<close>

record page_context =
  pc_done :: bool
  pc_token :: str
  pc_entries :: "oio_entry list"

definition page_new :: page_context where
  "page_new = \<lparr>pc_done = False, pc_token = [], pc_entries = []\<rparr>"

partial_function (option) page_next ::
  "(page_context \<Rightarrow> unit res \<times> page_context) \<Rightarrow> page_context \<Rightarrow>
     (oio_entry option res \<times> page_context) option" where
  "page_next next_page ctx =
     (case pc_entries ctx of
        e # es \<Rightarrow> Some (Ok (Some e), ctx\<lparr>pc_entries := es\<rparr>)
      | [] \<Rightarrow>
          (if pc_done ctx then Some (Ok None, ctx)
           else case next_page ctx of
                  (Ok _, ctx1) \<Rightarrow> page_next next_page ctx1
                | (Err e, ctx1) \<Rightarrow> Some (Err e, ctx1)
                | (Panic, ctx1) \<Rightarrow> Some (Panic, ctx1)))"

section \<open>Lister\<close>

text \<open>
  The public stream, polled until it is ready: the lister is gone after the end, and nothing
  is yielded after an error.
\<close>

record 'l lister =
  li_lister :: "'l option"
  li_errored :: bool

definition lister_create :: "'l res \<Rightarrow> 'l lister res" where
  "lister_create opened = bind_res opened (\<lambda>l. Ok \<lparr>li_lister = Some l, li_errored = False\<rparr>)"

definition lister_poll_next ::
  "'l lister_next \<Rightarrow> 'l lister \<Rightarrow> (entry res option \<times> 'l lister) option" where
  "lister_poll_next inner s =
     (if li_errored s then Some (None, s)
      else case li_lister s of
        None \<Rightarrow> Some (None, s)
      | Some l \<Rightarrow>
          (case inner l of
             None \<Rightarrow> None
           | Some (Ok (Some oe), l') \<Rightarrow> Some (Some (Ok (into_entry oe)), s\<lparr>li_lister := Some l'\<rparr>)
           | Some (Ok None, l') \<Rightarrow> Some (None, s\<lparr>li_lister := None\<rparr>)
           | Some (Err e, l') \<Rightarrow> Some (Some (Err e), s\<lparr>li_lister := Some l', li_errored := True\<rparr>)
           | Some (Panic, l') \<Rightarrow> Some (Some Panic, s\<lparr>li_lister := Some l'\<rparr>)))"

section \<open>The contract of a finite lister\<close>

locale finite_lister =
  fixes nxt :: "'l lister_next"
    and contents :: "'l \<Rightarrow> oio_entry list"
    and linv :: "'l \<Rightarrow> bool"
  assumes next_Some: "linv l \<Longrightarrow> contents l = e # es \<Longrightarrow>
      \<exists>l'. nxt l = Some (Ok (Some e), l') \<and> linv l' \<and> contents l' = es"
    and next_None: "linv l \<Longrightarrow> contents l = [] \<Longrightarrow>
      \<exists>l'. nxt l = Some (Ok None, l') \<and> linv l' \<and> contents l' = []"

text \<open>Calling \<open>next\<close> until \<open>None\<close>, at most the given number of times.\<close>

fun list_all_entries :: "nat \<Rightarrow> 'l lister_next \<Rightarrow> 'l \<Rightarrow> oio_entry list option" where
  "list_all_entries 0 nxt l = None"
| "list_all_entries (Suc n) nxt l =
     (case nxt l of
        Some (Ok (Some e), l') \<Rightarrow> map_option ((#) e) (list_all_entries n nxt l')
      | Some (Ok None, l') \<Rightarrow> Some []
      | _ \<Rightarrow> None)"

text \<open>What \<open>keep_entry\<close> makes of a list of entries.\<close>

fun hierarchy_walk :: "str \<Rightarrow> str set \<Rightarrow> oio_entry list \<Rightarrow> oio_entry list" where
  "hierarchy_walk path visited [] = []"
| "hierarchy_walk path visited (e # es) =
     (case keep_entry path visited e of
        (keep, e', visited') \<Rightarrow>
          (if keep then e' # hierarchy_walk path visited' es else hierarchy_walk path visited' es))"

definition hierarchy_contents :: "('l \<Rightarrow> oio_entry list) \<Rightarrow> 'l hierarchy_lister \<Rightarrow> oio_entry list" where
  "hierarchy_contents contents h =
     (if hl_recursive h then contents (hl_lister h)
      else hierarchy_walk (hl_path h) (hl_visited h) (contents (hl_lister h)))"

lemma hierarchy_walk_Cons_cases:
  obtains (kept) e' v where "keep_entry path visited e = (True, e', v)"
      "hierarchy_walk path visited (e # es) = e' # hierarchy_walk path v es"
  | (dropped) e' v where "keep_entry path visited e = (False, e', v)"
      "hierarchy_walk path visited (e # es) = hierarchy_walk path v es"
  by (cases "keep_entry path visited e"; cases "fst (keep_entry path visited e)") auto

context finite_lister
begin

text \<open>A finite lister yields its contents and then \<open>None\<close>.\<close>

lemma list_all_entries_contents:
  "linv l \<Longrightarrow> list_all_entries (Suc (length (contents l))) nxt l = Some (contents l)"
proof (induction "contents l" arbitrary: l)
  case Nil
  from next_None[OF Nil(2) Nil(1)[symmetric]] show ?case using Nil(1) by auto
next
  case (Cons e es)
  from next_Some[OF Cons(3) Cons(2)[symmetric]] obtain l' where
    l': "nxt l = Some (Ok (Some e), l')" "linv l'" "contents l' = es" by blast
  from Cons(1)[OF l'(3)[symmetric] l'(2)] l'(1,3) Cons(2) show ?case
    by (simp add: Cons(2)[symmetric])
qed

text \<open>After the end, \<open>next\<close> keeps returning \<open>None\<close>.\<close>

lemma next_None_forever:
  assumes "linv l" "contents l = []"
  shows "\<exists>l'. nxt l = Some (Ok None, l') \<and> (\<exists>l''. nxt l' = Some (Ok None, l''))"
  using next_None[OF assms] next_None by blast

text \<open>\<open>PrefixLister\<close> is a finite lister of the entries with the prefix.\<close>

lemma prefix_lister:
  "finite_lister (prefix_next nxt)
     (\<lambda>p. filter (\<lambda>e. starts_with (oe_path e) (pl_prefix p)) (contents (pl_lister p)))
     (\<lambda>p. linv (pl_lister p))"
proof (rule finite_lister.intro)
  fix p :: "'l prefix_lister" and e es
  assume "linv (pl_lister p)"
    "filter (\<lambda>e. starts_with (oe_path e) (pl_prefix p)) (contents (pl_lister p)) = e # es"
  then show "\<exists>p'. prefix_next nxt p = Some (Ok (Some e), p') \<and> linv (pl_lister p') \<and>
    filter (\<lambda>e. starts_with (oe_path e) (pl_prefix p')) (contents (pl_lister p')) = es"
  proof (induction "contents (pl_lister p)" arbitrary: p)
    case (Cons a as)
    from next_Some[OF Cons(3) Cons(2)[symmetric]] obtain l' where
      l': "nxt (pl_lister p) = Some (Ok (Some a), l')" "linv l'" "contents l' = as" by blast
    show ?case
    proof (cases "starts_with (oe_path a) (pl_prefix p)")
      case True
      with l' Cons(2)[symmetric] Cons(4) show ?thesis by (simp add: prefix_next.simps)
    next
      case False
      with Cons(1)[of "p\<lparr>pl_lister := l'\<rparr>"] l' Cons(2)[symmetric] Cons(4) show ?thesis
        by (simp add: prefix_next.simps[of nxt p])
    qed
  qed simp
next
  fix p :: "'l prefix_lister"
  assume "linv (pl_lister p)"
    "filter (\<lambda>e. starts_with (oe_path e) (pl_prefix p)) (contents (pl_lister p)) = []"
  then show "\<exists>p'. prefix_next nxt p = Some (Ok None, p') \<and> linv (pl_lister p') \<and>
    filter (\<lambda>e. starts_with (oe_path e) (pl_prefix p')) (contents (pl_lister p')) = []"
  proof (induction "contents (pl_lister p)" arbitrary: p)
    case Nil
    from next_None[OF Nil(2) Nil(1)[symmetric]] show ?case by (auto simp: prefix_next.simps)
  next
    case (Cons a as)
    from next_Some[OF Cons(3) Cons(2)[symmetric]] obtain l' where
      l': "nxt (pl_lister p) = Some (Ok (Some a), l')" "linv l'" "contents l' = as" by blast
    with Cons(1)[of "p\<lparr>pl_lister := l'\<rparr>"] Cons(2)[symmetric] Cons(4) show ?case
      by (simp add: prefix_next.simps[of nxt p] split: if_splits)
  qed
qed

text \<open>\<open>HierarchyLister\<close> is a finite lister of the entries it keeps.\<close>

lemma hierarchy_lister:
  "finite_lister (hierarchy_next nxt) (hierarchy_contents contents) (\<lambda>h. linv (hl_lister h))"
proof (rule finite_lister.intro)
  fix h :: "'l hierarchy_lister" and e es
  assume "linv (hl_lister h)" "hierarchy_contents contents h = e # es"
  then show "\<exists>h'. hierarchy_next nxt h = Some (Ok (Some e), h') \<and> linv (hl_lister h') \<and>
    hierarchy_contents contents h' = es"
  proof (induction "contents (hl_lister h)" arbitrary: h)
    case Nil
    then show ?case by (simp add: hierarchy_contents_def split: if_splits)
  next
    case (Cons a as)
    from next_Some[OF Cons(3) Cons(2)[symmetric]] obtain l' where
      l': "nxt (hl_lister h) = Some (Ok (Some a), l')" "linv l'" "contents l' = as" by blast
    show ?case
    proof (cases "hl_recursive h")
      case True
      with l' Cons(2)[symmetric] Cons(4) show ?thesis
        by (simp add: hierarchy_next.simps hierarchy_contents_def)
    next
      case False
      show ?thesis
      proof (cases rule: hierarchy_walk_Cons_cases[of "hl_path h" "hl_visited h" a as])
        case (kept e' v)
        with False l' Cons(2)[symmetric] Cons(4) show ?thesis
          by (simp add: hierarchy_next.simps[of nxt h] hierarchy_contents_def)
      next
        case (dropped e' v)
        with Cons(1)[of "h\<lparr>hl_lister := l', hl_visited := v\<rparr>"] False l' Cons(2)[symmetric] Cons(4)
        show ?thesis by (simp add: hierarchy_next.simps[of nxt h] hierarchy_contents_def)
      qed
    qed
  qed
next
  fix h :: "'l hierarchy_lister"
  assume "linv (hl_lister h)" "hierarchy_contents contents h = []"
  then show "\<exists>h'. hierarchy_next nxt h = Some (Ok None, h') \<and> linv (hl_lister h') \<and>
    hierarchy_contents contents h' = []"
  proof (induction "contents (hl_lister h)" arbitrary: h)
    case Nil
    from next_None[OF Nil(2) Nil(1)[symmetric]] show ?case
      by (auto simp: hierarchy_next.simps hierarchy_contents_def)
  next
    case (Cons a as)
    from next_Some[OF Cons(3) Cons(2)[symmetric]] obtain l' where
      l': "nxt (hl_lister h) = Some (Ok (Some a), l')" "linv l'" "contents l' = as" by blast
    from Cons(2)[symmetric] Cons(4) have nr: "\<not> hl_recursive h"
      by (auto simp: hierarchy_contents_def)
    show ?case
    proof (cases rule: hierarchy_walk_Cons_cases[of "hl_path h" "hl_visited h" a as])
      case (kept e' v)
      with nr Cons(2)[symmetric] Cons(4) show ?thesis by (simp add: hierarchy_contents_def)
    next
      case (dropped e' v)
      with Cons(1)[of "h\<lparr>hl_lister := l', hl_visited := v\<rparr>"] nr l' Cons(2)[symmetric] Cons(4)
      show ?thesis by (simp add: hierarchy_next.simps[of nxt h] hierarchy_contents_def)
    qed
  qed
qed

end

text \<open>A predicate on the entries and an invariant of the state restrict the contract.\<close>

lemma finite_lister_restrict:
  assumes "finite_lister nxt contents linv" "\<And>x r y. linv x \<Longrightarrow> Q x \<Longrightarrow> nxt x = Some (r, y) \<Longrightarrow> Q y"
  shows "finite_lister nxt contents (\<lambda>x. linv x \<and> Q x \<and> (\<forall>e\<in>set (contents x). P e))"
proof (rule finite_lister.intro)
  fix x e es
  assume x: "linv x \<and> Q x \<and> (\<forall>e\<in>set (contents x). P e)" "contents x = e # es"
  with finite_lister.next_Some[OF assms(1), of x e es] assms(2)[of x]
  show "\<exists>y. nxt x = Some (Ok (Some e), y) \<and> (linv y \<and> Q y \<and> (\<forall>e\<in>set (contents y). P e)) \<and> contents y = es" by fastforce
next
  fix x
  assume "linv x \<and> Q x \<and> (\<forall>e\<in>set (contents x). P e)" "contents x = []"
  with finite_lister.next_None[OF assms(1), of x] assms(2)[of x]
  show "\<exists>y. nxt x = Some (Ok None, y) \<and> (linv y \<and> Q y \<and> (\<forall>e\<in>set (contents y). P e)) \<and> contents y = []" by fastforce
qed

lemma finite_lister_cong:
  assumes "finite_lister nxt contents linv" "\<And>x. linv x \<Longrightarrow> contents x = contents' x"
  shows "finite_lister nxt contents' linv"
proof (rule finite_lister.intro)
  fix x e es
  assume x: "linv x" "contents' x = e # es"
  with assms(2) have "contents x = e # es" by simp
  from finite_lister.next_Some[OF assms(1) x(1) this] assms(2)
  show "\<exists>y. nxt x = Some (Ok (Some e), y) \<and> linv y \<and> contents' y = es" by fastforce
next
  fix x
  assume x: "linv x" "contents' x = []"
  with assms(2) have "contents x = []" by simp
  from finite_lister.next_None[OF assms(1) x(1) this] assms(2)
  show "\<exists>y. nxt x = Some (Ok None, y) \<and> linv y \<and> contents' y = []" by fastforce
qed

section \<open>The children of a directory\<close>

text \<open>
  The direct child of \<open>p\<close> on the way to \<open>q\<close>: \<open>q\<close> itself if nothing is below it, else the
  path up to and including the first slash behind \<open>p\<close>.
\<close>

definition child_of :: "str \<Rightarrow> str \<Rightarrow> str" where
  "child_of p q =
     (case find_char (drop (length p) q) slash of
        None \<Rightarrow> q
      | Some i \<Rightarrow> take (i + length p + 1) q)"

definition child_dir :: "str \<Rightarrow> str \<Rightarrow> bool" where
  "child_dir p q \<longleftrightarrow> slash \<in> set (drop (length p) q)"

lemma find_char_Some_D: "find_char xs c = Some i \<Longrightarrow> i < length xs \<and> xs ! i = c"
  by (induction xs arbitrary: i) (auto split: if_splits)

lemma keep_entry_path:
  assumes "keep_entry p v e = (k, e', v')"
  shows "if starts_with (oe_path e) p \<and> oe_path e \<notin> v \<and>
            (child_dir p (oe_path e) \<longrightarrow> child_of p (oe_path e) \<notin> v)
         then k \<and> oe_path e' = child_of p (oe_path e) \<and>
              v' = (if child_dir p (oe_path e) then insert (child_of p (oe_path e)) v else v)
         else \<not> k \<and> v' = v"
proof -
  let ?q = "oe_path e"
  show ?thesis
  proof (cases "find_char (drop (length p) ?q) slash")
    case None
    then have "\<not> child_dir p ?q" by (simp add: child_dir_def find_char_None_iff)
    with None assms show ?thesis
      by (auto simp: keep_entry_def child_of_def Let_def split: if_splits)
  next
    case (Some i)
    then have dir: "child_dir p ?q"
      using find_char_Some_D[OF Some] by (auto simp: child_dir_def in_set_conv_nth)
    from Some assms dir show ?thesis
      by (auto simp: keep_entry_def child_of_def Let_def oio_entry_set_mode_def
          oio_entry_set_path_def split: if_splits)
  qed
qed

lemma child_of_dir:
  assumes "child_dir p q" shows "child_dir p (child_of p q)"
proof -
  from assms obtain i where i: "find_char (drop (length p) q) slash = Some i"
    by (cases "find_char (drop (length p) q) slash") (auto simp: child_dir_def find_char_None_iff)
  from find_char_Some_D[OF i] have "drop (length p) (take (i + length p + 1) q) ! i = slash"
    "i < length (drop (length p) (take (i + length p + 1) q))" by auto
  then show ?thesis using i by (auto simp: child_dir_def child_of_def in_set_conv_nth)
qed

lemma child_of_file: "\<not> child_dir p q \<Longrightarrow> child_of p q = q"
  by (simp add: child_dir_def child_of_def find_char_None_iff[symmetric])

lemma child_of_idem:
  assumes "child_dir p q" shows "child_of p (child_of p q) = child_of p q"
proof -
  from assms obtain i where i: "find_char (drop (length p) q) slash = Some i"
    by (cases "find_char (drop (length p) q) slash") (auto simp: child_dir_def find_char_None_iff)
  have take: "find_char (take (Suc i) xs) c = Some i" if "find_char xs c = Some i" for xs :: str and c
    using that by (induction xs arbitrary: i) (auto split: if_splits)
  have "drop (length p) (take (i + length p + 1) q) = take (Suc i) (drop (length p) q)"
    by (simp add: drop_take)
  with take[OF i] i show ?thesis by (simp add: child_of_def)
qed

lemma hierarchy_walk_paths:
  assumes "\<forall>x\<in>v. child_dir p x \<and> child_of p x = x"
  shows "set (map oe_path (hierarchy_walk p v es)) =
    child_of p ` {q \<in> oe_path ` set es. starts_with q p} - v"
  using assms
proof (induction es arbitrary: v)
  case (Cons e es)
  obtain k e' v' where k: "keep_entry p v e = (k, e', v')" by (metis prod_cases3)
  let ?q = "oe_path e"
  note kp = keep_entry_path[OF k]
  consider (out) "\<not> starts_with ?q p" | (seen) "starts_with ?q p" "?q \<in> v"
    | (leaf) "starts_with ?q p" "?q \<notin> v" "\<not> child_dir p ?q"
    | (old) "starts_with ?q p" "?q \<notin> v" "child_dir p ?q" "child_of p ?q \<in> v"
    | (dir) "starts_with ?q p" "?q \<notin> v" "child_dir p ?q" "child_of p ?q \<notin> v"
    by blast
  then show ?case
  proof cases
    case out
    with kp k Cons.IH[OF Cons.prems] show ?thesis by auto
  next
    case seen
    with Cons.prems have "child_of p ?q \<in> v" by auto
    with seen kp k Cons.IH[OF Cons.prems] show ?thesis by auto
  next
    case leaf
    have "{q \<in> oe_path ` set (e # es). starts_with q p} =
        insert ?q {q \<in> oe_path ` set es. starts_with q p}" using leaf(1) by auto
    with leaf kp k Cons.IH[OF Cons.prems] child_of_file[of p ?q] show ?thesis
      by (simp add: insert_Diff_if)
  next
    case old
    with kp k Cons.IH[OF Cons.prems] show ?thesis by auto
  next
    case dir
    then have "\<forall>x\<in>insert (child_of p ?q) v. child_dir p x \<and> child_of p x = x"
      using Cons.prems child_of_dir child_of_idem by auto
    with dir kp k Cons.IH[of v'] show ?thesis by auto
  qed
qed simp

lemma hierarchy_walk_distinct:
  assumes "\<forall>x\<in>v. child_dir p x \<and> child_of p x = x" "distinct (map oe_path es)"
  shows "distinct (map oe_path (hierarchy_walk p v es))"
  using assms
proof (induction es arbitrary: v)
  case (Cons e es)
  obtain k e' v' where k: "keep_entry p v e = (k, e', v')" by (metis prod_cases3)
  let ?q = "oe_path e"
  note kp = keep_entry_path[OF k]
  have v': "\<forall>x\<in>v'. child_dir p x \<and> child_of p x = x"
    using kp Cons.prems(1) child_of_dir[of p ?q] child_of_idem[of p ?q] by (auto split: if_splits)
  have IH: "distinct (map oe_path (hierarchy_walk p v' es))"
    using Cons.IH[OF v'] Cons.prems(2) by simp
  show ?case
  proof (cases k)
    case False
    with k IH show ?thesis by simp
  next
    case True
    have "oe_path e' \<notin> set (map oe_path (hierarchy_walk p v' es))"
    proof (cases "child_dir p ?q")
      case True
      with kp \<open>k\<close> have "oe_path e' \<in> v'" by (auto split: if_splits)
      then show ?thesis using hierarchy_walk_paths[OF v', of es] by simp
    next
      case False
      with kp \<open>k\<close> have q: "oe_path e' = ?q" by (auto simp: child_of_file split: if_splits)
      have "child_of p (oe_path a) \<noteq> ?q" if "a \<in> set es" for a
      proof (cases "child_dir p (oe_path a)")
        case True
        with child_of_dir[OF True] False show ?thesis by auto
      next
        case False
        with that Cons.prems(2) child_of_file[OF False] show ?thesis by (auto simp: image_iff)
      qed
      with q have "oe_path e' \<notin> child_of p ` {q \<in> oe_path ` set es. starts_with q p}" by force
      then show ?thesis using hierarchy_walk_paths[OF v', of es] by simp
    qed
    with True k IH show ?thesis by simp
  qed
qed simp

section \<open>Pages\<close>

text \<open>
  A paged source: from the token of a page on, \<open>next_page\<close> delivers the listed pages, the last
  of them together with \<open>done\<close>.
\<close>

definition page_source ::
  "(page_context \<Rightarrow> unit res \<times> page_context) \<Rightarrow> (str \<Rightarrow> oio_entry list list) \<Rightarrow> bool" where
  "page_source next_page pages \<longleftrightarrow>
     (\<forall>tok. \<exists>es ps t'. pages tok = es # ps \<and>
        next_page \<lparr>pc_done = False, pc_token = tok, pc_entries = []\<rparr> =
          (Ok (), \<lparr>pc_done = (ps = []), pc_token = t', pc_entries = es\<rparr>) \<and>
        (ps \<noteq> [] \<longrightarrow> pages t' = ps))"

definition page_contents :: "(str \<Rightarrow> oio_entry list list) \<Rightarrow> page_context \<Rightarrow> oio_entry list" where
  "page_contents pages ctx =
     pc_entries ctx @ (if pc_done ctx then [] else concat (pages (pc_token ctx)))"

lemma page_next_skip:
  assumes "page_source next_page pages" "pc_entries ctx = []" "\<not> pc_done ctx"
  shows "\<exists>ctx1. page_next next_page ctx = page_next next_page ctx1 \<and>
    page_contents pages ctx1 = page_contents pages ctx \<and>
    (pc_done ctx1 \<or> length (pages (pc_token ctx1)) < length (pages (pc_token ctx)))"
proof -
  from assms(1) obtain es ps t' where p: "pages (pc_token ctx) = es # ps"
    "next_page \<lparr>pc_done = False, pc_token = pc_token ctx, pc_entries = []\<rparr> =
       (Ok (), \<lparr>pc_done = (ps = []), pc_token = t', pc_entries = es\<rparr>)"
    "ps \<noteq> [] \<longrightarrow> pages t' = ps"
    unfolding page_source_def by blast
  moreover have "ctx = \<lparr>pc_done = False, pc_token = pc_token ctx, pc_entries = []\<rparr>"
    using assms(2,3) by simp
  ultimately have "next_page ctx = (Ok (), \<lparr>pc_done = (ps = []), pc_token = t', pc_entries = es\<rparr>)"
    by simp
  with assms(2,3) p show ?thesis
    by (intro exI[of _ "\<lparr>pc_done = (ps = []), pc_token = t', pc_entries = es\<rparr>"])
      (auto simp: page_next.simps[of next_page ctx] page_contents_def)
qed

lemma page_next_contents:
  assumes "page_source next_page pages"
  shows "\<exists>ctx'. page_next next_page ctx =
    (case page_contents pages ctx of
       [] \<Rightarrow> Some (Ok None, ctx') | e # es \<Rightarrow> Some (Ok (Some e), ctx')) \<and>
    page_contents pages ctx' = tl (page_contents pages ctx)"
proof (induction "if pc_done ctx then 0 else Suc (length (pages (pc_token ctx)))" arbitrary: ctx
    rule: less_induct)
  case less
  show ?case
  proof (cases "pc_entries ctx")
    case (Cons e es)
    then show ?thesis
      by (intro exI[of _ "ctx\<lparr>pc_entries := es\<rparr>"]) (simp add: page_next.simps page_contents_def)
  next
    case Nil
    show ?thesis
    proof (cases "pc_done ctx")
      case True
      with Nil show ?thesis by (intro exI[of _ ctx]) (simp add: page_next.simps page_contents_def)
    next
      case False
      from page_next_skip[OF assms Nil False] obtain ctx1 where c:
        "page_next next_page ctx = page_next next_page ctx1"
        "page_contents pages ctx1 = page_contents pages ctx"
        "pc_done ctx1 \<or> length (pages (pc_token ctx1)) < length (pages (pc_token ctx))" by blast
      with less[of ctx1] False show ?thesis by auto
    qed
  qed
qed

lemma page_lister:
  assumes "page_source next_page pages"
  shows "finite_lister (page_next next_page) (page_contents pages) (\<lambda>ctx. True)"
proof (rule finite_lister.intro)
  fix ctx e es assume "page_contents pages ctx = e # es"
  with page_next_contents[OF assms, of ctx] show
    "\<exists>l'. page_next next_page ctx = Some (Ok (Some e), l') \<and> True \<and> page_contents pages l' = es" by auto
next
  fix ctx assume "page_contents pages ctx = []"
  with page_next_contents[OF assms, of ctx] show
    "\<exists>l'. page_next next_page ctx = Some (Ok None, l') \<and> True \<and> page_contents pages l' = []" by auto
qed

section \<open>Properties\<close>

text \<open>
  Over any lister that yields a finite list of entries with distinct paths,
  \<open>HierarchyLister\<close> ends, and a non-recursive listing yields every direct child of the path
  (a deeper entry stands for its first directory) exactly once and nothing else; a recursive
  listing yields the entries unchanged.
\<close>

theorem hierarchy_lists_children:
  assumes "finite_lister nxt contents linv" "linv l" "distinct (map oe_path (contents l))"
    "base = (if path = ''/'' then [] else path)"
  shows "\<exists>n es. list_all_entries n (hierarchy_next nxt) (hierarchy_new l path recursive) = Some es \<and>
    (if recursive then es = contents l
     else distinct (map oe_path es) \<and>
       set (map oe_path es) = child_of base ` {q \<in> oe_path ` set (contents l). starts_with q base})"
proof -
  let ?h = "hierarchy_new l path recursive"
  have "list_all_entries (Suc (length (hierarchy_contents contents ?h))) (hierarchy_next nxt) ?h =
      Some (hierarchy_contents contents ?h)"
    using finite_lister.list_all_entries_contents[OF finite_lister.hierarchy_lister[OF assms(1)], of ?h]
      assms(2) by (simp add: hierarchy_new_def)
  moreover have "if recursive then hierarchy_contents contents ?h = contents l
     else distinct (map oe_path (hierarchy_contents contents ?h)) \<and>
       set (map oe_path (hierarchy_contents contents ?h)) =
         child_of base ` {q \<in> oe_path ` set (contents l). starts_with q base}"
    using hierarchy_walk_paths[of "{}" base "contents l"] hierarchy_walk_distinct[of "{}" base "contents l"]
      assms(3)
    by (simp add: hierarchy_contents_def hierarchy_new_def assms(4)[symmetric])
  ultimately show ?thesis by blast
qed

text \<open>
  \<open>PageLister\<close> over a paged source yields the entries of all pages in order and then ends,
  also when pages in between are empty.
\<close>

theorem page_lister_concat:
  assumes "page_source next_page pages"
  shows "\<exists>n. list_all_entries n (page_next next_page) page_new = Some (concat (pages []))"
  using finite_lister.list_all_entries_contents[OF page_lister[OF assms], of page_new]
  by (auto simp: page_contents_def page_new_def simp del: list_all_entries.simps)

text \<open>Two pages, the first of them empty.\<close>

definition two_pages :: "oio_entry \<Rightarrow> str \<Rightarrow> oio_entry list list" where
  "two_pages e tok = (if tok = [] then [[], [e]] else [[e]])"

definition two_pages_next :: "oio_entry \<Rightarrow> page_context \<Rightarrow> unit res \<times> page_context" where
  "two_pages_next e ctx =
     (Ok (), if pc_token ctx = [] then ctx\<lparr>pc_token := ''1''\<rparr>
             else \<lparr>pc_done = True, pc_token = pc_token ctx, pc_entries = [e]\<rparr>)"

end
