(* ===== verification/Deleters.thy ===== *)
theory Deleters
  imports Listers
begin

text \<open>
  Deleting: the interface \<open>oio::Delete\<close> (\<open>raw/oio/delete/api.rs\<close>), the adapters
  \<open>OneShotDeleter\<close> and \<open>BatchDeleter\<close> of \<open>raw/oio/delete\<close>, the inputs of a deletion
  (\<open>types/delete/input.rs\<close>) and the public \<open>Deleter\<close> (\<open>types/delete/deleter.rs\<close>), all under
  \<open>core/core/src\<close>.  A call returns its result and the new state, or does not return
  (\<open>None\<close>).  The \<open>HashSet\<close> buffer of \<open>BatchDeleter\<close> is a list without duplicates; the order in
  which the hash set is iterated is the argument \<open>order\<close>.  Locale \<open>oio_deleter\<close> is the
  contract of a deleter.
\<close>

section \<open>The trait\<close>

type_synonym delete_item = "str \<times> op_delete"

record 'd delete_ops =
  d_delete :: "'d \<Rightarrow> str \<Rightarrow> op_delete \<Rightarrow> (unit res \<times> 'd) option"
  d_close :: "'d \<Rightarrow> (unit res \<times> 'd) option"

definition unit_delete_ops :: "unit delete_ops" where
  "unit_delete_ops =
     \<lparr>d_delete = (\<lambda>d path args. Some (Err (error_new Unsupported ''output deleter doesn't support delete''), d)),
      d_close = (\<lambda>d. Some (Err (error_new Unsupported ''output deleter doesn't support close''), d))\<rparr>"

section \<open>OneShotDeleter\<close>

text \<open>\<open>delete_once\<close> of the service, on the service's state.\<close>

definition one_shot_delete_ops ::
  "(str \<Rightarrow> op_delete \<Rightarrow> 's \<Rightarrow> unit res \<times> 's) \<Rightarrow> 's delete_ops" where
  "one_shot_delete_ops delete_once =
     \<lparr>d_delete = (\<lambda>s path args. Some (delete_once path args s)), d_close = (\<lambda>s. Some (Ok (), s))\<rparr>"

section \<open>BatchDeleter\<close>

record batch_delete_result =
  bdr_succeeded :: "delete_item list"
  bdr_failed :: "(str \<times> op_delete \<times> error) list"

record 's batch_delete_service =
  bs_delete_once :: "str \<Rightarrow> op_delete \<Rightarrow> 's \<Rightarrow> unit res \<times> 's"
  bs_delete_batch :: "delete_item list \<Rightarrow> 's \<Rightarrow> batch_delete_result res \<times> 's"

record 's batch_deleter =
  bd_inner :: 's
  bd_buffer :: "delete_item list"
  bd_max_batch_size :: usize

definition batch_new :: "'s \<Rightarrow> usize option \<Rightarrow> 's batch_deleter" where
  "batch_new inner max_batch_size =
     \<lparr>bd_inner = inner, bd_buffer = [],
      bd_max_batch_size = (case max_batch_size of Some n \<Rightarrow> n | None \<Rightarrow> 1)\<rparr>"

text \<open>The loop over the failed items: the first permanent failure is returned.\<close>

fun batch_failed :: "(str \<times> op_delete \<times> error) list \<Rightarrow> error option" where
  "batch_failed [] = None"
| "batch_failed ((path, op, err) # rest) =
     (if \<not> is_temporary err
      then Some (with_context ''version'' (case od_version op of Some v \<Rightarrow> v | None \<Rightarrow> ''<latest>'')
             (with_context ''path'' path err))
      else batch_failed rest)"

definition flush_buffer ::
  "(delete_item list \<Rightarrow> delete_item list) \<Rightarrow> 's batch_delete_service \<Rightarrow> 's batch_deleter \<Rightarrow>
     usize res \<times> 's batch_deleter" where
  "flush_buffer order svc b =
     (case bd_buffer b of
        [] \<Rightarrow> (Ok 0, b)
      | [(path, args)] \<Rightarrow>
          (case bs_delete_once svc path args (bd_inner b) of
             (Ok _, s) \<Rightarrow> (Ok 1, b\<lparr>bd_inner := s, bd_buffer := []\<rparr>)
           | (Err e, s) \<Rightarrow> (Err e, b\<lparr>bd_inner := s\<rparr>)
           | (Panic, s) \<Rightarrow> (Panic, b\<lparr>bd_inner := s\<rparr>))
      | buffer \<Rightarrow>
          (case bs_delete_batch svc (order buffer) (bd_inner b) of
             (Ok r, s) \<Rightarrow>
               (let b1 = b\<lparr>bd_inner := s\<rparr>
                in if bdr_succeeded r = []
                   then (Err (error_new Unexpected ''batch delete returned zero successes''), b1)
                   else if length (bdr_succeeded r) + length (bdr_failed r) \<noteq> length buffer
                   then (Err (error_new Unexpected ''batch delete result size mismatch''), b1)
                   else let b2 = b1\<lparr>bd_buffer := filter (\<lambda>i. i \<notin> set (bdr_succeeded r)) buffer\<rparr>
                        in case batch_failed (bdr_failed r) of
                             Some e \<Rightarrow> (Err e, b2)
                           | None \<Rightarrow> (Ok (length (bdr_succeeded r)), b2))
           | (Err e, s) \<Rightarrow> (Err e, b\<lparr>bd_inner := s\<rparr>)
           | (Panic, s) \<Rightarrow> (Panic, b\<lparr>bd_inner := s\<rparr>)))"

definition batch_delete ::
  "(delete_item list \<Rightarrow> delete_item list) \<Rightarrow> 's batch_delete_service \<Rightarrow> 's batch_deleter \<Rightarrow> str \<Rightarrow>
     op_delete \<Rightarrow> unit res \<times> 's batch_deleter" where
  "batch_delete order svc b path args =
     (let buf = (if (path, args) \<in> set (bd_buffer b) then bd_buffer b
                 else bd_buffer b @ [(path, args)]);
          b1 = b\<lparr>bd_buffer := buf\<rparr>
      in if bd_max_batch_size b1 \<le> length buf
         then (case flush_buffer order svc b1 of
                 (Ok _, b2) \<Rightarrow> (Ok (), b2)
               | (Err e, b2) \<Rightarrow> (Err e, b2)
               | (Panic, b2) \<Rightarrow> (Panic, b2))
         else (Ok (), b1))"

partial_function (option) batch_close ::
  "(delete_item list \<Rightarrow> delete_item list) \<Rightarrow> 's batch_delete_service \<Rightarrow> 's batch_deleter \<Rightarrow>
     (unit res \<times> 's batch_deleter) option" where
  "batch_close order svc b =
     (case flush_buffer order svc b of
        (Ok deleted, b1) \<Rightarrow>
          (if bd_buffer b1 = [] then Some (Ok (), b1)
           else if deleted = 0
           then Some (Err (error_new Unexpected ''batch delete made no progress while buffer remains''), b1)
           else batch_close order svc b1)
      | (Err e, b1) \<Rightarrow> Some (Err e, b1)
      | (Panic, b1) \<Rightarrow> Some (Panic, b1))"

definition batch_delete_ops ::
  "(delete_item list \<Rightarrow> delete_item list) \<Rightarrow> 's batch_delete_service \<Rightarrow> 's batch_deleter delete_ops" where
  "batch_delete_ops order svc =
     \<lparr>d_delete = (\<lambda>b path args. Some (batch_delete order svc b path args)),
      d_close = batch_close order svc\<rparr>"

section \<open>Inputs and the public deleter\<close>

record delete_input =
  di_path :: str
  di_version :: "str option"
  di_recursive :: bool

definition input_of_path :: "str \<Rightarrow> delete_input" where
  "input_of_path path = \<lparr>di_path = path, di_version = None, di_recursive = False\<rparr>"

definition input_of_args :: "str \<times> op_delete \<Rightarrow> delete_input" where
  "input_of_args = (\<lambda>(path, args). \<lparr>di_path = path, di_version = od_version args,
     di_recursive = od_recursive args\<rparr>)"

definition input_of_entry :: "entry \<Rightarrow> delete_input" where
  "input_of_entry e = \<lparr>di_path = en_path e, di_version = md_version (en_metadata e), di_recursive = False\<rparr>"

definition delete_args :: "delete_input \<Rightarrow> op_delete" where
  "delete_args input =
     (let op = op_delete_default;
          op1 = (case di_version input of Some v \<Rightarrow> od_with_version v op | None \<Rightarrow> op)
      in if di_recursive input then od_with_recursive True op1 else op1)"

definition deleter_delete :: "'d delete_ops \<Rightarrow> 'd \<Rightarrow> delete_input \<Rightarrow> (unit res \<times> 'd) option" where
  "deleter_delete ops d input = d_delete ops d (di_path input) (delete_args input)"

text \<open>\<open>delete_iter\<close> and \<open>delete_stream\<close>.\<close>

fun deleter_delete_iter :: "'d delete_ops \<Rightarrow> 'd \<Rightarrow> delete_input list \<Rightarrow> (unit res \<times> 'd) option" where
  "deleter_delete_iter ops d [] = Some (Ok (), d)"
| "deleter_delete_iter ops d (i # is) =
     (case deleter_delete ops d i of
        None \<Rightarrow> None
      | Some (Ok _, d1) \<Rightarrow> deleter_delete_iter ops d1 is
      | Some (Err e, d1) \<Rightarrow> Some (Err e, d1)
      | Some (Panic, d1) \<Rightarrow> Some (Panic, d1))"

text \<open>\<open>delete_try_iter\<close> and \<open>delete_try_stream\<close>: an erroneous item ends the loop.\<close>

fun deleter_delete_try_iter ::
  "'d delete_ops \<Rightarrow> 'd \<Rightarrow> (error + delete_input) list \<Rightarrow> (unit res \<times> 'd) option" where
  "deleter_delete_try_iter ops d [] = Some (Ok (), d)"
| "deleter_delete_try_iter ops d (Inl e # is) = Some (Err e, d)"
| "deleter_delete_try_iter ops d (Inr i # is) =
     (case deleter_delete ops d i of
        None \<Rightarrow> None
      | Some (Ok _, d1) \<Rightarrow> deleter_delete_try_iter ops d1 is
      | Some (Err e, d1) \<Rightarrow> Some (Err e, d1)
      | Some (Panic, d1) \<Rightarrow> Some (Panic, d1))"

definition deleter_close :: "'d delete_ops \<Rightarrow> 'd \<Rightarrow> (unit res \<times> 'd) option" where
  "deleter_close ops d = d_close ops d"

section \<open>The contract of a deleter\<close>

text \<open>
  \<open>queued\<close> are the deletions accepted so far, \<open>gone\<close> those the service has carried out.  A
  successful \<open>delete\<close> queues the item, nothing queued is forgotten, and a successful \<open>close\<close>
  leaves nothing undone.
\<close>

locale oio_deleter =
  fixes ops :: "'d delete_ops"
    and dinv :: "'d \<Rightarrow> bool"
    and queued :: "'d \<Rightarrow> delete_item set"
    and gone :: "'d \<Rightarrow> delete_item set"
  assumes delete_ok: "dinv d \<Longrightarrow> \<exists>r d'. d_delete ops d path args = Some (r, d') \<and> dinv d' \<and>
      queued d \<union> gone d \<subseteq> queued d' \<union> gone d' \<and>
      (r = Ok () \<longrightarrow> (path, args) \<in> queued d' \<union> gone d')"
    and close_ok: "dinv d \<Longrightarrow> \<exists>r d'. d_close ops d = Some (r, d') \<and> dinv d' \<and>
      queued d \<union> gone d \<subseteq> queued d' \<union> gone d' \<and> (r = Ok () \<longrightarrow> queued d' = {})"
begin

lemma delete_iter_ok:
  "dinv d \<Longrightarrow> \<exists>r d'. deleter_delete_iter ops d is = Some (r, d') \<and> dinv d' \<and>
     queued d \<union> gone d \<subseteq> queued d' \<union> gone d' \<and>
     (r = Ok () \<longrightarrow> (\<forall>i\<in>set is. (di_path i, delete_args i) \<in> queued d' \<union> gone d'))"
proof (induction "is" arbitrary: d)
  case (Cons i "is")
  from delete_ok[OF Cons.prems, of "di_path i" "delete_args i"] obtain r d1 where
    d1: "d_delete ops d (di_path i) (delete_args i) = Some (r, d1)" "dinv d1"
      "queued d \<union> gone d \<subseteq> queued d1 \<union> gone d1"
      "r = Ok () \<Longrightarrow> (di_path i, delete_args i) \<in> queued d1 \<union> gone d1" by blast
  show ?case
  proof (cases r)
    case (Ok u)
    from Cons.IH[OF d1(2)] obtain q d2 where
      d2: "deleter_delete_iter ops d1 is = Some (q, d2)" "dinv d2"
        "queued d1 \<union> gone d1 \<subseteq> queued d2 \<union> gone d2"
        "q = Ok () \<Longrightarrow> \<forall>i\<in>set is. (di_path i, delete_args i) \<in> queued d2 \<union> gone d2" by blast
    have "deleter_delete_iter ops d (i # is) = Some (q, d2)"
      using d1(1) d2(1) Ok by (simp add: deleter_delete_def)
    moreover have "queued d \<union> gone d \<subseteq> queued d2 \<union> gone d2" using d1(3) d2(3) by (rule subset_trans)
    moreover have "\<forall>j\<in>set (i # is). (di_path j, delete_args j) \<in> queued d2 \<union> gone d2" if "q = Ok ()"
      using d1(4) d2(3) d2(4)[OF that] Ok by auto
    ultimately show ?thesis using d2(2) by blast
  next
    case (Err e)
    with d1 show ?thesis by (intro exI[of _ "Err e"] exI[of _ d1]) (simp add: deleter_delete_def)
  next
    case Panic
    with d1 show ?thesis by (intro exI[of _ Panic] exI[of _ d1]) (simp add: deleter_delete_def)
  qed
qed auto

text \<open>A whole session: delete all inputs, close.\<close>

lemma delete_session:
  assumes "dinv d" "deleter_delete_iter ops d is = Some (Ok (), d1)"
    "deleter_close ops d1 = Some (Ok (), d2)"
  shows "\<forall>i\<in>set is. (di_path i, delete_args i) \<in> gone d2"
proof -
  from delete_iter_ok[OF assms(1), of "is"] assms(2) have
    d1: "dinv d1" "\<forall>i\<in>set is. (di_path i, delete_args i) \<in> queued d1 \<union> gone d1" by auto
  from close_ok[OF d1(1)] assms(3) have "queued d1 \<union> gone d1 \<subseteq> queued d2 \<union> gone d2" "queued d2 = {}"
    by (auto simp: deleter_close_def)
  with d1(2) show ?thesis by auto
qed

end

section \<open>BatchDeleter fulfils the contract\<close>

text \<open>
  A batch service deletes what it reports as succeeded, reports only items of the batch, at
  most once each, and carries out a single deletion it reports as \<open>Ok\<close>.  What is deleted stays
  deleted.
\<close>

definition batch_service_ok :: "'s batch_delete_service \<Rightarrow> ('s \<Rightarrow> delete_item set) \<Rightarrow> bool" where
  "batch_service_ok svc gone \<longleftrightarrow>
     (\<forall>path args s. gone s \<subseteq> gone (snd (bs_delete_once svc path args s)) \<and>
        (fst (bs_delete_once svc path args s) = Ok () \<longrightarrow>
           (path, args) \<in> gone (snd (bs_delete_once svc path args s)))) \<and>
     (\<forall>batch s. gone s \<subseteq> gone (snd (bs_delete_batch svc batch s)) \<and>
        (\<forall>r. fst (bs_delete_batch svc batch s) = Ok r \<longrightarrow>
           set (bdr_succeeded r) \<subseteq> set batch \<and>
           set (bdr_succeeded r) \<subseteq> gone (snd (bs_delete_batch svc batch s))))"

definition order_ok :: "(delete_item list \<Rightarrow> delete_item list) \<Rightarrow> bool" where
  "order_ok order \<longleftrightarrow> (\<forall>xs. set (order xs) = set xs)"

lemma batch_service_once:
  assumes "batch_service_ok svc gone" "bs_delete_once svc path args s = (r, s')"
  shows "gone s \<subseteq> gone s'" "r = Ok () \<Longrightarrow> (path, args) \<in> gone s'"
  using assms(1)[unfolded batch_service_ok_def, THEN conjunct1, rule_format, of s path args] assms(2)
  by simp_all

lemma batch_service_batch:
  assumes "batch_service_ok svc gone" "bs_delete_batch svc batch s = (r, s')"
  shows "gone s \<subseteq> gone s'" "r = Ok q \<Longrightarrow> set (bdr_succeeded q) \<subseteq> set batch"
    "r = Ok q \<Longrightarrow> set (bdr_succeeded q) \<subseteq> gone s'"
  using assms(1)[unfolded batch_service_ok_def, THEN conjunct2, rule_format, of s batch] assms(2)
  by simp_all

lemma flush_buffer_ok:
  assumes svc: "batch_service_ok svc gone" and ord: "order_ok order"
    and f: "flush_buffer order svc b = (r, b')"
  shows "set (bd_buffer b) \<union> gone (bd_inner b) \<subseteq> set (bd_buffer b') \<union> gone (bd_inner b') \<and>
    bd_max_batch_size b' = bd_max_batch_size b \<and>
    (\<forall>n. r = Ok n \<longrightarrow> bd_buffer b' = [] \<or> length (bd_buffer b') < length (bd_buffer b))"
proof -
  consider (none) "bd_buffer b = []" | (one) path args where "bd_buffer b = [(path, args)]"
    | (many) x y zs where "bd_buffer b = x # y # zs"
    by (metis neq_Nil_conv surj_pair)
  then show ?thesis
  proof cases
    case none
    with f show ?thesis by (auto simp: flush_buffer_def)
  next
    case one
    obtain q s where q: "bs_delete_once svc path args (bd_inner b) = (q, s)" by force
    note s = batch_service_once[OF svc q]
    from f one q s show ?thesis by (cases q) (auto simp: flush_buffer_def)
  next
    case many
    let ?B = "bd_buffer b"
    obtain q s where q: "bs_delete_batch svc (order ?B) (bd_inner b) = (q, s)" by force
    note s = batch_service_batch[OF svc q]
    show ?thesis
    proof (cases q)
      case (Ok w)
      have sub: "set (bdr_succeeded w) \<subseteq> set ?B" using s(2)[OF Ok] ord by (simp add: order_ok_def)
      have less: "length (filter (\<lambda>i. i \<notin> set (bdr_succeeded w)) ?B) < length ?B"
        if "bdr_succeeded w \<noteq> []"
      proof (rule length_filter_less[of "hd (bdr_succeeded w)"])
        show "hd (bdr_succeeded w) \<in> set ?B" using sub that by auto
        show "\<not> hd (bdr_succeeded w) \<notin> set (bdr_succeeded w)" using that by simp
      qed
      have keep: "set ?B \<subseteq> set (filter (\<lambda>i. i \<notin> set (bdr_succeeded w)) ?B) \<union> gone s"
        using s(3)[OF Ok] by auto
      have fl: "flush_buffer order svc b =
        (let b1 = b\<lparr>bd_inner := s\<rparr>
         in if bdr_succeeded w = []
            then (Err (error_new Unexpected ''batch delete returned zero successes''), b1)
            else if length (bdr_succeeded w) + length (bdr_failed w) \<noteq> length ?B
            then (Err (error_new Unexpected ''batch delete result size mismatch''), b1)
            else let b2 = b1\<lparr>bd_buffer := filter (\<lambda>i. i \<notin> set (bdr_succeeded w)) ?B\<rparr>
                 in case batch_failed (bdr_failed w) of
                      Some e \<Rightarrow> (Err e, b2)
                    | None \<Rightarrow> (Ok (length (bdr_succeeded w)), b2))"
        using q Ok by (simp add: flush_buffer_def many Let_def)
      show ?thesis
      proof (cases "bdr_succeeded w = [] \<or> length (bdr_succeeded w) + length (bdr_failed w) \<noteq> length ?B")
        case True
        with f fl s(1) show ?thesis by (auto simp: Let_def split: if_splits)
      next
        case False
        with f fl have b': "b' = b\<lparr>bd_inner := s, bd_buffer := filter (\<lambda>i. i \<notin> set (bdr_succeeded w)) ?B\<rparr>"
          by (auto simp: Let_def split: option.splits)
        with keep s(1) less False show ?thesis by auto
      qed
    next
      case (Err e)
      with f many q s(1) show ?thesis by (auto simp: flush_buffer_def)
    next
      case Panic
      with f many q s(1) show ?thesis by (auto simp: flush_buffer_def)
    qed
  qed
qed

lemma batch_close_ok:
  assumes "batch_service_ok svc gone" "order_ok order"
  shows "\<exists>r b'. batch_close order svc b = Some (r, b') \<and>
    set (bd_buffer b) \<union> gone (bd_inner b) \<subseteq> set (bd_buffer b') \<union> gone (bd_inner b') \<and>
    (r = Ok () \<longrightarrow> bd_buffer b' = [])"
proof (induction "length (bd_buffer b)" arbitrary: b rule: less_induct)
  case less
  obtain q b1 where q: "flush_buffer order svc b = (q, b1)" by force
  note fl = flush_buffer_ok[OF assms q]
  show ?case
  proof (cases "\<exists>n. q = Ok n \<and> n \<noteq> 0 \<and> bd_buffer b1 \<noteq> []")
    case True
    then obtain n where n: "q = Ok n" "n \<noteq> 0" "bd_buffer b1 \<noteq> []" by blast
    with fl have "length (bd_buffer b1) < length (bd_buffer b)" by blast
    from less[OF this] obtain r b' where r: "batch_close order svc b1 = Some (r, b')"
      "set (bd_buffer b1) \<union> gone (bd_inner b1) \<subseteq> set (bd_buffer b') \<union> gone (bd_inner b')"
      "r = Ok () \<longrightarrow> bd_buffer b' = []" by blast
    have "batch_close order svc b = Some (r, b')"
      using q n r(1) by (simp add: batch_close.simps[of order svc b])
    with fl r show ?thesis by blast
  next
    case False
    then have "\<exists>r. batch_close order svc b = Some (r, b1) \<and> (r = Ok () \<longrightarrow> bd_buffer b1 = [])"
      using q by (cases q) (auto simp: batch_close.simps[of order svc b])
    with fl show ?thesis by blast
  qed
qed

lemma batch_contract:
  fixes svc :: "'s batch_delete_service"
  assumes "batch_service_ok svc gone" "order_ok order"
  shows "oio_deleter (batch_delete_ops order svc) (\<lambda>b. True) (\<lambda>b. set (bd_buffer b))
    (\<lambda>b. gone (bd_inner b))"
proof
  fix b :: "'s batch_deleter" and path args
  let ?buf = "if (path, args) \<in> set (bd_buffer b) then bd_buffer b else bd_buffer b @ [(path, args)]"
  let ?b1 = "b\<lparr>bd_buffer := ?buf\<rparr>"
  have buf: "set ?buf = insert (path, args) (set (bd_buffer b))" by auto
  obtain q b2 where q: "flush_buffer order svc ?b1 = (q, b2)" by force
  from flush_buffer_ok[OF assms q] have
    fl: "set ?buf \<union> gone (bd_inner b) \<subseteq> set (bd_buffer b2) \<union> gone (bd_inner b2)" by simp
  show "\<exists>r d'. d_delete (batch_delete_ops order svc) b path args = Some (r, d') \<and> True \<and>
      set (bd_buffer b) \<union> gone (bd_inner b) \<subseteq> set (bd_buffer d') \<union> gone (bd_inner d') \<and>
      (r = Ok () \<longrightarrow> (path, args) \<in> set (bd_buffer d') \<union> gone (bd_inner d'))"
  proof (cases "bd_max_batch_size b \<le> length ?buf")
    case True
    then have "\<exists>r. batch_delete order svc b path args = (r, b2)"
      using q by (cases q) (auto simp: batch_delete_def Let_def)
    with fl buf show ?thesis by (auto simp: batch_delete_ops_def)
  next
    case False
    then have "batch_delete order svc b path args = (Ok (), ?b1)"
      by (simp add: batch_delete_def Let_def)
    with buf show ?thesis by (auto simp: batch_delete_ops_def)
  qed
next
  fix b :: "'s batch_deleter"
  from batch_close_ok[OF assms, of b] show
    "\<exists>r d'. d_close (batch_delete_ops order svc) b = Some (r, d') \<and> True \<and>
      set (bd_buffer b) \<union> gone (bd_inner b) \<subseteq> set (bd_buffer d') \<union> gone (bd_inner d') \<and>
      (r = Ok () \<longrightarrow> set (bd_buffer d') = {})"
    by (auto simp: batch_delete_ops_def)
qed

section \<open>Properties\<close>

text \<open>
  C24: Over any service that deletes what it reports as deleted, closing a \<open>BatchDeleter\<close>
  always returns (whatever fails, it never loops), and when all calls of a session succeed,
  every requested path has been deleted.
\<close>

theorem batch_deleter_deletes_all:
  assumes "batch_service_ok svc gone" "order_ok order"
  shows "(\<exists>r. batch_close order svc b = Some r) \<and>
    (\<forall>s n is d1 d2.
       deleter_delete_iter (batch_delete_ops order svc) (batch_new s n) is = Some (Ok (), d1) \<longrightarrow>
       deleter_close (batch_delete_ops order svc) d1 = Some (Ok (), d2) \<longrightarrow>
       (\<forall>i\<in>set is. (di_path i, delete_args i) \<in> gone (bd_inner d2)))"
  using batch_close_ok[OF assms, of b] oio_deleter.delete_session[OF batch_contract[OF assms]]
  by blast

text \<open>A service that carries out every deletion.\<close>

definition set_service :: "delete_item set batch_delete_service" where
  "set_service =
     \<lparr>bs_delete_once = (\<lambda>path args s. (Ok (), insert (path, args) s)),
      bs_delete_batch = (\<lambda>batch s. (Ok \<lparr>bdr_succeeded = batch, bdr_failed = []\<rparr>, s \<union> set batch))\<rparr>"

theorem batch_deleter_deletes_all_witness:
  "\<exists>d1 d2. deleter_delete_iter (batch_delete_ops id set_service) (batch_new {} (Some 10))
        [input_of_path ''a'', input_of_path ''b''] = Some (Ok (), d1) \<and>
     deleter_close (batch_delete_ops id set_service) d1 = Some (Ok (), d2) \<and>
     (''a'', op_delete_default) \<in> bd_inner d2 \<and> (''b'', op_delete_default) \<in> bd_inner d2"
proof -
  have ok: "batch_service_ok set_service id" "order_ok id"
    by (auto simp: batch_service_ok_def set_service_def order_ok_def)
  let ?is = "[input_of_path ''a'', input_of_path ''b'']"
  define d1 :: "delete_item set batch_deleter" where "d1 = (batch_new {} (Some 10))\<lparr>bd_buffer := [(''a'', op_delete_default), (''b'', op_delete_default)]\<rparr>"
  define d2 :: "delete_item set batch_deleter" where "d2 = d1\<lparr>bd_inner := {(''a'', op_delete_default), (''b'', op_delete_default)}, bd_buffer := []\<rparr>"
  have 1: "deleter_delete_iter (batch_delete_ops id set_service) (batch_new {} (Some 10)) ?is = Some (Ok (), d1)"
    by (simp add: d1_def deleter_delete_def batch_delete_ops_def batch_delete_def batch_new_def
        input_of_path_def delete_args_def Let_def)
  have 2: "deleter_close (batch_delete_ops id set_service) d1 = Some (Ok (), d2)"
    by (simp add: d1_def d2_def deleter_close_def batch_delete_ops_def batch_close.simps flush_buffer_def
        batch_new_def set_service_def Let_def)
  have "\<forall>i\<in>set ?is. (di_path i, delete_args i) \<in> id (bd_inner d2)"
    using batch_deleter_deletes_all[OF ok] 1 2 by blast
  with 1 2 show ?thesis by (auto simp: input_of_path_def delete_args_def Let_def)
qed

end
