(* ===== verification/Memory.thy ===== *)
theory Memory
  imports Write_Context Deleters Read_Context "HOL-Library.List_Lexorder" "HOL-Library.Char_ord"
begin

text \<open>
  The in-memory service of \<open>core/core/src/services/memory\<close>: the store (\<open>core.rs\<close>), the
  backend's operations (\<open>backend.rs\<close>), its writer, lister and deleter.

  The \<open>BTreeMap\<close> behind the mutex is an association list sorted strictly by key, in the byte
  order of Rust strings (the linear order of \<open>List_Lexorder\<close> over \<open>Char_ord\<close>).  Operations
  take the store and return it; the writer and the deleter carry the shared store with them.
  The memory writer interprets \<open>oio_writer\<close>, its lister \<open>finite_lister\<close> and its deleter
  \<open>oio_deleter\<close>.
\<close>

section \<open>BTreeMap\<close>

type_synonym ('k, 'v) btree = "('k \<times> 'v) list"

definition bt_ok :: "('k :: linorder, 'v) btree \<Rightarrow> bool" where
  "bt_ok m \<longleftrightarrow> sorted_wrt (<) (map fst m)"

fun bt_insert :: "'k :: linorder \<Rightarrow> 'v \<Rightarrow> ('k, 'v) btree \<Rightarrow> ('k, 'v) btree" where
  "bt_insert k v [] = [(k, v)]"
| "bt_insert k v ((a, b) # m) =
     (if k < a then (k, v) # (a, b) # m
      else if k = a then (k, v) # m
      else (a, b) # bt_insert k v m)"

definition bt_remove :: "'k :: linorder \<Rightarrow> ('k, 'v) btree \<Rightarrow> ('k, 'v) btree" where
  "bt_remove k m = filter (\<lambda>(a, b). a \<noteq> k) m"

text \<open>\<open>range(k..)\<close>\<close>

definition bt_range_from :: "'k :: linorder \<Rightarrow> ('k, 'v) btree \<Rightarrow> ('k, 'v) btree" where
  "bt_range_from k m = dropWhile (\<lambda>(a, b). a < k) m"

section \<open>MemoryCore\<close>

record memory_value =
  mv_metadata :: metadata
  mv_content :: buffer

type_synonym memory_core = "(str, memory_value) btree"

definition memory_core_new :: memory_core where
  "memory_core_new = []"

definition memory_get :: "memory_core \<Rightarrow> str \<Rightarrow> memory_value option" where
  "memory_get data key = map_of data key"

definition memory_set :: "str \<Rightarrow> memory_value \<Rightarrow> memory_core \<Rightarrow> memory_core" where
  "memory_set key value data = bt_insert key value data"

definition memory_set_if_not_exists ::
  "str \<Rightarrow> memory_value \<Rightarrow> memory_core \<Rightarrow> unit res \<times> memory_core" where
  "memory_set_if_not_exists key value data =
     (case map_of data key of
        None \<Rightarrow> (Ok (), bt_insert key value data)
      | Some _ \<Rightarrow> (Err (error_new ConditionNotMatch ''key already exists''), data))"

definition memory_delete :: "str \<Rightarrow> memory_core \<Rightarrow> memory_core" where
  "memory_delete key data = bt_remove key data"

definition memory_scan :: "memory_core \<Rightarrow> str \<Rightarrow> str list" where
  "memory_scan data pre =
     (if pre = [] then map fst data
      else takeWhile (\<lambda>key. starts_with key pre) (map fst (bt_range_from pre data)))"

section \<open>MemoryWriter\<close>

record memory_writer =
  mw_core :: memory_core
  mw_path :: str
  mw_op :: op_write
  mw_buf :: "queue_buf option"

definition memory_writer_new :: "memory_core \<Rightarrow> str \<Rightarrow> op_write \<Rightarrow> memory_writer" where
  "memory_writer_new core path op = \<lparr>mw_core = core, mw_path = path, mw_op = op, mw_buf = None\<rparr>"

definition memory_writer_write :: "memory_writer \<Rightarrow> buffer \<Rightarrow> unit res \<times> memory_writer" where
  "memory_writer_write w bs =
     (let buf = (case mw_buf w of Some q \<Rightarrow> q | None \<Rightarrow> queue_new)
      in (Ok (), w\<lparr>mw_buf := Some (queue_push buf bs)\<rparr>))"

definition memory_writer_metadata :: "op_write \<Rightarrow> usize \<Rightarrow> metadata" where
  "memory_writer_metadata op len =
     (let m = md_set_content_length (of_nat len) (metadata_new FILE);
          m = (case ow_cache_control op of Some v \<Rightarrow> md_set_cache_control v m | None \<Rightarrow> m);
          m = (case ow_content_disposition op of Some v \<Rightarrow> md_set_content_disposition v m | None \<Rightarrow> m);
          m = (case ow_content_type op of Some v \<Rightarrow> md_set_content_type v m | None \<Rightarrow> m)
      in case ow_content_encoding op of Some v \<Rightarrow> md_set_content_encoding v m | None \<Rightarrow> m)"

definition memory_writer_close :: "memory_writer \<Rightarrow> metadata res \<times> memory_writer" where
  "memory_writer_close w =
     (let buf = (case mw_buf w of Some q \<Rightarrow> q | None \<Rightarrow> queue_new);
          w1 = w\<lparr>mw_buf := None\<rparr>
      in case queue_collect buf of
           None \<Rightarrow> (Panic, w1)
         | Some content \<Rightarrow>
             (let metadata = memory_writer_metadata (mw_op w) (buffer_len content);
                  value = \<lparr>mv_metadata = metadata, mv_content = content\<rparr>
              in if ow_if_not_exists (mw_op w)
                 then (case memory_set_if_not_exists (mw_path w) value (mw_core w) of
                         (Ok _, core) \<Rightarrow> (Ok metadata, w1\<lparr>mw_core := core\<rparr>)
                       | (Err e, core) \<Rightarrow> (Err e, w1\<lparr>mw_core := core\<rparr>)
                       | (Panic, core) \<Rightarrow> (Panic, w1\<lparr>mw_core := core\<rparr>))
                 else (Ok metadata, w1\<lparr>mw_core := memory_set (mw_path w) value (mw_core w)\<rparr>)))"

definition memory_writer_abort :: "memory_writer \<Rightarrow> unit res \<times> memory_writer" where
  "memory_writer_abort w = (Ok (), w\<lparr>mw_buf := None\<rparr>)"

definition memory_write_ops :: "memory_writer write_ops" where
  "memory_write_ops =
     \<lparr>w_write = memory_writer_write, w_close = memory_writer_close, w_abort = memory_writer_abort\<rparr>"

section \<open>MemoryLister and MemoryDeleter\<close>

record memory_lister =
  ml_root :: str
  ml_keys :: "str list"

definition memory_lister_new :: "str \<Rightarrow> str list \<Rightarrow> memory_lister" where
  "memory_lister_new root keys = \<lparr>ml_root = root, ml_keys = keys\<rparr>"

definition memory_lister_next :: "memory_lister lister_next" where
  "memory_lister_next s =
     (case ml_keys s of
        [] \<Rightarrow> Some (Ok None, s)
      | key # keys \<Rightarrow>
          (let mode = (if ends_with_char key slash then DIR else FILE);
               s1 = s\<lparr>ml_keys := keys\<rparr>
           in case build_rel_path (ml_root s) key of
                None \<Rightarrow> Some (Panic, s1)
              | Some path \<Rightarrow>
                  Some (Ok (Some (oio_entry_new (if path = [] then ''/'' else path) (metadata_new mode))), s1)))"

record memory_deleter =
  mdel_core :: memory_core
  mdel_root :: str

definition memory_deleter_new :: "memory_core \<Rightarrow> str \<Rightarrow> memory_deleter" where
  "memory_deleter_new core root = \<lparr>mdel_core = core, mdel_root = root\<rparr>"

definition memory_delete_once ::
  "str \<Rightarrow> op_delete \<Rightarrow> memory_deleter \<Rightarrow> unit res \<times> memory_deleter" where
  "memory_delete_once path args d =
     (case build_abs_path (mdel_root d) path of
        None \<Rightarrow> (Panic, d)
      | Some p \<Rightarrow> (Ok (), d\<lparr>mdel_core := memory_delete p (mdel_core d)\<rparr>))"

section \<open>MemoryBackend\<close>

definition memory_capability :: capability where
  "memory_capability = capability_default\<lparr>cap_read := True, cap_write := True,
     cap_write_can_empty := True, cap_write_with_cache_control := True,
     cap_write_with_content_type := True, cap_write_with_content_disposition := True,
     cap_write_with_content_encoding := True, cap_write_with_if_not_exists := True,
     cap_delete := True, cap_stat := True, cap_list := True, cap_list_with_recursive := True,
     cap_shared := False\<rparr>"

definition memory_build :: "str option \<Rightarrow> str \<times> memory_core" where
  "memory_build root =
     (normalize_root (case root of Some r \<Rightarrow> r | None \<Rightarrow> ''/''), memory_core_new)"

definition memory_not_found :: error where
  "memory_not_found = error_new NotFound ''memory doesn't have this path''"

definition memory_stat :: "str \<Rightarrow> memory_core \<Rightarrow> str \<Rightarrow> metadata res" where
  "memory_stat root data path =
     (case (build_abs_path root path, build_abs_path root []) of
        (Some p, Some root_path) \<Rightarrow>
          (if p = root_path then Ok (metadata_new DIR)
           else case memory_get data p of
                  Some value \<Rightarrow> Ok (mv_metadata value)
                | None \<Rightarrow> Err memory_not_found)
      | _ \<Rightarrow> Panic)"

definition memory_read :: "str \<Rightarrow> memory_core \<Rightarrow> str \<Rightarrow> op_read \<Rightarrow> (metadata \<times> buffer) res" where
  "memory_read root data path args =
     (case build_abs_path root path of
        None \<Rightarrow> Panic
      | Some p \<Rightarrow>
          (case memory_get data p of
             None \<Rightarrow> Err memory_not_found
           | Some value \<Rightarrow>
               (let total_size = of_nat (buffer_len (mv_content value)) :: u64;
                    range = ord_range args;
                    start = unat (min (br_offset range) total_size);
                    stop = unat (case br_size range of
                        Some sz \<Rightarrow> min (saturating_add_u64 (br_offset range) sz) total_size
                      | None \<Rightarrow> total_size)
                in case buffer_slice (mv_content value) (Included start) (Excluded stop) of
                     None \<Rightarrow> Panic
                   | Some content \<Rightarrow>
                       Ok (md_with_content_length total_size (metadata_new FILE), content))))"

definition memory_write :: "str \<Rightarrow> memory_core \<Rightarrow> str \<Rightarrow> op_write \<Rightarrow> memory_writer res" where
  "memory_write root data path args =
     res_of_option (map_option (\<lambda>p. memory_writer_new data p args) (build_abs_path root path))"

definition memory_list ::
  "str \<Rightarrow> memory_core \<Rightarrow> str \<Rightarrow> op_list \<Rightarrow> memory_lister hierarchy_lister res" where
  "memory_list root data path args =
     (case build_abs_path root path of
        None \<Rightarrow> Panic
      | Some p \<Rightarrow>
          Ok (hierarchy_new (memory_lister_new root (memory_scan data p)) path (ol_recursive args)))"

section \<open>Lemmas on the store\<close>

lemma bt_ok_simps [simp]:
  "bt_ok []" "bt_ok ((k, v) # m) \<longleftrightarrow> (\<forall>a \<in> fst ` set m. k < a) \<and> bt_ok m"
  by (auto simp: bt_ok_def)

lemma fst_bt_insert: "fst ` set (bt_insert k v m) = insert k (fst ` set m)"
  by (induction k v m rule: bt_insert.induct) auto

lemma bt_insert_ok: "bt_ok m \<Longrightarrow> bt_ok (bt_insert k v m)"
  by (induction k v m rule: bt_insert.induct) (auto simp: fst_bt_insert dest: order.strict_trans)

lemma map_of_bt_insert: "bt_ok m \<Longrightarrow> map_of (bt_insert k v m) = (map_of m)(k \<mapsto> v)"
  by (induction k v m rule: bt_insert.induct) (auto simp: fun_eq_iff)

lemma bt_remove_ok: "bt_ok m \<Longrightarrow> bt_ok (bt_remove k m)"
  by (induction m) (auto simp: bt_remove_def)

lemma map_of_bt_remove: "map_of (bt_remove k m) = (map_of m)(k := None)"
  by (induction m) (auto simp: bt_remove_def fun_eq_iff)

lemma fst_bt_remove: "fst ` set (bt_remove k m) = fst ` set m - {k}"
  by (auto simp: bt_remove_def)

text \<open>The keys with a prefix are consecutive in the order of strings.\<close>

lemma not_less_prefix: "\<not> p @ t < (p :: str)"
  by (induction p) auto

lemma starts_with_not_less: "starts_with k p \<Longrightarrow> \<not> k < (p :: str)"
  by (auto simp: starts_with_iff not_less_prefix)

lemma starts_with_between:
  "p \<le> k \<Longrightarrow> k < k' \<Longrightarrow> starts_with k' p \<Longrightarrow> starts_with k (p :: str)"
proof (induction p arbitrary: k k')
  case (Cons c p)
  from Cons.prems obtain d ds where "k = d # ds" by (cases k) auto
  moreover from Cons.prems obtain t where "k' = c # t" "starts_with t p" by (cases k') auto
  ultimately show ?case using Cons by (auto simp: order.order_iff_strict)
qed simp

lemma scan_sorted:
  "sorted_wrt (<) ks \<Longrightarrow>
     takeWhile (\<lambda>k. starts_with k p) (dropWhile (\<lambda>k. k < p) ks) = filter (\<lambda>k. starts_with k (p :: str)) ks"
proof (induction ks)
  case (Cons k ks)
  show ?case
  proof (cases "k < p")
    case True
    with Cons starts_with_not_less show ?thesis by auto
  next
    case ge: False
    show ?thesis
    proof (cases "starts_with k p")
      case True
      have "dropWhile (\<lambda>k. k < p) ks = ks"
        using Cons.prems ge by (cases ks) auto
      with True ge Cons show ?thesis by simp
    next
      case False
      then have "filter (\<lambda>k. starts_with k p) ks = []"
        using Cons.prems ge starts_with_between[of p k] by (force simp: filter_empty_conv not_less)
      with False ge show ?thesis by simp
    qed
  qed
qed simp

lemma map_fst_dropWhile: "map fst (dropWhile (\<lambda>(a, b). P a) m) = dropWhile P (map fst m)"
  by (induction m) auto

lemma memory_scan_eq:
  assumes "bt_ok data" shows "memory_scan data p = filter (\<lambda>k. starts_with k p) (map fst data)"
  using scan_sorted[of "map fst data" p] assms
  by (simp add: memory_scan_def bt_range_from_def map_fst_dropWhile bt_ok_def)

section \<open>Interpretations\<close>

definition memory_writer_inv :: "memory_writer \<Rightarrow> bool" where
  "memory_writer_inv w \<longleftrightarrow> bt_ok (mw_core w) \<and> (\<forall>q. mw_buf w = Some q \<longrightarrow> queue_ok q)"

definition memory_writer_writes :: "memory_writer \<Rightarrow> bytes list" where
  "memory_writer_writes w = (case mw_buf w of None \<Rightarrow> [] | Some q \<Rightarrow> map buffer_view q)"

definition memory_writer_stored :: "memory_writer \<Rightarrow> bytes option" where
  "memory_writer_stored w = map_option (buffer_view \<circ> mv_content) (memory_get (mw_core w) (mw_path w))"

lemma memory_writer_write_writes:
  assumes "memory_writer_inv w" "buffer_ok bs" "buffer_view bs \<noteq> []"
    "memory_writer_write w bs = (r, w')"
  shows "r = Ok () \<and> memory_writer_inv w' \<and> memory_writer_writes w' = memory_writer_writes w @ [buffer_view bs]"
proof -
  have "\<not> buffer_is_empty bs" using assms(2,3) buffer_ok_len[of bs] by (simp add: buffer_is_empty_def)
  with assms show ?thesis
    using queue_push_simps(1)[of "case mw_buf w of None \<Rightarrow> queue_new | Some q \<Rightarrow> q" bs]
      queue_new_simps(1)
    by (cases "mw_buf w")
      (auto simp: memory_writer_write_def memory_writer_inv_def memory_writer_writes_def queue_push_def
        queue_new_def)
qed

lemma memory_writer_close_cases:
  assumes "memory_writer_inv w" "memory_writer_close w = (r, w')"
  obtains content where "buffer_ok content" "buffer_view content = concat (memory_writer_writes w)"
    "mw_path w' = mw_path w"
    "if ow_if_not_exists (mw_op w) \<and> map_of (mw_core w) (mw_path w) \<noteq> None
     then mw_core w' = mw_core w \<and> r = Err (error_new ConditionNotMatch ''key already exists'')
     else r = Ok (memory_writer_metadata (mw_op w) (buffer_len content)) \<and>
       mw_core w' = bt_insert (mw_path w)
         \<lparr>mv_metadata = memory_writer_metadata (mw_op w) (buffer_len content), mv_content = content\<rparr>
         (mw_core w)"
proof -
  let ?q = "case mw_buf w of None \<Rightarrow> queue_new | Some q \<Rightarrow> q"
  have q: "queue_ok ?q" using assms(1)
    by (cases "mw_buf w") (simp_all add: memory_writer_inv_def)
  have qv: "queue_view ?q = concat (memory_writer_writes w)"
    by (cases "mw_buf w") (simp_all add: memory_writer_writes_def queue_view_def queue_new_def)
  obtain c where "queue_collect ?q = Some c" "buffer_ok c" "buffer_view c = queue_view ?q"
    using qb.collect_ok[OF q] by blast
  with qv assms(2) that[of c] show ?thesis
    by (cases "map_of (mw_core w) (mw_path w)")
      (auto simp: memory_writer_close_def memory_set_if_not_exists_def memory_set_def Let_def
        split: if_splits)
qed

interpretation mem: oio_writer memory_write_ops memory_writer_inv memory_writer_writes
  memory_writer_stored
proof
  fix w bs w'
  assume "memory_writer_inv w" "buffer_ok bs" "buffer_view bs \<noteq> []"
    "w_write memory_write_ops w bs = (Ok (), w')"
  with memory_writer_write_writes[of w bs "Ok ()" w'] show "memory_writer_inv w' \<and>
      memory_writer_writes w' = memory_writer_writes w @ [buffer_view bs]"
    by (auto simp: memory_write_ops_def)
next
  fix w bs e w'
  assume "memory_writer_inv w" "buffer_ok bs" "buffer_view bs \<noteq> []"
    "w_write memory_write_ops w bs = (Err e, w')"
  with memory_writer_write_writes[of w bs "Err e" w'] show "memory_writer_inv w' \<and> memory_writer_writes w' = memory_writer_writes w"
    by (auto simp: memory_write_ops_def)
next
  fix w bs
  show "fst (w_write memory_write_ops w bs) \<noteq> Panic"
    by (simp add: memory_write_ops_def memory_writer_write_def Let_def)
next
  fix w m w'
  assume w: "memory_writer_inv w" "w_close memory_write_ops w = (Ok m, w')"
  then have "memory_writer_close w = (Ok m, w')" by (simp add: memory_write_ops_def)
  with w(1) show "memory_writer_stored w' = Some (concat (memory_writer_writes w))"
  proof (rule memory_writer_close_cases)
    fix content
    assume "buffer_ok content" "buffer_view content = concat (memory_writer_writes w)"
      "mw_path w' = mw_path w"
      "if ow_if_not_exists (mw_op w) \<and> map_of (mw_core w) (mw_path w) \<noteq> None
       then mw_core w' = mw_core w \<and> Ok m = Err (error_new ConditionNotMatch ''key already exists'')
       else Ok m = Ok (memory_writer_metadata (mw_op w) (buffer_len content)) \<and>
         mw_core w' = bt_insert (mw_path w)
           \<lparr>mv_metadata = memory_writer_metadata (mw_op w) (buffer_len content), mv_content = content\<rparr>
           (mw_core w)"
    with w(1) show ?thesis
      by (auto simp: memory_writer_stored_def memory_get_def map_of_bt_insert memory_writer_inv_def
          split: if_splits)
  qed
qed

text \<open>The same contract for a writer of the key \<open>p\<close> over the store \<open>data\<close>.\<close>

definition memory_writer_at :: "memory_core \<Rightarrow> str \<Rightarrow> memory_writer \<Rightarrow> bool" where
  "memory_writer_at data p w \<longleftrightarrow> memory_writer_inv w \<and> mw_core w = data \<and> mw_path w = p"

definition memory_stored_at :: "memory_core \<Rightarrow> str \<Rightarrow> memory_writer \<Rightarrow> bytes option" where
  "memory_stored_at data p w =
     (case memory_get (mw_core w) p of
        Some v \<Rightarrow> (if buffer_ok (mv_content v) \<and> mw_core w = bt_insert p v data
                  then Some (buffer_view (mv_content v)) else None)
      | None \<Rightarrow> None)"

lemma memory_writer_write_at:
  "memory_writer_at data p w \<Longrightarrow> memory_writer_write w bs = (r, w') \<Longrightarrow>
     mw_core w' = data \<and> mw_path w' = p"
  by (auto simp: memory_writer_at_def memory_writer_write_def Let_def)

lemma memory_contract:
  assumes "bt_ok data"
  shows "oio_writer memory_write_ops (memory_writer_at data p) memory_writer_writes (memory_stored_at data p)"
proof
  fix w bs w'
  assume w: "memory_writer_at data p w" "buffer_ok bs" "buffer_view bs \<noteq> []"
    "w_write memory_write_ops w bs = (Ok (), w')"
  then have wr: "memory_writer_write w bs = (Ok (), w')" by (simp add: memory_write_ops_def)
  have "memory_writer_inv w" using w(1) by (simp add: memory_writer_at_def)
  from memory_writer_write_writes[OF this w(2,3) wr] memory_writer_write_at[OF w(1) wr]
  show "memory_writer_at data p w' \<and> memory_writer_writes w' = memory_writer_writes w @ [buffer_view bs]"
    unfolding memory_writer_at_def by blast
next
  fix w bs e w'
  assume "w_write memory_write_ops w bs = (Err e, w')"
  then show "memory_writer_at data p w' \<and> memory_writer_writes w' = memory_writer_writes w"
    by (simp add: memory_write_ops_def memory_writer_write_def Let_def)
next
  fix w bs
  show "fst (w_write memory_write_ops w bs) \<noteq> Panic"
    by (simp add: memory_write_ops_def memory_writer_write_def Let_def)
next
  fix w m w'
  assume w: "memory_writer_at data p w" "w_close memory_write_ops w = (Ok m, w')"
  then have c: "memory_writer_inv w" "memory_writer_close w = (Ok m, w')" and
    at: "mw_core w = data" "mw_path w = p"
    by (simp_all add: memory_write_ops_def memory_writer_at_def)
  show "memory_stored_at data p w' = Some (concat (memory_writer_writes w))"
  proof (rule memory_writer_close_cases[OF c])
    fix content
    let ?v = "\<lparr>mv_metadata = memory_writer_metadata (mw_op w) (buffer_len content), mv_content = content\<rparr>"
    assume content: "buffer_ok content" "buffer_view content = concat (memory_writer_writes w)"
      "if ow_if_not_exists (mw_op w) \<and> map_of (mw_core w) (mw_path w) \<noteq> None
       then mw_core w' = mw_core w \<and> Ok m = Err (error_new ConditionNotMatch ''key already exists'')
       else Ok m = Ok (memory_writer_metadata (mw_op w) (buffer_len content)) \<and>
         mw_core w' = bt_insert (mw_path w) ?v (mw_core w)"
    then have "mw_core w' = bt_insert p ?v data" using at by (simp split: if_splits)
    with content(1,2) map_of_bt_insert[OF assms, of p ?v] show ?thesis
      by (simp add: memory_stored_at_def memory_get_def)
  qed
qed

text \<open>The lister of a list of keys below the root.\<close>

definition memory_entry :: "str \<Rightarrow> str \<Rightarrow> oio_entry" where
  "memory_entry root key =
     oio_entry_new (case build_rel_path root key of Some p \<Rightarrow> p | None \<Rightarrow> [])
       (metadata_new (if ends_with_char key slash then DIR else FILE))"

definition memory_contents :: "memory_lister \<Rightarrow> oio_entry list" where
  "memory_contents l = map (memory_entry (ml_root l)) (ml_keys l)"

definition memory_lister_inv :: "memory_lister \<Rightarrow> bool" where
  "memory_lister_inv l \<longleftrightarrow> (\<forall>k\<in>set (ml_keys l). build_rel_path (ml_root l) k \<noteq> None)"

interpretation meml: finite_lister memory_lister_next memory_contents memory_lister_inv
proof
  fix l e es
  assume "memory_lister_inv l" "memory_contents l = e # es"
  then show "\<exists>l'. memory_lister_next l = Some (Ok (Some e), l') \<and> memory_lister_inv l' \<and>
      memory_contents l' = es"
    by (cases "ml_keys l")
      (auto simp: memory_lister_inv_def memory_contents_def memory_lister_next_def memory_entry_def
        oio_entry_new_def oio_entry_with_def Let_def split: option.splits)
next
  fix l
  assume "memory_lister_inv l" "memory_contents l = []"
  then show "\<exists>l'. memory_lister_next l = Some (Ok None, l') \<and> memory_lister_inv l' \<and>
      memory_contents l' = []"
    by (auto simp: memory_contents_def memory_lister_next_def)
qed

text \<open>A path that is a key no more counts as deleted, for any arguments.\<close>

definition memory_gone :: "memory_deleter \<Rightarrow> delete_item set" where
  "memory_gone d =
     {(path, args). \<exists>p. build_abs_path (mdel_root d) path = Some p \<and> memory_get (mdel_core d) p = None}"

interpretation memd: oio_deleter "one_shot_delete_ops memory_delete_once" "\<lambda>d. True" "\<lambda>d. {}" memory_gone
proof
  fix d path args
  show "\<exists>r d'. d_delete (one_shot_delete_ops memory_delete_once) d path args = Some (r, d') \<and> True \<and>
      {} \<union> memory_gone d \<subseteq> {} \<union> memory_gone d' \<and> (r = Ok () \<longrightarrow> (path, args) \<in> {} \<union> memory_gone d')"
    by (cases "build_abs_path (mdel_root d) path")
      (auto simp: one_shot_delete_ops_def memory_delete_once_def memory_gone_def memory_get_def
        memory_delete_def map_of_bt_remove)
qed (auto simp: one_shot_delete_ops_def)

section \<open>Paths below the root\<close>

text \<open>A root as \<open>normalize_root\<close> gives it, and the paths of files and directories below it.\<close>

definition root_ok :: "str \<Rightarrow> bool" where
  "root_ok root \<longleftrightarrow> wf_root root \<and> valid_str (tl root)"

definition path_ok :: "str \<Rightarrow> bool" where
  "path_ok path \<longleftrightarrow> path \<noteq> [] \<and> valid_str path \<and> \<not> starts_with_char path slash"

definition store_ok :: "str \<Rightarrow> memory_core \<Rightarrow> bool" where
  "store_ok root data \<longleftrightarrow> bt_ok data \<and> (\<forall>k\<in>fst ` set data. \<exists>p. path_ok p \<and> k = tl root @ p)"

definition store_paths :: "str \<Rightarrow> memory_core \<Rightarrow> str set" where
  "store_paths root data = {p. path_ok p \<and> tl root @ p \<in> fst ` set data}"

lemma build_abs_path_ok: "root_ok root \<Longrightarrow> path_ok path \<Longrightarrow> build_abs_path root path = Some (tl root @ path)"
  using str_from_root[of root]
  by (auto simp: root_ok_def path_ok_def build_abs_path_def simp del: One_nat_def)

lemma build_abs_path_top:
  "root_ok root \<Longrightarrow> build_abs_path root ''/'' = Some (tl root)"
  "root_ok root \<Longrightarrow> build_abs_path root [] = Some (tl root)"
  using str_from_root[of root] by (auto simp: root_ok_def build_abs_path_def simp del: One_nat_def)

lemma build_rel_path_ok:
  assumes "root_ok root" "path_ok path"
  shows "build_rel_path root (tl root @ path) = Some path"
proof -
  have "\<not> starts_with_char (tl root @ path) slash" "root \<noteq> []" "length root - 1 = length (tl root)"
    using assms by (auto simp: root_ok_def path_ok_def elim!: wf_root_cases)
  then show ?thesis
    using str_from_append[of path "tl root"] assms by (simp add: build_rel_path_def path_ok_def)
qed

lemma memory_entry_path: "root_ok root \<Longrightarrow> path_ok p \<Longrightarrow> oe_path (memory_entry root (tl root @ p)) = p"
  by (simp add: memory_entry_def build_rel_path_ok oio_entry_new_def oio_entry_with_def)
    (simp add: path_ok_def)

lemma store_keys:
  assumes "store_ok root data"
  shows "fst ` set data = (@) (tl root) ` store_paths root data"
proof
  show "fst ` set data \<subseteq> (@) (tl root) ` store_paths root data"
  proof
    fix k assume k: "k \<in> fst ` set data"
    with assms obtain p where "path_ok p" "k = tl root @ p" unfolding store_ok_def by blast
    with k show "k \<in> (@) (tl root) ` store_paths root data" by (simp add: store_paths_def)
  qed
qed (auto simp: store_paths_def)

text \<open>What the lister of a path below the root is given.\<close>

definition list_base :: "str \<Rightarrow> str" where
  "list_base path = (if path = ''/'' then [] else path)"

lemma memory_list_lister:
  assumes "root_ok root" "store_ok root data" "path = ''/'' \<or> path_ok path"
  defines "l \<equiv> memory_lister_new root (memory_scan data (tl root @ list_base path))"
  shows "memory_list root data path args = Ok (hierarchy_new l path (ol_recursive args))"
    "memory_lister_inv l" "distinct (map oe_path (memory_contents l))"
    "oe_path ` set (memory_contents l) = {p \<in> store_paths root data. starts_with p (list_base path)}"
proof -
  have bt: "bt_ok data" using assms(2) by (simp add: store_ok_def)
  have keys: "set (ml_keys l) = (@) (tl root) ` {p \<in> store_paths root data. starts_with p (list_base path)}"
  proof -
    have "set (ml_keys l) = {k \<in> fst ` set data. starts_with k (tl root @ list_base path)}"
      by (simp add: l_def memory_lister_new_def memory_scan_eq[OF bt])
    also have "\<dots> = (@) (tl root) ` {p \<in> store_paths root data. starts_with p (list_base path)}"
      unfolding store_keys[OF assms(2)] by (auto simp: starts_with_iff)
    finally show ?thesis .
  qed
  have pok: "path_ok p" if "p \<in> store_paths root data" for p using that by (simp add: store_paths_def)
  have root: "ml_root l = root" by (simp add: l_def memory_lister_new_def)
  show "memory_list root data path args = Ok (hierarchy_new l path (ol_recursive args))"
    using assms(1,3) build_abs_path_ok[of root path] build_abs_path_top[of root]
    by (auto simp: memory_list_def l_def list_base_def path_ok_def)
  show "memory_lister_inv l"
    using keys pok build_rel_path_ok[OF assms(1)] by (auto simp: memory_lister_inv_def root)
  have paths: "map oe_path (memory_contents l) = map (\<lambda>k. drop (length (tl root)) k) (ml_keys l)"
  proof -
    have "oe_path (memory_entry root k) = drop (length (tl root)) k" if "k \<in> set (ml_keys l)" for k
      using that keys pok memory_entry_path[OF assms(1)] by auto
    then show ?thesis by (simp add: memory_contents_def root)
  qed
  have "distinct (ml_keys l)"
    using bt by (simp add: l_def memory_lister_new_def memory_scan_eq bt_ok_def strict_sorted_iff)
  moreover have "inj_on (drop (length (tl root))) (set (ml_keys l))"
    unfolding keys by (auto simp: inj_on_def)
  ultimately show "distinct (map oe_path (memory_contents l))"
    unfolding paths by (simp add: distinct_map)
  show "oe_path ` set (memory_contents l) = {p \<in> store_paths root data. starts_with p (list_base path)}"
    using arg_cong[OF paths, of set] keys by (simp add: image_image)
qed

lemma memory_hierarchy_paths:
  assumes "root_ok root" "store_ok root data" "path = ''/'' \<or> path_ok path"
  defines "h \<equiv> \<lambda>r. hierarchy_new (memory_lister_new root (memory_scan data (tl root @ list_base path))) path r"
  shows "distinct (map oe_path (hierarchy_contents memory_contents (h r))) \<and>
    oe_path ` set (hierarchy_contents memory_contents (h r)) =
      (let below = {p \<in> store_paths root data. starts_with p (list_base path)}
       in if r then below else child_of (list_base path) ` below)"
proof -
  let ?l = "memory_lister_new root (memory_scan data (tl root @ list_base path))"
  note ml = memory_list_lister[OF assms(1-3)]
  have "{q \<in> oe_path ` set (memory_contents ?l). starts_with q (list_base path)} =
      {p \<in> store_paths root data. starts_with p (list_base path)}"
    using ml(4) by auto
  with ml(3,4) hierarchy_walk_paths[of "{}" "list_base path" "memory_contents ?l"]
    hierarchy_walk_distinct[of "{}" "list_base path" "memory_contents ?l"]
  show ?thesis by (simp add: h_def hierarchy_contents_def hierarchy_new_def list_base_def[symmetric])
qed

text \<open>Reading a stored object.\<close>

lemma unat_min_u64: "unat (min a b :: u64) = min (unat a) (unat b)"
  by (simp add: min_def word_le_nat_alt)

lemma memory_read_ok:
  assumes "root_ok root" "path_ok path" "memory_get data (tl root @ path) = Some v"
    "buffer_ok (mv_content v)" "buffer_view (mv_content v) = bs" "length bs < 2 ^ 64"
  shows "\<exists>m b. memory_read root data path args = Ok (m, b) \<and> buffer_ok b \<and>
    buffer_view b = requested (ord_range args) bs \<and> metadata_content_length m = of_nat (length bs)"
proof -
  let ?r = "ord_range args"
  let ?total = "of_nat (buffer_len (mv_content v)) :: u64"
  have len: "buffer_len (mv_content v) = length bs" using assms(4,5) buffer_ok_len by auto
  then have total: "unat ?total = length bs" using assms(6) unat_of_nat_u64 by simp
  define lo where "lo = unat (min (br_offset ?r) ?total)"
  define hi where "hi = unat (case br_size ?r of
      Some sz \<Rightarrow> min (saturating_add_u64 (br_offset ?r) sz) ?total | None \<Rightarrow> ?total)"
  have lo: "lo = min (unat (br_offset ?r)) (length bs)"
    using total by (simp add: lo_def unat_min_u64)
  have hi: "hi = (case br_size ?r of None \<Rightarrow> length bs
      | Some sz \<Rightarrow> min (unat (br_offset ?r) + unat sz) (length bs))"
    using total assms(6)
    by (auto simp: hi_def unat_min_u64 unat_saturating_add_u64 split: option.splits)
  have lohi: "lo \<le> hi" "hi \<le> buffer_len (mv_content v)"
    unfolding lo hi len by (auto split: option.splits)
  have bounds: "slice_bounds (buffer_len (mv_content v)) (Included lo) (Excluded hi) = (lo, hi)"
    by (simp add: slice_bounds_def)
  have "buffer_len (mv_content v) \<le> usize_max" using len assms(6) by (simp add: usize_max_def)
  from buffer_ok_slice[OF assms(4) this bounds lohi] obtain b where
    b: "buffer_slice (mv_content v) (Included lo) (Excluded hi) = Some b" "buffer_ok b"
      "buffer_view b = take (hi - lo) (drop lo bs)"
    using assms(5) by auto
  have "take (hi - lo) (drop lo bs) = requested ?r bs"
    by (cases "br_size ?r") (auto simp: lo hi requested_def min_def)
  moreover have "memory_read root data path args = Ok (md_with_content_length ?total (metadata_new FILE), b)"
    using b(1) assms(3) build_abs_path_ok[OF assms(1,2)]
    by (simp add: memory_read_def lo_def hi_def Let_def)
  ultimately show ?thesis
    using b len by (auto simp: metadata_content_length_def md_with_content_length_def)
qed

text \<open>The object without content, for the examples.\<close>

definition empty_object :: memory_value where
  "empty_object = \<lparr>mv_metadata = metadata_new FILE, mv_content = buffer_new\<rparr>"

text \<open>
  The accessor of the memory service for a reader: the reader is the \<open>Buffer\<close> that \<open>read\<close> returned.
\<close>

definition memory_read_ops :: "str \<Rightarrow> (buffer, memory_core) read_ops" where
  "memory_read_ops root =
     \<lparr>rop_open = (\<lambda>path args data. (bind_res (memory_read root data path args) (\<lambda>(m, b). Ok (Some m, b)), data)),
      rop_read = (\<lambda>r data. (fst (buffer_take r), snd (buffer_take r), data)),
      rop_stat = (\<lambda>path args data. (memory_stat root data path, data))\<rparr>"

definition memory_holds :: "str \<Rightarrow> str \<Rightarrow> bytes \<Rightarrow> memory_core \<Rightarrow> bool" where
  "memory_holds root path content data \<longleftrightarrow>
     root_ok root \<and> path_ok path \<and> length content < 2 ^ 64 \<and>
     (\<exists>v. memory_get data (tl root @ path) = Some v \<and> buffer_ok (mv_content v) \<and>
        buffer_view (mv_content v) = content \<and>
        metadata_content_length (mv_metadata v) = of_nat (length content))"

lemma memory_holds_read:
  assumes "memory_holds root path content data"
  shows "\<exists>m b. memory_read root data path args = Ok (m, b) \<and> buffer_ok b \<and>
    buffer_view b = requested (ord_range args) content"
  using assms memory_read_ok[of root path data _ content args] unfolding memory_holds_def by blast

lemma memory_holds_stat:
  assumes "memory_holds root path content data"
  shows "\<exists>m. memory_stat root data path = Ok m \<and> metadata_content_length m = of_nat (length content)"
proof -
  from assms obtain v where v: "root_ok root" "path_ok path" "memory_get data (tl root @ path) = Some v"
    "metadata_content_length (mv_metadata v) = of_nat (length content)" by (auto simp: memory_holds_def)
  have "path \<noteq> []" using v(2) by (simp add: path_ok_def)
  with v build_abs_path_ok[OF v(1,2)] build_abs_path_top[OF v(1)] show ?thesis
    by (simp add: memory_stat_def)
qed

interpretation memr: reliable_reader "memory_read_ops root" path content "memory_holds root path content"
  buffer_ok buffer_view "\<lambda>args. True" "\<lambda>r. True"
proof
  fix s args rp r s'
  assume "memory_holds root path content s" "rop_open (memory_read_ops root) path args s = (Ok (rp, r), s')"
  with memory_holds_read[of root path content s args]
  show "memory_holds root path content s' \<and> buffer_ok r \<and> buffer_view r = requested (ord_range args) content"
    by (auto simp: memory_read_ops_def)
next
  fix s r b r' s'
  assume "memory_holds root path content s" "buffer_ok r" "rop_read (memory_read_ops root) r s = (Ok b, r', s')"
  then show "memory_holds root path content s' \<and> buffer_ok r' \<and> buffer_ok b \<and>
      buffer_view r = buffer_view b @ buffer_view r' \<and> (buffer_view b = [] \<longrightarrow> buffer_view r = [])"
    by (auto simp: memory_read_ops_def buffer_take_def)
next
  fix s sargs m s'
  assume "memory_holds root path content s" "rop_stat (memory_read_ops root) path sargs s = (Ok m, s')"
  with memory_holds_stat[of root path content s]
  show "memory_holds root path content s' \<and> metadata_content_length m = of_nat (length content)"
    by (auto simp: memory_read_ops_def)
next
  fix s
  assume "memory_holds root path content s"
  then show "length content < 2 ^ 64" by (simp add: memory_holds_def)
next
  fix s args
  assume "memory_holds root path content s"
  with memory_holds_read[of root path content s args]
  show "\<exists>rp r s'. rop_open (memory_read_ops root) path args s = (Ok (rp, r), s') \<and> True"
    by (auto simp: memory_read_ops_def)
next
  fix s r
  show "\<exists>b r' s'. rop_read (memory_read_ops root) r s = (Ok b, r', s') \<and> True"
    by (simp add: memory_read_ops_def buffer_take_def)
next
  fix s args
  assume "memory_holds root path content s"
  with memory_holds_stat[of root path content s]
  show "\<exists>m s'. rop_stat (memory_read_ops root) path (reader_stat_op args) s = (Ok m, s')"
    by (auto simp: memory_read_ops_def)
qed

section \<open>Properties\<close>

text \<open>
  Scanning a prefix returns exactly the keys with that prefix, in the order of the store:
  stopping at the first key without the prefix misses none.
\<close>

theorem memory_scan_exact:
  assumes "bt_ok data"
  shows "memory_scan data p = filter (\<lambda>k. starts_with k p) (map fst data)"
  using assms by (rule memory_scan_eq)

text \<open>
  Writing an object through the buffering writer and reading it back: if all writes and the
  \<open>close\<close> succeed, then reading any range of the path returns exactly the requested bytes of the
  data written, with the total length as content length, and every other key is unchanged.
\<close>

theorem memory_write_read_roundtrip:
  assumes "root_ok root" "path_ok path" "bt_ok data" "\<forall>b\<in>set bs. buffer_ok b" "c \<noteq> Some 0"
    "length (concat (map buffer_view bs)) < 2 ^ 64"
    "memory_write root data path op = Ok w"
    "writer_write_all memory_write_ops
       \<lparr>wg_w = w, wg_chunk_size = c, wg_exact = x, wg_buffer = queue_new\<rparr> bs = Some (Ok (), g)"
    "wg_close memory_write_ops g = (Ok m, g')"
  shows "(\<exists>m b. memory_read root (mw_core (wg_w g')) path args = Ok (m, b) \<and>
      buffer_view b = requested (ord_range args) (concat (map buffer_view bs)) \<and>
      metadata_content_length m = of_nat (length (concat (map buffer_view bs)))) \<and>
    (\<forall>k. k \<noteq> tl root @ path \<longrightarrow> memory_get (mw_core (wg_w g')) k = memory_get data k)"
proof -
  let ?p = "tl root @ path"
  have w: "w = memory_writer_new data ?p op"
    using assms(7) build_abs_path_ok[OF assms(1,2)] by (simp add: memory_write_def res_of_option_def)
  have winv: "memory_writer_at data ?p w" "memory_writer_writes w = []"
    using assms(3)
    by (simp_all add: w memory_writer_at_def memory_writer_inv_def memory_writer_new_def
        memory_writer_writes_def)
  have "memory_stored_at data ?p (wg_w g') = Some (concat (map buffer_view bs))"
    using oio_writer.writer_session[OF memory_contract[OF assms(3)] winv assms(4,5), of x] assms(8,9)
    by auto
  then obtain v where v: "memory_get (mw_core (wg_w g')) ?p = Some v" "buffer_ok (mv_content v)"
    "mw_core (wg_w g') = bt_insert ?p v data" "buffer_view (mv_content v) = concat (map buffer_view bs)"
    by (auto simp: memory_stored_at_def split: option.splits if_splits)
  from memory_read_ok[OF assms(1,2) v(1,2,4) assms(6), of args] v(3) map_of_bt_insert[OF assms(3)]
  show ?thesis by (auto simp: memory_get_def)
qed

text \<open>
  Listing a directory: a recursive listing yields all paths stored below it; a
  non-recursive one yields its direct children, a subdirectory once for all that is below it.
  No path is listed twice, and the listing ends.
\<close>

theorem memory_list_exact:
  assumes "root_ok root" "store_ok root data" "path = ''/'' \<or> path_ok path"
  shows "\<exists>h n es. memory_list root data path args = Ok h \<and>
    list_all_entries n (hierarchy_next memory_lister_next) h = Some es \<and> distinct (map oe_path es) \<and>
    oe_path ` set es =
      (let below = {p \<in> store_paths root data. starts_with p (list_base path)}
       in if ol_recursive args then below else child_of (list_base path) ` below)"
proof -
  let ?l = "memory_lister_new root (memory_scan data (tl root @ list_base path))"
  note ml = memory_list_lister[OF assms]
  have base: "list_base path = (if path = ''/'' then [] else path)" by (simp add: list_base_def)
  let ?h = "hierarchy_new ?l path (ol_recursive args)"
  have h: "memory_lister_inv (hl_lister ?h)" using ml(2) by (simp add: hierarchy_new_def)
  have "list_all_entries (Suc (length (hierarchy_contents memory_contents ?h)))
      (hierarchy_next memory_lister_next) ?h = Some (hierarchy_contents memory_contents ?h)"
    by (rule finite_lister.list_all_entries_contents[OF meml.hierarchy_lister h])
  moreover note memory_hierarchy_paths[OF assms, of "ol_recursive args"]
  ultimately show ?thesis using ml(1) by blast
qed

text \<open>
  Deleting a list of paths through the public deleter: afterwards none of them can be
  read any more.
\<close>

theorem memory_delete_all:
  assumes "deleter_delete_iter (one_shot_delete_ops memory_delete_once) (memory_deleter_new data root) is =
      Some (Ok (), d1)"
    "deleter_close (one_shot_delete_ops memory_delete_once) d1 = Some (Ok (), d2)"
    "i \<in> set is"
  shows "\<exists>p. build_abs_path (mdel_root d2) (di_path i) = Some p \<and> memory_get (mdel_core d2) p = None"
  using memd.delete_session[OF _ assms(1,2)] assms(3) by (auto simp: memory_gone_def)

section \<open>The generic theorems at the memory service\<close>

theorem writer_stores_all_witness:
  "\<exists>r g'. writer_write_all memory_write_ops \<lparr>wg_w = memory_writer_new [] ''f'' op_write_default,
        wg_chunk_size = Some 2, wg_exact = True, wg_buffer = queue_new\<rparr> [buffer_from_bytes [1, 2, 3]] =
      Some (r, g') \<and> r \<noteq> Panic \<and>
    (r = Ok () \<longrightarrow>
       (\<exists>q. memory_writer_writes (wg_w g') @ q = [[1, 2], [3]] \<and> length q \<le> 1))"
proof -
  let ?w = "memory_writer_new [] ''f'' op_write_default"
  have w: "memory_writer_inv ?w" "memory_writer_writes ?w = []"
    by (simp_all add: memory_writer_inv_def memory_writer_new_def memory_writer_writes_def bt_ok_def)
  have bs: "\<forall>b\<in>set [buffer_from_bytes [1, 2, 3]]. buffer_ok b" by simp
  have "chop 2 (concat (map buffer_view [buffer_from_bytes [1, 2, 3]])) = [[1, 2], [3]]"
    by (simp add: chop.simps)
  moreover have c: "Some 2 \<noteq> Some (0 :: nat)" by simp
  moreover note writer_stores_all[OF mem.oio_writer_axioms w bs c, of True]
  ultimately show ?thesis by (elim exE conjE, intro exI conjI) auto
qed

theorem reader_read_exact_witness:
  "let data = [(''f'', \<lparr>mv_metadata = md_with_content_length 3 (metadata_new FILE), mv_content = buffer_from_bytes [1, 2, 3]\<rparr>)];
       ctx = rc_new ''f'' op_read_default (op_reader_default\<lparr>orr_chunk := Some 2\<rparr>)
   in \<exists>b s'. reader_read (memory_read_ops ''/'') (chunk_env_at (memory_read_ops ''/'') ctx data) ctx (Included 1) Unbounded data =
        Some (Ok b, s') \<and> buffer_view b = [2, 3]"
proof -
  let ?data = "[(''f'', \<lparr>mv_metadata = md_with_content_length 3 (metadata_new FILE),
      mv_content = buffer_from_bytes [1, 2, 3]\<rparr>)]"
  let ?ctx = "rc_new ''f'' op_read_default (op_reader_default\<lparr>orr_chunk := Some 2\<rparr>)"
  let ?env = "chunk_env_at (memory_read_ops ''/'') ?ctx ?data"
  have "root_ok ''/''" "path_ok ''f''"
    by (simp_all add: root_ok_def wf_root_def render_root_def valid_str_def path_ok_def is_continuation_def)
  then have holds: "memory_holds ''/'' ''f'' [1, 2, 3] ?data"
    by (simp add: memory_holds_def memory_get_def md_with_content_length_def metadata_content_length_def)
  have ready: "reader_ready ''f'' [1, 2, 3] ?ctx"
    by (simp add: reader_ready_def rc_new_def op_reader_default_def usize_max_def)
  have env: "chunked_runs (memory_read_ops ''/'') ?ctx (memory_holds ''/'' ''f'' [1, 2, 3]) ?env"
    using holds by (rule chunked_runs_at)
  have "requested (br_from_bounds (Included 1) Unbounded) [1, 2, 3] = [2, 3 :: 8 word]"
    by (simp add: br_from_bounds_def)
  moreover obtain x s' where "reader_read (memory_read_ops ''/'') ?env ?ctx (Included 1) Unbounded ?data = Some (x, s')"
    "\<forall>b. x = Ok b \<longrightarrow> buffer_ok b \<and> buffer_view b = requested (br_from_bounds (Included 1) Unbounded) [1, 2, 3]"
    "\<exists>b. x = Ok b"
    using reader_read_exact[OF memr.object_reader_axioms ready holds env, of "Included 1" Unbounded
        "\<lambda>args. True" "\<lambda>r. True"] memr.reliable_reader_axioms[of "''/''" "''f''" "[1, 2, 3]"] by auto
  ultimately show ?thesis by (auto simp: Let_def)
qed

end
