(* ===== verification/Accessor.thy ===== *)
theory Accessor
  imports Write_Context Read_Context Deleters
begin

text \<open>
  The interface of a storage service, \<open>Access\<close> of \<open>core/core/src/raw/accessor.rs\<close>, with
  \<open>AccessorInfo\<close>, the names of the operations (\<open>raw/operation.rs\<close>), the interface \<open>oio::Copy\<close>
  (\<open>raw/oio/copy/api.rs\<close>), and the enums \<open>TwoWays\<close> to \<open>FourWays\<close> of \<open>raw/enum_utils.rs\<close>.

  An asynchronous method is a value of type \<open>io\<close>: a function of the state of the service that
  returns its result and the new state, or does not return (\<open>None\<close>).  A method of a reader, a
  writer, a lister, a deleter or a copier runs on the pair of that object and the state of the
  service.  An accessor is the record of its methods, so a layer is a function from accessors to
  accessors, as in the code.  The methods \<open>presign\<close> and the HTTP client and executor of the info
  are not part of the record.
\<close>

section \<open>Asynchronous methods\<close>

type_synonym ('s, 'a) io = "'s \<Rightarrow> ('a res \<times> 's) option"

definition io_ok :: "'a \<Rightarrow> ('s, 'a) io" where
  "io_ok x s = Some (Ok x, s)"

definition io_err :: "error \<Rightarrow> ('s, 'a) io" where
  "io_err e s = Some (Err e, s)"

text \<open>\<open>.await?\<close> followed by the rest of the function.\<close>

definition io_bind :: "('s, 'a) io \<Rightarrow> ('a \<Rightarrow> ('s, 'b) io) \<Rightarrow> ('s, 'b) io" where
  "io_bind m f s =
     (case m s of
        None \<Rightarrow> None
      | Some (Ok x, s1) \<Rightarrow> f x s1
      | Some (Err e, s1) \<Rightarrow> Some (Err e, s1)
      | Some (Panic, s1) \<Rightarrow> Some (Panic, s1))"

fun map_res :: "('a \<Rightarrow> 'b) \<Rightarrow> 'a res \<Rightarrow> 'b res" where
  "map_res f (Ok x) = Ok (f x)"
| "map_res f (Err e) = Err e"
| "map_res f Panic = Panic"

fun map_err :: "(error \<Rightarrow> error) \<Rightarrow> 'a res \<Rightarrow> 'a res" where
  "map_err f (Ok x) = Ok x"
| "map_err f (Err e) = Err (f e)"
| "map_err f Panic = Panic"

definition io_map :: "('a \<Rightarrow> 'b) \<Rightarrow> ('s, 'a) io \<Rightarrow> ('s, 'b) io" where
  "io_map f m s = map_option (\<lambda>(r, s1). (map_res f r, s1)) (m s)"

definition io_map_err :: "(error \<Rightarrow> error) \<Rightarrow> ('s, 'a) io \<Rightarrow> ('s, 'a) io" where
  "io_map_err f m s = map_option (\<lambda>(r, s1). (map_err f r, s1)) (m s)"

text \<open>
  Run a method of an inner object from the state of an outer one: \<open>get\<close> is the inner object and
  \<open>put\<close> stores it back.
\<close>

definition io_on :: "('o \<Rightarrow> 'i) \<Rightarrow> ('i \<Rightarrow> 'o \<Rightarrow> 'o) \<Rightarrow> ('i \<times> 's, 'a) io \<Rightarrow> ('o \<times> 's, 'a) io" where
  "io_on get put m = (\<lambda>(ob, s). map_option (\<lambda>(r, i, s1). (r, put i ob, s1)) (m (get ob, s)))"

text \<open>Run a method of the service from the state of an object.\<close>

definition io_lift :: "('s, 'a) io \<Rightarrow> ('o \<times> 's, 'a) io" where
  "io_lift m = (\<lambda>(ob, s). map_option (\<lambda>(r, s1). (r, ob, s1)) (m s))"

text \<open>Run a method of an object that the function owns.\<close>

definition io_local :: "'o \<Rightarrow> ('o \<times> 's, 'a) io \<Rightarrow> ('s, 'a) io" where
  "io_local ob m s = map_option (\<lambda>(r, ob', s1). (r, s1)) (m (ob, s))"

text \<open>Change the object.\<close>

definition io_update :: "('o \<Rightarrow> 'o) \<Rightarrow> ('o \<times> 's, unit) io" where
  "io_update f = (\<lambda>(ob, s). Some (Ok (), f ob, s))"

definition io_get :: "('o \<Rightarrow> 'a) \<Rightarrow> ('o \<times> 's, 'a) io" where
  "io_get f = (\<lambda>(ob, s). Some (Ok (f ob), ob, s))"

definition io_with :: "('o \<Rightarrow> ('o \<times> 's, 'a) io) \<Rightarrow> ('o \<times> 's, 'a) io" where
  "io_with f = (\<lambda>(ob, s). f ob (ob, s))"

definition io_res :: "'a res \<Rightarrow> ('s, 'a) io" where
  "io_res r s = Some (r, s)"

text \<open>\<open>inspect_err\<close> with a closure that changes the object, and \<open>inspect\<close> likewise.\<close>

definition io_inspect_err :: "('o \<Rightarrow> 'o) \<Rightarrow> ('o \<times> 's, 'a) io \<Rightarrow> ('o \<times> 's, 'a) io" where
  "io_inspect_err f m x =
     map_option (\<lambda>(r, ob, s). (r, case r of Err _ \<Rightarrow> f ob | _ \<Rightarrow> ob, s)) (m x)"

definition io_inspect :: "('a \<Rightarrow> 'o \<Rightarrow> 'o) \<Rightarrow> ('o \<times> 's, 'a) io \<Rightarrow> ('o \<times> 's, 'a) io" where
  "io_inspect f m x =
     map_option (\<lambda>(r, ob, s). (r, case r of Ok v \<Rightarrow> f v ob | _ \<Rightarrow> ob, s)) (m x)"

text \<open>The outcome of a method that returns; only used where it does.\<close>

definition io_total :: "('s, 'a) io \<Rightarrow> 's \<Rightarrow> 'a res \<times> 's" where
  "io_total m s = (case m s of Some r \<Rightarrow> r | None \<Rightarrow> (Panic, s))"

section \<open>Operations\<close>

datatype operation =
    OpInfo | OpCreateDir | OpRead | OpWrite | OpCopy | OpRename | OpStat | OpDelete | OpList | OpPresign

fun operation_into_static :: "operation \<Rightarrow> str" where
  "operation_into_static OpInfo = ''info''"
| "operation_into_static OpCreateDir = ''create_dir''"
| "operation_into_static OpRead = ''read''"
| "operation_into_static OpWrite = ''write''"
| "operation_into_static OpCopy = ''copy''"
| "operation_into_static OpRename = ''rename''"
| "operation_into_static OpStat = ''stat''"
| "operation_into_static OpDelete = ''delete''"
| "operation_into_static OpList = ''list''"
| "operation_into_static OpPresign = ''presign''"

section \<open>AccessorInfo\<close>

record accessor_info =
  ai_scheme :: str
  ai_root :: str
  ai_name :: str
  ai_native_capability :: capability
  ai_full_capability :: capability

definition accessor_info_default :: accessor_info where
  "accessor_info_default =
     \<lparr>ai_scheme = ''unknown'', ai_root = [], ai_name = [],
      ai_native_capability = capability_default, ai_full_capability = capability_default\<rparr>"

definition set_scheme :: "str \<Rightarrow> accessor_info \<Rightarrow> accessor_info" where
  "set_scheme scheme i = i\<lparr>ai_scheme := scheme\<rparr>"

definition set_root :: "str \<Rightarrow> accessor_info \<Rightarrow> accessor_info" where
  "set_root root i = i\<lparr>ai_root := root\<rparr>"

definition set_name :: "str \<Rightarrow> accessor_info \<Rightarrow> accessor_info" where
  "set_name name i = i\<lparr>ai_name := name\<rparr>"

definition set_native_capability :: "capability \<Rightarrow> accessor_info \<Rightarrow> accessor_info" where
  "set_native_capability cap i = i\<lparr>ai_native_capability := cap, ai_full_capability := cap\<rparr>"

definition update_full_capability ::
  "(capability \<Rightarrow> capability) \<Rightarrow> accessor_info \<Rightarrow> accessor_info" where
  "update_full_capability f i = i\<lparr>ai_full_capability := f (ai_full_capability i)\<rparr>"

section \<open>Copy\<close>

record 'c copy_ops =
  c_next :: "('c, usize option) io"
  c_close :: "('c, metadata) io"
  c_abort :: "('c, unit) io"

definition unit_copy_ops :: "(unit \<times> 's) copy_ops" where
  "unit_copy_ops = \<lparr>c_next = io_ok None, c_close = io_ok metadata_default, c_abort = io_ok ()\<rparr>"

text \<open>\<open>OneShotCopier\<close>: the future that copies is a method of the service.\<close>

record 's one_shot_copier =
  osc_fut :: "('s, metadata) io option"
  osc_meta :: "metadata option"

definition one_shot_copier_new :: "('s, metadata) io \<Rightarrow> 's one_shot_copier" where
  "one_shot_copier_new fut = \<lparr>osc_fut = Some fut, osc_meta = None\<rparr>"

definition one_shot_copier_close :: "('s one_shot_copier \<times> 's, metadata) io" where
  "one_shot_copier_close = (\<lambda>(c, s).
     io_bind
       (case osc_fut c of
          None \<Rightarrow> io_ok ()
        | Some fut \<Rightarrow>
            io_bind (io_update (\<lambda>c. c\<lparr>osc_fut := None\<rparr>)) (\<lambda>_.
            io_bind (io_lift fut) (\<lambda>m. io_update (\<lambda>c. c\<lparr>osc_meta := Some m\<rparr>))))
       (\<lambda>_. io_get (\<lambda>c. case osc_meta c of Some m \<Rightarrow> m | None \<Rightarrow> metadata_default))
       (c, s))"

definition one_shot_copier_next :: "('s one_shot_copier \<times> 's, usize option) io" where
  "one_shot_copier_next = (\<lambda>(c, s).
     (if osc_meta c = None then io_bind one_shot_copier_close (\<lambda>_. io_ok None) (c, s)
      else io_ok None (c, s)))"

definition one_shot_copier_abort :: "('s one_shot_copier \<times> 's, unit) io" where
  "one_shot_copier_abort = io_update (\<lambda>c. c\<lparr>osc_fut := None, osc_meta := None\<rparr>)"

definition one_shot_copy_ops :: "('s one_shot_copier \<times> 's) copy_ops" where
  "one_shot_copy_ops =
     \<lparr>c_next = one_shot_copier_next, c_close = one_shot_copier_close, c_abort = one_shot_copier_abort\<rparr>"

section \<open>Access\<close>

record ('s, 'r, 'w, 'l, 'd, 'c) accessor =
  ac_info :: accessor_info
  ac_create_dir :: "str \<Rightarrow> ('s, unit) io"
  ac_stat :: "str \<Rightarrow> op_stat \<Rightarrow> ('s, metadata) io"
  ac_read :: "str \<Rightarrow> op_read \<Rightarrow> ('s, metadata option \<times> 'r) io"
  ac_write :: "str \<Rightarrow> op_write \<Rightarrow> ('s, 'w) io"
  ac_delete :: "('s, 'd) io"
  ac_list :: "str \<Rightarrow> op_list \<Rightarrow> ('s, 'l) io"
  ac_copy :: "str \<Rightarrow> str \<Rightarrow> op_copy \<Rightarrow> op_copier \<Rightarrow> ('s, 'c) io"
  ac_rename :: "str \<Rightarrow> str \<Rightarrow> ('s, unit) io"
  ac_reader_read :: "('r \<times> 's, buffer) io"
  ac_writer_write :: "buffer \<Rightarrow> ('w \<times> 's, unit) io"
  ac_writer_close :: "('w \<times> 's, metadata) io"
  ac_writer_abort :: "('w \<times> 's, unit) io"
  ac_lister_next :: "('l \<times> 's, oio_entry option) io"
  ac_deleter_delete :: "str \<Rightarrow> op_delete \<Rightarrow> ('d \<times> 's, unit) io"
  ac_deleter_close :: "('d \<times> 's, unit) io"
  ac_copier :: "('c \<times> 's) copy_ops"

definition unsupported_operation :: error where
  "unsupported_operation = error_new Unsupported ''operation is not supported''"

text \<open>The default methods of the trait, with the accessor \<open>()\<close> as the one that has only them.\<close>

definition unit_info :: accessor_info where
  "unit_info =
     set_native_capability capability_default
       (set_name ''dummy'' (set_root [] (set_scheme ''dummy'' accessor_info_default)))"

definition unit_accessor :: "('s, unit, unit, unit, unit, unit) accessor" where
  "unit_accessor =
     \<lparr>ac_info = unit_info,
      ac_create_dir = (\<lambda>path. io_err unsupported_operation),
      ac_stat = (\<lambda>path args. io_err unsupported_operation),
      ac_read = (\<lambda>path args. io_err unsupported_operation),
      ac_write = (\<lambda>path args. io_err unsupported_operation),
      ac_delete = io_err unsupported_operation,
      ac_list = (\<lambda>path args. io_err unsupported_operation),
      ac_copy = (\<lambda>from to args opts. io_err unsupported_operation),
      ac_rename = (\<lambda>from to. io_err unsupported_operation),
      ac_reader_read = (\<lambda>(r, s). Some (case unit_read r of (x, r') \<Rightarrow> (x, r', s))),
      ac_writer_write = (\<lambda>bs (w, s). Some (case w_write unit_write_ops w bs of (x, w') \<Rightarrow> (x, w', s))),
      ac_writer_close = (\<lambda>(w, s). Some (case w_close unit_write_ops w of (x, w') \<Rightarrow> (x, w', s))),
      ac_writer_abort = (\<lambda>(w, s). Some (case w_abort unit_write_ops w of (x, w') \<Rightarrow> (x, w', s))),
      ac_lister_next = (\<lambda>(l, s). map_option (\<lambda>(x, l'). (x, l', s)) (unit_next l)),
      ac_deleter_delete = (\<lambda>path args (d, s).
        map_option (\<lambda>(x, d'). (x, d', s)) (d_delete unit_delete_ops d path args)),
      ac_deleter_close = (\<lambda>(d, s). map_option (\<lambda>(x, d'). (x, d', s)) (d_close unit_delete_ops d)),
      ac_copier = unit_copy_ops\<rparr>"

section \<open>TwoWays, ThreeWays and FourWays\<close>

datatype ('a, 'b) ways2 = W2_One 'a | W2_Two 'b
datatype ('a, 'b, 'c) ways3 = W3_One 'a | W3_Two 'b | W3_Three 'c
datatype ('a, 'b, 'c, 'd) ways4 = W4_One 'a | W4_Two 'b | W4_Three 'c | W4_Four 'd

text \<open>Every method of the enums runs the same method of the variant.\<close>

definition ways2_io ::
  "('a \<times> 's, 'x) io \<Rightarrow> ('b \<times> 's, 'x) io \<Rightarrow> (('a, 'b) ways2 \<times> 's, 'x) io" where
  "ways2_io f g = (\<lambda>(v, s).
     case v of
       W2_One a \<Rightarrow> map_option (\<lambda>(r, a', s1). (r, W2_One a', s1)) (f (a, s))
     | W2_Two b \<Rightarrow> map_option (\<lambda>(r, b', s1). (r, W2_Two b', s1)) (g (b, s)))"

definition ways3_io ::
  "('a \<times> 's, 'x) io \<Rightarrow> ('b \<times> 's, 'x) io \<Rightarrow> ('c \<times> 's, 'x) io \<Rightarrow> (('a, 'b, 'c) ways3 \<times> 's, 'x) io" where
  "ways3_io f g h = (\<lambda>(v, s).
     case v of
       W3_One a \<Rightarrow> map_option (\<lambda>(r, a', s1). (r, W3_One a', s1)) (f (a, s))
     | W3_Two b \<Rightarrow> map_option (\<lambda>(r, b', s1). (r, W3_Two b', s1)) (g (b, s))
     | W3_Three c \<Rightarrow> map_option (\<lambda>(r, c', s1). (r, W3_Three c', s1)) (h (c, s)))"

definition ways4_io ::
  "('a \<times> 's, 'x) io \<Rightarrow> ('b \<times> 's, 'x) io \<Rightarrow> ('c \<times> 's, 'x) io \<Rightarrow> ('d \<times> 's, 'x) io \<Rightarrow>
     (('a, 'b, 'c, 'd) ways4 \<times> 's, 'x) io" where
  "ways4_io f g h k = (\<lambda>(v, s).
     case v of
       W4_One a \<Rightarrow> map_option (\<lambda>(r, a', s1). (r, W4_One a', s1)) (f (a, s))
     | W4_Two b \<Rightarrow> map_option (\<lambda>(r, b', s1). (r, W4_Two b', s1)) (g (b, s))
     | W4_Three c \<Rightarrow> map_option (\<lambda>(r, c', s1). (r, W4_Three c', s1)) (h (c, s))
     | W4_Four d \<Rightarrow> map_option (\<lambda>(r, d', s1). (r, W4_Four d', s1)) (k (d, s)))"

section \<open>The methods as the interfaces of the readers and writers\<close>

definition reader_ops :: "('s, 'r, 'w, 'l, 'd, 'c) accessor \<Rightarrow> ('r, 's) read_ops" where
  "reader_ops acc =
     \<lparr>rop_open = (\<lambda>path args. io_total (ac_read acc path args)),
      rop_read = (\<lambda>r s. io_total (ac_reader_read acc) (r, s)),
      rop_stat = (\<lambda>path args. io_total (ac_stat acc path args))\<rparr>"

definition writer_ops :: "('s, 'r, 'w, 'l, 'd, 'c) accessor \<Rightarrow> ('w \<times> 's) write_ops" where
  "writer_ops acc =
     \<lparr>w_write = (\<lambda>x bs. io_total (ac_writer_write acc bs) x), w_close = io_total (ac_writer_close acc),
      w_abort = io_total (ac_writer_abort acc)\<rparr>"

definition deleter_ops :: "('s, 'r, 'w, 'l, 'd, 'c) accessor \<Rightarrow> ('d \<times> 's) delete_ops" where
  "deleter_ops acc =
     \<lparr>d_delete = (\<lambda>x path args. ac_deleter_delete acc path args x), d_close = ac_deleter_close acc\<rparr>"

section \<open>Lemmas\<close>

named_theorems io_defs \<open>definitions of the combinators of asynchronous methods\<close>

lemmas [io_defs] = io_ok_def io_err_def io_bind_def io_map_def io_map_err_def io_on_def io_lift_def
  io_update_def io_get_def io_total_def io_with_def io_res_def io_local_def io_inspect_err_def io_inspect_def

lemma io_bind_assoc: "io_bind (io_bind m f) g = io_bind m (\<lambda>x. io_bind (f x) g)"
  by (auto simp: io_bind_def fun_eq_iff split: option.splits res.splits)

lemma io_bind_ok [simp]: "io_bind (io_ok x) f = f x" "io_bind m io_ok = m"
  by (auto simp: io_bind_def io_ok_def fun_eq_iff split: option.splits res.splits)

lemma io_bind_err [simp]: "io_bind (io_err e) f = io_err e"
  by (auto simp: io_bind_def io_err_def fun_eq_iff)

lemma io_map_err_simps [simp]:
  "io_map_err f (io_ok x) = io_ok x" "io_map_err f (io_err e) = io_err (f e)"
  by (auto simp: io_defs fun_eq_iff)

lemma map_res_iff [simp]:
  "map_res f r = Ok y \<longleftrightarrow> (\<exists>x. r = Ok x \<and> y = f x)" "map_res f r = Err e \<longleftrightarrow> r = Err e"
  "map_res f r = Panic \<longleftrightarrow> r = Panic"
  by (cases r; auto)+

lemma map_err_iff [simp]:
  "map_err f r = Ok y \<longleftrightarrow> r = Ok y" "map_err f r = Err e \<longleftrightarrow> (\<exists>e'. r = Err e' \<and> e = f e')"
  "map_err f r = Panic \<longleftrightarrow> r = Panic"
  by (cases r; auto)+

lemma io_map_err_Some:
  "io_map_err f m s = Some (r, s') \<longleftrightarrow> (\<exists>r0. m s = Some (r0, s') \<and> r = map_err f r0)"
  by (auto simp: io_map_err_def)

lemma io_on_Some:
  "io_on get put m (ob, s) = Some (r, ob', s') \<longleftrightarrow>
     (\<exists>i. m (get ob, s) = Some (r, i, s') \<and> ob' = put i ob)"
  by (auto simp: io_on_def)

lemma io_total_Some: "m s = Some x \<Longrightarrow> io_total m s = x"
  by (simp add: io_total_def)

section \<open>Layers that pass on results\<close>

text \<open>
  A layer whose readers, writers and listers wrap those of the inner accessor (\<open>get\<close> is the
  wrapped one) and pass on their successful results keeps their contracts.
\<close>

lemma object_reader_wrap:
  assumes inner: "object_reader ops path content sinv rinv rest"
    and op: "\<And>args s rp r s'. rop_open ops' path args s = (Ok (rp, r), s') \<Longrightarrow>
      rop_open ops path args s = (Ok (rp, get r), s')"
    and rd: "\<And>r s b r' s'. rop_read ops' r s = (Ok b, r', s') \<Longrightarrow> rop_read ops (get r) s = (Ok b, get r', s')"
    and st: "\<And>args s m s'. rop_stat ops' path args s = (Ok m, s') \<Longrightarrow> rop_stat ops path args s = (Ok m, s')"
  shows "object_reader ops' path content sinv (\<lambda>r. rinv (get r)) (\<lambda>r. rest (get r))"
proof
  show "sinv s' \<and> rinv (get r) \<and> rest (get r) = requested (ord_range args) content"
    if "sinv s" "rop_open ops' path args s = (Ok (rp, r), s')" for s args rp r s'
    using object_reader.open_ok[OF inner that(1) op[OF that(2)]] .
  show "sinv s' \<and> rinv (get r') \<and> buffer_ok b \<and> rest (get r) = buffer_view b @ rest (get r') \<and>
      (buffer_view b = [] \<longrightarrow> rest (get r) = [])"
    if "sinv s" "rinv (get r)" "rop_read ops' r s = (Ok b, r', s')" for s r b r' s'
    using object_reader.read_ok[OF inner that(1,2) rd[OF that(3)]] .
  show "sinv s' \<and> metadata_content_length m = of_nat (length content)"
    if "sinv s" "rop_stat ops' path sargs s = (Ok m, s')" for s sargs m s'
    using object_reader.stat_ok[OF inner that(1) st[OF that(2)]] .
  show "length content < 2 ^ 64" if "sinv s" for s using object_reader.content_len[OF inner that] .
qed

lemma reliable_reader_wrap:
  assumes inner: "reliable_reader ops path content sinv rinv rest good rgood"
    and op: "\<And>args s rp r s'. rop_open ops' path args s = (Ok (rp, r), s') \<Longrightarrow>
      rop_open ops path args s = (Ok (rp, get r), s')"
    and rd: "\<And>r s b r' s'. rop_read ops' r s = (Ok b, r', s') \<Longrightarrow> rop_read ops (get r) s = (Ok b, get r', s')"
    and st: "\<And>args s m s'. rop_stat ops' path args s = (Ok m, s') \<Longrightarrow> rop_stat ops path args s = (Ok m, s')"
    and op': "\<And>args s rp r s'. rop_open ops path args s = (Ok (rp, r), s') \<Longrightarrow>
      \<exists>r'. rop_open ops' path args s = (Ok (rp, r'), s')"
    and rd': "\<And>r s b i s'. rop_read ops (get r) s = (Ok b, i, s') \<Longrightarrow> \<exists>r'. rop_read ops' r s = (Ok b, r', s')"
    and st': "\<And>args s m s'. rop_stat ops path args s = (Ok m, s') \<Longrightarrow> rop_stat ops' path args s = (Ok m, s')"
  shows "reliable_reader ops' path content sinv (\<lambda>r. rinv (get r)) (\<lambda>r. rest (get r)) good (\<lambda>r. rgood (get r))"
proof (rule reliable_reader.intro[OF object_reader_wrap[OF reliable_reader.axioms(1)[OF inner] op rd st]], assumption+,
    unfold_locales)
  show "\<exists>rp r s'. rop_open ops' path args s = (Ok (rp, r), s') \<and> rgood (get r)" if "sinv s" "good args" for s args
  proof -
    from reliable_reader.open_total[OF inner that] obtain rp r s' where
      r: "rop_open ops path args s = (Ok (rp, r), s')" "rgood r" by blast
    with op'[OF r(1)] op show ?thesis by fastforce
  qed
  show "\<exists>b r' s'. rop_read ops' r s = (Ok b, r', s') \<and> rgood (get r')"
    if "sinv s" "rinv (get r)" "rgood (get r)" for s r
  proof -
    from reliable_reader.read_total[OF inner that] obtain b i s' where
      r: "rop_read ops (get r) s = (Ok b, i, s')" "rgood i" by blast
    with rd'[OF r(1)] rd show ?thesis by fastforce
  qed
  show "\<exists>m s'. rop_stat ops' path (reader_stat_op args) s = (Ok m, s')" if "sinv s" "good args" for s args
    using reliable_reader.stat_total[OF inner that] st' by blast
qed

lemma oio_writer_wrap:
  assumes inner: "oio_writer ops winv writes stored"
    and wr: "\<And>x bs r x'. w_write ops' x bs = (r, x') \<Longrightarrow> \<exists>r0. w_write ops (get x) bs = (r0, get x') \<and>
      (r = Ok () \<longleftrightarrow> r0 = Ok ()) \<and> (r = Panic \<longleftrightarrow> r0 = Panic)"
    and cl: "\<And>x m x'. w_close ops' x = (Ok m, x') \<Longrightarrow> w_close ops (get x) = (Ok m, get x')"
  shows "oio_writer ops' (\<lambda>x. winv (get x)) (\<lambda>x. writes (get x)) (\<lambda>x. stored (get x))"
proof
  show "winv (get x') \<and> writes (get x') = writes (get x) @ [buffer_view bs]"
    if "winv (get x)" "buffer_ok bs" "buffer_view bs \<noteq> []" "w_write ops' x bs = (Ok (), x')" for x bs x'
    using oio_writer.write_Ok[OF inner that(1-3)] wr[OF that(4)] by auto
  show "winv (get x') \<and> writes (get x') = writes (get x)"
    if w: "winv (get x)" "buffer_ok bs" "buffer_view bs \<noteq> []" "w_write ops' x bs = (Err e, x')" for x bs e x'
  proof -
    from wr[OF w(4)] obtain r0 where r0: "w_write ops (get x) bs = (r0, get x')" "r0 \<noteq> Ok ()" "r0 \<noteq> Panic" by auto
    then obtain e0 where "r0 = Err e0" by (cases r0) auto
    with oio_writer.write_Err[OF inner w(1-3)] r0(1) show ?thesis by blast
  qed
  show "fst (w_write ops' x bs) \<noteq> Panic" if "winv (get x)" "buffer_ok bs" "buffer_view bs \<noteq> []" for x bs
    using oio_writer.write_no_panic[OF inner that] wr[of x bs "fst (w_write ops' x bs)" "snd (w_write ops' x bs)"]
    by auto
  show "stored (get x') = Some (concat (writes (get x)))"
    if "winv (get x)" "w_close ops' x = (Ok m, x')" for x m x'
    using oio_writer.close_Ok[OF inner that(1) cl[OF that(2)]] .
qed

lemma reliable_writer_wrap:
  assumes inner: "reliable_writer ops winv writes stored"
    and wr: "\<And>x bs r x'. w_write ops' x bs = (r, x') \<Longrightarrow> \<exists>r0. w_write ops (get x) bs = (r0, get x') \<and>
      (r = Ok () \<longleftrightarrow> r0 = Ok ()) \<and> (r = Panic \<longleftrightarrow> r0 = Panic)"
    and cl: "\<And>x m x'. w_close ops' x = (Ok m, x') \<Longrightarrow> w_close ops (get x) = (Ok m, get x')"
    and cl': "\<And>x m i. w_close ops (get x) = (Ok m, i) \<Longrightarrow> \<exists>x'. w_close ops' x = (Ok m, x')"
  shows "reliable_writer ops' (\<lambda>x. winv (get x)) (\<lambda>x. writes (get x)) (\<lambda>x. stored (get x))"
proof (rule reliable_writer.intro[OF oio_writer_wrap[OF reliable_writer.axioms(1)[OF inner] wr cl]], assumption+,
    unfold_locales)
  show "\<exists>x'. w_write ops' x bs = (Ok (), x')" if "winv (get x)" "buffer_ok bs" "buffer_view bs \<noteq> []" for x bs
  proof -
    obtain r x' where r: "w_write ops' x bs = (r, x')" by force
    with wr[OF r] reliable_writer.write_total[OF inner that] show ?thesis by auto
  qed
  show "\<exists>m x'. w_close ops' x = (Ok m, x') \<and>
      metadata_content_length m = of_nat (length (concat (writes (get x))))" if "winv (get x)" for x
    using reliable_writer.close_total[OF inner that] cl' by blast
qed

lemma finite_lister_wrap:
  assumes inner: "finite_lister nxt contents linv"
    and nx: "\<And>x r y. nxt (get x) = Some (Ok r, y) \<Longrightarrow> \<exists>x'. nxt' x = Some (Ok r, x') \<and> get x' = y"
  shows "finite_lister nxt' (\<lambda>x. contents (get x)) (\<lambda>x. linv (get x))"
proof
  show "\<exists>x'. nxt' x = Some (Ok (Some e), x') \<and> linv (get x') \<and> contents (get x') = es"
    if "linv (get x)" "contents (get x) = e # es" for x e es
    using finite_lister.next_Some[OF inner that] nx by fastforce
  show "\<exists>x'. nxt' x = Some (Ok None, x') \<and> linv (get x') \<and> contents (get x') = []"
    if "linv (get x)" "contents (get x) = []" for x
    using finite_lister.next_None[OF inner that] nx by fastforce
qed

lemma ways4_finite_lister:
  assumes "finite_lister f c1 i1" "finite_lister g c2 i2" "finite_lister h c3 i3" "finite_lister k c4 i4"
  shows "finite_lister (ways4_io f g h k)
    (\<lambda>(v, s). case v of W4_One a \<Rightarrow> c1 (a, s) | W4_Two a \<Rightarrow> c2 (a, s) | W4_Three a \<Rightarrow> c3 (a, s) | W4_Four a \<Rightarrow> c4 (a, s))
    (\<lambda>(v, s). case v of W4_One a \<Rightarrow> i1 (a, s) | W4_Two a \<Rightarrow> i2 (a, s) | W4_Three a \<Rightarrow> i3 (a, s) | W4_Four a \<Rightarrow> i4 (a, s))"
    (is "finite_lister ?n ?c ?i")
proof
  show "\<exists>y. ?n x = Some (Ok (Some e), y) \<and> ?i y \<and> ?c y = es" if "?i x" "?c x = e # es" for x e es
    using that assms[THEN finite_lister.next_Some]
    by (cases x; cases "fst x") (fastforce simp: ways4_io_def)+
  show "\<exists>y. ?n x = Some (Ok None, y) \<and> ?i y \<and> ?c y = []" if "?i x" "?c x = []" for x
    using that assms[THEN finite_lister.next_None]
    by (cases x; cases "fst x") (fastforce simp: ways4_io_def)+
qed

end
