(* ===== verification/Complete_Layer.thy ===== *)
theory Complete_Layer
  imports Accessor
begin

text \<open>
  \<open>CompleteLayer\<close> of \<open>core/core/src/layers/complete.rs\<close>: a reader that checks how many bytes
  it delivered, a writer that checks how many bytes were stored and refuses calls after
  \<open>close\<close> or \<open>abort\<close>, and a lister that completes the content length of files.

  The \<open>debug_assert_ne!\<close> of the writer is not part of the operations; that it never fails is one
  of the facts proved here.
\<close>

section \<open>CompleteReader\<close>

record 'r complete_reader =
  crd_inner :: 'r
  crd_size :: "u64 option"
  crd_read :: u64

definition complete_reader_new :: "'r \<Rightarrow> u64 option \<Rightarrow> 'r complete_reader" where
  "complete_reader_new inner sz = \<lparr>crd_inner = inner, crd_size = sz, crd_read = 0\<rparr>"

definition length_error :: "str \<Rightarrow> u64 \<Rightarrow> u64 \<Rightarrow> error" where
  "length_error msg expect actual =
     with_context ''actual'' (show_u64 actual)
       (with_context ''expect'' (show_u64 expect) (error_new Unexpected msg))"

definition complete_reader_check :: "'r complete_reader \<Rightarrow> unit res" where
  "complete_reader_check r =
     (case crd_size r of
        None \<Rightarrow> Ok ()
      | Some sz \<Rightarrow>
          (if crd_read r = sz then Ok ()
           else if crd_read r < sz then Err (length_error ''reader got too little data'' sz (crd_read r))
           else Err (length_error ''reader got too much data'' sz (crd_read r))))"

definition complete_reader_read ::
  "('r \<times> 's, buffer) io \<Rightarrow> ('r complete_reader \<times> 's, buffer) io" where
  "complete_reader_read inner =
     io_bind (io_on crd_inner (\<lambda>i r. r\<lparr>crd_inner := i\<rparr>) inner) (\<lambda>buf.
     io_bind
       (if buffer_is_empty buf then io_with (\<lambda>r. io_res (complete_reader_check r))
        else io_update (\<lambda>r. r\<lparr>crd_read := crd_read r + of_nat (buffer_len buf)\<rparr>)) (\<lambda>_.
     io_ok buf))"

section \<open>CompleteWriter\<close>

datatype complete_state = Open | Written | Closed | Error

definition complete_transition :: "complete_state \<Rightarrow> complete_state \<Rightarrow> complete_state" where
  "complete_transition destination st = (if st \<noteq> Error then destination else st)"

record 'w complete_writer =
  cw_inner :: "'w option"
  cw_append :: bool
  cw_size :: u64
  cw_state :: complete_state

definition complete_writer_new :: "'w \<Rightarrow> bool \<Rightarrow> 'w complete_writer" where
  "complete_writer_new inner ap =
     \<lparr>cw_inner = Some inner, cw_append = ap, cw_size = 0, cw_state = Open\<rparr>"

definition complete_writer_check :: "'w complete_writer \<Rightarrow> u64 \<Rightarrow> unit res" where
  "complete_writer_check w content_length =
     (if cw_append w \<or> content_length = 0 then Ok ()
      else if cw_size w = content_length then Ok ()
      else if cw_size w < content_length
      then Err (length_error ''writer got too little data'' content_length (cw_size w))
      else Err (length_error ''writer got too much data'' content_length (cw_size w)))"

definition writer_closed :: error where
  "writer_closed = error_new Unexpected ''writer has been closed or aborted''"

definition cw_transition :: "complete_state \<Rightarrow> 'w complete_writer \<Rightarrow> 'w complete_writer" where
  "cw_transition destination w = w\<lparr>cw_state := complete_transition destination (cw_state w)\<rparr>"

text \<open>
  \<open>self.inner.as_mut().ok_or_else(..)?\<close>, then a method of the inner writer whose failure moves the
  state to \<open>Error\<close>.
\<close>

definition cw_inner_call :: "('w \<times> 's, 'a) io \<Rightarrow> ('w complete_writer \<times> 's, 'a) io" where
  "cw_inner_call m = io_with (\<lambda>w.
     case cw_inner w of
       None \<Rightarrow> io_err writer_closed
     | Some i \<Rightarrow>
         io_inspect_err (cw_transition Error) (io_on (\<lambda>_. i) (\<lambda>i' w. w\<lparr>cw_inner := Some i'\<rparr>) m))"

definition complete_writer_write ::
  "(buffer \<Rightarrow> ('w \<times> 's, unit) io) \<Rightarrow> buffer \<Rightarrow> ('w complete_writer \<times> 's, unit) io" where
  "complete_writer_write inner bs =
     io_bind (cw_inner_call (inner bs)) (\<lambda>_.
     io_update (\<lambda>w. cw_transition Written (w\<lparr>cw_size := cw_size w + of_nat (buffer_len bs)\<rparr>)))"

definition complete_writer_close ::
  "('w \<times> 's, metadata) io \<Rightarrow> ('w complete_writer \<times> 's, metadata) io" where
  "complete_writer_close inner =
     io_bind (cw_inner_call inner) (\<lambda>ret.
     io_bind (io_inspect_err (cw_transition Error)
         (io_with (\<lambda>w. io_res (complete_writer_check w (metadata_content_length ret))))) (\<lambda>_.
     io_bind (io_get (\<lambda>w. if metadata_content_length ret = 0
         then md_with_content_length (cw_size w) ret else ret)) (\<lambda>ret.
     io_bind (io_update (\<lambda>w. cw_transition Closed (w\<lparr>cw_inner := None\<rparr>))) (\<lambda>_.
     io_ok ret))))"

definition complete_writer_abort ::
  "('w \<times> 's, unit) io \<Rightarrow> ('w complete_writer \<times> 's, unit) io" where
  "complete_writer_abort inner =
     io_bind (cw_inner_call inner) (\<lambda>_.
     io_update (\<lambda>w. cw_transition Closed (w\<lparr>cw_inner := None\<rparr>)))"

section \<open>CompleteLister\<close>

text \<open>\<open>stat\<close> and \<open>scheme\<close> are those of the accessor and the info the lister holds.\<close>

definition ensure_file_content_length ::
  "(str \<Rightarrow> op_stat \<Rightarrow> ('s, metadata) io) \<Rightarrow> str \<Rightarrow> oio_entry \<Rightarrow> ('s, oio_entry) io" where
  "ensure_file_content_length stat scheme e =
     (let path = oe_path e;
          op = (case md_version (oe_meta e) of
                  Some v \<Rightarrow> os_with_version v op_stat_default
                | None \<Rightarrow> op_stat_default)
      in io_bind (stat path op) (\<lambda>m.
           if \<not> metadata_has_content_length m
           then io_err
             (with_context ''path'' path
               (with_context ''service'' scheme
                 (with_operation ''CompleteLister::ensure_file_content_length''
                   (error_new Unexpected ''content length is required for list file entries''))))
           else io_ok (e\<lparr>oe_meta := md_set_content_length (metadata_content_length m) (oe_meta e)\<rparr>)))"

partial_function (option) complete_lister_loop ::
  "(str \<Rightarrow> op_stat \<Rightarrow> ('s, metadata) io) \<Rightarrow> str \<Rightarrow> ('l \<times> 's, oio_entry option) io \<Rightarrow> 'l \<Rightarrow> 's \<Rightarrow>
     (oio_entry option res \<times> 'l \<times> 's) option" where
  "complete_lister_loop stat scheme inner l0 s0 =
     (case inner (l0, s0) of
        None \<Rightarrow> None
      | Some (Ok (Some e), l, s) \<Rightarrow>
          (if oio_entry_mode e \<noteq> FILE \<or> md_is_deleted (oe_meta e) \<or> metadata_has_content_length (oe_meta e)
           then Some (Ok (Some e), l, s)
           else case ensure_file_content_length stat scheme e s of
                  None \<Rightarrow> None
                | Some (Ok e', s1) \<Rightarrow> Some (Ok (Some e'), l, s1)
                | Some (Err err, s1) \<Rightarrow>
                    (if e_kind err = NotFound then complete_lister_loop stat scheme inner l s1
                     else Some (Err err, l, s1))
                | Some (Panic, s1) \<Rightarrow> Some (Panic, l, s1))
      | Some (Ok None, y) \<Rightarrow> Some (Ok None, y)
      | Some (Err e, y) \<Rightarrow> Some (Err e, y)
      | Some (Panic, y) \<Rightarrow> Some (Panic, y))"

definition complete_lister_next ::
  "(str \<Rightarrow> op_stat \<Rightarrow> ('s, metadata) io) \<Rightarrow> str \<Rightarrow> ('l \<times> 's, oio_entry option) io \<Rightarrow>
     ('l \<times> 's, oio_entry option) io" where
  "complete_lister_next stat scheme inner = (\<lambda>(l, s). complete_lister_loop stat scheme inner l s)"

section \<open>CompleteAccessor\<close>

definition complete_read ::
  "('s, 'r, 'w, 'l, 'd, 'c) accessor \<Rightarrow> str \<Rightarrow> op_read \<Rightarrow> ('s, metadata option \<times> 'r complete_reader) io" where
  "complete_read acc path args =
     io_map (\<lambda>(rp, r). (rp, complete_reader_new r (br_size (ord_range args)))) (ac_read acc path args)"

definition complete_write ::
  "('s, 'r, 'w, 'l, 'd, 'c) accessor \<Rightarrow> str \<Rightarrow> op_write \<Rightarrow> ('s, 'w complete_writer) io" where
  "complete_write acc path args =
     io_map (\<lambda>w. complete_writer_new w (ow_append args)) (ac_write acc path args)"

definition complete_layer ::
  "('s, 'r, 'w, 'l, 'd, 'c) accessor \<Rightarrow>
     ('s, 'r complete_reader, 'w complete_writer, 'l, 'd, 'c) accessor" where
  "complete_layer acc =
     \<lparr>ac_info = ac_info acc, ac_create_dir = ac_create_dir acc, ac_stat = ac_stat acc,
      ac_read = complete_read acc, ac_write = complete_write acc, ac_delete = ac_delete acc,
      ac_list = ac_list acc, ac_copy = ac_copy acc, ac_rename = ac_rename acc,
      ac_reader_read = complete_reader_read (ac_reader_read acc),
      ac_writer_write = complete_writer_write (ac_writer_write acc),
      ac_writer_close = complete_writer_close (ac_writer_close acc),
      ac_writer_abort = complete_writer_abort (ac_writer_abort acc),
      ac_lister_next = complete_lister_next (ac_stat acc) (ai_scheme (ac_info acc)) (ac_lister_next acc),
      ac_deleter_delete = ac_deleter_delete acc, ac_deleter_close = ac_deleter_close acc,
      ac_copier = ac_copier acc\<rparr>"

section \<open>Equations\<close>

lemma complete_reader_read_eq:
  "complete_reader_read inner (r, s) =
     (case inner (crd_inner r, s) of
        None \<Rightarrow> None
      | Some (Ok buf, i, s1) \<Rightarrow>
          (if buffer_is_empty buf
           then Some (map_res (\<lambda>_. buf) (complete_reader_check r), r\<lparr>crd_inner := i\<rparr>, s1)
           else Some (Ok buf, r\<lparr>crd_inner := i, crd_read := crd_read r + of_nat (buffer_len buf)\<rparr>, s1))
      | Some (Err e, i, s1) \<Rightarrow> Some (Err e, r\<lparr>crd_inner := i\<rparr>, s1)
      | Some (Panic, i, s1) \<Rightarrow> Some (Panic, r\<lparr>crd_inner := i\<rparr>, s1))"
  by (auto simp: complete_reader_read_def complete_reader_check_def io_defs split: option.splits res.splits)

lemma cw_inner_call_eq:
  "cw_inner_call m (w, s) =
     (case cw_inner w of
        None \<Rightarrow> Some (Err writer_closed, w, s)
      | Some i \<Rightarrow>
          (case m (i, s) of
             None \<Rightarrow> None
           | Some (r, i', s1) \<Rightarrow>
               (let w1 = w\<lparr>cw_inner := Some i'\<rparr>
                in Some (r, case r of Err _ \<Rightarrow> cw_transition Error w1 | _ \<Rightarrow> w1, s1))))"
  by (auto simp: cw_inner_call_def io_defs Let_def split: option.splits)

lemma complete_writer_write_eq:
  "complete_writer_write W bs (w, s) =
     (case cw_inner_call (W bs) (w, s) of
        Some (Ok _, w1, s1) \<Rightarrow>
          Some (Ok (), cw_transition Written (w1\<lparr>cw_size := cw_size w1 + of_nat (buffer_len bs)\<rparr>), s1)
      | x \<Rightarrow> x)"
  by (auto simp: complete_writer_write_def io_defs split: option.splits res.splits)

lemma complete_writer_close_eq:
  "complete_writer_close C (w, s) =
     (case cw_inner_call C (w, s) of
        Some (Ok ret, w1, s1) \<Rightarrow>
          (case complete_writer_check w1 (metadata_content_length ret) of
             Ok _ \<Rightarrow> Some (Ok (if metadata_content_length ret = 0 then md_with_content_length (cw_size w1) ret else ret),
               cw_transition Closed (w1\<lparr>cw_inner := None\<rparr>), s1)
           | Err e \<Rightarrow> Some (Err e, cw_transition Error w1, s1)
           | Panic \<Rightarrow> Some (Panic, w1, s1))
      | x \<Rightarrow> x)"
  by (auto simp: complete_writer_close_def io_defs split: option.splits res.splits)

lemma complete_writer_abort_eq:
  "complete_writer_abort A (w, s) =
     (case cw_inner_call A (w, s) of
        Some (Ok _, w1, s1) \<Rightarrow> Some (Ok (), cw_transition Closed (w1\<lparr>cw_inner := None\<rparr>), s1)
      | x \<Rightarrow> x)"
  by (auto simp: complete_writer_abort_def io_defs split: option.splits res.splits)

lemma complete_transition_eq [simp]:
  "complete_transition d st = x \<longleftrightarrow> st = Error \<and> x = Error \<or> st \<noteq> Error \<and> x = d"
  by (auto simp: complete_transition_def)

lemma cw_transition_simps [simp]:
  "cw_inner (cw_transition d w) = cw_inner w" "cw_size (cw_transition d w) = cw_size w"
  "cw_append (cw_transition d w) = cw_append w"
  "cw_state (cw_transition d w) = complete_transition d (cw_state w)"
  by (simp_all add: cw_transition_def)

section \<open>Readers\<close>

text \<open>A sequence of successful reads, with the buffers they returned.\<close>

inductive reads :: "('o, buffer) io \<Rightarrow> 'o \<Rightarrow> buffer list \<Rightarrow> 'o \<Rightarrow> bool" for m where
  reads_Nil: "reads m x [] x"
| reads_step: "reads m x bs y \<Longrightarrow> m y = Some (Ok b, z) \<Longrightarrow> reads m x (bs @ [b]) z"

lemma reads_complete:
  assumes "reads (complete_reader_read inner) x bs y"
  shows "reads inner (crd_inner (fst x), snd x) bs (crd_inner (fst y), snd y) \<and>
    crd_size (fst y) = crd_size (fst x) \<and>
    crd_read (fst y) = crd_read (fst x) + of_nat (sum_list (map buffer_len bs))"
  using assms
proof (induction rule: reads.induct)
  case (reads_step x bs y b z)
  obtain r s r' s' where yz: "y = (r, s)" "z = (r', s')" by (cases y; cases z) auto
  with reads_step.hyps(2) obtain i where i: "inner (crd_inner r, s) = Some (Ok b, i, s')" "crd_inner r' = i"
    "crd_size r' = crd_size r"
    "crd_read r' = crd_read r + of_nat (buffer_len b)"
    by (auto simp: complete_reader_read_eq buffer_is_empty_def split: option.splits res.splits if_splits)
  with reads_step.IH yz show ?case by (auto intro: reads.intros)
qed (auto intro: reads.intros)

lemma complete_reader_end:
  assumes "inner (crd_inner r, s) = Some (Ok b, i, s')" "buffer_is_empty b"
  shows "complete_reader_read inner (r, s) =
    Some (map_res (\<lambda>_. b) (complete_reader_check r), r\<lparr>crd_inner := i\<rparr>, s')"
  using assms by (simp add: complete_reader_read_eq)

lemma complete_reader_check_iff: "complete_reader_check r = Ok () \<longleftrightarrow> crd_size r \<in> {None, Some (crd_read r)}"
  by (auto simp: complete_reader_check_def split: option.splits)

text \<open>The reader keeps the contract of the readers it wraps.\<close>

lemma complete_rop_open:
  "rop_open (reader_ops (complete_layer acc)) path args s =
     (case rop_open (reader_ops acc) path args s of
        (r, s') \<Rightarrow> (map_res (\<lambda>(rp, r). (rp, complete_reader_new r (br_size (ord_range args)))) r, s'))"
  by (auto simp: reader_ops_def complete_layer_def complete_read_def io_defs split: option.splits)

lemma complete_rop_read:
  "rop_read (reader_ops (complete_layer acc)) r s =
     (case rop_read (reader_ops acc) (crd_inner r) s of
        (Ok buf, i, s1) \<Rightarrow>
          (if buffer_is_empty buf
           then (map_res (\<lambda>_. buf) (complete_reader_check r), r\<lparr>crd_inner := i\<rparr>, s1)
           else (Ok buf, r\<lparr>crd_inner := i, crd_read := crd_read r + of_nat (buffer_len buf)\<rparr>, s1))
      | (Err e, i, s1) \<Rightarrow> (Err e, r\<lparr>crd_inner := i\<rparr>, s1)
      | (Panic, i, s1) \<Rightarrow> (Panic, r\<lparr>crd_inner := i\<rparr>, s1))"
  by (auto simp: reader_ops_def complete_layer_def complete_reader_read_eq io_total_def
      split: option.splits res.splits)

lemma complete_rop_stat: "rop_stat (reader_ops (complete_layer acc)) = rop_stat (reader_ops acc)"
  by (simp add: reader_ops_def complete_layer_def)

lemma complete_object_reader:
  assumes "object_reader (reader_ops acc) path content sinv rinv rest"
  shows "object_reader (reader_ops (complete_layer acc)) path content sinv
    (\<lambda>r. rinv (crd_inner r)) (\<lambda>r. rest (crd_inner r))"
  by (rule object_reader_wrap[OF assms])
    (auto simp: complete_rop_open complete_rop_read complete_rop_stat complete_reader_new_def
      split: prod.splits res.splits if_splits)

text \<open>
  The reader also keeps the promise to succeed, for the opens whose range lies within the object:
  a longer range ends in the error of \<open>complete_reader_check\<close>.
\<close>

definition complete_good :: "bytes \<Rightarrow> (op_read \<Rightarrow> bool) \<Rightarrow> op_read \<Rightarrow> bool" where
  "complete_good content good args \<longleftrightarrow> good args \<and>
     (\<forall>n. br_size (ord_range args) = Some n \<longrightarrow> of_nat (length (requested (ord_range args) content)) = n)"

definition complete_rgood :: "('r \<Rightarrow> bool) \<Rightarrow> ('r \<Rightarrow> bytes) \<Rightarrow> ('r \<Rightarrow> bool) \<Rightarrow> 'r complete_reader \<Rightarrow> bool" where
  "complete_rgood rinv rest rgood r \<longleftrightarrow> rgood (crd_inner r) \<and>
     (\<forall>n. crd_size r = Some n \<longrightarrow> crd_read r + of_nat (length (rest (crd_inner r))) = n)"

lemma complete_reliable_reader:
  assumes "reliable_reader (reader_ops acc) path content sinv rinv rest good rgood"
  shows "reliable_reader (reader_ops (complete_layer acc)) path content sinv
    (\<lambda>r. rinv (crd_inner r)) (\<lambda>r. rest (crd_inner r)) (complete_good content good)
    (complete_rgood rinv rest rgood)"
proof -
  note inner = reliable_reader.axioms(1)[OF assms]
  show ?thesis
  proof (rule reliable_reader.intro[OF complete_object_reader[OF inner]], unfold_locales)
    fix s args
    assume s: "sinv s" and g: "complete_good content good args"
    from g have "good args" by (simp add: complete_good_def)
    from reliable_reader.open_total[OF assms s this] obtain rp r s' where
      op: "rop_open (reader_ops acc) path args s = (Ok (rp, r), s')" "rgood r" by blast
    from object_reader.open_ok[OF inner s op(1)] have "rest r = requested (ord_range args) content" by simp
    with op g show "\<exists>rp r s'. rop_open (reader_ops (complete_layer acc)) path args s = (Ok (rp, r), s') \<and>
        complete_rgood rinv rest rgood r"
      by (simp add: complete_rop_open complete_good_def complete_rgood_def complete_reader_new_def)
  next
    fix s r
    assume s: "sinv s" and r: "rinv (crd_inner r)" and g: "complete_rgood rinv rest rgood r"
    from g have "rgood (crd_inner r)" by (simp add: complete_rgood_def)
    from reliable_reader.read_total[OF assms s r this] obtain b i s' where
      rd: "rop_read (reader_ops acc) (crd_inner r) s = (Ok b, i, s')" "rgood i" by blast
    note b = conjunct2[OF conjunct2[OF object_reader.read_ok[OF inner s r rd(1)]]]
    show "\<exists>b r' s'. rop_read (reader_ops (complete_layer acc)) r s = (Ok b, r', s') \<and> complete_rgood rinv rest rgood r'"
    proof (cases "buffer_is_empty b")
      case True
      then have "buffer_view b = []" using b buffer_ok_len[of b] by (simp add: buffer_is_empty_def)
      with b have e: "rest (crd_inner r) = []" "rest i = []" by auto
      with g have "complete_reader_check r = Ok ()"
        by (cases "crd_size r") (simp_all add: complete_reader_check_iff complete_rgood_def)
      with True rd g e show ?thesis by (simp add: complete_rop_read complete_rgood_def)
    next
      case False
      with rd g b buffer_ok_len[of b] show ?thesis
        by (simp add: complete_rop_read complete_rgood_def algebra_simps)
    qed
  next
    fix s args
    assume "sinv s" "complete_good content good args"
    then show "\<exists>m s'. rop_stat (reader_ops (complete_layer acc)) path (reader_stat_op args) s = (Ok m, s')"
      by (simp add: complete_rop_stat complete_good_def reliable_reader.stat_total[OF assms])
  qed
qed

section \<open>Writers\<close>

text \<open>
  What has happened to a writer: successful writes with their number of bytes, a successful \<open>close\<close>, a
  successful \<open>abort\<close>, and calls that returned an error.
\<close>

datatype writer_event = Wrote u64 | WasClosed | WasAborted | CallFailed

definition log_size :: "writer_event list \<Rightarrow> u64" where
  "log_size evs = sum_list (map (\<lambda>e. case e of Wrote n \<Rightarrow> n | _ \<Rightarrow> 0) evs)"

definition log_finished :: "writer_event list \<Rightarrow> bool" where
  "log_finished evs \<longleftrightarrow> WasClosed \<in> set evs \<or> WasAborted \<in> set evs"

text \<open>A call failed while the writer was not yet closed or aborted.\<close>

definition log_failed :: "writer_event list \<Rightarrow> bool" where
  "log_failed evs \<longleftrightarrow> (\<exists>pre post. evs = pre @ CallFailed # post \<and> \<not> log_finished pre)"

definition log_state :: "writer_event list \<Rightarrow> complete_state" where
  "log_state evs =
     (if log_failed evs then Error
      else if log_finished evs then Closed
      else if \<exists>n. Wrote n \<in> set evs then Written
      else Open)"

lemma log_snoc [simp]:
  "log_size (evs @ [e]) = log_size evs + (case e of Wrote n \<Rightarrow> n | _ \<Rightarrow> 0)"
  "log_finished (evs @ [e]) \<longleftrightarrow> log_finished evs \<or> e = WasClosed \<or> e = WasAborted"
  "log_failed (evs @ [e]) \<longleftrightarrow> log_failed evs \<or> e = CallFailed \<and> \<not> log_finished evs"
proof -
  show "log_failed (evs @ [e]) \<longleftrightarrow> log_failed evs \<or> e = CallFailed \<and> \<not> log_finished evs" (is "?l \<longleftrightarrow> ?r")
  proof
    assume ?l
    then obtain pre post where p: "evs @ [e] = pre @ CallFailed # post" "\<not> log_finished pre" by (auto simp: log_failed_def)
    then show ?r by (cases post rule: rev_cases) (auto simp: log_failed_def)
  next
    assume ?r
    then show ?l
    proof
      assume "log_failed evs"
      then obtain pre post where "evs = pre @ CallFailed # post" "\<not> log_finished pre" by (auto simp: log_failed_def)
      then show ?l unfolding log_failed_def by (intro exI[of _ pre] exI[of _ "post @ [e]"]) simp
    next
      assume "e = CallFailed \<and> \<not> log_finished evs"
      then show ?l unfolding log_failed_def by (intro exI[of _ evs] exI[of _ "[]"]) simp
    qed
  qed
qed (auto simp: log_size_def log_finished_def)

lemma log_empty [simp]: "log_size [] = 0" "\<not> log_finished []" "\<not> log_failed []" "log_state [] = Open"
  by (simp_all add: log_size_def log_finished_def log_failed_def log_state_def)

text \<open>
  The states a \<open>CompleteWriter\<close> reaches over an inner writer with the methods \<open>W\<close>, \<open>C\<close> and \<open>A\<close>,
  with what has happened to it.
\<close>

inductive cw_reach ::
  "(buffer \<Rightarrow> ('w \<times> 's, unit) io) \<Rightarrow> ('w \<times> 's, metadata) io \<Rightarrow> ('w \<times> 's, unit) io \<Rightarrow>
     'w complete_writer \<times> 's \<Rightarrow> writer_event list \<Rightarrow> bool" for W C A where
  reach_new: "cw_reach W C A (complete_writer_new w ap, s) []"
| reach_write: "cw_reach W C A x evs \<Longrightarrow> complete_writer_write W bs x = Some (Ok (), y) \<Longrightarrow>
    cw_reach W C A y (evs @ [Wrote (of_nat (buffer_len bs))])"
| reach_write_err: "cw_reach W C A x evs \<Longrightarrow> complete_writer_write W bs x = Some (Err e, y) \<Longrightarrow>
    cw_reach W C A y (evs @ [CallFailed])"
| reach_close: "cw_reach W C A x evs \<Longrightarrow> complete_writer_close C x = Some (Ok m, y) \<Longrightarrow>
    cw_reach W C A y (evs @ [WasClosed])"
| reach_close_err: "cw_reach W C A x evs \<Longrightarrow> complete_writer_close C x = Some (Err e, y) \<Longrightarrow>
    cw_reach W C A y (evs @ [CallFailed])"
| reach_abort: "cw_reach W C A x evs \<Longrightarrow> complete_writer_abort A x = Some (Ok (), y) \<Longrightarrow>
    cw_reach W C A y (evs @ [WasAborted])"
| reach_abort_err: "cw_reach W C A x evs \<Longrightarrow> complete_writer_abort A x = Some (Err e, y) \<Longrightarrow>
    cw_reach W C A y (evs @ [CallFailed])"

definition cw_inv :: "'w complete_writer \<Rightarrow> writer_event list \<Rightarrow> bool" where
  "cw_inv w evs \<longleftrightarrow> cw_size w = log_size evs \<and> (cw_inner w = None \<longleftrightarrow> log_finished evs) \<and> cw_state w = log_state evs"

text \<open>A failed call of the inner writer leaves the state \<open>Error\<close>; without an inner writer nothing changes.\<close>

lemma cw_inner_call_Err:
  assumes "cw_inv w evs" "cw_inner_call m (w, s) = Some (Err e, w', s')"
  shows "cw_inv w' (evs @ [CallFailed])"
  using assms
  by (auto simp: cw_inner_call_eq cw_inv_def log_state_def cw_transition_def complete_transition_def Let_def
      split: option.splits res.splits if_splits)

lemma cw_inner_call_Ok:
  assumes "cw_inv w evs" "cw_inner_call m (w, s) = Some (Ok v, w', s')"
  shows "\<not> log_finished evs \<and> (\<exists>i. w' = w\<lparr>cw_inner := Some i\<rparr>)"
  using assms by (auto simp: cw_inner_call_eq cw_inv_def Let_def split: option.splits res.splits)

lemma cw_inv_write:
  assumes "cw_inv w evs" "complete_writer_write W bs (w, s) = Some (r, w', s')"
  shows "r = Ok () \<Longrightarrow> cw_inv w' (evs @ [Wrote (of_nat (buffer_len bs))])" "r = Err e \<Longrightarrow> cw_inv w' (evs @ [CallFailed])"
proof -
  show "cw_inv w' (evs @ [Wrote (of_nat (buffer_len bs))])" if "r = Ok ()"
  proof -
    from that assms(2) obtain w1 s1 where c: "cw_inner_call (W bs) (w, s) = Some (Ok (), w1, s1)"
      "w' = cw_transition Written (w1\<lparr>cw_size := cw_size w1 + of_nat (buffer_len bs)\<rparr>)"
      by (auto simp: complete_writer_write_eq split: option.splits res.splits)
    from cw_inner_call_Ok[OF assms(1) c(1)] obtain i where "\<not> log_finished evs" "w1 = w\<lparr>cw_inner := Some i\<rparr>" by blast
    with assms(1) c(2) show ?thesis
      by (auto simp: cw_inv_def log_state_def cw_transition_def complete_transition_def)
  qed
  show "cw_inv w' (evs @ [CallFailed])" if "r = Err e"
    using that assms(2) cw_inner_call_Err[OF assms(1), of "W bs" s e w' s']
    by (auto simp: complete_writer_write_eq split: option.splits res.splits)
qed

lemma cw_inv_abort:
  assumes "cw_inv w evs" "complete_writer_abort A (w, s) = Some (r, w', s')"
  shows "r = Ok () \<Longrightarrow> cw_inv w' (evs @ [WasAborted])" "r = Err e \<Longrightarrow> cw_inv w' (evs @ [CallFailed])"
proof -
  show "cw_inv w' (evs @ [WasAborted])" if "r = Ok ()"
  proof -
    from that assms(2) obtain w1 s1 where c: "cw_inner_call A (w, s) = Some (Ok (), w1, s1)"
      "w' = cw_transition Closed (w1\<lparr>cw_inner := None\<rparr>)"
      by (auto simp: complete_writer_abort_eq split: option.splits res.splits)
    from cw_inner_call_Ok[OF assms(1) c(1)] obtain i where "w1 = w\<lparr>cw_inner := Some i\<rparr>" by blast
    with assms(1) c(2) show ?thesis
      by (auto simp: cw_inv_def log_state_def cw_transition_def complete_transition_def)
  qed
  show "cw_inv w' (evs @ [CallFailed])" if "r = Err e"
    using that assms(2) cw_inner_call_Err[OF assms(1), of A s e w' s']
    by (auto simp: complete_writer_abort_eq split: option.splits res.splits)
qed

lemma cw_inv_close:
  assumes "cw_inv w evs" "complete_writer_close C (w, s) = Some (r, w', s')"
  shows "r = Ok m \<Longrightarrow> cw_inv w' (evs @ [WasClosed])" "r = Err e \<Longrightarrow> cw_inv w' (evs @ [CallFailed])"
proof -
  from assms(2) obtain q w1 s1 where c: "cw_inner_call C (w, s) = Some (q, w1, s1)"
    by (auto simp: complete_writer_close_eq split: option.splits)
  show "cw_inv w' (evs @ [WasClosed])" if "r = Ok m"
  proof -
    from that assms(2) c obtain ret where "q = Ok ret" "w' = cw_transition Closed (w1\<lparr>cw_inner := None\<rparr>)"
      by (auto simp: complete_writer_close_eq split: option.splits res.splits)
    moreover from this(1) cw_inner_call_Ok[OF assms(1), of C s] c obtain i where "w1 = w\<lparr>cw_inner := Some i\<rparr>" by blast
    ultimately show ?thesis using assms(1)
      by (auto simp: cw_inv_def log_state_def cw_transition_def complete_transition_def)
  qed
  show "cw_inv w' (evs @ [CallFailed])" if "r = Err e"
  proof (cases q)
    case (Ok ret)
    with that assms(2) c have "w' = cw_transition Error w1"
      by (auto simp: complete_writer_close_eq split: option.splits res.splits)
    moreover from Ok cw_inner_call_Ok[OF assms(1), of C s] c obtain i where
      "\<not> log_finished evs" "w1 = w\<lparr>cw_inner := Some i\<rparr>" by blast
    ultimately show ?thesis using assms(1)
      by (auto simp: cw_inv_def log_state_def cw_transition_def complete_transition_def)
  next
    case (Err e')
    with that assms(2) c cw_inner_call_Err[OF assms(1), of C s e' w1 s1] show ?thesis
      by (auto simp: complete_writer_close_eq)
  qed (use that assms(2) c in \<open>auto simp: complete_writer_close_eq\<close>)
qed

lemma cw_reach_inv:
  assumes "cw_reach W C A x evs"
  shows "cw_inv (fst x) evs"
  using assms
proof (induction rule: cw_reach.induct)
  case (reach_new w ap s)
  then show ?case by (simp add: cw_inv_def complete_writer_new_def)
next
  case (reach_write x evs bs y)
  then show ?case using cw_inv_write(1) by (metis prod.collapse)
next
  case (reach_write_err x evs bs e y)
  then show ?case using cw_inv_write(2) by (metis prod.collapse)
next
  case (reach_close x evs m y)
  then show ?case using cw_inv_close(1) by (metis prod.collapse)
next
  case (reach_close_err x evs e y)
  then show ?case using cw_inv_close(2) by (metis prod.collapse)
next
  case (reach_abort x evs y)
  then show ?case using cw_inv_abort(1) by (metis prod.collapse)
next
  case (reach_abort_err x evs e y)
  then show ?case using cw_inv_abort(2) by (metis prod.collapse)
qed

lemma complete_writer_gone:
  assumes "cw_inner w = None"
  shows "complete_writer_write W bs (w, s) = Some (Err writer_closed, w, s)"
    "complete_writer_close C (w, s) = Some (Err writer_closed, w, s)"
    "complete_writer_abort A (w, s) = Some (Err writer_closed, w, s)"
  using assms
  by (simp_all add: complete_writer_write_eq complete_writer_close_eq complete_writer_abort_eq cw_inner_call_eq)

lemma complete_writer_close_Ok:
  assumes "complete_writer_close C (w, s) = Some (Ok m, w', s')"
  shows "cw_inner w' = None" "\<not> cw_append w \<Longrightarrow> metadata_content_length m = cw_size w"
proof -
  from assms obtain i i' ret where c: "cw_inner w = Some i" "C (i, s) = Some (Ok ret, i', s')"
    "complete_writer_check (w\<lparr>cw_inner := Some i'\<rparr>) (metadata_content_length ret) = Ok ()"
    "m = (if metadata_content_length ret = 0 then md_with_content_length (cw_size w) ret else ret)"
    "cw_inner w' = None"
    by (auto simp: complete_writer_close_eq cw_inner_call_eq Let_def split: option.splits res.splits)
  then show "cw_inner w' = None" "\<not> cw_append w \<Longrightarrow> metadata_content_length m = cw_size w"
    by (auto simp: complete_writer_check_def metadata_content_length_def md_with_content_length_def
        split: if_splits)
qed

text \<open>The writer keeps the contract of the writers it wraps; \<open>obj\<close> is the object in the service.\<close>

lemma complete_w_write:
  "w_write (writer_ops (complete_layer acc)) (w, s) bs =
     (case cw_inner w of
        None \<Rightarrow> (Err writer_closed, w, s)
      | Some i \<Rightarrow>
          (case w_write (writer_ops acc) (i, s) bs of
             (Ok _, i', s') \<Rightarrow>
               (Ok (), cw_transition Written (w\<lparr>cw_inner := Some i', cw_size := cw_size w + of_nat (buffer_len bs)\<rparr>), s')
           | (Err e, i', s') \<Rightarrow> (Err e, cw_transition Error (w\<lparr>cw_inner := Some i'\<rparr>), s')
           | (Panic, i', s') \<Rightarrow> (Panic, w\<lparr>cw_inner := Some i'\<rparr>, s')))"
  by (auto simp: writer_ops_def complete_layer_def complete_writer_write_eq cw_inner_call_eq io_total_def Let_def
      split: option.splits res.splits)

lemma complete_w_close:
  "w_close (writer_ops (complete_layer acc)) (w, s) =
     (case cw_inner w of
        None \<Rightarrow> (Err writer_closed, w, s)
      | Some i \<Rightarrow>
          (case w_close (writer_ops acc) (i, s) of
             (Ok ret, i', s') \<Rightarrow>
               (case complete_writer_check w (metadata_content_length ret) of
                  Ok _ \<Rightarrow> (Ok (if metadata_content_length ret = 0 then md_with_content_length (cw_size w) ret else ret),
                    cw_transition Closed (w\<lparr>cw_inner := None\<rparr>), s')
                | Err e \<Rightarrow> (Err e, cw_transition Error (w\<lparr>cw_inner := Some i'\<rparr>), s')
                | Panic \<Rightarrow> (Panic, w\<lparr>cw_inner := Some i'\<rparr>, s'))
           | (Err e, i', s') \<Rightarrow> (Err e, cw_transition Error (w\<lparr>cw_inner := Some i'\<rparr>), s')
           | (Panic, i', s') \<Rightarrow> (Panic, w\<lparr>cw_inner := Some i'\<rparr>, s')))"
  by (auto simp: writer_ops_def complete_layer_def complete_writer_close_eq cw_inner_call_eq io_total_def Let_def
      complete_writer_check_def split: option.splits res.splits)

definition complete_writes :: "('w \<times> 's \<Rightarrow> bytes list) \<Rightarrow> 'w complete_writer \<times> 's \<Rightarrow> bytes list" where
  "complete_writes writes = (\<lambda>(w, s). case cw_inner w of None \<Rightarrow> [] | Some i \<Rightarrow> writes (i, s))"

definition complete_winv ::
  "('w \<times> 's \<Rightarrow> bool) \<Rightarrow> ('w \<times> 's \<Rightarrow> bytes list) \<Rightarrow> 'w complete_writer \<times> 's \<Rightarrow> bool" where
  "complete_winv winv writes = (\<lambda>(w, s).
     case cw_inner w of
       None \<Rightarrow> False
     | Some i \<Rightarrow> winv (i, s) \<and> cw_size w = of_nat (length (concat (writes (i, s)))))"

lemma complete_oio_writer:
  assumes "oio_writer (writer_ops acc) winv writes (\<lambda>(w, s). obj s)"
  shows "oio_writer (writer_ops (complete_layer acc)) (complete_winv winv writes) (complete_writes writes)
    (\<lambda>(w, s). obj s)"
proof
  fix x bs x'
  assume x: "complete_winv winv writes x" and b: "buffer_ok bs" "buffer_view bs \<noteq> []"
    and w: "w_write (writer_ops (complete_layer acc)) x bs = (Ok (), x')"
  obtain w s where ws: "x = (w, s)" by force
  with x obtain i where i: "cw_inner w = Some i" "winv (i, s)" "cw_size w = of_nat (length (concat (writes (i, s))))"
    by (auto simp: complete_winv_def split: option.splits)
  with w ws obtain i' s' where w': "w_write (writer_ops acc) (i, s) bs = (Ok (), i', s')"
    "x' = (cw_transition Written (w\<lparr>cw_inner := Some i', cw_size := cw_size w + of_nat (buffer_len bs)\<rparr>), s')"
    by (auto simp: complete_w_write split: prod.splits res.splits)
  from oio_writer.write_Ok[OF assms i(2) b w'(1)] i w'(2) ws b
  show "complete_winv winv writes x' \<and> complete_writes writes x' = complete_writes writes x @ [buffer_view bs]"
    by (simp add: complete_winv_def complete_writes_def buffer_ok_len)
next
  fix x bs e x'
  assume x: "complete_winv winv writes x" and b: "buffer_ok bs" "buffer_view bs \<noteq> []"
    and w: "w_write (writer_ops (complete_layer acc)) x bs = (Err e, x')"
  obtain w s where ws: "x = (w, s)" by force
  with x obtain i where i: "cw_inner w = Some i" "winv (i, s)" "cw_size w = of_nat (length (concat (writes (i, s))))"
    by (auto simp: complete_winv_def split: option.splits)
  with w ws obtain i' s' where w': "w_write (writer_ops acc) (i, s) bs = (Err e, i', s')"
    "x' = (cw_transition Error (w\<lparr>cw_inner := Some i'\<rparr>), s')"
    by (auto simp: complete_w_write split: prod.splits res.splits)
  from oio_writer.write_Err[OF assms i(2) b w'(1)] i w'(2) ws
  show "complete_winv winv writes x' \<and> complete_writes writes x' = complete_writes writes x"
    by (simp add: complete_winv_def complete_writes_def)
next
  fix x bs
  assume x: "complete_winv winv writes x" and b: "buffer_ok bs" "buffer_view bs \<noteq> []"
  obtain w s where ws: "x = (w, s)" by force
  with x obtain i where i: "cw_inner w = Some i" "winv (i, s)"
    by (auto simp: complete_winv_def split: option.splits)
  from oio_writer.write_no_panic[OF assms i(2) b] i ws
  show "fst (w_write (writer_ops (complete_layer acc)) x bs) \<noteq> Panic"
    by (auto simp: complete_w_write split: prod.splits res.splits)
next
  fix x m x'
  assume x: "complete_winv winv writes x" and w: "w_close (writer_ops (complete_layer acc)) x = (Ok m, x')"
  obtain w s where ws: "x = (w, s)" by force
  with x obtain i where i: "cw_inner w = Some i" "winv (i, s)"
    by (auto simp: complete_winv_def split: option.splits)
  with w ws obtain ret i' where w': "w_close (writer_ops acc) (i, s) = (Ok ret, i', snd x')"
    by (auto simp: complete_w_close split: prod.splits res.splits)
  from oio_writer.close_Ok[OF assms i(2) w'] i ws
  show "(case x' of (w, s) \<Rightarrow> obj s) = Some (concat (complete_writes writes x))"
    by (auto simp: complete_writes_def split: prod.splits)
qed

lemma complete_reliable_writer:
  assumes "reliable_writer (writer_ops acc) winv writes (\<lambda>(w, s). obj s)"
  shows "reliable_writer (writer_ops (complete_layer acc)) (complete_winv winv writes) (complete_writes writes)
    (\<lambda>(w, s). obj s)"
proof (rule reliable_writer.intro[OF complete_oio_writer[OF reliable_writer.axioms(1)[OF assms]]], unfold_locales)
  fix x bs
  assume x: "complete_winv winv writes x" and b: "buffer_ok bs" "buffer_view bs \<noteq> []"
  obtain w s where ws: "x = (w, s)" by force
  with x obtain i where i: "cw_inner w = Some i" "winv (i, s)"
    by (auto simp: complete_winv_def split: option.splits)
  from reliable_writer.write_total[OF assms i(2) b] i ws
  show "\<exists>x'. w_write (writer_ops (complete_layer acc)) x bs = (Ok (), x')"
    by (auto simp: complete_w_write)
next
  fix x
  assume x: "complete_winv winv writes x"
  obtain w s where ws: "x = (w, s)" by force
  with x obtain i where i: "cw_inner w = Some i" "winv (i, s)" "cw_size w = of_nat (length (concat (writes (i, s))))"
    by (auto simp: complete_winv_def split: option.splits)
  from reliable_writer.close_total[OF assms i(2)] obtain m i' s' where
    c: "w_close (writer_ops acc) (i, s) = (Ok m, i', s')"
      "metadata_content_length m = of_nat (length (concat (writes (i, s))))" by (metis prod.exhaust)
  then have "complete_writer_check w (metadata_content_length m) = Ok ()"
    using i(3) by (simp add: complete_writer_check_def)
  with c i ws show "\<exists>m x'. w_close (writer_ops (complete_layer acc)) x = (Ok m, x') \<and>
      metadata_content_length m = of_nat (length (concat (complete_writes writes x)))"
    by (simp add: complete_w_close complete_writes_def md_with_content_length_def metadata_content_length_def)
qed

section \<open>Listers\<close>

definition needs_length :: "oio_entry \<Rightarrow> bool" where
  "needs_length e \<longleftrightarrow>
     oio_entry_mode e = FILE \<and> \<not> md_is_deleted (oe_meta e) \<and> \<not> metadata_has_content_length (oe_meta e)"

definition entry_stat_op :: "oio_entry \<Rightarrow> op_stat" where
  "entry_stat_op e =
     (case md_version (oe_meta e) of Some v \<Rightarrow> os_with_version v op_stat_default | None \<Rightarrow> op_stat_default)"

lemma ensure_file_content_length_Ok:
  assumes "ensure_file_content_length stat scheme e s = Some (Ok e', s')"
  shows "metadata_has_content_length (oe_meta e')"
  using assms
  by (auto simp: ensure_file_content_length_def io_defs Let_def md_set_content_length_def
      metadata_has_content_length_def split: option.splits res.splits if_splits)

lemma complete_lister_length_aux:
  assumes "complete_lister_loop stat scheme inner l s = Some z"
  shows "\<forall>e. fst z = Ok (Some e) \<longrightarrow> \<not> needs_length e"
proof (rule complete_lister_loop.raw_induct[OF _ assms,
      where P = "\<lambda>stat scheme inner l s z. \<forall>e. fst z = Ok (Some e) \<longrightarrow> \<not> needs_length e"], goal_cases)
  case (1 loop stat scheme inner l0 s0 z)
  show ?case
  proof (intro allI impI)
    fix e
    assume e: "fst z = Ok (Some e)"
    from 1(2) e obtain e0 l s where i: "inner (l0, s0) = Some (Ok (Some e0), l, s)"
      by (auto split: option.splits res.splits)
    show "\<not> needs_length e"
    proof (cases "needs_length e0")
      case False
      with 1(2) i e show ?thesis by (auto simp: needs_length_def)
    next
      case True
      with 1(2) i obtain t s1 where w: "ensure_file_content_length stat scheme e0 s = Some (t, s1)"
        by (cases "ensure_file_content_length stat scheme e0 s") (auto simp: needs_length_def)
      show ?thesis
      proof (cases t)
        case (Ok e1)
        with ensure_file_content_length_Ok[of stat scheme e0 s e1 s1] w 1(2) i True e
        show ?thesis by (auto simp: needs_length_def)
      next
        case (Err err)
        with 1 w i True e show ?thesis
          by (cases "e_kind err = NotFound") (auto simp: needs_length_def)
      next
        case Panic
        with w 1(2) i True e show ?thesis by (auto simp: needs_length_def)
      qed
    qed
  qed
qed

text \<open>What the lister makes of a list of entries, when \<open>stat\<close> answers \<open>st\<close>.\<close>

fun complete_entries :: "(str \<Rightarrow> op_stat \<Rightarrow> metadata res) \<Rightarrow> oio_entry list \<Rightarrow> oio_entry list" where
  "complete_entries st [] = []"
| "complete_entries st (e # es) =
     (if needs_length e
      then (case st (oe_path e) (entry_stat_op e) of
              Ok m \<Rightarrow> e\<lparr>oe_meta := md_set_content_length (metadata_content_length m) (oe_meta e)\<rparr> # complete_entries st es
            | _ \<Rightarrow> complete_entries st es)
      else e # complete_entries st es)"

definition stat_serves :: "(str \<Rightarrow> op_stat \<Rightarrow> metadata res) \<Rightarrow> oio_entry \<Rightarrow> bool" where
  "stat_serves st e \<longleftrightarrow>
     (case st (oe_path e) (entry_stat_op e) of
        Ok m \<Rightarrow> metadata_has_content_length m
      | Err err \<Rightarrow> e_kind err = NotFound
      | Panic \<Rightarrow> False)"

lemma complete_lister_next_Cons:
  assumes "inner (l0, s0) = Some (Ok (Some e), l, s)"
    "needs_length e \<Longrightarrow> stat (oe_path e) (entry_stat_op e) s = Some (st (oe_path e) (entry_stat_op e), s')"
    "needs_length e \<Longrightarrow> stat_serves st e"
  shows "complete_lister_next stat scheme inner (l0, s0) =
    (if \<not> needs_length e then Some (Ok (Some e), l, s)
     else case st (oe_path e) (entry_stat_op e) of
       Ok m \<Rightarrow> Some (Ok (Some (e\<lparr>oe_meta := md_set_content_length (metadata_content_length m) (oe_meta e)\<rparr>)), l, s')
     | _ \<Rightarrow> complete_lister_next stat scheme inner (l, s'))"
proof (cases "needs_length e")
  case False
  with assms(1) show ?thesis
    by (auto simp: complete_lister_next_def complete_lister_loop.simps[of stat scheme inner l0 s0] needs_length_def)
next
  case True
  have "ensure_file_content_length stat scheme e s =
    (case st (oe_path e) (entry_stat_op e) of
       Ok m \<Rightarrow> Some (Ok (e\<lparr>oe_meta := md_set_content_length (metadata_content_length m) (oe_meta e)\<rparr>), s')
     | Err err \<Rightarrow> Some (Err err, s')
     | Panic \<Rightarrow> Some (Panic, s'))"
    using assms(2,3) True
    by (auto simp: stat_serves_def ensure_file_content_length_def io_defs Let_def
      entry_stat_op_def[symmetric] split: res.splits)
  with assms(1,3) True show ?thesis
    by (auto simp: complete_lister_next_def complete_lister_loop.simps[of stat scheme inner l0 s0] needs_length_def
        stat_serves_def split: res.splits)
qed

lemma complete_finite_lister:
  assumes fin: "finite_lister nxt contents linv"
    and stat: "\<And>x e l s. linv x \<Longrightarrow> e \<in> set (contents x) \<Longrightarrow> needs_length e \<Longrightarrow> nxt x = Some (Ok (Some e), l, s) \<Longrightarrow>
      \<exists>s'. stat (oe_path e) (entry_stat_op e) s = Some (st (oe_path e) (entry_stat_op e), s') \<and> linv (l, s') \<and>
        contents (l, s') = contents (l, s)"
    and serves: "\<And>x e. linv x \<Longrightarrow> e \<in> set (contents x) \<Longrightarrow> needs_length e \<Longrightarrow> stat_serves st e"
  shows "finite_lister (complete_lister_next stat scheme nxt) (\<lambda>x. complete_entries st (contents x)) linv"
proof -
  have step: "\<exists>y. complete_lister_next stat scheme nxt x =
      Some (Ok (case complete_entries st (contents x) of [] \<Rightarrow> None | e # es \<Rightarrow> Some e), y) \<and> linv y \<and>
      complete_entries st (contents y) = tl (complete_entries st (contents x))" if "linv x" for x
    using that
  proof (induction "contents x" arbitrary: x)
    case Nil
    from finite_lister.next_None[OF fin Nil(2) Nil(1)[symmetric]] Nil(1)[symmetric] show ?case
      by (cases x) (auto simp: complete_lister_next_def complete_lister_loop.simps)
  next
    case (Cons e es)
    from finite_lister.next_Some[OF fin Cons(3) Cons(2)[symmetric]] obtain y where
      y: "nxt x = Some (Ok (Some e), y)" "linv y" "contents y = es" by blast
    obtain l s where ls: "y = (l, s)" by force
    have srv: "needs_length e \<Longrightarrow> stat_serves st e" using serves[OF Cons(3)] Cons(2)[symmetric] by simp
    have "\<exists>s'. (needs_length e \<longrightarrow> stat (oe_path e) (entry_stat_op e) s = Some (st (oe_path e) (entry_stat_op e), s')) \<and>
        linv (l, s') \<and> contents (l, s') = es"
    proof (cases "needs_length e")
      case True
      with stat[OF Cons(3) _ True, of l s] y ls Cons(2)[symmetric] show ?thesis by auto
    next
      case False
      with y ls show ?thesis by auto
    qed
    then obtain s' where
      s': "needs_length e \<Longrightarrow> stat (oe_path e) (entry_stat_op e) s = Some (st (oe_path e) (entry_stat_op e), s')"
        "linv (l, s')" "contents (l, s') = es" by blast
    have nx: "complete_lister_next stat scheme nxt x =
      (if \<not> needs_length e then Some (Ok (Some e), l, s)
       else case st (oe_path e) (entry_stat_op e) of
         Ok m \<Rightarrow> Some (Ok (Some (e\<lparr>oe_meta := md_set_content_length (metadata_content_length m) (oe_meta e)\<rparr>)), l, s')
       | _ \<Rightarrow> complete_lister_next stat scheme nxt (l, s'))"
      using complete_lister_next_Cons[of nxt _ _ e l s stat st s' scheme, OF _ s'(1) srv] y(1) ls
      by (cases x) simp
    from Cons(1)[OF s'(3)[symmetric] s'(2)] nx s' y ls Cons(2)[symmetric] srv show ?case
      by (auto simp: stat_serves_def split: res.splits)
  qed
  show ?thesis
  proof (rule finite_lister.intro)
    fix x e es
    assume "linv x" "complete_entries st (contents x) = e # es"
    with step[of x] show "\<exists>y. complete_lister_next stat scheme nxt x = Some (Ok (Some e), y) \<and> linv y \<and>
      complete_entries st (contents y) = es" by auto
  next
    fix x
    assume "linv x" "complete_entries st (contents x) = []"
    with step[of x] show "\<exists>y. complete_lister_next stat scheme nxt x = Some (Ok None, y) \<and> linv y \<and>
      complete_entries st (contents y) = []" by auto
  qed
qed

section \<open>Properties\<close>

text \<open>
  C25: \<open>CompleteReader\<close> over any reader: it passes on the buffers of the inner reader unchanged, and
  when the inner reader ends, it ends successfully if and only if no size was requested or
  exactly the requested number of bytes was delivered; otherwise it fails with \<open>Unexpected\<close>, so a
  truncated or overlong read is never reported as success.
\<close>

theorem complete_reader_exact:
  assumes "reads (complete_reader_read inner) (complete_reader_new r sz, s) bs (cr, s')"
  shows "reads inner (r, s) bs (crd_inner cr, s') \<and>
    (\<forall>b i s''. inner (crd_inner cr, s') = Some (Ok b, i, s'') \<longrightarrow> buffer_is_empty b \<longrightarrow>
      (\<exists>q cr'. complete_reader_read inner (cr, s') = Some (q, cr', s'') \<and>
        (if sz = None \<or> sz = Some (of_nat (sum_list (map buffer_len bs))) then q = Ok b
         else \<exists>e. q = Err e \<and> e_kind e = Unexpected)))"
proof -
  from reads_complete[OF assms] have r: "reads inner (r, s) bs (crd_inner cr, s')" "crd_size cr = sz"
    "crd_read cr = of_nat (sum_list (map buffer_len bs))"
    by (simp_all add: complete_reader_new_def)
  then show ?thesis
    by (auto simp: complete_reader_end complete_reader_check_def length_error_def split: option.splits)
qed

text \<open>A reader over a list of buffers, for the witness.\<close>

definition list_reader :: "(bytes list \<times> unit, buffer) io" where
  "list_reader = (\<lambda>(bs, s). Some (case bs of
     [] \<Rightarrow> (Ok buffer_new, [], s) | b # bs' \<Rightarrow> (Ok (buffer_from_bytes b), bs', s)))"

theorem complete_reader_exact_witness:
  "\<exists>e cr'. complete_reader_read list_reader (\<lparr>crd_inner = [], crd_size = Some 3, crd_read = 2\<rparr>, ()) =
     Some (Err e, cr', ()) \<and> e_kind e = Unexpected"
proof -
  let ?x = "(complete_reader_new [[1, 2]] (Some 3), ())"
  let ?y = "(\<lparr>crd_inner = [] :: bytes list, crd_size = Some 3, crd_read = 2\<rparr>, ())"
  have "complete_reader_read list_reader ?x = Some (Ok (buffer_from_bytes [1, 2]), ?y)"
    by (simp add: complete_reader_read_eq list_reader_def complete_reader_new_def buffer_is_empty_def
        buffer_from_bytes_def)
  from reads_step[OF reads_Nil[of "complete_reader_read list_reader" ?x] this]
  have "reads (complete_reader_read list_reader) ?x [buffer_from_bytes [1, 2]] ?y" by simp
  from complete_reader_exact[OF this] show ?thesis
    by (auto simp: list_reader_def buffer_is_empty_def buffer_new_def buffer_from_bytes_def)
qed

text \<open>
  C26: The life of a \<open>CompleteWriter\<close>, for any inner writer and any sequence of calls that do not panic, is
  determined by what has happened to it.  Its size is the number of bytes of the successful writes; it has
  given up the inner writer exactly if a \<open>close\<close> or an \<open>abort\<close> has succeeded, and then every call fails and
  changes nothing; its state is \<open>Error\<close> exactly if a call failed before that, and otherwise \<open>Closed\<close>, \<open>Written\<close> or
  \<open>Open\<close> as it was finished, written to or untouched.  A successful \<open>close\<close> of a writer that does not
  append reports exactly the number of bytes written.
\<close>

theorem complete_writer_lifecycle:
  assumes "cw_reach W C A (w, s) evs"
  shows "cw_size w = log_size evs \<and> (cw_inner w = None \<longleftrightarrow> log_finished evs) \<and> cw_state w = log_state evs \<and>
    (log_finished evs \<longrightarrow>
       complete_writer_write W bs (w, s) = Some (Err writer_closed, w, s) \<and>
       complete_writer_close C (w, s) = Some (Err writer_closed, w, s) \<and>
       complete_writer_abort A (w, s) = Some (Err writer_closed, w, s)) \<and>
    (\<forall>m w' s'. complete_writer_close C (w, s) = Some (Ok m, w', s') \<longrightarrow>
       cw_append w \<or> metadata_content_length m = log_size evs)"
proof -
  have inv: "cw_size w = log_size evs" "cw_inner w = None \<longleftrightarrow> log_finished evs" "cw_state w = log_state evs"
    using cw_reach_inv[OF assms] by (auto simp: cw_inv_def)
  have "cw_append w \<or> metadata_content_length m = log_size evs"
    if "complete_writer_close C (w, s) = Some (Ok m, w', s')" for m w' s'
    using complete_writer_close_Ok(2)[OF that] inv(1) by auto
  moreover have "log_finished evs \<longrightarrow>
      complete_writer_write W bs (w, s) = Some (Err writer_closed, w, s) \<and>
      complete_writer_close C (w, s) = Some (Err writer_closed, w, s) \<and>
      complete_writer_abort A (w, s) = Some (Err writer_closed, w, s)"
    using inv(2) by (simp add: complete_writer_gone)
  ultimately show ?thesis using inv by blast
qed

text \<open>A writer that stores nothing and reports no length.\<close>

definition null_write :: "buffer \<Rightarrow> (unit \<times> unit, unit) io" where
  "null_write bs x = Some (Ok (), x)"

definition null_close :: "(unit \<times> unit, metadata) io" where
  "null_close x = Some (Ok (metadata_new FILE), x)"

definition null_abort :: "(unit \<times> unit, unit) io" where
  "null_abort x = Some (Ok (), x)"

theorem complete_writer_lifecycle_witness:
  "\<exists>w'. complete_writer_abort null_abort
       (\<lparr>cw_inner = Some (), cw_append = False, cw_size = 2, cw_state = Written\<rparr>, ()) = Some (Ok (), w', ()) \<and>
     cw_inner w' = None \<and> cw_state w' = Closed \<and>
     complete_writer_close null_close (w', ()) = Some (Err writer_closed, w', ())"
proof -
  let ?x = "(complete_writer_new () False, ())"
  let ?y = "(\<lparr>cw_inner = Some (), cw_append = False, cw_size = 2, cw_state = Written\<rparr>, ())"
  let ?z = "(\<lparr>cw_inner = None, cw_append = False, cw_size = 2, cw_state = Closed\<rparr>, ())"
  have "complete_writer_write null_write (buffer_from_bytes [1, 2]) ?x = Some (Ok (), ?y)"
    by (simp add: complete_writer_write_eq cw_inner_call_eq complete_writer_new_def null_write_def
        cw_transition_def complete_transition_def buffer_from_bytes_def)
  from reach_write[OF reach_new this, of null_close null_abort]
  have y: "cw_reach null_write null_close null_abort ?y ([] @ [Wrote (of_nat (buffer_len (buffer_from_bytes [1, 2])))])" .
  have ab: "complete_writer_abort null_abort ?y = Some (Ok (), ?z)"
    by (simp add: complete_writer_abort_eq cw_inner_call_eq null_abort_def cw_transition_def complete_transition_def)
  from complete_writer_lifecycle[OF reach_abort[OF y ab]] ab show ?thesis by simp
qed

text \<open>
  Every entry \<open>CompleteLister\<close> yields, over any lister and any \<open>stat\<close>, carries a content
  length if it is a file that is not deleted.
\<close>

theorem complete_lister_file_length:
  assumes "complete_lister_next stat scheme inner x = Some (Ok (Some e), y)"
  shows "oio_entry_mode e \<noteq> FILE \<or> md_is_deleted (oe_meta e) \<or> metadata_has_content_length (oe_meta e)"
  using complete_lister_length_aux[of stat scheme inner "fst x" "snd x"] assms
  by (cases x) (auto simp: complete_lister_next_def needs_length_def)

text \<open>A lister of one file without a length, and a \<open>stat\<close> that knows it.\<close>

definition one_entry_next :: "(bool \<times> unit, oio_entry option) io" where
  "one_entry_next = (\<lambda>(more, s). Some
     (Ok (if more then Some (oio_entry_new ''f'' (metadata_new FILE)) else None), False, s))"

definition sized_stat :: "str \<Rightarrow> op_stat \<Rightarrow> (unit, metadata) io" where
  "sized_stat path op s = Some (Ok (md_with_content_length 7 (metadata_new FILE)), s)"

end
