(* ===== verification/Error_Context.thy ===== *)
theory Error_Context
  imports Accessor
begin

text \<open>
  \<open>ErrorContextLayer\<close> of \<open>core/core/src/layers/error_context.rs\<close>: it names the operation in every
  error and adds the service, the path and the progress made so far to its context.  The context
  is computed only when there is an error; \<open>range.to_string()\<close> panics for a range \<open>Display\<close> rejects.
\<close>

section \<open>ErrorContextWrapper\<close>

record 't ec_wrapper =
  ec_scheme :: str
  ec_path :: str
  ec_inner :: 't
  ec_range :: bytes_range
  ec_processed :: u64

definition ec_new :: "str \<Rightarrow> str \<Rightarrow> 't \<Rightarrow> 't ec_wrapper" where
  "ec_new scheme path inner =
     \<lparr>ec_scheme = scheme, ec_path = path, ec_inner = inner, ec_range = BytesRange 0 None, ec_processed = 0\<rparr>"

definition ec_with_range :: "bytes_range \<Rightarrow> 't ec_wrapper \<Rightarrow> 't ec_wrapper" where
  "ec_with_range rng w = w\<lparr>ec_range := rng\<rparr>"

text \<open>\<open>err.with_operation(op).with_context(..)...\<close>\<close>

definition ec_error :: "operation \<Rightarrow> (str \<times> str) list \<Rightarrow> error \<Rightarrow> error" where
  "ec_error op ctx e = fold (\<lambda>(k, v). with_context k v) ctx (with_operation (operation_into_static op) e)"

text \<open>\<open>map_err\<close> with such a closure; the context is \<open>None\<close> if computing it panics.\<close>

fun ec_res :: "operation \<Rightarrow> (str \<times> str) list option \<Rightarrow> 'a res \<Rightarrow> 'a res" where
  "ec_res op ctx (Ok v) = Ok v"
| "ec_res op ctx (Err e) = (case ctx of Some c \<Rightarrow> Err (ec_error op c e) | None \<Rightarrow> Panic)"
| "ec_res op ctx Panic = Panic"

definition ec_map_err :: "operation \<Rightarrow> (str \<times> str) list option \<Rightarrow> ('s, 'a) io \<Rightarrow> ('s, 'a) io" where
  "ec_map_err op ctx m s = map_option (\<lambda>(r, s1). (ec_res op ctx r, s1)) (m s)"

definition range_context :: "bytes_range \<Rightarrow> (str \<times> str) list option" where
  "range_context rng = map_option (\<lambda>t. [(''range'', t)]) (show_bytes_range rng)"

text \<open>
  A method of the wrapped object: \<open>count\<close> is what a success adds to \<open>processed\<close>, \<open>ctx\<close> the context
  a failure gets.
\<close>

definition ec_call ::
  "operation \<Rightarrow> ('t ec_wrapper \<Rightarrow> (str \<times> str) list option) \<Rightarrow> ('a \<Rightarrow> u64) \<Rightarrow> ('t \<times> 's, 'a) io \<Rightarrow>
     ('t ec_wrapper \<times> 's, 'a) io" where
  "ec_call op ctx count m =
     io_with (\<lambda>w.
       ec_map_err op (ctx w)
         (io_inspect (\<lambda>v w. w\<lparr>ec_processed := ec_processed w + count v\<rparr>)
           (io_on ec_inner (\<lambda>i w. w\<lparr>ec_inner := i\<rparr>) m)))"

definition ec_reader_read :: "('r \<times> 's, buffer) io \<Rightarrow> ('r ec_wrapper \<times> 's, buffer) io" where
  "ec_reader_read =
     ec_call OpRead
       (\<lambda>w. map_option (\<lambda>rng. [(''service'', ec_scheme w), (''path'', ec_path w)] @ rng @
             [(''read'', show_u64 (ec_processed w))]) (range_context (ec_range w)))
       (\<lambda>bs. of_nat (buffer_len bs))"

definition ec_writer_write ::
  "(buffer \<Rightarrow> ('w \<times> 's, unit) io) \<Rightarrow> buffer \<Rightarrow> ('w ec_wrapper \<times> 's, unit) io" where
  "ec_writer_write inner bs =
     (let sz = buffer_len bs
      in ec_call OpWrite
           (\<lambda>w. Some [(''service'', ec_scheme w), (''path'', ec_path w), (''size'', show_nat sz),
                 (''written'', show_u64 (ec_processed w))])
           (\<lambda>_. of_nat sz) (inner bs))"

definition ec_writer_close :: "('w \<times> 's, metadata) io \<Rightarrow> ('w ec_wrapper \<times> 's, metadata) io" where
  "ec_writer_close =
     ec_call OpWrite
       (\<lambda>w. Some [(''service'', ec_scheme w), (''path'', ec_path w), (''written'', show_u64 (ec_processed w))])
       (\<lambda>_. 0)"

definition ec_writer_abort :: "('w \<times> 's, unit) io \<Rightarrow> ('w ec_wrapper \<times> 's, unit) io" where
  "ec_writer_abort =
     ec_call OpWrite
       (\<lambda>w. Some [(''service'', ec_scheme w), (''path'', ec_path w), (''processed'', show_u64 (ec_processed w))])
       (\<lambda>_. 0)"

definition ec_lister_next ::
  "('l \<times> 's, oio_entry option) io \<Rightarrow> ('l ec_wrapper \<times> 's, oio_entry option) io" where
  "ec_lister_next =
     ec_call OpList
       (\<lambda>w. Some [(''service'', ec_scheme w), (''path'', ec_path w), (''listed'', show_u64 (ec_processed w))])
       (\<lambda>e. if e = None then 0 else 1)"

definition ec_deleter_delete ::
  "(str \<Rightarrow> op_delete \<Rightarrow> ('d \<times> 's, unit) io) \<Rightarrow> str \<Rightarrow> op_delete \<Rightarrow> ('d ec_wrapper \<times> 's, unit) io" where
  "ec_deleter_delete inner path args =
     ec_call OpDelete
       (\<lambda>w. Some [(''service'', ec_scheme w), (''path'', path), (''deleted'', show_u64 (ec_processed w))])
       (\<lambda>_. 0) (inner path args)"

definition ec_deleter_close :: "('d \<times> 's, unit) io \<Rightarrow> ('d ec_wrapper \<times> 's, unit) io" where
  "ec_deleter_close =
     ec_call OpDelete (\<lambda>w. Some [(''service'', ec_scheme w), (''deleted'', show_u64 (ec_processed w))]) (\<lambda>_. 0)"

definition ec_copied :: "'c ec_wrapper \<Rightarrow> (str \<times> str) list option" where
  "ec_copied w = Some [(''service'', ec_scheme w), (''path'', ec_path w), (''copied'', show_u64 (ec_processed w))]"

definition ec_copier :: "('c \<times> 's) copy_ops \<Rightarrow> ('c ec_wrapper \<times> 's) copy_ops" where
  "ec_copier inner =
     \<lparr>c_next = ec_call OpCopy ec_copied (\<lambda>n. of_nat (case n of Some k \<Rightarrow> k | None \<Rightarrow> 0)) (c_next inner),
      c_close = ec_call OpCopy ec_copied (\<lambda>_. 0) (c_close inner),
      c_abort = ec_call OpCopy ec_copied (\<lambda>_. 0) (c_abort inner)\<rparr>"

section \<open>ErrorContextAccessor\<close>

definition ec_create_dir :: "('s, 'r, 'w, 'l, 'd, 'c) accessor \<Rightarrow> str \<Rightarrow> ('s, unit) io" where
  "ec_create_dir acc path =
     ec_map_err OpCreateDir (Some [(''service'', ai_scheme (ac_info acc)), (''path'', path)])
       (ac_create_dir acc path)"

definition ec_read ::
  "('s, 'r, 'w, 'l, 'd, 'c) accessor \<Rightarrow> str \<Rightarrow> op_read \<Rightarrow> ('s, metadata option \<times> 'r ec_wrapper) io" where
  "ec_read acc path args =
     (let scheme = ai_scheme (ac_info acc); rng = ord_range args
      in ec_map_err OpRead
           (map_option (\<lambda>rng. [(''service'', scheme), (''path'', path)] @ rng) (range_context rng))
           (io_map (\<lambda>(rp, r). (rp, ec_with_range rng (ec_new scheme path r))) (ac_read acc path args)))"

definition ec_write ::
  "('s, 'r, 'w, 'l, 'd, 'c) accessor \<Rightarrow> str \<Rightarrow> op_write \<Rightarrow> ('s, 'w ec_wrapper) io" where
  "ec_write acc path args =
     (let scheme = ai_scheme (ac_info acc)
      in ec_map_err OpWrite (Some [(''service'', scheme), (''path'', path)])
           (io_map (ec_new scheme path) (ac_write acc path args)))"

definition ec_copy ::
  "('s, 'r, 'w, 'l, 'd, 'c) accessor \<Rightarrow> str \<Rightarrow> str \<Rightarrow> op_copy \<Rightarrow> op_copier \<Rightarrow> ('s, 'c ec_wrapper) io" where
  "ec_copy acc from to args opts =
     (let scheme = ai_scheme (ac_info acc)
      in ec_map_err OpCopy (Some [(''service'', scheme), (''from'', from), (''to'', to)])
           (io_map (ec_new scheme to) (ac_copy acc from to args opts)))"

definition ec_rename :: "('s, 'r, 'w, 'l, 'd, 'c) accessor \<Rightarrow> str \<Rightarrow> str \<Rightarrow> ('s, unit) io" where
  "ec_rename acc from to =
     ec_map_err OpRename (Some [(''service'', ai_scheme (ac_info acc)), (''from'', from), (''to'', to)])
       (ac_rename acc from to)"

definition ec_stat :: "('s, 'r, 'w, 'l, 'd, 'c) accessor \<Rightarrow> str \<Rightarrow> op_stat \<Rightarrow> ('s, metadata) io" where
  "ec_stat acc path args =
     ec_map_err OpStat (Some [(''service'', ai_scheme (ac_info acc)), (''path'', path)])
       (ac_stat acc path args)"

definition ec_delete :: "('s, 'r, 'w, 'l, 'd, 'c) accessor \<Rightarrow> ('s, 'd ec_wrapper) io" where
  "ec_delete acc =
     (let scheme = ai_scheme (ac_info acc)
      in ec_map_err OpDelete (Some [(''service'', scheme)]) (io_map (ec_new scheme []) (ac_delete acc)))"

definition ec_list ::
  "('s, 'r, 'w, 'l, 'd, 'c) accessor \<Rightarrow> str \<Rightarrow> op_list \<Rightarrow> ('s, 'l ec_wrapper) io" where
  "ec_list acc path args =
     (let scheme = ai_scheme (ac_info acc)
      in ec_map_err OpList (Some [(''service'', scheme), (''path'', path)])
           (io_map (ec_new scheme path) (ac_list acc path args)))"

definition error_context_layer ::
  "('s, 'r, 'w, 'l, 'd, 'c) accessor \<Rightarrow>
     ('s, 'r ec_wrapper, 'w ec_wrapper, 'l ec_wrapper, 'd ec_wrapper, 'c ec_wrapper) accessor" where
  "error_context_layer acc =
     \<lparr>ac_info = ac_info acc, ac_create_dir = ec_create_dir acc, ac_stat = ec_stat acc, ac_read = ec_read acc,
      ac_write = ec_write acc, ac_delete = ec_delete acc, ac_list = ec_list acc, ac_copy = ec_copy acc,
      ac_rename = ec_rename acc,
      ac_reader_read = ec_reader_read (ac_reader_read acc),
      ac_writer_write = ec_writer_write (ac_writer_write acc),
      ac_writer_close = ec_writer_close (ac_writer_close acc),
      ac_writer_abort = ec_writer_abort (ac_writer_abort acc),
      ac_lister_next = ec_lister_next (ac_lister_next acc),
      ac_deleter_delete = ec_deleter_delete (ac_deleter_delete acc),
      ac_deleter_close = ec_deleter_close (ac_deleter_close acc),
      ac_copier = ec_copier (ac_copier acc)\<rparr>"

section \<open>Lemmas\<close>

lemma fold_with_context:
  "fold (\<lambda>(k, v). with_context k v) ctx e = e\<lparr>e_context := e_context e @ ctx\<rparr>"
  by (induction ctx arbitrary: e) (auto simp: with_context_def)

lemma ec_error_simps [simp]:
  "e_kind (ec_error op ctx e) = e_kind e" "e_status (ec_error op ctx e) = e_status e"
  "e_message (ec_error op ctx e) = e_message e" "e_source (ec_error op ctx e) = e_source e"
  "e_operation (ec_error op ctx e) = operation_into_static op"
  "set ctx \<subseteq> set (e_context (ec_error op ctx e))" "set (e_context e) \<subseteq> set (e_context (ec_error op ctx e))"
  by (auto simp: ec_error_def fold_with_context with_operation_def Let_def)

lemma ec_call_eq:
  "ec_call op ctx count m (w, s) =
     (case m (ec_inner w, s) of
        None \<Rightarrow> None
      | Some (r, i, s1) \<Rightarrow>
          Some (ec_res op (ctx w) r,
            (case r of
               Ok v \<Rightarrow> w\<lparr>ec_inner := i, ec_processed := ec_processed w + count v\<rparr>
             | _ \<Rightarrow> w\<lparr>ec_inner := i\<rparr>), s1))"
  by (auto simp: ec_call_def ec_map_err_def io_defs split: option.splits res.splits)

text \<open>
  What the layer makes of an outcome of the operation \<open>op\<close>: a value \<open>v\<close> becomes one that \<open>g\<close> takes back to
  \<open>v\<close>; an error keeps everything but its operation and gains context; where the context cannot be displayed
  (\<open>\<not> shown\<close>), an error becomes a panic.
\<close>

fun ec_same :: "operation \<Rightarrow> bool \<Rightarrow> ('b \<Rightarrow> 'a) \<Rightarrow> 'a res \<Rightarrow> 'b res \<Rightarrow> bool" where
  "ec_same op shown g (Ok v) r \<longleftrightarrow> (\<exists>v'. r = Ok v' \<and> g v' = v)"
| "ec_same op shown g (Err e) r \<longleftrightarrow>
     (if shown
      then \<exists>e'. r = Err e' \<and> e_kind e' = e_kind e \<and> e_status e' = e_status e \<and> e_message e' = e_message e \<and>
        e_source e' = e_source e \<and> set (e_context e) \<subseteq> set (e_context e') \<and> e_operation e' = operation_into_static op
      else r = Panic)"
| "ec_same op shown g Panic r \<longleftrightarrow> r = Panic"

text \<open>The method \<open>m'\<close> of the layer returns what the layer makes of the outcome of \<open>m\<close>, in the same state.\<close>

definition ec_passes ::
  "operation \<Rightarrow> ('x \<Rightarrow> bool) \<Rightarrow> ('x \<Rightarrow> 'y) \<Rightarrow> ('b \<Rightarrow> 'a) \<Rightarrow> ('y, 'a) io \<Rightarrow> ('x, 'b) io \<Rightarrow> bool" where
  "ec_passes op shown get g m m' \<longleftrightarrow>
     (\<forall>x. case m (get x) of
            None \<Rightarrow> m' x = None
          | Some (r, y) \<Rightarrow> \<exists>r' x'. m' x = Some (r', x') \<and> get x' = y \<and> ec_same op (shown x) g r r')"

definition ec_get :: "'t ec_wrapper \<times> 's \<Rightarrow> 't \<times> 's" where
  "ec_get = (\<lambda>(w, s). (ec_inner w, s))"

lemma ec_same_res: "ec_same op (ctx \<noteq> None) id r (ec_res op ctx r)"
  by (cases r; cases ctx) simp_all

lemma ec_same_map: "(\<And>v. g (f v) = v) \<Longrightarrow> ec_same op (ctx \<noteq> None) g r (ec_res op ctx (map_res f r))"
  by (cases r; cases ctx) auto

lemma ec_passes_map_err:
  "(\<And>x. shown x \<longleftrightarrow> ctx \<noteq> None) \<Longrightarrow> ec_passes op shown id id m (ec_map_err op ctx m)"
  unfolding ec_passes_def ec_map_err_def by (auto simp del: not_None_eq split: option.split intro!: ec_same_res)

text \<open>A method that opens an object: the layer returns it wrapped.\<close>

lemma ec_passes_open:
  "(\<And>x. shown x \<longleftrightarrow> ctx \<noteq> None) \<Longrightarrow> (\<And>v. g (f v) = v) \<Longrightarrow> ec_passes op shown id g m (ec_map_err op ctx (io_map f m))"
  unfolding ec_passes_def ec_map_err_def io_map_def by (auto simp del: not_None_eq split: option.split intro!: ec_same_map)

lemma ec_passes_call:
  assumes "\<And>x. shown x \<longleftrightarrow> ctx (fst x) \<noteq> None"
  shows "ec_passes op shown ec_get id m (ec_call op ctx count m)"
  unfolding ec_passes_def
proof (intro allI)
  fix x :: "'a ec_wrapper \<times> 'b"
  obtain w s where x: "x = (w, s)" by force
  show "case m (ec_get x) of None \<Rightarrow> ec_call op ctx count m x = None
     | Some (r, y) \<Rightarrow> \<exists>r' x'. ec_call op ctx count m x = Some (r', x') \<and> ec_get x' = y \<and> ec_same op (shown x) id r r'"
    using ec_same_res[of op "ctx w"] assms[of x]
    by (auto simp: x ec_get_def ec_call_eq simp del: not_None_eq split: option.split res.split)
qed

lemma ec_res_iff [simp]:
  "ec_res op ctx r = Ok v \<longleftrightarrow> r = Ok v" "ec_res op ctx r = Panic \<longleftrightarrow> r = Panic \<or> (\<exists>e. r = Err e \<and> ctx = None)"
  by (cases r; auto split: option.splits)+

lemma ec_call_Ok:
  "ec_call op ctx count m x = Some (Ok v, x') \<Longrightarrow> m (ec_get x) = Some (Ok v, ec_get x')"
  by (cases x; cases x'; cases "m (ec_get x)") (auto simp: ec_call_eq ec_get_def)

lemma ec_call_Ok':
  "m (ec_get x) = Some (Ok v, y) \<Longrightarrow> \<exists>x'. ec_call op ctx count m x = Some (Ok v, x') \<and> ec_get x' = y"
  by (cases x; cases y) (auto simp: ec_call_eq ec_get_def)

lemma ec_call_total:
  "io_total (ec_call op ctx count m) x = (Ok v, x') \<Longrightarrow> io_total m (ec_get x) = (Ok v, ec_get x')"
  using ec_call_Ok[of op ctx count m x v x'] by (auto simp: io_total_def split: option.splits)

lemma ec_call_total':
  "io_total m (ec_get x) = (Ok v, y) \<Longrightarrow> \<exists>x'. io_total (ec_call op ctx count m) x = (Ok v, x')"
  using ec_call_Ok'[of m x v y op ctx count] by (auto simp: io_total_def split: option.splits)

lemma ec_map_err_total:
  "io_total (ec_map_err op ctx m) s = (Ok v, s') \<longleftrightarrow> io_total m s = (Ok v, s')"
  by (cases "m s") (auto simp: ec_map_err_def io_total_def)

text \<open>The layer keeps the contracts of the objects it wraps.\<close>

lemma ec_rop_open:
  "rop_open (reader_ops (error_context_layer acc)) path args s = (Ok (rp, r), s') \<longleftrightarrow>
     (\<exists>i. rop_open (reader_ops acc) path args s = (Ok (rp, i), s') \<and>
       r = ec_with_range (ord_range args) (ec_new (ai_scheme (ac_info acc)) path i))"
  by (cases "ac_read acc path args s")
    (auto simp: reader_ops_def error_context_layer_def ec_read_def ec_map_err_def io_total_def io_map_def Let_def)

lemma ec_rop_read:
  "rop_read (reader_ops (error_context_layer acc)) r s = (Ok b, r', s') \<Longrightarrow>
     rop_read (reader_ops acc) (ec_inner r) s = (Ok b, ec_inner r', s')"
  using ec_call_total[of OpRead _ _ "ac_reader_read acc" "(r, s)" b "(r', s')"]
  by (auto simp: reader_ops_def error_context_layer_def ec_reader_read_def ec_get_def)

lemma ec_rop_read':
  "rop_read (reader_ops acc) (ec_inner r) s = (Ok b, i, s') \<Longrightarrow>
     \<exists>r'. rop_read (reader_ops (error_context_layer acc)) r s = (Ok b, r', s')"
proof -
  assume a: "rop_read (reader_ops acc) (ec_inner r) s = (Ok b, i, s')"
  then have "io_total (ac_reader_read acc) (ec_get (r, s)) = (Ok b, i, s')" by (simp add: reader_ops_def ec_get_def)
  from ec_call_total'[OF this] obtain r' s1 where
    r': "rop_read (reader_ops (error_context_layer acc)) r s = (Ok b, r', s1)"
    by (fastforce simp: reader_ops_def error_context_layer_def ec_reader_read_def)
  with ec_rop_read[OF r'] a show ?thesis by simp
qed

lemma ec_rop_stat:
  "rop_stat (reader_ops (error_context_layer acc)) path args s = (Ok m, s') \<longleftrightarrow>
     rop_stat (reader_ops acc) path args s = (Ok m, s')"
  by (simp add: reader_ops_def error_context_layer_def ec_stat_def ec_map_err_total)

lemma ec_inner_new [simp]: "ec_inner (ec_with_range rng (ec_new scheme path i)) = i"
  "ec_inner (ec_new scheme path i) = i"
  by (simp_all add: ec_with_range_def ec_new_def)

lemma ec_reliable_reader:
  assumes "reliable_reader (reader_ops acc) path content sinv rinv rest good rgood"
  shows "reliable_reader (reader_ops (error_context_layer acc)) path content sinv
    (\<lambda>r. rinv (ec_inner r)) (\<lambda>r. rest (ec_inner r)) good (\<lambda>r. rgood (ec_inner r))"
  by (rule reliable_reader_wrap[OF assms]) (auto simp: ec_rop_open ec_rop_stat ec_rop_read intro: ec_rop_read')

lemma ec_reliable_writer:
  assumes "reliable_writer (writer_ops acc) winv writes stored"
  shows "reliable_writer (writer_ops (error_context_layer acc)) (\<lambda>x. winv (ec_get x)) (\<lambda>x. writes (ec_get x))
    (\<lambda>x. stored (ec_get x))"
proof (rule reliable_writer_wrap[OF assms])
  fix x bs r x'
  assume "w_write (writer_ops (error_context_layer acc)) x bs = (r, x')"
  then show "\<exists>r0. w_write (writer_ops acc) (ec_get x) bs = (r0, ec_get x') \<and>
      (r = Ok () \<longleftrightarrow> r0 = Ok ()) \<and> (r = Panic \<longleftrightarrow> r0 = Panic)"
    by (cases x; cases "ac_writer_write acc bs (ec_get x)")
      (auto simp: writer_ops_def error_context_layer_def ec_writer_write_def io_total_def ec_call_eq ec_get_def Let_def
        split: res.splits)
next
  fix x m x'
  assume "w_close (writer_ops (error_context_layer acc)) x = (Ok m, x')"
  then show "w_close (writer_ops acc) (ec_get x) = (Ok m, ec_get x')"
    by (simp add: writer_ops_def error_context_layer_def ec_writer_close_def ec_call_total)
next
  fix x m i
  assume "w_close (writer_ops acc) (ec_get x) = (Ok m, i)"
  then show "\<exists>x'. w_close (writer_ops (error_context_layer acc)) x = (Ok m, x')"
    unfolding writer_ops_def error_context_layer_def ec_writer_close_def
    by (simp only: write_ops.simps accessor.simps) (rule ec_call_total')
qed

lemma ec_finite_lister:
  assumes "finite_lister (ac_lister_next acc) contents linv"
  shows "finite_lister (ac_lister_next (error_context_layer acc)) (\<lambda>x. contents (ec_get x)) (\<lambda>x. linv (ec_get x))"
  by (rule finite_lister_wrap[OF assms])
    (unfold error_context_layer_def ec_lister_next_def accessor.simps, rule ec_call_Ok')

lemma ec_call_deleted:
  assumes "ec_processed w = 0" "ec_call OpDelete ctx (\<lambda>_. 0) m (w, s) = Some (r, w', s')"
    "ctx w = Some (c @ [(''deleted'', show_u64 (ec_processed w))])"
  shows "ec_processed w' = 0 \<and> (\<forall>e. r = Err e \<longrightarrow> (''deleted'', ''0'') \<in> set (e_context e))"
proof -
  have zero: "show_u64 0 = ''0''" by code_simp
  from assms(1,2) obtain q i where q: "m (ec_inner w, s) = Some (q, i, s')" "r = ec_res OpDelete (ctx w) q"
    "ec_processed w' = 0"
    by (auto simp: ec_call_eq split: option.splits res.splits)
  have "(''deleted'', ''0'') \<in> set (e_context e)" if "r = Err e" for e
    using that q(2) assms(1,3) zero
    by (cases q) (auto simp: ec_error_def fold_with_context with_context_def)
  with q(3) show ?thesis by blast
qed

section \<open>Properties\<close>

text \<open>
  C27: The layer passes on every outcome.  Each method of the accessor and of the objects it opens (all but
  \<open>presign\<close>, which the accessors here do not have) calls the inner one with the same arguments and leaves the same
  state; a value is passed on, an opened object wrapped; an error keeps its kind, status, message,
  source and context and names the operation.  There is one exception: an error of opening or reading a reader
  whose range \<open>Display\<close> rejects, one that is empty or exceeds \<open>u64\<close>, becomes a panic.
\<close>

theorem error_context_transparent:
  "ec_passes OpStat (\<lambda>_. True) id id (ac_stat acc path sargs) (ac_stat (error_context_layer acc) path sargs) \<and>
   ec_passes OpCreateDir (\<lambda>_. True) id id (ac_create_dir acc path) (ac_create_dir (error_context_layer acc) path) \<and>
   ec_passes OpRename (\<lambda>_. True) id id (ac_rename acc path to) (ac_rename (error_context_layer acc) path to) \<and>
   ec_passes OpRead (\<lambda>_. show_bytes_range (ord_range rargs) \<noteq> None) id (\<lambda>(rp, r). (rp, ec_inner r))
     (ac_read acc path rargs) (ac_read (error_context_layer acc) path rargs) \<and>
   ec_passes OpWrite (\<lambda>_. True) id ec_inner (ac_write acc path wargs) (ac_write (error_context_layer acc) path wargs) \<and>
   ec_passes OpDelete (\<lambda>_. True) id ec_inner (ac_delete acc) (ac_delete (error_context_layer acc)) \<and>
   ec_passes OpList (\<lambda>_. True) id ec_inner (ac_list acc path largs) (ac_list (error_context_layer acc) path largs) \<and>
   ec_passes OpCopy (\<lambda>_. True) id ec_inner (ac_copy acc path to cargs copts) (ac_copy (error_context_layer acc) path to cargs copts) \<and>
   {r. \<exists>s rp s'. ac_read (error_context_layer acc) path rargs s = Some (Ok (rp, r), s')} \<subseteq> {r. ec_range r = ord_range rargs} \<and>
   ec_passes OpRead (\<lambda>x. show_bytes_range (ec_range (fst x)) \<noteq> None) ec_get id (ac_reader_read acc)
     (ac_reader_read (error_context_layer acc)) \<and>
   ec_passes OpWrite (\<lambda>_. True) ec_get id (ac_writer_write acc bs) (ac_writer_write (error_context_layer acc) bs) \<and>
   ec_passes OpWrite (\<lambda>_. True) ec_get id (ac_writer_close acc) (ac_writer_close (error_context_layer acc)) \<and>
   ec_passes OpWrite (\<lambda>_. True) ec_get id (ac_writer_abort acc) (ac_writer_abort (error_context_layer acc)) \<and>
   ec_passes OpList (\<lambda>_. True) ec_get id (ac_lister_next acc) (ac_lister_next (error_context_layer acc)) \<and>
   ec_passes OpDelete (\<lambda>_. True) ec_get id (ac_deleter_delete acc path dargs)
     (ac_deleter_delete (error_context_layer acc) path dargs) \<and>
   ec_passes OpDelete (\<lambda>_. True) ec_get id (ac_deleter_close acc) (ac_deleter_close (error_context_layer acc)) \<and>
   ec_passes OpCopy (\<lambda>_. True) ec_get id (c_next (ac_copier acc)) (c_next (ac_copier (error_context_layer acc))) \<and>
   ec_passes OpCopy (\<lambda>_. True) ec_get id (c_close (ac_copier acc)) (c_close (ac_copier (error_context_layer acc))) \<and>
   ec_passes OpCopy (\<lambda>_. True) ec_get id (c_abort (ac_copier acc)) (c_abort (ac_copier (error_context_layer acc)))"
proof -
  have "ec_range r = ord_range rargs" if "ac_read (error_context_layer acc) path rargs s = Some (Ok (rp, r), s')" for s rp r s'
    using that by (cases "ac_read acc path rargs s")
      (auto simp: error_context_layer_def ec_read_def ec_map_err_def io_map_def Let_def ec_with_range_def elim!: map_res.elims)
  then have "{r. \<exists>s rp s'. ac_read (error_context_layer acc) path rargs s = Some (Ok (rp, r), s')} \<subseteq> {r. ec_range r = ord_range rargs}"
    by blast
  then show ?thesis
    unfolding error_context_layer_def accessor.simps ec_stat_def ec_create_dir_def ec_rename_def ec_read_def ec_write_def
      ec_delete_def ec_list_def ec_copy_def ec_reader_read_def ec_writer_write_def ec_writer_close_def ec_writer_abort_def
      ec_lister_next_def ec_deleter_delete_def ec_deleter_close_def ec_copier_def copy_ops.simps Let_def
    by (intro conjI ec_passes_map_err ec_passes_open ec_passes_call) (auto simp: ec_copied_def range_context_def)
qed

text \<open>
  A failing read of an empty range panics: to report the error, the layer formats the range,
  and \<open>Display\<close> of a range of size zero (as of one that exceeds \<open>u64\<close>) is an error, which
  \<open>to_string\<close> turns into a panic.  This holds when opening a reader and for every read of one.
\<close>

theorem failed_empty_range_panics:
  assumes "show_bytes_range rng = None"
  shows "(ord_range args = rng \<longrightarrow> ac_read acc path args s = Some (Err e, s') \<longrightarrow>
      ac_read (error_context_layer acc) path args s = Some (Panic, s')) \<and>
    (ec_range r = rng \<longrightarrow> ac_reader_read acc (ec_inner r, s) = Some (Err e, i, s') \<longrightarrow>
      ac_reader_read (error_context_layer acc) (r, s) = Some (Panic, r\<lparr>ec_inner := i\<rparr>, s'))"
  using assms
  by (auto simp: error_context_layer_def ec_read_def ec_map_err_def io_map_def ec_reader_read_def ec_call_eq
      range_context_def Let_def)

text \<open>
  The context \<open>deleted\<close> of a deleter's errors is always zero, however many paths were deleted
  before: no method of the deleter counts.
\<close>

theorem error_context_deleted_zero:
  assumes "ec_processed w = 0"
  shows "(\<forall>r w' s'. ec_deleter_delete inner path args (w, s) = Some (r, w', s') \<longrightarrow>
      ec_processed w' = 0 \<and> (\<forall>e. r = Err e \<longrightarrow> (''deleted'', ''0'') \<in> set (e_context e))) \<and>
    (\<forall>r w' s'. ec_deleter_close cl (w, s) = Some (r, w', s') \<longrightarrow>
      ec_processed w' = 0 \<and> (\<forall>e. r = Err e \<longrightarrow> (''deleted'', ''0'') \<in> set (e_context e)))"
proof -
  have del: "ec_processed w' = 0 \<and> (\<forall>e. r = Err e \<longrightarrow> (''deleted'', ''0'') \<in> set (e_context e))"
    if "ec_deleter_delete inner path args (w, s) = Some (r, w', s')" for r w' s'
    using ec_call_deleted[OF assms that[unfolded ec_deleter_delete_def],
        of "[(''service'', ec_scheme w), (''path'', path)]"] by simp
  have cl: "ec_processed w' = 0 \<and> (\<forall>e. r = Err e \<longrightarrow> (''deleted'', ''0'') \<in> set (e_context e))"
    if "ec_deleter_close cl (w, s) = Some (r, w', s')" for r w' s'
    using ec_call_deleted[OF assms that[unfolded ec_deleter_close_def], of "[(''service'', ec_scheme w)]"] by simp
  from del cl show ?thesis by blast
qed

text \<open>A deleter that always fails.\<close>

definition failing_delete :: "str \<Rightarrow> op_delete \<Rightarrow> (nat \<times> unit, unit) io" where
  "failing_delete path args x = Some (Err (error_new Unexpected ''no''), x)"

end
