(* ===== verification/Correctness_Check.thy ===== *)
theory Correctness_Check
  imports Accessor
begin

text \<open>
  \<open>CorrectnessCheckLayer\<close> of \<open>core/core/src/layers/correctness_check.rs\<close>: arguments that would
  change the meaning of a call are rejected unless the full capability of the service has them.
  The shared \<open>AccessorInfo\<close> is the one of the inner accessor when the layer is applied.
\<close>

section \<open>Definitions\<close>

definition new_unsupported_error :: "accessor_info \<Rightarrow> operation \<Rightarrow> str \<Rightarrow> error" where
  "new_unsupported_error info op args =
     (let op = operation_into_static op
      in with_operation op
           (error_new Unsupported
             (''The service '' @ ai_scheme info @ '' does not support the operation '' @ op @
              '' with the arguments '' @ args @
              ''. Please verify if the relevant flags have been enabled, or submit an issue if you believe this is incorrect.'')))"

definition correctness_read ::
  "('s, 'r, 'w, 'l, 'd, 'c) accessor \<Rightarrow> str \<Rightarrow> op_read \<Rightarrow> ('s, metadata option \<times> 'r) io" where
  "correctness_read acc path args =
     (let info = ac_info acc; cap = ai_full_capability info
      in if \<not> cap_read_with_version cap \<and> ord_version args \<noteq> None
         then io_err (new_unsupported_error info OpRead ''version'')
         else if \<not> cap_read_with_if_match cap \<and> ord_if_match args \<noteq> None
         then io_err (new_unsupported_error info OpRead ''if_match'')
         else if \<not> cap_read_with_if_none_match cap \<and> ord_if_none_match args \<noteq> None
         then io_err (new_unsupported_error info OpRead ''if_none_match'')
         else if \<not> cap_read_with_if_modified_since cap \<and> ord_if_modified_since args \<noteq> None
         then io_err (new_unsupported_error info OpRead ''if_modified_since'')
         else if \<not> cap_read_with_if_unmodified_since cap \<and> ord_if_unmodified_since args \<noteq> None
         then io_err (new_unsupported_error info OpRead ''if_unmodified_since'')
         else ac_read acc path args)"

definition correctness_write ::
  "('s, 'r, 'w, 'l, 'd, 'c) accessor \<Rightarrow> str \<Rightarrow> op_write \<Rightarrow> ('s, 'w) io" where
  "correctness_write acc path args =
     (let info = ac_info acc; cap = ai_full_capability info
      in if ow_append args \<and> \<not> cap_write_can_append cap
         then io_err (new_unsupported_error info OpWrite ''append'')
         else if ow_if_not_exists args \<and> \<not> cap_write_with_if_not_exists cap
         then io_err (new_unsupported_error info OpWrite ''if_not_exists'')
         else if ow_if_match args \<noteq> None \<and> \<not> cap_write_with_if_match cap
         then io_err (new_unsupported_error info OpWrite ''if_match'')
         else case ow_if_none_match args of
           Some if_none_match \<Rightarrow>
             (if \<not> cap_write_with_if_none_match cap
              then let err = new_unsupported_error info OpWrite ''if_none_match''
                   in io_err (if if_none_match = ''*'' \<and> cap_write_with_if_not_exists cap
                              then with_context ''hint'' ''use if_not_exists instead'' err else err)
              else ac_write acc path args)
         | None \<Rightarrow> ac_write acc path args)"

definition correctness_stat ::
  "('s, 'r, 'w, 'l, 'd, 'c) accessor \<Rightarrow> str \<Rightarrow> op_stat \<Rightarrow> ('s, metadata) io" where
  "correctness_stat acc path args =
     (let info = ac_info acc; cap = ai_full_capability info
      in if \<not> cap_stat_with_version cap \<and> os_version args \<noteq> None
         then io_err (new_unsupported_error info OpStat ''version'')
         else if \<not> cap_stat_with_if_match cap \<and> os_if_match args \<noteq> None
         then io_err (new_unsupported_error info OpStat ''if_match'')
         else if \<not> cap_stat_with_if_none_match cap \<and> os_if_none_match args \<noteq> None
         then io_err (new_unsupported_error info OpStat ''if_none_match'')
         else if \<not> cap_stat_with_if_modified_since cap \<and> os_if_modified_since args \<noteq> None
         then io_err (new_unsupported_error info OpStat ''if_modified_since'')
         else if \<not> cap_stat_with_if_unmodified_since cap \<and> os_if_unmodified_since args \<noteq> None
         then io_err (new_unsupported_error info OpStat ''if_unmodified_since'')
         else ac_stat acc path args)"

definition correctness_copy ::
  "('s, 'r, 'w, 'l, 'd, 'c) accessor \<Rightarrow> str \<Rightarrow> str \<Rightarrow> op_copy \<Rightarrow> op_copier \<Rightarrow> ('s, 'c) io" where
  "correctness_copy acc from to args opts =
     (let info = ac_info acc; cap = ai_full_capability info
      in if oc_if_not_exists args \<and> \<not> cap_copy_with_if_not_exists cap
         then io_err (new_unsupported_error info OpCopy ''if_not_exists'')
         else if oc_if_match args \<noteq> None \<and> \<not> cap_copy_with_if_match cap
         then io_err (new_unsupported_error info OpCopy ''if_match'')
         else ac_copy acc from to args opts)"

definition check_delete :: "accessor_info \<Rightarrow> op_delete \<Rightarrow> unit res" where
  "check_delete info args =
     (if od_version args \<noteq> None \<and> \<not> cap_delete_with_version (ai_full_capability info)
      then Err (new_unsupported_error info OpDelete ''version'')
      else if od_recursive args \<and> \<not> cap_delete_with_recursive (ai_full_capability info)
      then Err (new_unsupported_error info OpDelete ''recursive'')
      else Ok ())"

definition check_wrapper_delete ::
  "('s, 'r, 'w, 'l, 'd, 'c) accessor \<Rightarrow> str \<Rightarrow> op_delete \<Rightarrow> ('d \<times> 's, unit) io" where
  "check_wrapper_delete acc path args =
     io_bind (io_res (check_delete (ac_info acc) args)) (\<lambda>_. ac_deleter_delete acc path args)"

definition correctness_layer ::
  "('s, 'r, 'w, 'l, 'd, 'c) accessor \<Rightarrow> ('s, 'r, 'w, 'l, 'd, 'c) accessor" where
  "correctness_layer acc =
     acc\<lparr>ac_read := correctness_read acc, ac_write := correctness_write acc, ac_stat := correctness_stat acc,
         ac_copy := correctness_copy acc, ac_deleter_delete := check_wrapper_delete acc\<rparr>"

section \<open>Specification\<close>

text \<open>
  What a call asks of a service: the operation and every argument for which \<open>Capability\<close>
  (\<open>types/capability.rs\<close>) has a flag, with whether the call uses it and whether the service has it.
  Versions, conditions, \<open>append\<close> and \<open>recursive\<close> of a deletion decide what a call does to the data, headers and
  metadata what comes with it.
\<close>

datatype request = AskOperation | AskVersion | AskCondition | AskAppend | AskRecursive | AskHeader | AskUserMetadata

definition asks_read :: "capability \<Rightarrow> op_read \<Rightarrow> (request \<times> bool \<times> bool) list" where
  "asks_read cap args =
     [(AskOperation, True, cap_read cap),
      (AskVersion, ord_version args \<noteq> None, cap_read_with_version cap),
      (AskCondition, ord_if_match args \<noteq> None, cap_read_with_if_match cap),
      (AskCondition, ord_if_none_match args \<noteq> None, cap_read_with_if_none_match cap),
      (AskCondition, ord_if_modified_since args \<noteq> None, cap_read_with_if_modified_since cap),
      (AskCondition, ord_if_unmodified_since args \<noteq> None, cap_read_with_if_unmodified_since cap),
      (AskHeader, ord_override_cache_control args \<noteq> None, cap_read_with_override_cache_control cap),
      (AskHeader, ord_override_content_disposition args \<noteq> None, cap_read_with_override_content_disposition cap),
      (AskHeader, ord_override_content_type args \<noteq> None, cap_read_with_override_content_type cap)]"

definition asks_write :: "capability \<Rightarrow> op_write \<Rightarrow> (request \<times> bool \<times> bool) list" where
  "asks_write cap args =
     [(AskOperation, True, cap_write cap),
      (AskAppend, ow_append args, cap_write_can_append cap),
      (AskHeader, ow_content_type args \<noteq> None, cap_write_with_content_type cap),
      (AskHeader, ow_content_disposition args \<noteq> None, cap_write_with_content_disposition cap),
      (AskHeader, ow_content_encoding args \<noteq> None, cap_write_with_content_encoding cap),
      (AskHeader, ow_cache_control args \<noteq> None, cap_write_with_cache_control cap),
      (AskCondition, ow_if_not_exists args, cap_write_with_if_not_exists cap),
      (AskCondition, ow_if_match args \<noteq> None, cap_write_with_if_match cap),
      (AskCondition, ow_if_none_match args \<noteq> None, cap_write_with_if_none_match cap),
      (AskUserMetadata, ow_user_metadata args \<noteq> None, cap_write_with_user_metadata cap)]"

definition asks_stat :: "capability \<Rightarrow> op_stat \<Rightarrow> (request \<times> bool \<times> bool) list" where
  "asks_stat cap args =
     [(AskOperation, True, cap_stat cap),
      (AskVersion, os_version args \<noteq> None, cap_stat_with_version cap),
      (AskCondition, os_if_match args \<noteq> None, cap_stat_with_if_match cap),
      (AskCondition, os_if_none_match args \<noteq> None, cap_stat_with_if_none_match cap),
      (AskCondition, os_if_modified_since args \<noteq> None, cap_stat_with_if_modified_since cap),
      (AskCondition, os_if_unmodified_since args \<noteq> None, cap_stat_with_if_unmodified_since cap),
      (AskHeader, os_override_cache_control args \<noteq> None, cap_stat_with_override_cache_control cap),
      (AskHeader, os_override_content_disposition args \<noteq> None, cap_stat_with_override_content_disposition cap),
      (AskHeader, os_override_content_type args \<noteq> None, cap_stat_with_override_content_type cap)]"

definition asks_copy :: "capability \<Rightarrow> op_copy \<Rightarrow> (request \<times> bool \<times> bool) list" where
  "asks_copy cap args =
     [(AskOperation, True, cap_copy cap),
      (AskCondition, oc_if_not_exists args, cap_copy_with_if_not_exists cap),
      (AskCondition, oc_if_match args \<noteq> None, cap_copy_with_if_match cap)]"

definition asks_delete :: "capability \<Rightarrow> op_delete \<Rightarrow> (request \<times> bool \<times> bool) list" where
  "asks_delete cap args =
     [(AskOperation, True, cap_delete cap),
      (AskVersion, od_version args \<noteq> None, cap_delete_with_version cap),
      (AskRecursive, od_recursive args, cap_delete_with_recursive cap)]"

text \<open>The critical arguments.\<close>

definition critical :: "request \<Rightarrow> bool" where
  "critical q \<longleftrightarrow> q \<in> {AskVersion, AskCondition, AskAppend, AskRecursive}"

definition critical_needs :: "(request \<times> bool \<times> bool) list \<Rightarrow> (bool \<times> bool) list" where
  "critical_needs asks = map snd (filter (\<lambda>(q, _). critical q) asks)"

definition read_needs :: "capability \<Rightarrow> op_read \<Rightarrow> (bool \<times> bool) list" where
  "read_needs cap args = critical_needs (asks_read cap args)"

definition write_needs :: "capability \<Rightarrow> op_write \<Rightarrow> (bool \<times> bool) list" where
  "write_needs cap args = critical_needs (asks_write cap args)"

definition stat_needs :: "capability \<Rightarrow> op_stat \<Rightarrow> (bool \<times> bool) list" where
  "stat_needs cap args = critical_needs (asks_stat cap args)"

definition copy_needs :: "capability \<Rightarrow> op_copy \<Rightarrow> (bool \<times> bool) list" where
  "copy_needs cap args = critical_needs (asks_copy cap args)"

definition delete_needs :: "capability \<Rightarrow> op_delete \<Rightarrow> (bool \<times> bool) list" where
  "delete_needs cap args = critical_needs (asks_delete cap args)"

lemmas needs_defs = critical_needs_def critical_def

lemma read_needs_list:
  "read_needs cap args =
     [(ord_version args \<noteq> None, cap_read_with_version cap),
      (ord_if_match args \<noteq> None, cap_read_with_if_match cap),
      (ord_if_none_match args \<noteq> None, cap_read_with_if_none_match cap),
      (ord_if_modified_since args \<noteq> None, cap_read_with_if_modified_since cap),
      (ord_if_unmodified_since args \<noteq> None, cap_read_with_if_unmodified_since cap)]"
  by (simp add: read_needs_def asks_read_def needs_defs)

lemma write_needs_list:
  "write_needs cap args =
     [(ow_append args, cap_write_can_append cap),
      (ow_if_not_exists args, cap_write_with_if_not_exists cap),
      (ow_if_match args \<noteq> None, cap_write_with_if_match cap),
      (ow_if_none_match args \<noteq> None, cap_write_with_if_none_match cap)]"
  by (simp add: write_needs_def asks_write_def needs_defs)

lemma stat_needs_list:
  "stat_needs cap args =
     [(os_version args \<noteq> None, cap_stat_with_version cap),
      (os_if_match args \<noteq> None, cap_stat_with_if_match cap),
      (os_if_none_match args \<noteq> None, cap_stat_with_if_none_match cap),
      (os_if_modified_since args \<noteq> None, cap_stat_with_if_modified_since cap),
      (os_if_unmodified_since args \<noteq> None, cap_stat_with_if_unmodified_since cap)]"
  by (simp add: stat_needs_def asks_stat_def needs_defs)

lemma copy_needs_list:
  "copy_needs cap args =
     [(oc_if_not_exists args, cap_copy_with_if_not_exists cap), (oc_if_match args \<noteq> None, cap_copy_with_if_match cap)]"
  by (simp add: copy_needs_def asks_copy_def needs_defs)

lemma delete_needs_list:
  "delete_needs cap args =
     [(od_version args \<noteq> None, cap_delete_with_version cap), (od_recursive args, cap_delete_with_recursive cap)]"
  by (simp add: delete_needs_def asks_delete_def needs_defs)

definition supported :: "(bool \<times> bool) list \<Rightarrow> bool" where
  "supported needs = list_all (\<lambda>(used, has). used \<longrightarrow> has) needs"

text \<open>A call that reaches the service exactly if it is supported, and else changes nothing.\<close>

definition guarded :: "bool \<Rightarrow> ('s, 'a) io \<Rightarrow> ('s, 'a) io \<Rightarrow> bool" where
  "guarded ok inner m \<longleftrightarrow>
     (\<forall>s. if ok then m s = inner s
          else \<exists>e. m s = Some (Err e, s) \<and> e_kind e = Unsupported \<and> \<not> is_temporary e)"

lemma unsupported_error_simps [simp]:
  "e_kind (new_unsupported_error info op args) = Unsupported"
  "\<not> is_temporary (new_unsupported_error info op args)"
  by (simp_all add: new_unsupported_error_def Let_def)

lemma guarded_self: "ok \<Longrightarrow> guarded ok m m"
  by (simp add: guarded_def)

lemma guarded_err: "\<not> ok \<Longrightarrow> e_kind e = Unsupported \<Longrightarrow> \<not> is_temporary e \<Longrightarrow> guarded ok m (io_err e)"
  by (simp add: guarded_def io_err_def)

section \<open>Readers and writers\<close>

lemma correctness_writer_ops [simp]: "writer_ops (correctness_layer acc) = writer_ops acc"
  by (simp add: writer_ops_def correctness_layer_def)

lemma correctness_read_supported:
  "supported (read_needs (ai_full_capability (ac_info acc)) args) \<Longrightarrow> correctness_read acc path args = ac_read acc path args"
  by (auto simp: correctness_read_def read_needs_list supported_def Let_def)

lemma correctness_read_unsupported:
  "\<not> supported (read_needs (ai_full_capability (ac_info acc)) args) \<Longrightarrow> \<exists>e. correctness_read acc path args = io_err e"
  unfolding correctness_read_def read_needs_list supported_def Let_def
  by (simp del: not_None_eq split: if_split) blast?

lemma correctness_stat_supported:
  "supported (stat_needs (ai_full_capability (ac_info acc)) args) \<Longrightarrow> correctness_stat acc path args = ac_stat acc path args"
  by (auto simp: correctness_stat_def stat_needs_list supported_def Let_def)

lemma correctness_stat_unsupported:
  "\<not> supported (stat_needs (ai_full_capability (ac_info acc)) args) \<Longrightarrow> \<exists>e. correctness_stat acc path args = io_err e"
  unfolding correctness_stat_def stat_needs_list supported_def Let_def
  by (simp del: not_None_eq split: if_split) blast?

text \<open>The opens that pass, with the \<open>stat\<close> of the reader.\<close>

definition correctness_good :: "capability \<Rightarrow> (op_read \<Rightarrow> bool) \<Rightarrow> op_read \<Rightarrow> bool" where
  "correctness_good cap good args \<longleftrightarrow>
     good args \<and> supported (read_needs cap args) \<and> supported (stat_needs cap (reader_stat_op args))"

lemma correctness_reliable_reader:
  assumes "reliable_reader (reader_ops acc) path content sinv rinv rest good rgood"
  shows "reliable_reader (reader_ops (correctness_layer acc)) path content sinv rinv rest
    (correctness_good (ai_full_capability (ac_info acc)) good) rgood"
proof -
  let ?cap = "ai_full_capability (ac_info acc)"
  have op: "rop_open (reader_ops (correctness_layer acc)) path args s = rop_open (reader_ops acc) path args s"
    if "supported (read_needs ?cap args)" for args s
    using that by (simp add: reader_ops_def correctness_layer_def correctness_read_supported)
  have op_err: "\<exists>e. rop_open (reader_ops (correctness_layer acc)) path args s = (Err e, s)"
    if "\<not> supported (read_needs ?cap args)" for args s
    using correctness_read_unsupported[OF that, of path]
    by (auto simp: reader_ops_def correctness_layer_def io_err_def io_total_def)
  have st: "rop_stat (reader_ops (correctness_layer acc)) path args s = rop_stat (reader_ops acc) path args s"
    if "supported (stat_needs ?cap args)" for args s
    using that by (simp add: reader_ops_def correctness_layer_def correctness_stat_supported)
  have st_err: "\<exists>e. rop_stat (reader_ops (correctness_layer acc)) path args s = (Err e, s)"
    if "\<not> supported (stat_needs ?cap args)" for args s
    using correctness_stat_unsupported[OF that, of path]
    by (auto simp: reader_ops_def correctness_layer_def io_err_def io_total_def)
  have rd: "rop_read (reader_ops (correctness_layer acc)) = rop_read (reader_ops acc)"
    by (simp add: reader_ops_def correctness_layer_def)
  have "object_reader (reader_ops (correctness_layer acc)) path content sinv rinv rest"
  proof (rule object_reader_wrap[OF reliable_reader.axioms(1)[OF assms], where get = "\<lambda>r. r"])
    fix args s rp r s'
    assume "rop_open (reader_ops (correctness_layer acc)) path args s = (Ok (rp, r), s')"
    then show "rop_open (reader_ops acc) path args s = (Ok (rp, r), s')"
      using op[of args s] op_err[of args s] by (cases "supported (read_needs ?cap args)") auto
  next
    fix args s m s'
    assume "rop_stat (reader_ops (correctness_layer acc)) path args s = (Ok m, s')"
    then show "rop_stat (reader_ops acc) path args s = (Ok m, s')"
      using st[of args s] st_err[of args s] by (cases "supported (stat_needs ?cap args)") auto
  qed (simp add: rd)
  then show ?thesis
    by (rule reliable_reader.intro, unfold_locales)
      (use assms[THEN reliable_reader.open_total] assms[THEN reliable_reader.read_total]
        assms[THEN reliable_reader.stat_total] in \<open>simp_all add: op st rd correctness_good_def\<close>)
qed

section \<open>Properties\<close>

text \<open>
  C28: What \<open>CorrectnessCheckLayer\<close> checks.  Of everything a call asks of the service, the layer checks exactly
  the versions, the conditions, \<open>append\<close> and \<open>recursive\<close> of a deletion: a read, write, stat, copy or deletion reaches
  the service, unchanged, exactly when the full capability has all of these that it uses; otherwise the
  service is not touched and the call fails with a permanent \<open>Unsupported\<close> error.  Whether the operation itself, its
  headers or its user metadata are supported is not checked, nor is anything of \<open>list\<close>, \<open>create_dir\<close>, \<open>rename\<close>
  and of opening a deleter, which reach the service always.
\<close>

theorem correctness_check_guards:
  "guarded (supported (read_needs (ai_full_capability (ac_info acc)) rargs)) (ac_read acc path rargs)
     (ac_read (correctness_layer acc) path rargs) \<and>
   guarded (supported (write_needs (ai_full_capability (ac_info acc)) wargs)) (ac_write acc path wargs)
     (ac_write (correctness_layer acc) path wargs) \<and>
   guarded (supported (stat_needs (ai_full_capability (ac_info acc)) sargs)) (ac_stat acc path sargs)
     (ac_stat (correctness_layer acc) path sargs) \<and>
   guarded (supported (copy_needs (ai_full_capability (ac_info acc)) cargs)) (ac_copy acc path to cargs opts)
     (ac_copy (correctness_layer acc) path to cargs opts) \<and>
   guarded (supported (delete_needs (ai_full_capability (ac_info acc)) dargs)) (ac_deleter_delete acc path dargs)
     (ac_deleter_delete (correctness_layer acc) path dargs) \<and>
   guarded True (ac_list acc path largs) (ac_list (correctness_layer acc) path largs) \<and>
   guarded True (ac_create_dir acc path) (ac_create_dir (correctness_layer acc) path) \<and>
   guarded True (ac_rename acc path to) (ac_rename (correctness_layer acc) path to) \<and>
   guarded True (ac_delete acc) (ac_delete (correctness_layer acc))"
proof (intro conjI)
  show "guarded (supported (read_needs (ai_full_capability (ac_info acc)) rargs)) (ac_read acc path rargs)
     (ac_read (correctness_layer acc) path rargs)"
    by (simp add: correctness_layer_def correctness_read_def read_needs_list supported_def guarded_self guarded_err Let_def)
  show "guarded (supported (write_needs (ai_full_capability (ac_info acc)) wargs)) (ac_write acc path wargs)
     (ac_write (correctness_layer acc) path wargs)"
    by (cases "ow_if_none_match wargs")
      (simp_all add: correctness_layer_def correctness_write_def write_needs_list supported_def guarded_self guarded_err Let_def)
  show "guarded (supported (stat_needs (ai_full_capability (ac_info acc)) sargs)) (ac_stat acc path sargs)
     (ac_stat (correctness_layer acc) path sargs)"
    by (simp add: correctness_layer_def correctness_stat_def stat_needs_list supported_def guarded_self guarded_err Let_def)
  show "guarded (supported (copy_needs (ai_full_capability (ac_info acc)) cargs)) (ac_copy acc path to cargs opts)
     (ac_copy (correctness_layer acc) path to cargs opts)"
    by (simp add: correctness_layer_def correctness_copy_def copy_needs_list supported_def guarded_self guarded_err Let_def)
  show "guarded (supported (delete_needs (ai_full_capability (ac_info acc)) dargs)) (ac_deleter_delete acc path dargs)
     (ac_deleter_delete (correctness_layer acc) path dargs)"
    by (auto simp: correctness_layer_def check_wrapper_delete_def check_delete_def delete_needs_list supported_def
        guarded_def io_defs)
qed (simp_all add: correctness_layer_def guarded_self)

end
