(* ===== verification/Flat_Lister.thy ===== *)
theory Flat_Lister
  imports Accessor
begin

text \<open>
  \<open>FlatLister\<close> of \<open>core/core/src/raw/oio/list/flat_list.rs\<close>: a recursive listing over an accessor
  that only lists directories.

  The vector \<open>active_lister\<close> is a list whose head is its last element.  Where the code falls
  through from the opened directory to the active listers, the model goes round the loop once more
  without a directory to open, which does nothing else.  The arms of the code for an
  active lister whose directory was taken are unreachable: such a lister is popped before it is asked.
  Locale \<open>dir_lister\<close> is the contract of the inner accessor.
\<close>

section \<open>Definitions\<close>

record 'l flat_lister =
  fl_next_dir :: "oio_entry option"
  fl_active :: "(oio_entry option \<times> 'l) list"

definition flat_new :: "str \<Rightarrow> 'l flat_lister" where
  "flat_new path = \<lparr>fl_next_dir = Some (oio_entry_new path (metadata_new DIR)), fl_active = []\<rparr>"

text \<open>The inner loop: the first entry of a lister, skipping entries that are gone.\<close>

partial_function (option) flat_first ::
  "('l \<times> 's, oio_entry option) io \<Rightarrow> 'l \<Rightarrow> 's \<Rightarrow> (oio_entry option res \<times> 'l \<times> 's) option" where
  "flat_first nxt l s =
     (case nxt (l, s) of
        None \<Rightarrow> None
      | Some (Err e, l1, s1) \<Rightarrow>
          (if e_kind e = NotFound then flat_first nxt l1 s1 else Some (Err e, l1, s1))
      | Some (Ok v, l1, s1) \<Rightarrow> Some (Ok v, l1, s1)
      | Some (Panic, l1, s1) \<Rightarrow> Some (Panic, l1, s1))"

text \<open>
  One round of the loop: it either continues (\<open>None\<close>) or returns a result.
\<close>

definition flat_step ::
  "(str \<Rightarrow> op_list \<Rightarrow> ('s, 'l) io) \<Rightarrow> ('l \<times> 's, oio_entry option) io \<Rightarrow> 'l flat_lister \<Rightarrow> 's \<Rightarrow>
     (oio_entry option res option \<times> 'l flat_lister \<times> 's) option" where
  "flat_step list nxt st s =
     (case fl_next_dir st of
        Some de \<Rightarrow>
          (let st1 = st\<lparr>fl_next_dir := None\<rparr>
           in case list (oe_path de) op_list_default s of
                None \<Rightarrow> None
              | Some (Ok l, s1) \<Rightarrow>
                  (case flat_first nxt l s1 of
                     None \<Rightarrow> None
                   | Some (Ok (Some v), l1, s2) \<Rightarrow>
                       (let st2 = st1\<lparr>fl_active := (Some de, l1) # fl_active st1\<rparr>
                        in if oio_entry_mode v = DIR
                           then (if oe_path v \<noteq> oe_path de
                                 then Some (None, st2\<lparr>fl_next_dir := Some v\<rparr>, s2)
                                 else Some (None, st2, s2))
                           else Some (Some (Ok (Some v)), st2, s2))
                   | Some (Ok None, l1, s2) \<Rightarrow> Some (None, st1, s2)
                   | Some (Err e, l1, s2) \<Rightarrow> Some (Some (Err e), st1, s2)
                   | Some (Panic, l1, s2) \<Rightarrow> Some (Some Panic, st1, s2))
              | Some (Err e, s1) \<Rightarrow>
                  (if e_kind e = PermissionDenied \<or> e_kind e = NotFound then Some (None, st1, s1)
                   else Some (Some (Err e), st1, s1))
              | Some (Panic, s1) \<Rightarrow> Some (Some Panic, st1, s1))
      | None \<Rightarrow>
          (case fl_active st of
             [] \<Rightarrow> Some (Some (Ok None), st, s)
           | (None, l) # rest \<Rightarrow> Some (None, st\<lparr>fl_active := rest\<rparr>, s)
           | (Some de, l) # rest \<Rightarrow>
               (case nxt (l, s) of
                  None \<Rightarrow> None
                | Some (Err e, l1, s1) \<Rightarrow>
                    (let st1 = st\<lparr>fl_active := (Some de, l1) # rest\<rparr>
                     in Some (if e_kind e = NotFound then None else Some (Err e), st1, s1))
                | Some (Ok (Some v), l1, s1) \<Rightarrow>
                    (let st1 = st\<lparr>fl_active := (Some de, l1) # rest\<rparr>
                     in if oio_entry_mode v = DIR
                        then (if oe_path v \<noteq> oe_path de
                              then Some (None, st1\<lparr>fl_next_dir := Some v\<rparr>, s1)
                              else Some (None, st1, s1))
                        else Some (Some (Ok (Some v)), st1, s1))
                | Some (Ok None, l1, s1) \<Rightarrow>
                    Some (Some (Ok (Some de)), st\<lparr>fl_active := (None, l1) # rest\<rparr>, s1)
                | Some (Panic, l1, s1) \<Rightarrow>
                    Some (Some Panic, st\<lparr>fl_active := (Some de, l1) # rest\<rparr>, s1))))"

partial_function (option) flat_loop ::
  "(str \<Rightarrow> op_list \<Rightarrow> ('s, 'l) io) \<Rightarrow> ('l \<times> 's, oio_entry option) io \<Rightarrow> 'l flat_lister \<Rightarrow> 's \<Rightarrow>
     (oio_entry option res \<times> 'l flat_lister \<times> 's) option" where
  "flat_loop list nxt st s =
     (case flat_step list nxt st s of
        None \<Rightarrow> None
      | Some (None, st1, s1) \<Rightarrow> flat_loop list nxt st1 s1
      | Some (Some r, st1, s1) \<Rightarrow> Some (r, st1, s1))"

definition flat_next ::
  "(str \<Rightarrow> op_list \<Rightarrow> ('s, 'l) io) \<Rightarrow> ('l \<times> 's, oio_entry option) io \<Rightarrow>
     ('l flat_lister \<times> 's, oio_entry option) io" where
  "flat_next list nxt = (\<lambda>(st, s). flat_loop list nxt st s)"

section \<open>Walks\<close>

text \<open>
  The walk of a directory whose direct entries are \<open>kids\<close>: the walks of its sub-directories and its
  files, in the order of the listing, then the directory itself; a directory with an empty listing is
  skipped.  \<open>flat_cost\<close> bounds the rounds of the loop.  Both recurse to the depth \<open>n\<close>.
\<close>

definition sub_dir :: "oio_entry \<Rightarrow> oio_entry \<Rightarrow> bool" where
  "sub_dir d v \<longleftrightarrow> oio_entry_mode v = DIR \<and> oe_path v \<noteq> oe_path d"

definition flat_child :: "(oio_entry \<Rightarrow> oio_entry list) \<Rightarrow> oio_entry \<Rightarrow> oio_entry \<Rightarrow> oio_entry list" where
  "flat_child walk d v = (if sub_dir d v then walk v else if oio_entry_mode v = DIR then [] else [v])"

fun flat_walk :: "(str \<Rightarrow> oio_entry list) \<Rightarrow> nat \<Rightarrow> oio_entry \<Rightarrow> oio_entry list" where
  "flat_walk kids 0 d = []"
| "flat_walk kids (Suc n) d =
     (if kids (oe_path d) = [] then []
      else concat (map (flat_child (flat_walk kids n) d) (kids (oe_path d))) @ [d])"

fun flat_cost :: "(str \<Rightarrow> oio_entry list) \<Rightarrow> nat \<Rightarrow> oio_entry \<Rightarrow> nat" where
  "flat_cost kids 0 d = 0"
| "flat_cost kids (Suc n) d =
     3 + sum_list (map (\<lambda>v. 1 + (if sub_dir d v then flat_cost kids n v else 0)) (kids (oe_path d)))"

section \<open>The contract of the accessor\<close>

text \<open>
  Listing a directory of \<open>dirs\<close> yields its direct entries \<open>kids\<close>, or fails because it is gone or
  must not be read (then \<open>kids\<close> has nothing to offer); directories lie strictly above their
  sub-directories in the order of \<open>ht\<close>.
\<close>

locale dir_lister =
  fixes list :: "str \<Rightarrow> op_list \<Rightarrow> ('s, 'l) io"
    and nxt :: "('l \<times> 's, oio_entry option) io"
    and sinv :: "'s \<Rightarrow> bool" and linv :: "'l \<Rightarrow> bool"
    and contents :: "'l \<Rightarrow> oio_entry list" and kids :: "str \<Rightarrow> oio_entry list"
    and dirs :: "str \<Rightarrow> bool" and ht :: "str \<Rightarrow> nat"
  assumes list_ok: "sinv s \<Longrightarrow> dirs p \<Longrightarrow>
      (\<exists>l s'. list p op_list_default s = Some (Ok l, s') \<and> sinv s' \<and> linv l \<and> contents l = kids p) \<or>
      (\<exists>e s'. list p op_list_default s = Some (Err e, s') \<and> (e_kind e = PermissionDenied \<or> e_kind e = NotFound) \<and>
         sinv s' \<and> kids p = [])"
    and next_Cons: "sinv s \<Longrightarrow> linv l \<Longrightarrow> contents l = e # es \<Longrightarrow>
      \<exists>l' s'. nxt (l, s) = Some (Ok (Some e), l', s') \<and> sinv s' \<and> linv l' \<and> contents l' = es"
    and next_Nil: "sinv s \<Longrightarrow> linv l \<Longrightarrow> contents l = [] \<Longrightarrow>
      \<exists>l' s'. nxt (l, s) = Some (Ok None, l', s') \<and> sinv s' \<and> linv l' \<and> contents l' = []"
    and kids_dirs: "dirs p \<Longrightarrow> v \<in> set (kids p) \<Longrightarrow> oio_entry_mode v = DIR \<Longrightarrow> dirs (oe_path v)"
    and kids_ht: "dirs p \<Longrightarrow> v \<in> set (kids p) \<Longrightarrow> oio_entry_mode v = DIR \<Longrightarrow> oe_path v \<noteq> p \<Longrightarrow>
      ht (oe_path v) < ht p"
begin

lemma entry_lister: "finite_lister nxt (\<lambda>(l, s). contents l) (\<lambda>(l, s). sinv s \<and> linv l)"
proof
  show "\<exists>y. nxt x = Some (Ok (Some e), y) \<and> (case y of (l, s) \<Rightarrow> sinv s \<and> linv l) \<and> (case y of (l, s) \<Rightarrow> contents l) = es"
    if "case x of (l, s) \<Rightarrow> sinv s \<and> linv l" "(case x of (l, s) \<Rightarrow> contents l) = e # es" for x e es
    using next_Cons[of "snd x" "fst x" e es] that by (auto simp: split_def)
  show "\<exists>y. nxt x = Some (Ok None, y) \<and> (case y of (l, s) \<Rightarrow> sinv s \<and> linv l) \<and> (case y of (l, s) \<Rightarrow> contents l) = []"
    if "case x of (l, s) \<Rightarrow> sinv s \<and> linv l" "(case x of (l, s) \<Rightarrow> contents l) = []" for x
    using next_Nil[of "snd x" "fst x"] that by (auto simp: split_def)
qed

lemma walk_stable:
  "dirs (oe_path d) \<Longrightarrow> ht (oe_path d) < n \<Longrightarrow> ht (oe_path d) < m \<Longrightarrow>
   flat_walk kids n d = flat_walk kids m d \<and> flat_cost kids n d = flat_cost kids m d"
proof (induction n arbitrary: d m)
  case (Suc n)
  then obtain k where k: "m = Suc k" by (cases m) auto
  have IH: "flat_walk kids n v = flat_walk kids k v \<and> flat_cost kids n v = flat_cost kids k v"
    if "v \<in> set (kids (oe_path d))" "sub_dir d v" for v
    using Suc.IH[of v k] kids_dirs[OF Suc.prems(1) that(1)] kids_ht[OF Suc.prems(1) that(1)] Suc.prems(2,3) that(2) k
    by (simp add: sub_dir_def)
  have "map (flat_child (flat_walk kids n) d) (kids (oe_path d)) = map (flat_child (flat_walk kids k) d) (kids (oe_path d))"
    using IH by (auto simp: flat_child_def)
  moreover have "map (\<lambda>v. 1 + (if sub_dir d v then flat_cost kids n v else 0)) (kids (oe_path d)) =
      map (\<lambda>v. 1 + (if sub_dir d v then flat_cost kids k v else 0)) (kids (oe_path d))"
    using IH by auto
  ultimately show ?case unfolding k by (simp only: flat_walk.simps flat_cost.simps)
qed simp

definition walk :: "oio_entry \<Rightarrow> oio_entry list" where
  "walk d = flat_walk kids (Suc (ht (oe_path d))) d"

definition cost :: "oio_entry \<Rightarrow> nat" where
  "cost d = flat_cost kids (Suc (ht (oe_path d))) d"

definition item_cost :: "oio_entry \<Rightarrow> oio_entry \<Rightarrow> nat" where
  "item_cost d v = 1 + (if sub_dir d v then cost v else 0)"

lemma walk_eq:
  assumes "dirs (oe_path d)"
  shows "walk d = (if kids (oe_path d) = [] then []
      else concat (map (flat_child walk d) (kids (oe_path d))) @ [d])"
    "cost d = 3 + sum_list (map (item_cost d) (kids (oe_path d)))"
proof -
  have IH: "flat_walk kids (ht (oe_path d)) v = walk v \<and> flat_cost kids (ht (oe_path d)) v = cost v"
    if "v \<in> set (kids (oe_path d))" "sub_dir d v" for v
    using walk_stable[of v "ht (oe_path d)" "Suc (ht (oe_path v))"] kids_dirs[OF assms that(1)]
      kids_ht[OF assms that(1)] that(2) by (simp add: walk_def cost_def sub_dir_def)
  have "map (flat_child (flat_walk kids (ht (oe_path d))) d) (kids (oe_path d)) = map (flat_child walk d) (kids (oe_path d))"
    using IH by (auto simp: flat_child_def)
  then show "walk d = (if kids (oe_path d) = [] then []
      else concat (map (flat_child walk d) (kids (oe_path d))) @ [d])"
    by (simp only: walk_def[of d] flat_walk.simps)
  have "map (\<lambda>v. 1 + (if sub_dir d v then flat_cost kids (ht (oe_path d)) v else 0)) (kids (oe_path d)) =
      map (item_cost d) (kids (oe_path d))"
    using IH by (auto simp: item_cost_def)
  then show "cost d = 3 + sum_list (map (item_cost d) (kids (oe_path d)))"
    by (simp only: cost_def[of d] flat_cost.simps)
qed

lemma flat_first_ok:
  assumes "sinv s" "linv l"
  shows "\<exists>l' s'. flat_first nxt l s =
      Some (Ok (case contents l of [] \<Rightarrow> None | e # es \<Rightarrow> Some e), l', s') \<and> sinv s' \<and>
    (contents l \<noteq> [] \<longrightarrow> linv l' \<and> contents l' = tl (contents l))"
proof (cases "contents l")
  case Nil
  with next_Nil[OF assms] show ?thesis by (auto simp: flat_first.simps)
next
  case (Cons e es)
  from next_Cons[OF assms Cons] Cons show ?thesis by (auto simp: flat_first.simps)
qed

text \<open>The entries a state has left, and a bound on the rounds the loop needs for them.\<close>

fun frames_left :: "(oio_entry option \<times> 'l) list \<Rightarrow> oio_entry list" where
  "frames_left [] = []"
| "frames_left ((None, l) # fs) = frames_left fs"
| "frames_left ((Some d, l) # fs) = concat (map (flat_child walk d) (contents l)) @ d # frames_left fs"

fun frames_cost :: "(oio_entry option \<times> 'l) list \<Rightarrow> nat" where
  "frames_cost [] = 0"
| "frames_cost ((None, l) # fs) = 1 + frames_cost fs"
| "frames_cost ((Some d, l) # fs) = 2 + sum_list (map (item_cost d) (contents l)) + frames_cost fs"

fun frame_ok :: "oio_entry option \<times> 'l \<Rightarrow> bool" where
  "frame_ok (None, l) = True"
| "frame_ok (Some d, l) \<longleftrightarrow> linv l \<and> (\<forall>v\<in>set (contents l). oio_entry_mode v = DIR \<longrightarrow> dirs (oe_path v))"

definition flat_left :: "'l flat_lister \<times> 's \<Rightarrow> oio_entry list" where
  "flat_left = (\<lambda>(st, s). (case fl_next_dir st of None \<Rightarrow> [] | Some d \<Rightarrow> walk d) @ frames_left (fl_active st))"

definition state_cost :: "'l flat_lister \<times> 's \<Rightarrow> nat" where
  "state_cost = (\<lambda>(st, s). (case fl_next_dir st of None \<Rightarrow> 0 | Some d \<Rightarrow> cost d) + frames_cost (fl_active st))"

definition flat_ok :: "'l flat_lister \<times> 's \<Rightarrow> bool" where
  "flat_ok = (\<lambda>(st, s). sinv s \<and> (\<forall>d. fl_next_dir st = Some d \<longrightarrow> dirs (oe_path d)) \<and>
     (\<forall>f\<in>set (fl_active st). frame_ok f))"

text \<open>The outcome of a round, for a state with these entries left.\<close>

definition step_ok :: "oio_entry list \<Rightarrow> nat \<Rightarrow> (oio_entry option res option \<times> 'l flat_lister \<times> 's) option \<Rightarrow> bool" where
  "step_ok left c q \<longleftrightarrow>
     (\<exists>r x. q = Some (r, x) \<and> flat_ok x \<and>
        (case r of
           None \<Rightarrow> flat_left x = left \<and> state_cost x < c
         | Some (Ok None) \<Rightarrow> left = [] \<and> flat_left x = []
         | Some (Ok (Some e)) \<Rightarrow> left = e # flat_left x
         | _ \<Rightarrow> False))"

lemma flat_step_open:
  assumes "flat_ok (st, s)" "fl_next_dir st = Some d"
  shows "step_ok (flat_left (st, s)) (state_cost (st, s)) (flat_step list nxt st s)"
proof -
  from assms have s: "sinv s" and d: "dirs (oe_path d)" and fs: "\<forall>f\<in>set (fl_active st). frame_ok f"
    by (auto simp: flat_ok_def)
  show ?thesis
  proof (cases "\<exists>l s'. list (oe_path d) op_list_default s = Some (Ok l, s') \<and> sinv s' \<and> linv l \<and> contents l = kids (oe_path d)")
    case False
    with list_ok[OF s d] obtain e s' where e: "list (oe_path d) op_list_default s = Some (Err e, s')"
      "e_kind e = PermissionDenied \<or> e_kind e = NotFound" "sinv s'" "kids (oe_path d) = []" by blast
    with assms(2) fs walk_eq[OF d] show ?thesis
      by (auto simp: step_ok_def flat_step_def flat_ok_def flat_left_def state_cost_def Let_def)
  next
    case True
    then obtain l s1 where l: "list (oe_path d) op_list_default s = Some (Ok l, s1)" "sinv s1" "linv l"
      "contents l = kids (oe_path d)" by blast
    from flat_first_ok[OF l(2,3)] obtain l1 s2 where f: "flat_first nxt l s1 =
        Some (Ok (case contents l of [] \<Rightarrow> None | e # es \<Rightarrow> Some e), l1, s2)" "sinv s2"
      "contents l \<noteq> [] \<longrightarrow> linv l1 \<and> contents l1 = tl (contents l)" by blast
    show ?thesis
    proof (cases "kids (oe_path d)")
      case Nil
      with assms(2) fs l f walk_eq[OF d] show ?thesis
        by (auto simp: step_ok_def flat_step_def flat_ok_def flat_left_def state_cost_def Let_def)
    next
      case (Cons v vs)
      with l(4) f have f': "flat_first nxt l s1 = Some (Ok (Some v), l1, s2)" "linv l1" "contents l1 = vs" by simp_all
      have k: "\<forall>u\<in>set (v # vs). oio_entry_mode u = DIR \<longrightarrow> dirs (oe_path u)"
        using kids_dirs[OF d] Cons by simp
      from assms(2) fs l f' f(2) walk_eq[OF d] Cons k show ?thesis
        by (auto simp: step_ok_def flat_step_def flat_ok_def flat_left_def state_cost_def Let_def
            flat_child_def item_cost_def sub_dir_def)
    qed
  qed
qed

lemma flat_step_active:
  assumes "flat_ok (st, s)" "fl_next_dir st = None"
  shows "step_ok (flat_left (st, s)) (state_cost (st, s)) (flat_step list nxt st s)"
proof (cases "fl_active st")
  case Nil
  with assms show ?thesis by (auto simp: step_ok_def flat_step_def flat_left_def)
next
  case (Cons f rest)
  obtain o' l where f: "f = (o', l)" by force
  from assms have s: "sinv s" and fs: "\<forall>f\<in>set rest. frame_ok f" and fok: "frame_ok (o', l)"
    using Cons f by (auto simp: flat_ok_def)
  show ?thesis
  proof (cases o')
    case None
    with assms Cons f show ?thesis
      by (auto simp: step_ok_def flat_step_def flat_left_def state_cost_def flat_ok_def)
  next
    case (Some d)
    with fok have l: "linv l" and k: "\<forall>u\<in>set (contents l). oio_entry_mode u = DIR \<longrightarrow> dirs (oe_path u)" by auto
    show ?thesis
    proof (cases "contents l")
      case Nil
      from next_Nil[OF s l Nil] obtain l1 s1 where "nxt (l, s) = Some (Ok None, l1, s1)" "sinv s1" by blast
      with assms Cons f Some Nil fs show ?thesis
        by (auto simp: step_ok_def flat_step_def flat_left_def flat_ok_def)
    next
      case c: (Cons v vs)
      from next_Cons[OF s l c] obtain l1 s1 where
        "nxt (l, s) = Some (Ok (Some v), l1, s1)" "sinv s1" "linv l1" "contents l1 = vs" by blast
      with assms Cons f Some c fs k show ?thesis
        by (auto simp: step_ok_def flat_step_def flat_left_def flat_ok_def state_cost_def Let_def
            flat_child_def item_cost_def sub_dir_def)
    qed
  qed
qed

lemma flat_step_ok:
  "flat_ok (st, s) \<Longrightarrow> step_ok (flat_left (st, s)) (state_cost (st, s)) (flat_step list nxt st s)"
  using flat_step_open flat_step_active by (cases "fl_next_dir st") auto

lemma flat_next_ok:
  "flat_ok x \<Longrightarrow> \<exists>y. flat_next list nxt x =
     Some (Ok (case flat_left x of [] \<Rightarrow> None | e # es \<Rightarrow> Some e), y) \<and> flat_ok y \<and> flat_left y = tl (flat_left x)"
proof (induction "state_cost x" arbitrary: x rule: less_induct)
  case less
  obtain st s where x: "x = (st, s)" by force
  from flat_step_ok less.prems x obtain r y where y: "flat_step list nxt st s = Some (r, y)" "flat_ok y"
    and r: "case r of
           None \<Rightarrow> flat_left y = flat_left x \<and> state_cost y < state_cost x
         | Some (Ok None) \<Rightarrow> flat_left x = [] \<and> flat_left y = []
         | Some (Ok (Some e)) \<Rightarrow> flat_left x = e # flat_left y
         | _ \<Rightarrow> False"
    unfolding step_ok_def by blast
  obtain st1 s1 where y1: "y = (st1, s1)" by force
  show ?case
  proof (cases r)
    case None
    with r less.hyps[of y] y x y1 show ?thesis
      by (auto simp: flat_next_def flat_loop.simps[of list nxt st s])
  next
    case (Some q)
    with r y x y1 show ?thesis
      by (auto simp: flat_next_def flat_loop.simps[of list nxt st s] split: res.splits option.splits)
  qed
qed

lemma flat_finite_lister: "finite_lister (flat_next list nxt) flat_left flat_ok"
proof
  show "\<exists>y. flat_next list nxt x = Some (Ok (Some e), y) \<and> flat_ok y \<and> flat_left y = es"
    if "flat_ok x" "flat_left x = e # es" for x e es
    using flat_next_ok[OF that(1)] that(2) by auto
  show "\<exists>y. flat_next list nxt x = Some (Ok None, y) \<and> flat_ok y \<and> flat_left y = []"
    if "flat_ok x" "flat_left x = []" for x
    using flat_next_ok[OF that(1)] that(2) by auto
qed

lemma flat_new_ok:
  assumes "sinv s" "dirs path" "path \<noteq> []"
  shows "flat_ok (flat_new path, s)" "flat_left (flat_new path, s) = walk (oio_entry_new path (metadata_new DIR))"
  using assms by (simp_all add: flat_ok_def flat_left_def flat_new_def oio_entry_new_def oio_entry_with_def)

end

section \<open>What a walk lists\<close>

text \<open>
  \<open>v\<close> is found below the directory \<open>p\<close>: it is a direct entry of it, or found below one of its
  sub-directories.  The entry of \<open>p\<close> itself, which some services list, does not count.
\<close>

inductive found_below :: "(str \<Rightarrow> oio_entry list) \<Rightarrow> str \<Rightarrow> oio_entry \<Rightarrow> bool" for kids where
  found_direct: "v \<in> set (kids p) \<Longrightarrow> \<not> (oio_entry_mode v = DIR \<and> oe_path v = p) \<Longrightarrow> found_below kids p v"
| found_deeper: "u \<in> set (kids p) \<Longrightarrow> oio_entry_mode u = DIR \<Longrightarrow> oe_path u \<noteq> p \<Longrightarrow>
    found_below kids (oe_path u) v \<Longrightarrow> found_below kids p v"

inductive_simps found_below_iff: "found_below kids p v"

definition flat_listed :: "(str \<Rightarrow> oio_entry list) \<Rightarrow> str \<Rightarrow> oio_entry set" where
  "flat_listed kids p =
     {v. found_below kids p v \<and> (oio_entry_mode v = DIR \<longrightarrow> kids (oe_path v) \<noteq> [])}"

lemma flat_listed_eq:
  "flat_listed kids p =
     (\<Union>v\<in>set (kids p).
        if oio_entry_mode v = DIR
        then (if oe_path v = p then {}
              else flat_listed kids (oe_path v) \<union> (if kids (oe_path v) = [] then {} else {v}))
        else {v})" (is "_ = ?R")
proof
  show "flat_listed kids p \<subseteq> ?R"
  proof
    fix v assume "v \<in> flat_listed kids p"
    then have v: "found_below kids p v" "oio_entry_mode v = DIR \<longrightarrow> kids (oe_path v) \<noteq> []"
      by (auto simp: flat_listed_def)
    from v(1) show "v \<in> ?R"
    proof cases
      case found_direct
      with v(2) show ?thesis by (auto intro!: bexI[of _ v])
    next
      case (found_deeper u)
      with v(2) show ?thesis by (auto simp: flat_listed_def intro!: bexI[of _ u])
    qed
  qed
  show "?R \<subseteq> flat_listed kids p"
    by (auto simp: flat_listed_def split: if_splits intro: found_below.intros)
qed

lemma flat_listed_Nil: "kids p = [] \<Longrightarrow> flat_listed kids p = {}"
  by (subst flat_listed_eq) simp

context dir_lister
begin

lemma set_walk_children:
  "dirs (oe_path d) \<Longrightarrow>
     set (concat (map (flat_child walk d) (kids (oe_path d)))) = flat_listed kids (oe_path d)"
proof (induction "ht (oe_path d)" arbitrary: d rule: less_induct)
  case less
  have "set (flat_child walk d v) =
     (if oio_entry_mode v = DIR
        then (if oe_path v = oe_path d then {}
              else flat_listed kids (oe_path v) \<union> (if kids (oe_path v) = [] then {} else {v}))
        else {v})" if "v \<in> set (kids (oe_path d))" for v
  proof (cases "sub_dir d v")
    case True
    with less.hyps[of v] kids_dirs[OF less.prems that] kids_ht[OF less.prems that]
      flat_listed_eq[of kids "oe_path v"] walk_eq(1)[of v] show ?thesis
      by (auto simp: flat_child_def sub_dir_def)
  next
    case False
    then show ?thesis by (auto simp: flat_child_def sub_dir_def)
  qed
  then show ?case by (simp add: flat_listed_eq[of kids "oe_path d"])
qed

lemma set_walk:
  "dirs (oe_path d) \<Longrightarrow>
     set (walk d) = (if kids (oe_path d) = [] then {} else insert d (flat_listed kids (oe_path d)))"
  using set_walk_children[of d] walk_eq(1)[of d] by auto

text \<open>Where a directory stands in a walk, everything listed below it stands before it.\<close>

definition bottom_up :: "oio_entry list \<Rightarrow> bool" where
  "bottom_up es \<longleftrightarrow> (\<forall>xs d ys. es = xs @ d # ys \<longrightarrow> oio_entry_mode d = DIR \<longrightarrow> flat_listed kids (oe_path d) \<subseteq> set xs)"

lemma bottom_up_append: "bottom_up as \<Longrightarrow> bottom_up bs \<Longrightarrow> bottom_up (as @ bs)"
proof -
  assume a: "bottom_up as" and b: "bottom_up bs"
  show "bottom_up (as @ bs)"
    unfolding bottom_up_def
  proof (intro allI impI)
    fix xs d ys assume e: "as @ bs = xs @ d # ys" and d: "oio_entry_mode d = DIR"
    from e consider us where "as = xs @ d # us" | us where "xs = as @ us" "bs = us @ d # ys"
      by (auto simp: append_eq_append_conv2 append_eq_Cons_conv)
    then show "flat_listed kids (oe_path d) \<subseteq> set xs"
      using a b d unfolding bottom_up_def by cases fastforce+
  qed
qed

lemma bottom_up_concat: "\<forall>as\<in>set ass. bottom_up as \<Longrightarrow> bottom_up (concat ass)"
  by (induction ass) (simp_all add: bottom_up_append, simp add: bottom_up_def)

lemma walk_bottom_up: "dirs (oe_path d) \<Longrightarrow> bottom_up (walk d)"
proof (induction "ht (oe_path d)" arbitrary: d rule: less_induct)
  case less
  let ?cs = "concat (map (flat_child walk d) (kids (oe_path d)))"
  have "bottom_up (flat_child walk d v)" if "v \<in> set (kids (oe_path d))" for v
    using less.hyps[of v] kids_dirs[OF less.prems that] kids_ht[OF less.prems that]
    by (auto simp: flat_child_def sub_dir_def bottom_up_def Cons_eq_append_conv)
  then have cs: "bottom_up ?cs" by (intro bottom_up_concat) auto
  show ?case
  proof (cases "kids (oe_path d) = []")
    case True
    then show ?thesis by (simp add: walk_eq(1)[OF less.prems] bottom_up_def)
  next
    case False
    have w: "walk d = ?cs @ [d]" using walk_eq(1)[OF less.prems] False by simp
    have "bottom_up (?cs @ [d])"
      unfolding bottom_up_def
    proof (intro allI impI)
      fix xs x ys assume e: "?cs @ [d] = xs @ x # ys" and x: "oio_entry_mode x = DIR"
      show "flat_listed kids (oe_path x) \<subseteq> set xs"
      proof (cases ys rule: rev_cases)
        case Nil
        with e have "xs = ?cs" "x = d" by auto
        with set_walk_children[OF less.prems] show ?thesis by blast
      next
        case (snoc zs z)
        with e have "?cs = xs @ x # zs" by auto
        with cs x show ?thesis unfolding bottom_up_def by blast
      qed
    qed
    with w show ?thesis by simp
  qed
qed

lemma flat_lists:
  assumes "sinv s" "dirs path" "path \<noteq> []"
  shows "\<exists>n es. list_all_entries n (flat_next list nxt) (flat_new path, s) = Some es \<and>
    set es = (if kids path = [] then {}
              else insert (oio_entry_new path (metadata_new DIR)) (flat_listed kids path)) \<and> bottom_up es"
proof -
  let ?d = "oio_entry_new path (metadata_new DIR)"
  have d: "oe_path ?d = path" using assms(3) by (simp add: oio_entry_new_def oio_entry_with_def)
  note new = flat_new_ok[OF assms]
  have "set (walk ?d) = (if kids path = [] then {} else insert ?d (flat_listed kids path))" "bottom_up (walk ?d)"
    using set_walk[of ?d] walk_bottom_up[of ?d] d assms(2) by simp_all
  with finite_lister.list_all_entries_contents[OF flat_finite_lister new(1), unfolded new(2)] show ?thesis by blast
qed

end

section \<open>Properties\<close>

text \<open>
  C9: Over any accessor that lists the direct entries of its directories, and whose directories are
  nested to a finite depth, \<open>FlatLister\<close> ends and yields exactly the files found below the
  directory and those directories, itself included, whose own listing is not empty;
  everything below a directory comes before the directory.
\<close>

theorem flat_lists_tree:
  assumes "dir_lister list nxt sinv linv contents kids dirs ht" "sinv s" "dirs path" "path \<noteq> []"
  shows "\<exists>n es. list_all_entries n (flat_next list nxt) (flat_new path, s) = Some es \<and>
    set es = (if kids path = [] then {}
              else insert (oio_entry_new path (metadata_new DIR)) (flat_listed kids path)) \<and>
    (\<forall>xs d ys. es = xs @ d # ys \<longrightarrow> oio_entry_mode d = DIR \<longrightarrow> flat_listed kids (oe_path d) \<subseteq> set xs)"
  using dir_lister.flat_lists[OF assms] unfolding dir_lister.bottom_up_def[OF assms(1)] .

end
