(* ===== verification/Simulate_Layer.thy ===== *)
theory Simulate_Layer
  imports Flat_Lister
begin

text \<open>
  \<open>SimulateLayer\<close> of \<open>core/core/src/layers/simulate.rs\<close>: creating directories by empty writes, stat of
  directories by listing, recursive listing over listings of single directories, and recursive deletion
  over a recursive listing, for services that lack them.
\<close>

section \<open>Definitions\<close>

record simulate_config =
  sim_list_recursive :: bool
  sim_stat_dir :: bool
  sim_create_dir :: bool
  sim_delete_recursive :: bool

definition simulate_default :: simulate_config where
  "simulate_default =
     \<lparr>sim_list_recursive = True, sim_stat_dir = True, sim_create_dir = True, sim_delete_recursive = True\<rparr>"

definition simulate_info :: "simulate_config \<Rightarrow> accessor_info \<Rightarrow> accessor_info" where
  "simulate_info c info =
     update_full_capability
       (\<lambda>cap.
          let cap = (if sim_create_dir c \<and> cap_list cap \<and> cap_write_can_empty cap
                     then cap\<lparr>cap_create_dir := True\<rparr> else cap)
          in if sim_delete_recursive c \<and> cap_list cap \<and> cap_delete cap
             then cap\<lparr>cap_delete_with_recursive := True\<rparr> else cap)
       info"

definition simulate_create_dir ::
  "simulate_config \<Rightarrow> ('s, 'r, 'w, 'l, 'd, 'c) accessor \<Rightarrow> str \<Rightarrow> ('s, unit) io" where
  "simulate_create_dir c acc path =
     (let capability = ai_native_capability (ac_info acc)
      in if cap_create_dir capability \<or> \<not> sim_create_dir c then ac_create_dir acc path
         else if cap_write_can_empty capability \<and> cap_list capability
         then io_bind (ac_write acc path op_write_default) (\<lambda>w.
              io_bind (io_local w (ac_writer_close acc)) (\<lambda>_. io_ok ()))
         else ac_create_dir acc path)"

definition simulate_stat ::
  "simulate_config \<Rightarrow> ('s, 'r, 'w, 'l, 'd, 'c) accessor \<Rightarrow> str \<Rightarrow> op_stat \<Rightarrow> ('s, metadata) io" where
  "simulate_stat c acc path args =
     (let capability = ai_native_capability (ac_info acc)
      in if path = ''/'' then io_ok (metadata_new DIR)
         else if ends_with_char path slash \<and> cap_create_dir capability
         then io_bind (ac_stat acc path args) (\<lambda>meta.
                if metadata_is_file meta
                then io_err (error_new NotFound ''stat expected a directory, but found a file'')
                else io_ok meta)
         else if ends_with_char path slash \<and> sim_stat_dir c \<and> cap_list_with_recursive capability
         then io_bind (ac_list acc path (ol_with_limit 1 (ol_with_recursive True op_list_default))) (\<lambda>l.
              io_bind (io_local l (ac_lister_next acc)) (\<lambda>e.
                if e \<noteq> None then io_ok (metadata_new DIR)
                else io_err (error_new NotFound ''the directory is not found'')))
         else ac_stat acc path args)"

type_synonym 'l simulate_lister =
  "('l, 'l flat_lister, 'l prefix_lister, 'l flat_lister prefix_lister) ways4"

text \<open>\<open>PrefixLister\<close> over a lister of the accessor.\<close>

definition prefix_io :: "('l \<times> 's, oio_entry option) io \<Rightarrow> ('l prefix_lister \<times> 's, oio_entry option) io" where
  "prefix_io nxt = (\<lambda>(p, s).
     map_option (\<lambda>(r, q). (r, prefix_new (fst (pl_lister q)) (pl_prefix q), snd (pl_lister q)))
       (prefix_next nxt (prefix_new (pl_lister p, s) (pl_prefix p))))"

definition simulate_list ::
  "simulate_config \<Rightarrow> ('s, 'r, 'w, 'l, 'd, 'c) accessor \<Rightarrow> str \<Rightarrow> op_list \<Rightarrow> ('s, 'l simulate_lister) io" where
  "simulate_list c acc path args =
     (case (ol_recursive args, cap_list_with_recursive (ai_native_capability (ac_info acc)), sim_list_recursive c) of
        (_, True, _) \<Rightarrow> io_map W4_One (ac_list acc path args)
      | (True, False, True) \<Rightarrow>
          (if ends_with_char path slash then io_ok (W4_Two (flat_new path))
           else io_ok (W4_Four (prefix_new (flat_new (get_parent path)) path)))
      | (True, False, False) \<Rightarrow> io_map W4_One (ac_list acc path args)
      | (False, False, _) \<Rightarrow>
          (if ends_with_char path slash then io_map W4_One (ac_list acc path args)
           else io_map (\<lambda>p. W4_Three (prefix_new p path)) (ac_list acc (get_parent path) args)))"

definition simulate_lister_next ::
  "('s, 'r, 'w, 'l, 'd, 'c) accessor \<Rightarrow> ('l simulate_lister \<times> 's, oio_entry option) io" where
  "simulate_lister_next acc =
     (let flat = flat_next (ac_list acc) (ac_lister_next acc)
      in ways4_io (ac_lister_next acc) flat (prefix_io (ac_lister_next acc)) (prefix_io flat))"

text \<open>The loop over the entries of a recursive listing.\<close>

partial_function (option) delete_listed ::
  "('l \<times> 's, oio_entry option) io \<Rightarrow> (str \<Rightarrow> op_delete \<Rightarrow> ('d \<times> 's, unit) io) \<Rightarrow> op_delete \<Rightarrow>
     'l \<Rightarrow> 'd \<Rightarrow> 's \<Rightarrow> (unit res \<times> 'd \<times> 's) option" where
  "delete_listed nxt del non_recursive l d s =
     (case nxt (l, s) of
        None \<Rightarrow> None
      | Some (Ok None, l1, s1) \<Rightarrow> Some (Ok (), d, s1)
      | Some (Ok (Some e), l1, s1) \<Rightarrow>
          (case del (oe_path e)
              (case md_version (oe_meta e) of None \<Rightarrow> non_recursive | Some v \<Rightarrow> od_with_version v non_recursive)
              (d, s1) of
             None \<Rightarrow> None
           | Some (Ok _, d1, s2) \<Rightarrow> delete_listed nxt del non_recursive l1 d1 s2
           | Some (Err er, d1, s2) \<Rightarrow> Some (Err er, d1, s2)
           | Some (Panic, d1, s2) \<Rightarrow> Some (Panic, d1, s2))
      | Some (Err er, l1, s1) \<Rightarrow> Some (Err er, d, s1)
      | Some (Panic, l1, s1) \<Rightarrow> Some (Panic, d, s1))"

definition simulate_delete_with_recursive ::
  "simulate_config \<Rightarrow> ('s, 'r, 'w, 'l, 'd, 'c) accessor \<Rightarrow> str \<Rightarrow> op_delete \<Rightarrow> ('d \<times> 's, unit) io" where
  "simulate_delete_with_recursive c acc path args =
     (if \<not> cap_delete_with_recursive (ai_full_capability (simulate_info c (ac_info acc)))
      then io_err (error_new Unsupported ''recursive delete is not supported'')
      else io_bind (io_lift (simulate_list c acc path (ol_with_recursive True op_list_default))) (\<lambda>lister (d, s).
             delete_listed (simulate_lister_next acc) (ac_deleter_delete acc) (od_with_recursive False args) lister d s))"

definition simulate_deleter_delete ::
  "simulate_config \<Rightarrow> ('s, 'r, 'w, 'l, 'd, 'c) accessor \<Rightarrow> str \<Rightarrow> op_delete \<Rightarrow> ('d \<times> 's, unit) io" where
  "simulate_deleter_delete c acc path args =
     (if od_recursive args then
        (if cap_delete_with_recursive (ai_native_capability (ac_info acc)) then ac_deleter_delete acc path args
         else if sim_delete_recursive c then simulate_delete_with_recursive c acc path args
         else ac_deleter_delete acc path args)
      else ac_deleter_delete acc path args)"

definition simulate_layer ::
  "simulate_config \<Rightarrow> ('s, 'r, 'w, 'l, 'd, 'c) accessor \<Rightarrow> ('s, 'r, 'w, 'l simulate_lister, 'd, 'c) accessor" where
  "simulate_layer c acc =
     \<lparr>ac_info = simulate_info c (ac_info acc),
      ac_create_dir = simulate_create_dir c acc,
      ac_stat = simulate_stat c acc,
      ac_read = ac_read acc,
      ac_write = ac_write acc,
      ac_delete = ac_delete acc,
      ac_list = simulate_list c acc,
      ac_copy = ac_copy acc,
      ac_rename = ac_rename acc,
      ac_reader_read = ac_reader_read acc,
      ac_writer_write = ac_writer_write acc,
      ac_writer_close = ac_writer_close acc,
      ac_writer_abort = ac_writer_abort acc,
      ac_lister_next = simulate_lister_next acc,
      ac_deleter_delete = simulate_deleter_delete c acc,
      ac_deleter_close = ac_deleter_close acc,
      ac_copier = ac_copier acc\<rparr>"

section \<open>Listings\<close>

lemma prefix_finite_lister:
  assumes "finite_lister nxt contents linv"
  shows "finite_lister (prefix_io nxt)
    (\<lambda>(p, s). filter (\<lambda>e. starts_with (oe_path e) (pl_prefix p)) (contents (pl_lister p, s)))
    (\<lambda>(p, s). linv (pl_lister p, s))"
proof -
  let ?get = "\<lambda>(p, s). prefix_new (pl_lister p, s) (pl_prefix p)"
  have "\<exists>x'. prefix_io nxt x = Some (Ok r, x') \<and> ?get x' = y" if "prefix_next nxt (?get x) = Some (Ok r, y)" for x r y
    using that by (auto simp: prefix_io_def prefix_new_def split: prod.splits)
  from finite_lister_wrap[OF finite_lister.prefix_lister[OF assms] this] show ?thesis
    by (simp add: prefix_new_def split_def)
qed

context dir_lister
begin

definition sim_left :: "'l simulate_lister \<times> 's \<Rightarrow> oio_entry list" where
  "sim_left = (\<lambda>(v, s).
     case v of
       W4_One l \<Rightarrow> contents l
     | W4_Two f \<Rightarrow> flat_left (f, s)
     | W4_Three p \<Rightarrow> filter (\<lambda>e. starts_with (oe_path e) (pl_prefix p)) (contents (pl_lister p))
     | W4_Four p \<Rightarrow> filter (\<lambda>e. starts_with (oe_path e) (pl_prefix p)) (flat_left (pl_lister p, s)))"

definition sim_ok :: "'l simulate_lister \<times> 's \<Rightarrow> bool" where
  "sim_ok = (\<lambda>(v, s).
     case v of
       W4_One l \<Rightarrow> sinv s \<and> linv l
     | W4_Two f \<Rightarrow> flat_ok (f, s)
     | W4_Three p \<Rightarrow> sinv s \<and> linv (pl_lister p)
     | W4_Four p \<Rightarrow> flat_ok (pl_lister p, s))"

lemma sim_finite_lister:
  "finite_lister (ways4_io nxt (flat_next list nxt) (prefix_io nxt) (prefix_io (flat_next list nxt))) sim_left sim_ok"
  using ways4_finite_lister[OF entry_lister flat_finite_lister prefix_finite_lister[OF entry_lister]
      prefix_finite_lister[OF flat_finite_lister]]
  unfolding sim_left_def sim_ok_def prod.case .

text \<open>What a directory offers to a recursive listing.\<close>

definition tree_of :: "str \<Rightarrow> oio_entry set" where
  "tree_of p = (if kids p = [] then {} else insert (oio_entry_new p (metadata_new DIR)) (flat_listed kids p))"

lemma sim_lists:
  assumes "sinv s" "dirs dir" "dir \<noteq> []"
    "v = W4_Two (flat_new dir) \<and> P = (\<lambda>_. True) \<or>
     v = W4_Four (prefix_new (flat_new dir) path) \<and> P = (\<lambda>e. starts_with (oe_path e) path)"
  shows "\<exists>n es. list_all_entries n (ways4_io nxt (flat_next list nxt) (prefix_io nxt) (prefix_io (flat_next list nxt)))
      (v, s) = Some es \<and> set es = {e \<in> tree_of dir. P e}"
proof -
  have d: "oe_path (oio_entry_new dir (metadata_new DIR)) = dir"
    using assms(3) by (simp add: oio_entry_new_def oio_entry_with_def)
  note new = flat_new_ok[OF assms(1-3)]
  have w: "set (walk (oio_entry_new dir (metadata_new DIR))) = tree_of dir"
    using set_walk[of "oio_entry_new dir (metadata_new DIR)"] assms(2) by (simp add: d tree_of_def)
  have "sim_ok (v, s)" using assms(4) new(1) by (elim disjE conjE) (simp_all add: sim_ok_def prefix_new_def)
  moreover have "set (sim_left (v, s)) = {e \<in> tree_of dir. P e}"
    using assms(4) by (elim disjE conjE) (simp_all add: sim_left_def prefix_new_def new(2) w)
  moreover note finite_lister.list_all_entries_contents[OF sim_finite_lister, of "(v, s)"]
  ultimately show ?thesis by blast
qed

end

text \<open>The listings that the service provides itself.\<close>

lemma simulate_list_native:
  assumes "cap_list_with_recursive (ai_native_capability (ac_info acc))"
  shows "simulate_list c acc path args = io_map W4_One (ac_list acc path args)"
  using assms by (cases "ol_recursive args") (simp_all add: simulate_list_def)

lemma simulate_one_lister:
  assumes "finite_lister (ac_lister_next acc) contents linv"
  shows "finite_lister (simulate_lister_next acc) (\<lambda>(v, s). case v of W4_One l \<Rightarrow> contents (l, s) | _ \<Rightarrow> [])
    (\<lambda>(v, s). case v of W4_One l \<Rightarrow> linv (l, s) | _ \<Rightarrow> False)" (is "finite_lister _ ?c ?i")
proof (rule finite_lister.intro)
  fix x e es
  assume x: "?i x" "?c x = e # es"
  then obtain l s where ls: "x = (W4_One l, s)" "linv (l, s)" "contents (l, s) = e # es"
    by (cases x; cases "fst x") auto
  from finite_lister.next_Some[OF assms ls(2,3)] ls(1)
  show "\<exists>y. simulate_lister_next acc x = Some (Ok (Some e), y) \<and> ?i y \<and> ?c y = es"
    by (auto simp: simulate_lister_next_def ways4_io_def Let_def)
next
  fix x
  assume x: "?i x" "?c x = []"
  then obtain l s where ls: "x = (W4_One l, s)" "linv (l, s)" "contents (l, s) = []"
    by (cases x; cases "fst x") auto
  from finite_lister.next_None[OF assms ls(2,3)] ls(1)
  show "\<exists>y. simulate_lister_next acc x = Some (Ok None, y) \<and> ?i y \<and> ?c y = []"
    by (auto simp: simulate_lister_next_def ways4_io_def Let_def)
qed

section \<open>Readers and writers\<close>

text \<open>The layer leaves the writers alone, and the readers of paths that are no directories.\<close>

lemma simulate_writer_ops [simp]: "writer_ops (simulate_layer c acc) = writer_ops acc"
  by (simp add: writer_ops_def simulate_layer_def)

lemma simulate_reliable_reader:
  assumes "reliable_reader (reader_ops acc) path content sinv rinv rest good rgood" "\<not> ends_with_char path slash"
  shows "reliable_reader (reader_ops (simulate_layer c acc)) path content sinv rinv rest good rgood"
proof -
  have "rop_stat (reader_ops (simulate_layer c acc)) path args s = rop_stat (reader_ops acc) path args s" for args s
  proof -
    have "path \<noteq> ''/''" using assms(2) by (auto simp: ends_with_char_def)
    with assms(2) show ?thesis by (simp add: reader_ops_def simulate_layer_def simulate_stat_def Let_def)
  qed
  moreover have "rop_open (reader_ops (simulate_layer c acc)) = rop_open (reader_ops acc)"
    "rop_read (reader_ops (simulate_layer c acc)) = rop_read (reader_ops acc)"
    by (simp_all add: reader_ops_def simulate_layer_def)
  ultimately show ?thesis by (intro reliable_reader_wrap[OF assms(1), where get = "\<lambda>r. r"]) simp_all
qed

section \<open>Recursive deletion\<close>

text \<open>
  Listers that a deletion does not disturb, and deleters that a listing does not disturb.
\<close>

definition undisturbed ::
  "('l \<times> 's, oio_entry option) io \<Rightarrow> ('l \<times> 's \<Rightarrow> oio_entry list) \<Rightarrow> ('l \<times> 's \<Rightarrow> bool) \<Rightarrow>
   (str \<Rightarrow> op_delete \<Rightarrow> ('d \<times> 's, unit) io) \<Rightarrow> ('d \<times> 's \<Rightarrow> bool) \<Rightarrow> ('d \<times> 's \<Rightarrow> delete_item set) \<Rightarrow> bool" where
  "undisturbed nxt contents linv del dinv taken \<longleftrightarrow>
     (\<forall>path args d s r d' s' l. del path args (d, s) = Some (r, d', s') \<longrightarrow> linv (l, s) \<longrightarrow>
        linv (l, s') \<and> contents (l, s') = contents (l, s)) \<and>
     (\<forall>l s r l' s' d. nxt (l, s) = Some (r, l', s') \<longrightarrow> dinv (d, s) \<longrightarrow>
        dinv (d, s') \<and> taken (d, s') = taken (d, s))"

lemma undisturbed_delete:
  "undisturbed nxt contents linv del dinv taken \<Longrightarrow> del path args (d, s) = Some (r, d', s') \<Longrightarrow> linv (l, s) \<Longrightarrow>
     linv (l, s') \<and> contents (l, s') = contents (l, s)"
  by (simp add: undisturbed_def)

lemma undisturbed_next:
  "undisturbed nxt contents linv del dinv taken \<Longrightarrow> nxt (l, s) = Some (r, l', s') \<Longrightarrow> dinv (d, s) \<Longrightarrow>
     dinv (d, s') \<and> taken (d, s') = taken (d, s)"
  by (simp add: undisturbed_def)

definition listed_item :: "op_delete \<Rightarrow> oio_entry \<Rightarrow> delete_item" where
  "listed_item args e =
     (oe_path e, case md_version (oe_meta e) of None \<Rightarrow> args | Some v \<Rightarrow> od_with_version v args)"

lemma delete_listed_ok:
  assumes "finite_lister nxt contents linv" "oio_deleter (deleter_ops acc) dinv queued gone"
    "undisturbed nxt contents linv (ac_deleter_delete acc) dinv (\<lambda>x. queued x \<union> gone x)"
    "linv (l, s)" "dinv (d, s)"
  shows "\<exists>r d' s'. delete_listed nxt (ac_deleter_delete acc) args l d s = Some (r, d', s') \<and> dinv (d', s') \<and>
    queued (d, s) \<union> gone (d, s) \<subseteq> queued (d', s') \<union> gone (d', s') \<and>
    (r = Ok () \<longrightarrow> listed_item args ` set (contents (l, s)) \<subseteq> queued (d', s') \<union> gone (d', s'))"
  using assms(4,5)
proof (induction "contents (l, s)" arbitrary: l s d)
  case Nil
  from finite_lister.next_None[OF assms(1) Nil.prems(1) Nil.hyps[symmetric]] obtain l' s' where
    n: "nxt (l, s) = Some (Ok None, l', s')" by auto
  from undisturbed_next[OF assms(3) n Nil.prems(2)]
  have "dinv (d, s') \<and> queued (d, s') \<union> gone (d, s') = queued (d, s) \<union> gone (d, s)" .
  with n Nil.hyps[symmetric] show ?case by (simp add: delete_listed.simps)
next
  case (Cons e es)
  from finite_lister.next_Some[OF assms(1) Cons.prems(1) Cons.hyps(2)[symmetric]] obtain l1 s1 where
    n: "nxt (l, s) = Some (Ok (Some e), l1, s1)" "linv (l1, s1)" "contents (l1, s1) = es" by auto
  from undisturbed_next[OF assms(3) n(1) Cons.prems(2)]
  have d: "dinv (d, s1)" "queued (d, s1) \<union> gone (d, s1) = queued (d, s) \<union> gone (d, s)" by simp_all
  obtain p a where i: "listed_item args e = (p, a)" by force
  from oio_deleter.delete_ok[OF assms(2) d(1), of p a] obtain r d1 s2 where
    del: "ac_deleter_delete acc p a (d, s1) = Some (r, d1, s2)" "dinv (d1, s2)"
      "queued (d, s1) \<union> gone (d, s1) \<subseteq> queued (d1, s2) \<union> gone (d1, s2)"
      "r = Ok () \<longrightarrow> (p, a) \<in> queued (d1, s2) \<union> gone (d1, s2)"
    by (auto simp: deleter_ops_def)
  from undisturbed_delete[OF assms(3) del(1) n(2)] n(3) have l: "linv (l1, s2)" "contents (l1, s2) = es" by simp_all
  have step: "delete_listed nxt (ac_deleter_delete acc) args l d s =
      (case r of Ok _ \<Rightarrow> delete_listed nxt (ac_deleter_delete acc) args l1 d1 s2
       | Err er \<Rightarrow> Some (Err er, d1, s2) | Panic \<Rightarrow> Some (Panic, d1, s2))"
    using n(1) del(1) i by (simp add: delete_listed.simps[of nxt _ args l d s] listed_item_def split: res.splits)
  show ?case
  proof (cases r)
    case (Ok u)
    from Cons.hyps(1)[OF l(2)[symmetric] l(1) del(2)] obtain r' d' s' where
      r': "delete_listed nxt (ac_deleter_delete acc) args l1 d1 s2 = Some (r', d', s')" "dinv (d', s')"
        "queued (d1, s2) \<union> gone (d1, s2) \<subseteq> queued (d', s') \<union> gone (d', s')"
        "r' = Ok () \<longrightarrow> listed_item args ` set es \<subseteq> queued (d', s') \<union> gone (d', s')"
      using l(2) by auto
    have "queued (d, s) \<union> gone (d, s) \<subseteq> queued (d', s') \<union> gone (d', s')" using subset_trans[OF del(3) r'(3)] unfolding d(2) .
    moreover have "listed_item args ` set (contents (l, s)) \<subseteq> queued (d', s') \<union> gone (d', s')" if "r' = Ok ()"
      using r'(3,4) that del(4) Ok i Cons.hyps(2)[symmetric] by auto
    ultimately show ?thesis using step Ok r'(1,2) by auto
  qed (use step del(2,3) d(2) in auto)
qed

section \<open>Properties\<close>

text \<open>
  Where the service lists single directories only, the layer's recursive listing of a path
  ends, and yields everything in the tree of the directory if the path ends in a slash, and else
  everything in the tree of the parent directory whose path starts with the given one.
\<close>

theorem simulated_list_recursive:
  assumes "dir_lister (ac_list acc) (ac_lister_next acc) sinv linv contents kids dirs ht" "sinv s"
    "\<not> cap_list_with_recursive (ai_native_capability (ac_info acc))" "ol_recursive args"
    "dir = (if ends_with_char path slash then path else get_parent path)" "dirs dir" "dir \<noteq> []" "kids dir \<noteq> []"
  shows "\<exists>l n es. ac_list (simulate_layer simulate_default acc) path args s = Some (Ok l, s) \<and>
    list_all_entries n (ac_lister_next (simulate_layer simulate_default acc)) (l, s) = Some es \<and>
    set es = {e \<in> insert (oio_entry_new dir (metadata_new DIR)) (flat_listed kids dir).
                ends_with_char path slash \<or> starts_with (oe_path e) path}"
proof -
  let ?v = "if ends_with_char path slash then W4_Two (flat_new dir) else W4_Four (prefix_new (flat_new dir) path)"
  let ?P = "\<lambda>e. ends_with_char path slash \<or> starts_with (oe_path e) path"
  have l: "ac_list (simulate_layer simulate_default acc) path args s = Some (Ok ?v, s)"
    using assms(3-5) by (simp add: simulate_layer_def simulate_list_def simulate_default_def io_ok_def)
  have "\<exists>n es. list_all_entries n (ac_lister_next (simulate_layer simulate_default acc)) (?v, s) = Some es \<and>
      set es = {e \<in> dir_lister.tree_of kids dir. ?P e}"
    using dir_lister.sim_lists[OF assms(1,2,6,7), of ?v ?P path]
    by (simp add: simulate_layer_def simulate_lister_next_def Let_def del: list_all_entries.simps)
  with l show ?thesis unfolding dir_lister.tree_of_def[OF assms(1)] if_not_P[OF assms(8)] by blast
qed

text \<open>
  Recursive deletion over a listing that it does not disturb: it returns; if it succeeds,
  every entry of the recursive listing has been passed to the deleter of the service, with its version
  and not recursively; and whatever happens, nothing accepted before is lost.
\<close>

theorem simulated_delete_recursive:
  assumes "finite_lister (simulate_lister_next acc) contents linv"
    "oio_deleter (deleter_ops acc) dinv queued gone"
    "undisturbed (simulate_lister_next acc) contents linv (ac_deleter_delete acc) dinv (\<lambda>x. queued x \<union> gone x)"
    "simulate_list simulate_default acc path (ol_with_recursive True op_list_default) s = Some (Ok l, s')"
    "linv (l, s')" "dinv (d, s')"
    "cap_list (ai_full_capability (ac_info acc))" "cap_delete (ai_full_capability (ac_info acc))"
    "\<not> cap_delete_with_recursive (ai_native_capability (ac_info acc))" "od_recursive args"
  shows "\<exists>r d2 s2. ac_deleter_delete (simulate_layer simulate_default acc) path args (d, s) = Some (r, d2, s2) \<and>
    dinv (d2, s2) \<and> queued (d, s') \<union> gone (d, s') \<subseteq> queued (d2, s2) \<union> gone (d2, s2) \<and>
    (r = Ok () \<longrightarrow> listed_item (od_with_recursive False args) ` set (contents (l, s')) \<subseteq> queued (d2, s2) \<union> gone (d2, s2))"
proof -
  have "ac_deleter_delete (simulate_layer simulate_default acc) path args (d, s) =
      delete_listed (simulate_lister_next acc) (ac_deleter_delete acc) (od_with_recursive False args) l d s'"
    using assms(4,7-10)
    by (simp add: simulate_layer_def simulate_deleter_delete_def simulate_delete_with_recursive_def simulate_info_def
        update_full_capability_def simulate_default_def io_bind_def io_lift_def Let_def)
  with delete_listed_ok[OF assms(1-3,5,6)] show ?thesis by simp
qed

end
