(* ===== verification/Copiers.thy ===== *)
theory Copiers
  imports Accessor
begin

text \<open>
  The public \<open>Copier\<close> of \<open>core/core/src/types/copy.rs\<close> over the copiers of an accessor.

  The field \<open>fut\<close> only carries the copier while the stream is polled; \<open>poll_next\<close> is modelled polled
  until it is ready.  Locale \<open>finite_copier\<close> is the contract of a copier that makes finitely many
  steps and does not fail.
\<close>

section \<open>Definitions\<close>

record 'c copier =
  cp_copier :: "'c option"
  cp_metadata :: "metadata option"
  cp_errored :: bool

definition copier_create ::
  "('s, 'r, 'w, 'l, 'd, 'c) accessor \<Rightarrow> str \<Rightarrow> str \<Rightarrow> op_copy \<Rightarrow> op_copier \<Rightarrow> ('s, 'c copier) io" where
  "copier_create acc from to args opts =
     io_map (\<lambda>c. \<lparr>cp_copier = Some c, cp_metadata = None, cp_errored = False\<rparr>) (ac_copy acc from to args opts)"

definition copier_next :: "('c \<times> 's) copy_ops \<Rightarrow> ('c copier \<times> 's, usize option) io" where
  "copier_next ops = (\<lambda>(cp, s).
     if cp_errored cp then Some (Ok None, cp, s)
     else case cp_copier cp of
       None \<Rightarrow> Some (Ok None, cp, s)
     | Some c \<Rightarrow>
         (case c_next ops (c, s) of
            None \<Rightarrow> None
          | Some (Ok (Some n), c1, s1) \<Rightarrow> Some (Ok (Some n), cp\<lparr>cp_copier := Some c1\<rparr>, s1)
          | Some (Ok None, c1, s1) \<Rightarrow>
              (case c_close ops (c1, s1) of
                 None \<Rightarrow> None
               | Some (Ok m, c2, s2) \<Rightarrow> Some (Ok None, cp\<lparr>cp_copier := None, cp_metadata := Some m\<rparr>, s2)
               | Some (Err e, c2, s2) \<Rightarrow> Some (Err e, cp\<lparr>cp_copier := Some c2\<rparr>, s2)
               | Some (Panic, c2, s2) \<Rightarrow> Some (Panic, cp\<lparr>cp_copier := Some c2\<rparr>, s2))
          | Some (Err e, c1, s1) \<Rightarrow> Some (Err e, cp\<lparr>cp_copier := Some c1, cp_errored := True\<rparr>, s1)
          | Some (Panic, c1, s1) \<Rightarrow> Some (Panic, cp\<lparr>cp_copier := Some c1\<rparr>, s1)))"

definition copier_abort :: "('c \<times> 's) copy_ops \<Rightarrow> ('c copier \<times> 's, unit) io" where
  "copier_abort ops = io_with (\<lambda>cp.
     case cp_copier cp of
       None \<Rightarrow> io_ok ()
     | Some c \<Rightarrow> io_on (\<lambda>_. c) (\<lambda>c' cp. cp\<lparr>cp_copier := Some c'\<rparr>) (c_abort ops))"

text \<open>The \<open>while\<close> loop of \<open>close\<close>.\<close>

partial_function (option) copier_drain ::
  "('c \<times> 's) copy_ops \<Rightarrow> 'c copier \<Rightarrow> 's \<Rightarrow> (unit res \<times> 'c copier \<times> 's) option" where
  "copier_drain ops cp s =
     (if cp_metadata cp \<noteq> None then Some (Ok (), cp, s)
      else case copier_next ops (cp, s) of
        None \<Rightarrow> None
      | Some (Ok (Some _), cp1, s1) \<Rightarrow> copier_drain ops cp1 s1
      | Some (Ok None, cp1, s1) \<Rightarrow> Some (Ok (), cp1, s1)
      | Some (Err e, cp1, s1) \<Rightarrow> Some (Err e, cp1, s1)
      | Some (Panic, cp1, s1) \<Rightarrow> Some (Panic, cp1, s1))"

definition copier_close :: "('c \<times> 's) copy_ops \<Rightarrow> ('c copier \<times> 's, metadata) io" where
  "copier_close ops = io_with (\<lambda>cp.
     if cp_errored cp
     then io_err (error_new Unexpected ''copier has already failed and can't be closed'')
     else case cp_metadata cp of
       Some m \<Rightarrow> io_ok m
     | None \<Rightarrow>
         io_bind (\<lambda>(cp, s). copier_drain ops cp s) (\<lambda>_.
         io_get (\<lambda>cp. case cp_metadata cp of Some m \<Rightarrow> m | None \<Rightarrow> metadata_default)))"

definition copier_poll_next ::
  "('c \<times> 's) copy_ops \<Rightarrow> 'c copier \<times> 's \<Rightarrow> (usize res option \<times> 'c copier \<times> 's) option" where
  "copier_poll_next ops = (\<lambda>(cp, s).
     if cp_errored cp then Some (None, cp, s)
     else case cp_copier cp of
       None \<Rightarrow> Some (None, cp, s)
     | Some c \<Rightarrow>
         (case c_next ops (c, s) of
            None \<Rightarrow> None
          | Some (Ok (Some n), c1, s1) \<Rightarrow> Some (Some (Ok n), cp\<lparr>cp_copier := Some c1\<rparr>, s1)
          | Some (Ok None, c1, s1) \<Rightarrow> Some (None, cp\<lparr>cp_copier := Some c1\<rparr>, s1)
          | Some (Err e, c1, s1) \<Rightarrow> Some (Some (Err e), cp\<lparr>cp_copier := Some c1, cp_errored := True\<rparr>, s1)
          | Some (Panic, c1, s1) \<Rightarrow> Some (Some Panic, cp\<lparr>cp_copier := Some c1\<rparr>, s1)))"

section \<open>The contract of a copier\<close>

text \<open>
  \<open>steps x\<close> are the sizes the copier has yet to report, \<open>result x\<close> what its \<open>close\<close> returns after them,
  and \<open>copied\<close> holds of the service once it is closed.
\<close>

locale finite_copier =
  fixes ops :: "('c \<times> 's) copy_ops" and cinv :: "'c \<times> 's \<Rightarrow> bool"
    and steps :: "'c \<times> 's \<Rightarrow> usize list" and result :: "'c \<times> 's \<Rightarrow> metadata" and copied :: "'s \<Rightarrow> bool"
  assumes next_Cons: "cinv x \<Longrightarrow> steps x = n # ns \<Longrightarrow>
      \<exists>y. c_next ops x = Some (Ok (Some n), y) \<and> cinv y \<and> steps y = ns \<and> result y = result x"
    and next_Nil: "cinv x \<Longrightarrow> steps x = [] \<Longrightarrow>
      \<exists>y. c_next ops x = Some (Ok None, y) \<and> cinv y \<and> steps y = [] \<and> result y = result x"
    and close_ok: "cinv x \<Longrightarrow> steps x = [] \<Longrightarrow> \<exists>c s. c_close ops x = Some (Ok (result x), c, s) \<and> copied s"
begin

lemma drain_ok:
  "cinv (c, s) \<Longrightarrow> cp_copier cp = Some c \<Longrightarrow> cp_metadata cp = None \<Longrightarrow> \<not> cp_errored cp \<Longrightarrow>
   \<exists>cp' s'. copier_drain ops cp s = Some (Ok (), cp', s') \<and> cp_metadata cp' = Some (result (c, s)) \<and> copied s'"
proof (induction "steps (c, s)" arbitrary: c s cp)
  case Nil
  from next_Nil[OF Nil.prems(1) Nil.hyps[symmetric]] obtain c1 s1 where
    n: "c_next ops (c, s) = Some (Ok None, c1, s1)" "cinv (c1, s1)" "steps (c1, s1) = []"
      "result (c1, s1) = result (c, s)" by force
  from close_ok[OF n(2,3)] obtain c2 s2 where "c_close ops (c1, s1) = Some (Ok (result (c, s)), c2, s2)" "copied s2"
    using n(4) by auto
  with n(1) Nil.prems show ?case by (simp add: copier_drain.simps[of ops cp s] copier_next_def)
next
  case (Cons n ns)
  from next_Cons[OF Cons.prems(1) Cons.hyps(2)[symmetric]] obtain c1 s1 where
    n: "c_next ops (c, s) = Some (Ok (Some n), c1, s1)" "cinv (c1, s1)" "steps (c1, s1) = ns"
      "result (c1, s1) = result (c, s)" by force
  from Cons.hyps(1)[OF n(3)[symmetric] n(2), of "cp\<lparr>cp_copier := Some c1\<rparr>"] n Cons.prems show ?case
    by (simp add: copier_drain.simps[of ops cp s] copier_next_def)
qed

text \<open>Closing a fresh copier runs it to its end and returns the result.\<close>

lemma copier_close_ok:
  assumes "cinv (c, s)"
  shows "\<exists>cp s'. copier_close ops (\<lparr>cp_copier = Some c, cp_metadata = None, cp_errored = False\<rparr>, s) =
    Some (Ok (result (c, s)), cp, s') \<and> copied s'"
  using drain_ok[OF assms, of "\<lparr>cp_copier = Some c, cp_metadata = None, cp_errored = False\<rparr>"]
  by (auto simp: copier_close_def io_defs)

end

text \<open>\<open>OneShotCopier\<close>, for a future that succeeds with \<open>m\<close>.\<close>

definition one_shot_runs :: "metadata \<Rightarrow> ('s \<Rightarrow> 's) \<Rightarrow> 's one_shot_copier \<times> 's \<Rightarrow> bool" where
  "one_shot_runs m f = (\<lambda>(c, s).
     case osc_fut c of
       None \<Rightarrow> osc_meta c = Some m \<and> s \<in> f ` UNIV
     | Some fut \<Rightarrow> osc_meta c = None \<and> (\<forall>s. fut s = Some (Ok m, f s)))"

interpretation osc: finite_copier one_shot_copy_ops "one_shot_runs m f" "\<lambda>x. []" "\<lambda>x. m" "\<lambda>s. s \<in> f ` UNIV"
proof
  fix x n ns
  show "\<exists>y. c_next one_shot_copy_ops x = Some (Ok None, y) \<and> one_shot_runs m f y \<and> [] = [] \<and> m = m"
    if x: "one_shot_runs m f x"
  proof (cases "osc_fut (fst x)")
    case None
    with x show ?thesis
      by (intro exI[of _ x]) (auto simp: one_shot_runs_def one_shot_copy_ops_def one_shot_copier_next_def io_defs)
  next
    case (Some fut)
    with x show ?thesis
      by (intro exI[of _ "((fst x)\<lparr>osc_fut := None, osc_meta := Some m\<rparr>, f (snd x))"])
        (auto simp: one_shot_runs_def one_shot_copy_ops_def one_shot_copier_next_def one_shot_copier_close_def io_defs
          split: prod.splits)
  qed
  show "\<exists>c s. c_close one_shot_copy_ops x = Some (Ok m, c, s) \<and> s \<in> f ` UNIV" if "one_shot_runs m f x"
    using that by (cases "osc_fut (fst x)")
      (auto simp: one_shot_runs_def one_shot_copy_ops_def one_shot_copier_close_def io_defs split: prod.splits)
qed simp

section \<open>Lemmas\<close>

text \<open>After a failed step the copier yields nothing more and cannot be closed.\<close>

lemma copier_errored:
  assumes "cp_errored cp"
  shows "copier_next ops (cp, s) = Some (Ok None, cp, s)" "copier_poll_next ops (cp, s) = Some (None, cp, s)"
    "\<exists>e. copier_close ops (cp, s) = Some (Err e, cp, s) \<and> e_kind e = Unexpected"
  using assms by (simp_all add: copier_next_def copier_poll_next_def copier_close_def io_defs)

end
