(* ===== verification/Memory_Accessor.thy ===== *)
theory Memory_Accessor
  imports Memory Flat_Lister
begin

text \<open>
  \<open>MemoryBackend\<close> of \<open>core/core/src/services/memory/backend.rs\<close> as an accessor, and the contracts of its
  readers, writers and listers.

  The state of the service is the store; a writer or deleter of the memory service, which shares the
  store with the backend, runs with the current store.  The name in the info, the address of the store,
  is a parameter.
\<close>

section \<open>Definitions\<close>

definition memory_info :: "str \<Rightarrow> str \<Rightarrow> accessor_info" where
  "memory_info name root =
     set_root root (set_native_capability memory_capability (set_root ''/'' (set_name name
       (set_scheme ''memory'' accessor_info_default))))"

text \<open>A method of the writer or the deleter on the shared store.\<close>

definition memory_writer_io :: "(memory_writer \<Rightarrow> 'a res \<times> memory_writer) \<Rightarrow> (memory_writer \<times> memory_core, 'a) io" where
  "memory_writer_io f = (\<lambda>(w, s). case f (w\<lparr>mw_core := s\<rparr>) of (r, w') \<Rightarrow> Some (r, w', mw_core w'))"

definition memory_deleter_io ::
  "(memory_deleter \<Rightarrow> (unit res \<times> memory_deleter) option) \<Rightarrow> (memory_deleter \<times> memory_core, unit) io" where
  "memory_deleter_io f = (\<lambda>(d, s). map_option (\<lambda>(r, d'). (r, d', mdel_core d')) (f (d\<lparr>mdel_core := s\<rparr>)))"

definition memory_accessor ::
  "str \<Rightarrow> str \<Rightarrow>
     (memory_core, buffer, memory_writer, memory_lister hierarchy_lister, memory_deleter, unit) accessor" where
  "memory_accessor name root =
     \<lparr>ac_info = memory_info name root,
      ac_create_dir = (\<lambda>path. io_err unsupported_operation),
      ac_stat = (\<lambda>path args s. Some (memory_stat root s path, s)),
      ac_read = (\<lambda>path args s. Some (bind_res (memory_read root s path args) (\<lambda>(m, b). Ok (Some m, b)), s)),
      ac_write = (\<lambda>path args s. Some (memory_write root s path args, s)),
      ac_delete = (\<lambda>s. Some (Ok (memory_deleter_new s root), s)),
      ac_list = (\<lambda>path args s. Some (memory_list root s path args, s)),
      ac_copy = (\<lambda>from to args opts. io_err unsupported_operation),
      ac_rename = (\<lambda>from to. io_err unsupported_operation),
      ac_reader_read = (\<lambda>(r, s). case buffer_take r of (b, r') \<Rightarrow> Some (b, r', s)),
      ac_writer_write = (\<lambda>bs. memory_writer_io (\<lambda>w. w_write memory_write_ops w bs)),
      ac_writer_close = memory_writer_io (w_close memory_write_ops),
      ac_writer_abort = memory_writer_io (w_abort memory_write_ops),
      ac_lister_next = (\<lambda>(l, s). map_option (\<lambda>(r, l'). (r, l', s)) (hierarchy_next memory_lister_next l)),
      ac_deleter_delete = (\<lambda>path args. memory_deleter_io (\<lambda>d. d_delete (one_shot_delete_ops memory_delete_once) d path args)),
      ac_deleter_close = memory_deleter_io (d_close (one_shot_delete_ops memory_delete_once)),
      ac_copier = unit_copy_ops\<rparr>"

section \<open>Readers and writers\<close>

lemma memory_reader_ops: "reader_ops (memory_accessor name root) = memory_read_ops root"
  by (simp add: reader_ops_def memory_accessor_def memory_read_ops_def io_total_def split_def fun_eq_iff)

text \<open>
  A writer of the key \<open>p\<close> on the store \<open>data\<close> that may replace what is there.
\<close>

definition memory_writer_free :: "memory_core \<Rightarrow> str \<Rightarrow> memory_writer \<Rightarrow> bool" where
  "memory_writer_free data p w \<longleftrightarrow>
     memory_writer_at data p w \<and> \<not> (ow_if_not_exists (mw_op w) \<and> map_of data p \<noteq> None)"

lemma memory_metadata_length: "metadata_content_length (memory_writer_metadata op n) = of_nat n"
  by (cases "ow_cache_control op"; cases "ow_content_disposition op"; cases "ow_content_type op"; cases "ow_content_encoding op")
    (simp_all add: memory_writer_metadata_def metadata_content_length_def md_set_content_length_def
      md_set_cache_control_def md_set_content_disposition_def md_set_content_type_def md_set_content_encoding_def Let_def)

lemma memory_writer_free_write:
  assumes "memory_writer_free data p w" "buffer_ok bs" "buffer_view bs \<noteq> []" "memory_writer_write w bs = (r, w')"
  shows "r = Ok ()" "memory_writer_free data p w'" "memory_writer_writes w' = memory_writer_writes w @ [buffer_view bs]"
proof -
  have at: "memory_writer_at data p w" "memory_writer_inv w"
    using assms(1) by (auto simp: memory_writer_free_def memory_writer_at_def)
  note w = memory_writer_write_writes[OF at(2) assms(2-4)] memory_writer_write_at[OF at(1) assms(4)]
  have "mw_op w' = mw_op w" using assms(4) by (auto simp: memory_writer_write_def Let_def)
  with w assms(1) show "r = Ok ()" "memory_writer_free data p w'" "memory_writer_writes w' = memory_writer_writes w @ [buffer_view bs]"
    by (auto simp: memory_writer_free_def memory_writer_at_def)
qed

text \<open>The bytes at \<open>p\<close>, in a store that differs from \<open>data\<close> in a well-formed object at \<open>p\<close> only.\<close>

definition memory_object :: "memory_core \<Rightarrow> str \<Rightarrow> memory_core \<Rightarrow> bytes option" where
  "memory_object data p s =
     (case memory_get s p of
        None \<Rightarrow> None
      | Some v \<Rightarrow>
          (if buffer_ok (mv_content v) \<and> s = bt_insert p v data \<and>
              metadata_content_length (mv_metadata v) = of_nat (length (buffer_view (mv_content v)))
           then Some (buffer_view (mv_content v)) else None))"

lemma memory_writer_free_close:
  assumes "memory_writer_free data p w"
  shows "\<exists>m w'. memory_writer_close w = (Ok m, w') \<and>
    metadata_content_length m = of_nat (length (concat (memory_writer_writes w))) \<and>
    memory_object data p (mw_core w') = Some (concat (memory_writer_writes w))"
proof -
  have at: "memory_writer_at data p w" "memory_writer_inv w" "bt_ok data" "mw_core w = data" "mw_path w = p"
    using assms by (auto simp: memory_writer_free_def memory_writer_at_def memory_writer_inv_def)
  obtain r w' where r: "memory_writer_close w = (r, w')" by force
  let ?v = "\<lambda>content. \<lparr>mv_metadata = memory_writer_metadata (mw_op w) (buffer_len content), mv_content = content\<rparr>"
  from at(2) r obtain content where c: "buffer_ok content" "buffer_view content = concat (memory_writer_writes w)"
    "r = Ok (memory_writer_metadata (mw_op w) (buffer_len content))" "mw_core w' = bt_insert p (?v content) data"
    by (rule memory_writer_close_cases) (use assms at in \<open>auto simp: memory_writer_free_def split: if_splits\<close>)
  have "memory_object data p (mw_core w') = Some (concat (memory_writer_writes w))"
    using c map_of_bt_insert[OF at(3), of p "?v content"] buffer_ok_len[OF c(1)]
    by (simp add: memory_object_def memory_get_def memory_metadata_length)
  with r c buffer_ok_len[OF c(1)] show ?thesis by (auto simp: memory_metadata_length)
qed

interpretation memf: reliable_writer memory_write_ops "memory_writer_free data p" memory_writer_writes
  "\<lambda>w. memory_object data p (mw_core w)"
proof
  fix w bs e w' m
  let ?ok = "memory_writer_free data p w"
  show "memory_writer_free data p w' \<and> memory_writer_writes w' = memory_writer_writes w @ [buffer_view bs]"
    if "?ok" "buffer_ok bs" "buffer_view bs \<noteq> []" "w_write memory_write_ops w bs = (Ok (), w')"
    using memory_writer_free_write[OF that(1-3)] that(4) by (simp add: memory_write_ops_def)
  show "memory_writer_free data p w' \<and> memory_writer_writes w' = memory_writer_writes w"
    if "?ok" "buffer_ok bs" "buffer_view bs \<noteq> []" "w_write memory_write_ops w bs = (Err e, w')"
    using memory_writer_free_write(1)[OF that(1-3)] that(4) by (simp add: memory_write_ops_def)
  show "fst (w_write memory_write_ops w bs) \<noteq> Panic"
    if "?ok" "buffer_ok bs" "buffer_view bs \<noteq> []"
    using memory_writer_free_write(1)[OF that, of "fst (memory_writer_write w bs)" "snd (memory_writer_write w bs)"]
    by (simp add: memory_write_ops_def)
  show "memory_object data p (mw_core w') = Some (concat (memory_writer_writes w))"
    if "?ok" "w_close memory_write_ops w = (Ok m, w')"
    using memory_writer_free_close[OF that(1)] that(2) by (auto simp: memory_write_ops_def)
  show "\<exists>w'. w_write memory_write_ops w bs = (Ok (), w')" if "?ok" "buffer_ok bs" "buffer_view bs \<noteq> []"
    using memory_writer_free_write(1)[OF that, of "fst (memory_writer_write w bs)" "snd (memory_writer_write w bs)"]
    by (metis memory_write_ops_def prod.collapse write_ops.select_convs(1))
  show "\<exists>m w'. w_close memory_write_ops w = (Ok m, w') \<and>
      metadata_content_length m = of_nat (length (concat (memory_writer_writes w)))" if "?ok"
    using memory_writer_free_close[OF that] by (auto simp: memory_write_ops_def)
qed

text \<open>The writers of the accessor, while nothing else changes the store.\<close>

definition on_store :: "memory_writer \<times> memory_core \<Rightarrow> memory_writer" where
  "on_store = (\<lambda>(w, s). w\<lparr>mw_core := s\<rparr>)"

lemma on_store_self [simp]: "on_store (w, mw_core w) = w"
  by (simp add: on_store_def)

lemma memory_writer_ops:
  "w_write (writer_ops (memory_accessor name root)) x bs =
     (case memory_writer_write (on_store x) bs of (r, w') \<Rightarrow> (r, w', mw_core w'))"
  "w_close (writer_ops (memory_accessor name root)) x =
     (case memory_writer_close (on_store x) of (r, w') \<Rightarrow> (r, w', mw_core w'))"
  by (simp_all add: writer_ops_def memory_accessor_def memory_writer_io_def memory_write_ops_def io_total_def
      on_store_def split_def)

interpretation memw: reliable_writer "writer_ops (memory_accessor name root)"
  "\<lambda>x. memory_writer_free data p (on_store x)" "\<lambda>x. memory_writer_writes (on_store x)"
  "\<lambda>(w, s). memory_object data p s"
proof -
  have eq: "(\<lambda>(w, s). memory_object data p s) = (\<lambda>x. memory_object data p (mw_core (on_store x)))"
    by (auto simp: on_store_def)
  show "reliable_writer (writer_ops (memory_accessor name root)) (\<lambda>x. memory_writer_free data p (on_store x))
      (\<lambda>x. memory_writer_writes (on_store x)) (\<lambda>(w, s). memory_object data p s)"
    unfolding eq by (rule reliable_writer_wrap[OF memf.reliable_writer_axioms])
      (auto simp: memory_writer_ops memory_write_ops_def split: prod.splits)
qed

section \<open>Listers\<close>

definition memory_dirs :: "str \<Rightarrow> memory_core \<Rightarrow> str \<Rightarrow> bool" where
  "memory_dirs root data p \<longleftrightarrow> root_ok root \<and> store_ok root data \<and> (p = ''/'' \<or> path_ok p \<and> ends_with_char p slash)"

text \<open>The direct entries of a directory, and how deep the store goes.\<close>

definition memory_lister_of :: "str \<Rightarrow> memory_core \<Rightarrow> str \<Rightarrow> memory_lister" where
  "memory_lister_of root data p = memory_lister_new root (memory_scan data (tl root @ list_base p))"

definition memory_kids :: "str \<Rightarrow> memory_core \<Rightarrow> str \<Rightarrow> oio_entry list" where
  "memory_kids root data p =
     hierarchy_contents memory_contents (hierarchy_new (memory_lister_of root data p) p False)"

definition memory_ht :: "str \<Rightarrow> memory_core \<Rightarrow> str \<Rightarrow> nat" where
  "memory_ht root data p = Suc (sum_list (map (length \<circ> fst) data)) - length (list_base p)"

text \<open>The entries a listing keeps are files or directories, as their paths say.\<close>

definition mode_of_path :: "str \<Rightarrow> entry_mode" where
  "mode_of_path p = (if ends_with_char p slash then DIR else FILE)"

lemma child_of_cases:
  assumes "starts_with q p"
  obtains (leaf) "child_of p q = q" "slash \<notin> set (drop (length p) q)"
  | (dir) t where "child_of p q = p @ t @ [slash]" "slash \<notin> set t" "starts_with q (p @ t @ [slash])"
proof (cases "find_char (drop (length p) q) slash")
  case None
  then show ?thesis using leaf by (simp add: child_of_def find_char_None_iff)
next
  case (Some i)
  from assms obtain r where r: "q = p @ r" by (auto simp: starts_with_iff)
  with Some have i: "find_char r slash = Some i" by simp
  have "child_of p q = p @ take (Suc i) r" using Some r by (simp add: child_of_def)
  also have "take (Suc i) r = take i r @ [slash]"
    using find_char_Some_D[OF i] by (simp add: take_Suc_conv_app_nth)
  finally have c: "child_of p q = p @ take i r @ [slash]" .
  have "starts_with q (p @ take i r @ [slash])"
    using arg_cong[OF find_char_split[OF i], of "(@) p"] unfolding starts_with_iff r append_assoc append_Cons append_Nil by blast
  with c dir[of "take i r"] i show ?thesis by (simp add: find_char_Some_iff)
qed

definition plain_entry :: "oio_entry \<Rightarrow> bool" where
  "plain_entry e \<longleftrightarrow> oe_meta e = metadata_new (mode_of_path (oe_path e))"

lemma plain_entry_mode: "plain_entry e \<Longrightarrow> oio_entry_mode e = mode_of_path (oe_path e)"
  by (simp add: plain_entry_def oio_entry_mode_def metadata_new_def)

lemma keep_entry_plain:
  assumes "keep_entry p v e = (True, e', v')" "plain_entry e"
  shows "plain_entry e'"
proof (cases "find_char (drop (length p) (oe_path e)) slash")
  case None
  with assms show ?thesis by (auto simp: keep_entry_def split: if_splits)
next
  case (Some i)
  from find_char_Some_D[OF Some] have "i + length p < length (oe_path e)" "oe_path e ! (i + length p) = slash"
    by (auto simp: add.commute)
  then have "ends_with_char (take (Suc (i + length p)) (oe_path e)) slash"
    by (simp add: ends_with_char_def take_Suc_conv_app_nth)
  with assms Some show ?thesis
    by (auto simp: keep_entry_def Let_def plain_entry_def mode_of_path_def oio_entry_set_mode_def oio_entry_set_path_def
        metadata_new_def md_set_mode_def split: if_splits)
qed

lemma hierarchy_walk_plain:
  "\<forall>e\<in>set es. plain_entry e \<Longrightarrow> \<forall>e\<in>set (hierarchy_walk p v es). plain_entry e"
proof (induction es arbitrary: v)
  case (Cons e es)
  then show ?case
    by (cases rule: hierarchy_walk_Cons_cases[of p v e es]) (use keep_entry_plain[of p v e] in auto)
qed simp

lemma ends_with_append: "t \<noteq> [] \<Longrightarrow> ends_with_char (s @ t) c \<longleftrightarrow> ends_with_char t c"
  by (simp add: ends_with_char_def)

lemma memory_entry_plain:
  "root_ok root \<Longrightarrow> path_ok p \<Longrightarrow> plain_entry (memory_entry root (tl root @ p))"
  using memory_entry_path[of root p]
  by (simp add: memory_entry_def plain_entry_def oio_entry_new_def oio_entry_with_def
      mode_of_path_def ends_with_append path_ok_def)

lemma memory_contents_plain:
  assumes "root_ok root" "store_ok root data"
  shows "\<forall>e\<in>set (memory_contents (memory_lister_of root data p)). plain_entry e"
proof -
  have "set (ml_keys (memory_lister_of root data p)) \<subseteq> fst ` set data"
    using assms(2) by (auto simp: memory_lister_of_def memory_lister_new_def memory_scan_eq store_ok_def)
  then show ?thesis
    using memory_entry_plain[OF assms(1)] assms(2) unfolding store_ok_def
    by (auto simp: memory_contents_def memory_lister_of_def memory_lister_new_def dest!: subsetD)
qed

text \<open>The paths that may be listed, whether they name a directory or are the prefix of names.\<close>

definition memory_listable :: "str \<Rightarrow> memory_core \<Rightarrow> str \<Rightarrow> bool" where
  "memory_listable root data p \<longleftrightarrow> root_ok root \<and> store_ok root data \<and> (p = ''/'' \<or> path_ok p)"

lemma memory_dirs_listable: "memory_dirs root data p \<Longrightarrow> memory_listable root data p"
  by (auto simp: memory_dirs_def memory_listable_def)

lemma memory_kids_entries:
  assumes "memory_listable root data p"
  shows "oe_path ` set (memory_kids root data p) =
      child_of (list_base p) ` {q \<in> store_paths root data. starts_with q (list_base p)}"
    "\<forall>v\<in>set (memory_kids root data p). oio_entry_mode v = mode_of_path (oe_path v)"
    "\<forall>v\<in>set (memory_kids root data p). plain_entry v"
proof -
  have p: "root_ok root" "store_ok root data" "p = ''/'' \<or> path_ok p"
    using assms by (auto simp: memory_listable_def)
  let ?l = "memory_lister_of root data p"
  note ml = memory_list_lister[OF p, folded memory_lister_of_def]
  have k: "memory_kids root data p = hierarchy_walk (list_base p) {} (memory_contents ?l)"
    by (simp add: memory_kids_def hierarchy_contents_def hierarchy_new_def list_base_def)
  have "{q \<in> oe_path ` set (memory_contents ?l). starts_with q (list_base p)} =
      {q \<in> store_paths root data. starts_with q (list_base p)}" using ml(4) by auto
  then show "oe_path ` set (memory_kids root data p) =
      child_of (list_base p) ` {q \<in> store_paths root data. starts_with q (list_base p)}"
    using hierarchy_walk_paths[of "{}" "list_base p" "memory_contents ?l"] k by simp
  from k hierarchy_walk_plain[OF memory_contents_plain[OF p(1,2)]]
  show "\<forall>v\<in>set (memory_kids root data p). plain_entry v" by simp
  with plain_entry_mode show "\<forall>v\<in>set (memory_kids root data p). oio_entry_mode v = mode_of_path (oe_path v)" by blast
qed

lemma store_paths_length:
  "q \<in> store_paths root data \<Longrightarrow> length q \<le> sum_list (map (length \<circ> fst) data)"
proof -
  assume "q \<in> store_paths root data"
  then obtain k where "k \<in> set data" "length q \<le> (length \<circ> fst) k" by (force simp: store_paths_def)
  with member_le_sum_list[of "(length \<circ> fst) k" "map (length \<circ> fst) data"] show ?thesis by auto
qed

lemma path_ok_prefix: "path_ok (p @ q) \<Longrightarrow> p \<noteq> [] \<Longrightarrow> path_ok p"
  by (cases p) (auto simp: path_ok_def valid_str_def starts_with_char_def)

text \<open>A sub-directory of a directory.\<close>

lemma memory_kids_dir:
  assumes "memory_dirs root data p" "v \<in> set (memory_kids root data p)" "oio_entry_mode v = DIR"
  shows "memory_dirs root data (oe_path v)" "oe_path v \<noteq> ''/''"
    "oe_path v \<noteq> p \<Longrightarrow> length (list_base p) < length (oe_path v)"
    "length (oe_path v) \<le> sum_list (map (length \<circ> fst) data)"
proof -
  have "oe_path v \<in> child_of (list_base p) ` {q \<in> store_paths root data. starts_with q (list_base p)}"
    using assms(2) unfolding memory_kids_entries(1)[OF memory_dirs_listable[OF assms(1)], symmetric] by (rule imageI)
  then obtain q where
    q: "q \<in> store_paths root data" "starts_with q (list_base p)" "oe_path v = child_of (list_base p) q"
    by blast
  have qok: "path_ok q" using q(1) by (simp add: store_paths_def)
  have e: "ends_with_char (oe_path v) slash"
    using memory_kids_entries(2)[OF memory_dirs_listable[OF assms(1)]] assms(2,3) by (auto simp: mode_of_path_def split: if_splits)
  have pre: "\<exists>t. q = oe_path v @ t"
    using q(2,3) by (cases rule: child_of_cases[OF q(2)]) (auto simp: starts_with_iff)
  have ne: "oe_path v \<noteq> []" using e by (simp add: ends_with_char_def)
  with pre qok path_ok_prefix have ok: "path_ok (oe_path v)" by blast
  then show "oe_path v \<noteq> ''/''" by (auto simp: path_ok_def starts_with_char_def)
  show "memory_dirs root data (oe_path v)" using assms(1) ok e by (simp add: memory_dirs_def)
  show "length (oe_path v) \<le> sum_list (map (length \<circ> fst) data)"
    using pre store_paths_length[OF q(1)] by auto
  show "length (list_base p) < length (oe_path v)" if "oe_path v \<noteq> p"
  proof (cases rule: child_of_cases[OF q(2), case_names leaf dir])
    case leaf
    then have "oe_path v = q" using q(3) by simp
    moreover obtain r where "q = list_base p @ r" using q(2) by (auto simp: starts_with_iff)
    ultimately have r: "oe_path v = list_base p @ r" "slash \<notin> set r" using leaf(2) by auto
    with e have "r = []" by (cases r rule: rev_cases) (auto simp: ends_with_char_def)
    with r ne that show ?thesis by (auto simp: list_base_def split: if_splits)
  next
    case (dir t)
    then show ?thesis using q(3) by simp
  qed
qed

definition memory_lister_ok :: "memory_lister hierarchy_lister \<Rightarrow> bool" where
  "memory_lister_ok h \<longleftrightarrow> memory_lister_inv (hl_lister h)"

interpretation memdl: dir_lister "ac_list (memory_accessor name root)" "ac_lister_next (memory_accessor name root)"
  "\<lambda>s. s = data" memory_lister_ok "hierarchy_contents memory_contents"
  "memory_kids root data" "memory_dirs root data" "memory_ht root data"
proof
  fix s p v and l :: "memory_lister hierarchy_lister" and e es
  show "(\<exists>l s'. ac_list (memory_accessor name root) p op_list_default s = Some (Ok l, s') \<and> s' = data \<and>
        memory_lister_ok l \<and> hierarchy_contents memory_contents l = memory_kids root data p) \<or>
      (\<exists>e s'. ac_list (memory_accessor name root) p op_list_default s = Some (Err e, s') \<and>
         (e_kind e = PermissionDenied \<or> e_kind e = NotFound) \<and> s' = data \<and> memory_kids root data p = [])"
    if "s = data" "memory_dirs root data p"
  proof -
    have p: "root_ok root" "store_ok root data" "p = ''/'' \<or> path_ok p"
      using that(2) by (auto simp: memory_dirs_def)
    note ml = memory_list_lister[OF p, folded memory_lister_of_def]
    have "ol_recursive op_list_default = False" by (simp add: op_list_default_def)
    with ml(1,2) that(1) show ?thesis
      by (simp add: memory_accessor_def memory_lister_ok_def memory_kids_def hierarchy_new_def)
  qed
  note h = meml.hierarchy_lister
  show "\<exists>l' s'. ac_lister_next (memory_accessor name root) (l, s) = Some (Ok (Some e), l', s') \<and> s' = data \<and>
      memory_lister_ok l' \<and> hierarchy_contents memory_contents l' = es"
    if "s = data" "memory_lister_ok l" "hierarchy_contents memory_contents l = e # es"
    using finite_lister.next_Some[OF h _ that(3)] that(1,2) by (auto simp: memory_accessor_def memory_lister_ok_def)
  show "\<exists>l' s'. ac_lister_next (memory_accessor name root) (l, s) = Some (Ok None, l', s') \<and> s' = data \<and>
      memory_lister_ok l' \<and> hierarchy_contents memory_contents l' = []"
    if "s = data" "memory_lister_ok l" "hierarchy_contents memory_contents l = []"
    using finite_lister.next_None[OF h _ that(3)] that(1,2) by (auto simp: memory_accessor_def memory_lister_ok_def)
  show "memory_dirs root data (oe_path v)"
    if "memory_dirs root data p" "v \<in> set (memory_kids root data p)" "oio_entry_mode v = DIR"
    using memory_kids_dir(1)[OF that] .
  show "memory_ht root data (oe_path v) < memory_ht root data p"
    if "memory_dirs root data p" "v \<in> set (memory_kids root data p)" "oio_entry_mode v = DIR" "oe_path v \<noteq> p"
    using memory_kids_dir(2-)[OF that(1-3)] that(4) by (auto simp: memory_ht_def list_base_def split: if_splits)
qed

text \<open>The lister of the accessor, whose keys are those of the store when it was opened.\<close>

interpretation memal: finite_lister "ac_lister_next (memory_accessor name root)"
  "\<lambda>(l, s). hierarchy_contents memory_contents l" "\<lambda>(l, s). memory_lister_ok l"
proof
  fix x e es
  show "\<exists>y. ac_lister_next (memory_accessor name root) x = Some (Ok (Some e), y) \<and> (case y of (l, s) \<Rightarrow> memory_lister_ok l) \<and>
      (case y of (l, s) \<Rightarrow> hierarchy_contents memory_contents l) = es"
    if "case x of (l, s) \<Rightarrow> memory_lister_ok l" "(case x of (l, s) \<Rightarrow> hierarchy_contents memory_contents l) = e # es"
    using finite_lister.next_Some[OF meml.hierarchy_lister, of "fst x" e es] that
    by (auto simp: memory_accessor_def memory_lister_ok_def split_def)
  show "\<exists>y. ac_lister_next (memory_accessor name root) x = Some (Ok None, y) \<and> (case y of (l, s) \<Rightarrow> memory_lister_ok l) \<and>
      (case y of (l, s) \<Rightarrow> hierarchy_contents memory_contents l) = []"
    if "case x of (l, s) \<Rightarrow> memory_lister_ok l" "(case x of (l, s) \<Rightarrow> hierarchy_contents memory_contents l) = []"
    using finite_lister.next_None[OF meml.hierarchy_lister, of "fst x"] that
    by (auto simp: memory_accessor_def memory_lister_ok_def split_def)
qed

lemma memory_ac_list:
  assumes "root_ok root" "store_ok root data" "path = ''/'' \<or> path_ok path"
  shows "ac_list (memory_accessor name root) path args data =
      Some (Ok (hierarchy_new (memory_lister_of root data path) path (ol_recursive args)), data)"
    "memory_lister_ok (hierarchy_new (memory_lister_of root data path) path r)"
  using memory_list_lister[OF assms, folded memory_lister_of_def]
  by (simp_all add: memory_accessor_def memory_lister_ok_def hierarchy_new_def)

section \<open>Recursive listings\<close>

lemma memory_kids_file:
  assumes "memory_listable root data p" "v \<in> set (memory_kids root data p)" "oio_entry_mode v \<noteq> DIR"
  shows "oe_path v \<in> store_paths root data" "starts_with (oe_path v) (list_base p)"
proof -
  have "oe_path v \<in> child_of (list_base p) ` {q \<in> store_paths root data. starts_with q (list_base p)}"
    using assms(2) unfolding memory_kids_entries(1)[OF assms(1), symmetric] by (rule imageI)
  then obtain q where
    q: "q \<in> store_paths root data" "starts_with q (list_base p)" "oe_path v = child_of (list_base p) q"
    by blast
  have "\<not> ends_with_char (oe_path v) slash"
    using memory_kids_entries(2)[OF assms(1)] assms(2,3) by (auto simp: mode_of_path_def split: if_splits)
  then have "oe_path v = q"
    using q(3) by (cases rule: child_of_cases[OF q(2), case_names leaf dir]) (auto simp: ends_with_char_def)
  with q show "oe_path v \<in> store_paths root data" "starts_with (oe_path v) (list_base p)" by simp_all
qed

lemma memory_kids_below:
  assumes "memory_listable root data p" "v \<in> set (memory_kids root data p)"
  shows "starts_with (oe_path v) (list_base p)"
proof -
  have "oe_path v \<in> child_of (list_base p) ` {q \<in> store_paths root data. starts_with q (list_base p)}"
    using assms(2) unfolding memory_kids_entries(1)[OF assms(1), symmetric] by (rule imageI)
  then obtain q where q: "starts_with q (list_base p)" "oe_path v = child_of (list_base p) q" by blast
  then show ?thesis
    by (cases rule: child_of_cases[OF q(1), case_names leaf dir]) (use q(1) in \<open>auto simp: starts_with_iff\<close>)
qed

lemma starts_with_trans: "starts_with a b \<Longrightarrow> starts_with b c \<Longrightarrow> starts_with a c"
  by (auto simp: starts_with_iff)

text \<open>The files found below a directory are the stored ones.\<close>

lemma memory_found_stored:
  assumes "found_below (memory_kids root data) p v" "memory_dirs root data p" "oio_entry_mode v \<noteq> DIR"
  shows "oe_path v \<in> store_paths root data \<and> starts_with (oe_path v) (list_base p)"
  using assms
proof induction
  case (found_direct v p)
  with memory_kids_file memory_dirs_listable show ?case by blast
next
  case (found_deeper u p v)
  from memory_kids_dir(1,2)[OF found_deeper.prems(1) found_deeper.hyps(1,2)]
    found_deeper.IH found_deeper.prems memory_kids_below[OF memory_dirs_listable[OF found_deeper.prems(1)] found_deeper.hyps(1)]
  show ?case using starts_with_trans by (auto simp: list_base_def split: if_splits)
qed

lemma memory_stored_found:
  assumes "memory_dirs root data p" "q \<in> store_paths root data" "starts_with q (list_base p)"
    "\<not> ends_with_char q slash"
  shows "\<exists>v. found_below (memory_kids root data) p v \<and> oe_path v = q \<and> oio_entry_mode v = FILE"
  using assms
proof (induction "length q - length (list_base p)" arbitrary: p rule: less_induct)
  case less
  note k = memory_kids_entries[OF memory_dirs_listable[OF less.prems(1)]]
  have "child_of (list_base p) q \<in> oe_path ` set (memory_kids root data p)"
    unfolding k(1) using less.prems(2,3) by blast
  then obtain u where u: "u \<in> set (memory_kids root data p)" "oe_path u = child_of (list_base p) q" by auto
  note m = k(2)[rule_format, OF u(1)]
  show ?case
  proof (cases rule: child_of_cases[OF less.prems(3), case_names leaf dir])
    case leaf
    with u m less.prems(4) show ?thesis
      by (intro exI[of _ u]) (auto simp: mode_of_path_def intro: found_direct)
  next
    case (dir t)
    then have d: "oio_entry_mode u = DIR" using m u(2) by (simp add: mode_of_path_def ends_with_char_def)
    note kd = memory_kids_dir[OF less.prems(1) u(1) d]
    have base: "list_base (oe_path u) = list_base p @ t @ [slash]" using kd(2) dir u(2) by (simp add: list_base_def)
    have len: "length (list_base p @ t @ [slash]) \<le> length q" using dir(3) by (auto simp: starts_with_iff)
    have np: "oe_path u \<noteq> p"
    proof
      assume "oe_path u = p"
      with base kd(2) u(2) dir show False by (simp add: list_base_def split: if_splits)
    qed
    have "\<exists>v. found_below (memory_kids root data) (oe_path u) v \<and> oe_path v = q \<and> oio_entry_mode v = FILE"
      using len less.prems(2,4) kd(1) dir(3) by (intro less.hyps) (simp_all add: base)
    with u(1) d np show ?thesis using found_deeper[of u "memory_kids root data" p] by blast
  qed
qed

lemma memory_flat_files:
  assumes "memory_dirs root data p"
  shows "{oe_path v |v. v \<in> flat_listed (memory_kids root data) p \<and> oio_entry_mode v = FILE} =
    {q \<in> store_paths root data. starts_with q (list_base p) \<and> \<not> ends_with_char q slash}"
proof (intro equalityI subsetI)
  fix q assume "q \<in> {oe_path v |v. v \<in> flat_listed (memory_kids root data) p \<and> oio_entry_mode v = FILE}"
  then obtain v where v: "q = oe_path v" "found_below (memory_kids root data) p v" "oio_entry_mode v = FILE"
    by (auto simp: flat_listed_def)
  have "\<not> ends_with_char (oe_path v) slash" using v(2,3) assms
  proof induction
    case (found_direct v p)
    with memory_kids_entries(2)[OF memory_dirs_listable[OF found_direct.prems(2)]] show ?case by (auto simp: mode_of_path_def split: if_splits)
  next
    case (found_deeper u p v)
    with memory_kids_dir(1) show ?case by blast
  qed
  with v memory_found_stored[OF v(2) assms] show
    "q \<in> {q \<in> store_paths root data. starts_with q (list_base p) \<and> \<not> ends_with_char q slash}" by simp
next
  fix q assume "q \<in> {q \<in> store_paths root data. starts_with q (list_base p) \<and> \<not> ends_with_char q slash}"
  with memory_stored_found[OF assms, of q] show
    "q \<in> {oe_path v |v. v \<in> flat_listed (memory_kids root data) p \<and> oio_entry_mode v = FILE}"
    by (auto simp: flat_listed_def)
qed

section \<open>Properties\<close>

text \<open>The files among entries.\<close>

definition files_of :: "oio_entry list \<Rightarrow> str set" where
  "files_of es = {oe_path v |v. v \<in> set es \<and> oio_entry_mode v = FILE}"

text \<open>
  C7: On the memory service, the recursive listing that \<open>FlatLister\<close> builds from listings of single
  directories and the recursive listing of the service itself end with the same set of files.
\<close>

theorem flat_list_native:
  assumes "memory_dirs root data p" "ol_recursive args"
  shows "\<exists>n m es l fs.
    list_all_entries n (flat_next (ac_list (memory_accessor name root)) (ac_lister_next (memory_accessor name root)))
      (flat_new p, data) = Some es \<and>
    ac_list (memory_accessor name root) p args data = Some (Ok l, data) \<and>
    list_all_entries m (ac_lister_next (memory_accessor name root)) (l, data) = Some fs \<and> files_of es = files_of fs"
proof -
  have p: "root_ok root" "store_ok root data" "p = ''/'' \<or> path_ok p" "p \<noteq> []"
    using assms(1) by (auto simp: memory_dirs_def path_ok_def)
  let ?l = "memory_lister_of root data p"
  let ?h = "hierarchy_new ?l p True"
  let ?stored = "{q \<in> store_paths root data. starts_with q (list_base p) \<and> \<not> ends_with_char q slash}"
  obtain n es where es: "list_all_entries n (flat_next (ac_list (memory_accessor name root))
      (ac_lister_next (memory_accessor name root))) (flat_new p, data) = Some es"
    "set es = (if memory_kids root data p = [] then {}
       else insert (oio_entry_new p (metadata_new DIR)) (flat_listed (memory_kids root data) p))"
    using memdl.flat_lists[OF refl assms(1) p(4), of name] by blast
  note nil = flat_listed_Nil[of "memory_kids root data" p]
  have "oio_entry_mode (oio_entry_new p (metadata_new DIR)) = DIR"
    by (simp add: oio_entry_mode_def oio_entry_new_def oio_entry_with_def metadata_new_def)
  with es(2) nil have "files_of es = {oe_path v |v. v \<in> flat_listed (memory_kids root data) p \<and> oio_entry_mode v = FILE}"
    by (auto simp: files_of_def split: if_splits)
  then have flat: "files_of es = ?stored" using memory_flat_files[OF assms(1)] by simp
  note ml = memory_list_lister[OF p(1-3), folded memory_lister_of_def]
  have "\<forall>e\<in>set (memory_contents ?l). oio_entry_mode e = mode_of_path (oe_path e)"
    using memory_contents_plain[OF p(1,2)] plain_entry_mode by blast
  then have "files_of (memory_contents ?l) = {q \<in> oe_path ` set (memory_contents ?l). \<not> ends_with_char q slash}"
    by (auto simp: files_of_def mode_of_path_def split: if_splits)
  then have native: "files_of (memory_contents ?l) = ?stored" unfolding ml(4) by auto
  have all: "list_all_entries (Suc (length (memory_contents ?l))) (ac_lister_next (memory_accessor name root)) (?h, data) =
      Some (memory_contents ?l)"
    using memal.list_all_entries_contents[of "(?h, data)" name root] memory_ac_list(2)[OF p(1-3), of True]
    by (simp add: hierarchy_contents_def hierarchy_new_def del: list_all_entries.simps)
  have l: "ac_list (memory_accessor name root) p args data = Some (Ok ?h, data)"
    using memory_ac_list(1)[OF p(1-3), of name args] assms(2) by simp
  have "files_of es = files_of (memory_contents ?l)" using flat native by simp
  then show ?thesis by (intro exI conjI) (rule es(1), rule l, rule all)
qed

text \<open>A small store, for the examples.\<close>

definition example_store :: memory_core where
  "example_store = [(''a/b/c'', empty_object), (''a/d'', empty_object), (''e'', empty_object)]"

lemma example_store_ok: "root_ok ''/''" "store_ok ''/'' example_store" "memory_dirs ''/'' example_store ''/''"
  "store_paths ''/'' example_store = {''a/b/c'', ''a/d'', ''e''}"
proof -
  show root: "root_ok ''/''" by (simp add: root_ok_def wf_root_def render_root_def valid_str_def)
  have paths: "path_ok ''a/b/c''" "path_ok ''a/d''" "path_ok ''e''"
    by (simp_all add: valid_str_def path_ok_def is_continuation_def)
  then show store: "store_ok ''/'' example_store" by (auto simp: example_store_def store_ok_def less_char_def)
  with root show "memory_dirs ''/'' example_store ''/''" by (simp add: memory_dirs_def)
  from paths show "store_paths ''/'' example_store = {''a/b/c'', ''a/d'', ''e''}"
    by (auto simp: example_store_def store_paths_def)
qed

theorem flat_list_native_witness:
  "\<exists>n m es l fs.
    list_all_entries n (flat_next (ac_list (memory_accessor [] ''/'')) (ac_lister_next (memory_accessor [] ''/'')))
      (flat_new ''/'', example_store) = Some es \<and>
    ac_list (memory_accessor [] ''/'') ''/'' (ol_with_recursive True op_list_default) example_store = Some (Ok l, example_store) \<and>
    list_all_entries m (ac_lister_next (memory_accessor [] ''/'')) (l, example_store) = Some fs \<and> files_of es = files_of fs"
  by (rule flat_list_native[OF example_store_ok(3)]) (simp add: ol_with_recursive_def)

theorem flat_lists_tree_witness:
  "\<exists>n es. list_all_entries n (flat_next (ac_list (memory_accessor [] ''/'')) (ac_lister_next (memory_accessor [] ''/'')))
      (flat_new ''/'', example_store) = Some es \<and> files_of es = {''a/b/c'', ''a/d'', ''e''}"
proof -
  let ?kids = "memory_kids ''/'' example_store"
  let ?d = "oio_entry_new ''/'' (metadata_new DIR)"
  have "{q \<in> {''a/b/c'', ''a/d'', ''e''}. starts_with q (list_base ''/'') \<and> \<not> ends_with_char q slash} = {''a/b/c'', ''a/d'', ''e''}"
    by (simp add: list_base_def starts_with_iff ends_with_char_def) auto
  then have files: "{oe_path v |v. v \<in> flat_listed ?kids ''/'' \<and> oio_entry_mode v = FILE} = {''a/b/c'', ''a/d'', ''e''}"
    unfolding memory_flat_files[OF example_store_ok(3)] example_store_ok(4) .
  have kids: "?kids ''/'' \<noteq> []"
  proof
    assume "?kids ''/'' = []"
    from files[unfolded flat_listed_Nil[of ?kids "''/''", OF this]] show False by simp
  qed
  obtain n es where es: "list_all_entries n (flat_next (ac_list (memory_accessor [] ''/''))
      (ac_lister_next (memory_accessor [] ''/''))) (flat_new ''/'', example_store) = Some es"
    "set es = (if ?kids ''/'' = [] then {} else insert ?d (flat_listed ?kids ''/''))"
    using flat_lists_tree[OF memdl.dir_lister_axioms[where name = "[]"] refl example_store_ok(3) list.distinct(2)]
    by (elim exE conjE) (rule that)
  have "oio_entry_mode ?d = DIR"
    by (simp add: oio_entry_mode_def oio_entry_new_def oio_entry_with_def metadata_new_def)
  then have "files_of es = {oe_path v |v. v \<in> flat_listed ?kids ''/'' \<and> oio_entry_mode v = FILE}"
    unfolding files_of_def es(2) if_not_P[OF kids] by auto
  then have "files_of es = {''a/b/c'', ''a/d'', ''e''}" unfolding files .
  with es(1) show ?thesis by blast
qed

end
