(* ===== verification/Operators.thy ===== *)
theory Operators
  imports Error_Context Simulate_Layer Complete_Layer Correctness_Check Copiers
begin

text \<open>
  The public \<open>Operator\<close> of \<open>core/core/src/types/operator/operator.rs\<close> over an accessor, and the default
  stack of layers of \<open>OperatorBuilder\<close> (\<open>operator/builder.rs\<close>).

  Every method normalises its path, checks it where the code does, and drives the objects of the accessor.
  An \<open>OperatorFuture\<close> is applied to the options it was given.  \<open>TypeEraseLayer\<close> only boxes the objects and
  is the identity here.  Where a writer or a reader of the accessor would not return, \<open>io_total\<close> stands in for
  it; the theorems are about stacks that do return.
\<close>

section \<open>The default stack\<close>

definition operator_new ::
  "('s, 'r, 'w, 'l, 'd, 'c) accessor \<Rightarrow>
     ('s, 'r ec_wrapper complete_reader, 'w ec_wrapper complete_writer, 'l ec_wrapper simulate_lister,
      'd ec_wrapper, 'c ec_wrapper) accessor" where
  "operator_new acc = correctness_layer (complete_layer (simulate_layer simulate_default (error_context_layer acc)))"

section \<open>Metadata and directories\<close>

definition path_error :: "error_kind \<Rightarrow> str \<Rightarrow> str \<Rightarrow> str \<Rightarrow> (str \<times> str) list \<Rightarrow> error" where
  "path_error kind msg op scheme ctx =
     fold (\<lambda>(k, v) e. with_context k v e) ctx
       (with_context ''service'' scheme (with_operation op (error_new kind msg)))"

definition operator_stat ::
  "('s, 'r, 'w, 'l, 'd, 'c) accessor \<Rightarrow> str \<Rightarrow> stat_options \<Rightarrow> ('s, metadata) io" where
  "operator_stat acc path opts = ac_stat acc (normalize_path path) (op_stat_from opts)"

definition operator_exists :: "('s, 'r, 'w, 'l, 'd, 'c) accessor \<Rightarrow> str \<Rightarrow> ('s, bool) io" where
  "operator_exists acc path s =
     (case operator_stat acc path stat_options_default s of
        None \<Rightarrow> None
      | Some (Ok _, s1) \<Rightarrow> Some (Ok True, s1)
      | Some (Err err, s1) \<Rightarrow> Some (if e_kind err = NotFound then Ok False else Err err, s1)
      | Some (Panic, s1) \<Rightarrow> Some (Panic, s1))"

definition operator_create_dir :: "('s, 'r, 'w, 'l, 'd, 'c) accessor \<Rightarrow> str \<Rightarrow> ('s, unit) io" where
  "operator_create_dir acc path =
     (let path = normalize_path path
      in if \<not> validate_path path DIR
         then io_err (path_error NotADirectory ''the path trying to create should end with `/`'' ''create_dir''
           (ai_scheme (ac_info acc)) [(''path'', path)])
         else ac_create_dir acc path)"

section \<open>Reading and writing\<close>

definition operator_reader ::
  "('s, 'r, 'w, 'l, 'd, 'c) accessor \<Rightarrow> str \<Rightarrow> reader_options \<Rightarrow> ('s, read_context) io" where
  "operator_reader acc path options =
     (let path = normalize_path path
      in if \<not> validate_path path FILE
         then io_err (path_error IsADirectory ''read path is a directory'' ''Operator::reader''
           (ai_scheme (ac_info acc)) [(''path'', path)])
         else let (args, opts) = op_reader_from options in io_ok (rc_new path args opts))"

definition operator_read ::
  "('s, 'r, 'w, 'l, 'd, 'c) accessor \<Rightarrow> 'r chunk_env \<Rightarrow> str \<Rightarrow> read_options \<Rightarrow>
     ('s, buffer) io" where
  "operator_read acc env path opts =
     (let path = normalize_path path
      in if \<not> validate_path path FILE
         then io_err (path_error IsADirectory ''read path is a directory'' ''read''
           (ai_scheme (ac_info acc)) [(''path'', path)])
         else let (args, opts) = op_read_from opts
              in case br_to_range (ord_range args) of
                   None \<Rightarrow> io_res Panic
                 | Some (lo, hi) \<Rightarrow> reader_read (reader_ops acc) env (rc_new path args opts) lo hi)"

text \<open>The context of the reader behind \<open>Operator::read\<close>, which its tasks share.\<close>

definition operator_read_context :: "str \<Rightarrow> read_options \<Rightarrow> read_context" where
  "operator_read_context path opts = (let (args, ropts) = op_read_from opts in rc_new (normalize_path path) args ropts)"

text \<open>\<open>Writer::new\<close>: the generator holds the writer together with the service.\<close>

definition writer_open ::
  "('s, 'r, 'w, 'l, 'd, 'c) accessor \<Rightarrow> str \<Rightarrow> op_write \<Rightarrow> op_writer \<Rightarrow> ('s, ('w \<times> 's) write_generator) io" where
  "writer_open acc path args opts s =
     map_option
       (\<lambda>(r, s1). (wg_create (ai_full_capability (ac_info acc)) opts (map_res (\<lambda>w. (w, s1)) r), s1))
       (ac_write acc path args s)"

definition operator_writer ::
  "('s, 'r, 'w, 'l, 'd, 'c) accessor \<Rightarrow> str \<Rightarrow> write_options \<Rightarrow> ('s, ('w \<times> 's) write_generator) io" where
  "operator_writer acc path opts =
     (let path = normalize_path path
      in if \<not> validate_path path FILE
         then io_err (path_error IsADirectory ''write path is a directory'' ''Operator::writer''
           (ai_scheme (ac_info acc)) [(''path'', path)])
         else let (args, opts) = op_write_from opts in writer_open acc path args opts)"

definition operator_write ::
  "('s, 'r, 'w, 'l, 'd, 'c) accessor \<Rightarrow> str \<Rightarrow> buffer \<Rightarrow> write_options \<Rightarrow> ('s, metadata) io" where
  "operator_write acc path bs opts =
     (let path = normalize_path path
      in if \<not> validate_path path FILE
         then io_err (path_error IsADirectory ''write path is a directory'' ''Operator::write''
           (ai_scheme (ac_info acc)) [(''path'', path)])
         else let (args, opts) = op_write_from opts
              in io_bind (writer_open acc path args opts) (\<lambda>g _.
                   case writer_write (writer_ops acc) g bs of
                     None \<Rightarrow> None
                   | Some (Ok _, g1) \<Rightarrow>
                       (case writer_close (writer_ops acc) g1 of (r, g2) \<Rightarrow> Some (r, snd (wg_w g2)))
                   | Some (Err e, g1) \<Rightarrow> Some (Err e, snd (wg_w g1))
                   | Some (Panic, g1) \<Rightarrow> Some (Panic, snd (wg_w g1))))"

section \<open>Copy and rename\<close>

text \<open>The checks of \<open>copy\<close>, \<open>copier\<close> and \<open>rename\<close>.\<close>

definition two_paths_check :: "str \<Rightarrow> str \<Rightarrow> str \<Rightarrow> str \<Rightarrow> error option" where
  "two_paths_check op scheme from to =
     (if \<not> validate_path from FILE
      then Some (path_error IsADirectory ''from path is a directory'' op scheme [(''from'', from)])
      else if \<not> validate_path to FILE
      then Some (path_error IsADirectory ''to path is a directory'' op scheme [(''to'', to)])
      else if from = to
      then Some (path_error IsSameFile ''from and to paths are same'' op scheme [(''from'', from), (''to'', to)])
      else None)"

definition copier_inner ::
  "('s, 'r, 'w, 'l, 'd, 'c) accessor \<Rightarrow> str \<Rightarrow> str \<Rightarrow> copy_options \<Rightarrow> ('s, 'c copier) io" where
  "copier_inner acc from to opts =
     (case two_paths_check ''Operator::copier'' (ai_scheme (ac_info acc)) from to of
        Some e \<Rightarrow> io_err e
      | None \<Rightarrow> (let (args, opts) = op_copy_from opts in copier_create acc from to args opts))"

definition operator_copier ::
  "('s, 'r, 'w, 'l, 'd, 'c) accessor \<Rightarrow> str \<Rightarrow> str \<Rightarrow> copy_options \<Rightarrow> ('s, 'c copier) io" where
  "operator_copier acc from to opts = copier_inner acc (normalize_path from) (normalize_path to) opts"

definition operator_copy ::
  "('s, 'r, 'w, 'l, 'd, 'c) accessor \<Rightarrow> str \<Rightarrow> str \<Rightarrow> copy_options \<Rightarrow> ('s, metadata) io" where
  "operator_copy acc from to opts =
     (let from = normalize_path from; to = normalize_path to
      in case two_paths_check ''Operator::copy'' (ai_scheme (ac_info acc)) from to of
           Some e \<Rightarrow> io_err e
         | None \<Rightarrow>
             io_bind (copier_inner acc from to opts) (\<lambda>copier s.
               case copier_close (ac_copier acc) (copier, s) of
                 None \<Rightarrow> None
               | Some (Ok meta, cp, s1) \<Rightarrow> Some (Ok meta, s1)
               | Some (Err err, cp, s1) \<Rightarrow>
                   map_option (\<lambda>(r, cp2, s2). (case r of Panic \<Rightarrow> Panic | _ \<Rightarrow> Err err, s2))
                     (copier_abort (ac_copier acc) (cp, s1))
               | Some (Panic, cp, s1) \<Rightarrow> Some (Panic, s1)))"

definition operator_rename :: "('s, 'r, 'w, 'l, 'd, 'c) accessor \<Rightarrow> str \<Rightarrow> str \<Rightarrow> ('s, unit) io" where
  "operator_rename acc from to =
     (let from = normalize_path from; to = normalize_path to
      in case two_paths_check (operation_into_static OpRename) (ai_scheme (ac_info acc)) from to of
           Some e \<Rightarrow> io_err e
         | None \<Rightarrow> ac_rename acc from to)"

section \<open>Deleting\<close>

definition operator_delete :: "('s, 'r, 'w, 'l, 'd, 'c) accessor \<Rightarrow> str \<Rightarrow> delete_options \<Rightarrow> ('s, unit) io" where
  "operator_delete acc path opts =
     (let path = normalize_path path
      in io_bind (ac_delete acc) (\<lambda>deleter.
         io_local deleter
           (io_bind (ac_deleter_delete acc path (op_delete_from opts)) (\<lambda>_. ac_deleter_close acc))))"

definition operator_delete_iter :: "('s, 'r, 'w, 'l, 'd, 'c) accessor \<Rightarrow> delete_input list \<Rightarrow> ('s, unit) io" where
  "operator_delete_iter acc is =
     io_bind (ac_delete acc) (\<lambda>deleter.
     io_local deleter
       (io_bind (\<lambda>d. deleter_delete_iter (deleter_ops acc) d is) (\<lambda>_ d. deleter_close (deleter_ops acc) d)))"

definition operator_delete_try_iter ::
  "('s, 'r, 'w, 'l, 'd, 'c) accessor \<Rightarrow> (error + delete_input) list \<Rightarrow> ('s, unit) io" where
  "operator_delete_try_iter acc is =
     io_bind (ac_delete acc) (\<lambda>deleter.
     io_local deleter
       (io_bind (\<lambda>d. deleter_delete_try_iter (deleter_ops acc) d is) (\<lambda>_ d. deleter_close (deleter_ops acc) d)))"

definition operator_remove_all :: "('s, 'r, 'w, 'l, 'd, 'c) accessor \<Rightarrow> str \<Rightarrow> ('s, unit) io" where
  "operator_remove_all acc path = operator_delete acc path (delete_options_default\<lparr>do_recursive := True\<rparr>)"

section \<open>Listing\<close>

text \<open>\<open>try_collect\<close> of the stream \<open>Lister\<close>: it ends with the first error or after the last entry.\<close>

partial_function (option) lister_collect ::
  "('l \<times> 's, oio_entry option) io \<Rightarrow> entry list \<Rightarrow> 'l \<Rightarrow> 's \<Rightarrow> (entry list res \<times> 's) option" where
  "lister_collect nxt es l s =
     (case nxt (l, s) of
        None \<Rightarrow> None
      | Some (Ok (Some e), l1, s1) \<Rightarrow> lister_collect nxt (es @ [into_entry e]) l1 s1
      | Some (Ok None, l1, s1) \<Rightarrow> Some (Ok es, s1)
      | Some (Err e, l1, s1) \<Rightarrow> Some (Err e, s1)
      | Some (Panic, l1, s1) \<Rightarrow> Some (Panic, s1))"

definition operator_lister :: "('s, 'r, 'w, 'l, 'd, 'c) accessor \<Rightarrow> str \<Rightarrow> list_options \<Rightarrow> ('s, 'l lister) io" where
  "operator_lister acc path opts =
     io_map (\<lambda>l. \<lparr>li_lister = Some l, li_errored = False\<rparr>) (ac_list acc (normalize_path path) (op_list_from opts))"

definition operator_list :: "('s, 'r, 'w, 'l, 'd, 'c) accessor \<Rightarrow> str \<Rightarrow> list_options \<Rightarrow> ('s, entry list) io" where
  "operator_list acc path opts =
     io_bind (ac_list acc (normalize_path path) (op_list_from opts)) (\<lambda>l s. lister_collect (ac_lister_next acc) [] l s)"

definition operator_check :: "('s, 'r, 'w, 'l, 'd, 'c) accessor \<Rightarrow> ('s, unit) io" where
  "operator_check acc =
     io_bind (ac_list acc (normalize_path ''/'') (op_list_from (list_options_default\<lparr>lo_limit := Some 1\<rparr>))) (\<lambda>l s.
       case ac_lister_next acc (l, s) of
         None \<Rightarrow> None
       | Some (Err e, l1, s1) \<Rightarrow> Some (if e_kind e \<noteq> NotFound then Err e else Ok (), s1)
       | Some (Ok _, l1, s1) \<Rightarrow> Some (Ok (), s1)
       | Some (Panic, l1, s1) \<Rightarrow> Some (Panic, s1))"

section \<open>The stack keeps the contracts\<close>

lemma operator_new_info: "ac_info (operator_new acc) = simulate_info simulate_default (ac_info acc)"
  by (simp add: operator_new_def correctness_layer_def complete_layer_def simulate_layer_def error_context_layer_def)

lemma simulate_info_keeps:
  "ai_native_capability (simulate_info c i) = ai_native_capability i"
  "cap_write_multi_min_size (ai_full_capability (simulate_info c i)) = cap_write_multi_min_size (ai_full_capability i)"
  "cap_write_multi_max_size (ai_full_capability (simulate_info c i)) = cap_write_multi_max_size (ai_full_capability i)"
  by (simp_all add: simulate_info_def update_full_capability_def Let_def)

lemma operator_new_capability:
  "ai_native_capability (ac_info (operator_new acc)) = ai_native_capability (ac_info acc)"
  "write_needs (ai_full_capability (ac_info (operator_new acc))) args = write_needs (ai_full_capability (ac_info acc)) args"
  "read_needs (ai_full_capability (ac_info (operator_new acc))) rargs = read_needs (ai_full_capability (ac_info acc)) rargs"
  "stat_needs (ai_full_capability (ac_info (operator_new acc))) sargs = stat_needs (ai_full_capability (ac_info acc)) sargs"
  "calculate_chunk_size (ai_full_capability (ac_info (operator_new acc))) opts =
     calculate_chunk_size (ai_full_capability (ac_info acc)) opts"
      apply (simp add: operator_new_info simulate_info_keeps)
     apply (simp add: operator_new_info simulate_info_def update_full_capability_def write_needs_list Let_def)
    apply (simp add: operator_new_info simulate_info_def update_full_capability_def read_needs_list Let_def)
   apply (simp add: operator_new_info simulate_info_def update_full_capability_def stat_needs_list Let_def)
  apply (cases "owr_chunk opts"; simp add: operator_new_info calculate_chunk_size_def simulate_info_keeps)
  done

definition stack_winv ::
  "('w \<times> 's \<Rightarrow> bool) \<Rightarrow> ('w \<times> 's \<Rightarrow> bytes list) \<Rightarrow> 'w ec_wrapper complete_writer \<times> 's \<Rightarrow> bool" where
  "stack_winv winv writes = complete_winv (\<lambda>x. winv (ec_get x)) (\<lambda>x. writes (ec_get x))"

definition stack_writes ::
  "('w \<times> 's \<Rightarrow> bytes list) \<Rightarrow> 'w ec_wrapper complete_writer \<times> 's \<Rightarrow> bytes list" where
  "stack_writes writes = complete_writes (\<lambda>x. writes (ec_get x))"

lemma stack_reliable_writer:
  assumes "reliable_writer (writer_ops acc) winv writes (\<lambda>(w, s). obj s)"
  shows "reliable_writer (writer_ops (operator_new acc)) (stack_winv winv writes) (stack_writes writes)
    (\<lambda>(w, s). obj s)"
proof -
  have "(\<lambda>x. (\<lambda>(w, s). obj s) (ec_get x)) = (\<lambda>(w, s). obj s)" by (auto simp: ec_get_def)
  from ec_reliable_writer[OF assms, unfolded this] have
    "reliable_writer (writer_ops (simulate_layer simulate_default (error_context_layer acc)))
      (\<lambda>x. winv (ec_get x)) (\<lambda>x. writes (ec_get x)) (\<lambda>(w, s). obj s)" unfolding simulate_writer_ops .
  from complete_reliable_writer[OF this] show ?thesis
    by (simp add: operator_new_def stack_winv_def stack_writes_def)
qed

definition stack_good :: "capability \<Rightarrow> bytes \<Rightarrow> (op_read \<Rightarrow> bool) \<Rightarrow> op_read \<Rightarrow> bool" where
  "stack_good cap content good = correctness_good cap (complete_good content good)"

lemma stack_reliable_reader:
  assumes "reliable_reader (reader_ops acc) path content sinv rinv rest good rgood" "\<not> ends_with_char path slash"
  shows "reliable_reader (reader_ops (operator_new acc)) path content sinv (\<lambda>r. rinv (ec_inner (crd_inner r)))
    (\<lambda>r. rest (ec_inner (crd_inner r)))
    (stack_good (ai_full_capability (ac_info (operator_new acc))) content good)
    (complete_rgood (\<lambda>r. rinv (ec_inner r)) (\<lambda>r. rest (ec_inner r)) (\<lambda>r. rgood (ec_inner r)))"
  using correctness_reliable_reader[OF complete_reliable_reader[OF simulate_reliable_reader[OF ec_reliable_reader[OF assms(1)] assms(2)]]]
  by (simp add: operator_new_def stack_good_def correctness_layer_def)

section \<open>Writing through the stack\<close>

lemma stack_ac_write:
  assumes "supported (write_needs (ai_full_capability (ac_info acc)) args)" "ac_write acc path args s = Some (Ok w, s1)"
  shows "ac_write (operator_new acc) path args s =
    Some (Ok (complete_writer_new (ec_new (ai_scheme (ac_info acc)) path w) (ow_append args)), s1)"
proof -
  let ?inner = "complete_layer (simulate_layer simulate_default (error_context_layer acc))"
  have inner: "ac_write ?inner path args s =
      Some (Ok (complete_writer_new (ec_new (ai_scheme (ac_info acc)) path w) (ow_append args)), s1)"
    using assms(2)
    by (simp add: complete_layer_def simulate_layer_def error_context_layer_def complete_write_def ec_write_def
        ec_map_err_def io_map_def Let_def)
  have "ai_full_capability (ac_info ?inner) = ai_full_capability (ac_info (operator_new acc))"
    by (simp add: operator_new_def correctness_layer_def)
  then have "supported (write_needs (ai_full_capability (ac_info ?inner)) args)"
    using assms(1) operator_new_capability(2)[of acc args] by simp
  then have "correctness_write ?inner path args = ac_write ?inner path args"
    by (cases "ow_if_none_match args") (auto simp: correctness_write_def write_needs_list supported_def Let_def)
  with inner show ?thesis by (simp add: operator_new_def correctness_layer_def)
qed

lemma operator_write_stack:
  assumes contract: "reliable_writer (writer_ops acc) winv writes (\<lambda>(w, s). obj s)"
    and path: "p = normalize_path path" "\<not> ends_with_char p slash" and opts: "op_write_from opts = (args, wopts)"
    and sup: "supported (write_needs (ai_full_capability (ac_info acc)) args)"
    and op: "ac_write acc p args s = Some (Ok w, s1)" "winv (w, s1)" "writes (w, s1) = []"
    and chunk: "fst (calculate_chunk_size (ai_full_capability (ac_info acc)) wopts) \<noteq> Some 0" and bs: "buffer_ok bs"
  shows "\<exists>m s'. operator_write (operator_new acc) path bs opts s = Some (Ok m, s') \<and>
    metadata_content_length m = of_nat (length (buffer_view bs)) \<and> obj s' = Some (buffer_view bs)"
proof -
  let ?acc = "operator_new acc" and ?ops = "writer_ops (operator_new acc)"
  let ?w = "(complete_writer_new (ec_new (ai_scheme (ac_info acc)) p w) (ow_append args), s1)"
  obtain c x where cx: "calculate_chunk_size (ai_full_capability (ac_info acc)) wopts = (c, x)" by force
  let ?g = "\<lparr>wg_w = ?w, wg_chunk_size = c, wg_exact = x, wg_buffer = queue_new\<rparr>"
  note rw = stack_reliable_writer[OF contract]
  have opn: "writer_open ?acc p args wopts s = Some (Ok ?g, s1)"
    using stack_ac_write[OF sup op(1)] cx by (simp add: writer_open_def wg_create_def operator_new_capability(5))
  have "stack_winv winv writes ?w" "stack_writes writes ?w = []"
    using op(2,3) by (simp_all add: stack_winv_def complete_winv_def stack_writes_def complete_writes_def complete_writer_new_def
        ec_get_def ec_new_def)
  then obtain g1 m g2 where g: "writer_write ?ops ?g bs = Some (Ok (), g1)" "writer_close ?ops g1 = (Ok m, g2)"
    "metadata_content_length m = of_nat (length (buffer_view bs))" "(\<lambda>(w, s). obj s) (wg_w g2) = Some (buffer_view bs)"
    using reliable_writer.writer_put_total[OF rw, of ?w bs c x] chunk cx bs by auto
  have "operator_write ?acc path bs opts s = Some (Ok m, snd (wg_w g2))"
    using path opts opn g(1,2)
    by (simp add: operator_write_def validate_path_def io_bind_def Let_def)
  with g(3,4) show ?thesis by (simp add: split_def)
qed

section \<open>Reading through the stack\<close>

lemma saturating_sub_u64_of_sum:
  assumes "unat c = unat a + unat b" shows "saturating_sub_u64 c (a :: u64) = b"
proof -
  have "c = of_nat (unat a + unat b)" unfolding assms[symmetric] by simp
  also have "\<dots> = a + b" by simp
  finally show ?thesis using assms by (simp add: saturating_sub_u64_def word_le_nat_alt)
qed

lemma br_from_to_range: "br_to_range r = Some (lo, hi) \<Longrightarrow> br_from_bounds lo hi = r"
  by (cases r) (auto simp: br_to_range_def br_from_bounds_def checked_add_u64_Some_iff saturating_sub_u64_of_sum
      split: option.splits)

lemma br_to_range_bounds: "br_to_range r = Some (lo, hi) \<Longrightarrow> lo \<noteq> Excluded v \<and> hi \<noteq> Included v"
  by (auto simp: br_to_range_def split: option.splits)

lemma operator_read_reliable:
  assumes rr: "reliable_reader (reader_ops acc) p content sinv rinv rest good rgood" and s: "sinv s"
    and path: "p = normalize_path path" "\<not> ends_with_char p slash" and opts: "op_read_from opts = (args, ropts)"
    and ready: "reader_ready p content (rc_new p args ropts)" and good: "good args"
    and range: "br_to_range (ord_range args) \<noteq> None"
    and parts: "\<forall>r. range_part content (ord_range args) r \<longrightarrow> good (ord_with_range r args)"
    and env: "chunked_runs (reader_ops acc) (operator_read_context path opts) sinv env"
  shows "\<exists>b s'. operator_read acc env path opts s = Some (Ok b, s') \<and> buffer_view b = requested (ord_range args) content"
proof -
  let ?ctx = "rc_new p args ropts"
  from range obtain lo hi where r: "br_to_range (ord_range args) = Some (lo, hi)" by auto
  have args: "ord_with_range (br_from_bounds lo hi) (rc_args ?ctx) = args"
    by (simp add: br_from_to_range[OF r] ord_with_range_def rc_new_def)
  have env: "chunked_runs (reader_ops acc) ?ctx sinv env" using env path opts by (simp add: operator_read_context_def)
  have "\<exists>b s'. reader_read (reader_ops acc) env ?ctx lo hi s = Some (Ok b, s')"
    using reliable_reader.reader_read_total[OF rr ready s env, of lo hi] br_to_range_bounds[OF r] good args parts
    by (simp add: br_from_to_range[OF r] rc_new_def)
  moreover have "\<exists>x s'. reader_read (reader_ops acc) env ?ctx lo hi s = Some (x, s') \<and>
      (\<forall>b. x = Ok b \<longrightarrow> buffer_ok b \<and> buffer_view b = requested (br_from_bounds lo hi) content)"
    using object_reader.reader_read_spec[OF reliable_reader.axioms(1)[OF rr] ready s env] .
  ultimately obtain b s' where b: "reader_read (reader_ops acc) env ?ctx lo hi s = Some (Ok b, s')"
    "buffer_view b = requested (ord_range args) content"
    using br_from_to_range[OF r] by auto
  moreover have "operator_read acc env path opts s = reader_read (reader_ops acc) env ?ctx lo hi s"
    using path opts r by (simp add: operator_read_def validate_path_def Let_def)
  ultimately show ?thesis by auto
qed

section \<open>Collecting a listing\<close>

lemma lister_collect_ok:
  assumes "finite_lister nxt contents linv" "linv (l, s)"
  shows "\<exists>l' s'. lister_collect nxt es l s = Some (Ok (es @ map into_entry (contents (l, s))), s') \<and> linv (l', s')"
  using assms(2)
proof (induction "contents (l, s)" arbitrary: es l s)
  case Nil
  from finite_lister.next_None[OF assms(1) Nil.prems Nil.hyps[symmetric]] Nil.hyps[symmetric] show ?case
    by (auto simp: lister_collect.simps)
next
  case (Cons v vs)
  from finite_lister.next_Some[OF assms(1) Cons.prems Cons.hyps(2)[symmetric]] obtain l1 s1 where
    n: "nxt (l, s) = Some (Ok (Some v), l1, s1)" "linv (l1, s1)" "contents (l1, s1) = vs" by auto
  from Cons.hyps(1)[OF n(3)[symmetric] n(2), of "es @ [into_entry v]"] n Cons.hyps(2)[symmetric] show ?case
    by (auto simp: lister_collect.simps[of nxt es l s])
qed

end
