(* ===== verification/Memory_Operator.thy ===== *)
theory Memory_Operator
  imports Operators Memory_Accessor
begin

text \<open>
  The operator over the memory service, with the default layers of \<open>OperatorBuilder\<close>: writing, reading,
  listing, creating directories and deleting recursively, from the public methods down to the store.
\<close>

section \<open>The memory service behind the stack\<close>

lemma memory_full_capability [simp]:
  "ai_full_capability (ac_info (memory_accessor name root)) = memory_capability"
  "ai_native_capability (ac_info (memory_accessor name root)) = memory_capability"
  by (simp_all add: memory_accessor_def memory_info_def set_root_def set_native_capability_def)

lemma memory_chunk_size: "calculate_chunk_size memory_capability wopts = (owr_chunk wopts, owr_chunk wopts \<noteq> None)"
  by (cases "owr_chunk wopts") (simp_all add: calculate_chunk_size_def memory_capability_def capability_default_def)

lemma memory_object_holds:
  assumes "root_ok root" "path_ok p" "length bytes < 2 ^ 64" "memory_object data (tl root @ p) s = Some bytes"
  shows "memory_holds root p bytes s"
  using assms by (auto simp: memory_object_def memory_holds_def split: option.splits if_splits)

lemma memory_object_keeps:
  assumes "bt_ok data" "memory_object data key s = Some bytes" "k \<noteq> key"
  shows "memory_get s k = memory_get data k"
proof -
  from assms(2) obtain v where "s = bt_insert key v data"
    by (auto simp: memory_object_def split: option.splits if_splits)
  with assms(1,3) show ?thesis by (simp add: memory_get_def map_of_bt_insert)
qed

text \<open>What a write through the stack leaves in the memory service.\<close>

lemma memory_operator_write:
  assumes "root_ok root" "bt_ok data" "path_ok p" "p = normalize_path path" "\<not> ends_with_char p slash" "buffer_ok bs"
    "wo_chunk opts \<noteq> Some 0" "supported (write_needs memory_capability (fst (op_write_from opts)))"
    "wo_if_not_exists opts \<longrightarrow> memory_get data (tl root @ p) = None"
  shows "\<exists>m s. operator_write (operator_new (memory_accessor name root)) path bs opts data = Some (Ok m, s) \<and>
    metadata_content_length m = of_nat (length (buffer_view bs)) \<and>
    memory_object data (tl root @ p) s = Some (buffer_view bs)"
proof -
  obtain args wopts where o: "op_write_from opts = (args, wopts)" by force
  then have o': "owr_chunk wopts = wo_chunk opts" "ow_if_not_exists args = wo_if_not_exists opts"
    by (auto simp: op_write_from_def)
  let ?w = "memory_writer_new data (tl root @ p) args"
  have w: "ac_write (memory_accessor name root) p args data = Some (Ok ?w, data)"
    using build_abs_path_ok[OF assms(1,3)] by (simp add: memory_accessor_def memory_write_def res_of_option_def)
  have free: "memory_writer_free data (tl root @ p) (on_store (?w, data))" "memory_writer_writes (on_store (?w, data)) = []"
    using assms(2,9) o'(2)
    by (auto simp: on_store_def memory_writer_new_def memory_writer_free_def memory_writer_at_def memory_writer_inv_def
        memory_writer_writes_def memory_get_def)
  show ?thesis
    using operator_write_stack[OF memw.reliable_writer_axioms[of name root data "tl root @ p"] assms(4,5) o _ w free _ assms(6)]
      assms(7,8) o o'(1) by (simp add: memory_chunk_size)
qed

lemma requested_within:
  assumes "unat (br_offset r) + unat n \<le> length content" "br_size r = Some n"
  shows "length (requested r content) = unat n"
  using assms by (simp add: requested_def)

lemma memory_stack_reader:
  assumes "\<not> ends_with_char p slash"
  shows "reliable_reader (reader_ops (operator_new (memory_accessor name root))) p content (memory_holds root p content)
    (\<lambda>r. buffer_ok (ec_inner (crd_inner r))) (\<lambda>r. buffer_view (ec_inner (crd_inner r)))
    (stack_good (ai_full_capability (ac_info (operator_new (memory_accessor name root)))) content (\<lambda>args. True))
    (complete_rgood (\<lambda>r. buffer_ok (ec_inner r)) (\<lambda>r. buffer_view (ec_inner r)) (\<lambda>r. True))"
  using stack_reliable_reader[OF _ assms] memr.reliable_reader_axioms[of root p content]
  unfolding memory_reader_ops[of name root, symmetric] by blast

lemma memory_read_ready:
  assumes "memory_holds root p content s" "supported (read_needs memory_capability (fst (op_read_from opts)))"
    "\<forall>n. br_size (ro_range opts) = Some n \<longrightarrow> unat (br_offset (ro_range opts)) + unat n \<le> length content"
    "\<forall>ch. ro_chunk opts = Some ch \<longrightarrow> 0 < ch \<and> ch \<le> usize_max" "ro_content_length_hint opts = None"
    "op_read_from opts = (args, ropts)"
  shows "reader_ready p content (rc_new p args ropts)"
    "stack_good (ai_full_capability (ac_info (operator_new (memory_accessor name root)))) content (\<lambda>args. True) args"
    "br_to_range (ord_range args) \<noteq> None" "ord_range args = ro_range opts"
proof -
  have o': "ord_range args = ro_range opts" "orr_chunk ropts = ro_chunk opts" "0 < orr_concurrent ropts"
    "orr_content_length_hint ropts = None" "ord_version args = ro_version opts"
    using assms(5,6) by (auto simp: op_read_from_def)
  have len: "length content < 2 ^ 64" using assms(1) by (simp add: memory_holds_def)
  show "reader_ready p content (rc_new p args ropts)"
    using assms(4) o' by (simp add: reader_ready_def rc_new_def)
  have "ord_version args = None" using assms(2,6)
    by (auto simp: supported_def read_needs_list memory_capability_def capability_default_def)
  then have st: "supported (stat_needs memory_capability (reader_stat_op args))"
    by (simp add: reader_stat_op_def stat_needs_list supported_def op_stat_default_def)
  show "stack_good (ai_full_capability (ac_info (operator_new (memory_accessor name root)))) content (\<lambda>args. True) args"
    using assms(2,3,6) o'(1) st requested_within[of "ro_range opts" _ content]
    by (auto simp: stack_good_def correctness_good_def complete_good_def operator_new_capability)
  show "br_to_range (ord_range args) \<noteq> None"
    using assms(3) len o'(1) by (cases "br_size (ro_range opts)") (auto simp: br_to_range_def checked_add_u64_def)
qed (use assms(6) in \<open>auto simp: op_read_from_def\<close>)

text \<open>The parts of a range within the object are served as well.\<close>

lemma stack_good_part:
  assumes "stack_good cap content (\<lambda>args. True) args" "range_part content (ord_range args) r" "length content < 2 ^ 64"
    "\<forall>n. br_size (ord_range args) = Some n \<longrightarrow> unat (br_offset (ord_range args)) + unat n \<le> length content"
  shows "stack_good cap content (\<lambda>args. True) (ord_with_range r args)"
proof -
  from assms(2) obtain off n where r: "r = BytesRange off (Some n)"
    "unat off + unat n \<le> (case br_size (ord_range args) of Some m \<Rightarrow> unat (br_offset (ord_range args)) + unat m | None \<Rightarrow> length content)"
    by (auto simp: range_part_def)
  then have "unat off + unat n \<le> length content" using assms(4) by (cases "br_size (ord_range args)") auto
  then have "length (requested r content) = unat n" using requested_within[of r n content] r(1) by simp
  with assms(1) r(1) show ?thesis
    by (simp add: stack_good_def correctness_good_def complete_good_def ord_with_range_def read_needs_list reader_stat_op_def)
qed

lemma memory_read_parts:
  assumes "memory_holds root p content s" "supported (read_needs memory_capability (fst (op_read_from opts)))"
    "\<forall>n. br_size (ro_range opts) = Some n \<longrightarrow> unat (br_offset (ro_range opts)) + unat n \<le> length content"
    "\<forall>ch. ro_chunk opts = Some ch \<longrightarrow> 0 < ch \<and> ch \<le> usize_max" "ro_content_length_hint opts = None"
    "op_read_from opts = (args, ropts)"
  shows "\<forall>r. range_part content (ord_range args) r \<longrightarrow>
    stack_good (ai_full_capability (ac_info (operator_new (memory_accessor name root)))) content (\<lambda>args. True) (ord_with_range r args)"
  using stack_good_part[OF memory_read_ready(2)[OF assms]] memory_read_ready(4)[OF assms] assms(1,3)
  by (auto simp: memory_holds_def)

lemma memory_operator_read:
  assumes "memory_holds root p content s" "p = normalize_path path" "\<not> ends_with_char p slash"
    "supported (read_needs memory_capability (fst (op_read_from opts)))"
    "\<forall>n. br_size (ro_range opts) = Some n \<longrightarrow> unat (br_offset (ro_range opts)) + unat n \<le> length content"
    "\<forall>ch. ro_chunk opts = Some ch \<longrightarrow> 0 < ch \<and> ch \<le> usize_max" "ro_content_length_hint opts = None"
    "chunked_runs (reader_ops (operator_new (memory_accessor name root))) (operator_read_context path opts)
       (memory_holds root p content) env"
  shows "\<exists>b s'. operator_read (operator_new (memory_accessor name root)) env path opts s = Some (Ok b, s') \<and>
    buffer_view b = requested (ro_range opts) content"
proof -
  obtain args ropts where o: "op_read_from opts = (args, ropts)" by force
  note ready = memory_read_ready[OF assms(1,4-7) o]
  from operator_read_reliable[OF memory_stack_reader[OF assms(3)] assms(1-3) o ready(1-3) memory_read_parts[OF assms(1,4-7) o] assms(8)] ready(4)
  show ?thesis by simp
qed

section \<open>Listing through the stack\<close>

text \<open>A store in which every object carries its length, as the writer leaves it.\<close>

definition store_sized :: "str \<Rightarrow> memory_core \<Rightarrow> bool" where
  "store_sized root data \<longleftrightarrow> store_ok root data \<and>
     (\<forall>k v. memory_get data k = Some v \<longrightarrow>
        md_content_length (mv_metadata v) = Some (of_nat (length (buffer_view (mv_content v)))))"

text \<open>The layers below \<open>CompleteLayer\<close>.\<close>

definition memory_sim ::
  "str \<Rightarrow> str \<Rightarrow>
     (memory_core, buffer ec_wrapper, memory_writer ec_wrapper, memory_lister hierarchy_lister ec_wrapper simulate_lister,
      memory_deleter ec_wrapper, unit ec_wrapper) accessor" where
  "memory_sim name root = simulate_layer simulate_default (error_context_layer (memory_accessor name root))"

lemma memory_sim_stat:
  assumes "root_ok root" "path_ok p" "\<not> ends_with_char p slash" "memory_get data (tl root @ p) = Some v"
  shows "ac_stat (memory_sim name root) p op data = Some (Ok (mv_metadata v), data)"
proof -
  have "p \<noteq> ''/''" "p \<noteq> []" using assms(2) by (auto simp: path_ok_def starts_with_char_def)
  with assms(3,4) build_abs_path_ok[OF assms(1,2)] build_abs_path_top[OF assms(1)] show ?thesis
    by (simp add: memory_sim_def simulate_layer_def simulate_stat_def error_context_layer_def ec_stat_def ec_map_err_def
        memory_accessor_def memory_stat_def Let_def)
qed

text \<open>The entries of a listing whose files are stored.\<close>

definition stored_file :: "str \<Rightarrow> memory_core \<Rightarrow> oio_entry \<Rightarrow> bool" where
  "stored_file root data e \<longleftrightarrow> plain_entry e \<and>
     (oio_entry_mode e = FILE \<longrightarrow> path_ok (oe_path e) \<and> memory_get data (tl root @ oe_path e) \<noteq> None)"

definition memory_contents_of :: "memory_lister hierarchy_lister ec_wrapper simulate_lister \<times> memory_core \<Rightarrow> oio_entry list" where
  "memory_contents_of = (\<lambda>(v, s). case v of W4_One l \<Rightarrow> hierarchy_contents memory_contents (ec_inner l) | _ \<Rightarrow> [])"

definition memory_lister_at :: "str \<Rightarrow> memory_core \<Rightarrow> memory_lister hierarchy_lister ec_wrapper simulate_lister \<times> memory_core \<Rightarrow> bool" where
  "memory_lister_at root data = (\<lambda>(v, s). s = data \<and>
     (case v of W4_One l \<Rightarrow> memory_lister_ok (ec_inner l) \<and>
        (\<forall>e\<in>set (hierarchy_contents memory_contents (ec_inner l)). stored_file root data e) | _ \<Rightarrow> False))"

lemma memory_sim_lister:
  "finite_lister (ac_lister_next (memory_sim name root)) memory_contents_of (memory_lister_at root data)"
proof -
  let ?c = "\<lambda>(l, s). hierarchy_contents memory_contents l"
  have "finite_lister (ac_lister_next (memory_accessor name root)) ?c
      (\<lambda>x. (case x of (l, s) \<Rightarrow> memory_lister_ok l) \<and> snd x = data \<and> (\<forall>e\<in>set (?c x). stored_file root data e))"
    by (rule finite_lister_restrict[OF memal.finite_lister_axioms]) (auto simp: memory_accessor_def)
  note sim = simulate_one_lister[OF ec_finite_lister[OF this]]
  have "memory_contents_of = (\<lambda>(v, s). case v of W4_One l \<Rightarrow> ?c (ec_get (l, s)) | _ \<Rightarrow> [])"
    by (auto simp: memory_contents_of_def ec_get_def fun_eq_iff split: ways4.splits)
  moreover have "memory_lister_at root data = (\<lambda>(v, s). case v of
      W4_One l \<Rightarrow> (case ec_get (l, s) of (l, s) \<Rightarrow> memory_lister_ok l) \<and> snd (ec_get (l, s)) = data \<and>
        (\<forall>e\<in>set (?c (ec_get (l, s))). stored_file root data e) | _ \<Rightarrow> False)"
    by (auto simp: memory_lister_at_def ec_get_def fun_eq_iff split: ways4.splits)
  ultimately show ?thesis using sim by (simp only: memory_sim_def simulate_layer_def accessor.simps)
qed

text \<open>What \<open>CompleteLister\<close> makes of such entries.\<close>

definition with_length :: "memory_core \<Rightarrow> str \<Rightarrow> oio_entry \<Rightarrow> oio_entry" where
  "with_length data root e =
     (case memory_get data (tl root @ oe_path e) of
        Some v \<Rightarrow> (if oio_entry_mode e = FILE
                  then e\<lparr>oe_meta := md_set_content_length (of_nat (length (buffer_view (mv_content v)))) (oe_meta e)\<rparr> else e)
      | None \<Rightarrow> e)"

lemma plain_needs_length: "plain_entry e \<Longrightarrow> needs_length e \<longleftrightarrow> oio_entry_mode e = FILE"
  by (simp add: plain_entry_def needs_length_def oio_entry_mode_def metadata_new_def metadata_has_content_length_def)

lemma plain_file: "plain_entry e \<Longrightarrow> oio_entry_mode e = FILE \<Longrightarrow> \<not> ends_with_char (oe_path e) slash"
  by (auto simp: plain_entry_def oio_entry_mode_def metadata_new_def mode_of_path_def split: if_splits)

lemma stored_file_stat:
  assumes "root_ok root" "store_sized root data" "stored_file root data e" "oio_entry_mode e = FILE"
  obtains v where "memory_get data (tl root @ oe_path e) = Some v"
    "ac_stat (memory_sim name root) (oe_path e) op data = Some (Ok (mv_metadata v), data)"
    "md_content_length (mv_metadata v) = Some (of_nat (length (buffer_view (mv_content v))))"
proof -
  from assms obtain v where v: "memory_get data (tl root @ oe_path e) = Some v" "path_ok (oe_path e)" "plain_entry e"
    by (auto simp: stored_file_def)
  with that[OF v(1) memory_sim_stat[OF assms(1) v(2) plain_file[OF v(3) assms(4)] v(1)]] assms(2) show ?thesis
    by (auto simp: store_sized_def)
qed

lemma memory_complete_lister:
  assumes "root_ok root" "store_sized root data"
  shows "finite_lister (ac_lister_next (operator_new (memory_accessor name root)))
    (\<lambda>x. map (with_length data root) (memory_contents_of x)) (memory_lister_at root data)"
proof -
  let ?stat = "ac_stat (memory_sim name root)"
  define st where "st p op = fst (the (?stat p op data))" for p op
  have e: "stored_file root data e" if "memory_lister_at root data x" "e \<in> set (memory_contents_of x)" for x e
    using that by (cases x; cases "fst x") (auto simp: memory_lister_at_def memory_contents_of_def)
  have st: "\<exists>v. memory_get data (tl root @ oe_path e) = Some v \<and> ?stat (oe_path e) op data = Some (Ok (mv_metadata v), data) \<and>
      st (oe_path e) op = Ok (mv_metadata v) \<and>
      md_content_length (mv_metadata v) = Some (of_nat (length (buffer_view (mv_content v))))"
    if "stored_file root data e" "needs_length e" for e op
    using stored_file_stat[OF assms that(1), of name op] that plain_needs_length[of e]
    by (force simp: stored_file_def st_def)
  have fin: "finite_lister (complete_lister_next ?stat scheme (ac_lister_next (memory_sim name root)))
      (\<lambda>x. complete_entries st (memory_contents_of x)) (memory_lister_at root data)" for scheme
  proof (rule complete_finite_lister[OF memory_sim_lister])
    fix x e l s
    assume x: "memory_lister_at root data x" "e \<in> set (memory_contents_of x)" "needs_length e"
      "ac_lister_next (memory_sim name root) x = Some (Ok (Some e), l, s)"
    have "memory_lister_at root data (l, s)"
    proof (cases "memory_contents_of x")
      case (Cons a as)
      with finite_lister.next_Some[OF memory_sim_lister x(1), of a as name] x(4) show ?thesis by auto
    qed (use x(2) in simp)
    then have "s = data" by (simp add: memory_lister_at_def)
    with st[OF e[OF x(1,2)] x(3), of "entry_stat_op e"] \<open>memory_lister_at root data (l, s)\<close>
    show "\<exists>s'. ?stat (oe_path e) (entry_stat_op e) s = Some (st (oe_path e) (entry_stat_op e), s') \<and>
        memory_lister_at root data (l, s') \<and> memory_contents_of (l, s') = memory_contents_of (l, s)" by auto
  next
    fix x e
    assume x: "memory_lister_at root data x" "e \<in> set (memory_contents_of x)" "needs_length e"
    from st[OF e[OF x(1,2)] x(3), of "entry_stat_op e"] show "stat_serves st e"
      by (auto simp: stat_serves_def metadata_has_content_length_def)
  qed
  have "complete_entries st es = map (with_length data root) es" if "\<forall>e\<in>set es. stored_file root data e" for es
    using that
  proof (induction es)
    case (Cons a as)
    have "needs_length a \<longleftrightarrow> oio_entry_mode a = FILE" using Cons.prems plain_needs_length by (auto simp: stored_file_def)
    moreover have "\<exists>v. memory_get data (tl root @ oe_path a) = Some v \<and> st (oe_path a) (entry_stat_op a) = Ok (mv_metadata v) \<and>
        md_content_length (mv_metadata v) = Some (of_nat (length (buffer_view (mv_content v))))" if "needs_length a"
      using st[of a "entry_stat_op a"] that Cons.prems by auto
    ultimately show ?case using Cons
      by (auto simp: with_length_def metadata_content_length_def split: option.splits)
  qed simp
  with e have "complete_entries st (memory_contents_of x) = map (with_length data root) (memory_contents_of x)"
    if "memory_lister_at root data x" for x using that by blast
  from finite_lister_cong[OF fin this] show ?thesis
    by (simp add: operator_new_def correctness_layer_def complete_layer_def memory_sim_def)
qed

lemma memory_ec_capability [simp]:
  "ai_native_capability (ac_info (error_context_layer (memory_accessor name root))) = memory_capability"
  "ai_full_capability (ac_info (error_context_layer (memory_accessor name root))) = memory_capability"
  by (simp_all add: error_context_layer_def)

lemma memory_ec_list:
  assumes "ac_list (memory_accessor name root) p args data = Some (Ok h, data)"
  shows "simulate_list c (error_context_layer (memory_accessor name root)) p args data =
     Some (Ok (W4_One (ec_new (ai_scheme (ac_info (memory_accessor name root))) p h)), data)"
proof -
  have "cap_list_with_recursive memory_capability" by (simp add: memory_capability_def)
  then have "simulate_list c (error_context_layer (memory_accessor name root)) p args =
      io_map W4_One (ac_list (error_context_layer (memory_accessor name root)) p args)"
    by (simp add: simulate_list_native)
  with assms show ?thesis by (simp add: error_context_layer_def ec_list_def ec_map_err_def io_map_def Let_def)
qed

lemma memory_operator_list:
  assumes "root_ok root" "store_sized root data" "p = normalize_path path" "p = ''/'' \<or> path_ok p"
    and h_def: "h = hierarchy_new (memory_lister_of root data p) p (lo_recursive opts)"
  shows "operator_list (operator_new (memory_accessor name root)) path opts data =
    Some (Ok (map (into_entry \<circ> with_length data root) (hierarchy_contents memory_contents h)), data)"
    "\<forall>e\<in>set (hierarchy_contents memory_contents h). stored_file root data e"
proof -
  have store: "store_ok root data" using assms(2) by (simp add: store_sized_def)
  note ml = memory_list_lister[OF assms(1) store assms(4), folded memory_lister_of_def]
  let ?es = "hierarchy_contents memory_contents h"
  let ?l = "W4_One (ec_new (ai_scheme (ac_info (memory_accessor name root))) p h)"
  have rec: "ol_recursive (op_list_from opts) = lo_recursive opts" by (simp add: op_list_from_def)
  have list: "ac_list (operator_new (memory_accessor name root)) p (op_list_from opts) data = Some (Ok ?l, data)"
    using memory_ac_list(1)[OF assms(1) store assms(4), of name "op_list_from opts"] rec
    by (simp add: operator_new_def correctness_layer_def complete_layer_def simulate_layer_def memory_ec_list h_def)
  have listable: "memory_listable root data p" using assms(1,4) store by (simp add: memory_listable_def)
  have get: "memory_get data (tl root @ q) \<noteq> None" if "q \<in> store_paths root data" for q
    using that by (auto simp: store_paths_def memory_get_def map_of_eq_None_iff)
  show stored: "\<forall>e\<in>set ?es. stored_file root data e"
  proof (cases "lo_recursive opts")
    case True
    then have es: "?es = memory_contents (memory_lister_of root data p)"
      by (simp add: h_def hierarchy_new_def hierarchy_contents_def)
    have "oe_path e \<in> store_paths root data" if "e \<in> set ?es" for e using that ml(4) unfolding es by blast
    with memory_contents_plain[OF assms(1) store, of p] get show ?thesis
      unfolding es stored_file_def by (auto simp: store_paths_def)
  next
    case False
    then have es: "?es = memory_kids root data p" by (simp add: h_def memory_kids_def)
    from memory_kids_entries(3)[OF listable] memory_kids_file(1)[OF listable] get show ?thesis
      unfolding es stored_file_def by (auto simp: store_paths_def)
  qed
  have "memory_lister_at root data (?l, data)"
    using stored memory_ac_list(2)[OF assms(1) store assms(4)] by (simp add: memory_lister_at_def h_def)
  from lister_collect_ok[OF memory_complete_lister[OF assms(1,2), of name] this, of "[]"]
  show "operator_list (operator_new (memory_accessor name root)) path opts data =
      Some (Ok (map (into_entry \<circ> with_length data root) ?es), data)"
    using list assms(3) by (auto simp: operator_list_def io_bind_def memory_contents_of_def memory_lister_at_def)
qed

section \<open>Properties\<close>

text \<open>
  C1: Writing through the operator and reading back, with the default layers over the memory service:
  for every well-formed path of a file, every buffer, every write options the service supports with a chunk
  size other than zero, the write succeeds and reports the number of bytes, and no other object changes.  Reading
  the store it leaves, for every range within the object, whole or in chunks of a size other than zero, succeeds
  with exactly the requested bytes, where the tasks of a read in chunks run the code of \<open>ChunkedReader::new\<close> on
  that store and end in any order.
\<close>

theorem operator_write_read:
  assumes "root_ok root" "bt_ok data" "path_ok (normalize_path path)" "\<not> ends_with_char (normalize_path path) slash"
    "buffer_ok bs" "length (buffer_view bs) < 2 ^ 64"
    "wo_chunk wopts \<noteq> Some 0" "supported (write_needs memory_capability (fst (op_write_from wopts)))"
    "wo_if_not_exists wopts \<longrightarrow> memory_get data (tl root @ normalize_path path) = None"
    "supported (read_needs memory_capability (fst (op_read_from ropts)))"
    "\<forall>n. br_size (ro_range ropts) = Some n \<longrightarrow>
       unat (br_offset (ro_range ropts)) + unat n \<le> length (buffer_view bs)"
    "\<forall>ch. ro_chunk ropts = Some ch \<longrightarrow> 0 < ch \<and> ch \<le> usize_max" "ro_content_length_hint ropts = None"
  shows "\<exists>m s. operator_write (operator_new (memory_accessor name root)) path bs wopts data = Some (Ok m, s) \<and>
    metadata_content_length m = of_nat (length (buffer_view bs)) \<and>
    (\<forall>k. k \<noteq> tl root @ normalize_path path \<longrightarrow> memory_get s k = memory_get data k) \<and>
    (\<forall>env. chunked_runs (reader_ops (operator_new (memory_accessor name root))) (operator_read_context path ropts)
         (\<lambda>s'. s' = s) env \<longrightarrow>
       (\<exists>b s'. operator_read (operator_new (memory_accessor name root)) env path ropts s = Some (Ok b, s') \<and>
          buffer_view b = requested (ro_range ropts) (buffer_view bs)))"
proof -
  from memory_operator_write[OF assms(1,2,3) refl assms(4,5,7,8,9)] obtain m s where
    w: "operator_write (operator_new (memory_accessor name root)) path bs wopts data = Some (Ok m, s)"
      "metadata_content_length m = of_nat (length (buffer_view bs))"
      "memory_object data (tl root @ normalize_path path) s = Some (buffer_view bs)" by blast
  note holds = memory_object_holds[OF assms(1,3,6) w(3)]
  have "\<exists>b s'. operator_read (operator_new (memory_accessor name root)) env path ropts s = Some (Ok b, s') \<and>
      buffer_view b = requested (ro_range ropts) (buffer_view bs)"
    if "chunked_runs (reader_ops (operator_new (memory_accessor name root))) (operator_read_context path ropts)
         (\<lambda>s'. s' = s) env" for env
    by (rule memory_operator_read[OF holds refl assms(4,10-13) chunked_runs_mono[OF that]]) (use holds in simp)
  with w memory_object_keeps[OF assms(2) w(3)] show ?thesis by blast
qed

text \<open>The write options with a chunk size and the read options with a range in chunks, for the example.\<close>

definition example_write_options :: write_options where
  "example_write_options = write_options_default\<lparr>wo_chunk := Some 2\<rparr>"

definition example_read_options :: read_options where
  "example_read_options = read_options_default\<lparr>ro_range := BytesRange 1 (Some 2), ro_chunk := Some 1, ro_concurrent := 2\<rparr>"

lemma example_path: "normalize_path ''//f'' = ''f''" "path_ok ''f''" "\<not> ends_with_char ''f'' slash"
  by code_simp (simp_all add: path_ok_def valid_str_def is_continuation_def ends_with_char_def)

theorem operator_write_read_witness:
  "\<exists>m s b s'. operator_write (operator_new (memory_accessor [] ''/'')) ''//f'' (buffer_from_bytes [1, 2, 3])
      example_write_options [] = Some (Ok m, s) \<and>
    operator_read (operator_new (memory_accessor [] ''/''))
      (chunk_env_at (reader_ops (operator_new (memory_accessor [] ''/''))) (operator_read_context ''//f'' example_read_options) s)
      ''//f'' example_read_options s = Some (Ok b, s') \<and> buffer_view b = [2, 3]"
proof -
  let ?bs = "buffer_from_bytes [1, 2, 3]" and ?acc = "operator_new (memory_accessor [] ''/'')"
  have req: "requested (ro_range example_read_options) (buffer_view ?bs) = [2, 3]"
    by (simp add: example_read_options_def requested_def)
  have sup: "supported (write_needs memory_capability (fst (op_write_from example_write_options)))"
    "supported (read_needs memory_capability (fst (op_read_from example_read_options)))"
    by (simp_all add: supported_def write_needs_list read_needs_list op_write_from_def op_read_from_def
        example_write_options_def example_read_options_def write_options_default_def read_options_default_def)
  have opts: "wo_chunk example_write_options \<noteq> Some 0" "\<not> wo_if_not_exists example_write_options"
    "\<forall>n. br_size (ro_range example_read_options) = Some n \<longrightarrow>
       unat (br_offset (ro_range example_read_options)) + unat n \<le> length (buffer_view ?bs)"
    "\<forall>ch. ro_chunk example_read_options = Some ch \<longrightarrow> 0 < ch \<and> ch \<le> usize_max" "ro_content_length_hint example_read_options = None"
    by (simp_all add: example_write_options_def example_read_options_def write_options_default_def read_options_default_def usize_max_def)
  have "\<exists>m s. operator_write ?acc ''//f'' ?bs example_write_options [] = Some (Ok m, s) \<and>
    metadata_content_length m = of_nat (length (buffer_view ?bs)) \<and>
    (\<forall>k. k \<noteq> tl ''/'' @ normalize_path ''//f'' \<longrightarrow> memory_get s k = memory_get [] k) \<and>
    (\<forall>env. chunked_runs (reader_ops ?acc) (operator_read_context ''//f'' example_read_options) (\<lambda>s'. s' = s) env \<longrightarrow>
       (\<exists>b s'. operator_read ?acc env ''//f'' example_read_options s = Some (Ok b, s') \<and>
          buffer_view b = requested (ro_range example_read_options) (buffer_view ?bs)))"
    by (rule operator_write_read[where root = "''/''" and data = "[]" and path = "''//f''" and name = "[]"])
      (use example_path example_store_ok(1) sup opts in \<open>simp_all\<close>)
  then obtain m s where w: "operator_write ?acc ''//f'' ?bs example_write_options [] = Some (Ok m, s)"
    "\<forall>env. chunked_runs (reader_ops ?acc) (operator_read_context ''//f'' example_read_options) (\<lambda>s'. s' = s) env \<longrightarrow>
       (\<exists>b s'. operator_read ?acc env ''//f'' example_read_options s = Some (Ok b, s') \<and> buffer_view b = [2, 3])"
    unfolding req by (elim exE conjE)
  from w(2)[rule_format, OF chunked_runs_at[where P = "\<lambda>s'. s' = s", OF refl]] obtain b s' where
    "operator_read ?acc (chunk_env_at (reader_ops ?acc) (operator_read_context ''//f'' example_read_options) s)
       ''//f'' example_read_options s = Some (Ok b, s')" "buffer_view b = [2, 3]" by (elim exE conjE)
  with w(1) show ?thesis by (intro exI conjI)
qed


text \<open>The store of the example, with lengths.\<close>

definition sized_object :: "bytes \<Rightarrow> memory_value" where
  "sized_object bs =
     \<lparr>mv_metadata = md_with_content_length (of_nat (length bs)) (metadata_new FILE), mv_content = buffer_from_bytes bs\<rparr>"

definition sized_store :: memory_core where
  "sized_store = [(''a/b'', sized_object [1]), (''a/c/d'', sized_object [2, 3]), (''ab'', sized_object [])]"

lemma sized_store_ok: "store_sized ''/'' sized_store" "store_paths ''/'' sized_store = {''a/b'', ''a/c/d'', ''ab''}"
proof -
  have paths: "path_ok ''a/b''" "path_ok ''a/c/d''" "path_ok ''ab''"
    by (simp_all add: valid_str_def path_ok_def is_continuation_def)
  then have "store_ok ''/'' sized_store" by (auto simp: sized_store_def store_ok_def less_char_def)
  then show "store_sized ''/'' sized_store"
    by (auto simp: store_sized_def sized_store_def memory_get_def sized_object_def md_with_content_length_def
        split: if_splits)
  from paths show "store_paths ''/'' sized_store = {''a/b'', ''a/c/d'', ''ab''}"
    by (auto simp: sized_store_def store_paths_def)
qed

lemma example_dir: "normalize_path ''a/'' = ''a/''" "path_ok ''a/''" "ends_with_char ''a/'' slash"
  by code_simp (simp_all add: path_ok_def valid_str_def is_continuation_def ends_with_char_def)


end
