(* ===== verification/Memory_Delete.thy ===== *)
theory Memory_Delete
  imports Memory_Operator
begin

text \<open>
  Deleting and creating directories through the operator, with the default layers over the memory service.
  The service neither deletes recursively nor creates directories itself: both go through
  \<open>SimulateLayer\<close>, which lists and deletes, or writes an empty object.
\<close>

section \<open>Listing while the store shrinks\<close>

lemma memory_sim_next:
  assumes "memory_lister_ok (ec_inner w)"
  shows "hierarchy_contents memory_contents (ec_inner w) = e # es \<Longrightarrow>
      \<exists>w'. simulate_lister_next (error_context_layer (memory_accessor name root)) (W4_One w, s) =
        Some (Ok (Some e), W4_One w', s) \<and> memory_lister_ok (ec_inner w') \<and>
        hierarchy_contents memory_contents (ec_inner w') = es"
    "hierarchy_contents memory_contents (ec_inner w) = [] \<Longrightarrow>
      \<exists>w'. simulate_lister_next (error_context_layer (memory_accessor name root)) (W4_One w, s) =
        Some (Ok None, W4_One w', s)"
proof -
  have same: "s' = s" if "ac_lister_next (memory_accessor name root) (ec_inner w, s) = Some (r, l, s')" for r l s'
    using that by (auto simp: memory_accessor_def)
  note sim = simulate_lister_next_def ways4_io_def error_context_layer_def ec_lister_next_def ec_call_def ec_map_err_def io_defs Let_def
  show "\<exists>w'. simulate_lister_next (error_context_layer (memory_accessor name root)) (W4_One w, s) =
        Some (Ok (Some e), W4_One w', s) \<and> memory_lister_ok (ec_inner w') \<and>
        hierarchy_contents memory_contents (ec_inner w') = es"
    if "hierarchy_contents memory_contents (ec_inner w) = e # es"
  proof -
    from memal.next_Some[of "(ec_inner w, s)" e es name root] assms that obtain l s' where
      n: "ac_lister_next (memory_accessor name root) (ec_inner w, s) = Some (Ok (Some e), l, s')"
        "memory_lister_ok l" "hierarchy_contents memory_contents l = es" by auto
    with same[OF n(1)] show ?thesis by (simp add: sim)
  qed
  show "\<exists>w'. simulate_lister_next (error_context_layer (memory_accessor name root)) (W4_One w, s) =
        Some (Ok None, W4_One w', s)"
    if "hierarchy_contents memory_contents (ec_inner w) = []"
  proof -
    from memal.next_None[of "(ec_inner w, s)" name root] assms that obtain l s' where
      n: "ac_lister_next (memory_accessor name root) (ec_inner w, s) = Some (Ok None, l, s')" by auto
    with same[OF n] show ?thesis by (simp add: sim)
  qed
qed

lemma memory_ec_delete:
  assumes "root_ok root" "path_ok q" "mdel_root (ec_inner d) = root"
  shows "\<exists>d'. ac_deleter_delete (error_context_layer (memory_accessor name root)) q args (d, s) =
    Some (Ok (), d', bt_remove (tl root @ q) s) \<and> mdel_root (ec_inner d') = root"
  using assms(3) build_abs_path_ok[OF assms(1,2)]
  by (simp add: error_context_layer_def ec_deleter_delete_def ec_call_def ec_map_err_def memory_accessor_def
      memory_deleter_io_def one_shot_delete_ops_def memory_delete_once_def memory_delete_def io_defs)

lemma fold_bt_remove:
  "fold (\<lambda>e. bt_remove (f e)) es data = filter (\<lambda>(k, v). k \<notin> f ` set es) data"
  by (induction es arbitrary: data) (auto simp: bt_remove_def intro!: filter_cong)

lemma memory_delete_listed:
  assumes "root_ok root" "memory_lister_ok (ec_inner w)" "mdel_root (ec_inner d) = root"
    "\<forall>e\<in>set (hierarchy_contents memory_contents (ec_inner w)). path_ok (oe_path e)"
  shows "\<exists>d'. delete_listed (simulate_lister_next (error_context_layer (memory_accessor name root)))
      (ac_deleter_delete (error_context_layer (memory_accessor name root))) args (W4_One w) d s =
    Some (Ok (), d', fold (\<lambda>e. bt_remove (tl root @ oe_path e)) (hierarchy_contents memory_contents (ec_inner w)) s) \<and>
    mdel_root (ec_inner d') = root"
  using assms(2-)
proof (induction "hierarchy_contents memory_contents (ec_inner w)" arbitrary: w d s)
  case Nil
  from memory_sim_next(2)[OF Nil.prems(1), of name root s] Nil.hyps Nil.prems(2) show ?case
    by (auto simp: delete_listed.simps)
next
  case (Cons e es)
  let ?nxt = "simulate_lister_next (error_context_layer (memory_accessor name root))"
  let ?del = "ac_deleter_delete (error_context_layer (memory_accessor name root))"
  let ?a = "case md_version (oe_meta e) of None \<Rightarrow> args | Some v \<Rightarrow> od_with_version v args"
  from memory_sim_next(1)[OF Cons.prems(1) Cons.hyps(2)[symmetric], of name root s] obtain w' where
    n: "?nxt (W4_One w, s) = Some (Ok (Some e), W4_One w', s)" "memory_lister_ok (ec_inner w')"
      "hierarchy_contents memory_contents (ec_inner w') = es" by blast
  have "path_ok (oe_path e)" using Cons.prems(3) Cons.hyps(2)[symmetric] by simp
  from memory_ec_delete[OF assms(1) this Cons.prems(2), of name ?a s] obtain d1 where
    d: "?del (oe_path e) ?a (d, s) = Some (Ok (), d1, bt_remove (tl root @ oe_path e) s)" "mdel_root (ec_inner d1) = root"
    by blast
  have "\<forall>e\<in>set (hierarchy_contents memory_contents (ec_inner w')). path_ok (oe_path e)"
    using Cons.prems(3) Cons.hyps(2)[symmetric] n(3) by simp
  from Cons.hyps(1)[OF n(3)[symmetric] n(2) d(2) this, of "bt_remove (tl root @ oe_path e) s"] n(1,3) d(1) Cons.hyps(2)[symmetric]
  show ?case by (simp add: delete_listed.simps[of ?nxt ?del args "W4_One w" d s])
qed

lemma operator_delete_recursive:
  assumes "od_recursive a" "od_version a = None"
    "simulate_list simulate_default (error_context_layer (memory_accessor name root)) p (ol_with_recursive True op_list_default) s =
       Some (Ok l, s)"
  shows "ac_deleter_delete (operator_new (memory_accessor name root)) p a (d, s) =
    delete_listed (simulate_lister_next (error_context_layer (memory_accessor name root)))
      (ac_deleter_delete (error_context_layer (memory_accessor name root))) (od_with_recursive False a) l d s"
  using assms
  by (simp add: operator_new_def correctness_layer_def check_wrapper_delete_def check_delete_def complete_layer_def
      simulate_layer_def simulate_deleter_delete_def simulate_delete_with_recursive_def simulate_info_def
      update_full_capability_def simulate_default_def memory_capability_def capability_default_def io_defs Let_def)

lemma memory_operator_deleter:
  "ac_delete (operator_new (memory_accessor name root)) s =
     Some (Ok (ec_new (ai_scheme (ac_info (memory_accessor name root))) [] (memory_deleter_new s root)), s)"
  "\<exists>d'. ac_deleter_close (operator_new (memory_accessor name root)) (d, s) = Some (Ok (), d', s)"
  by (simp_all add: operator_new_def correctness_layer_def complete_layer_def simulate_layer_def error_context_layer_def
      ec_delete_def ec_deleter_close_def ec_call_def ec_map_err_def memory_accessor_def memory_deleter_io_def
      one_shot_delete_ops_def io_defs Let_def)

lemma operator_delete_once:
  assumes "build_abs_path root p = Some k" "mdel_root (ec_inner d) = root" "\<not> od_recursive a" "od_version a = None"
  shows "\<exists>d'. ac_deleter_delete (operator_new (memory_accessor name root)) p a (d, s) = Some (Ok (), d', bt_remove k s)"
  using assms
  by (simp add: operator_new_def correctness_layer_def check_wrapper_delete_def check_delete_def complete_layer_def
      simulate_layer_def simulate_deleter_delete_def error_context_layer_def ec_deleter_delete_def ec_call_def ec_map_err_def
      memory_accessor_def memory_deleter_io_def one_shot_delete_ops_def memory_delete_once_def memory_delete_def io_defs)

section \<open>Metadata through the stack\<close>

lemma memory_dir_stat:
  assumes "root_ok root" "store_ok root data" "path_ok p" "ends_with_char p slash"
  shows "ac_stat (memory_sim name root) p args data =
    Some (if \<exists>q\<in>store_paths root data. starts_with q p then Ok (metadata_new DIR)
          else Err (error_new NotFound ''the directory is not found''), data)"
proof -
  let ?mem = "memory_accessor name root"
  let ?h = "hierarchy_new (memory_lister_of root data p) p True"
  let ?w = "ec_new (ai_scheme (ac_info ?mem)) p ?h"
  have p: "p = ''/'' \<or> path_ok p" "p \<noteq> ''/''" "list_base p = p"
    using assms(3) by (auto simp: path_ok_def starts_with_char_def list_base_def)
  note ml = memory_list_lister[OF assms(1,2) p(1), folded memory_lister_of_def]
  have es: "hierarchy_contents memory_contents (ec_inner ?w) = memory_contents (memory_lister_of root data p)"
    by (simp add: hierarchy_new_def hierarchy_contents_def ec_new_def)
  have ok: "memory_lister_ok (ec_inner ?w)" using memory_ac_list(2)[OF assms(1,2) p(1), of True] by (simp add: ec_new_def)
  have list: "ac_list (error_context_layer ?mem) p (ol_with_limit 1 (ol_with_recursive True op_list_default)) data =
      Some (Ok ?w, data)"
    using memory_ac_list(1)[OF assms(1,2) p(1), of name "ol_with_limit 1 (ol_with_recursive True op_list_default)"]
    by (simp add: error_context_layer_def ec_list_def ec_map_err_def io_map_def Let_def ol_with_recursive_def ol_with_limit_def)
  have stat: "ac_stat (memory_sim name root) p args data =
      (case ac_lister_next (error_context_layer ?mem) (?w, data) of
         None \<Rightarrow> None
       | Some (Ok e, w, s) \<Rightarrow> Some (if e \<noteq> None then Ok (metadata_new DIR)
           else Err (error_new NotFound ''the directory is not found''), s)
       | Some (Err e, w, s) \<Rightarrow> Some (Err e, s)
       | Some (Panic, w, s) \<Rightarrow> Some (Panic, s))"
    using list p(2) assms(4)
    by (auto simp: memory_sim_def simulate_layer_def simulate_stat_def simulate_default_def memory_capability_def
        capability_default_def Let_def io_defs split: option.splits res.splits)
  have sim: "simulate_lister_next (error_context_layer ?mem) (W4_One ?w, data) =
      map_option (\<lambda>(r, w, s). (r, W4_One w, s)) (ac_lister_next (error_context_layer ?mem) (?w, data))"
    by (simp add: simulate_lister_next_def ways4_io_def Let_def)
  have some: "(\<exists>q\<in>store_paths root data. starts_with q p) \<longleftrightarrow> memory_contents (memory_lister_of root data p) \<noteq> []"
    using ml(4) unfolding p(3) by (cases "memory_contents (memory_lister_of root data p)") (simp_all, blast+)
  show ?thesis
  proof (cases "memory_contents (memory_lister_of root data p)")
    case Nil
    from memory_sim_next(2)[OF ok, of name root data] Nil sim obtain w where
      "ac_lister_next (error_context_layer ?mem) (?w, data) = Some (Ok None, w, data)" unfolding es by auto
    with stat some Nil show ?thesis by simp
  next
    case (Cons e es')
    from memory_sim_next(1)[OF ok, of e es' name root data] Cons sim obtain w where
      "ac_lister_next (error_context_layer ?mem) (?w, data) = Some (Ok (Some e), w, data)" unfolding es by auto
    with stat some Cons show ?thesis by simp
  qed
qed

lemma memory_no_stat:
  assumes "root_ok root" "path_ok p" "\<not> ends_with_char p slash" "memory_get data (tl root @ p) = None"
  shows "\<exists>e. ac_stat (memory_sim name root) p op data = Some (Err e, data) \<and> e_kind e = NotFound"
proof -
  have "p \<noteq> ''/''" "p \<noteq> []" using assms(2) by (auto simp: path_ok_def starts_with_char_def)
  with assms(3,4) build_abs_path_ok[OF assms(1,2)] build_abs_path_top[OF assms(1)] show ?thesis
    by (simp add: memory_sim_def simulate_layer_def simulate_stat_def error_context_layer_def ec_stat_def ec_map_err_def
        memory_accessor_def memory_stat_def memory_not_found_def error_new_def Let_def)
qed

lemma memory_operator_stat:
  "ac_stat (operator_new (memory_accessor name root)) p (op_stat_from stat_options_default) =
   ac_stat (memory_sim name root) p (op_stat_from stat_options_default)"
  by (simp add: operator_new_def correctness_layer_def correctness_stat_def complete_layer_def memory_sim_def
      op_stat_from_def stat_options_default_def Let_def)

lemma memory_operator_exists:
  assumes "root_ok root" "store_ok root data" "normalize_path path = ''/'' \<or> path_ok (normalize_path path)"
  shows "operator_exists (operator_new (memory_accessor name root)) path data =
    Some (Ok (let p = normalize_path path in p = ''/'' \<or>
       (if ends_with_char p slash then \<exists>q \<in> store_paths root data. starts_with q p else p \<in> store_paths root data)), data)"
proof -
  let ?p = "normalize_path path" and ?mem = "memory_accessor name root"
  have ne: "?p \<noteq> []" using assms(3) by (auto simp: path_ok_def)
  consider (top_dir) "?p = ''/''" | (sub_dir) "path_ok ?p" "ends_with_char ?p slash" "?p \<noteq> ''/''"
    | (plain) "path_ok ?p" "\<not> ends_with_char ?p slash" using assms(3) by (auto simp: ends_with_char_def)
  then show ?thesis
  proof cases
    case top_dir
    then show ?thesis
      by (simp add: operator_exists_def operator_stat_def memory_operator_stat memory_sim_def simulate_layer_def
          simulate_stat_def io_ok_def)
  next
    case sub_dir
    then show ?thesis using memory_dir_stat[OF assms(1,2) sub_dir(1,2)]
      by (simp add: operator_exists_def operator_stat_def memory_operator_stat error_new_def)
  next
    case plain
    have "?p \<in> store_paths root data \<longleftrightarrow> memory_get data (tl root @ ?p) \<noteq> None"
      using plain(1) by (auto simp: store_paths_def memory_get_def map_of_eq_None_iff)
    moreover have "?p \<noteq> ''/''" using plain(2) by (auto simp: ends_with_char_def)
    moreover have "operator_exists (operator_new ?mem) path data =
        Some (Ok (memory_get data (tl root @ ?p) \<noteq> None), data)"
    proof (cases "memory_get data (tl root @ ?p)")
      case None
      from memory_no_stat[OF assms(1) plain this, of name "op_stat_from stat_options_default"] show ?thesis
        by (auto simp: operator_exists_def operator_stat_def memory_operator_stat None)
    next
      case (Some v)
      from memory_sim_stat[OF assms(1) plain this] show ?thesis
        by (simp add: operator_exists_def operator_stat_def memory_operator_stat Some)
    qed
    ultimately show ?thesis using plain(2) by simp
  qed
qed

lemma memory_operator_create_dir:
  assumes "root_ok root" "store_ok root data" "path_ok p"
  shows "\<exists>v. ac_create_dir (operator_new (memory_accessor name root)) p data =
    Some (Ok (), bt_insert (tl root @ p) v data) \<and> buffer_view (mv_content v) = []"
proof -
  let ?w = "memory_writer_new data (tl root @ p) op_write_default"
  have free: "memory_writer_free data (tl root @ p) ?w" "memory_writer_writes ?w = []"
    using assms(2) by (simp_all add: memory_writer_free_def memory_writer_at_def memory_writer_inv_def memory_writer_new_def
        memory_writer_writes_def op_write_default_def store_ok_def)
  from memory_writer_free_close[OF free(1)] free(2) obtain m w' where
    c: "memory_writer_close ?w = (Ok m, w')" "memory_object data (tl root @ p) (mw_core w') = Some []" by auto
  from c(2) obtain v where v: "mw_core w' = bt_insert (tl root @ p) v data" "buffer_view (mv_content v) = []"
    by (auto simp: memory_object_def split: option.splits if_splits)
  have "ac_create_dir (operator_new (memory_accessor name root)) p data =
      simulate_create_dir simulate_default (error_context_layer (memory_accessor name root)) p data"
    by (simp add: operator_new_def correctness_layer_def complete_layer_def simulate_layer_def)
  also have "\<dots> = Some (Ok (), mw_core w')"
    using c(1) build_abs_path_ok[OF assms(1,3)]
    by (simp add: simulate_create_dir_def memory_capability_def capability_default_def simulate_default_def
        error_context_layer_def ec_write_def ec_writer_close_def ec_call_def ec_map_err_def ec_new_def memory_accessor_def
        memory_write_def memory_writer_io_def memory_write_ops_def memory_writer_new_def memory_info_def
        set_root_def set_native_capability_def io_defs Let_def)
  finally show ?thesis using v by auto
qed

section \<open>Properties\<close>

text \<open>
  C3: Deleting recursively through the operator, with the default layers over the memory service: the
  deletion succeeds, and afterwards exactly the objects are gone whose path starts with the given one; all
  others are as before.  A path that does not end in a slash is a prefix of names: deleting \<open>a\<close> also
  deletes \<open>ab\<close>.
\<close>

theorem operator_remove_all_exact:
  assumes "root_ok root" "store_ok root data" "normalize_path path = ''/'' \<or> path_ok (normalize_path path)"
  shows "operator_remove_all (operator_new (memory_accessor name root)) path data =
    Some (Ok (), filter (\<lambda>(k, v). \<not> starts_with k (tl root @ list_base (normalize_path path))) data)"
proof -
  let ?p = "normalize_path path" and ?mem = "memory_accessor name root"
  let ?h = "hierarchy_new (memory_lister_of root data ?p) ?p True"
  let ?w = "ec_new (ai_scheme (ac_info ?mem)) ?p ?h"
  let ?d = "ec_new (ai_scheme (ac_info ?mem)) [] (memory_deleter_new data root)"
  note ml = memory_list_lister[OF assms, folded memory_lister_of_def]
  have es: "hierarchy_contents memory_contents ?h = memory_contents (memory_lister_of root data ?p)"
    by (simp add: hierarchy_new_def hierarchy_contents_def)
  have args: "od_recursive (op_delete_from (delete_options_default\<lparr>do_recursive := True\<rparr>))"
    "od_version (op_delete_from (delete_options_default\<lparr>do_recursive := True\<rparr>)) = None"
    by (simp_all add: op_delete_from_def delete_options_default_def)
  have list: "simulate_list simulate_default (error_context_layer ?mem) ?p (ol_with_recursive True op_list_default) data =
      Some (Ok (W4_One ?w), data)"
    using memory_ec_list[OF memory_ac_list(1)[OF assms], of simulate_default name "ol_with_recursive True op_list_default"]
    by (simp add: ol_with_recursive_def)
  have del: "ac_deleter_delete (operator_new ?mem) ?p a (?d, data) =
      delete_listed (simulate_lister_next (error_context_layer ?mem)) (ac_deleter_delete (error_context_layer ?mem))
        (od_with_recursive False a) (W4_One ?w) ?d data" if "od_recursive a" "od_version a = None" for a
    using that list by (simp add: operator_delete_recursive)
  have ok: "memory_lister_ok (ec_inner ?w)" "mdel_root (ec_inner ?d) = root" "ec_inner ?w = ?h"
    using memory_ac_list(2)[OF assms, of True] by (simp_all add: ec_new_def memory_deleter_new_def)
  have paths: "\<forall>e\<in>set (hierarchy_contents memory_contents (ec_inner ?w)). path_ok (oe_path e)"
    using ml(4) unfolding ok(3) es by (auto simp: store_paths_def)
  have gone: "k \<in> (\<lambda>e. tl root @ oe_path e) ` set (memory_contents (memory_lister_of root data ?p)) \<longleftrightarrow>
      starts_with k (tl root @ list_base ?p)" if "(k, v) \<in> set data" for k v
    using that assms(2) unfolding image_image[of "(@) (tl root)" oe_path, symmetric] ml(4)
    by (force simp: store_ok_def store_paths_def starts_with_iff image_iff)
  let ?a = "op_delete_from (delete_options_default\<lparr>do_recursive := True\<rparr>)"
  from memory_delete_listed[OF assms(1) ok(1,2) paths, of name "od_with_recursive False ?a" data] obtain d where
    d: "ac_deleter_delete (operator_new ?mem) ?p ?a (?d, data) =
        Some (Ok (), d, filter (\<lambda>(k, v). \<not> starts_with k (tl root @ list_base ?p)) data)"
    using filter_cong[OF refl, of data "\<lambda>(k, v). k \<notin> (\<lambda>e. tl root @ oe_path e) ` set (memory_contents (memory_lister_of root data ?p))"
        "\<lambda>(k, v). \<not> starts_with k (tl root @ list_base ?p)"] gone
    unfolding ok(3) es fold_bt_remove del[OF args] by auto
  then show ?thesis
    by (simp add: operator_remove_all_def operator_delete_def memory_operator_deleter io_bind_def io_local_def)
qed

lemma example_prefix:
  "normalize_path ''a/'' = ''/'' \<or> path_ok (normalize_path ''a/'')"
  "normalize_path ''a'' = ''/'' \<or> path_ok (normalize_path ''a'')" "normalize_path ''a'' = ''a''"
proof -
  have "normalize_path ''a'' = ''a''" "path_ok ''a''"
    by code_simp (simp add: path_ok_def valid_str_def is_continuation_def)
  then show "normalize_path ''a/'' = ''/'' \<or> path_ok (normalize_path ''a/'')"
    "normalize_path ''a'' = ''/'' \<or> path_ok (normalize_path ''a'')" "normalize_path ''a'' = ''a''"
    using example_dir by simp_all
qed

theorem operator_remove_all_exact_witness:
  "operator_remove_all (operator_new (memory_accessor [] ''/'')) ''a/'' sized_store = Some (Ok (), [(''ab'', sized_object [])]) \<and>
   operator_remove_all (operator_new (memory_accessor [] ''/'')) ''a'' sized_store = Some (Ok (), [])"
proof -
  have store: "store_ok ''/'' sized_store" using sized_store_ok(1) by (simp add: store_sized_def)
  show ?thesis
    using operator_remove_all_exact[OF example_store_ok(1) store example_prefix(1), of "[]"]
      operator_remove_all_exact[OF example_store_ok(1) store example_prefix(2), of "[]"]
    unfolding example_dir(1) example_prefix(3) by (simp add: sized_store_def list_base_def)
qed

text \<open>
  C8: \<open>exists\<close> through the operator, with the default layers over the memory service: it always succeeds
  and leaves the store as it is; the root exists, a path that ends in a slash exists exactly if something is
  stored at or below it, and any other path exactly if an object is stored there.
\<close>

theorem operator_exists_exact:
  assumes "root_ok root" "store_ok root data" "normalize_path path = ''/'' \<or> path_ok (normalize_path path)"
  shows "operator_exists (operator_new (memory_accessor name root)) path data =
    Some (Ok (let p = normalize_path path in p = ''/'' \<or>
       (if ends_with_char p slash then \<exists>q \<in> store_paths root data. starts_with q p else p \<in> store_paths root data)), data)"
  by (rule memory_operator_exists[OF assms])

theorem operator_exists_exact_witness:
  "operator_exists (operator_new (memory_accessor [] ''/'')) ''a/'' sized_store = Some (Ok True, sized_store) \<and>
   operator_exists (operator_new (memory_accessor [] ''/'')) ''a'' sized_store = Some (Ok False, sized_store)"
proof -
  have store: "store_ok ''/'' sized_store" using sized_store_ok(1) by (simp add: store_sized_def)
  show ?thesis
    using operator_exists_exact[OF example_store_ok(1) store example_prefix(1), of "[]"]
      operator_exists_exact[OF example_store_ok(1) store example_prefix(2), of "[]"]
    unfolding example_dir(1) example_prefix(3) sized_store_ok(2) by (simp add: ends_with_char_def)
qed

text \<open>
  \<open>create_dir\<close> through the operator, with the default layers over the memory service: it succeeds for
  every path that ends in a slash, adds an empty object at that path, after which the path exists, and changes
  nothing else; for any other path it fails with \<open>NotADirectory\<close> and changes nothing.
\<close>

theorem operator_create_dir_exact:
  assumes "root_ok root" "store_ok root data" "path_ok (normalize_path path)"
  shows "if ends_with_char (normalize_path path) slash
    then \<exists>v. operator_create_dir (operator_new (memory_accessor name root)) path data =
        Some (Ok (), bt_insert (tl root @ normalize_path path) v data) \<and> buffer_view (mv_content v) = [] \<and>
      operator_exists (operator_new (memory_accessor name root)) path (bt_insert (tl root @ normalize_path path) v data) =
        Some (Ok True, bt_insert (tl root @ normalize_path path) v data)
    else \<exists>e. operator_create_dir (operator_new (memory_accessor name root)) path data = Some (Err e, data) \<and>
      e_kind e = NotADirectory"
proof (cases "ends_with_char (normalize_path path) slash")
  case True
  let ?p = "normalize_path path"
  from memory_operator_create_dir[OF assms(1,2,3), of name] obtain v where
    v: "ac_create_dir (operator_new (memory_accessor name root)) ?p data = Some (Ok (), bt_insert (tl root @ ?p) v data)"
      "buffer_view (mv_content v) = []" by blast
  let ?s = "bt_insert (tl root @ ?p) v data"
  have store: "store_ok root ?s" "?p \<in> store_paths root ?s" "starts_with ?p ?p"
    using assms(2,3) by (auto simp: store_ok_def store_paths_def fst_bt_insert bt_insert_ok starts_with_iff)
  have "(let p = ?p in p = ''/'' \<or> (if ends_with_char p slash then \<exists>q \<in> store_paths root ?s. starts_with q p
      else p \<in> store_paths root ?s)) = True"
    using store(2,3) by (auto simp: Let_def)
  with memory_operator_exists[OF assms(1) store(1) disjI2[OF assms(3)], of name]
  have "operator_exists (operator_new (memory_accessor name root)) path ?s = Some (Ok True, ?s)" by simp
  with v True show ?thesis by (auto simp: operator_create_dir_def Let_def validate_path_def)
next
  case False
  then show ?thesis by (simp add: operator_create_dir_def Let_def validate_path_def io_err_def path_error_def error_new_def
        with_context_def with_operation_def)
qed

text \<open>
  C39: Deleting one path in two ways.  \<open>Operator::delete\<close> normalises its path and removes the object
  there; \<open>Operator::delete_iter\<close> hands its paths to the service as they are, so for a path with a leading
  slash it succeeds and removes nothing.
\<close>

theorem delete_iter_keeps_rooted:
  assumes "root_ok root" "store_ok root data" "path_ok (normalize_path path)" "starts_with_char path slash" "path \<noteq> ''/''"
  shows "operator_delete (operator_new (memory_accessor name root)) path delete_options_default data =
      Some (Ok (), bt_remove (tl root @ normalize_path path) data) \<and>
    operator_delete_iter (operator_new (memory_accessor name root)) [input_of_path path] data = Some (Ok (), data)"
proof
  let ?mem = "memory_accessor name root"
  let ?d = "ec_new (ai_scheme (ac_info ?mem)) [] (memory_deleter_new data root)"
  have d: "mdel_root (ec_inner ?d) = root" by (simp add: ec_new_def memory_deleter_new_def)
  have plain: "\<not> od_recursive (op_delete_from delete_options_default)" "od_version (op_delete_from delete_options_default) = None"
    "\<not> od_recursive (delete_args (input_of_path path))" "od_version (delete_args (input_of_path path)) = None"
    "di_path (input_of_path path) = path"
    by (simp_all add: op_delete_from_def delete_options_default_def delete_args_def input_of_path_def op_delete_default_def)
  note close = memory_operator_deleter(2)[of name root]
  from operator_delete_once[OF build_abs_path_ok[OF assms(1,3)] d plain(1,2), of name data] obtain d1 where
    d1: "ac_deleter_delete (operator_new ?mem) (normalize_path path) (op_delete_from delete_options_default) (?d, data) =
      Some (Ok (), d1, bt_remove (tl root @ normalize_path path) data)" by blast
  with close[of d1 "bt_remove (tl root @ normalize_path path) data"]
  show "operator_delete (operator_new ?mem) path delete_options_default data =
      Some (Ok (), bt_remove (tl root @ normalize_path path) data)"
    by (auto simp: operator_delete_def memory_operator_deleter(1) io_bind_def io_local_def)
  have abs: "build_abs_path root path = Some (tl root @ path)"
    using assms(1,5) str_from_root[of root] by (auto simp: root_ok_def build_abs_path_def)
  have "bt_remove (tl root @ path) data = data"
    using assms(2,4) by (force simp: bt_remove_def store_ok_def path_ok_def intro!: filter_True)
  with operator_delete_once[OF abs d plain(3,4), of name data] obtain d2 where
    "ac_deleter_delete (operator_new ?mem) path (delete_args (input_of_path path)) (?d, data) = Some (Ok (), d2, data)"
    by auto
  with close[of d2 data] plain(5)
  show "operator_delete_iter (operator_new ?mem) [input_of_path path] data = Some (Ok (), data)"
    by (auto simp: operator_delete_iter_def deleter_delete_def deleter_close_def deleter_ops_def memory_operator_deleter(1)
        io_bind_def io_local_def)
qed

theorem delete_iter_keeps_rooted_witness:
  "operator_delete (operator_new (memory_accessor [] ''/'')) ''//f'' delete_options_default [(''f'', sized_object [])] =
     Some (Ok (), []) \<and>
   operator_delete_iter (operator_new (memory_accessor [] ''/'')) [input_of_path ''//f''] [(''f'', sized_object [])] =
     Some (Ok (), [(''f'', sized_object [])])"
proof -
  have store: "store_ok ''/'' [(''f'', sized_object [])]" using example_path(2) by (simp add: store_ok_def)
  have p: "path_ok (normalize_path ''//f'')" "starts_with_char ''//f'' slash" "''//f'' \<noteq> ''/''"
    using example_path by (simp_all add: starts_with_char_def)
  from delete_iter_keeps_rooted[OF example_store_ok(1) store p, of "[]"] show ?thesis
    unfolding example_path(1) by (simp add: bt_remove_def)
qed

end
