(* ===== verification/Access_Types.thy ===== *)
theory Access_Types
  imports Operators
begin

text \<open>
  Invariants of a service and of the objects it hands out, through the layers and the operator.

  \<open>io_safe I ok m\<close> says of a method that it keeps the invariant \<open>I\<close> of its state in every outcome, be it
  success, failure or panic, and that a value it returns satisfies \<open>ok\<close>.  There is one rule per combinator.
  Locale \<open>safe_access\<close> is the contract of a service whose state keeps an invariant on the paths
  \<open>vp\<close> and \<open>wp\<close>, with
  invariants for its readers, writers, listers, deleters and copiers; every default layer keeps the
  contract, and so does every method of the operator.
\<close>

section \<open>Methods that keep an invariant\<close>

definition io_safe :: "('s \<Rightarrow> bool) \<Rightarrow> ('a \<Rightarrow> bool) \<Rightarrow> ('s, 'a) io \<Rightarrow> bool" where
  "io_safe I ok m \<longleftrightarrow> (\<forall>s r s'. I s \<longrightarrow> m s = Some (r, s') \<longrightarrow> I s' \<and> (\<forall>x. r = Ok x \<longrightarrow> ok x))"

text \<open>The invariant of an object together with that of the service.\<close>

definition obj :: "('o \<Rightarrow> bool) \<Rightarrow> ('s \<Rightarrow> bool) \<Rightarrow> 'o \<times> 's \<Rightarrow> bool" where
  "obj oi I = (\<lambda>(ob, s). oi ob \<and> I s)"

lemma obj_simps [simp]: "obj oi I (ob, s) \<longleftrightarrow> oi ob \<and> I s"
  by (simp add: obj_def)

text \<open>The outcome of a method of an object.\<close>

definition out_ok :: "('o \<Rightarrow> bool) \<Rightarrow> ('s \<Rightarrow> bool) \<Rightarrow> ('a \<Rightarrow> bool) \<Rightarrow> 'a res \<times> 'o \<times> 's \<Rightarrow> bool" where
  "out_ok oo I ok = (\<lambda>(r, ob, s). oo ob \<and> I s \<and> (\<forall>x. r = Ok x \<longrightarrow> ok x))"

named_theorems io_safe_intros \<open>one rule per combinator of asynchronous methods\<close>

lemma io_safeD: "io_safe I ok m \<Longrightarrow> I s \<Longrightarrow> m s = Some (r, s') \<Longrightarrow> I s' \<and> (\<forall>x. r = Ok x \<longrightarrow> ok x)"
  by (simp add: io_safe_def)

lemma io_safeI:
  "(\<And>s r s'. I s \<Longrightarrow> m s = Some (r, s') \<Longrightarrow> I s' \<and> (\<forall>x. r = Ok x \<longrightarrow> ok x)) \<Longrightarrow> io_safe I ok m"
  by (simp add: io_safe_def)

lemma io_safe_weaken: "io_safe I ok m \<Longrightarrow> (\<And>x. ok x \<Longrightarrow> ok' x) \<Longrightarrow> io_safe I ok' m"
  unfolding io_safe_def by blast

lemma io_safe_basic [io_safe_intros]:
  "ok x \<Longrightarrow> io_safe I ok (io_ok x)" "io_safe I ok (io_err e)" "(\<And>x. r = Ok x \<Longrightarrow> ok x) \<Longrightarrow> io_safe I ok (io_res r)"
  by (rule io_safeI; auto simp: io_defs)+

lemma io_safe_bind [io_safe_intros]:
  assumes "io_safe I ok m" "\<And>x. ok x \<Longrightarrow> io_safe I ok' (f x)"
  shows "io_safe I ok' (io_bind m f)"
proof (rule io_safeI)
  fix s r s'
  assume s: "I s" "io_bind m f s = Some (r, s')"
  then obtain r1 s1 where m: "m s = Some (r1, s1)" by (cases "m s") (auto simp: io_bind_def)
  note i = io_safeD[OF assms(1) s(1) m]
  show "I s' \<and> (\<forall>x. r = Ok x \<longrightarrow> ok' x)"
  proof (cases r1)
    case (Ok v)
    with s(2) m have f: "f v s1 = Some (r, s')" by (simp add: io_bind_def)
    from i Ok have "ok v" "I s1" by simp_all
    from io_safeD[OF assms(2)[OF this(1)] this(2) f] show ?thesis .
  qed (use s(2) m i in \<open>auto simp: io_bind_def\<close>)
qed

lemma io_safe_map [io_safe_intros]:
  assumes "io_safe I ok m" "\<And>x. ok x \<Longrightarrow> ok' (f x)" shows "io_safe I ok' (io_map f m)"
proof (rule io_safeI)
  fix s r s'
  assume s: "I s" "io_map f m s = Some (r, s')"
  then obtain r1 where r1: "m s = Some (r1, s')" "r = map_res f r1" by (auto simp: io_map_def)
  from io_safeD[OF assms(1) s(1) r1(1)] assms(2) r1(2) show "I s' \<and> (\<forall>x. r = Ok x \<longrightarrow> ok' x)"
    by (cases r1) simp_all
qed

lemma io_safe_map_err [io_safe_intros]:
  assumes "io_safe I ok m" shows "io_safe I ok (io_map_err f m)"
proof (rule io_safeI)
  fix s r s'
  assume s: "I s" "io_map_err f m s = Some (r, s')"
  then obtain r1 where r1: "m s = Some (r1, s')" "r = map_err f r1" by (auto simp: io_map_err_def)
  from io_safeD[OF assms(1) s(1) r1(1)] r1(2) show "I s' \<and> (\<forall>x. r = Ok x \<longrightarrow> ok x)" by (cases r1) simp_all
qed

lemma io_safe_objI:
  assumes "\<And>ob s r ob' s'. oo ob \<Longrightarrow> I s \<Longrightarrow> m (ob, s) = Some (r, ob', s') \<Longrightarrow>
    oo ob' \<and> I s' \<and> (\<forall>x. r = Ok x \<longrightarrow> ok x)"
  shows "io_safe (obj oo I) ok m"
proof (rule io_safeI)
  fix x r y
  assume "obj oo I x" "m x = Some (r, y)"
  with assms[of "fst x" "snd x" r "fst y" "snd y"] show "obj oo I y \<and> (\<forall>v. r = Ok v \<longrightarrow> ok v)"
    by (simp add: obj_def split_def)
qed

lemma io_safe_objD:
  "io_safe (obj oo I) ok m \<Longrightarrow> oo ob \<Longrightarrow> I s \<Longrightarrow> m (ob, s) = Some (r, ob', s') \<Longrightarrow>
     oo ob' \<and> I s' \<and> (\<forall>x. r = Ok x \<longrightarrow> ok x)"
  using io_safeD[of "obj oo I" ok m "(ob, s)" r "(ob', s')"] by simp

lemma io_safe_on [io_safe_intros]:
  assumes "io_safe (obj oi I) ok m" "\<And>ob. oo ob \<Longrightarrow> oi (get ob)" "\<And>i ob. oi i \<Longrightarrow> oo ob \<Longrightarrow> oo (put i ob)"
  shows "io_safe (obj oo I) ok (io_on get put m)"
proof (rule io_safe_objI)
  fix ob s r ob' s'
  assume o: "oo ob" "I s" "io_on get put m (ob, s) = Some (r, ob', s')"
  then obtain i where i: "m (get ob, s) = Some (r, i, s')" "ob' = put i ob" by (auto simp: io_on_def)
  from io_safe_objD[OF assms(1) assms(2)[OF o(1)] o(2) i(1)] assms(3)[OF _ o(1)] i(2)
  show "oo ob' \<and> I s' \<and> (\<forall>x. r = Ok x \<longrightarrow> ok x)" by blast
qed

lemma io_safe_lift [io_safe_intros]:
  assumes "io_safe I ok m" shows "io_safe (obj oo I) ok (io_lift m)"
proof (rule io_safe_objI)
  fix ob s r ob' s'
  assume o: "oo ob" "I s" "io_lift m (ob, s) = Some (r, ob', s')"
  then have "m s = Some (r, s')" "ob' = ob" by (auto simp: io_lift_def)
  with io_safeD[OF assms o(2)] o(1) show "oo ob' \<and> I s' \<and> (\<forall>x. r = Ok x \<longrightarrow> ok x)" by simp
qed

lemma io_safe_local [io_safe_intros]:
  assumes "oo ob" "io_safe (obj oo I) ok m" shows "io_safe I ok (io_local ob m)"
proof (rule io_safeI)
  fix s r s'
  assume s: "I s" "io_local ob m s = Some (r, s')"
  then obtain ob' where "m (ob, s) = Some (r, ob', s')" by (auto simp: io_local_def)
  from io_safe_objD[OF assms(2,1) s(1) this] show "I s' \<and> (\<forall>x. r = Ok x \<longrightarrow> ok x)" by simp
qed

lemma io_safe_update [io_safe_intros]:
  assumes "\<And>ob. oo ob \<Longrightarrow> oo (f ob)" shows "io_safe (obj oo I) (\<lambda>_. True) (io_update f)"
  by (rule io_safe_objI) (use assms in \<open>simp add: io_update_def\<close>)

lemma io_safe_get [io_safe_intros]:
  assumes "\<And>ob. oo ob \<Longrightarrow> ok (f ob)" shows "io_safe (obj oo I) ok (io_get f)"
  by (rule io_safe_objI) (use assms in \<open>auto simp: io_get_def\<close>)

lemma io_safe_with [io_safe_intros]:
  assumes "\<And>ob. oo ob \<Longrightarrow> io_safe (obj oo I) ok (f ob)" shows "io_safe (obj oo I) ok (io_with f)"
proof (rule io_safe_objI)
  fix ob s r ob' s'
  assume o: "oo ob" "I s" "io_with f (ob, s) = Some (r, ob', s')"
  then have "f ob (ob, s) = Some (r, ob', s')" by (simp add: io_with_def)
  from io_safe_objD[OF assms[OF o(1)] o(1,2) this] show "oo ob' \<and> I s' \<and> (\<forall>x. r = Ok x \<longrightarrow> ok x)" .
qed

lemma io_safe_inspect_err [io_safe_intros]:
  assumes "io_safe (obj oo I) ok m" "\<And>ob. oo ob \<Longrightarrow> oo (f ob)"
  shows "io_safe (obj oo I) ok (io_inspect_err f m)"
proof (rule io_safe_objI)
  fix ob s r ob' s'
  assume o: "oo ob" "I s" "io_inspect_err f m (ob, s) = Some (r, ob', s')"
  then obtain ob1 where ob1: "m (ob, s) = Some (r, ob1, s')" "ob' = (case r of Err _ \<Rightarrow> f ob1 | _ \<Rightarrow> ob1)"
    by (auto simp: io_inspect_err_def)
  from io_safe_objD[OF assms(1) o(1,2) ob1(1)] assms(2) ob1(2) show "oo ob' \<and> I s' \<and> (\<forall>x. r = Ok x \<longrightarrow> ok x)"
    by (cases r) simp_all
qed

lemma io_safe_inspect [io_safe_intros]:
  assumes "io_safe (obj oo I) ok m" "\<And>v ob. oo ob \<Longrightarrow> oo (f v ob)"
  shows "io_safe (obj oo I) ok (io_inspect f m)"
proof (rule io_safe_objI)
  fix ob s r ob' s'
  assume o: "oo ob" "I s" "io_inspect f m (ob, s) = Some (r, ob', s')"
  then obtain ob1 where ob1: "m (ob, s) = Some (r, ob1, s')" "ob' = (case r of Ok v \<Rightarrow> f v ob1 | _ \<Rightarrow> ob1)"
    by (auto simp: io_inspect_def)
  from io_safe_objD[OF assms(1) o(1,2) ob1(1)] assms(2) ob1(2) show "oo ob' \<and> I s' \<and> (\<forall>x. r = Ok x \<longrightarrow> ok x)"
    by (cases r) simp_all
qed

lemma io_safe_total:
  assumes "io_safe I ok m" "I s" "io_total m s = (r, s')" shows "I s' \<and> (\<forall>x. r = Ok x \<longrightarrow> ok x)"
  using assms(2,3) io_safeD[OF assms(1,2), of r s'] by (cases "m s") (simp_all add: io_total_def)

section \<open>The contract of a service\<close>

text \<open>
  \<open>vp\<close> are the paths a caller may read, list and delete, \<open>wp\<close> those it may write to.  The paths of listed
  entries are of the first kind again, so that layers may list, stat and delete them.
\<close>

locale safe_access =
  fixes acc :: "('s, 'r, 'w, 'l, 'd, 'c) accessor" and I :: "'s \<Rightarrow> bool" and vp wp :: "str \<Rightarrow> bool"
    and rok :: "'r \<Rightarrow> bool" and wok :: "'w \<Rightarrow> bool" and lok :: "'l \<Rightarrow> bool" and dok :: "'d \<Rightarrow> bool" and cok :: "'c \<Rightarrow> bool"
  assumes create_dir_safe: "wp p \<Longrightarrow> io_safe I (\<lambda>_. True) (ac_create_dir acc p)"
    and stat_safe: "vp p \<Longrightarrow> io_safe I (\<lambda>_. True) (ac_stat acc p sargs)"
    and read_safe: "vp p \<Longrightarrow> io_safe I (\<lambda>x. rok (snd x)) (ac_read acc p rargs)"
    and write_safe: "wp p \<Longrightarrow> io_safe I wok (ac_write acc p wargs)"
    and delete_safe: "io_safe I dok (ac_delete acc)"
    and list_safe: "vp p \<Longrightarrow> io_safe I lok (ac_list acc p largs)"
    and copy_safe: "vp p \<Longrightarrow> wp q \<Longrightarrow> io_safe I cok (ac_copy acc p q cargs copts)"
    and rename_safe: "vp p \<Longrightarrow> wp q \<Longrightarrow> io_safe I (\<lambda>_. True) (ac_rename acc p q)"
    and reader_read_safe: "io_safe (obj rok I) (\<lambda>_. True) (ac_reader_read acc)"
    and writer_write_safe: "buffer_ok bs \<Longrightarrow> io_safe (obj wok I) (\<lambda>_. True) (ac_writer_write acc bs)"
    and writer_close_safe: "io_safe (obj wok I) (\<lambda>_. True) (ac_writer_close acc)"
    and writer_abort_safe: "io_safe (obj wok I) (\<lambda>_. True) (ac_writer_abort acc)"
    and lister_next_safe: "io_safe (obj lok I) (\<lambda>x. \<forall>e. x = Some e \<longrightarrow> vp (oe_path e)) (ac_lister_next acc)"
    and deleter_delete_safe: "vp p \<Longrightarrow> io_safe (obj dok I) (\<lambda>_. True) (ac_deleter_delete acc p dargs)"
    and deleter_close_safe: "io_safe (obj dok I) (\<lambda>_. True) (ac_deleter_close acc)"
    and copier_next_safe: "io_safe (obj cok I) (\<lambda>_. True) (c_next (ac_copier acc))"
    and copier_close_safe: "io_safe (obj cok I) (\<lambda>_. True) (c_close (ac_copier acc))"
    and copier_abort_safe: "io_safe (obj cok I) (\<lambda>_. True) (c_abort (ac_copier acc))"

lemmas safe_access_laws =
  safe_access.create_dir_safe safe_access.stat_safe safe_access.read_safe safe_access.write_safe safe_access.delete_safe
  safe_access.list_safe safe_access.copy_safe safe_access.rename_safe safe_access.reader_read_safe safe_access.writer_write_safe safe_access.writer_close_safe safe_access.writer_abort_safe safe_access.lister_next_safe safe_access.deleter_delete_safe safe_access.deleter_close_safe safe_access.copier_next_safe safe_access.copier_close_safe safe_access.copier_abort_safe

section \<open>Layers\<close>

lemma io_safe_ec_map_err [io_safe_intros]:
  assumes "io_safe I ok m" shows "io_safe I ok (ec_map_err op ctx m)"
proof (rule io_safeI)
  fix s r s'
  assume s: "I s" "ec_map_err op ctx m s = Some (r, s')"
  then obtain r1 where r1: "m s = Some (r1, s')" "r = ec_res op ctx r1" by (auto simp: ec_map_err_def)
  from io_safeD[OF assms s(1) r1(1)] r1(2) show "I s' \<and> (\<forall>x. r = Ok x \<longrightarrow> ok x)"
    by (cases r1) (simp_all split: option.splits)
qed

lemma io_safe_ec_call:
  assumes "io_safe (obj oi I) ok m"
  shows "io_safe (obj (\<lambda>w. oi (ec_inner w)) I) ok (ec_call op ctx count m)"
  unfolding ec_call_def by (rule io_safe_intros assms | simp)+

lemma error_context_safe:
  assumes "safe_access acc I vp wp rok wok lok dok cok"
  shows "safe_access (error_context_layer acc) I vp wp (\<lambda>w. rok (ec_inner w)) (\<lambda>w. wok (ec_inner w)) (\<lambda>w. lok (ec_inner w))
    (\<lambda>w. dok (ec_inner w)) (\<lambda>w. cok (ec_inner w))"
  by (rule safe_access.intro; simp add: error_context_layer_def ec_create_dir_def ec_stat_def ec_read_def ec_write_def
      ec_delete_def ec_list_def ec_copy_def ec_rename_def ec_reader_read_def ec_writer_write_def ec_writer_close_def
      ec_writer_abort_def ec_lister_next_def ec_deleter_delete_def ec_deleter_close_def ec_copier_def Let_def;
      (rule io_safe_ec_map_err io_safe_ec_call io_safe_map safe_access_laws[OF assms]
        | assumption | simp add: ec_new_def ec_with_range_def split_def)+)

text \<open>\<open>CompleteLayer\<close>\<close>

definition cw_holds :: "('w \<Rightarrow> bool) \<Rightarrow> 'w complete_writer \<Rightarrow> bool" where
  "cw_holds wok w \<longleftrightarrow> (\<forall>i. cw_inner w = Some i \<longrightarrow> wok i)"

lemma io_safe_cw_inner_call:
  assumes "io_safe (obj wok I) ok m"
  shows "io_safe (obj (cw_holds wok) I) ok (cw_inner_call m)"
proof (unfold cw_inner_call_def, rule io_safe_with)
  fix w assume w: "cw_holds wok w"
  show "io_safe (obj (cw_holds wok) I) ok
     (case cw_inner w of
        None \<Rightarrow> io_err writer_closed
      | Some i \<Rightarrow> io_inspect_err (cw_transition Error) (io_on (\<lambda>_. i) (\<lambda>i' w. w\<lparr>cw_inner := Some i'\<rparr>) m))"
  proof (cases "cw_inner w")
    case (Some i)
    with w have "wok i" by (simp add: cw_holds_def)
    with Some show ?thesis
      by simp (rule io_safe_inspect_err io_safe_on assms | simp add: cw_holds_def cw_transition_def)+
  qed (simp add: io_safe_basic)
qed

lemma io_safe_complete_read:
  assumes "io_safe (obj rok I) (\<lambda>_. True) m"
  shows "io_safe (obj (\<lambda>r. rok (crd_inner r)) I) (\<lambda>_. True) (complete_reader_read m)"
  unfolding complete_reader_read_def
  by (rule io_safe_bind[where ok = "\<lambda>_. True"] io_safe_on assms | simp split del: if_split)+
    (auto intro!: io_safe_with io_safe_update io_safe_basic)

lemma ensure_length_safe:
  assumes "\<And>args. io_safe I (\<lambda>_. True) (stat (oe_path e) args)"
  shows "io_safe I (\<lambda>e'. oe_path e' = oe_path e) (ensure_file_content_length stat scheme e)"
  unfolding ensure_file_content_length_def Let_def
  by (rule io_safe_bind[OF assms]) (simp add: io_safe_basic)

lemma complete_lister_loop_safe:
  assumes "complete_lister_loop stat scheme inner l s = Some z"
  shows "(\<forall>p args. vp p \<longrightarrow> io_safe I (\<lambda>_. True) (stat p args)) \<longrightarrow>
    io_safe (obj lok I) (\<lambda>x. \<forall>e. x = Some e \<longrightarrow> vp (oe_path e)) inner \<longrightarrow> lok l \<longrightarrow> I s \<longrightarrow>
    out_ok lok I (\<lambda>x. \<forall>e. x = Some e \<longrightarrow> vp (oe_path e)) z"
proof (rule complete_lister_loop.raw_induct[OF _ assms, where P = "\<lambda>stat scheme inner l s z.
      (\<forall>p args. vp p \<longrightarrow> io_safe I (\<lambda>_. True) (stat p args)) \<longrightarrow>
      io_safe (obj lok I) (\<lambda>x. \<forall>e. x = Some e \<longrightarrow> vp (oe_path e)) inner \<longrightarrow> lok l \<longrightarrow> I s \<longrightarrow>
      out_ok lok I (\<lambda>x. \<forall>e. x = Some e \<longrightarrow> vp (oe_path e)) z"], goal_cases)
  case (1 loop stat scheme inner l0 s0 z)
  show ?case
  proof (intro impI)
    assume st: "\<forall>p args. vp p \<longrightarrow> io_safe I (\<lambda>_. True) (stat p args)"
      and inner: "io_safe (obj lok I) (\<lambda>x. \<forall>e. x = Some e \<longrightarrow> vp (oe_path e)) inner" and l0: "lok l0" and s0: "I s0"
    from 1(2) obtain r l s where n: "inner (l0, s0) = Some (r, l, s)" by (cases "inner (l0, s0)") auto
    note i = io_safe_objD[OF inner l0 s0 n]
    show "out_ok lok I (\<lambda>x. \<forall>e. x = Some e \<longrightarrow> vp (oe_path e)) z"
    proof (cases "\<exists>e. r = Ok (Some e) \<and> needs_length e")
      case False
      with 1(2) n have "z = (r, l, s)"
        by (auto simp: needs_length_def split: option.splits res.splits if_splits)
      with i show ?thesis by (simp add: out_ok_def)
    next
      case True
      then obtain e where e: "r = Ok (Some e)" "needs_length e" by blast
      with i have vp: "vp (oe_path e)" by simp
      from 1(2) n e obtain t s1 where w: "ensure_file_content_length stat scheme e s = Some (t, s1)"
        by (cases "ensure_file_content_length stat scheme e s") (auto simp: needs_length_def)
      have "io_safe I (\<lambda>e'. oe_path e' = oe_path e) (ensure_file_content_length stat scheme e)"
        using st vp by (intro ensure_length_safe) simp
      from io_safeD[OF this _ w] i have t: "I s1" "\<And>e'. t = Ok e' \<Longrightarrow> oe_path e' = oe_path e" by auto
      show ?thesis
      proof (cases t)
        case (Ok e')
        with 1(2) n e w have "z = (Ok (Some e'), l, s1)" by (auto simp: needs_length_def)
        with t Ok i vp show ?thesis by (simp add: out_ok_def)
      next
        case (Err er)
        show ?thesis
        proof (cases "e_kind er = NotFound")
          case True
          with 1(2) n e w Err have "loop stat scheme inner l s1 = Some z" by (auto simp: needs_length_def)
          from 1(1)[OF this] st inner i t(1) show ?thesis by blast
        next
          case False
          with 1(2) n e w Err have "z = (Err er, l, s1)" by (auto simp: needs_length_def)
          with t i show ?thesis by (simp add: out_ok_def)
        qed
      next
        case Panic
        with 1(2) n e w have "z = (Panic, l, s1)" by (auto simp: needs_length_def)
        with t i show ?thesis by (simp add: out_ok_def)
      qed
    qed
  qed
qed

lemma io_safe_complete_lister:
  assumes "\<And>p args. vp p \<Longrightarrow> io_safe I (\<lambda>_. True) (stat p args)"
    "io_safe (obj lok I) (\<lambda>x. \<forall>e. x = Some e \<longrightarrow> vp (oe_path e)) inner"
  shows "io_safe (obj lok I) (\<lambda>x. \<forall>e. x = Some e \<longrightarrow> vp (oe_path e)) (complete_lister_next stat scheme inner)"
proof (rule io_safe_objI)
  fix l s r l' s'
  assume l: "lok l" "I s" "complete_lister_next stat scheme inner (l, s) = Some (r, l', s')"
  then have "complete_lister_loop stat scheme inner l s = Some (r, l', s')" by (simp add: complete_lister_next_def)
  from complete_lister_loop_safe[OF this, of vp I lok] assms l(1,2)
  show "lok l' \<and> I s' \<and> (\<forall>x. r = Ok x \<longrightarrow> (\<forall>e. x = Some e \<longrightarrow> vp (oe_path e)))" by (simp add: out_ok_def)
qed

lemma complete_safe:
  assumes "safe_access acc I vp wp rok wok lok dok cok"
  shows "safe_access (complete_layer acc) I vp wp (\<lambda>r. rok (crd_inner r)) (cw_holds wok) lok dok cok"
proof (rule safe_access.intro)
  note laws = safe_access_laws[OF assms]
  have upd: "\<And>w. cw_holds wok w \<Longrightarrow> cw_holds wok (cw_transition Written (w\<lparr>cw_size := n\<rparr>))"
    "\<And>w. cw_holds wok (cw_transition Closed (w\<lparr>cw_inner := None\<rparr>))"
    "\<And>w d. cw_holds wok w \<Longrightarrow> cw_holds wok (cw_transition d w)" for n
    by (simp_all add: cw_holds_def cw_transition_def)
  fix p q sargs rargs wargs largs cargs copts bs dargs
  show "io_safe (obj (cw_holds wok) I) (\<lambda>_. True) (ac_writer_write (complete_layer acc) bs)" if "buffer_ok bs"
    using upd by (simp add: complete_layer_def complete_writer_write_def)
      (rule io_safe_bind[OF io_safe_cw_inner_call[OF safe_access.writer_write_safe[OF assms that]]] io_safe_update
       | simp add: upd)+
  show "io_safe (obj (cw_holds wok) I) (\<lambda>_. True) (ac_writer_close (complete_layer acc))"
    by (simp add: complete_layer_def complete_writer_close_def)
      (rule io_safe_bind[OF io_safe_cw_inner_call[OF safe_access.writer_close_safe[OF assms]]] io_safe_bind[where ok = "\<lambda>_. True"]
        io_safe_inspect_err io_safe_with io_safe_basic io_safe_get io_safe_update | simp add: upd)+
  show "io_safe (obj (cw_holds wok) I) (\<lambda>_. True) (ac_writer_abort (complete_layer acc))"
    by (simp add: complete_layer_def complete_writer_abort_def)
      (rule io_safe_bind[OF io_safe_cw_inner_call[OF safe_access.writer_abort_safe[OF assms]]] io_safe_update | simp add: upd)+
  show "io_safe (obj lok I) (\<lambda>x. \<forall>e. x = Some e \<longrightarrow> vp (oe_path e)) (ac_lister_next (complete_layer acc))"
    by (simp add: complete_layer_def io_safe_complete_lister[OF safe_access.stat_safe[OF assms] safe_access.lister_next_safe[OF assms]])
  show "io_safe (obj (\<lambda>r. rok (crd_inner r)) I) (\<lambda>_. True) (ac_reader_read (complete_layer acc))"
    by (simp add: complete_layer_def io_safe_complete_read[OF safe_access.reader_read_safe[OF assms]])
qed (simp add: complete_layer_def complete_read_def complete_write_def;
  (rule io_safe_map safe_access_laws[OF assms] | assumption
    | simp add: complete_reader_new_def complete_writer_new_def cw_holds_def split_def)+)+

text \<open>\<open>SimulateLayer\<close>\<close>

definition frame_holds :: "(str \<Rightarrow> bool) \<Rightarrow> ('l \<Rightarrow> bool) \<Rightarrow> oio_entry option \<times> 'l \<Rightarrow> bool" where
  "frame_holds vp lok a \<longleftrightarrow> lok (snd a) \<and> (\<forall>e. fst a = Some e \<longrightarrow> vp (oe_path e))"

definition flat_holds :: "(str \<Rightarrow> bool) \<Rightarrow> ('l \<Rightarrow> bool) \<Rightarrow> 'l flat_lister \<Rightarrow> bool" where
  "flat_holds vp lok f \<longleftrightarrow> (\<forall>e. fl_next_dir f = Some e \<longrightarrow> vp (oe_path e)) \<and>
     list_all (frame_holds vp lok) (fl_active f)"

lemma frame_holds_simps [simp]:
  "frame_holds vp lok (None, l) \<longleftrightarrow> lok l" "frame_holds vp lok (Some e, l) \<longleftrightarrow> lok l \<and> vp (oe_path e)"
  by (simp_all add: frame_holds_def)

abbreviation listed_ok :: "(str \<Rightarrow> bool) \<Rightarrow> oio_entry option \<Rightarrow> bool" where
  "listed_ok vp x \<equiv> \<forall>e. x = Some e \<longrightarrow> vp (oe_path e)"

lemma flat_first_safe:
  assumes "flat_first nxt l s = Some z"
  shows "io_safe (obj lok I) (listed_ok vp) nxt \<longrightarrow> lok l \<longrightarrow> I s \<longrightarrow> out_ok lok I (listed_ok vp) z"
proof (rule flat_first.raw_induct[OF _ assms, where P = "\<lambda>nxt l s z.
      io_safe (obj lok I) (listed_ok vp) nxt \<longrightarrow> lok l \<longrightarrow> I s \<longrightarrow> out_ok lok I (listed_ok vp) z"], goal_cases)
  case (1 loop nxt l s z)
  show ?case
  proof (intro impI)
    assume nxt: "io_safe (obj lok I) (listed_ok vp) nxt" and l: "lok l" and s: "I s"
    from 1(2) obtain r l1 s1 where n: "nxt (l, s) = Some (r, l1, s1)" by (cases "nxt (l, s)") auto
    note i = io_safe_objD[OF nxt l s n]
    show "out_ok lok I (listed_ok vp) z"
    proof (cases "\<exists>e. r = Err e \<and> e_kind e = NotFound")
      case True
      with 1(2) n have "loop nxt l1 s1 = Some z" by auto
      from 1(1)[OF this] nxt i show ?thesis by blast
    next
      case False
      with 1(2) n have "z = (r, l1, s1)" by (auto split: res.splits if_splits)
      with i show ?thesis by (simp add: out_ok_def)
    qed
  qed
qed

lemma flat_step_safe:
  assumes "\<And>p args. vp p \<Longrightarrow> io_safe I lok (list p args)" "io_safe (obj lok I) (listed_ok vp) nxt"
    "flat_holds vp lok st" "I s" "flat_step list nxt st s = Some (r, st', s')"
  shows "flat_holds vp lok st' \<and> I s' \<and> (\<forall>x. r = Some (Ok x) \<longrightarrow> listed_ok vp x)"
proof (cases "fl_next_dir st")
  case (Some de)
  with assms(3) have de: "vp (oe_path de)" by (simp add: flat_holds_def)
  from assms(5) Some obtain t s1 where l: "list (oe_path de) op_list_default s = Some (t, s1)"
    by (cases "list (oe_path de) op_list_default s") (auto simp: flat_step_def)
  note i = io_safeD[OF assms(1)[OF de] assms(4) l]
  show ?thesis
  proof (cases t)
    case (Ok v)
    with i have v: "lok v" "I s1" by simp_all
    from assms(5) Some l Ok obtain q l1 s2 where f: "flat_first nxt v s1 = Some (q, l1, s2)"
      by (cases "flat_first nxt v s1") (auto simp: flat_step_def)
    from flat_first_safe[OF f, of lok I vp] assms(2) v have o: "lok l1" "I s2" "\<And>x. q = Ok x \<Longrightarrow> listed_ok vp x"
      by (auto simp: out_ok_def)
    from assms(5) Some l Ok f o assms(3) de show ?thesis
      by (auto simp: flat_step_def flat_holds_def Let_def split: res.splits option.splits if_splits)
  next
    case (Err e)
    from assms(5) Some l Err i assms(3) show ?thesis by (auto simp: flat_step_def flat_holds_def Let_def split: if_splits)
  next
    case Panic
    from assms(5) Some l Panic i assms(3) show ?thesis by (auto simp: flat_step_def flat_holds_def Let_def)
  qed
next
  case None
  show ?thesis
  proof (cases "fl_active st")
    case Nil
    with None assms(3-5) show ?thesis by (auto simp: flat_step_def)
  next
    case (Cons a rest)
    obtain d l where a: "a = (d, l)" by force
    show ?thesis
    proof (cases d)
      case None' : None
      with None Cons a assms(3-5) show ?thesis by (auto simp: flat_step_def flat_holds_def)
    next
      case (Some de)
      with a Cons assms(3) have l: "lok l" "vp (oe_path de)" by (auto simp: flat_holds_def)
      from assms(5) None Cons a Some obtain q l1 s1 where n: "nxt (l, s) = Some (q, l1, s1)"
        by (cases "nxt (l, s)") (auto simp: flat_step_def)
      note o = io_safe_objD[OF assms(2) l(1) assms(4) n]
      from assms(5) None Cons a Some n o assms(3) l show ?thesis
        by (auto simp: flat_step_def flat_holds_def Let_def split: res.splits option.splits if_splits)
    qed
  qed
qed

lemma flat_loop_safe:
  assumes "flat_loop list nxt st s = Some z"
  shows "(\<forall>p args. vp p \<longrightarrow> io_safe I lok (list p args)) \<longrightarrow> io_safe (obj lok I) (listed_ok vp) nxt \<longrightarrow>
    flat_holds vp lok st \<longrightarrow> I s \<longrightarrow> out_ok (flat_holds vp lok) I (listed_ok vp) z"
proof (rule flat_loop.raw_induct[OF _ assms, where P = "\<lambda>list nxt st s z.
      (\<forall>p args. vp p \<longrightarrow> io_safe I lok (list p args)) \<longrightarrow> io_safe (obj lok I) (listed_ok vp) nxt \<longrightarrow>
      flat_holds vp lok st \<longrightarrow> I s \<longrightarrow> out_ok (flat_holds vp lok) I (listed_ok vp) z"], goal_cases)
  case (1 loop list nxt st s z)
  show ?case
  proof (intro impI)
    assume a: "\<forall>p args. vp p \<longrightarrow> io_safe I lok (list p args)" "io_safe (obj lok I) (listed_ok vp) nxt"
      "flat_holds vp lok st" "I s"
    from 1(2) obtain r st1 s1 where n: "flat_step list nxt st s = Some (r, st1, s1)"
      by (cases "flat_step list nxt st s") auto
    have i: "flat_holds vp lok st1 \<and> I s1 \<and> (\<forall>x. r = Some (Ok x) \<longrightarrow> listed_ok vp x)"
      by (rule flat_step_safe[OF _ a(2-4) n]) (use a(1) in blast)
    show "out_ok (flat_holds vp lok) I (listed_ok vp) z"
    proof (cases r)
      case None
      with 1(2) n have "loop list nxt st1 s1 = Some z" by simp
      from 1(1)[OF this] a(1,2) i show ?thesis by blast
    next
      case (Some q)
      with 1(2) n i show ?thesis by (auto simp: out_ok_def)
    qed
  qed
qed

lemma io_safe_flat_next:
  assumes "\<And>p args. vp p \<Longrightarrow> io_safe I lok (list p args)" "io_safe (obj lok I) (listed_ok vp) nxt"
  shows "io_safe (obj (flat_holds vp lok) I) (listed_ok vp) (flat_next list nxt)"
proof (rule io_safe_objI)
  fix l s r l' s'
  assume l: "flat_holds vp lok l" "I s" "flat_next list nxt (l, s) = Some (r, l', s')"
  then have "flat_loop list nxt l s = Some (r, l', s')" by (simp add: flat_next_def)
  from flat_loop_safe[OF this, of vp I lok] assms l(1,2)
  show "flat_holds vp lok l' \<and> I s' \<and> (\<forall>x. r = Ok x \<longrightarrow> listed_ok vp x)" by (simp add: out_ok_def)
qed

lemma prefix_next_safe:
  assumes "prefix_next nxt p = Some z"
  shows "io_safe J ok nxt \<longrightarrow> J (pl_lister p) \<longrightarrow> J (pl_lister (snd z)) \<and> (\<forall>x. fst z = Ok x \<longrightarrow> ok x)"
proof (rule prefix_next.raw_induct[OF _ assms, where P = "\<lambda>nxt p z.
      io_safe J ok nxt \<longrightarrow> J (pl_lister p) \<longrightarrow> J (pl_lister (snd z)) \<and> (\<forall>x. fst z = Ok x \<longrightarrow> ok x)"], goal_cases)
  case (1 loop nxt p z)
  show ?case
  proof (intro impI)
    assume a: "io_safe J ok nxt" "J (pl_lister p)"
    from 1(2) obtain r l where n: "nxt (pl_lister p) = Some (r, l)" by (cases "nxt (pl_lister p)") auto
    note i = io_safeD[OF a n]
    show "J (pl_lister (snd z)) \<and> (\<forall>x. fst z = Ok x \<longrightarrow> ok x)"
    proof (cases "\<exists>e. r = Ok (Some e) \<and> \<not> starts_with (oe_path e) (pl_prefix p)")
      case True
      with 1(2) n have "loop nxt (p\<lparr>pl_lister := l\<rparr>) = Some z" by auto
      from 1(1)[OF this] a(1) i show ?thesis by simp
    next
      case False
      with 1(2) n have "z = (r, p\<lparr>pl_lister := l\<rparr>)" by (auto split: option.splits res.splits if_splits)
      with i show ?thesis by simp
    qed
  qed
qed

lemma io_safe_prefix_io:
  assumes "io_safe (obj lok I) ok nxt"
  shows "io_safe (obj (\<lambda>p. lok (pl_lister p)) I) ok (prefix_io nxt)"
proof (rule io_safe_objI)
  fix p s r p' s'
  assume p: "lok (pl_lister p)" "I s" "prefix_io nxt (p, s) = Some (r, p', s')"
  then obtain q where q: "prefix_next nxt (prefix_new (pl_lister p, s) (pl_prefix p)) = Some (r, q)"
    "p' = prefix_new (fst (pl_lister q)) (pl_prefix q)" "s' = snd (pl_lister q)" by (auto simp: prefix_io_def)
  from prefix_next_safe[OF q(1), of "obj lok I" ok] assms p(1,2) q(2,3)
  show "lok (pl_lister p') \<and> I s' \<and> (\<forall>x. r = Ok x \<longrightarrow> ok x)" by (simp add: prefix_new_def obj_def split_def)
qed

definition ways4_holds ::
  "('a \<Rightarrow> bool) \<Rightarrow> ('b \<Rightarrow> bool) \<Rightarrow> ('c \<Rightarrow> bool) \<Rightarrow> ('d \<Rightarrow> bool) \<Rightarrow> ('a, 'b, 'c, 'd) ways4 \<Rightarrow> bool" where
  "ways4_holds p q r t v = (case v of W4_One a \<Rightarrow> p a | W4_Two b \<Rightarrow> q b | W4_Three c \<Rightarrow> r c | W4_Four d \<Rightarrow> t d)"

lemma io_safe_ways4:
  assumes "io_safe (obj p I) ok f" "io_safe (obj q I) ok g" "io_safe (obj r I) ok h" "io_safe (obj t I) ok k"
  shows "io_safe (obj (ways4_holds p q r t) I) ok (ways4_io f g h k)"
proof (rule io_safe_objI)
  fix v s x v' s'
  assume v: "ways4_holds p q r t v" "I s" "ways4_io f g h k (v, s) = Some (x, v', s')"
  show "ways4_holds p q r t v' \<and> I s' \<and> (\<forall>y. x = Ok y \<longrightarrow> ok y)"
  proof (cases v)
    case (W4_One a)
    with v obtain a' where a: "f (a, s) = Some (x, a', s')" "v' = W4_One a'" by (auto simp: ways4_io_def)
    from io_safe_objD[OF assms(1) _ v(2) a(1)] v(1) W4_One a(2) show ?thesis by (simp add: ways4_holds_def)
  next
    case (W4_Two a)
    with v obtain a' where a: "g (a, s) = Some (x, a', s')" "v' = W4_Two a'" by (auto simp: ways4_io_def)
    from io_safe_objD[OF assms(2) _ v(2) a(1)] v(1) W4_Two a(2) show ?thesis by (simp add: ways4_holds_def)
  next
    case (W4_Three a)
    with v obtain a' where a: "h (a, s) = Some (x, a', s')" "v' = W4_Three a'" by (auto simp: ways4_io_def)
    from io_safe_objD[OF assms(3) _ v(2) a(1)] v(1) W4_Three a(2) show ?thesis by (simp add: ways4_holds_def)
  next
    case (W4_Four a)
    with v obtain a' where a: "k (a, s) = Some (x, a', s')" "v' = W4_Four a'" by (auto simp: ways4_io_def)
    from io_safe_objD[OF assms(4) _ v(2) a(1)] v(1) W4_Four a(2) show ?thesis by (simp add: ways4_holds_def)
  qed
qed

abbreviation sim_holds :: "(str \<Rightarrow> bool) \<Rightarrow> ('l \<Rightarrow> bool) \<Rightarrow> 'l simulate_lister \<Rightarrow> bool" where
  "sim_holds vp lok \<equiv> ways4_holds lok (flat_holds vp lok) (\<lambda>p. lok (pl_lister p)) (\<lambda>p. flat_holds vp lok (pl_lister p))"

lemma delete_listed_safe:
  assumes "delete_listed nxt del args l d s = Some z"
  shows "io_safe (obj lok I) (listed_ok vp) nxt \<longrightarrow> (\<forall>p a. vp p \<longrightarrow> io_safe (obj dok I) (\<lambda>_. True) (del p a)) \<longrightarrow>
    lok l \<longrightarrow> dok d \<longrightarrow> I s \<longrightarrow> out_ok dok I (\<lambda>_. True) z"
proof (rule delete_listed.raw_induct[OF _ assms, where P = "\<lambda>nxt del args l d s z.
      io_safe (obj lok I) (listed_ok vp) nxt \<longrightarrow> (\<forall>p a. vp p \<longrightarrow> io_safe (obj dok I) (\<lambda>_. True) (del p a)) \<longrightarrow>
      lok l \<longrightarrow> dok d \<longrightarrow> I s \<longrightarrow> out_ok dok I (\<lambda>_. True) z"], goal_cases)
  case (1 loop nxt del args l d s z)
  show ?case
  proof (intro impI)
    assume a: "io_safe (obj lok I) (listed_ok vp) nxt" "\<forall>p a. vp p \<longrightarrow> io_safe (obj dok I) (\<lambda>_. True) (del p a)"
      "lok l" "dok d" "I s"
    from 1(2) obtain r l1 s1 where n: "nxt (l, s) = Some (r, l1, s1)" by (cases "nxt (l, s)") auto
    note i = io_safe_objD[OF a(1,3,5) n]
    show "out_ok dok I (\<lambda>_. True) z"
    proof (cases "\<exists>e. r = Ok (Some e)")
      case True
      then obtain e where e: "r = Ok (Some e)" by blast
      let ?a = "case md_version (oe_meta e) of None \<Rightarrow> args | Some v \<Rightarrow> od_with_version v args"
      from i e a(2) have del: "io_safe (obj dok I) (\<lambda>_. True) (del (oe_path e) ?a)" by blast
      from 1(2) n e obtain q d1 s2 where q: "del (oe_path e) ?a (d, s1) = Some (q, d1, s2)"
        by (cases "del (oe_path e) ?a (d, s1)") auto
      from io_safe_objD[OF del a(4) _ q] i have o: "dok d1" "I s2" by auto
      show ?thesis
      proof (cases q)
        case (Ok u)
        with 1(2) n e q have "loop nxt del args l1 d1 s2 = Some z" by simp
        from 1(1)[OF this] a(1,2) i o show ?thesis by blast
      qed (use 1(2) n e q o in \<open>auto simp: out_ok_def\<close>)
    next
      case False
      with 1(2) n i a(4) show ?thesis by (auto simp: out_ok_def split: res.splits option.splits)
    qed
  qed
qed

text \<open>Paths of which the layer may list the parent.\<close>

definition closed_paths :: "(str \<Rightarrow> bool) \<Rightarrow> bool" where
  "closed_paths vp \<longleftrightarrow> vp ''/'' \<and> (\<forall>p. vp p \<longrightarrow> vp (get_parent p))"

lemma flat_new_holds: "vp p \<Longrightarrow> vp ''/'' \<Longrightarrow> flat_holds vp lok (flat_new p)"
  by (simp add: flat_holds_def flat_new_def oio_entry_new_def oio_entry_with_def)

lemma simulate_list_safe:
  assumes "safe_access acc I vp wp rok wok lok dok cok" "closed_paths vp" "vp p"
  shows "io_safe I (sim_holds vp lok) (simulate_list c acc p args)"
proof -
  note list = safe_access.list_safe[OF assms(1)]
  have "vp ''/''" "vp (get_parent p)" using assms(2,3) by (auto simp: closed_paths_def)
  with assms(3) show ?thesis unfolding simulate_list_def
    by (auto intro!: io_safe_map[OF list] io_safe_basic flat_new_holds
        simp: ways4_holds_def prefix_new_def split: bool.splits)
qed

lemma simulate_lister_safe:
  assumes "safe_access acc I vp wp rok wok lok dok cok"
  shows "io_safe (obj (sim_holds vp lok) I) (listed_ok vp) (simulate_lister_next acc)"
  unfolding simulate_lister_next_def Let_def
  by (rule io_safe_ways4 io_safe_prefix_io io_safe_flat_next safe_access.list_safe[OF assms] safe_access.lister_next_safe[OF assms]
      | assumption)+

lemma simulate_delete_safe:
  assumes "safe_access acc I vp wp rok wok lok dok cok" "closed_paths vp" "vp p"
  shows "io_safe (obj dok I) (\<lambda>_. True) (simulate_delete_with_recursive c acc p args)"
proof -
  let ?del = "\<lambda>lister (d, s). delete_listed (simulate_lister_next acc) (ac_deleter_delete acc) (od_with_recursive False args) lister d s"
  have "io_safe (obj dok I) (\<lambda>_. True) (?del l)" if "sim_holds vp lok l" for l
  proof (rule io_safe_objI)
    fix d s r d' s'
    assume d: "dok d" "I s" "?del l (d, s) = Some (r, d', s')"
    then have "delete_listed (simulate_lister_next acc) (ac_deleter_delete acc) (od_with_recursive False args) l d s =
        Some (r, d', s')" by simp
    from delete_listed_safe[OF this, of "sim_holds vp lok" I vp dok] d(1,2) that
      simulate_lister_safe[OF assms(1)] safe_access.deleter_delete_safe[OF assms(1)]
    show "dok d' \<and> I s' \<and> (\<forall>x. r = Ok x \<longrightarrow> True)" by (simp add: out_ok_def)
  qed
  then show ?thesis unfolding simulate_delete_with_recursive_def
    by (auto intro!: io_safe_basic io_safe_bind[OF io_safe_lift[OF simulate_list_safe[OF assms]]])
qed

lemma simulate_safe:
  assumes "safe_access acc I vp wp rok wok lok dok cok" "closed_paths vp"
  shows "safe_access (simulate_layer c acc) I vp wp rok wok (sim_holds vp lok) dok cok"
proof (rule safe_access.intro)
  fix p q sargs rargs wargs largs cargs copts bs dargs
  show "io_safe I (\<lambda>_. True) (ac_create_dir (simulate_layer c acc) p)" if "wp p"
  proof -
    have "io_safe I (\<lambda>_. True) (io_bind (ac_write acc p op_write_default) (\<lambda>w.
        io_bind (io_local w (ac_writer_close acc)) (\<lambda>_. io_ok ())))"
      by (rule io_safe_bind[OF safe_access.write_safe[OF assms(1) that]],
          rule io_safe_bind[OF io_safe_local[OF _ safe_access.writer_close_safe[OF assms(1)]]]) (simp_all add: io_safe_basic)
    then show ?thesis
      using safe_access.create_dir_safe[OF assms(1) that] by (simp add: simulate_layer_def simulate_create_dir_def Let_def)
  qed
  show "io_safe I (\<lambda>_. True) (ac_stat (simulate_layer c acc) p sargs)" if "vp p"
  proof -
    note stat = safe_access.stat_safe[OF assms(1) that] and list = safe_access.list_safe[OF assms(1) that]
    have "io_safe I (\<lambda>_. True) (io_bind (ac_stat acc p sargs) (\<lambda>meta.
        if metadata_is_file meta then io_err (error_new NotFound ''stat expected a directory, but found a file'')
        else io_ok meta))"
      by (rule io_safe_bind[OF stat]) (simp add: io_safe_basic)
    moreover have "io_safe I (\<lambda>_. True) (io_bind (ac_list acc p args) (\<lambda>l.
        io_bind (io_local l (ac_lister_next acc)) (\<lambda>e.
          if e \<noteq> None then io_ok (metadata_new DIR) else io_err (error_new NotFound ''the directory is not found''))))" for args
      by (rule io_safe_bind[OF list] io_safe_bind[OF io_safe_local[OF _ safe_access.lister_next_safe[OF assms(1)]]]
          | simp add: io_safe_basic)+
    ultimately show ?thesis using stat
      by (simp add: simulate_layer_def simulate_stat_def io_safe_basic Let_def)
  qed
  show "io_safe I (sim_holds vp lok) (ac_list (simulate_layer c acc) p largs)" if "vp p"
    using simulate_list_safe[OF assms that] by (simp add: simulate_layer_def)
  show "io_safe (obj (sim_holds vp lok) I) (listed_ok vp) (ac_lister_next (simulate_layer c acc))"
    using simulate_lister_safe[OF assms(1)] by (simp add: simulate_layer_def)
  show "io_safe (obj dok I) (\<lambda>_. True) (ac_deleter_delete (simulate_layer c acc) p dargs)" if "vp p"
    using simulate_delete_safe[OF assms that] safe_access.deleter_delete_safe[OF assms(1) that]
    by (simp add: simulate_layer_def simulate_deleter_delete_def)
qed (simp_all add: simulate_layer_def safe_access_laws[OF assms(1)])

text \<open>\<open>CorrectnessCheckLayer\<close>\<close>

lemma correctness_safe:
  assumes "safe_access acc I vp wp rok wok lok dok cok"
  shows "safe_access (correctness_layer acc) I vp wp rok wok lok dok cok"
proof (rule safe_access.intro)
  fix p q sargs rargs wargs cargs copts dargs
  show "io_safe I (\<lambda>x. rok (snd x)) (ac_read (correctness_layer acc) p rargs)" if "vp p"
    using safe_access.read_safe[OF assms that] by (simp add: correctness_layer_def correctness_read_def io_safe_basic(2) Let_def)
  show "io_safe I wok (ac_write (correctness_layer acc) p wargs)" if "wp p"
    using safe_access.write_safe[OF assms that] 
    by (simp add: correctness_layer_def correctness_write_def io_safe_basic(2) Let_def split: option.splits)
  show "io_safe I (\<lambda>_. True) (ac_stat (correctness_layer acc) p sargs)" if "vp p"
    using safe_access.stat_safe[OF assms that] by (simp add: correctness_layer_def correctness_stat_def io_safe_basic(2) Let_def)
  show "io_safe I cok (ac_copy (correctness_layer acc) p q cargs copts)" if "vp p" "wp q"
    using safe_access.copy_safe[OF assms that] by (simp add: correctness_layer_def correctness_copy_def io_safe_basic(2) Let_def)
  show "io_safe (obj dok I) (\<lambda>_. True) (ac_deleter_delete (correctness_layer acc) p dargs)" if "vp p"
    by (simp add: correctness_layer_def check_wrapper_delete_def)
      (rule io_safe_bind[OF io_safe_basic(3)], rule TrueI, rule safe_access.deleter_delete_safe[OF assms that])
qed (simp_all add: correctness_layer_def safe_access_laws[OF assms])

text \<open>The default stack.\<close>

theorem operator_new_safe:
  assumes "safe_access acc I vp wp rok wok lok dok cok" "closed_paths vp"
  shows "safe_access (operator_new acc) I vp wp (\<lambda>r. rok (ec_inner (crd_inner r))) (cw_holds (\<lambda>w. wok (ec_inner w)))
    (sim_holds vp (\<lambda>w. lok (ec_inner w))) (\<lambda>w. dok (ec_inner w)) (\<lambda>w. cok (ec_inner w))"
  unfolding operator_new_def
  by (rule correctness_safe, rule complete_safe, rule simulate_safe[OF error_context_safe[OF assms(1)] assms(2)])

end
