(* ===== verification/Operator_Types.thy ===== *)
theory Operator_Types
  imports Access_Types Memory_Delete
begin

text \<open>
  The methods of the operator keep the invariant of the service, whatever their outcome.  Proved once for every
  accessor that keeps the contract \<open>safe_access\<close>, and then used for the memory service: from
  a well-formed store, every session of calls, successful or not, leads to a well-formed store.
\<close>

section \<open>Reading\<close>

definition sr_holds :: "('r \<Rightarrow> bool) \<Rightarrow> 'r streaming_reader \<Rightarrow> bool" where
  "sr_holds rok sr \<longleftrightarrow> (\<forall>r. sr_reader sr = Some r \<longrightarrow> rok r)"

definition bst_holds :: "(str \<Rightarrow> bool) \<Rightarrow> ('r \<Rightarrow> bool) \<Rightarrow> 'r buffer_stream \<Rightarrow> bool" where
  "bst_holds vp rok st \<longleftrightarrow> vp (rc_path (bst_ctx st)) \<and>
     (case bst_reader st of One v \<Rightarrow> sr_holds rok v | Two v \<Rightarrow> True)"

context safe_access
begin

lemma open_keeps:
  assumes "vp p" "I s" "rop_open (reader_ops acc) p args s = (r, s')"
  shows "I s' \<and> (\<forall>rp rd. r = Ok (rp, rd) \<longrightarrow> rok rd)"
  using io_safe_total[OF read_safe[OF assms(1)] assms(2)] assms(3) by (fastforce simp: reader_ops_def)

lemma read_keeps:
  assumes "rok rd" "I s" "rop_read (reader_ops acc) rd s = (r, rd', s')"
  shows "rok rd' \<and> I s'"
  using io_safe_total[OF reader_read_safe, of "(rd, s)"] assms by (simp add: reader_ops_def)

lemma stat_keeps:
  assumes "vp p" "I s" "rop_stat (reader_ops acc) p args s = (r, s')" shows "I s'"
  using io_safe_total[OF stat_safe[OF assms(1)] assms(2)] assms(3) by (fastforce simp: reader_ops_def)

lemma sr_open_keeps:
  assumes "sr_open (reader_ops acc) ctx sr s = (r, sr', ctx', s')" "sr_holds rok sr" "vp (rc_path ctx)" "I s"
  shows "sr_holds rok sr' \<and> rc_path ctx' = rc_path ctx \<and> I s'"
proof (cases "sr_reader sr")
  case None
  show ?thesis
  proof (cases "rg_next_range ctx (sr_generator sr)")
    case (Pair rng g)
    show ?thesis
    proof (cases rng)
      case (Some x)
      obtain q s1 where q: "rop_open (reader_ops acc) (rc_path ctx) (ord_with_range x (rc_args ctx)) s = (q, s1)" by force
      from open_keeps[OF assms(3,4) q] None Pair Some q assms show ?thesis
        by (cases q) (auto simp: sr_open_def rg_next_reader_def sr_holds_def rc_observe_def rc_set_metadata_def split: option.splits)
    qed (use None Pair assms in \<open>auto simp: sr_open_def rg_next_reader_def sr_holds_def\<close>)
  qed
qed (use assms in \<open>auto simp: sr_open_def sr_holds_def\<close>)

lemma sr_read_keeps:
  assumes "sr_read ops ctx sr s = Some z"
  shows "ops = reader_ops acc \<longrightarrow> sr_holds rok sr \<longrightarrow> vp (rc_path ctx) \<longrightarrow> I s \<longrightarrow>
    (case z of (r, sr', ctx', s') \<Rightarrow> sr_holds rok sr' \<and> rc_path ctx' = rc_path ctx \<and> I s')"
proof (rule sr_read.raw_induct[OF _ assms, where P = "\<lambda>ops ctx sr s z.
      ops = reader_ops acc \<longrightarrow> sr_holds rok sr \<longrightarrow> vp (rc_path ctx) \<longrightarrow> I s \<longrightarrow>
      (case z of (r, sr', ctx', s') \<Rightarrow> sr_holds rok sr' \<and> rc_path ctx' = rc_path ctx \<and> I s')"], goal_cases)
  case (1 loop ops ctx sr s z)
  show ?case
  proof (intro impI)
    assume a: "ops = reader_ops acc" "sr_holds rok sr" "vp (rc_path ctx)" "I s"
    obtain q sr1 ctx1 s1 where q: "sr_open (reader_ops acc) ctx sr s = (q, sr1, ctx1, s1)" by (metis prod_cases4)
    note o = sr_open_keeps[OF q a(2-4)]
    show "case z of (r, sr', ctx', s') \<Rightarrow> sr_holds rok sr' \<and> rc_path ctx' = rc_path ctx \<and> I s'"
    proof (cases "\<exists>u rd. q = Ok u \<and> sr_reader sr1 = Some rd")
      case False
      with 1(2) a(1) q o show ?thesis by (auto split: res.splits option.splits)
    next
      case True
      then obtain u rd where u: "q = Ok u" "sr_reader sr1 = Some rd" by blast
      obtain b rd' s2 where b: "rop_read (reader_ops acc) rd s1 = (b, rd', s2)" by (metis prod_cases3)
      have rd: "rok rd' \<and> I s2" by (rule read_keeps[OF _ _ b]) (use o u in \<open>simp_all add: sr_holds_def\<close>)
      show ?thesis
      proof (cases "\<exists>buf. b = Ok buf \<and> buffer_is_empty buf")
        case True
        with 1(2) a(1) q u b have "loop (reader_ops acc) ctx1 (sr1\<lparr>sr_reader := None\<rparr>) s2 = Some z" by auto
        from 1(1)[OF this] o rd a(3) show ?thesis by (simp add: sr_holds_def)
      next
        case False
        with 1(2) a(1) q u b o rd show ?thesis by (auto simp: sr_holds_def split: res.splits if_splits)
      qed
    qed
  qed
qed

lemma bst_read_keeps:
  assumes "bst_read (reader_ops acc) env st s = Some (r, st', s')" "bst_holds vp rok st" "I s"
  shows "bst_holds vp rok st' \<and> I s'"
proof (cases "bst_reader st")
  case (One v)
  with assms(1) obtain v1 ctx1 where v: "sr_read (reader_ops acc) (bst_ctx st) v s = Some (r, v1, ctx1, s')"
    "st' = \<lparr>bst_ctx = ctx1, bst_reader = One v1\<rparr>" by (auto simp: bst_read_def)
  from sr_read_keeps[OF v(1)] One assms(2,3) v(2) show ?thesis by (simp add: bst_holds_def)
next
  case (Two v)
  with assms show ?thesis by (auto simp: bst_read_def bst_holds_def split: prod.splits)
qed

lemma bst_collect_keeps:
  assumes "bst_collect ops env bufs st s = Some z"
  shows "ops = reader_ops acc \<longrightarrow> bst_holds vp rok st \<longrightarrow> I s \<longrightarrow> I (snd (snd z))"
proof (rule bst_collect.raw_induct[OF _ assms, where P = "\<lambda>ops env bufs st s z.
      ops = reader_ops acc \<longrightarrow> bst_holds vp rok st \<longrightarrow> I s \<longrightarrow> I (snd (snd z))"], goal_cases)
  case (1 loop ops env bufs st s z)
  show ?case
  proof (intro impI)
    assume a: "ops = reader_ops acc" "bst_holds vp rok st" "I s"
    from 1(2) a(1) obtain q st1 s1 where q: "bst_read (reader_ops acc) env st s = Some (q, st1, s1)"
      by (cases "bst_read (reader_ops acc) env st s") (auto simp: bst_poll_next_def)
    note o = bst_read_keeps[OF q a(2,3)]
    show "I (snd (snd z))"
    proof (cases "\<exists>b. stream_item q = Ok (Some b)")
      case True
      with 1(2) a(1) q obtain b where "loop (reader_ops acc) env (bufs @ [b]) st1 s1 = Some z" by (auto simp: bst_poll_next_def)
      from 1(1)[OF this] o show ?thesis by simp
    next
      case False
      with 1(2) a(1) q o show ?thesis by (auto simp: bst_poll_next_def split: res.splits option.splits)
    qed
  qed
qed

lemma reader_read_safe':
  assumes "vp (rc_path ctx)"
  shows "io_safe I (\<lambda>_. True) (reader_read (reader_ops acc) env ctx lo hi)"
proof (rule io_safeI)
  fix s r s'
  assume s: "I s" "reader_read (reader_ops acc) env ctx lo hi s = Some (r, s')"
  obtain q s1 where q: "bst_create (reader_ops acc) ctx lo hi s = (q, s1)" by force
  have "I s1 \<and> (\<forall>st. q = Ok st \<longrightarrow> bst_holds vp rok st)"
  proof -
    obtain x s2 where x: "rop_stat (reader_ops acc) (rc_path ctx) (reader_stat_op (rc_args ctx)) s = (x, s2)" by force
    from stat_keeps[OF assms s(1) x] q x s(1) assms show ?thesis
      by (cases x) (auto simp: bst_create_def parse_into_range_def bst_holds_def sr_holds_def sr_new_def
          split: if_splits prod.splits res.splits option.splits bound.splits)
  qed
  with s(2) q bst_collect_keeps[of "reader_ops acc" env "[]"] show "I s' \<and> (\<forall>x. r = Ok x \<longrightarrow> True)"
    by (fastforce simp: reader_read_def split: res.splits)
qed

end

section \<open>Writing\<close>

definition wg_holds :: "('w \<Rightarrow> bool) \<Rightarrow> 'w write_generator \<Rightarrow> bool" where
  "wg_holds J g \<longleftrightarrow> J (wg_w g) \<and> queue_ok (wg_buffer g)"

definition writer_keeps :: "'w write_ops \<Rightarrow> ('w \<Rightarrow> bool) \<Rightarrow> bool" where
  "writer_keeps ops J \<longleftrightarrow> (\<forall>w bs. J w \<longrightarrow> buffer_ok bs \<longrightarrow> J (snd (w_write ops w bs))) \<and> (\<forall>w. J w \<longrightarrow> J (snd (w_close ops w)))"

lemma wg_flush_keeps:
  assumes "writer_keeps ops J" "wg_holds J g" "buffer_ok buf" shows "wg_holds J (snd (wg_flush ops g buf))"
  using assms by (cases "w_write ops (wg_w g) buf") (force simp: wg_flush_def wg_holds_def writer_keeps_def)

lemma wg_flush_all_keeps:
  assumes "writer_keeps ops J" "wg_holds J g" shows "wg_holds J (snd (wg_flush_all ops g))"
proof -
  obtain buf where buf: "queue_collect (wg_buffer g) = Some buf" "buffer_ok buf"
    using qb.collect_ok[of "wg_buffer g"] assms(2) by (auto simp: wg_holds_def)
  have "wg_holds J (g\<lparr>wg_buffer := queue_new\<rparr>)" using assms(2) by (simp add: wg_holds_def)
  from wg_flush_keeps[OF assms(1) this buf(2)] buf(1) show ?thesis by (simp add: wg_flush_all_def queue_take_def)
qed

lemma and_then_keeps:
  assumes "J (snd x)" "\<And>a s. J s \<Longrightarrow> J (snd (f a s))" shows "J (snd (and_then_state x f))"
  using assms by (cases x; cases "fst x") auto

lemma wg_write_keeps:
  assumes "writer_keeps ops J" "wg_holds J g" "buffer_ok bs" shows "wg_holds J (snd (wg_write ops g bs))"
proof -
  have push: "wg_holds J (g\<lparr>wg_buffer := queue_push (wg_buffer g) b\<rparr>)" if "wg_holds J g" "buffer_ok b" for g b
    using that qb.push_inv by (simp add: wg_holds_def)
  show ?thesis
    using assms wg_flush_keeps[OF assms] wg_flush_all_keeps[OF assms(1)] push
    by (auto simp: wg_write_def Let_def split: option.splits intro!: and_then_keeps[where J = "wg_holds J"])
qed

lemma writer_write_keeps:
  assumes "writer_write ops g bs = Some z"
  shows "writer_keeps ops J \<longrightarrow> wg_holds J g \<longrightarrow> buffer_ok bs \<longrightarrow> wg_holds J (snd z)"
proof (rule writer_write.raw_induct[OF _ assms, where P = "\<lambda>ops g bs z.
      writer_keeps ops J \<longrightarrow> wg_holds J g \<longrightarrow> buffer_ok bs \<longrightarrow> wg_holds J (snd z)"], goal_cases)
  case (1 loop ops g bs z)
  show ?case
  proof (intro impI)
    assume a: "writer_keeps ops J" "wg_holds J g" "buffer_ok bs"
    obtain q g1 where q: "wg_write ops g bs = (q, g1)" by force
    from wg_write_keeps[OF a] q have g1: "wg_holds J g1" by simp
    show "wg_holds J (snd z)"
    proof (cases "\<exists>n bs1. \<not> buffer_is_empty bs \<and> q = Ok n \<and> buffer_advance bs n = Some bs1")
      case True
      then obtain n bs1 where n: "\<not> buffer_is_empty bs" "q = Ok n" "buffer_advance bs n = Some bs1" by blast
      with 1(2) q have "loop ops g1 bs1 = Some z" by simp
      moreover have "buffer_ok bs1"
        using n(3) buffer_ok_advance[OF a(3), of n] buffer_advance_fail[of bs n] by (cases "n \<le> buffer_len bs") auto
      ultimately show ?thesis using 1(1) a(1) g1 by blast
    next
      case False
      with 1(2) q a(2) g1 show ?thesis by (auto split: if_splits res.splits option.splits)
    qed
  qed
qed

lemma writer_close_keeps:
  assumes "writer_keeps ops J" "wg_holds J g" shows "wg_holds J (snd (writer_close ops g))"
  unfolding writer_close_def wg_close_def
proof (rule and_then_keeps)
  show "wg_holds J (snd (if queue_is_empty (wg_buffer g) then (Ok (), g) else wg_flush_all ops g))"
    using assms wg_flush_all_keeps[OF assms] by simp
  fix g1 assume "wg_holds J g1"
  with assms(1) show "wg_holds J (snd (case w_close ops (wg_w g1) of (r, w) \<Rightarrow> (r, g1\<lparr>wg_w := w\<rparr>)))"
    by (cases "w_close ops (wg_w g1)") (force simp: writer_keeps_def wg_holds_def)
qed

section \<open>The operator\<close>

lemma lister_collect_keeps:
  assumes "lister_collect nxt es l s = Some z"
  shows "io_safe (obj lok I) ok nxt \<longrightarrow> lok l \<longrightarrow> I s \<longrightarrow> I (snd z)"
proof (rule lister_collect.raw_induct[OF _ assms, where P = "\<lambda>nxt es l s z.
      io_safe (obj lok I) ok nxt \<longrightarrow> lok l \<longrightarrow> I s \<longrightarrow> I (snd z)"], goal_cases)
  case (1 loop nxt es l s z)
  show ?case
  proof (intro impI)
    assume a: "io_safe (obj lok I) ok nxt" "lok l" "I s"
    from 1(2) obtain r l1 s1 where n: "nxt (l, s) = Some (r, l1, s1)" by (cases "nxt (l, s)") auto
    note i = io_safe_objD[OF a n]
    show "I (snd z)"
    proof (cases "\<exists>e. r = Ok (Some e)")
      case True
      with 1(2) n obtain e where "loop nxt (es @ [into_entry e]) l1 s1 = Some z" by auto
      from 1(1)[OF this] a(1) i show ?thesis by blast
    next
      case False
      with 1(2) n i show ?thesis by (auto split: res.splits option.splits)
    qed
  qed
qed

definition cp_holds :: "('c \<Rightarrow> bool) \<Rightarrow> 'c copier \<Rightarrow> bool" where
  "cp_holds cok cp \<longleftrightarrow> (\<forall>c. cp_copier cp = Some c \<longrightarrow> cok c)"

lemma copier_next_keeps:
  assumes "io_safe (obj cok I) (\<lambda>_. True) (c_next ops)" "io_safe (obj cok I) (\<lambda>_. True) (c_close ops)"
    "cp_holds cok cp" "I s" "copier_next ops (cp, s) = Some (r, cp', s')"
  shows "cp_holds cok cp' \<and> I s'"
proof (cases "\<not> cp_errored cp \<and> cp_copier cp \<noteq> None")
  case True
  then obtain c where c: "\<not> cp_errored cp" "cp_copier cp = Some c" by blast
  with assms(3) have "cok c" by (simp add: cp_holds_def)
  from assms(5) c obtain q c1 s1 where q: "c_next ops (c, s) = Some (q, c1, s1)"
    by (cases "c_next ops (c, s)") (auto simp: copier_next_def)
  note o = io_safe_objD[OF assms(1) \<open>cok c\<close> assms(4) q]
  show ?thesis
  proof (cases "q = Ok None")
    case True
    with assms(5) c q obtain t c2 s2 where t: "c_close ops (c1, s1) = Some (t, c2, s2)"
      by (cases "c_close ops (c1, s1)") (auto simp: copier_next_def)
    from io_safe_objD[OF assms(2) _ _ t] o have "cok c2 \<and> I s2" by blast
    with assms(5) c q True t show ?thesis by (cases t) (auto simp: copier_next_def cp_holds_def)
  next
    case False
    with assms(5) c q o show ?thesis
      by (cases q) (auto simp: copier_next_def cp_holds_def split: option.splits)
  qed
next
  case False
  with assms(3-5) show ?thesis by (auto simp: copier_next_def split: option.splits)
qed

lemma copier_drain_keeps:
  assumes "copier_drain ops cp s = Some z"
  shows "io_safe (obj cok I) (\<lambda>_. True) (c_next ops) \<longrightarrow> io_safe (obj cok I) (\<lambda>_. True) (c_close ops) \<longrightarrow>
    cp_holds cok cp \<longrightarrow> I s \<longrightarrow> out_ok (cp_holds cok) I (\<lambda>_. True) z"
proof (rule copier_drain.raw_induct[OF _ assms, where P = "\<lambda>ops cp s z.
      io_safe (obj cok I) (\<lambda>_. True) (c_next ops) \<longrightarrow> io_safe (obj cok I) (\<lambda>_. True) (c_close ops) \<longrightarrow>
      cp_holds cok cp \<longrightarrow> I s \<longrightarrow> out_ok (cp_holds cok) I (\<lambda>_. True) z"], goal_cases)
  case (1 loop ops cp s z)
  show ?case
  proof (intro impI)
    assume a: "io_safe (obj cok I) (\<lambda>_. True) (c_next ops)" "io_safe (obj cok I) (\<lambda>_. True) (c_close ops)"
      "cp_holds cok cp" "I s"
    show "out_ok (cp_holds cok) I (\<lambda>_. True) z"
    proof (cases "cp_metadata cp = None")
      case True
      with 1(2) obtain q cp1 s1 where q: "copier_next ops (cp, s) = Some (q, cp1, s1)"
        by (cases "copier_next ops (cp, s)") auto
      note o = copier_next_keeps[OF a q]
      show ?thesis
      proof (cases "\<exists>n. q = Ok (Some n)")
        case True
        with 1(2) q \<open>cp_metadata cp = None\<close> have "loop ops cp1 s1 = Some z" by auto
        from 1(1)[OF this] a(1,2) o show ?thesis by blast
      next
        case False
        with 1(2) q \<open>cp_metadata cp = None\<close> o show ?thesis by (auto simp: out_ok_def split: res.splits option.splits)
      qed
    next
      case False
      with 1(2) a show ?thesis by (auto simp: out_ok_def)
    qed
  qed
qed

context safe_access
begin

lemma operator_stat_safe: "vp (normalize_path path) \<Longrightarrow> io_safe I (\<lambda>_. True) (operator_stat acc path opts)"
  unfolding operator_stat_def by (rule stat_safe)

lemma operator_exists_safe:
  assumes "vp (normalize_path path)" shows "io_safe I (\<lambda>_. True) (operator_exists acc path)"
proof (rule io_safeI)
  fix s r s'
  assume s: "I s" "operator_exists acc path s = Some (r, s')"
  then obtain q where q: "operator_stat acc path stat_options_default s = Some (q, s')"
    by (auto simp: operator_exists_def split: option.splits res.splits)
  from io_safeD[OF operator_stat_safe[OF assms] s(1) q] show "I s' \<and> (\<forall>x. r = Ok x \<longrightarrow> True)" by simp
qed

lemma operator_create_dir_safe:
  "wp (normalize_path path) \<Longrightarrow> io_safe I (\<lambda>_. True) (operator_create_dir acc path)"
  by (simp add: operator_create_dir_def Let_def io_safe_basic create_dir_safe)

lemma operator_list_safe:
  assumes "vp (normalize_path path)" shows "io_safe I (\<lambda>_. True) (operator_list acc path opts)"
  unfolding operator_list_def
proof (rule io_safe_bind[OF list_safe[OF assms]])
  fix l assume "lok l"
  with lister_collect_keeps[OF _, of "ac_lister_next acc" "[]" l] lister_next_safe
  show "io_safe I (\<lambda>_. True) (lister_collect (ac_lister_next acc) [] l)" by (intro io_safeI) force
qed

lemma operator_delete_safe:
  assumes "vp (normalize_path path)" shows "io_safe I (\<lambda>_. True) (operator_delete acc path opts)"
  unfolding operator_delete_def Let_def
  by (rule io_safe_bind[OF delete_safe], rule io_safe_local, assumption,
      rule io_safe_bind[OF deleter_delete_safe[OF assms] deleter_close_safe])

lemma operator_remove_all_safe:
  assumes "vp (normalize_path path)" shows "io_safe I (\<lambda>_. True) (operator_remove_all acc path)"
  unfolding operator_remove_all_def by (rule operator_delete_safe[OF assms])

text \<open>A deleter is opened, used and closed.\<close>

lemma operator_deleter_safe:
  assumes "io_safe (obj dok I) (\<lambda>_. True) use"
  shows "io_safe I (\<lambda>_. True)
    (io_bind (ac_delete acc) (\<lambda>deleter. io_local deleter (io_bind use (\<lambda>_ d. deleter_close (deleter_ops acc) d))))"
proof -
  have "deleter_close (deleter_ops acc) = ac_deleter_close acc" by (simp add: fun_eq_iff deleter_close_def deleter_ops_def)
  with assms show ?thesis
    by (intro io_safe_bind[OF delete_safe] io_safe_local[of dok] io_safe_bind[where ok = "\<lambda>_. True"])
      (simp_all add: deleter_close_safe)
qed

lemma operator_delete_iter_safe:
  assumes "\<forall>i\<in>set is. vp (di_path i)" shows "io_safe I (\<lambda>_. True) (operator_delete_iter acc is)"
proof -
  have "io_safe (obj dok I) (\<lambda>_. True) (\<lambda>d. deleter_delete_iter (deleter_ops acc) d is)" using assms
  proof (induction "is")
    case Nil
    then show ?case by (auto simp: io_safe_def)
  next
    case (Cons i "is")
    have "(\<lambda>d. deleter_delete_iter (deleter_ops acc) d (i # is)) =
        io_bind (ac_deleter_delete acc (di_path i) (delete_args i)) (\<lambda>_ d. deleter_delete_iter (deleter_ops acc) d is)"
      by (auto simp: fun_eq_iff io_bind_def deleter_delete_def deleter_ops_def split: option.splits res.splits)
    with io_safe_bind[OF deleter_delete_safe Cons.IH] Cons.prems show ?case by simp
  qed
  from operator_deleter_safe[OF this] show ?thesis by (simp add: operator_delete_iter_def)
qed

lemma operator_delete_try_iter_safe:
  assumes "\<forall>i. Inr i \<in> set is \<longrightarrow> vp (di_path i)" shows "io_safe I (\<lambda>_. True) (operator_delete_try_iter acc is)"
proof -
  have "io_safe (obj dok I) (\<lambda>_. True) (\<lambda>d. deleter_delete_try_iter (deleter_ops acc) d is)" using assms
  proof (induction "is")
    case Nil
    then show ?case by (auto simp: io_safe_def)
  next
    case (Cons x "is")
    show ?case
    proof (cases x)
      case (Inl e)
      then show ?thesis by (auto simp: io_safe_def)
    next
      case (Inr i)
      have "(\<lambda>d. deleter_delete_try_iter (deleter_ops acc) d (Inr i # is)) =
          io_bind (ac_deleter_delete acc (di_path i) (delete_args i)) (\<lambda>_ d. deleter_delete_try_iter (deleter_ops acc) d is)"
        by (auto simp: fun_eq_iff io_bind_def deleter_delete_def deleter_ops_def split: option.splits res.splits)
      with io_safe_bind[OF deleter_delete_safe Cons.IH] Cons.prems Inr show ?thesis by simp
    qed
  qed
  from operator_deleter_safe[OF this] show ?thesis by (simp add: operator_delete_try_iter_def)
qed

lemma operator_rename_safe:
  assumes "vp (normalize_path from)" "wp (normalize_path to)" shows "io_safe I (\<lambda>_. True) (operator_rename acc from to)"
  using assms by (simp add: operator_rename_def Let_def io_safe_basic rename_safe split: option.splits)

lemma operator_read_safe:
  assumes "vp (normalize_path path)" shows "io_safe I (\<lambda>_. True) (operator_read acc env path opts)"
  using assms reader_read_safe' by (auto simp: operator_read_def Let_def io_safe_basic rc_new_def split: prod.splits option.splits)

lemma writer_ops_keep: "writer_keeps (writer_ops acc) (obj wok I)"
proof -
  have "obj wok I (snd (io_total m w))" if "io_safe (obj wok I) ok m" "obj wok I w" for m :: "('w \<times> 's, 'x) io" and ok w
    using io_safe_total[OF that, of "fst (io_total m w)" "snd (io_total m w)"] by simp
  from this[OF writer_write_safe] this[OF writer_close_safe] show ?thesis
    unfolding writer_keeps_def writer_ops_def write_ops.simps by simp
qed

lemma writer_open_safe:
  assumes "wp p" shows "io_safe I (wg_holds (obj wok I)) (writer_open acc p args opts)"
proof (rule io_safeI)
  fix s r s'
  assume s: "I s" "writer_open acc p args opts s = Some (r, s')"
  then obtain q where q: "ac_write acc p args s = Some (q, s')"
    "r = wg_create (ai_full_capability (ac_info acc)) opts (map_res (\<lambda>w. (w, s')) q)" by (auto simp: writer_open_def)
  from io_safeD[OF write_safe[OF assms] s(1) q(1)] q(2)
  show "I s' \<and> (\<forall>g. r = Ok g \<longrightarrow> wg_holds (obj wok I) g)"
    by (cases q) (auto simp: wg_create_def wg_holds_def split: prod.splits)
qed

lemma operator_write_safe:
  assumes "wp (normalize_path path) \<or> ends_with_char (normalize_path path) slash" "buffer_ok bs"
  shows "io_safe I (\<lambda>_. True) (operator_write acc path bs opts)"
proof (cases "validate_path (normalize_path path) FILE")
  case True
  let ?fin = "\<lambda>g. case writer_write (writer_ops acc) g bs of
      None \<Rightarrow> None
    | Some (Ok _, g1) \<Rightarrow> (case writer_close (writer_ops acc) g1 of (r, g2) \<Rightarrow> Some (r, snd (wg_w g2)))
    | Some (Err e, g1) \<Rightarrow> Some (Err e, snd (wg_w g1))
    | Some (Panic, g1) \<Rightarrow> Some (Panic, snd (wg_w g1))"
  have fin: "I s'" if "wg_holds (obj wok I) g" "?fin g = Some (r, s')" for g r s'
  proof -
    from that(2) obtain q g1 where q: "writer_write (writer_ops acc) g bs = Some (q, g1)"
      by (cases "writer_write (writer_ops acc) g bs") auto
    from writer_write_keeps[OF q, of "obj wok I"] writer_ops_keep that(1) assms(2) have g1: "wg_holds (obj wok I) g1" by simp
    have "I (snd (wg_w g))" if "wg_holds (obj wok I) g" for g :: "('w \<times> 's) write_generator"
      using that by (simp add: wg_holds_def obj_def split_def)
    with that(2) q g1 writer_close_keeps[OF writer_ops_keep g1] show ?thesis
      by (cases q) (auto split: prod.splits)
  qed
  have wp: "wp (normalize_path path)" using assms(1) True by (auto simp: validate_path_def)
  have "io_safe I (\<lambda>_. True) (io_bind (writer_open acc (normalize_path path) args wopts) (\<lambda>g _. ?fin g))" for args wopts
  proof (rule io_safe_bind[OF writer_open_safe[OF wp]], rule io_safeI)
    fix g s r s' assume "wg_holds (obj wok I) g" "?fin g = Some (r, s')"
    from fin[OF this] show "I s' \<and> (\<forall>x. r = Ok x \<longrightarrow> True)" by simp
  qed
  with True show ?thesis by (simp add: operator_write_def Let_def split_def)
next
  case False
  then show ?thesis by (simp add: operator_write_def Let_def io_safe_basic)
qed

lemma copier_close_keeps:
  assumes "cp_holds cok cp" "I s" "copier_close (ac_copier acc) (cp, s) = Some (r, cp', s')"
  shows "cp_holds cok cp' \<and> I s'"
proof (cases "cp_errored cp \<or> cp_metadata cp \<noteq> None")
  case True
  with assms show ?thesis by (auto simp: copier_close_def io_defs split: if_splits option.splits)
next
  case False
  with assms(3) obtain q where q: "copier_drain (ac_copier acc) cp s = Some (q, cp', s')"
    by (auto simp: copier_close_def io_defs split: option.splits res.splits prod.splits)
  from copier_drain_keeps[OF q, of cok I] assms(1,2) copier_next_safe copier_close_safe show ?thesis by (simp add: out_ok_def)
qed

lemma copier_abort_keeps:
  assumes "cp_holds cok cp" "I s" "copier_abort (ac_copier acc) (cp, s) = Some (r, cp', s')"
  shows "I s'"
proof (cases "cp_copier cp")
  case (Some c)
  with assms(3) obtain c' where "c_abort (ac_copier acc) (c, s) = Some (r, c', s')" by (auto simp: copier_abort_def io_defs)
  from io_safe_objD[OF copier_abort_safe _ assms(2) this] assms(1) Some show ?thesis by (simp add: cp_holds_def)
qed (use assms in \<open>auto simp: copier_abort_def io_defs\<close>)

lemma copier_inner_safe:
  assumes "vp from" "wp to" shows "io_safe I (cp_holds cok) (copier_inner acc from to opts)"
proof -
  have "io_safe I (cp_holds cok) (copier_create acc from to args copts)" for args copts
    unfolding copier_create_def by (rule io_safe_map[OF copy_safe[OF assms]]) (simp add: cp_holds_def)
  then show ?thesis by (auto simp: copier_inner_def io_safe_basic split: option.splits prod.splits)
qed

lemma operator_copy_safe:
  assumes "vp (normalize_path from)" "wp (normalize_path to)" shows "io_safe I (\<lambda>_. True) (operator_copy acc from to opts)"
proof -
  let ?fin = "\<lambda>copier s. case copier_close (ac_copier acc) (copier, s) of
      None \<Rightarrow> None
    | Some (Ok meta, cp, s1) \<Rightarrow> Some (Ok meta, s1)
    | Some (Err err, cp, s1) \<Rightarrow>
        map_option (\<lambda>(r, cp2, s2). (case r of Panic \<Rightarrow> Panic | _ \<Rightarrow> Err err, s2)) (copier_abort (ac_copier acc) (cp, s1))
    | Some (Panic, cp, s1) \<Rightarrow> Some (Panic, s1)"
  have fin: "I s'" if "cp_holds cok c" "I s" "?fin c s = Some (r, s')" for c s r s'
  proof -
    from that(3) obtain q cp s1 where q: "copier_close (ac_copier acc) (c, s) = Some (q, cp, s1)"
      by (cases "copier_close (ac_copier acc) (c, s)") auto
    note k = copier_close_keeps[OF that(1,2) q]
    show ?thesis
    proof (cases q)
      case (Err e)
      with that(3) q obtain t cp2 where "copier_abort (ac_copier acc) (cp, s1) = Some (t, cp2, s')" by auto
      from copier_abort_keeps[OF _ _ this] k show ?thesis by blast
    qed (use that(3) q k in auto)
  qed
  have "io_safe I (\<lambda>_. True) (io_bind (copier_inner acc (normalize_path from) (normalize_path to) opts) ?fin)"
  proof (rule io_safe_bind[OF copier_inner_safe[OF assms]], rule io_safeI)
    fix c s r s' assume "cp_holds cok c" "I s" "?fin c s = Some (r, s')"
    from fin[OF this] show "I s' \<and> (\<forall>x. r = Ok x \<longrightarrow> True)" by simp
  qed
  then show ?thesis by (simp add: operator_copy_def Let_def io_safe_basic split: option.splits)
qed

lemma operator_check_safe:
  assumes "vp (normalize_path ''/'')" shows "io_safe I (\<lambda>_. True) (operator_check acc)"
  unfolding operator_check_def
proof (rule io_safe_bind[OF list_safe[OF assms]], rule io_safeI)
  fix l s r s'
  assume a: "lok l" "I s" "(case ac_lister_next acc (l, s) of
      None \<Rightarrow> None
    | Some (Err e, l1, s1) \<Rightarrow> Some (if e_kind e \<noteq> NotFound then Err e else Ok (), s1)
    | Some (Ok _, l1, s1) \<Rightarrow> Some (Ok (), s1)
    | Some (Panic, l1, s1) \<Rightarrow> Some (Panic, s1)) = Some (r, s')"
  then obtain q l1 where "ac_lister_next acc (l, s) = Some (q, l1, s')" by (auto split: option.splits res.splits)
  from io_safe_objD[OF lister_next_safe a(1,2) this] show "I s' \<and> (\<forall>x. r = Ok x \<longrightarrow> True)" by simp
qed

end

section \<open>Sessions\<close>

text \<open>One call of a user on the state of the service; its result is whatever the code returns.\<close>

inductive operator_step :: "('s, 'r, 'w, 'l, 'd, 'c) accessor \<Rightarrow> 's \<Rightarrow> 's \<Rightarrow> bool" for acc where
  step_stat: "operator_stat acc path opts s = Some (r, s') \<Longrightarrow> operator_step acc s s'"
| step_exists: "operator_exists acc path s = Some (b, s') \<Longrightarrow> operator_step acc s s'"
| step_create_dir: "operator_create_dir acc path s = Some (u, s') \<Longrightarrow> operator_step acc s s'"
| step_read: "operator_read acc env path ropts s = Some (bs, s') \<Longrightarrow> operator_step acc s s'"
| step_write: "buffer_ok buf \<Longrightarrow> operator_write acc path buf wopts s = Some (m, s') \<Longrightarrow> operator_step acc s s'"
| step_delete: "operator_delete acc path dopts s = Some (u, s') \<Longrightarrow> operator_step acc s s'"
| step_remove_all: "operator_remove_all acc path s = Some (u, s') \<Longrightarrow> operator_step acc s s'"
| step_delete_iter: "operator_delete_iter acc is s = Some (u, s') \<Longrightarrow> operator_step acc s s'"
| step_delete_try_iter: "operator_delete_try_iter acc tis s = Some (u, s') \<Longrightarrow> operator_step acc s s'"
| step_list: "operator_list acc path lopts s = Some (es, s') \<Longrightarrow> operator_step acc s s'"
| step_copy: "operator_copy acc from to copts s = Some (m, s') \<Longrightarrow> operator_step acc s s'"
| step_rename: "operator_rename acc from to s = Some (u, s') \<Longrightarrow> operator_step acc s s'"
| step_check: "operator_check acc s = Some (u, s') \<Longrightarrow> operator_step acc s s'"

context safe_access
begin

lemma operator_step_keeps:
  assumes any: "\<And>p. vp p" and normal: "\<And>p. wp (normalize_path p)"
  shows "operator_step acc s s' \<Longrightarrow> I s \<Longrightarrow> I s'"
proof (induction rule: operator_step.induct)
  case (step_stat path opts s r s')
  then show ?case using io_safeD[OF operator_stat_safe[OF any]] by blast
next
  case (step_exists path s b s')
  then show ?case using io_safeD[OF operator_exists_safe[OF any]] by blast
next
  case (step_create_dir path s u s')
  then show ?case using io_safeD[OF operator_create_dir_safe[OF normal]] by blast
next
  case (step_read path env ropts s bs s')
  then show ?case using io_safeD[OF operator_read_safe[OF any]] by blast
next
  case (step_write path buf wopts s m s')
  then show ?case using io_safeD[OF operator_write_safe[OF disjI1[OF normal]]] by blast
next
  case (step_delete path dopts s u s')
  then show ?case using io_safeD[OF operator_delete_safe[OF any]] by blast
next
  case (step_remove_all path s u s')
  then show ?case using io_safeD[OF operator_remove_all_safe[OF any]] by blast
next
  case (step_delete_iter "is" s u s')
  then show ?case using io_safeD[OF operator_delete_iter_safe] any by blast
next
  case (step_delete_try_iter tis s u s')
  then show ?case using io_safeD[OF operator_delete_try_iter_safe] any by blast
next
  case (step_list path lopts s es s')
  then show ?case using io_safeD[OF operator_list_safe[OF any]] by blast
next
  case (step_copy "from" to copts s m s')
  then show ?case using io_safeD[OF operator_copy_safe[OF any normal]] by blast
next
  case (step_rename "from" to s u s')
  then show ?case using io_safeD[OF operator_rename_safe[OF any normal]] by blast
next
  case (step_check s u s')
  then show ?case using io_safeD[OF operator_check_safe[OF any]] by blast
qed

lemma operator_session_keeps:
  assumes "\<And>p. vp p" "\<And>p. wp (normalize_path p)"
  shows "rtranclp (operator_step acc) s s' \<Longrightarrow> I s \<Longrightarrow> I s'"
  by (induction rule: rtranclp_induct) (blast intro: operator_step_keeps[OF assms])+

end

section \<open>The memory service\<close>

text \<open>
  A store in which every key is the one a normalised path stands for, and every object carries the length of its
  content. The path may be the root itself: \<open>create_dir("/")\<close> writes an empty object under the root's own key.
\<close>

definition path_key :: "str \<Rightarrow> str \<Rightarrow> bool" where
  "path_key root k \<longleftrightarrow> (\<exists>p. wf_path p \<and> build_abs_path root p = Some k)"

definition store_typed :: "str \<Rightarrow> memory_core \<Rightarrow> bool" where
  "store_typed root data \<longleftrightarrow> bt_ok data \<and> (\<forall>k\<in>fst ` set data. path_key root k) \<and>
     (\<forall>k v. memory_get data k = Some v \<longrightarrow>
        md_content_length (mv_metadata v) = Some (of_nat (length (buffer_view (mv_content v)))))"

definition memory_writer_holds :: "str \<Rightarrow> memory_writer \<Rightarrow> bool" where
  "memory_writer_holds root w \<longleftrightarrow> path_key root (mw_path w) \<and> (\<forall>q. mw_buf w = Some q \<longrightarrow> queue_ok q)"

lemma memory_metadata_sized: "md_content_length (memory_writer_metadata op n) = Some (of_nat n)"
  by (cases "ow_cache_control op"; cases "ow_content_disposition op"; cases "ow_content_type op"; cases "ow_content_encoding op")
    (simp_all add: memory_writer_metadata_def md_set_content_length_def md_set_cache_control_def
      md_set_content_disposition_def md_set_content_type_def md_set_content_encoding_def Let_def)

lemma store_typed_insert:
  assumes "store_typed root s" "path_key root k" "buffer_ok content"
  shows "store_typed root (bt_insert k
    \<lparr>mv_metadata = memory_writer_metadata op (buffer_len content), mv_content = content\<rparr> s)"
  using assms buffer_ok_len[OF assms(3)]
  by (auto simp: store_typed_def fst_bt_insert bt_insert_ok memory_get_def map_of_bt_insert
      memory_metadata_sized split: if_splits)

lemma store_typed_remove: "store_typed root s \<Longrightarrow> store_typed root (bt_remove k s)"
  by (auto simp: store_typed_def fst_bt_remove bt_remove_ok memory_get_def map_of_bt_remove split: if_splits)

lemma memory_close_keeps:
  assumes "store_typed root s" "memory_writer_holds root w" "memory_writer_close (w\<lparr>mw_core := s\<rparr>) = (r, w')"
  shows "store_typed root (mw_core w') \<and> memory_writer_holds root w'"
proof -
  have inv: "memory_writer_inv (w\<lparr>mw_core := s\<rparr>)"
    using assms(1,2) by (auto simp: memory_writer_inv_def memory_writer_holds_def store_typed_def)
  have p: "path_key root (mw_path w)" using assms(2) by (simp add: memory_writer_holds_def)
  have buf: "\<forall>q. mw_buf w' = Some q \<longrightarrow> queue_ok q"
    using assms(2,3) by (auto simp: memory_writer_close_def memory_writer_holds_def Let_def
        split: option.splits if_splits prod.splits res.splits)
  from inv assms(3) show ?thesis
  proof (rule memory_writer_close_cases)
    fix content
    assume "buffer_ok content" "mw_path w' = mw_path (w\<lparr>mw_core := s\<rparr>)"
      and c: "if ow_if_not_exists (mw_op (w\<lparr>mw_core := s\<rparr>)) \<and>
          map_of (mw_core (w\<lparr>mw_core := s\<rparr>)) (mw_path (w\<lparr>mw_core := s\<rparr>)) \<noteq> None
        then mw_core w' = mw_core (w\<lparr>mw_core := s\<rparr>) \<and> r = Err (error_new ConditionNotMatch ''key already exists'')
        else r = Ok (memory_writer_metadata (mw_op (w\<lparr>mw_core := s\<rparr>)) (buffer_len content)) \<and>
          mw_core w' = bt_insert (mw_path (w\<lparr>mw_core := s\<rparr>))
            \<lparr>mv_metadata = memory_writer_metadata (mw_op (w\<lparr>mw_core := s\<rparr>)) (buffer_len content), mv_content = content\<rparr>
            (mw_core (w\<lparr>mw_core := s\<rparr>))"
    then show ?thesis
      using store_typed_insert[OF assms(1) p] assms(1) p buf by (auto simp: memory_writer_holds_def split: if_splits)
  qed
qed

interpretation mems: safe_access "memory_accessor name root" "store_typed root" "\<lambda>p. True" wf_path
  "\<lambda>r. True" "memory_writer_holds root" "\<lambda>l. True" "\<lambda>d. mdel_root d = root" "\<lambda>c. True"
proof (rule safe_access.intro)
  let ?I = "store_typed root" and ?acc = "memory_accessor name root"
  fix p q sargs rargs wargs largs cargs copts bs dargs
  show "io_safe ?I (memory_writer_holds root) (ac_write ?acc p wargs)" if "wf_path p"
    using that by (intro io_safeI)
      (auto simp: memory_accessor_def memory_write_def memory_writer_holds_def memory_writer_new_def path_key_def
        res_of_option_def split: option.splits)
  show "io_safe (obj (memory_writer_holds root) ?I) (\<lambda>_. True) (ac_writer_write ?acc bs)" if "buffer_ok bs"
    using that qb.push_inv qb.empty_inv by (intro io_safe_objI)
      (auto simp: memory_accessor_def memory_writer_io_def memory_write_ops_def memory_writer_write_def memory_writer_holds_def
        Let_def split: option.splits)
  show "io_safe (obj (memory_writer_holds root) ?I) (\<lambda>_. True) (ac_writer_close ?acc)"
    by (intro io_safe_objI)
      (auto simp: memory_accessor_def memory_writer_io_def memory_write_ops_def split: prod.splits dest: memory_close_keeps)
  show "io_safe (obj (memory_writer_holds root) ?I) (\<lambda>_. True) (ac_writer_abort ?acc)"
    by (intro io_safe_objI)
      (auto simp: memory_accessor_def memory_writer_io_def memory_write_ops_def memory_writer_abort_def memory_writer_holds_def)
  show "io_safe (obj (\<lambda>d. mdel_root d = root) ?I) (\<lambda>_. True) (ac_deleter_delete ?acc p dargs)"
    by (intro io_safe_objI) (auto simp: memory_accessor_def memory_deleter_io_def one_shot_delete_ops_def memory_delete_once_def
        memory_delete_def store_typed_remove split: option.splits)
qed (intro io_safeI io_safe_objI; auto simp: memory_accessor_def memory_deleter_io_def memory_deleter_new_def
    one_shot_delete_ops_def unit_copy_ops_def io_defs buffer_take_def)+

section \<open>Properties\<close>

text \<open>
  C4: Every store that a session can reach is well-formed.  From a well-formed store of the memory
  service, any sequence of calls of the operator with the default layers (\<open>stat\<close>, \<open>exists\<close>, \<open>create_dir\<close>, \<open>read\<close>, \<open>write\<close>,
  \<open>delete\<close>, \<open>remove_all\<close>, \<open>delete_iter\<close>, \<open>delete_try_iter\<close>, \<open>list\<close>, \<open>copy\<close>, \<open>rename\<close>, \<open>check\<close>), with any
  paths and options, any buffer that satisfies the invariant of \<open>Buffer\<close>, and any outcome, be it success, error or panic,
  leads to a store whose keys are sorted and distinct and stand for normalised paths, and whose objects
  carry the length of their content.
\<close>

theorem memory_sessions_typed:
  assumes "store_typed root s" "rtranclp (operator_step (operator_new (memory_accessor name root))) s s'"
  shows "store_typed root s'"
  by (rule safe_access.operator_session_keeps[OF operator_new_safe[OF mems.safe_access_axioms] _ _ assms(2,1)])
    (simp_all add: closed_paths_def)

text \<open>The root's own directory is created under the key of the root, here the empty string.\<close>

lemma create_root_dir:
  "map_option (\<lambda>(r, s). (r = Ok (), map fst s)) (operator_create_dir (operator_new (memory_accessor [] ''/'')) ''/'' []) = Some (True, [[]])"
  by code_simp

theorem memory_sessions_typed_witness:
  "\<exists>s. operator_create_dir (operator_new (memory_accessor [] ''/'')) ''/'' [] = Some (Ok (), s) \<and> map fst s = [[]] \<and> store_typed ''/'' s"
proof -
  let ?acc = "operator_new (memory_accessor [] ''/'')"
  obtain s where s: "operator_create_dir ?acc ''/'' [] = Some (Ok (), s)" "map fst s = [[]]" using create_root_dir by auto
  have "store_typed ''/'' []" by (simp add: store_typed_def bt_ok_def memory_get_def)
  from memory_sessions_typed[OF this r_into_rtranclp[of "operator_step ?acc", OF step_create_dir[OF s(1)]]] s
  show ?thesis by (intro exI conjI)
qed

end
