(* ===== verification/Retry_Layer.thy ===== *)
theory Retry_Layer
  imports Memory_Accessor
begin

text \<open>
  \<open>RetryLayer\<close> (\<open>core/layers/retry/src/lib.rs\<close>): every method of the accessor and of the objects it hands out is
  repeated while it fails with a temporary error.

  The repetition itself is the crate \<open>backon\<close>, which is not part of the sources.  Its function \<open>retry\<close>
  is a parameter, at each of the types at which the layer uses it (record \<open>backon\<close>).  The hypothesis
  \<open>backon_ok n\<close> states what its documentation promises of an exponential backoff with \<open>max_times\<close> \<open>n\<close>: the
  call is repeated at most \<open>n\<close> times, as long as it fails with an error that the condition accepts, and the last
  result is returned.  Delays and the interceptor, which only observes, are not modelled.

  A future that is dropped before it is ready, which leaves a wrapper empty, is not modelled: a method
  runs to its end.
\<close>

section \<open>Retrying\<close>

text \<open>\<open>RetryReader\<close>: the open reader, and the range that is left to read.\<close>

record 'r retry_reader =
  rr_reader :: "'r option"
  rr_path :: str
  rr_args :: op_read

record ('s, 'r, 'w, 'l, 'd, 'c) backon =
  bo_unit :: "('s, unit) io \<Rightarrow> ('s, unit) io"
  bo_stat :: "('s, metadata) io \<Rightarrow> ('s, metadata) io"
  bo_read :: "('s, metadata option \<times> 'r) io \<Rightarrow> ('s, metadata option \<times> 'r) io"
  bo_write :: "('s, 'w) io \<Rightarrow> ('s, 'w) io"
  bo_delete :: "('s, 'd) io \<Rightarrow> ('s, 'd) io"
  bo_list :: "('s, 'l) io \<Rightarrow> ('s, 'l) io"
  bo_copy :: "('s, 'c) io \<Rightarrow> ('s, 'c) io"
  bo_reader :: "('r retry_reader \<times> 's, buffer) io \<Rightarrow> ('r retry_reader \<times> 's, buffer) io"
  bo_writer :: "('w \<times> 's, unit) io \<Rightarrow> ('w \<times> 's, unit) io"
  bo_writer_close :: "('w \<times> 's, metadata) io \<Rightarrow> ('w \<times> 's, metadata) io"
  bo_lister :: "('l \<times> 's, oio_entry option) io \<Rightarrow> ('l \<times> 's, oio_entry option) io"
  bo_deleter :: "('d \<times> 's, unit) io \<Rightarrow> ('d \<times> 's, unit) io"
  bo_copier :: "('c \<times> 's, usize option) io \<Rightarrow> ('c \<times> 's, usize option) io"
  bo_copier_close :: "('c \<times> 's, metadata) io \<Rightarrow> ('c \<times> 's, metadata) io"
  bo_copier_abort :: "('c \<times> 's, unit) io \<Rightarrow> ('c \<times> 's, unit) io"

section \<open>RetryReader\<close>

definition retry_reader_new :: "str \<Rightarrow> op_read \<Rightarrow> 'r \<Rightarrow> 'r retry_reader" where
  "retry_reader_new path args r = \<lparr>rr_reader = Some r, rr_path = path, rr_args = args\<rparr>"

partial_function (option) retry_reader_loop ::
  "('s, 'r, 'w, 'l, 'd, 'c) accessor \<Rightarrow> 'r retry_reader \<Rightarrow> 's \<Rightarrow> (buffer res \<times> 'r retry_reader \<times> 's) option" where
  "retry_reader_loop acc rr s =
     (case rr_reader rr of
        None \<Rightarrow>
          (case ac_read acc (rr_path rr) (rr_args rr) s of
             None \<Rightarrow> None
           | Some (Ok (_, r), s1) \<Rightarrow> retry_reader_loop acc (rr\<lparr>rr_reader := Some r\<rparr>) s1
           | Some (Err e, s1) \<Rightarrow> Some (Err e, rr, s1)
           | Some (Panic, s1) \<Rightarrow> Some (Panic, rr, s1))
      | Some reader \<Rightarrow>
          (case ac_reader_read acc (reader, s) of
             None \<Rightarrow> None
           | Some (Ok buf, reader1, s1) \<Rightarrow>
               (case br_advance (ord_range (rr_args rr)) (of_nat (buffer_len buf)) of
                  None \<Rightarrow> Some (Panic, rr\<lparr>rr_reader := Some reader1\<rparr>, s1)
                | Some rng \<Rightarrow>
                    Some (Ok buf, rr\<lparr>rr_reader := Some reader1, rr_args := ord_with_range rng (rr_args rr)\<rparr>, s1))
           | Some (Err e, reader1, s1) \<Rightarrow> Some (Err e, rr\<lparr>rr_reader := None\<rparr>, s1)
           | Some (Panic, reader1, s1) \<Rightarrow> Some (Panic, rr\<lparr>rr_reader := None\<rparr>, s1)))"

definition retry_reader_read :: "('s, 'r, 'w, 'l, 'd, 'c) accessor \<Rightarrow> ('r retry_reader \<times> 's, buffer) io" where
  "retry_reader_read acc = (\<lambda>(rr, s). retry_reader_loop acc rr s)"

section \<open>RetryWrapper\<close>

record 'i retry_wrapper =
  rw_inner :: "'i option"

definition retry_wrapper_new :: "'i \<Rightarrow> 'i retry_wrapper" where
  "retry_wrapper_new inner = \<lparr>rw_inner = Some inner\<rparr>"

definition bad_state :: error where
  "bad_state = error_new Unexpected
     ''retry layer is in bad state, please make sure future not dropped before ready''"

text \<open>
  A method of the wrapped object: \<open>take_inner\<close>, the retried call with the object as its context, and the object
  put back.
\<close>

definition retry_call ::
  "(('i \<times> 's, 'a) io \<Rightarrow> ('i \<times> 's, 'a) io) \<Rightarrow> ('i \<times> 's, 'a) io \<Rightarrow> ('i retry_wrapper \<times> 's, 'a) io" where
  "retry_call retry m = io_with (\<lambda>w.
     case rw_inner w of
       None \<Rightarrow> io_err bad_state
     | Some inner \<Rightarrow>
         io_map_err set_persistent (io_on (\<lambda>_. inner) (\<lambda>i w. w\<lparr>rw_inner := Some i\<rparr>) (retry m)))"

definition retry_wrapper_read ::
  "('s, 'r, 'w, 'l, 'd, 'c) backon \<Rightarrow> ('s, 'r, 'w, 'l, 'd, 'c) accessor \<Rightarrow> ('r retry_reader retry_wrapper \<times> 's, buffer) io" where
  "retry_wrapper_read b acc = retry_call (bo_reader b) (retry_reader_read acc)"

definition retry_wrapper_write ::
  "('s, 'r, 'w, 'l, 'd, 'c) backon \<Rightarrow> ('s, 'r, 'w, 'l, 'd, 'c) accessor \<Rightarrow> buffer \<Rightarrow> ('w retry_wrapper \<times> 's, unit) io" where
  "retry_wrapper_write b acc bs = retry_call (bo_writer b) (ac_writer_write acc bs)"

definition retry_wrapper_abort ::
  "('s, 'r, 'w, 'l, 'd, 'c) backon \<Rightarrow> ('s, 'r, 'w, 'l, 'd, 'c) accessor \<Rightarrow> ('w retry_wrapper \<times> 's, unit) io" where
  "retry_wrapper_abort b acc = retry_call (bo_writer b) (ac_writer_abort acc)"

definition retry_wrapper_close ::
  "('s, 'r, 'w, 'l, 'd, 'c) backon \<Rightarrow> ('s, 'r, 'w, 'l, 'd, 'c) accessor \<Rightarrow> ('w retry_wrapper \<times> 's, metadata) io" where
  "retry_wrapper_close b acc = retry_call (bo_writer_close b) (ac_writer_close acc)"

definition retry_wrapper_next ::
  "('s, 'r, 'w, 'l, 'd, 'c) backon \<Rightarrow> ('s, 'r, 'w, 'l, 'd, 'c) accessor \<Rightarrow> ('l retry_wrapper \<times> 's, oio_entry option) io" where
  "retry_wrapper_next b acc = retry_call (bo_lister b) (ac_lister_next acc)"

definition retry_wrapper_delete ::
  "('s, 'r, 'w, 'l, 'd, 'c) backon \<Rightarrow> ('s, 'r, 'w, 'l, 'd, 'c) accessor \<Rightarrow> str \<Rightarrow> op_delete \<Rightarrow> ('d retry_wrapper \<times> 's, unit) io" where
  "retry_wrapper_delete b acc path args = retry_call (bo_deleter b) (ac_deleter_delete acc path args)"

definition retry_wrapper_delete_close ::
  "('s, 'r, 'w, 'l, 'd, 'c) backon \<Rightarrow> ('s, 'r, 'w, 'l, 'd, 'c) accessor \<Rightarrow> ('d retry_wrapper \<times> 's, unit) io" where
  "retry_wrapper_delete_close b acc = retry_call (bo_deleter b) (ac_deleter_close acc)"

definition retry_wrapper_copy_next ::
  "('s, 'r, 'w, 'l, 'd, 'c) backon \<Rightarrow> ('s, 'r, 'w, 'l, 'd, 'c) accessor \<Rightarrow> ('c retry_wrapper \<times> 's, usize option) io" where
  "retry_wrapper_copy_next b acc = retry_call (bo_copier b) (c_next (ac_copier acc))"

definition retry_wrapper_copy_close ::
  "('s, 'r, 'w, 'l, 'd, 'c) backon \<Rightarrow> ('s, 'r, 'w, 'l, 'd, 'c) accessor \<Rightarrow> ('c retry_wrapper \<times> 's, metadata) io" where
  "retry_wrapper_copy_close b acc = retry_call (bo_copier_close b) (c_close (ac_copier acc))"

definition retry_wrapper_copy_abort ::
  "('s, 'r, 'w, 'l, 'd, 'c) backon \<Rightarrow> ('s, 'r, 'w, 'l, 'd, 'c) accessor \<Rightarrow> ('c retry_wrapper \<times> 's, unit) io" where
  "retry_wrapper_copy_abort b acc = retry_call (bo_copier_abort b) (c_abort (ac_copier acc))"

section \<open>RetryAccessor\<close>

definition retry_create_dir ::
  "('s, 'r, 'w, 'l, 'd, 'c) backon \<Rightarrow> ('s, 'r, 'w, 'l, 'd, 'c) accessor \<Rightarrow> str \<Rightarrow> ('s, unit) io" where
  "retry_create_dir b acc path =
     io_map_err set_persistent (bo_unit b (ac_create_dir acc path))"

definition retry_read ::
  "('s, 'r, 'w, 'l, 'd, 'c) backon \<Rightarrow> ('s, 'r, 'w, 'l, 'd, 'c) accessor \<Rightarrow> str \<Rightarrow> op_read \<Rightarrow>
     ('s, metadata option \<times> 'r retry_reader retry_wrapper) io" where
  "retry_read b acc path args =
     io_bind (io_map_err set_persistent (bo_read b (ac_read acc path args))) (\<lambda>(rp, reader).
     io_ok (rp, retry_wrapper_new (retry_reader_new path args reader)))"

definition retry_write ::
  "('s, 'r, 'w, 'l, 'd, 'c) backon \<Rightarrow> ('s, 'r, 'w, 'l, 'd, 'c) accessor \<Rightarrow> str \<Rightarrow> op_write \<Rightarrow> ('s, 'w retry_wrapper) io" where
  "retry_write b acc path args =
     io_map_err set_persistent (io_map retry_wrapper_new (bo_write b (ac_write acc path args)))"

definition retry_stat ::
  "('s, 'r, 'w, 'l, 'd, 'c) backon \<Rightarrow> ('s, 'r, 'w, 'l, 'd, 'c) accessor \<Rightarrow> str \<Rightarrow> op_stat \<Rightarrow> ('s, metadata) io" where
  "retry_stat b acc path args =
     io_map_err set_persistent (bo_stat b (ac_stat acc path args))"

definition retry_delete ::
  "('s, 'r, 'w, 'l, 'd, 'c) backon \<Rightarrow> ('s, 'r, 'w, 'l, 'd, 'c) accessor \<Rightarrow> ('s, 'd retry_wrapper) io" where
  "retry_delete b acc =
     io_map_err set_persistent (io_map retry_wrapper_new (bo_delete b (ac_delete acc)))"

definition retry_copy ::
  "('s, 'r, 'w, 'l, 'd, 'c) backon \<Rightarrow> ('s, 'r, 'w, 'l, 'd, 'c) accessor \<Rightarrow> str \<Rightarrow> str \<Rightarrow> op_copy \<Rightarrow> op_copier \<Rightarrow> ('s, 'c retry_wrapper) io" where
  "retry_copy b acc from_path to args opts =
     io_map_err set_persistent (io_map retry_wrapper_new (bo_copy b (ac_copy acc from_path to args opts)))"

definition retry_rename ::
  "('s, 'r, 'w, 'l, 'd, 'c) backon \<Rightarrow> ('s, 'r, 'w, 'l, 'd, 'c) accessor \<Rightarrow> str \<Rightarrow> str \<Rightarrow> ('s, unit) io" where
  "retry_rename b acc from_path to =
     io_map_err set_persistent (bo_unit b (ac_rename acc from_path to))"

definition retry_list ::
  "('s, 'r, 'w, 'l, 'd, 'c) backon \<Rightarrow> ('s, 'r, 'w, 'l, 'd, 'c) accessor \<Rightarrow> str \<Rightarrow> op_list \<Rightarrow> ('s, 'l retry_wrapper) io" where
  "retry_list b acc path args =
     io_map_err set_persistent (io_map retry_wrapper_new (bo_list b (ac_list acc path args)))"

definition retry_layer ::
  "('s, 'r, 'w, 'l, 'd, 'c) backon \<Rightarrow> ('s, 'r, 'w, 'l, 'd, 'c) accessor \<Rightarrow>
     ('s, 'r retry_reader retry_wrapper, 'w retry_wrapper, 'l retry_wrapper, 'd retry_wrapper, 'c retry_wrapper) accessor" where
  "retry_layer b acc =
     \<lparr>ac_info = ac_info acc, ac_create_dir = retry_create_dir b acc, ac_stat = retry_stat b acc, ac_read = retry_read b acc,
      ac_write = retry_write b acc, ac_delete = retry_delete b acc, ac_list = retry_list b acc, ac_copy = retry_copy b acc,
      ac_rename = retry_rename b acc, ac_reader_read = retry_wrapper_read b acc, ac_writer_write = retry_wrapper_write b acc,
      ac_writer_close = retry_wrapper_close b acc, ac_writer_abort = retry_wrapper_abort b acc,
      ac_lister_next = retry_wrapper_next b acc, ac_deleter_delete = retry_wrapper_delete b acc,
      ac_deleter_close = retry_wrapper_delete_close b acc,
      ac_copier = \<lparr>c_next = retry_wrapper_copy_next b acc, c_close = retry_wrapper_copy_close b acc,
        c_abort = retry_wrapper_copy_abort b acc\<rparr>\<rparr>"

lemmas retry_methods = retry_layer_def retry_wrapper_read_def retry_wrapper_write_def retry_wrapper_abort_def retry_wrapper_close_def
  retry_wrapper_next_def retry_wrapper_delete_def retry_wrapper_delete_close_def retry_wrapper_copy_next_def
  retry_wrapper_copy_close_def retry_wrapper_copy_abort_def retry_create_dir_def retry_read_def
  retry_write_def retry_stat_def retry_delete_def retry_copy_def
  retry_rename_def retry_list_def

section \<open>What the layer relies on\<close>

text \<open>The outcome of at most \<open>n\<close> repetitions.\<close>

fun tries :: "nat \<Rightarrow> ('s, 'a) io \<Rightarrow> ('s, 'a) io" where
  "tries 0 m s = m s"
| "tries (Suc n) m s =
     (case m s of
        Some (Err e, s1) \<Rightarrow> (if is_temporary e then tries n m s1 else Some (Err e, s1))
      | r \<Rightarrow> r)"

definition backon_ok :: "nat \<Rightarrow> ('s, 'r, 'w, 'l, 'd, 'c) backon \<Rightarrow> bool" where
  "backon_ok n b \<longleftrightarrow>
     bo_unit b = tries n \<and> bo_stat b = tries n \<and> bo_read b = tries n \<and> bo_write b = tries n \<and>
     bo_delete b = tries n \<and> bo_list b = tries n \<and> bo_copy b = tries n \<and> bo_reader b = tries n \<and>
     bo_writer b = tries n \<and> bo_writer_close b = tries n \<and> bo_lister b = tries n \<and> bo_deleter b = tries n \<and>
     bo_copier b = tries n \<and> bo_copier_close b = tries n \<and> bo_copier_abort b = tries n"

section \<open>Repetition\<close>

lemma map_err_eq_iff [simp]:
  "Ok x = map_err f q \<longleftrightarrow> q = Ok x" "Err e = map_err f q \<longleftrightarrow> (\<exists>e'. q = Err e' \<and> e = f e')"
  by (cases q; auto)+

lemma tries_cases:
  assumes "tries n m s = Some (r, s')" "P s" and step: "\<And>s e s'. P s \<Longrightarrow> m s = Some (Err e, s') \<Longrightarrow> is_temporary e \<Longrightarrow> P s'"
  shows "\<exists>s0. P s0 \<and> m s0 = Some (r, s')"
  using assms(1,2)
proof (induction n arbitrary: s)
  case (Suc n)
  show ?case
  proof (cases "m s")
    case (Some x)
    then obtain q s1 where x: "m s = Some (q, s1)" by (cases x) auto
    then show ?thesis
      using Suc.prems Suc.IH[of s1] step[OF Suc.prems(2), of _ s1]
      by (cases q) (auto split: if_splits)
  qed (use Suc.prems in simp)
qed auto

text \<open>Enough repetitions reach a result, if every temporary failure uses up some of a budget.\<close>

lemma tries_reach:
  assumes "P s" "budget s \<le> n"
    and step: "\<And>s. P s \<Longrightarrow> (\<exists>x s'. m s = Some (Ok x, s') \<and> Q x s') \<or>
      (\<exists>e s'. m s = Some (Err e, s') \<and> is_temporary e \<and> P s' \<and> budget s' < (budget s :: nat))"
  shows "\<exists>x s'. tries n m s = Some (Ok x, s') \<and> Q x s'"
  using assms(1,2)
proof (induction n arbitrary: s)
  case 0
  with step[of s] show ?case by auto
next
  case (Suc n)
  from step[OF Suc.prems(1)] show ?case
  proof
    assume "\<exists>e s'. m s = Some (Err e, s') \<and> is_temporary e \<and> P s' \<and> budget s' < budget s"
    then obtain e s' where "m s = Some (Err e, s')" "is_temporary e" "P s'" "budget s' < budget s" by blast
    with Suc.IH[of s'] Suc.prems(2) show ?thesis by auto
  qed auto
qed

text \<open>A method whose errors are never temporary is not repeated.\<close>

lemma tries_never_temporary:
  assumes "\<And>s e s'. m s = Some (Err e, s') \<Longrightarrow> \<not> is_temporary e"
  shows "tries n m = m"
proof
  fix s
  show "tries n m s = m s"
    by (cases n; cases "m s") (auto split: res.splits dest: assms)
qed

lemma backon_ok_simps:
  assumes "backon_ok n b"
  shows "bo_unit b = tries n" "bo_stat b = tries n" "bo_read b = tries n" "bo_write b = tries n" "bo_delete b = tries n"
    "bo_list b = tries n" "bo_copy b = tries n" "bo_reader b = tries n" "bo_writer b = tries n"
    "bo_writer_close b = tries n" "bo_lister b = tries n" "bo_deleter b = tries n" "bo_copier b = tries n"
    "bo_copier_close b = tries n" "bo_copier_abort b = tries n"
  using assms by (simp_all add: backon_ok_def)

lemma retry_call_eq:
  "retry_call retry m (\<lparr>rw_inner = Some i\<rparr>, s) =
     map_option (\<lambda>(r, i', s'). (map_err set_persistent r, \<lparr>rw_inner = Some i'\<rparr>, s')) (retry m (i, s))"
  by (cases "retry m (i, s)") (auto simp: retry_call_def io_defs)

section \<open>Reading\<close>

text \<open>
  A service whose failing calls leave the object as it is.
\<close>

locale steady_reader = object_reader +
  assumes open_Err: "sinv s \<Longrightarrow> rop_open ops path args s = (Err e, s') \<Longrightarrow> sinv s'"
    and read_Err: "sinv s \<Longrightarrow> rinv r \<Longrightarrow> rop_read ops r s = (Err e, r', s') \<Longrightarrow> sinv s'"
    and stat_Err: "sinv s \<Longrightarrow> rop_stat ops path sargs s = (Err e, s') \<Longrightarrow> sinv s'"

text \<open>
  A service that fails temporarily at most \<open>n\<close> times in a row: a temporary failure uses up some of the budget of
  the state, which is never above \<open>n\<close>.  The requests that are \<open>good\<close> stay so when a part of their range was
  read.
\<close>

locale flaky_reader = steady_reader +
  fixes good :: "op_read \<Rightarrow> bool" and rgood :: "'a \<Rightarrow> bool" and budget :: "'b \<Rightarrow> nat" and n :: nat
  assumes budget_le: "sinv s \<Longrightarrow> budget s \<le> n"
    and open_flaky: "sinv s \<Longrightarrow> good args \<Longrightarrow>
      (\<exists>rp r s'. rop_open ops path args s = (Ok (rp, r), s') \<and> rgood r \<and> budget s' \<le> budget s) \<or>
      (\<exists>e s'. rop_open ops path args s = (Err e, s') \<and> is_temporary e \<and> budget s' < budget s)"
    and read_flaky: "sinv s \<Longrightarrow> rinv r \<Longrightarrow> rgood r \<Longrightarrow>
      (\<exists>b r' s'. rop_read ops r s = (Ok b, r', s') \<and> rgood r') \<or>
      (\<exists>e r' s'. rop_read ops r s = (Err e, r', s') \<and> is_temporary e \<and> budget s' < budget s)"
    and stat_flaky: "sinv s \<Longrightarrow> good args \<Longrightarrow>
      (\<exists>m s'. rop_stat ops path (reader_stat_op args) s = (Ok m, s')) \<or>
      (\<exists>e s'. rop_stat ops path (reader_stat_op args) s = (Err e, s') \<and> is_temporary e \<and> budget s' < budget s)"
    and good_advance: "good args \<Longrightarrow> k \<le> length (requested (ord_range args) content) \<Longrightarrow>
      br_advance (ord_range args) (of_nat k) = Some rng \<Longrightarrow> good (ord_with_range rng args)"

interpretation memfr: flaky_reader "reader_ops (memory_accessor name root)" path content "memory_holds root path content"
  buffer_ok buffer_view "\<lambda>args. True" "\<lambda>r. True" "\<lambda>s. 0" 0
proof -
  have "steady_reader (reader_ops (memory_accessor name root)) path content (memory_holds root path content) buffer_ok buffer_view"
    unfolding memory_reader_ops
    by (intro steady_reader.intro memr.object_reader_axioms steady_reader_axioms.intro)
      (auto simp: memory_read_ops_def split: prod.splits res.splits)
  then show "flaky_reader (reader_ops (memory_accessor name root)) path content (memory_holds root path content)
      buffer_ok buffer_view (\<lambda>args. True) (\<lambda>r. True) (\<lambda>s. 0) 0"
    using memr.open_total memr.read_total memr.stat_total
    by (simp add: flaky_reader_def flaky_reader_axioms_def memory_reader_ops)
qed

lemma br_advance_requested:
  assumes "br_advance r (of_nat k) = Some r'" "k < 2 ^ 64"
  shows "requested r' c = drop k (requested r c)"
proof -
  have k: "unat (of_nat k :: u64) = k" using assms(2) unat_of_nat_u64 by simp
  show ?thesis
    using assms(1)
    by (cases r) (auto simp: br_advance_def checked_add_u64_Some_iff checked_sub_u64_Some_iff k drop_take ac_simps
        split: option.splits)
qed

lemma br_advance_total:
  assumes "k \<le> length (requested r c)" "length c < 2 ^ 64"
  shows "\<exists>r'. br_advance r (of_nat k) = Some r'"
proof -
  obtain off sz where r: "r = BytesRange off sz" by (cases r)
  have le: "k = 0 \<or> unat off + k \<le> length c" "\<forall>s. sz = Some s \<longrightarrow> k \<le> unat s"
    using assms(1) r by (cases sz; force)+
  then have k: "unat (of_nat k :: u64) = k" using assms(2) unat_of_nat_u64[of k] by auto
  from unat_lt_u64[of off] have "unat off + unat (of_nat k :: u64) < 2 ^ 64" using le(1) assms(2) k by auto
  then obtain o' where "checked_add_u64 off (of_nat k) = Some o'"
    using checked_add_u64_None_iff[of off "of_nat k"] by (cases "checked_add_u64 off (of_nat k)") auto
  moreover have "\<exists>s'. checked_sub_u64 s (of_nat k) = Some s'" if "sz = Some s" for s
    using le(2) that k by (auto simp: checked_sub_u64_def word_le_nat_alt)
  ultimately show ?thesis by (cases sz) (auto simp: br_advance_def r)
qed

definition retry_rr :: "str \<Rightarrow> bytes \<Rightarrow> ('r \<Rightarrow> bool) \<Rightarrow> ('r \<Rightarrow> bytes) \<Rightarrow> 'r retry_reader \<Rightarrow> bool" where
  "retry_rr path content rinv rest rr \<longleftrightarrow> rr_path rr = path \<and>
     (\<forall>r. rr_reader rr = Some r \<longrightarrow> rinv r \<and> rest r = requested (ord_range (rr_args rr)) content)"

definition retry_left :: "bytes \<Rightarrow> 'r retry_reader \<Rightarrow> bytes" where
  "retry_left content rr = requested (ord_range (rr_args rr)) content"

definition retry_rinv :: "str \<Rightarrow> bytes \<Rightarrow> ('r \<Rightarrow> bool) \<Rightarrow> ('r \<Rightarrow> bytes) \<Rightarrow> 'r retry_reader retry_wrapper \<Rightarrow> bool" where
  "retry_rinv path content rinv rest w \<longleftrightarrow> (\<exists>rr. w = \<lparr>rw_inner = Some rr\<rparr> \<and> retry_rr path content rinv rest rr)"

definition retry_rest :: "bytes \<Rightarrow> 'r retry_reader retry_wrapper \<Rightarrow> bytes" where
  "retry_rest content w = (case rw_inner w of None \<Rightarrow> [] | Some rr \<Rightarrow> retry_left content rr)"

lemma reader_ops_outcome:
  "ac_read acc path args s = Some x \<Longrightarrow> rop_open (reader_ops acc) path args s = x"
  "ac_stat acc path sargs s = Some y \<Longrightarrow> rop_stat (reader_ops acc) path sargs s = y"
  "ac_reader_read acc (r, s) = Some z \<Longrightarrow> rop_read (reader_ops acc) r s = z"
  by (simp_all add: reader_ops_def io_total_def)

context object_reader
begin

lemma read_advance:
  assumes "ops = reader_ops acc" "sinv s" "retry_rr path content rinv rest rr" "rr_reader rr = Some r"
    "ac_reader_read acc (r, s) = Some (Ok b, r', s')"
  shows "\<exists>rng. br_advance (ord_range (rr_args rr)) (of_nat (buffer_len b)) = Some rng \<and> sinv s' \<and> buffer_ok b \<and>
    buffer_len b \<le> length (retry_left content rr) \<and>
    retry_rr path content rinv rest (rr\<lparr>rr_reader := Some r', rr_args := ord_with_range rng (rr_args rr)\<rparr>) \<and>
    retry_left content rr = buffer_view b @ requested rng content \<and> (buffer_view b = [] \<longrightarrow> retry_left content rr = [])"
proof -
  let ?k = "buffer_len b"
  have r: "rinv r" "rest r = retry_left content rr" "rr_path rr = path"
    using assms(3,4) by (auto simp: retry_rr_def retry_left_def)
  from read_ok[OF assms(2) r(1), of b r' s'] reader_ops_outcome(3)[OF assms(5)] assms(1)
  have ok: "sinv s'" "rinv r'" "buffer_ok b" "rest r = buffer_view b @ rest r'" "buffer_view b = [] \<longrightarrow> rest r = []" by auto
  have len: "?k = length (buffer_view b)" using buffer_ok_len ok(3) .
  have le: "?k \<le> length (requested (ord_range (rr_args rr)) content)" using ok(4) r(2) len by (simp add: retry_left_def)
  also have "\<dots> \<le> length content" by (auto simp: requested_def split: option.splits)
  finally have lt: "?k < 2 ^ 64" using content_len[OF assms(2)] by simp
  from br_advance_total[OF le content_len[OF assms(2)]] obtain rng where
    rng: "br_advance (ord_range (rr_args rr)) (of_nat ?k) = Some rng" by blast
  have "requested rng content = rest r'"
    using br_advance_requested[OF rng lt, of content] ok(4) r(2) len by (simp add: retry_left_def)
  with rng ok r le show ?thesis
    by (auto simp: retry_rr_def retry_left_def ord_with_range_def)
qed

end

text \<open>One attempt of \<open>RetryReader\<close> with an open reader, and without one.\<close>

lemma retry_loop_open:
  assumes "rr_reader rr = None"
  shows "retry_reader_loop acc rr s =
    (case ac_read acc (rr_path rr) (rr_args rr) s of
       None \<Rightarrow> None
     | Some (Ok (_, r), s1) \<Rightarrow> retry_reader_loop acc (rr\<lparr>rr_reader := Some r\<rparr>) s1
     | Some (Err e, s1) \<Rightarrow> Some (Err e, rr, s1)
     | Some (Panic, s1) \<Rightarrow> Some (Panic, rr, s1))"
  by (subst retry_reader_loop.simps) (simp add: assms)

lemma retry_loop_read:
  assumes "rr_reader rr = Some r"
  shows "retry_reader_loop acc rr s =
    (case ac_reader_read acc (r, s) of
       None \<Rightarrow> None
     | Some (Ok b, r1, s1) \<Rightarrow>
         (case br_advance (ord_range (rr_args rr)) (of_nat (buffer_len b)) of
            None \<Rightarrow> Some (Panic, rr\<lparr>rr_reader := Some r1\<rparr>, s1)
          | Some rng \<Rightarrow> Some (Ok b, rr\<lparr>rr_reader := Some r1, rr_args := ord_with_range rng (rr_args rr)\<rparr>, s1))
     | Some (Err e, r1, s1) \<Rightarrow> Some (Err e, rr\<lparr>rr_reader := None\<rparr>, s1)
     | Some (Panic, r1, s1) \<Rightarrow> Some (Panic, rr\<lparr>rr_reader := None\<rparr>, s1))"
  by (subst retry_reader_loop.simps) (simp add: assms)

text \<open>What an attempt promises, as a predicate on its outcome.\<close>

definition retry_outcome ::
  "('r retry_reader \<Rightarrow> bool) \<Rightarrow> bytes \<Rightarrow> ('s \<Rightarrow> bool) \<Rightarrow> 'r retry_reader \<Rightarrow> buffer res \<times> 'r retry_reader \<times> 's \<Rightarrow> bool" where
  "retry_outcome rrok content sinv rr = (\<lambda>(res, rr', s').
     case res of
       Ok b \<Rightarrow> sinv s' \<and> rrok rr' \<and> buffer_ok b \<and> retry_left content rr = buffer_view b @ retry_left content rr' \<and>
         (buffer_view b = [] \<longrightarrow> retry_left content rr = [])
     | Err e \<Rightarrow> sinv s' \<and> rrok rr' \<and> rr_args rr' = rr_args rr
     | Panic \<Rightarrow> True)"

context steady_reader
begin

lemma retry_read_outcome:
  assumes "ops = reader_ops acc" "sinv s" "retry_rr path content rinv rest rr" "rr_reader rr = Some r"
    "retry_reader_loop acc rr s = Some out"
  shows "retry_outcome (retry_rr path content rinv rest) content sinv rr out"
proof (cases "ac_reader_read acc (r, s)")
  case (Some x)
  then obtain q r1 s1 where x: "ac_reader_read acc (r, s) = Some (q, r1, s1)" by (cases x) auto
  show ?thesis
  proof (cases q)
    case (Ok b)
    from read_advance[OF assms(1-4) x[unfolded Ok]] assms(5) x Ok show ?thesis
      by (auto simp: retry_loop_read[OF assms(4)] retry_outcome_def retry_left_def ord_with_range_def)
  next
    case (Err e)
    have "sinv s1" using read_Err[of s r e r1 s1] reader_ops_outcome(3)[OF x] assms(1-4) Err by (auto simp: retry_rr_def)
    then show ?thesis using assms(3,5) x Err
      by (auto simp: retry_loop_read[OF assms(4)] retry_outcome_def retry_rr_def)
  qed (use assms(5) x in \<open>auto simp: retry_loop_read[OF assms(4)] retry_outcome_def\<close>)
qed (use assms(5) in \<open>simp add: retry_loop_read[OF assms(4)]\<close>)

lemma retry_opened:
  assumes "ops = reader_ops acc" "sinv s" "retry_rr path content rinv rest rr"
    "ac_read acc (rr_path rr) (rr_args rr) s = Some (Ok (rp, r), s1)"
  shows "sinv s1" "retry_rr path content rinv rest (rr\<lparr>rr_reader := Some r\<rparr>)"
    "retry_left content (rr\<lparr>rr_reader := Some r\<rparr>) = retry_left content rr"
  using open_ok[OF assms(2), of "rr_args rr" rp r s1] reader_ops_outcome(1)[OF assms(4)] assms(1,3)
  by (auto simp: retry_rr_def retry_left_def)

lemma retry_loop_outcome:
  assumes "ops = reader_ops acc" "sinv s" "retry_rr path content rinv rest rr" "retry_reader_loop acc rr s = Some out"
  shows "retry_outcome (retry_rr path content rinv rest) content sinv rr out"
proof (cases "rr_reader rr")
  case None
  note loop = assms(4)[unfolded retry_loop_open[OF None]]
  then obtain q s1 where x: "ac_read acc (rr_path rr) (rr_args rr) s = Some (q, s1)" by (auto split: option.splits)
  show ?thesis
  proof (cases q)
    case (Ok y)
    then obtain rp r where y: "q = Ok (rp, r)" by (cases y) auto
    note opened = retry_opened[OF assms(1-3) x[unfolded y]]
    from loop x y have "retry_reader_loop acc (rr\<lparr>rr_reader := Some r\<rparr>) s1 = Some out" by simp
    from retry_read_outcome[OF assms(1) opened(1,2) _ this, of r] opened(3) show ?thesis
      by (auto simp: retry_outcome_def split: res.splits)
  next
    case (Err e)
    have "sinv s1" using open_Err[of s "rr_args rr" e s1] reader_ops_outcome(1)[OF x] assms(1-3) Err by (auto simp: retry_rr_def)
    with assms(3) loop x Err show ?thesis by (auto simp: retry_outcome_def)
  qed (use loop x in \<open>auto simp: retry_outcome_def\<close>)
qed (rule retry_read_outcome[OF assms(1-3) _ assms(4)])

text \<open>The layer keeps the contract.\<close>

lemma retry_wrapper_read:
  assumes "ops = reader_ops acc" "backon_ok m b" "sinv s" "retry_rr path content rinv rest rr"
    "ac_reader_read (retry_layer b acc) (\<lparr>rw_inner = Some rr\<rparr>, s) = Some (q, w', s')"
  shows "\<exists>q0 rr'. q = map_err set_persistent q0 \<and> w' = \<lparr>rw_inner = Some rr'\<rparr> \<and>
    retry_outcome (retry_rr path content rinv rest) content sinv rr (q0, rr', s')"
proof -
  let ?P = "\<lambda>(rr', s'). sinv s' \<and> retry_rr path content rinv rest rr' \<and> rr_args rr' = rr_args rr"
  from assms(5) obtain q0 rr' where t: "tries m (retry_reader_read acc) (rr, s) = Some (q0, rr', s')"
    "q = map_err set_persistent q0" "w' = \<lparr>rw_inner = Some rr'\<rparr>"
    by (auto simp: retry_methods retry_call_eq backon_ok_simps[OF assms(2)])
  have "\<exists>x. ?P x \<and> retry_reader_read acc x = Some (q0, rr', s')"
  proof (rule tries_cases[OF t(1)])
    fix x e y assume "?P x" "retry_reader_read acc x = Some (Err e, y)"
    then show "?P y"
      using retry_loop_outcome[OF assms(1), of "snd x" "fst x" "(Err e, y)"]
      by (auto simp: retry_reader_read_def retry_outcome_def split: prod.splits)
  qed (use assms(3,4) in simp)
  then obtain x where x: "?P x" "retry_reader_read acc x = Some (q0, rr', s')" by blast
  then have "retry_outcome (retry_rr path content rinv rest) content sinv (fst x) (q0, rr', s')"
    using retry_loop_outcome[OF assms(1), of "snd x" "fst x"] by (auto simp: retry_reader_read_def split: prod.splits)
  then have "retry_outcome (retry_rr path content rinv rest) content sinv rr (q0, rr', s')"
    using x(1) by (auto simp: retry_outcome_def retry_left_def split: res.splits)
  with t show ?thesis by blast
qed

end

lemma reader_ops_back:
  "rop_open (reader_ops acc) path args s = (q, s') \<Longrightarrow> q \<noteq> Panic \<Longrightarrow> ac_read acc path args s = Some (q, s')"
  "rop_stat (reader_ops acc) path sargs s = (p, s') \<Longrightarrow> p \<noteq> Panic \<Longrightarrow> ac_stat acc path sargs s = Some (p, s')"
  "rop_read (reader_ops acc) r s = (x, y) \<Longrightarrow> x \<noteq> Panic \<Longrightarrow> ac_reader_read acc (r, s) = Some (x, y)"
  by (auto simp: reader_ops_def io_total_def split: option.splits)

lemma retry_open_eq:
  assumes "backon_ok m b"
  shows "ac_read (retry_layer b acc) path args s =
    map_option (\<lambda>(q, s'). (map_err set_persistent (map_res (\<lambda>(rp, r).
      (rp, \<lparr>rw_inner = Some \<lparr>rr_reader = Some r, rr_path = path, rr_args = args\<rparr>\<rparr>)) q), s')) (tries m (ac_read acc path args) s)"
  by (auto simp: retry_methods backon_ok_simps[OF assms] io_defs retry_wrapper_new_def retry_reader_new_def
      option.map_comp comp_def split: option.splits res.splits)

lemma retry_stat_eq:
  assumes "backon_ok m b"
  shows "ac_stat (retry_layer b acc) path args s =
    map_option (\<lambda>(q, s'). (map_err set_persistent q, s')) (tries m (ac_stat acc path args) s)"
  by (simp add: retry_methods backon_ok_simps[OF assms] io_defs)

context steady_reader
begin

lemma tries_open:
  assumes "ops = reader_ops acc" "sinv s" "tries m (ac_read acc path args) s = Some (q, s')"
  shows "\<exists>s0. sinv s0 \<and> rop_open ops path args s0 = (q, s')"
  using tries_cases[OF assms(3), of sinv] assms(1,2) open_Err reader_ops_outcome(1)[of acc path args] by metis

lemma tries_stat:
  assumes "ops = reader_ops acc" "sinv s" "tries m (ac_stat acc path args) s = Some (q, s')"
  shows "\<exists>s0. sinv s0 \<and> rop_stat ops path args s0 = (q, s')"
  using tries_cases[OF assms(3), of sinv] assms(1,2) stat_Err reader_ops_outcome(2)[of acc path args] by metis

lemma retry_opened_again:
  assumes "ops = reader_ops acc" "backon_ok m b" "sinv s" "ac_read (retry_layer b acc) path args s = Some (q, s')"
  shows "\<exists>s0 q0. sinv s0 \<and> rop_open ops path args s0 = (q0, s') \<and> q = map_err set_persistent (map_res (\<lambda>(rp, r).
      (rp, \<lparr>rw_inner = Some \<lparr>rr_reader = Some r, rr_path = path, rr_args = args\<rparr>\<rparr>)) q0)"
  using assms(4) tries_open[OF assms(1,3)] by (fastforce simp: retry_open_eq[OF assms(2)])

lemma retry_stated_again:
  assumes "ops = reader_ops acc" "backon_ok m b" "sinv s" "ac_stat (retry_layer b acc) path args s = Some (q, s')"
  shows "\<exists>s0 q0. sinv s0 \<and> rop_stat ops path args s0 = (q0, s') \<and> q = map_err set_persistent q0"
  using assms(4) tries_stat[OF assms(1,3)] by (fastforce simp: retry_stat_eq[OF assms(2)])

lemma retry_steady_reader:
  assumes "ops = reader_ops acc" "backon_ok m b"
  shows "steady_reader (reader_ops (retry_layer b acc)) path content sinv (retry_rinv path content rinv rest) (retry_rest content)"
proof
  let ?acc = "retry_layer b acc"
  fix s args rp w s' e sargs md r r' bf
  show "sinv s' \<and> retry_rinv path content rinv rest w \<and> retry_rest content w = requested (ord_range args) content"
    if s: "sinv s" and op: "rop_open (reader_ops ?acc) path args s = (Ok (rp, w), s')"
  proof -
    from retry_opened_again[OF assms s reader_ops_back(1)[OF op]] obtain s0 rd where
      rd: "sinv s0" "rop_open ops path args s0 = (Ok (rp, rd), s')"
        "w = \<lparr>rw_inner = Some \<lparr>rr_reader = Some rd, rr_path = path, rr_args = args\<rparr>\<rparr>"
      by auto
    from open_ok[OF rd(1,2)] rd(3) show ?thesis
      by (auto simp: retry_rinv_def retry_rr_def retry_rest_def retry_left_def)
  qed
  show "sinv s' \<and> metadata_content_length md = of_nat (length content)"
    if s: "sinv s" and st: "rop_stat (reader_ops ?acc) path sargs s = (Ok md, s')"
  proof -
    from retry_stated_again[OF assms s reader_ops_back(2)[OF st]] obtain s0 where
      "sinv s0" "rop_stat ops path sargs s0 = (Ok md, s')" by auto
    from stat_ok[OF this] show ?thesis .
  qed
  show "sinv s'" if s: "sinv s" and op: "rop_open (reader_ops ?acc) path args s = (Err e, s')"
    using retry_opened_again[OF assms s reader_ops_back(1)[OF op]] open_Err by auto
  show "sinv s'" if s: "sinv s" and st: "rop_stat (reader_ops ?acc) path sargs s = (Err e, s')"
    using retry_stated_again[OF assms s reader_ops_back(2)[OF st]] stat_Err by auto
  show "sinv s' \<and> retry_rinv path content rinv rest r' \<and> buffer_ok bf \<and>
      retry_rest content r = buffer_view bf @ retry_rest content r' \<and> (buffer_view bf = [] \<longrightarrow> retry_rest content r = [])"
    if s: "sinv s" and r: "retry_rinv path content rinv rest r" and rd: "rop_read (reader_ops ?acc) r s = (Ok bf, r', s')"
  proof -
    from r obtain rr where rr: "r = \<lparr>rw_inner = Some rr\<rparr>" "retry_rr path content rinv rest rr" by (auto simp: retry_rinv_def)
    from retry_wrapper_read[OF assms s rr(2), of "Ok bf" r' s'] reader_ops_back(3)[OF rd] rr show ?thesis
      by (auto simp: retry_rinv_def retry_rest_def retry_outcome_def)
  qed
  show "sinv s'"
    if s: "sinv s" and r: "retry_rinv path content rinv rest r" and rd: "rop_read (reader_ops ?acc) r s = (Err e, r', s')"
  proof -
    from r obtain rr where rr: "r = \<lparr>rw_inner = Some rr\<rparr>" "retry_rr path content rinv rest rr" by (auto simp: retry_rinv_def)
    from retry_wrapper_read[OF assms s rr(2), of "Err e" r' s'] reader_ops_back(3)[OF rd] rr show ?thesis
      by (auto simp: retry_outcome_def)
  qed
qed (rule content_len)

end

text \<open>
  A service that fails temporarily at most \<open>n\<close> times in a row does not fail under at least \<open>n\<close> repetitions.
\<close>

definition retry_rgood :: "(op_read \<Rightarrow> bool) \<Rightarrow> ('r \<Rightarrow> bool) \<Rightarrow> 'r retry_reader retry_wrapper \<Rightarrow> bool" where
  "retry_rgood good rgood w \<longleftrightarrow>
     (\<exists>rr. rw_inner w = Some rr \<and> good (rr_args rr) \<and> (\<forall>r. rr_reader rr = Some r \<longrightarrow> rgood r))"

context flaky_reader
begin

definition rr_good :: "'a retry_reader \<Rightarrow> bool" where
  "rr_good rr \<longleftrightarrow> good (rr_args rr) \<and> (\<forall>r. rr_reader rr = Some r \<longrightarrow> rgood r)"

definition attempt_ok :: "'b \<Rightarrow> (buffer res \<times> 'a retry_reader \<times> 'b) option \<Rightarrow> bool" where
  "attempt_ok s out \<longleftrightarrow>
     (\<exists>bf rr' s'. out = Some (Ok bf, rr', s') \<and> rr_good rr') \<or>
     (\<exists>e rr' s'. out = Some (Err e, rr', s') \<and> is_temporary e \<and> rr_good rr' \<and> budget s' < budget s)"

lemma attempt_read:
  assumes "ops = reader_ops acc" "sinv s" "retry_rr path content rinv rest rr" "rr_reader rr = Some r" "rr_good rr"
  shows "attempt_ok s (retry_reader_loop acc rr s)"
proof -
  have r: "rinv r" "rgood r" using assms(3-5) by (auto simp: retry_rr_def rr_good_def)
  from read_flaky[OF assms(2) r] show ?thesis
  proof
    assume "\<exists>b r' s'. rop_read ops r s = (Ok b, r', s') \<and> rgood r'"
    then obtain b r' s' where rd: "rop_read ops r s = (Ok b, r', s')" "rgood r'" by blast
    note rd' = reader_ops_back(3)[OF rd(1)[unfolded assms(1)], simplified]
    from read_advance[OF assms(1-4) rd'] obtain rng where
      rng: "br_advance (ord_range (rr_args rr)) (of_nat (buffer_len b)) = Some rng" "buffer_len b \<le> length (retry_left content rr)" by blast
    have "good (ord_with_range rng (rr_args rr))"
      using good_advance[OF _ rng(2)[unfolded retry_left_def] rng(1)] assms(5) by (simp add: rr_good_def)
    with rd(2) rd' rng(1) show ?thesis by (simp add: attempt_ok_def retry_loop_read[OF assms(4)] rr_good_def)
  next
    assume "\<exists>e r' s'. rop_read ops r s = (Err e, r', s') \<and> is_temporary e \<and> budget s' < budget s"
    then obtain e r' s' where rd: "rop_read ops r s = (Err e, r', s')" "is_temporary e" "budget s' < budget s" by blast
    note rd' = reader_ops_back(3)[OF rd(1)[unfolded assms(1)], simplified]
    with rd(2,3) assms(5) show ?thesis by (simp add: attempt_ok_def retry_loop_read[OF assms(4)] rr_good_def)
  qed
qed

lemma attempt_ok_mono: "attempt_ok s out \<Longrightarrow> budget s \<le> budget s0 \<Longrightarrow> attempt_ok s0 out"
  by (fastforce simp: attempt_ok_def)

lemma attempt:
  assumes "ops = reader_ops acc" "sinv s" "retry_rr path content rinv rest rr" "rr_good rr"
  shows "attempt_ok s (retry_reader_loop acc rr s)"
proof (cases "rr_reader rr")
  case None
  have rr: "good (rr_args rr)" "rr_path rr = path" using assms(3,4) by (auto simp: rr_good_def retry_rr_def)
  from open_flaky[OF assms(2) rr(1)] show ?thesis
  proof
    assume "\<exists>rp r s'. rop_open ops path (rr_args rr) s = (Ok (rp, r), s') \<and> rgood r \<and> budget s' \<le> budget s"
    then obtain rp r s1 where op: "rop_open ops path (rr_args rr) s = (Ok (rp, r), s1)" "rgood r" "budget s1 \<le> budget s" by blast
    note op' = reader_ops_back(1)[OF op(1)[unfolded assms(1)], simplified]
    from retry_opened[OF assms(1-3) op'[folded rr(2)]] op(2) rr(1)
    have "attempt_ok s1 (retry_reader_loop acc (rr\<lparr>rr_reader := Some r\<rparr>) s1)"
      by (intro attempt_read[OF assms(1)]) (auto simp: rr_good_def)
    from attempt_ok_mono[OF this op(3)] op' rr(2) show ?thesis by (simp add: retry_loop_open[OF None])
  next
    assume "\<exists>e s'. rop_open ops path (rr_args rr) s = (Err e, s') \<and> is_temporary e \<and> budget s' < budget s"
    then obtain e s1 where op: "rop_open ops path (rr_args rr) s = (Err e, s1)" "is_temporary e" "budget s1 < budget s" by blast
    with reader_ops_back(1)[OF op(1)[unfolded assms(1)]] rr(2) assms(4) show ?thesis
      by (simp add: attempt_ok_def retry_loop_open[OF None])
  qed
qed (rule attempt_read[OF assms(1-3) _ assms(4)])

lemma wrapper_read_total:
  assumes "ops = reader_ops acc" "backon_ok m b" "n \<le> m" "sinv s" "retry_rr path content rinv rest rr" "rr_good rr"
  shows "\<exists>bf rr' s'. ac_reader_read (retry_layer b acc) (\<lparr>rw_inner = Some rr\<rparr>, s) =
    Some (Ok bf, \<lparr>rw_inner = Some rr'\<rparr>, s') \<and> rr_good rr'"
proof -
  let ?P = "\<lambda>(rr, s). sinv s \<and> retry_rr path content rinv rest rr \<and> rr_good rr"
  have "\<exists>bf x. tries m (retry_reader_read acc) (rr, s) = Some (Ok bf, x) \<and> rr_good (fst x)"
  proof (rule tries_reach[where P = ?P and budget = "\<lambda>(rr, s). budget s"])
    fix x assume "?P x"
    then obtain rr s where x: "x = (rr, s)" "sinv s" "retry_rr path content rinv rest rr" "rr_good rr" by (cases x) auto
    from attempt[OF assms(1) x(2-4)] retry_loop_outcome[OF assms(1) x(2,3)]
    show "(\<exists>bf y. retry_reader_read acc x = Some (Ok bf, y) \<and> rr_good (fst y)) \<or>
        (\<exists>e y. retry_reader_read acc x = Some (Err e, y) \<and> is_temporary e \<and> ?P y \<and>
          (\<lambda>(rr, s). budget s) y < (\<lambda>(rr, s). budget s) x)"
      by (auto simp: x(1) attempt_ok_def retry_reader_read_def retry_outcome_def)
  qed (use assms(3-6) budget_le[OF assms(4)] in auto)
  then show ?thesis by (auto simp: retry_methods retry_call_eq backon_ok_simps[OF assms(2)])
qed

lemma tries_open_total:
  assumes "ops = reader_ops acc" "n \<le> m" "sinv s" "good args"
  shows "\<exists>x s'. tries m (ac_read acc path args) s = Some (Ok x, s') \<and> rgood (snd x)"
proof (rule tries_reach[where P = sinv and budget = budget])
  fix s assume s: "sinv s"
  from open_flaky[OF s assms(4)] open_Err[OF s]
  show "(\<exists>x s'. ac_read acc path args s = Some (Ok x, s') \<and> rgood (snd x)) \<or>
      (\<exists>e s'. ac_read acc path args s = Some (Err e, s') \<and> is_temporary e \<and> sinv s' \<and> budget s' < budget s)"
    using reader_ops_back(1)[of acc path args s] unfolding assms(1) by fastforce
qed (use assms budget_le[OF assms(3)] in auto)

lemma tries_stat_total:
  assumes "ops = reader_ops acc" "n \<le> m" "sinv s" "good args"
  shows "\<exists>x s'. tries m (ac_stat acc path (reader_stat_op args)) s = Some (Ok x, s')"
proof -
  have "\<exists>x s'. tries m (ac_stat acc path (reader_stat_op args)) s = Some (Ok x, s') \<and> True"
  proof (rule tries_reach[where P = sinv and budget = budget])
    fix s assume s: "sinv s"
    from stat_flaky[OF s assms(4)] stat_Err[OF s]
    show "(\<exists>x s'. ac_stat acc path (reader_stat_op args) s = Some (Ok x, s') \<and> True) \<or>
        (\<exists>e s'. ac_stat acc path (reader_stat_op args) s = Some (Err e, s') \<and> is_temporary e \<and> sinv s' \<and> budget s' < budget s)"
      using reader_ops_back(2)[of acc path _ s] unfolding assms(1) by fastforce
  qed (use assms budget_le[OF assms(3)] in auto)
  then show ?thesis by simp
qed

lemma retry_reliable_reader:
  assumes "ops = reader_ops acc" "backon_ok m b" "n \<le> m"
  shows "reliable_reader (reader_ops (retry_layer b acc)) path content sinv (retry_rinv path content rinv rest)
    (retry_rest content) good (retry_rgood good rgood)"
proof (intro reliable_reader.intro reliable_reader_axioms.intro)
  let ?acc = "retry_layer b acc"
  fix s args r
  assume s: "sinv s"
  show "\<exists>rp r s'. rop_open (reader_ops ?acc) path args s = (Ok (rp, r), s') \<and> retry_rgood good rgood r" if g: "good args"
  proof -
    from tries_open_total[OF assms(1,3) s g] obtain rp r s' where
      "tries m (ac_read acc path args) s = Some (Ok (rp, r), s')" "rgood r" by auto
    then have "ac_read ?acc path args s =
        Some (Ok (rp, \<lparr>rw_inner = Some \<lparr>rr_reader = Some r, rr_path = path, rr_args = args\<rparr>\<rparr>), s')"
      by (simp add: retry_open_eq[OF assms(2)])
    from reader_ops_outcome(1)[OF this] \<open>rgood r\<close> g show ?thesis by (simp add: retry_rgood_def)
  qed
  show "\<exists>m s'. rop_stat (reader_ops ?acc) path (reader_stat_op args) s = (Ok m, s')" if g: "good args"
  proof -
    from tries_stat_total[OF assms(1,3) s g] obtain md s' where
      "ac_stat ?acc path (reader_stat_op args) s = Some (Ok md, s')" by (auto simp: retry_stat_eq[OF assms(2)])
    from reader_ops_outcome(2)[OF this] show ?thesis by blast
  qed
  show "\<exists>bf r' s'. rop_read (reader_ops ?acc) r s = (Ok bf, r', s') \<and> retry_rgood good rgood r'"
    if "retry_rinv path content rinv rest r" and g: "retry_rgood good rgood r"
  proof -
    from that obtain rr where rr: "r = \<lparr>rw_inner = Some rr\<rparr>" "retry_rr path content rinv rest rr" "rr_good rr"
      by (auto simp: retry_rinv_def retry_rgood_def rr_good_def)
    from wrapper_read_total[OF assms s rr(2,3)] rr(1) obtain bf rr' s' where
      "ac_reader_read ?acc (r, s) = Some (Ok bf, \<lparr>rw_inner = Some rr'\<rparr>, s')" "rr_good rr'" by blast
    from reader_ops_outcome(3)[OF this(1)] this(2) show ?thesis by (simp add: retry_rgood_def rr_good_def)
  qed
qed (rule steady_reader.axioms(1)[OF retry_steady_reader[OF assms(1,2)]])

end

section \<open>Writing\<close>

text \<open>
  A writer whose \<open>close\<close> may be repeated after a temporary failure, and one that fails temporarily at
  most \<open>n\<close> times in a row.
\<close>

locale resumable_writer = oio_writer +
  assumes close_temporary: "winv w \<Longrightarrow> w_close ops w = (Err e, w') \<Longrightarrow> is_temporary e \<Longrightarrow> winv w' \<and> writes w' = writes w"

locale flaky_writer = resumable_writer +
  fixes budget :: "'a \<Rightarrow> nat" and n :: nat
  assumes budget_le: "winv w \<Longrightarrow> budget w \<le> n"
    and write_flaky: "winv w \<Longrightarrow> buffer_ok bs \<Longrightarrow> buffer_view bs \<noteq> [] \<Longrightarrow>
      (\<exists>w'. w_write ops w bs = (Ok (), w')) \<or>
      (\<exists>e w'. w_write ops w bs = (Err e, w') \<and> is_temporary e \<and> budget w' < budget w)"
    and close_flaky: "winv w \<Longrightarrow>
      (\<exists>m w'. w_close ops w = (Ok m, w') \<and> metadata_content_length m = of_nat (length (concat (writes w)))) \<or>
      (\<exists>e w'. w_close ops w = (Err e, w') \<and> is_temporary e \<and> budget w' < budget w)"

interpretation memfw: flaky_writer "writer_ops (memory_accessor name root)"
  "\<lambda>x. memory_writer_free data p (on_store x)" "\<lambda>x. memory_writer_writes (on_store x)"
  "\<lambda>(w, s). memory_object data p s" "\<lambda>x. 0" 0
proof (intro flaky_writer.intro resumable_writer.intro resumable_writer_axioms.intro flaky_writer_axioms.intro memw.oio_writer_axioms)
  let ?ops = "writer_ops (memory_accessor name root)" and ?winv = "\<lambda>x. memory_writer_free data p (on_store x)"
  fix w e w' bs
  assume w: "?winv w"
  show "?winv w' \<and> memory_writer_writes (on_store w') = memory_writer_writes (on_store w)" if "w_close ?ops w = (Err e, w')"
    using memw.close_total[OF w, of name root] that by auto
  show "(\<exists>w'. w_write ?ops w bs = (Ok (), w')) \<or> (\<exists>e w'. w_write ?ops w bs = (Err e, w') \<and> is_temporary e \<and> (0 :: nat) < 0)"
    if "buffer_ok bs" "buffer_view bs \<noteq> []"
    using memw.write_total[OF w that, of name root] by blast
  show "(\<exists>m w'. w_close ?ops w = (Ok m, w') \<and>
        metadata_content_length m = of_nat (length (concat (memory_writer_writes (on_store w))))) \<or>
      (\<exists>e w'. w_close ?ops w = (Err e, w') \<and> is_temporary e \<and> (0 :: nat) < 0)"
    using memw.close_total[OF w, of name root] by blast
qed simp

definition retry_winv :: "('w \<times> 's \<Rightarrow> bool) \<Rightarrow> 'w retry_wrapper \<times> 's \<Rightarrow> bool" where
  "retry_winv winv = (\<lambda>(w, s). \<exists>i. w = \<lparr>rw_inner = Some i\<rparr> \<and> winv (i, s))"

definition retry_writes :: "('w \<times> 's \<Rightarrow> bytes list) \<Rightarrow> 'w retry_wrapper \<times> 's \<Rightarrow> bytes list" where
  "retry_writes writes = (\<lambda>(w, s). case rw_inner w of None \<Rightarrow> [] | Some i \<Rightarrow> writes (i, s))"

definition retry_stored :: "('w \<times> 's \<Rightarrow> bytes option) \<Rightarrow> 'w retry_wrapper \<times> 's \<Rightarrow> bytes option" where
  "retry_stored stored = (\<lambda>(w, s). case rw_inner w of None \<Rightarrow> None | Some i \<Rightarrow> stored (i, s))"

lemma writer_ops_back:
  "w_write (writer_ops acc) w bs = (q, w') \<Longrightarrow> q \<noteq> Panic \<Longrightarrow> ac_writer_write acc bs w = Some (q, w')"
  "w_close (writer_ops acc) w = (q', w') \<Longrightarrow> q' \<noteq> Panic \<Longrightarrow> ac_writer_close acc w = Some (q', w')"
  by (auto simp: writer_ops_def io_total_def split: option.splits)

lemma writer_ops_outcome:
  "ac_writer_write acc bs w = Some x \<Longrightarrow> w_write (writer_ops acc) w bs = x"
  "ac_writer_close acc w = Some y \<Longrightarrow> w_close (writer_ops acc) w = y"
  by (simp_all add: writer_ops_def io_total_def)

lemma retry_writer_eq:
  assumes "backon_ok m b"
  shows "ac_writer_write (retry_layer b acc) bs (\<lparr>rw_inner = Some i\<rparr>, s) =
      map_option (\<lambda>(r, i', s'). (map_err set_persistent r, \<lparr>rw_inner = Some i'\<rparr>, s')) (tries m (ac_writer_write acc bs) (i, s))"
    "ac_writer_close (retry_layer b acc) (\<lparr>rw_inner = Some i\<rparr>, s) =
      map_option (\<lambda>(r, i', s'). (map_err set_persistent r, \<lparr>rw_inner = Some i'\<rparr>, s')) (tries m (ac_writer_close acc) (i, s))"
  by (simp_all add: retry_methods retry_call_eq backon_ok_simps[OF assms])

text \<open>A method that always returns without a panic does so under repetition.\<close>

lemma tries_returns:
  assumes "P s" and step: "\<And>s. P s \<Longrightarrow> \<exists>r s'. m s = Some (r, s') \<and> r \<noteq> Panic"
    and keep: "\<And>s e s'. P s \<Longrightarrow> m s = Some (Err e, s') \<Longrightarrow> P s'"
  shows "\<exists>r s'. tries n m s = Some (r, s') \<and> r \<noteq> Panic"
  using assms(1)
proof (induction n arbitrary: s)
  case (Suc n)
  from step[OF Suc.prems] obtain r s' where r: "m s = Some (r, s')" "r \<noteq> Panic" by blast
  then show ?case using Suc.IH[of s'] keep[OF Suc.prems] by (cases r) auto
qed (use step in auto)


text \<open>A repeated write is a write of the writer in a state where the failed attempts left no trace.\<close>

lemma tries_write:
  assumes w: "oio_writer (writer_ops acc) winv writes stored" "winv x" and bs: "buffer_ok bs" "buffer_view bs \<noteq> []"
    and t: "tries m (ac_writer_write acc bs) x = Some (q, y)"
  shows "\<exists>x0. winv x0 \<and> writes x0 = writes x \<and> w_write (writer_ops acc) x0 bs = (q, y)"
proof -
  have "\<exists>x0. (winv x0 \<and> writes x0 = writes x) \<and> ac_writer_write acc bs x0 = Some (q, y)"
  proof (rule tries_cases[OF t, where P = "\<lambda>x0. winv x0 \<and> writes x0 = writes x"])
    fix s e s' assume "winv s \<and> writes s = writes x" "ac_writer_write acc bs s = Some (Err e, s')"
    then show "winv s' \<and> writes s' = writes x"
      using oio_writer.write_Err[OF w(1) _ bs] writer_ops_outcome(1) by metis
  qed (use w(2) in simp)
  then show ?thesis using writer_ops_outcome(1) by blast
qed

lemma tries_close:
  assumes w: "resumable_writer (writer_ops acc) winv writes stored" "winv x"
    and t: "tries m (ac_writer_close acc) x = Some (q, y)"
  shows "\<exists>x0. winv x0 \<and> writes x0 = writes x \<and> w_close (writer_ops acc) x0 = (q, y)"
proof -
  have "\<exists>x0. (winv x0 \<and> writes x0 = writes x) \<and> ac_writer_close acc x0 = Some (q, y)"
  proof (rule tries_cases[OF t, where P = "\<lambda>x0. winv x0 \<and> writes x0 = writes x"])
    fix s e s' assume "winv s \<and> writes s = writes x" "ac_writer_close acc s = Some (Err e, s')" "is_temporary e"
    then show "winv s' \<and> writes s' = writes x"
      using resumable_writer.close_temporary[OF w(1)] writer_ops_outcome(2) by metis
  qed (use w(2) in simp)
  then show ?thesis using writer_ops_outcome(2) by blast
qed

lemma tries_write_returns:
  assumes w: "oio_writer (writer_ops acc) winv writes stored" "winv x" and bs: "buffer_ok bs" "buffer_view bs \<noteq> []"
  shows "\<exists>r y. tries m (ac_writer_write acc bs) x = Some (r, y) \<and> r \<noteq> Panic"
proof (rule tries_returns[where P = winv])
  fix s assume s: "winv s"
  obtain r s' where rs: "w_write (writer_ops acc) s bs = (r, s')" by (rule prod.exhaust)
  with oio_writer.write_no_panic[OF w(1) s bs] have "r \<noteq> Panic" by simp
  with writer_ops_back(1)[OF rs] show "\<exists>r s'. ac_writer_write acc bs s = Some (r, s') \<and> r \<noteq> Panic" by blast
next
  fix s e s' assume "winv s" "ac_writer_write acc bs s = Some (Err e, s')"
  then show "winv s'" using oio_writer.write_Err[OF w(1) _ bs] writer_ops_outcome(1) by metis
qed (rule w(2))

lemma retry_writer_write:
  assumes w: "oio_writer (writer_ops acc) winv writes stored" and b: "backon_ok m b"
    and x: "retry_winv winv x" and bs: "buffer_ok bs" "buffer_view bs \<noteq> []"
  shows "\<exists>q y x0. w_write (writer_ops (retry_layer b acc)) x bs = (map_err set_persistent q, \<lparr>rw_inner = Some (fst y)\<rparr>, snd y) \<and>
    q \<noteq> Panic \<and> winv x0 \<and> writes x0 = retry_writes writes x \<and> w_write (writer_ops acc) x0 bs = (q, y)"
proof -
  from x obtain i s where i: "x = (\<lparr>rw_inner = Some i\<rparr>, s)" "winv (i, s)" by (auto simp: retry_winv_def)
  from tries_write_returns[OF w i(2) bs] obtain q y where q: "tries m (ac_writer_write acc bs) (i, s) = Some (q, y)" "q \<noteq> Panic"
    by blast
  from tries_write[OF w i(2) bs q(1)] obtain x0 where
    "winv x0" "writes x0 = writes (i, s)" "w_write (writer_ops acc) x0 bs = (q, y)" by blast
  moreover have "writes (i, s) = retry_writes writes x" by (simp add: retry_writes_def i(1))
  moreover have "ac_writer_write (retry_layer b acc) bs x =
      Some (map_err set_persistent q, \<lparr>rw_inner = Some (fst y)\<rparr>, snd y)"
    by (simp add: i(1) retry_writer_eq[OF b] q(1) split_def)
  ultimately show ?thesis using q(2) writer_ops_outcome(1) by metis
qed

lemma retry_writer_close:
  assumes w: "resumable_writer (writer_ops acc) winv writes stored" and b: "backon_ok m b" and x: "retry_winv winv x"
    and c: "w_close (writer_ops (retry_layer b acc)) x = (Ok md, z)"
  shows "\<exists>y x0. z = (\<lparr>rw_inner = Some (fst y)\<rparr>, snd y) \<and> winv x0 \<and> writes x0 = retry_writes writes x \<and>
    w_close (writer_ops acc) x0 = (Ok md, y)"
proof -
  from x obtain i s where i: "x = (\<lparr>rw_inner = Some i\<rparr>, s)" "winv (i, s)" by (auto simp: retry_winv_def)
  from writer_ops_back(2)[OF c] i(1) obtain y where
    y: "tries m (ac_writer_close acc) (i, s) = Some (Ok md, y)" "z = (\<lparr>rw_inner = Some (fst y)\<rparr>, snd y)"
    by (auto simp: retry_writer_eq[OF b])
  from tries_close[OF w i(2) y(1)] y(2) i(1) show ?thesis by (auto simp: retry_writes_def)
qed

text \<open>The layer keeps the contract of the writers: a piece that is written at last is written once.\<close>

lemma retry_oio_writer:
  assumes w: "resumable_writer (writer_ops acc) winv writes stored" and b: "backon_ok m b"
  shows "oio_writer (writer_ops (retry_layer b acc)) (retry_winv winv) (retry_writes writes) (retry_stored stored)"
proof
  let ?ops = "writer_ops (retry_layer b acc)"
  note ow = resumable_writer.axioms(1)[OF w]
  fix x bs y e md
  assume x: "retry_winv winv x"
  show "retry_stored stored y = Some (concat (retry_writes writes x))" if c: "w_close ?ops x = (Ok md, y)"
    using retry_writer_close[OF w b x c] oio_writer.close_Ok[OF ow] by (auto simp: retry_stored_def)
  assume bs: "buffer_ok bs" "buffer_view bs \<noteq> []"
  from retry_writer_write[OF ow b x bs] obtain q z x0 where
    q: "w_write ?ops x bs = (map_err set_persistent q, \<lparr>rw_inner = Some (fst z)\<rparr>, snd z)" "q \<noteq> Panic" "winv x0"
      "writes x0 = retry_writes writes x" "w_write (writer_ops acc) x0 bs = (q, z)" by blast
  then show "fst (w_write ?ops x bs) \<noteq> Panic" by simp
  show "retry_winv winv y \<and> retry_writes writes y = retry_writes writes x @ [buffer_view bs]" if "w_write ?ops x bs = (Ok (), y)"
    using that q oio_writer.write_Ok[OF ow q(3) bs, of z] by (auto simp: retry_winv_def retry_writes_def)
  show "retry_winv winv y \<and> retry_writes writes y = retry_writes writes x" if "w_write ?ops x bs = (Err e, y)"
    using that q oio_writer.write_Err[OF ow q(3) bs, of _ z] by (auto simp: retry_winv_def retry_writes_def)
qed

lemma tries_write_total:
  assumes w: "flaky_writer (writer_ops acc) winv writes stored budget n" "n \<le> m" "winv x"
    and bs: "buffer_ok bs" "buffer_view bs \<noteq> []"
  shows "\<exists>y. tries m (ac_writer_write acc bs) x = Some (Ok (), y)"
proof -
  note ow = resumable_writer.axioms(1)[OF flaky_writer.axioms(1)[OF w(1)]]
  have "\<exists>u y. tries m (ac_writer_write acc bs) x = Some (Ok u, y) \<and> True"
  proof (rule tries_reach[where P = winv and budget = budget])
    fix s assume s: "winv s"
    from flaky_writer.write_flaky[OF w(1) s bs] oio_writer.write_Err[OF ow s bs]
    show "(\<exists>u s'. ac_writer_write acc bs s = Some (Ok u, s') \<and> True) \<or>
        (\<exists>e s'. ac_writer_write acc bs s = Some (Err e, s') \<and> is_temporary e \<and> winv s' \<and> budget s' < budget s)"
      using writer_ops_back(1)[of acc s bs] by (metis res.distinct(3) res.distinct(5))
  qed (use w flaky_writer.budget_le[OF w(1,3)] in auto)
  then show ?thesis by simp
qed

lemma tries_close_total:
  assumes w: "flaky_writer (writer_ops acc) winv writes stored budget n" "n \<le> m" "winv x"
  shows "\<exists>md y. tries m (ac_writer_close acc) x = Some (Ok md, y) \<and>
    metadata_content_length md = of_nat (length (concat (writes x)))"
proof (rule tries_reach[where P = "\<lambda>s. winv s \<and> writes s = writes x" and budget = budget])
  fix s assume s: "winv s \<and> writes s = writes x"
  from flaky_writer.close_flaky[OF w(1), of s] resumable_writer.close_temporary[OF flaky_writer.axioms(1)[OF w(1)], of s] s
  show "(\<exists>md s'. ac_writer_close acc s = Some (Ok md, s') \<and> metadata_content_length md = of_nat (length (concat (writes x)))) \<or>
      (\<exists>e s'. ac_writer_close acc s = Some (Err e, s') \<and> is_temporary e \<and> (winv s' \<and> writes s' = writes x) \<and> budget s' < budget s)"
    using writer_ops_back(2)[of acc s] by (metis res.distinct(3) res.distinct(5))
qed (use w flaky_writer.budget_le[OF w(1,3)] in auto)

text \<open>A writer that fails temporarily at most \<open>n\<close> times in a row does not fail under at least \<open>n\<close> repetitions.\<close>

lemma retry_reliable_writer:
  assumes w: "flaky_writer (writer_ops acc) winv writes stored budget n" and b: "backon_ok m b" "n \<le> m"
  shows "reliable_writer (writer_ops (retry_layer b acc)) (retry_winv winv) (retry_writes writes) (retry_stored stored)"
proof (intro reliable_writer.intro reliable_writer_axioms.intro)
  let ?ops = "writer_ops (retry_layer b acc)"
  fix x bs assume "retry_winv winv x"
  then obtain i s where i: "x = (\<lparr>rw_inner = Some i\<rparr>, s)" "winv (i, s)" by (auto simp: retry_winv_def)
  show "\<exists>y. w_write ?ops x bs = (Ok (), y)" if bs: "buffer_ok bs" "buffer_view bs \<noteq> []"
  proof -
    from tries_write_total[OF w b(2) i(2) bs] obtain y where "ac_writer_write (retry_layer b acc) bs x = Some (Ok (), y)"
      by (auto simp: i(1) retry_writer_eq[OF b(1)])
    from writer_ops_outcome(1)[OF this] show ?thesis ..
  qed
  show "\<exists>md y. w_close ?ops x = (Ok md, y) \<and> metadata_content_length md = of_nat (length (concat (retry_writes writes x)))"
  proof -
    from tries_close_total[OF w b(2) i(2)] obtain md y where
      "ac_writer_close (retry_layer b acc) x = Some (Ok md, y)" "metadata_content_length md = of_nat (length (concat (writes (i, s))))"
      by (auto simp: i(1) retry_writer_eq[OF b(1)])
    from writer_ops_outcome(2)[OF this(1)] this(2) show ?thesis by (auto simp: i(1) retry_writes_def)
  qed
qed (rule retry_oio_writer[OF flaky_writer.axioms(1)[OF w] b(1)])

end
