(* ===== verification/Chaos_Layer.thy ===== *)
theory Chaos_Layer
  imports Retry_Layer Memory_Operator
begin

text \<open>
  \<open>ChaosLayer\<close> (\<open>core/layers/chaos/src/lib.rs\<close>), which lets reads fail at random, and its composition with
  \<open>RetryLayer\<close>.

  The generator of \<open>rand\<close> is not part of the sources: its state and the function \<open>draw\<close>, which returns a point of
  \<open>0..100\<close>, are parameters.  The generator is shared by all readers, so its state is part of the state of the
  service.  The layer keeps \<open>error_ratio\<close> only to compute \<open>(error_ratio * 100.0) as u32\<close>; this number is
  the parameter \<open>points\<close>, as floating-point numbers are not modelled.
\<close>

section \<open>Methods next to the generator\<close>

definition io_fst :: "('s, 'a) io \<Rightarrow> ('s \<times> 'g, 'a) io" where
  "io_fst m = (\<lambda>(s, g). map_option (\<lambda>(r, s1). (r, s1, g)) (m s))"

definition io_obj_fst :: "('o \<times> 's, 'a) io \<Rightarrow> ('o \<times> 's \<times> 'g, 'a) io" where
  "io_obj_fst m = (\<lambda>(ob, s, g). map_option (\<lambda>(r, ob1, s1). (r, ob1, s1, g)) (m (ob, s)))"

section \<open>ChaosReader\<close>

record 'r chaos_reader =
  chr_inner :: 'r

definition chaos_reader_new :: "'r \<Rightarrow> 'r chaos_reader" where
  "chaos_reader_new inner = \<lparr>chr_inner = inner\<rparr>"

definition i_feel_lucky :: "('g \<Rightarrow> 32 word \<times> 'g) \<Rightarrow> 32 word \<Rightarrow> 'g \<Rightarrow> bool \<times> 'g" where
  "i_feel_lucky draw points g = (case draw g of (point, g1) \<Rightarrow> (points \<le> point, g1))"

definition unexpected_eof :: error where
  "unexpected_eof = set_temporary (with_operation ''chaos'' (error_new Unexpected ''I am your chaos!''))"

definition chaos_reader_read ::
  "('g \<Rightarrow> 32 word \<times> 'g) \<Rightarrow> 32 word \<Rightarrow> ('r \<times> 's, buffer) io \<Rightarrow> ('r chaos_reader \<times> 's \<times> 'g, buffer) io" where
  "chaos_reader_read draw points inner = (\<lambda>(r, s, g).
     case i_feel_lucky draw points g of
       (lucky, g1) \<Rightarrow>
         if lucky then io_on chr_inner (\<lambda>i r. r\<lparr>chr_inner := i\<rparr>) (io_obj_fst inner) (r, s, g1)
         else Some (Err unexpected_eof, r, s, g1))"

section \<open>ChaosAccessor\<close>

definition chaos_layer ::
  "('g \<Rightarrow> 32 word \<times> 'g) \<Rightarrow> 32 word \<Rightarrow> ('s, 'r, 'w, 'l, 'd, 'c) accessor \<Rightarrow>
     ('s \<times> 'g, 'r chaos_reader, 'w, 'l, 'd, 'c) accessor" where
  "chaos_layer draw points acc =
     \<lparr>ac_info = ac_info acc,
      ac_create_dir = (\<lambda>path. io_fst (ac_create_dir acc path)),
      ac_stat = (\<lambda>path args. io_fst (ac_stat acc path args)),
      ac_read = (\<lambda>path args. io_fst (io_map (\<lambda>(rp, r). (rp, chaos_reader_new r)) (ac_read acc path args))),
      ac_write = (\<lambda>path args. io_fst (ac_write acc path args)),
      ac_delete = io_fst (ac_delete acc),
      ac_list = (\<lambda>path args. io_fst (ac_list acc path args)),
      ac_copy = (\<lambda>from to args opts. io_fst (ac_copy acc from to args opts)),
      ac_rename = (\<lambda>from to. io_fst (ac_rename acc from to)),
      ac_reader_read = chaos_reader_read draw points (ac_reader_read acc),
      ac_writer_write = (\<lambda>bs. io_obj_fst (ac_writer_write acc bs)),
      ac_writer_close = io_obj_fst (ac_writer_close acc),
      ac_writer_abort = io_obj_fst (ac_writer_abort acc),
      ac_lister_next = io_obj_fst (ac_lister_next acc),
      ac_deleter_delete = (\<lambda>path args. io_obj_fst (ac_deleter_delete acc path args)),
      ac_deleter_close = io_obj_fst (ac_deleter_close acc),
      ac_copier = \<lparr>c_next = io_obj_fst (c_next (ac_copier acc)), c_close = io_obj_fst (c_close (ac_copier acc)),
        c_abort = io_obj_fst (c_abort (ac_copier acc))\<rparr>\<rparr>"

section \<open>Runs of bad luck\<close>

text \<open>
  The state of the generator after \<open>k\<close> draws, and that from a state on no more than \<open>n\<close> draws in a
  row are unlucky.
\<close>

definition after_draws :: "('g \<Rightarrow> 32 word \<times> 'g) \<Rightarrow> nat \<Rightarrow> 'g \<Rightarrow> 'g" where
  "after_draws draw k = (snd \<circ> draw) ^^ k"

definition lucky_at :: "('g \<Rightarrow> 32 word \<times> 'g) \<Rightarrow> 32 word \<Rightarrow> 'g \<Rightarrow> nat \<Rightarrow> bool" where
  "lucky_at draw points g k \<longleftrightarrow> points \<le> fst (draw (after_draws draw k g))"

definition bad_luck_at_most :: "nat \<Rightarrow> ('g \<Rightarrow> 32 word \<times> 'g) \<Rightarrow> 32 word \<Rightarrow> 'g \<Rightarrow> bool" where
  "bad_luck_at_most n draw points g \<longleftrightarrow> (\<forall>k. \<exists>j\<le>n. lucky_at draw points g (k + j))"

definition bad_luck :: "('g \<Rightarrow> 32 word \<times> 'g) \<Rightarrow> 32 word \<Rightarrow> 'g \<Rightarrow> nat" where
  "bad_luck draw points g = (LEAST j. lucky_at draw points g j)"

lemma lucky_at_Suc: "lucky_at draw points g (Suc k) \<longleftrightarrow> lucky_at draw points (snd (draw g)) k"
  by (simp add: lucky_at_def after_draws_def funpow_swap1)

lemma bad_luck_at_most_step: "bad_luck_at_most n draw points g \<Longrightarrow> bad_luck_at_most n draw points (snd (draw g))"
  unfolding bad_luck_at_most_def by (metis add_Suc lucky_at_Suc)

lemma bad_luck_le: "bad_luck_at_most n draw points g \<Longrightarrow> bad_luck draw points g \<le> n"
  unfolding bad_luck_at_most_def bad_luck_def by (metis Least_le add_0 le_trans)

lemma bad_luck_step:
  assumes "bad_luck_at_most n draw points g" "\<not> points \<le> fst (draw g)"
  shows "bad_luck draw points (snd (draw g)) < bad_luck draw points g"
proof -
  from assms(1) have "lucky_at draw points g (bad_luck draw points g)"
    unfolding bad_luck_at_most_def bad_luck_def by (metis LeastI add_0)
  moreover have "\<not> lucky_at draw points g 0" using assms(2) by (simp add: lucky_at_def after_draws_def)
  ultimately obtain k where k: "bad_luck draw points g = Suc k" "lucky_at draw points (snd (draw g)) k"
    by (metis lucky_at_Suc not0_implies_Suc)
  then show ?thesis unfolding bad_luck_def[of _ _ "snd (draw g)"] by (metis Least_le le_imp_less_Suc)
qed

section \<open>Reads that leave the service as it is\<close>

definition reads_keep :: "('s \<Rightarrow> bool) \<Rightarrow> str \<Rightarrow> ('s, 'r, 'w, 'l, 'd, 'c) accessor \<Rightarrow> bool" where
  "reads_keep P path acc \<longleftrightarrow>
     (\<forall>args s q s'. P s \<longrightarrow> ac_read acc path args s = Some (q, s') \<longrightarrow> P s') \<and>
     (\<forall>args s q s'. P s \<longrightarrow> ac_stat acc path args s = Some (q, s') \<longrightarrow> P s') \<and>
     (\<forall>r s q r' s'. P s \<longrightarrow> ac_reader_read acc (r, s) = Some (q, r', s') \<longrightarrow> P s')"

lemma reads_keepI:
  assumes "\<And>args s q s'. P s \<Longrightarrow> ac_read acc path args s = Some (q, s') \<Longrightarrow> P s'"
    "\<And>args s q s'. P s \<Longrightarrow> ac_stat acc path args s = Some (q, s') \<Longrightarrow> P s'"
    "\<And>r s q r' s'. P s \<Longrightarrow> ac_reader_read acc (r, s) = Some (q, r', s') \<Longrightarrow> P s'"
  shows "reads_keep P path acc"
  unfolding reads_keep_def using assms by blast

lemma reads_keepD:
  assumes "reads_keep P path acc" "P s"
  shows "ac_read acc path args s = Some (q, s') \<Longrightarrow> P s'" "ac_stat acc path sargs s = Some (t, s') \<Longrightarrow> P s'"
    "ac_reader_read acc (r, s) = Some (u, r', s') \<Longrightarrow> P s'"
  using assms unfolding reads_keep_def by blast+

text \<open>A layer whose methods end in the states of the inner ones.\<close>

lemma reads_keep_wrap:
  assumes "reads_keep P path acc"
    "\<And>args s q s'. ac_read acc' path args s = Some (q, s') \<Longrightarrow> s' = s \<or> (\<exists>q. ac_read acc path args s = Some (q, s'))"
    "\<And>args s q s'. ac_stat acc' path args s = Some (q, s') \<Longrightarrow> s' = s \<or> (\<exists>q. ac_stat acc path args s = Some (q, s'))"
    "\<And>r s q r' s'. ac_reader_read acc' (r, s) = Some (q, r', s') \<Longrightarrow> \<exists>r q r'. ac_reader_read acc (r, s) = Some (q, r', s')"
  shows "reads_keep P path acc'"
proof (rule reads_keepI)
  show "P s'" if "P s" "ac_read acc' path args s = Some (q, s')" for args s q s'
    using assms(2)[OF that(2)] reads_keepD(1)[OF assms(1) that(1)] that(1) by blast
  show "P s'" if "P s" "ac_stat acc' path args s = Some (q, s')" for args s q s'
    using assms(3)[OF that(2)] reads_keepD(2)[OF assms(1) that(1)] that(1) by blast
  show "P s'" if "P s" "ac_reader_read acc' (r, s) = Some (q, r', s')" for r s q r' s'
    using assms(4)[OF that(2)] reads_keepD(3)[OF assms(1) that(1)] by blast
qed

lemma error_context_reads_keep: "reads_keep P path acc \<Longrightarrow> reads_keep P path (error_context_layer acc)"
  by (rule reads_keep_wrap)
    (auto simp: error_context_layer_def ec_read_def ec_stat_def ec_map_err_def ec_reader_read_def ec_call_def io_defs Let_def)

lemma simulate_reads_keep:
  "reads_keep P path acc \<Longrightarrow> \<not> ends_with_char path slash \<Longrightarrow> reads_keep P path (simulate_layer c acc)"
  by (rule reads_keep_wrap)
    (auto simp: simulate_layer_def simulate_stat_def io_ok_def Let_def split: if_splits)

lemma complete_reads_keep: "reads_keep P path acc \<Longrightarrow> reads_keep P path (complete_layer acc)"
  by (rule reads_keep_wrap)
    (auto simp: complete_layer_def complete_read_def io_map_def complete_reader_read_eq split: option.splits res.splits if_splits,
      blast+)

lemma correctness_reads_keep: "reads_keep P path acc \<Longrightarrow> reads_keep P path (correctness_layer acc)"
  by (rule reads_keep_wrap)
    (auto simp: correctness_layer_def correctness_read_def correctness_stat_def io_err_def Let_def split: if_splits)

lemma operator_new_reads_keep:
  "reads_keep P path acc \<Longrightarrow> \<not> ends_with_char path slash \<Longrightarrow> reads_keep P path (operator_new acc)"
  by (simp add: operator_new_def error_context_reads_keep simulate_reads_keep complete_reads_keep correctness_reads_keep)

lemma memory_reads_keep: "reads_keep P path (memory_accessor name root)"
  by (auto simp: reads_keep_def memory_accessor_def split: prod.splits)

section \<open>The layer makes a reliable service flaky\<close>

definition chaos_sinv :: "nat \<Rightarrow> ('g \<Rightarrow> 32 word \<times> 'g) \<Rightarrow> 32 word \<Rightarrow> ('s \<Rightarrow> bool) \<Rightarrow> 's \<times> 'g \<Rightarrow> bool" where
  "chaos_sinv n draw points sinv = (\<lambda>(s, g). sinv s \<and> bad_luck_at_most n draw points g)"

lemma chaos_read_eq:
  "ac_reader_read (chaos_layer draw points acc) (r, s, g) =
     (if points \<le> fst (draw g)
      then map_option (\<lambda>(q, i, s1). (q, \<lparr>chr_inner = i\<rparr>, s1, snd (draw g))) (ac_reader_read acc (chr_inner r, s))
      else Some (Err unexpected_eof, r, s, snd (draw g)))"
  by (cases r; cases "ac_reader_read acc (chr_inner r, s)")
    (auto simp: chaos_layer_def chaos_reader_read_def i_feel_lucky_def io_on_def io_obj_fst_def split_def)

lemma chaos_open_eq:
  "ac_read (chaos_layer draw points acc) path args (s, g) =
     map_option (\<lambda>(q, s1). (map_res (\<lambda>(rp, r). (rp, \<lparr>chr_inner = r\<rparr>)) q, s1, g)) (ac_read acc path args s)"
  "ac_stat (chaos_layer draw points acc) path sargs (s, g) = map_option (\<lambda>(q, s1). (q, s1, g)) (ac_stat acc path sargs s)"
  by (cases "ac_read acc path args s"; cases "ac_stat acc path sargs s";
      auto simp: chaos_layer_def io_fst_def io_map_def chaos_reader_new_def)+

lemma chaos_object_reader:
  assumes "object_reader (reader_ops acc) path content sinv rinv rest"
  shows "object_reader (reader_ops (chaos_layer draw points acc)) path content (chaos_sinv n draw points sinv)
    (\<lambda>r. rinv (chr_inner r)) (\<lambda>r. rest (chr_inner r))"
proof
  let ?acc = "chaos_layer draw points acc" and ?sinv = "chaos_sinv n draw points sinv"
  fix x args rp r x' b r' sargs m
  assume x: "?sinv x"
  obtain s g where sg: "x = (s, g)" by (cases x)
  then have s: "sinv s" "bad_luck_at_most n draw points g" using x by (auto simp: chaos_sinv_def)
  show "?sinv x' \<and> rinv (chr_inner r) \<and> rest (chr_inner r) = requested (ord_range args) content"
    if "rop_open (reader_ops ?acc) path args x = (Ok (rp, r), x')"
  proof -
    from reader_ops_back(1)[OF that] obtain s1 where
      "ac_read acc path args s = Some (Ok (rp, chr_inner r), s1)" "x' = (s1, g)" by (auto simp: sg chaos_open_eq)
    with object_reader.open_ok[OF assms s(1)] reader_ops_outcome(1) s(2) show ?thesis
      by (fastforce simp: chaos_sinv_def)
  qed
  show "?sinv x' \<and> metadata_content_length m = of_nat (length content)"
    if "rop_stat (reader_ops ?acc) path sargs x = (Ok m, x')"
  proof -
    from reader_ops_back(2)[OF that] obtain s1 where
      "ac_stat acc path sargs s = Some (Ok m, s1)" "x' = (s1, g)" by (auto simp: sg chaos_open_eq)
    with object_reader.stat_ok[OF assms s(1)] reader_ops_outcome(2) s(2) show ?thesis
      by (fastforce simp: chaos_sinv_def)
  qed
  show "?sinv x' \<and> rinv (chr_inner r') \<and> buffer_ok b \<and> rest (chr_inner r) = buffer_view b @ rest (chr_inner r') \<and>
      (buffer_view b = [] \<longrightarrow> rest (chr_inner r) = [])"
    if r: "rinv (chr_inner r)" and rd: "rop_read (reader_ops ?acc) r x = (Ok b, r', x')"
  proof -
    from reader_ops_back(3)[OF rd] obtain s1 where
      "ac_reader_read acc (chr_inner r, s) = Some (Ok b, chr_inner r', s1)" "x' = (s1, snd (draw g))"
      by (auto simp: sg chaos_read_eq split: if_splits)
    with object_reader.read_ok[OF assms s(1) r] reader_ops_outcome(3) bad_luck_at_most_step[OF s(2)] show ?thesis
      by (fastforce simp: chaos_sinv_def)
  qed
  show "length content < 2 ^ 64" using object_reader.content_len[OF assms s(1)] .
qed

lemma chaos_steady_reader:
  assumes "object_reader (reader_ops acc) path content sinv rinv rest" "reads_keep sinv path acc"
  shows "steady_reader (reader_ops (chaos_layer draw points acc)) path content (chaos_sinv n draw points sinv)
    (\<lambda>r. rinv (chr_inner r)) (\<lambda>r. rest (chr_inner r))"
proof (intro steady_reader.intro steady_reader_axioms.intro chaos_object_reader[OF assms(1)])
  let ?acc = "chaos_layer draw points acc" and ?sinv = "chaos_sinv n draw points sinv"
  fix x args e x' r r' sargs
  assume x: "?sinv x"
  obtain s g where sg: "x = (s, g)" by (cases x)
  then have s: "sinv s" "bad_luck_at_most n draw points g" using x by (auto simp: chaos_sinv_def)
  show "?sinv x'" if "rop_open (reader_ops ?acc) path args x = (Err e, x')"
    using reader_ops_back(1)[OF that] reads_keepD(1)[OF assms(2) s(1)] s(2) by (auto simp: sg chaos_open_eq chaos_sinv_def)
  show "?sinv x'" if "rop_stat (reader_ops ?acc) path sargs x = (Err e, x')"
    using reader_ops_back(2)[OF that] reads_keepD(2)[OF assms(2) s(1)] s(2) by (auto simp: sg chaos_open_eq chaos_sinv_def)
  show "?sinv x'" if "rop_read (reader_ops ?acc) r x = (Err e, r', x')"
    using reader_ops_back(3)[OF that] reads_keepD(3)[OF assms(2) s(1)] s bad_luck_at_most_step[OF s(2)]
    by (auto simp: sg chaos_read_eq chaos_sinv_def split: if_splits)
qed

lemma chaos_flaky_reader:
  assumes rr: "reliable_reader (reader_ops acc) path content sinv rinv rest good rgood" and keep: "reads_keep sinv path acc"
    and adv: "\<And>args k rng. good args \<Longrightarrow> k \<le> length (requested (ord_range args) content) \<Longrightarrow>
      br_advance (ord_range args) (of_nat k) = Some rng \<Longrightarrow> good (ord_with_range rng args)"
  shows "flaky_reader (reader_ops (chaos_layer draw points acc)) path content (chaos_sinv n draw points sinv)
    (\<lambda>r. rinv (chr_inner r)) (\<lambda>r. rest (chr_inner r)) good (\<lambda>r. rgood (chr_inner r)) (\<lambda>(s, g). bad_luck draw points g) n"
proof (intro flaky_reader.intro flaky_reader_axioms.intro chaos_steady_reader[OF reliable_reader.axioms(1)[OF rr] keep] adv)
  let ?acc = "chaos_layer draw points acc" and ?budget = "\<lambda>(s, g). bad_luck draw points g"
  fix x args r
  assume x: "chaos_sinv n draw points sinv x"
  obtain s g where sg: "x = (s, g)" by (cases x)
  then have s: "sinv s" "bad_luck_at_most n draw points g" using x by (auto simp: chaos_sinv_def)
  show "?budget x \<le> n" using bad_luck_le[OF s(2)] by (simp add: sg)
  show "(\<exists>rp r x'. rop_open (reader_ops ?acc) path args x = (Ok (rp, r), x') \<and> rgood (chr_inner r) \<and> ?budget x' \<le> ?budget x) \<or>
      (\<exists>e x'. rop_open (reader_ops ?acc) path args x = (Err e, x') \<and> is_temporary e \<and> ?budget x' < ?budget x)"
    if g: "good args"
  proof -
    from reliable_reader.open_total[OF rr s(1) g] obtain rp i s1 where
      "rop_open (reader_ops acc) path args s = (Ok (rp, i), s1)" "rgood i" by blast
    then have "ac_read ?acc path args x = Some (Ok (rp, \<lparr>chr_inner = i\<rparr>), s1, snd x)"
      using reader_ops_back(1) by (fastforce simp: sg chaos_open_eq)
    from reader_ops_outcome(1)[OF this] \<open>rgood i\<close> show ?thesis by (simp add: sg)
  qed
  show "(\<exists>m x'. rop_stat (reader_ops ?acc) path (reader_stat_op args) x = (Ok m, x')) \<or>
      (\<exists>e x'. rop_stat (reader_ops ?acc) path (reader_stat_op args) x = (Err e, x') \<and> is_temporary e \<and> ?budget x' < ?budget x)"
    if g: "good args"
  proof -
    from reliable_reader.stat_total[OF rr s(1) g] obtain m s1 where
      "rop_stat (reader_ops acc) path (reader_stat_op args) s = (Ok m, s1)" by blast
    then have "ac_stat ?acc path (reader_stat_op args) x = Some (Ok m, s1, snd x)"
      using reader_ops_back(2) by (fastforce simp: sg chaos_open_eq)
    from reader_ops_outcome(2)[OF this] show ?thesis by simp
  qed
  show "(\<exists>b r' x'. rop_read (reader_ops ?acc) r x = (Ok b, r', x') \<and> rgood (chr_inner r')) \<or>
      (\<exists>e r' x'. rop_read (reader_ops ?acc) r x = (Err e, r', x') \<and> is_temporary e \<and> ?budget x' < ?budget x)"
    if r: "rinv (chr_inner r)" "rgood (chr_inner r)"
  proof (cases "points \<le> fst (draw g)")
    case True
    from reliable_reader.read_total[OF rr s(1) r] obtain b i s1 where
      "rop_read (reader_ops acc) (chr_inner r) s = (Ok b, i, s1)" "rgood i" by blast
    then have "ac_reader_read ?acc (r, x) = Some (Ok b, \<lparr>chr_inner = i\<rparr>, s1, snd (draw g))"
      using reader_ops_back(3)[of acc "chr_inner r" s] True by (simp add: sg chaos_read_eq)
    from reader_ops_outcome(3)[OF this] \<open>rgood i\<close> show ?thesis by simp
  next
    case False
    then have "ac_reader_read ?acc (r, x) = Some (Err unexpected_eof, r, s, snd (draw g))" by (simp add: sg chaos_read_eq)
    from reader_ops_outcome(3)[OF this] bad_luck_step[OF s(2) False] show ?thesis by (simp add: sg unexpected_eof_def)
  qed
qed

lemma stack_good_advance:
  assumes g: "stack_good cap content (\<lambda>args. True) args" and k: "k \<le> length (requested (ord_range args) content)"
    and rng: "br_advance (ord_range args) (of_nat k) = Some rng" and len: "length content < 2 ^ 64"
  shows "stack_good cap content (\<lambda>args. True) (ord_with_range rng args)"
proof -
  have "length (requested (ord_range args) content) \<le> length content" by (auto simp: requested_def split: option.splits)
  with k len have "k < 2 ^ 64" by simp
  note left = br_advance_requested[OF rng this, of content]
  have "of_nat (length (requested rng content)) = n" if n: "br_size rng = Some n" for n
  proof -
    from rng n obtain m where m: "br_size (ord_range args) = Some m" "n = m - of_nat k"
      by (auto simp: br_advance_def checked_sub_u64_def split: option.splits if_splits)
    have "of_nat (length (requested (ord_range args) content)) = m"
      using g m(1) by (simp add: stack_good_def correctness_good_def complete_good_def)
    then show ?thesis using k by (auto simp: left m(2) of_nat_diff)
  qed
  then show ?thesis using g
    by (simp add: stack_good_def correctness_good_def complete_good_def ord_with_range_def read_needs_list reader_stat_op_def)
qed

section \<open>Properties\<close>

text \<open>
  C5: Retrying masks chaos.  An operator over the memory service with the default layers, \<open>ChaosLayer\<close> and on top of
  it \<open>RetryLayer\<close> reads exactly the requested bytes of the stored object, for every range within the object, whole or in
  chunks of a size other than zero, as long as never more draws in a row are unlucky than the layer has retries.  The
  tasks of a read in chunks run the code of \<open>ChunkedReader::new\<close> over the same layers, each from any state of the
  generator with that bound.
\<close>

theorem retry_masks_chaos:
  assumes "memory_holds root (normalize_path path) content s" "\<not> ends_with_char (normalize_path path) slash"
    "supported (read_needs memory_capability (fst (op_read_from opts)))"
    "\<forall>n. br_size (ro_range opts) = Some n \<longrightarrow> unat (br_offset (ro_range opts)) + unat n \<le> length content"
    "\<forall>ch. ro_chunk opts = Some ch \<longrightarrow> 0 < ch \<and> ch \<le> usize_max" "ro_content_length_hint opts = None"
    "backon_ok m b" "bad_luck_at_most m draw points g"
    "chunked_runs (reader_ops (retry_layer b (chaos_layer draw points (operator_new (memory_accessor name root)))))
       (operator_read_context path opts)
       (\<lambda>(s', g'). memory_holds root (normalize_path path) content s' \<and> bad_luck_at_most m draw points g') env"
  shows "\<exists>bs s'. operator_read (retry_layer b (chaos_layer draw points (operator_new (memory_accessor name root)))) env path opts
      (s, g) = Some (Ok bs, s') \<and> buffer_view bs = requested (ro_range opts) content"
proof -
  let ?acc = "operator_new (memory_accessor name root)" and ?p = "normalize_path path"
  let ?good = "stack_good (ai_full_capability (ac_info ?acc)) content (\<lambda>args. True)"
  have len: "length content < 2 ^ 64" using assms(1) by (simp add: memory_holds_def)
  obtain args ropts where o: "op_read_from opts = (args, ropts)" by force
  note ready = memory_read_ready[OF assms(1,3-6) o]
  note flaky = chaos_flaky_reader[where draw = draw and points = points and n = m,
      OF memory_stack_reader[OF assms(2), of name root content]
      operator_new_reads_keep[OF memory_reads_keep assms(2)] stack_good_advance[OF _ _ _ len]]
  note rr = flaky_reader.retry_reliable_reader[OF flaky refl assms(7) order_refl]
  have sinv: "chaos_sinv m draw points (memory_holds root ?p content) = (\<lambda>(s', g'). memory_holds root ?p content s' \<and> bad_luck_at_most m draw points g')"
    by (auto simp: chaos_sinv_def fun_eq_iff)
  have "chaos_sinv m draw points (memory_holds root ?p content) (s, g)" using assms(1,8) by (simp add: sinv)
  from operator_read_reliable[OF rr this refl assms(2) o ready(1-3) memory_read_parts[OF assms(1,3-6) o] assms(9)[folded sinv]] ready(4)
  show ?thesis by simp
qed

definition backon_tries :: "nat \<Rightarrow> ('s, 'r, 'w, 'l, 'd, 'c) backon" where
  "backon_tries n =
     \<lparr>bo_unit = tries n, bo_stat = tries n, bo_read = tries n, bo_write = tries n, bo_delete = tries n, bo_list = tries n,
      bo_copy = tries n, bo_reader = tries n, bo_writer = tries n, bo_writer_close = tries n, bo_lister = tries n,
      bo_deleter = tries n, bo_copier = tries n, bo_copier_close = tries n, bo_copier_abort = tries n\<rparr>"

lemma backon_tries_ok: "backon_ok n (backon_tries n)"
  by (simp add: backon_ok_def backon_tries_def)

text \<open>A generator that is unlucky every other time.\<close>

definition alternating :: "bool \<Rightarrow> 32 word \<times> bool" where
  "alternating g = (if g then 99 else 0, \<not> g)"

lemma alternating_bad_luck: "bad_luck_at_most 1 alternating 50 g"
proof -
  have "lucky_at alternating 50 g k \<or> lucky_at alternating 50 g (k + 1)" for k
    by (cases "after_draws alternating k g") (simp_all add: lucky_at_def after_draws_def alternating_def)
  then show ?thesis unfolding bad_luck_at_most_def by (metis add.right_neutral le_numeral_extra(3,4) zero_le_one)
qed

theorem retry_masks_chaos_witness:
  "let acc = retry_layer (backon_tries 1) (chaos_layer alternating 50 (operator_new (memory_accessor [] ''/'')));
       s = ([(''f'', \<lparr>mv_metadata = md_with_content_length 3 (metadata_new FILE), mv_content = buffer_from_bytes [1, 2, 3]\<rparr>)], False)
   in \<exists>bs s'. operator_read acc (chunk_env_at (reader_ops acc) (operator_read_context ''//f'' example_read_options) s)
        ''//f'' example_read_options s = Some (Ok bs, s') \<and> buffer_view bs = [2, 3]"
proof -
  let ?data = "[(''f'', \<lparr>mv_metadata = md_with_content_length 3 (metadata_new FILE), mv_content = buffer_from_bytes [1, 2, 3]\<rparr>)]"
  have req: "requested (ro_range example_read_options) [1, 2, 3] = [2, 3]"
    by (simp add: example_read_options_def requested_def)
  have holds: "memory_holds ''/'' (normalize_path ''//f'') [1, 2, 3] ?data"
    using example_store_ok(1) example_path
    by (simp add: memory_holds_def memory_get_def md_with_content_length_def metadata_content_length_def)
  have sup: "supported (read_needs memory_capability (fst (op_read_from example_read_options)))"
    by (simp add: supported_def read_needs_list op_read_from_def example_read_options_def read_options_default_def)
  have opts: "\<forall>n. br_size (ro_range example_read_options) = Some n \<longrightarrow>
       unat (br_offset (ro_range example_read_options)) + unat n \<le> length [1, 2, 3 :: 8 word]"
    "\<forall>ch. ro_chunk example_read_options = Some ch \<longrightarrow> 0 < ch \<and> ch \<le> usize_max" "ro_content_length_hint example_read_options = None"
    by (simp_all add: example_read_options_def read_options_default_def usize_max_def)
  have dir: "\<not> ends_with_char (normalize_path ''//f'') slash" using example_path by simp
  let ?P = "\<lambda>(s', g'). memory_holds ''/'' (normalize_path ''//f'') [1, 2, 3] s' \<and> bad_luck_at_most 1 alternating 50 g'"
  have st: "?P (?data, False)" using holds alternating_bad_luck by simp
  from retry_masks_chaos[OF holds dir sup opts backon_tries_ok alternating_bad_luck chunked_runs_at[where P = ?P and s = "(?data, False)", OF st], where name = "[]"]
  show ?thesis unfolding req Let_def .
qed

end
