(* ===== verification/Task_Copiers.thy ===== *)
theory Task_Copiers
  imports Copiers Task_Writers Read_Context
begin

text \<open>
  The two copiers that copy in background tasks (\<open>core/core/src/raw/oio/copy\<close>): \<open>MultipartCopier\<close>
  (\<open>multipart_copy.rs\<close>) and \<open>BlockCopier\<close> (\<open>block_copy.rs\<close>).  Both cut the source into ranges of a fixed size, hand
  them to a \<open>ConcurrentTasks\<close> queue (theory Concurrent\_Tasks) and complete the copy when every range is done.

  The fields they share are the record \<open>copy_state\<close>, which each of the two extends.  The methods of the service
  that are called in the foreground are asynchronous methods on its state.  The outcomes of the tasks are an argument:
  \<open>run k i\<close> is what the task for the input \<open>i\<close> resolves to if it is awaited as the \<open>k\<close>-th; the field
  \<open>cs_awaits\<close> counts, and is not part of the code.  \<open>Uuid::new_v4\<close> is a function of that counter.
\<close>

section \<open>What the copiers share\<close>

record ('i, 'o) copy_state =
  cs_next_number :: usize
  cs_next_offset :: u64
  cs_source_size :: "u64 option"
  cs_copy_once_threshold :: u64
  cs_part_size :: u64
  cs_concurrent :: nat
  cs_completed :: bool
  cs_metadata :: "metadata option"
  cs_tasks :: "('i, 'o) concurrent_tasks"
  cs_awaits :: nat

text \<open>\<open>source_size\<close>.\<close>

definition copy_source_size :: "('s, metadata) io \<Rightarrow> (('i, 'o, 'z) copy_state_scheme \<times> 's, u64) io" where
  "copy_source_size source_metadata = io_with (\<lambda>c.
     case cs_source_size c of
       Some n \<Rightarrow> io_ok n
     | None \<Rightarrow>
         io_bind (io_lift source_metadata) (\<lambda>m.
         io_bind (io_update (\<lambda>c. c\<lparr>cs_source_size := Some (metadata_content_length m)\<rparr>)) (\<lambda>_.
         io_ok (metadata_content_length m))))"

text \<open>The loop in \<open>fill_tasks\<close> that submits one input until it is accepted.\<close>

definition copy_awaited ::
  "('i, 'o) concurrent_tasks \<Rightarrow> ('i, 'o, 'z) copy_state_scheme \<Rightarrow> ('i, 'o, 'z) copy_state_scheme" where
  "copy_awaited t c = c\<lparr>cs_tasks := t, cs_awaits := Suc (cs_awaits c)\<rparr>"

partial_function (option) copy_execute ::
  "(nat \<Rightarrow> 'i \<Rightarrow> error + 'o) \<Rightarrow> 'i \<Rightarrow> ('i, 'o, 'z) copy_state_scheme \<Rightarrow>
     (unit res \<times> ('i, 'o, 'z) copy_state_scheme) option" where
  "copy_execute run input c =
     (case ct_execute (run (cs_awaits c)) input (cs_tasks c) of
        (Ok _, t) \<Rightarrow> Some (Ok (), copy_awaited t c)
      | (Err e, t) \<Rightarrow>
          if is_temporary e then copy_execute run input (copy_awaited t c) else Some (Err e, copy_awaited t c)
      | (Panic, t) \<Rightarrow> Some (Panic, copy_awaited t c))"

text \<open>
  \<open>fill_tasks\<close>: \<open>mk\<close> builds the input of the next range, and \<open>note_input\<close> records an input that was accepted.
\<close>

partial_function (option) copy_fill ::
  "(nat \<Rightarrow> 'i \<Rightarrow> error + 'o) \<Rightarrow> (('i, 'o, 'z) copy_state_scheme \<Rightarrow> bytes_range \<Rightarrow> 'i) \<Rightarrow>
     ('i \<Rightarrow> ('i, 'o, 'z) copy_state_scheme \<Rightarrow> ('i, 'o, 'z) copy_state_scheme) \<Rightarrow> u64 \<Rightarrow> nat \<Rightarrow>
     ('i, 'o, 'z) copy_state_scheme \<Rightarrow> (unit res \<times> ('i, 'o, 'z) copy_state_scheme) option" where
  "copy_fill run mk note_input src_size scheduled c =
     (if cs_next_offset c < src_size \<and> ct_has_remaining (cs_tasks c) \<and> scheduled < cs_concurrent c
      then let n = min (cs_part_size c) (src_size - cs_next_offset c);
               input = mk c (BytesRange (cs_next_offset c) (Some n))
           in case copy_execute run input c of
                None \<Rightarrow> None
              | Some (Ok _, c1) \<Rightarrow>
                  let c2 = (note_input input c1)\<lparr>cs_next_offset := cs_next_offset c1 + n, cs_next_number := cs_next_number c1 + 1\<rparr>
                  in if ct_has_result (cs_tasks c2) then Some (Ok (), c2)
                     else copy_fill run mk note_input src_size (scheduled + 1) c2
              | Some (Err e, c1) \<Rightarrow> Some (Err e, c1)
              | Some (Panic, c1) \<Rightarrow> Some (Panic, c1)
      else Some (Ok (), c))"

text \<open>The loop in \<open>next\<close> that awaits the next result; \<open>None\<close> if there is none left.\<close>

partial_function (option) copy_collect ::
  "(nat \<Rightarrow> 'i \<Rightarrow> error + 'o) \<Rightarrow> ('i, 'o, 'z) copy_state_scheme \<Rightarrow>
     ('o option res \<times> ('i, 'o, 'z) copy_state_scheme) option" where
  "copy_collect run c =
     (case ct_next (run (cs_awaits c)) (cs_tasks c) of
        (Some (Ok r), t) \<Rightarrow> Some (Ok (Some r), copy_awaited t c)
      | (Some (Err e), t) \<Rightarrow>
          if is_temporary e then copy_collect run (copy_awaited t c) else Some (Err e, copy_awaited t c)
      | (Some Panic, t) \<Rightarrow> Some (Panic, copy_awaited t c)
      | (None, t) \<Rightarrow> Some (Ok None, copy_awaited t c))"

text \<open>A method of the copier that does not touch the service.\<close>

definition io_copier :: "('c \<Rightarrow> ('a res \<times> 'c) option) \<Rightarrow> ('c \<times> 's, 'a) io" where
  "io_copier f = (\<lambda>(c, s). map_option (\<lambda>(r, c1). (r, c1, s)) (f c))"

text \<open>The end of a copy: its metadata is kept, and \<open>next\<close> returns \<open>None\<close>.\<close>

definition copy_complete :: "('s, metadata) io \<Rightarrow> (('i, 'o, 'z) copy_state_scheme \<times> 's, usize option) io" where
  "copy_complete m =
     io_bind (io_lift m) (\<lambda>m.
     io_bind (io_update (\<lambda>c. c\<lparr>cs_metadata := Some m, cs_completed := True\<rparr>)) (\<lambda>_.
     io_ok None))"

text \<open>\<open>close\<close>: \<open>next\<close> until the copy is completed.\<close>

partial_function (option) copy_close_loop ::
  "(('i, 'o, 'z) copy_state_scheme \<times> 's, usize option) io \<Rightarrow> ('i, 'o, 'z) copy_state_scheme \<Rightarrow> 's \<Rightarrow>
     (metadata res \<times> ('i, 'o, 'z) copy_state_scheme \<times> 's) option" where
  "copy_close_loop next_step c s =
     (if cs_completed c
      then Some (Ok (case cs_metadata c of Some m \<Rightarrow> m | None \<Rightarrow> metadata_default), c, s)
      else case next_step (c, s) of
        None \<Rightarrow> None
      | Some (Ok _, c1, s1) \<Rightarrow> copy_close_loop next_step c1 s1
      | Some (Err e, c1, s1) \<Rightarrow> Some (Err e, c1, s1)
      | Some (Panic, c1, s1) \<Rightarrow> Some (Panic, c1, s1))"

section \<open>MultipartCopier\<close>

record 's multipart_copy =
  mcs_source_metadata :: "('s, metadata) io"
  mcs_copy_once :: "('s, metadata) io"
  mcs_initiate_copy :: "('s, str) io"
  mcs_complete_copy :: "str \<Rightarrow> multipart_part list \<Rightarrow> ('s, metadata) io"
  mcs_abort_copy :: "str \<Rightarrow> ('s, unit) io"

record mcopy_input =
  mci_upload_id :: str
  mci_part_number :: usize
  mci_range :: bytes_range

record copied_part =
  cpd_part :: multipart_part
  cpd_size :: u64

record multipart_copier = "(mcopy_input, copied_part) copy_state" +
  mcp_full_capability :: capability
  mcp_upload_id :: "str option"
  mcp_parts :: "multipart_part list"

text \<open>The future of the factory; \<open>None\<close> is the panic on a range without a size.\<close>

definition mcopy_task ::
  "(str \<Rightarrow> usize \<Rightarrow> bytes_range \<Rightarrow> error + multipart_part) \<Rightarrow> (mcopy_input \<Rightarrow> bool) \<Rightarrow> mcopy_input \<Rightarrow>
     (error + copied_part) option" where
  "mcopy_task copy_part timed_out i =
     map_option (\<lambda>n.
       if timed_out i then
         Inl (set_temporary
                (with_context ''part_number'' (show_nat (mci_part_number i))
                  (with_context ''upload_id'' (mci_upload_id i)
                    (error_new Unexpected ''copy part timeout''))))
       else map_sum id (\<lambda>p. \<lparr>cpd_part = p, cpd_size = n\<rparr>) (copy_part (mci_upload_id i) (mci_part_number i) (mci_range i)))
     (br_size (mci_range i))"

definition mcopy_new :: "capability \<Rightarrow> u64 option \<Rightarrow> u64 \<Rightarrow> u64 \<Rightarrow> nat \<Rightarrow> multipart_copier" where
  "mcopy_new cap source_content_length_hint copy_once_threshold psize concurrent =
     (let concurrent = max concurrent 1
      in \<lparr>cs_next_number = 0, cs_next_offset = 0, cs_source_size = source_content_length_hint,
          cs_copy_once_threshold = copy_once_threshold, cs_part_size = psize, cs_concurrent = concurrent,
          cs_completed = False, cs_metadata = None, cs_tasks = ct_new concurrent 8192, cs_awaits = 0,
          mcp_full_capability = cap, mcp_upload_id = None, mcp_parts = []\<rparr>)"

text \<open>\<open>u64::div_ceil\<close>, which panics on a zero divisor.\<close>

definition div_ceil_u64 :: "u64 \<Rightarrow> u64 \<Rightarrow> u64 option" where
  "div_ceil_u64 a b = (if b = 0 then None else Some (if a mod b = 0 then a div b else a div b + 1))"

definition validate_part_count :: "multipart_copier \<Rightarrow> u64 \<Rightarrow> unit res" where
  "validate_part_count c src_size =
     (case (cap_write_total_max_size (mcp_full_capability c), cap_write_multi_max_size (mcp_full_capability c)) of
        (Some max_total_size, Some max_part_size) \<Rightarrow>
          if max_part_size = 0 then Ok ()
          else (case (div_ceil_u64 (of_nat max_total_size) (of_nat max_part_size), div_ceil_u64 src_size (cs_part_size c)) of
             (Some max_parts, Some part_count) \<Rightarrow>
               if max_parts < part_count
               then Err (with_context ''max_parts'' (show_u64 max_parts)
                      (with_context ''part_count'' (show_u64 part_count)
                        (with_context ''part_size'' (show_u64 (cs_part_size c))
                          (with_context ''source_size'' (show_u64 src_size)
                            (error_new Unsupported
                              ''multipart copy part count exceeds service limit, please increase `OpCopier::chunk`'')))))
               else Ok ()
           | _ \<Rightarrow> Panic)
      | _ \<Rightarrow> Ok ())"

definition mcopy_upload_id :: "'s multipart_copy \<Rightarrow> (multipart_copier \<times> 's, str) io" where
  "mcopy_upload_id svc = io_with (\<lambda>c.
     case mcp_upload_id c of
       Some v \<Rightarrow> io_ok v
     | None \<Rightarrow>
         io_bind (io_lift (mcs_initiate_copy svc)) (\<lambda>v.
         io_bind (io_update (\<lambda>c. c\<lparr>mcp_upload_id := Some v\<rparr>)) (\<lambda>_. io_ok v)))"

definition mcopy_fill_tasks ::
  "(nat \<Rightarrow> mcopy_input \<Rightarrow> error + copied_part) \<Rightarrow> str \<Rightarrow> u64 \<Rightarrow> (multipart_copier \<times> 's, unit) io" where
  "mcopy_fill_tasks run upload_id src_size =
     io_copier (copy_fill run
       (\<lambda>c rng. \<lparr>mci_upload_id = upload_id, mci_part_number = cs_next_number c, mci_range = rng\<rparr>) (\<lambda>i c. c) src_size 0)"

text \<open>The part of \<open>next\<close> after the last result.\<close>

definition mcopy_finish :: "'s multipart_copy \<Rightarrow> str \<Rightarrow> (multipart_copier \<times> 's, usize option) io" where
  "mcopy_finish svc upload_id = io_with (\<lambda>c.
     if length (mcp_parts c) \<noteq> cs_next_number c
     then io_err (with_context ''upload_id'' upload_id
            (with_context ''actual'' (show_nat (length (mcp_parts c)))
              (with_context ''expected'' (show_nat (cs_next_number c))
                (error_new Unexpected ''multipart copy part numbers mismatch, please report bug to opendal''))))
     else let parts = sort_key part_number (mcp_parts c)
          in io_bind (io_update (\<lambda>c. c\<lparr>mcp_parts := parts\<rparr>)) (\<lambda>_. copy_complete (mcs_complete_copy svc upload_id parts)))"

definition mcopy_next ::
  "'s multipart_copy \<Rightarrow> (nat \<Rightarrow> mcopy_input \<Rightarrow> error + copied_part) \<Rightarrow> (multipart_copier \<times> 's, usize option) io" where
  "mcopy_next svc run = io_with (\<lambda>c.
     if cs_completed c then io_ok None
     else
       io_bind (copy_source_size (mcs_source_metadata svc)) (\<lambda>src_size.
       if mcp_upload_id c = None \<and> src_size \<le> cs_copy_once_threshold c then copy_complete (mcs_copy_once svc)
       else
         io_bind (if mcp_upload_id c = None then io_res (validate_part_count c src_size) else io_ok ()) (\<lambda>_.
         io_bind (mcopy_upload_id svc) (\<lambda>upload_id.
         io_bind (mcopy_fill_tasks run upload_id src_size) (\<lambda>_.
         io_bind (io_copier (copy_collect run)) (\<lambda>r.
         case r of
           Some result \<Rightarrow>
             io_bind (io_update (\<lambda>c. c\<lparr>mcp_parts := mcp_parts c @ [cpd_part result]\<rparr>)) (\<lambda>_.
             io_ok (Some (unat (cpd_size result))))
         | None \<Rightarrow> mcopy_finish svc upload_id))))))"

definition mcopy_close ::
  "'s multipart_copy \<Rightarrow> (nat \<Rightarrow> mcopy_input \<Rightarrow> error + copied_part) \<Rightarrow> (multipart_copier \<times> 's, metadata) io" where
  "mcopy_close svc run = (\<lambda>(c, s). copy_close_loop (mcopy_next svc run) c s)"

definition mcopy_abort :: "'s multipart_copy \<Rightarrow> (multipart_copier \<times> 's, unit) io" where
  "mcopy_abort svc =
     io_bind (io_update (\<lambda>c. c\<lparr>cs_tasks := ct_clear (cs_tasks c)\<rparr>)) (\<lambda>_.
     io_with (\<lambda>c.
       case mcp_upload_id c of
         None \<Rightarrow> io_ok ()
       | Some upload_id \<Rightarrow>
           io_bind (io_update (\<lambda>c. c\<lparr>mcp_upload_id := None\<rparr>)) (\<lambda>_.
           io_bind (io_lift (mcs_abort_copy svc upload_id)) (\<lambda>_.
           io_update (\<lambda>c. c\<lparr>cs_completed := True, cs_metadata := None\<rparr>)))))"

definition mcopy_ops ::
  "'s multipart_copy \<Rightarrow> (nat \<Rightarrow> mcopy_input \<Rightarrow> error + copied_part) \<Rightarrow> (multipart_copier \<times> 's) copy_ops" where
  "mcopy_ops svc run = \<lparr>c_next = mcopy_next svc run, c_close = mcopy_close svc run, c_abort = mcopy_abort svc\<rparr>"

section \<open>BlockCopier\<close>

record ('s, 'u) block_copy =
  bcs_source_metadata :: "('s, metadata) io"
  bcs_copy_once :: "('s, metadata) io"
  bcs_complete_block :: "'u list \<Rightarrow> ('s, metadata) io"
  bcs_abort_block :: "'u list \<Rightarrow> ('s, unit) io"

record 'u bcopy_input =
  bci_block_id :: 'u
  bci_block_number :: usize
  bci_range :: bytes_range

record 'u copied_block =
  cbd_block_id :: 'u
  cbd_block_number :: usize
  cbd_size :: u64

record 'u block_copier = "('u bcopy_input, 'u copied_block) copy_state" +
  bcp_block_ids :: "(usize \<times> 'u) list"
  bcp_scheduled_block_ids :: "'u list"

definition bcopy_task ::
  "('u \<Rightarrow> bytes_range \<Rightarrow> error + unit) \<Rightarrow> ('u \<Rightarrow> str) \<Rightarrow> ('u bcopy_input \<Rightarrow> bool) \<Rightarrow> 'u bcopy_input \<Rightarrow>
     (error + 'u copied_block) option" where
  "bcopy_task copy_block show_uuid timed_out i =
     map_option (\<lambda>n.
       if timed_out i then
         Inl (set_temporary
                (with_context ''block_id'' (show_uuid (bci_block_id i)) (error_new Unexpected ''copy block timeout'')))
       else map_sum id (\<lambda>_. \<lparr>cbd_block_id = bci_block_id i, cbd_block_number = bci_block_number i, cbd_size = n\<rparr>)
              (copy_block (bci_block_id i) (bci_range i)))
     (br_size (bci_range i))"

definition bcopy_new :: "u64 option \<Rightarrow> u64 \<Rightarrow> u64 \<Rightarrow> nat \<Rightarrow> 'u block_copier" where
  "bcopy_new source_content_length_hint copy_once_threshold block_size concurrent =
     (let concurrent = max concurrent 1
      in \<lparr>cs_next_number = 0, cs_next_offset = 0, cs_source_size = source_content_length_hint,
          cs_copy_once_threshold = copy_once_threshold, cs_part_size = block_size, cs_concurrent = concurrent,
          cs_completed = False, cs_metadata = None, cs_tasks = ct_new concurrent 8192, cs_awaits = 0,
          bcp_block_ids = [], bcp_scheduled_block_ids = []\<rparr>)"

definition bcopy_fill_tasks ::
  "(nat \<Rightarrow> 'u) \<Rightarrow> (nat \<Rightarrow> 'u bcopy_input \<Rightarrow> error + 'u copied_block) \<Rightarrow> u64 \<Rightarrow> ('u block_copier \<times> 's, unit) io" where
  "bcopy_fill_tasks new_v4 run src_size =
     io_copier (copy_fill run
       (\<lambda>c rng. \<lparr>bci_block_id = new_v4 (cs_awaits c), bci_block_number = cs_next_number c, bci_range = rng\<rparr>)
       (\<lambda>i c. c\<lparr>bcp_scheduled_block_ids := bcp_scheduled_block_ids c @ [bci_block_id i]\<rparr>) src_size 0)"

definition bcopy_finish :: "('s, 'u) block_copy \<Rightarrow> ('u block_copier \<times> 's, usize option) io" where
  "bcopy_finish svc = io_with (\<lambda>c.
     if length (bcp_block_ids c) \<noteq> cs_next_number c
     then io_err (with_context ''actual'' (show_nat (length (bcp_block_ids c)))
            (with_context ''expected'' (show_nat (cs_next_number c))
              (error_new Unexpected ''block copy numbers mismatch, please report bug to opendal'')))
     else let ids = sort_key fst (bcp_block_ids c)
          in io_bind (io_update (\<lambda>c. c\<lparr>bcp_block_ids := ids\<rparr>)) (\<lambda>_. copy_complete (bcs_complete_block svc (map snd ids))))"

definition bcopy_next ::
  "('s, 'u) block_copy \<Rightarrow> (nat \<Rightarrow> 'u) \<Rightarrow> (nat \<Rightarrow> 'u bcopy_input \<Rightarrow> error + 'u copied_block) \<Rightarrow>
     ('u block_copier \<times> 's, usize option) io" where
  "bcopy_next svc new_v4 run = io_with (\<lambda>c.
     if cs_completed c then io_ok None
     else
       io_bind (copy_source_size (bcs_source_metadata svc)) (\<lambda>src_size.
       if bcp_block_ids c = [] \<and> src_size \<le> cs_copy_once_threshold c then copy_complete (bcs_copy_once svc)
       else
         io_bind (bcopy_fill_tasks new_v4 run src_size) (\<lambda>_.
         io_bind (io_copier (copy_collect run)) (\<lambda>r.
         case r of
           Some result \<Rightarrow>
             io_bind (io_update (\<lambda>c. c\<lparr>bcp_block_ids := bcp_block_ids c @ [(cbd_block_number result, cbd_block_id result)]\<rparr>)) (\<lambda>_.
             io_ok (Some (unat (cbd_size result))))
         | None \<Rightarrow> bcopy_finish svc))))"

definition bcopy_close ::
  "('s, 'u) block_copy \<Rightarrow> (nat \<Rightarrow> 'u) \<Rightarrow> (nat \<Rightarrow> 'u bcopy_input \<Rightarrow> error + 'u copied_block) \<Rightarrow>
     ('u block_copier \<times> 's, metadata) io" where
  "bcopy_close svc new_v4 run = (\<lambda>(c, s). copy_close_loop (bcopy_next svc new_v4 run) c s)"

definition bcopy_abort :: "('s, 'u) block_copy \<Rightarrow> ('u block_copier \<times> 's, unit) io" where
  "bcopy_abort svc =
     io_bind (io_update (\<lambda>c. c\<lparr>cs_tasks := ct_clear (cs_tasks c)\<rparr>)) (\<lambda>_.
     io_with (\<lambda>c.
       if bcp_scheduled_block_ids c = [] then io_update (\<lambda>c. c\<lparr>cs_completed := True, cs_metadata := None\<rparr>)
       else
         io_bind (io_lift (bcs_abort_block svc (bcp_scheduled_block_ids c))) (\<lambda>_.
         io_update (\<lambda>c. c\<lparr>cs_completed := True, cs_metadata := None\<rparr>))))"

section \<open>The plan of a copy\<close>

text \<open>The ranges of a source of \<open>z\<close> bytes in parts of \<open>p\<close>, and how many there are.\<close>

definition part_range :: "nat \<Rightarrow> nat \<Rightarrow> nat \<Rightarrow> bytes_range" where
  "part_range p z j = BytesRange (of_nat (j * p)) (Some (of_nat (min p (z - j * p))))"

definition part_count :: "nat \<Rightarrow> nat \<Rightarrow> nat" where
  "part_count p z = (z + p - 1) div p"

lemma part_count_iff:
  assumes "0 < p" shows "j < part_count p z \<longleftrightarrow> j * p < z"
proof -
  have "j < part_count p z \<longleftrightarrow> Suc j * p \<le> z + p - 1"
    unfolding part_count_def using assms by (simp add: Suc_le_eq[symmetric] less_eq_div_iff_mult_less_eq)
  also have "\<dots> \<longleftrightarrow> j * p < z" using assms by auto
  finally show ?thesis .
qed

text \<open>The parts make up the source.\<close>

lemma part_range_requested:
  assumes "0 < p" "length content < 2 ^ 64" "j * p < length content"
  shows "requested (part_range p (length content) j) content = take p (drop (j * p) content)"
proof -
  let ?n = "min p (length content - j * p)"
  have "unat (of_nat (j * p) :: u64) = j * p" "unat (of_nat ?n :: u64) = ?n"
    using assms unat_of_nat_u64[of "j * p"] unat_of_nat_u64[of ?n] by auto
  then show ?thesis by (simp add: part_range_def min_def)
qed

lemma parts_make_up:
  assumes "0 < p" "length content < 2 ^ 64" "\<forall>j<n. j * p < length content"
  shows "concat (map (\<lambda>j. requested (part_range p (length content) j) content) [0..<n]) = take (n * p) content"
  using assms(3)
proof (induction n)
  case (Suc n)
  then have "concat (map (\<lambda>j. requested (part_range p (length content) j) content) [0..<n]) = take (n * p) content" by simp
  moreover have "requested (part_range p (length content) n) content = take p (drop (n * p) content)"
    using part_range_requested[OF assms(1,2)] Suc.prems by simp
  ultimately show ?case using take_add[of "n * p" p content] by (simp add: add.commute)
qed simp

lemma parts_make_up_all:
  assumes "0 < p" "length content < 2 ^ 64"
  shows "concat (map (\<lambda>j. requested (part_range p (length content) j) content) [0..<part_count p (length content)]) = content"
proof -
  let ?n = "part_count p (length content)"
  have "length content \<le> ?n * p" using part_count_iff[OF assms(1), of ?n "length content"] by simp
  with parts_make_up[OF assms, of ?n] part_count_iff[OF assms(1), of _ "length content"] show ?thesis by simp
qed

section \<open>The invariant of a copy\<close>

text \<open>
  \<open>is\<close> are the inputs the tasks accepted and \<open>os\<close> the results they returned; \<open>P j i\<close> says that \<open>i\<close> is the
  input of part \<open>j\<close>.
\<close>

definition copy_inv ::
  "(nat \<Rightarrow> 'i \<Rightarrow> bool) \<Rightarrow> ('i \<Rightarrow> 'o \<Rightarrow> bool) \<Rightarrow> nat \<Rightarrow> nat \<Rightarrow> ('i, 'o, 'z) copy_state_scheme \<Rightarrow> 'i list \<Rightarrow> 'o list \<Rightarrow> bool" where
  "copy_inv P R p z c is os \<longleftrightarrow>
     ct_inv R (cs_concurrent c) 8192 (cs_tasks c) is os \<and> 0 < cs_concurrent c \<and> 0 < p \<and> p = unat (cs_part_size c) \<and> z < 2 ^ 64 \<and>
     cs_next_number c = length is \<and> unat (cs_next_offset c) = min (length is * p) z \<and>
     (\<forall>j<length is. j * p < z \<and> P j (is ! j))"

text \<open>Submitting an input.\<close>

definition execute_keeps ::
  "('i \<Rightarrow> 'o \<Rightarrow> bool) \<Rightarrow> 'i \<Rightarrow> (('i, 'o, 'z) copy_state_scheme \<Rightarrow> 'e) \<Rightarrow> ('i, 'o, 'z) copy_state_scheme \<Rightarrow>
     unit res \<times> ('i, 'o, 'z) copy_state_scheme \<Rightarrow> bool" where
  "execute_keeps R i f c = (\<lambda>(r, c').
     \<forall>n q is os. ct_inv R n q (cs_tasks c) is os \<longrightarrow>
       f c' = f c \<and>
       (case r of Ok _ \<Rightarrow> ct_inv R n q (cs_tasks c') (is @ [i]) os | Err e \<Rightarrow> ct_inv R n q (cs_tasks c') is os | Panic \<Rightarrow> False))"

lemma execute_keeps_again:
  assumes "\<And>n q is os. ct_inv R n q (cs_tasks c) is os \<Longrightarrow> ct_inv R n q (cs_tasks c1) is os" "f c1 = f c" "execute_keeps R i f c1 z"
  shows "execute_keeps R i f c z"
proof -
  obtain r c' where z: "z = (r, c')" by (cases z)
  show ?thesis unfolding execute_keeps_def z prod.case
  proof (intro allI impI)
    fix n q "is" os assume "ct_inv R n q (cs_tasks c) is os"
    from assms(3)[unfolded execute_keeps_def z prod.case, rule_format, OF assms(1)[OF this]] assms(2)
    show "f c' = f c \<and> (case r of Ok _ \<Rightarrow> ct_inv R n q (cs_tasks c') (is @ [i]) os | Err e \<Rightarrow> ct_inv R n q (cs_tasks c') is os | Panic \<Rightarrow> False)" by simp
  qed
qed

lemma copy_execute_keeps:
  assumes ex: "copy_execute run i c = Some z" and run: "\<forall>k. run_ok R (run k)" and f: "\<And>t c. f (copy_awaited t c) = f c"
  shows "execute_keeps R i f c z"
proof -
  have "run' = run \<longrightarrow> i' = i \<longrightarrow> execute_keeps R i f c z" if "copy_execute run' i' c = Some z" for run' i' c z
  proof (rule copy_execute.raw_induct[OF _ that, where P = "\<lambda>run' i' c z. run' = run \<longrightarrow> i' = i \<longrightarrow> execute_keeps R i f c z"], goal_cases)
    case (1 loop run' i' c z)
    show ?case
    proof (intro impI)
      assume a: "run' = run" "i' = i"
      obtain r t where r: "ct_execute (run (cs_awaits c)) i (cs_tasks c) = (r, t)" by force
      note inv = ct_inv_execute[OF _ run[rule_format] r]
      have tasks: "cs_tasks (copy_awaited t c) = t" by (simp add: copy_awaited_def)
      show "execute_keeps R i f c z"
      proof (cases r)
        case (Err e)
        show ?thesis
        proof (cases "is_temporary e")
          case True
          with 1(2) a r Err have "loop run i (copy_awaited t c) = Some z" by simp
          from 1(1)[OF this] have "execute_keeps R i f (copy_awaited t c) z" by simp
          then show ?thesis by (rule execute_keeps_again[rotated 2]) (use inv Err in \<open>simp_all add: tasks f\<close>)
        qed (use 1(2) a r Err inv in \<open>auto simp: execute_keeps_def tasks f\<close>)
      qed (use 1(2) a r inv in \<open>auto simp: execute_keeps_def tasks f\<close>)
    qed
  qed
  with ex show ?thesis by blast
qed

text \<open>Awaiting a result.\<close>

definition collect_keeps ::
  "('i \<Rightarrow> 'o \<Rightarrow> bool) \<Rightarrow> (('i, 'o, 'z) copy_state_scheme \<Rightarrow> 'e) \<Rightarrow> ('i, 'o, 'z) copy_state_scheme \<Rightarrow>
     'o option res \<times> ('i, 'o, 'z) copy_state_scheme \<Rightarrow> bool" where
  "collect_keeps R f c = (\<lambda>(r, c').
     \<forall>n q is os. ct_inv R n q (cs_tasks c) is os \<longrightarrow>
       f c' = f c \<and>
       (case r of
          Ok (Some x) \<Rightarrow> ct_inv R n q (cs_tasks c') is (os @ [x])
        | Ok None \<Rightarrow> ct_inv R n q (cs_tasks c') is os \<and> list_all2 R is os
        | Err e \<Rightarrow> ct_inv R n q (cs_tasks c') is os
        | Panic \<Rightarrow> False))"

lemma collect_keeps_again:
  assumes "\<And>n q is os. ct_inv R n q (cs_tasks c) is os \<Longrightarrow> ct_inv R n q (cs_tasks c1) is os" "f c1 = f c" "collect_keeps R f c1 z"
  shows "collect_keeps R f c z"
proof -
  obtain r c' where z: "z = (r, c')" by (cases z)
  show ?thesis unfolding collect_keeps_def z prod.case
  proof (intro allI impI)
    fix n q "is" os assume "ct_inv R n q (cs_tasks c) is os"
    from assms(3)[unfolded collect_keeps_def z prod.case, rule_format, OF assms(1)[OF this]] assms(2)
    show "f c' = f c \<and> (case r of Ok (Some x) \<Rightarrow> ct_inv R n q (cs_tasks c') is (os @ [x])
        | Ok None \<Rightarrow> ct_inv R n q (cs_tasks c') is os \<and> list_all2 R is os
        | Err e \<Rightarrow> ct_inv R n q (cs_tasks c') is os | Panic \<Rightarrow> False)" by simp
  qed
qed

lemma copy_collect_keeps:
  assumes co: "copy_collect run c = Some z" and run: "\<forall>k. run_ok R (run k)" and f: "\<And>t c. f (copy_awaited t c) = f c"
  shows "collect_keeps R f c z"
proof -
  have "run' = run \<longrightarrow> collect_keeps R f c z" if "copy_collect run' c = Some z" for run' c z
  proof (rule copy_collect.raw_induct[OF _ that, where P = "\<lambda>run' c z. run' = run \<longrightarrow> collect_keeps R f c z"], goal_cases)
    case (1 loop run' c z)
    note ih = 1
    show ?case
    proof (intro impI)
      assume a: "run' = run"
      obtain r t where r: "ct_next (run (cs_awaits c)) (cs_tasks c) = (r, t)" by force
      note inv = ct_inv_next[OF _ run[rule_format] r]
      have tasks: "cs_tasks (copy_awaited t c) = t" by (simp add: copy_awaited_def)
      consider e where "r = Some (Err e)" "is_temporary e" | e where "r = Some (Err e)" "\<not> is_temporary e" | x where "r = Some (Ok x)"
        | "r = Some Panic" | "r = None" by (cases r; cases "the r"; auto)
      then show "collect_keeps R f c z"
      proof cases
        case (1 e)
        with ih(2) a r have "loop run (copy_awaited t c) = Some z" by simp
        from ih(1)[OF this] have "collect_keeps R f (copy_awaited t c) z" by simp
        then show ?thesis by (rule collect_keeps_again[rotated 2]) (use inv 1 in \<open>simp_all add: tasks f\<close>)
      next
        case 5
        with ct_next_None r have "ct_results (cs_tasks c) = [] \<and> ct_tasks (cs_tasks c) = [] \<and> \<not> ct_errored (cs_tasks c)" by simp
        moreover have "t = cs_tasks c" if "ct_inv R n q (cs_tasks c) is os" for n q "is" os using inv[OF that] 5 by simp
        moreover have "z = (Ok None, copy_awaited t c)" using 5 ih(2) a r by simp
        ultimately show ?thesis
          unfolding collect_keeps_def using ct_inv_all_delivered tasks f by fastforce
      qed (use ih(2) a r inv in \<open>auto simp: collect_keeps_def tasks f\<close>)
    qed
  qed
  with co show ?thesis by blast
qed

text \<open>
  Filling the queue: the inputs accepted are those of the next parts, and what the copier keeps beside the
  tasks and the position (\<open>f\<close>) stays.
\<close>

definition copy_core :: "('i, 'o, 'z) copy_state_scheme \<Rightarrow> usize \<times> u64 \<times> u64 \<times> nat \<times> ('i, 'o) concurrent_tasks" where
  "copy_core c = (cs_next_number c, cs_next_offset c, cs_part_size c, cs_concurrent c, cs_tasks c)"

lemma copy_step_arith:
  assumes inv: "copy_inv P R p (unat src_size) c is os" and lt: "cs_next_offset c < src_size"
    and n: "n = min (cs_part_size c) (src_size - cs_next_offset c)"
  shows "length is * p < unat src_size"
    "unat (cs_next_offset c + n) = length is * p + min p (unat src_size - length is * p)"
    "BytesRange (cs_next_offset c) (Some n) = part_range p (unat src_size) (length is)"
proof -
  let ?z = "unat src_size" and ?k = "length is"
  from inv have p: "p = unat (cs_part_size c)" "unat (cs_next_offset c) = min (?k * p) ?z" by (auto simp: copy_inv_def)
  have off: "unat (cs_next_offset c) = ?k * p" "?k * p < ?z" using lt p(2) by (auto simp: word_less_nat_alt)
  have nn: "unat n = min p (?z - ?k * p)"
    using off(1) p(1) unat_sub_u64[OF less_imp_le[OF lt]] by (simp add: n min_def word_le_nat_alt)
  have "unat (cs_next_offset c) + unat n < 2 ^ 64"
    using nn off unat_lt_u64[of src_size] by (auto simp: min_def)
  then show "unat (cs_next_offset c + n) = ?k * p + min p (?z - ?k * p)"
    using nn off(1) by (simp add: unat_word_ariths)
  have "of_nat (?k * p) = cs_next_offset c" unfolding off(1)[symmetric] by simp
  moreover have "of_nat (min p (?z - ?k * p)) = n" unfolding nn[symmetric] by simp
  ultimately show "BytesRange (cs_next_offset c) (Some n) = part_range p ?z ?k" by (simp add: part_range_def)
  show "?k * p < ?z" by (rule off(2))
qed

lemma copy_inv_step:
  assumes inv: "copy_inv P R p (unat src_size) c is os" and lt: "cs_next_offset c < src_size"
    and n: "n = min (cs_part_size c) (src_size - cs_next_offset c)"
    and t: "ct_inv R (cs_concurrent c) 8192 t (is @ [i]) os" and i: "P (length is) i"
    and c': "copy_core c' = (Suc (length is), cs_next_offset c + n, cs_part_size c, cs_concurrent c, t)"
  shows "copy_inv P R p (unat src_size) c' (is @ [i]) os"
  using inv c' t i copy_step_arith[OF inv lt n]
  by (auto simp: copy_inv_def copy_core_def nth_append less_Suc_eq min_def add.commute)

definition fill_keeps ::
  "(nat \<Rightarrow> 'i \<Rightarrow> bool) \<Rightarrow> ('i \<Rightarrow> 'o \<Rightarrow> bool) \<Rightarrow> nat \<Rightarrow> u64 \<Rightarrow> (('i, 'o, 'z) copy_state_scheme \<Rightarrow> 'e) \<Rightarrow>
     ('i, 'o, 'z) copy_state_scheme \<Rightarrow> unit res \<times> ('i, 'o, 'z) copy_state_scheme \<Rightarrow> bool" where
  "fill_keeps P R p src_size f c = (\<lambda>(r, c').
     \<forall>is os. copy_inv P R p (unat src_size) c is os \<longrightarrow>
       r \<noteq> Panic \<and> f c' = f c \<and> (\<exists>js. copy_inv P R p (unat src_size) c' (is @ js) os))"

text \<open>One round of the loop: the input is accepted, or the loop ends with the error.\<close>

lemma copy_fill_round:
  assumes inv: "copy_inv P R p (unat src_size) c is os" and lt: "cs_next_offset c < src_size"
    and run: "\<forall>k. run_ok R (run k)"
    and mk: "\<And>c. P (cs_next_number c) (mk c (part_range p (unat src_size) (cs_next_number c)))"
    and nt: "\<And>i c. copy_core (note_input i c) = copy_core c" "\<And>i c. f (note_input i c) = f c"
    and f: "\<And>t c. f (copy_awaited t c) = f c" "\<And>c a b. f (c\<lparr>cs_next_offset := a, cs_next_number := b\<rparr>) = f c"
    and n: "n = min (cs_part_size c) (src_size - cs_next_offset c)" "input = mk c (BytesRange (cs_next_offset c) (Some n))"
    and ex: "copy_execute run input c = Some (r, c1)"
  shows "r \<noteq> Panic"
    "r = Err e \<Longrightarrow> f c1 = f c \<and> copy_inv P R p (unat src_size) c1 is os"
    "r = Ok () \<Longrightarrow> f ((note_input input c1)\<lparr>cs_next_offset := cs_next_offset c1 + n, cs_next_number := cs_next_number c1 + 1\<rparr>) = f c \<and>
      copy_inv P R p (unat src_size)
        ((note_input input c1)\<lparr>cs_next_offset := cs_next_offset c1 + n, cs_next_number := cs_next_number c1 + 1\<rparr>) (is @ [input]) os"
proof -
  let ?g = "\<lambda>c. (f c, cs_next_number c, cs_next_offset c, cs_part_size c, cs_concurrent c)"
  have ct: "ct_inv R (cs_concurrent c) 8192 (cs_tasks c) is os" and num: "cs_next_number c = length is"
    using inv by (simp_all add: copy_inv_def)
  have "execute_keeps R input ?g c (r, c1)"
    by (rule copy_execute_keeps[OF ex run]) (simp only: f, simp add: copy_awaited_def)
  note k = this[unfolded execute_keeps_def prod.case, rule_format, OF ct]
  show "r \<noteq> Panic" using k by (cases r) auto
  show "f c1 = f c \<and> copy_inv P R p (unat src_size) c1 is os" if "r = Err e"
    using k inv that by (auto simp: copy_inv_def)
  show "f ((note_input input c1)\<lparr>cs_next_offset := cs_next_offset c1 + n, cs_next_number := cs_next_number c1 + 1\<rparr>) = f c \<and>
      copy_inv P R p (unat src_size)
        ((note_input input c1)\<lparr>cs_next_offset := cs_next_offset c1 + n, cs_next_number := cs_next_number c1 + 1\<rparr>) (is @ [input]) os"
    if r: "r = Ok ()"
  proof
    let ?c2 = "(note_input input c1)\<lparr>cs_next_offset := cs_next_offset c1 + n, cs_next_number := cs_next_number c1 + 1\<rparr>"
    show "f ?c2 = f c" using k r by (simp add: f nt)
    have t: "ct_inv R (cs_concurrent c) 8192 (cs_tasks c1) (is @ [input]) os" using k r by simp
    have "P (length is) input" using mk[of c] unfolding n(2) copy_step_arith(3)[OF inv lt n(1)] num .
    moreover have "copy_core ?c2 = (Suc (length is), cs_next_offset c + n, cs_part_size c, cs_concurrent c, cs_tasks c1)"
      using nt(1)[of input c1] k r num by (simp add: copy_core_def)
    ultimately show "copy_inv P R p (unat src_size) ?c2 (is @ [input]) os" using copy_inv_step[OF inv lt n(1) t] by blast
  qed
qed

lemma copy_fill_keeps:
  assumes fill: "copy_fill run mk note_input src_size k c = Some out" and run: "\<forall>k. run_ok R (run k)"
    and mk: "\<And>c. P (cs_next_number c) (mk c (part_range p (unat src_size) (cs_next_number c)))"
    and nt: "\<And>i c. copy_core (note_input i c) = copy_core c" "\<And>i c. f (note_input i c) = f c"
    and f: "\<And>t c. f (copy_awaited t c) = f c" "\<And>c a b. f (c\<lparr>cs_next_offset := a, cs_next_number := b\<rparr>) = f c"
  shows "fill_keeps P R p src_size f c out"
proof -
  have "run' = run \<longrightarrow> mk' = mk \<longrightarrow> nt' = note_input \<longrightarrow> z' = src_size \<longrightarrow> fill_keeps P R p src_size f c out"
    if "copy_fill run' mk' nt' z' k c = Some out" for run' mk' nt' z' k c out
  proof (rule copy_fill.raw_induct[OF _ that, where P = "\<lambda>run' mk' nt' z' k c out.
      run' = run \<longrightarrow> mk' = mk \<longrightarrow> nt' = note_input \<longrightarrow> z' = src_size \<longrightarrow> fill_keeps P R p src_size f c out"], goal_cases)
    case (1 loop run' mk' nt' z' k c out)
    show ?case
    proof (intro impI)
      assume a: "run' = run" "mk' = mk" "nt' = note_input" "z' = src_size"
      show "fill_keeps P R p src_size f c out"
      proof (cases "cs_next_offset c < src_size \<and> ct_has_remaining (cs_tasks c) \<and> k < cs_concurrent c")
        case False
        with 1(2) a have "out = (Ok (), c)" by auto
        then show ?thesis unfolding fill_keeps_def by (auto intro: exI[of _ "[]"])
      next
        case True
        define n where "n = min (cs_part_size c) (src_size - cs_next_offset c)"
        define input where "input = mk c (BytesRange (cs_next_offset c) (Some n))"
        from 1(2) a True obtain r c1 where ex: "copy_execute run input c = Some (r, c1)"
          by (cases "copy_execute run input c") (auto simp: n_def input_def Let_def)
        define c2 where "c2 = (note_input input c1)\<lparr>cs_next_offset := cs_next_offset c1 + n, cs_next_number := cs_next_number c1 + 1\<rparr>"
        note round = copy_fill_round[where P = P and R = R and p = p and mk = mk and note_input = note_input and f = f and
            run = run and c = c and src_size = src_size,
            OF _ conjunct1[OF True] run mk nt f n_def input_def ex, folded c2_def]
        show ?thesis
        proof (cases r)
          case (Ok u)
          have inv: "f c2 = f c \<and> copy_inv P R p (unat src_size) c2 (is @ [input]) os"
            if "copy_inv P R p (unat src_size) c is os" for "is" os using round(3)[OF that] Ok by simp
          show ?thesis
          proof (cases "ct_has_result (cs_tasks c2)")
            case res: True
            with 1(2) a True ex Ok have "out = (Ok (), c2)"
              by (simp add: n_def[symmetric] input_def[symmetric] c2_def Let_def)
            with inv show ?thesis unfolding fill_keeps_def by blast
          next
            case False
            with 1(2) a True ex Ok have "loop run mk note_input src_size (k + 1) c2 = Some out"
              by (simp add: n_def[symmetric] input_def[symmetric] c2_def Let_def)
            from 1(1)[OF this] have "fill_keeps P R p src_size f c2 out" by simp
            with inv show ?thesis unfolding fill_keeps_def by (fastforce simp: split_def)
          qed
        next
          case (Err e)
          with 1(2) a True ex have "out = (Err e, c1)" by (auto simp: n_def[symmetric] input_def[symmetric] Let_def)
          then show ?thesis unfolding fill_keeps_def using round(2) Err by (force intro: exI[of _ "[]"])
        next
          case Panic
          then show ?thesis unfolding fill_keeps_def using round(1) by auto
        qed
      qed
    qed
  qed
  with fill show ?thesis by blast
qed

text \<open>As long as the source is not cut completely, filling leaves something to wait for.\<close>

definition ct_busy :: "('i, 'o) concurrent_tasks \<Rightarrow> bool" where
  "ct_busy t \<longleftrightarrow> ct_tasks t \<noteq> [] \<or> ct_results t \<noteq> []"

lemma ct_execute_busy: "ct_execute run i t = (Ok (), t') \<Longrightarrow> ct_busy t'"
  by (auto simp: ct_execute_def ct_busy_def ct_push_def split: if_splits list.splits sum.splits prod.splits)

lemma copy_execute_busy:
  assumes "copy_execute run i c = Some z"
  shows "fst z = Ok () \<longrightarrow> ct_busy (cs_tasks (snd z))"
proof (rule copy_execute.raw_induct[OF _ assms, where P = "\<lambda>run i c z. fst z = Ok () \<longrightarrow> ct_busy (cs_tasks (snd z))"], goal_cases)
  case (1 loop run i c z)
  obtain r t where r: "ct_execute (run (cs_awaits c)) i (cs_tasks c) = (r, t)" by force
  with 1 show ?case
    by (cases r) (auto simp: copy_awaited_def dest: ct_execute_busy split: if_splits)
qed

lemma copy_execute_frame:
  assumes "copy_execute run i c = Some z" and f: "\<And>t c. f (copy_awaited t c) = f c"
  shows "f (snd z) = f c"
proof (rule copy_execute.raw_induct[OF _ assms(1), where P = "\<lambda>run i c z. f (snd z) = f c"], goal_cases)
  case (1 loop run i c z)
  obtain r t where r: "ct_execute (run (cs_awaits c)) i (cs_tasks c) = (r, t)" by force
  with 1 show ?case by (cases r) (auto simp: f split: if_splits)
qed

lemma ct_next_busy: "ct_next run t = (Some (Err e), t') \<Longrightarrow> is_temporary e \<Longrightarrow> ct_busy t'"
  by (auto simp: ct_next_def ct_busy_def ct_on_error_def ct_await_front_def ct_unrecoverable_def
      split: if_splits list.splits sum.splits task.splits prod.splits)

lemma copy_collect_None:
  assumes "copy_collect run c = Some z"
  shows "fst z = Ok None \<longrightarrow> \<not> ct_busy (cs_tasks c)"
proof (rule copy_collect.raw_induct[OF _ assms, where P = "\<lambda>run c z. fst z = Ok None \<longrightarrow> \<not> ct_busy (cs_tasks c)"], goal_cases)
  case (1 loop run c z)
  note ih = 1
  obtain r t where r: "ct_next (run (cs_awaits c)) (cs_tasks c) = (r, t)" by force
  consider e where "r = Some (Err e)" "is_temporary e" | "r = None" | "r \<noteq> None" "\<forall>e. r = Some (Err e) \<longrightarrow> \<not> is_temporary e"
    by blast
  then show ?case
  proof cases
    case (1 e)
    with ih(2) r have "loop run (copy_awaited t c) = Some z" by simp
    from ih(1)[OF this] ct_next_busy[of "run (cs_awaits c)" "cs_tasks c" e t] 1 r show ?thesis
      by (simp add: copy_awaited_def)
  next
    case 2
    with ct_next_None r show ?thesis by (auto simp: ct_busy_def)
  next
    case 3
    with ih(2) r show ?thesis by (auto split: res.splits if_splits)
  qed
qed

lemma copy_fill_busy:
  assumes "copy_fill run mk note_input src_size k c = Some out"
    and nt: "\<And>i c. copy_core (note_input i c) = copy_core c" and conc: "0 < cs_concurrent c" "0 < ct_concurrent (cs_tasks c)" "k = 0"
  shows "fst out = Ok () \<longrightarrow> cs_next_offset (snd out) < src_size \<longrightarrow> ct_busy (cs_tasks (snd out))"
proof -
  have nt': "cs_tasks (note_input i c) = cs_tasks c" "cs_concurrent (note_input i c) = cs_concurrent c" for i c
    using nt[of i c] by (simp_all add: copy_core_def)
  have "nt' = note_input \<longrightarrow> 0 < cs_concurrent c \<longrightarrow> k = 0 \<and> 0 < ct_concurrent (cs_tasks c) \<or> ct_busy (cs_tasks c) \<longrightarrow>
      fst out = Ok () \<longrightarrow> cs_next_offset (snd out) < z' \<longrightarrow> ct_busy (cs_tasks (snd out))"
    if "copy_fill run' mk' nt' z' k c = Some out" for run' mk' nt' z' k c out
  proof (rule copy_fill.raw_induct[OF _ that, where P = "\<lambda>run' mk' nt' z' k c out.
      nt' = note_input \<longrightarrow> 0 < cs_concurrent c \<longrightarrow> k = 0 \<and> 0 < ct_concurrent (cs_tasks c) \<or> ct_busy (cs_tasks c) \<longrightarrow>
      fst out = Ok () \<longrightarrow> cs_next_offset (snd out) < z' \<longrightarrow> ct_busy (cs_tasks (snd out))"], goal_cases)
    case (1 loop run mk nt' z k c out)
    define n where "n = min (cs_part_size c) (z - cs_next_offset c)"
    define input where "input = mk c (BytesRange (cs_next_offset c) (Some n))"
    show ?case
    proof (cases "cs_next_offset c < z \<and> ct_has_remaining (cs_tasks c) \<and> k < cs_concurrent c")
      case False
      with 1(2) have "out = (Ok (), c)" by auto
      with False show ?thesis by (auto simp: ct_has_remaining_def ct_busy_def)
    next
      case True
      show ?thesis
      proof (intro impI)
        assume a: "nt' = note_input" "0 < cs_concurrent c" and ok: "fst out = Ok ()" and lt: "cs_next_offset (snd out) < z"
        from 1(2) a True obtain r c1 where ex: "copy_execute run input c = Some (r, c1)"
          by (cases "copy_execute run input c") (auto simp: n_def input_def Let_def)
        have conc: "cs_concurrent c1 = cs_concurrent c"
          using copy_execute_frame[OF ex, of cs_concurrent] by (simp add: copy_awaited_def)
        define c2 where "c2 = (note_input input c1)\<lparr>cs_next_offset := cs_next_offset c1 + n, cs_next_number := cs_next_number c1 + 1\<rparr>"
        from 1(2) a True ex ok have "r = Ok ()"
          by (cases r) (auto simp: n_def[symmetric] input_def[symmetric] Let_def)
        with copy_execute_busy[OF ex] have busy: "ct_busy (cs_tasks c2)" by (simp add: c2_def nt')
        show "ct_busy (cs_tasks (snd out))"
        proof (cases "ct_has_result (cs_tasks c2)")
          case res: True
          with 1(2) a True ex \<open>r = Ok ()\<close> have "out = (Ok (), c2)"
            by (simp add: n_def[symmetric] input_def[symmetric] c2_def Let_def)
          with busy show ?thesis by simp
        next
          case False
          with 1(2) a True ex \<open>r = Ok ()\<close> have "loop run mk note_input z (k + 1) c2 = Some out"
            by (simp add: n_def[symmetric] input_def[symmetric] c2_def Let_def)
          from 1(1)[OF this] busy a(2) conc ok lt show ?thesis by (simp add: c2_def nt')
        qed
      qed
    qed
  qed
  with assms(1) conc show ?thesis by blast
qed

text \<open>Filling the queue and awaiting a result, as \<open>next\<close> does.\<close>

lemma copy_inv_all:
  assumes "copy_inv P R p z c is os" "z \<le> unat (cs_next_offset c)"
  shows "length is = part_count p z"
proof -
  have p: "0 < p" "z \<le> length is * p" "\<forall>j<length is. j * p < z" using assms by (auto simp: copy_inv_def)
  have "\<not> length is < part_count p z" using part_count_iff[OF p(1), of "length is" z] p(2) by simp
  moreover have "\<not> part_count p z < length is" using part_count_iff[OF p(1), of "part_count p z" z] p(3) by blast
  ultimately show ?thesis by simp
qed

lemma copy_round:
  assumes inv: "copy_inv P R p (unat src_size) c is os" and run: "\<forall>k. run_ok R (run k)"
    and mk: "\<And>c. P (cs_next_number c) (mk c (part_range p (unat src_size) (cs_next_number c)))"
    and nt: "\<And>i c. copy_core (note_input i c) = copy_core c" "\<And>i c. f (note_input i c) = f c"
    and f: "\<And>t c. f (copy_awaited t c) = f c" "\<And>c a b. f (c\<lparr>cs_next_offset := a, cs_next_number := b\<rparr>) = f c"
    and fill: "copy_fill run mk note_input src_size 0 c = Some (Ok (), c1)" and collect: "copy_collect run c1 = Some (q, c2)"
  shows "f c2 = f c \<and> (\<exists>is'. case q of
      Ok (Some x) \<Rightarrow> copy_inv P R p (unat src_size) c2 is' (os @ [x])
    | Ok None \<Rightarrow> copy_inv P R p (unat src_size) c2 is' os \<and> list_all2 R is' os \<and> length is' = part_count p (unat src_size)
    | Err e \<Rightarrow> copy_inv P R p (unat src_size) c2 is' os
    | Panic \<Rightarrow> False)"
proof -
  let ?z = "unat src_size" and ?g = "\<lambda>c. (f c, cs_next_number c, cs_next_offset c, cs_part_size c, cs_concurrent c)"
  have "fill_keeps P R p src_size f c (Ok (), c1)" 
    by (rule copy_fill_keeps[where P = P and p = p and f = f, OF fill run]) (rule mk nt f)+
  with inv obtain js where c1: "f c1 = f c" "copy_inv P R p ?z c1 (is @ js) os" unfolding fill_keeps_def by blast
  have ct: "ct_inv R (cs_concurrent c1) 8192 (cs_tasks c1) (is @ js) os" using c1(2) by (simp add: copy_inv_def)
  have "collect_keeps R ?g c1 (q, c2)"
    by (rule copy_collect_keeps[OF collect run]) (simp only: f, simp add: copy_awaited_def)
  note k = this[unfolded collect_keeps_def prod.case, rule_format, OF ct]
  have g: "f c2 = f c" "?g c2 = ?g c1" using k c1(1) by simp_all
  have keep: "copy_inv P R p ?z c2 (is @ js) os'" if "ct_inv R (cs_concurrent c1) 8192 (cs_tasks c2) (is @ js) os'" for os'
    using that c1(2) g(2) by (auto simp: copy_inv_def)
  have "length (is @ js) = part_count p ?z" if "q = Ok None"
  proof -
    have "0 < cs_concurrent c" "0 < ct_concurrent (cs_tasks c)" using inv by (auto simp: copy_inv_def ct_inv_def)
    from copy_fill_busy[OF fill nt(1) this refl] copy_collect_None[OF collect] that
    have "\<not> cs_next_offset c1 < src_size" by auto
    then show ?thesis using copy_inv_all[OF c1(2)] by (simp add: word_less_nat_alt)
  qed
  with k keep g(1) show ?thesis
    by (intro conjI exI[of _ "is @ js"]) (auto split: res.splits option.splits)
qed

section \<open>MultipartCopier: invariant\<close>

lemma io_bind_cases:
  assumes "io_bind m f x = Some (r, y)"
  obtains (ok) v y1 where "m x = Some (Ok v, y1)" "f v y1 = Some (r, y)"
  | (err) e where "m x = Some (Err e, y)" "r = Err e"
  | (panic) "m x = Some (Panic, y)" "r = Panic"
  using assms by (auto simp: io_bind_def split: option.splits res.splits)

definition mcopy_planned :: "str \<Rightarrow> nat \<Rightarrow> nat \<Rightarrow> nat \<Rightarrow> mcopy_input \<Rightarrow> bool" where
  "mcopy_planned upload_id p z j i \<longleftrightarrow>
     i = \<lparr>mci_upload_id = upload_id, mci_part_number = j, mci_range = part_range p z j\<rparr>"

text \<open>
  \<open>A i part\<close>: the service has copied the range of \<open>i\<close> and answered \<open>part\<close>. A task that runs answers what
  \<open>mcopy_task\<close> does with the service's \<open>copy_part\<close>, or times out.
\<close>

definition mcopy_runs :: "(mcopy_input \<Rightarrow> multipart_part \<Rightarrow> bool) \<Rightarrow> (mcopy_input \<Rightarrow> error + copied_part) \<Rightarrow> bool" where
  "mcopy_runs A run \<longleftrightarrow> (\<forall>i. br_size (mci_range i) \<noteq> None \<longrightarrow>
     (\<exists>copy_part timed_out. mcopy_task copy_part timed_out i = Some (run i) \<and>
        (\<forall>p. copy_part (mci_upload_id i) (mci_part_number i) (mci_range i) = Inr p \<longrightarrow> A i p)))"

text \<open>
  The numbers of the parts the service answers keep the order of the numbers it was asked for. They need not be the
  same: S3 and TOS number the parts of an upload from 1, and their \<open>copy_part\<close> answers one more than it was asked for.
\<close>

definition copy_numbered :: "(mcopy_input \<Rightarrow> multipart_part \<Rightarrow> bool) \<Rightarrow> bool" where
  "copy_numbered A \<longleftrightarrow>
     (\<forall>i j p q. A i p \<longrightarrow> A j q \<longrightarrow> mci_part_number i \<le> mci_part_number j \<longrightarrow> part_number p \<le> part_number q)"

definition mcopy_answer :: "(mcopy_input \<Rightarrow> multipart_part \<Rightarrow> bool) \<Rightarrow> mcopy_input \<Rightarrow> copied_part \<Rightarrow> bool" where
  "mcopy_answer A i r \<longleftrightarrow> (\<forall>n. br_size (mci_range i) = Some n \<longrightarrow> A i (cpd_part r) \<and> cpd_size r = n)"

lemma mcopy_runs_ok: "mcopy_runs A run \<Longrightarrow> run_ok (mcopy_answer A) run"
  unfolding run_ok_def mcopy_answer_def
proof (intro allI impI)
  fix i r n assume run: "mcopy_runs A run" "run i = Inr r" and n: "br_size (mci_range i) = Some n"
  then obtain copy_part timed_out where "mcopy_task copy_part timed_out i = Some (Inr r)"
    and A: "\<forall>p. copy_part (mci_upload_id i) (mci_part_number i) (mci_range i) = Inr p \<longrightarrow> A i p"
    unfolding mcopy_runs_def by (metis option.distinct(1))
  with n show "A i (cpd_part r) \<and> cpd_size r = n"
    by (auto simp: mcopy_task_def map_sum_def split: if_splits sum.splits)
qed

definition mcopy_inv :: "(mcopy_input \<Rightarrow> multipart_part \<Rightarrow> bool) \<Rightarrow> multipart_copier \<Rightarrow> bool" where
  "mcopy_inv A c \<longleftrightarrow> cs_completed c \<or>
     (case mcp_upload_id c of
        None \<Rightarrow> mcp_parts c = [] \<and> copy_inv (\<lambda>j i. True) (mcopy_answer A) (unat (cs_part_size c)) 0 c [] []
      | Some v \<Rightarrow>
          (\<exists>z is os. cs_source_size c = Some z \<and> mcp_parts c = map cpd_part os \<and>
             copy_inv (mcopy_planned v (unat (cs_part_size c)) (unat z)) (mcopy_answer A) (unat (cs_part_size c)) (unat z) c is os))"

lemma copy_inv_empty: "copy_inv P R p z c [] [] \<Longrightarrow> z' < 2 ^ 64 \<Longrightarrow> copy_inv P' R p z' c [] []"
  by (auto simp: copy_inv_def)

lemma copy_inv_core:
  assumes "copy_inv P R p z c is os" "copy_core c' = copy_core c"
  shows "copy_inv P R p z c' is os"
  using assms by (auto simp: copy_inv_def copy_core_def)

lemma mcopy_inv_new: "0 < unat psize \<Longrightarrow> mcopy_inv A (mcopy_new cap hint thr psize conc)"
  by (simp add: mcopy_inv_def mcopy_new_def copy_inv_def ct_inv_new Let_def)

lemma copy_source_size_cases:
  assumes "copy_source_size m (c, s) = Some (q, c1, s1)"
  shows "(\<forall>z. q = Ok z \<longrightarrow> c1 = c\<lparr>cs_source_size := Some z\<rparr> \<and> (cs_source_size c = None \<or> cs_source_size c = Some z)) \<and>
    ((\<forall>z. q \<noteq> Ok z) \<longrightarrow> c1 = c)"
  using assms by (cases c) (auto simp: copy_source_size_def io_defs split: option.splits res.splits)

lemma copy_complete_cases:
  assumes "copy_complete m (c, s) = Some (r, c', s')"
  shows "(\<exists>md. m s = Some (Ok md, s') \<and> r = Ok None \<and> c' = c\<lparr>cs_metadata := Some md, cs_completed := True\<rparr>) \<or>
    (c' = c \<and> (\<forall>x. r \<noteq> Ok x))"
  using assms by (auto simp: copy_complete_def io_defs split: option.splits res.splits)

text \<open>The answers of a plan are already in the order of their numbers.\<close>

lemma answers_sorted:
  assumes "list_all2 R is os" "sorted (map num is)" "\<And>i j p q. R i p \<Longrightarrow> R j q \<Longrightarrow> num i \<le> num j \<Longrightarrow> key p \<le> (key q :: nat)"
  shows "sorted (map key os)"
proof -
  have len: "length is = length os" using assms(1) by (rule list_all2_lengthD)
  show ?thesis
  proof (rule sorted_iff_nth_mono[THEN iffD2], intro allI impI)
    fix a b assume ab: "a \<le> b" "b < length (map key os)"
    then have "num (is ! a) \<le> num (is ! b)" using sorted_nth_mono[OF assms(2), of a b] len by simp
    with ab len assms(3)[OF list_all2_nthD[OF assms(1), of a] list_all2_nthD[OF assms(1), of b]]
    show "map key os ! a \<le> map key os ! b" by simp
  qed
qed

lemma planned_numbers:
  assumes "\<forall>j<length is. num (is ! j) = j"
  shows "map num is = [0..<length is]"
  using assms by (intro nth_equalityI) simp_all

definition mcopy_plan :: "str \<Rightarrow> nat \<Rightarrow> nat \<Rightarrow> mcopy_input list" where
  "mcopy_plan upload_id p z =
     map (\<lambda>j. \<lparr>mci_upload_id = upload_id, mci_part_number = j, mci_range = part_range p z j\<rparr>) [0..<part_count p z]"

text \<open>How a copy ends: in one request, or with the parts of the whole plan.\<close>

definition mcopy_done ::
  "'s multipart_copy \<Rightarrow> (mcopy_input \<Rightarrow> multipart_part \<Rightarrow> bool) \<Rightarrow> multipart_copier \<Rightarrow> 's \<Rightarrow> bool" where
  "mcopy_done svc A c s \<longleftrightarrow>
     (\<exists>z m s0. cs_completed c \<and> cs_source_size c = Some z \<and> cs_metadata c = Some m \<and>
        (if mcp_upload_id c = None then z \<le> cs_copy_once_threshold c \<and> mcs_copy_once svc s0 = Some (Ok m, s)
         else \<exists>parts. mcs_complete_copy svc (the (mcp_upload_id c)) parts s0 = Some (Ok m, s) \<and>
           list_all2 A (mcopy_plan (the (mcp_upload_id c)) (unat (cs_part_size c)) (unat z)) parts \<and> 0 < unat (cs_part_size c)))"

lemma planned_is_plan:
  assumes "copy_inv (mcopy_planned v p z) R p z c is os" "length is = part_count p z"
  shows "is = mcopy_plan v p z"
  using assms by (intro nth_equalityI) (auto simp: copy_inv_def mcopy_planned_def mcopy_plan_def)

lemma mcopy_finish_done:
  assumes numbered: "copy_numbered A"
    and inv: "copy_inv (mcopy_planned v (unat (cs_part_size c)) (unat z)) (mcopy_answer A) (unat (cs_part_size c)) (unat z) c is os"
    and all: "list_all2 (mcopy_answer A) is os" "length is = part_count (unat (cs_part_size c)) (unat z)"
    and c: "\<not> cs_completed c" "cs_source_size c = Some z" "mcp_upload_id c = Some v" "mcp_parts c = map cpd_part os"
    and fin: "mcopy_finish svc v (c, s) = Some (r, c', s')"
  shows "mcopy_inv A c'" "cs_completed c' \<or> r = Ok None \<Longrightarrow> mcopy_done svc A c' s'" "r \<noteq> Ok (Some n)"
proof -
  have "\<forall>j<length is. mci_part_number (is ! j) = j" using inv by (auto simp: copy_inv_def mcopy_planned_def)
  then have numbers: "map mci_part_number is = [0..<length is]" by (rule planned_numbers)
  have "\<forall>i\<in>set is. br_size (mci_range i) \<noteq> None"
    using inv by (auto simp: copy_inv_def mcopy_planned_def part_range_def in_set_conv_nth)
  then have "A i (cpd_part r)" if "i \<in> set is" "mcopy_answer A i r" for i r using that by (auto simp: mcopy_answer_def)
  with all(1) have answers: "list_all2 A is (mcp_parts c)" unfolding c(4) list_all2_map2 by (auto intro: list.rel_mono_strong)
  have "sorted (map part_number (mcp_parts c))"
    by (rule answers_sorted[OF answers, of mci_part_number]) (use numbered[unfolded copy_numbered_def] in \<open>simp_all add: numbers\<close>)
  then have sorted: "sort_key part_number (mcp_parts c) = mcp_parts c" by (rule sort_key_id_if_sorted)
  have len: "length (mcp_parts c) = cs_next_number c"
    using inv c(4) list_all2_lengthD[OF all(1)] by (simp add: copy_inv_def)
  have "mcopy_finish svc v (c, s) = copy_complete (mcs_complete_copy svc v (mcp_parts c)) (c, s)"
    using len sorted by (simp add: mcopy_finish_def io_with_def io_bind_def io_update_def Let_def)
  with copy_complete_cases fin
  have cases: "(\<exists>md. mcs_complete_copy svc v (mcp_parts c) s = Some (Ok md, s') \<and> r = Ok None \<and>
        c' = c\<lparr>cs_metadata := Some md, cs_completed := True\<rparr>) \<or> (c' = c \<and> (\<forall>x. r \<noteq> Ok x))" by metis
  show "mcopy_inv A c'" using cases inv c by (auto simp: mcopy_inv_def)
  from answers have "list_all2 A (mcopy_plan v (unat (cs_part_size c)) (unat z)) (mcp_parts c)" "0 < unat (cs_part_size c)"
    using planned_is_plan[OF inv all(2)] inv by (simp_all add: copy_inv_def)
  then have "r = Ok None \<longrightarrow> mcopy_done svc A c' s'" using cases c unfolding mcopy_done_def by auto blast
  with cases c(1) show "mcopy_done svc A c' s'" if "cs_completed c' \<or> r = Ok None" using that by auto
  show "r \<noteq> Ok (Some n)" using cases by auto
qed

text \<open>\<open>next\<close> keeps the invariant, and ends the copy only when everything is copied.\<close>

lemma mcopy_next_rest:
  assumes numbered: "copy_numbered A"
    and inv: "copy_inv (mcopy_planned v (unat (cs_part_size c)) (unat z)) (mcopy_answer A) (unat (cs_part_size c)) (unat z) c is os"
    and c: "\<not> cs_completed c" "cs_source_size c = Some z" "mcp_upload_id c = Some v" "mcp_parts c = map cpd_part os"
    and run: "\<forall>k. run_ok (mcopy_answer A) (run k)"
    and rest: "io_bind (mcopy_fill_tasks run v z) (\<lambda>_. io_bind (io_copier (copy_collect run)) (\<lambda>r.
         case r of
           Some result \<Rightarrow>
             io_bind (io_update (\<lambda>c. c\<lparr>mcp_parts := mcp_parts c @ [cpd_part result]\<rparr>)) (\<lambda>_.
             io_ok (Some (unat (cpd_size result))))
         | None \<Rightarrow> mcopy_finish svc v)) (c, s) = Some (r, c', s')"
  shows "mcopy_inv A c' \<and> (cs_completed c' \<or> r = Ok None \<longrightarrow> mcopy_done svc A c' s')"
proof -
  let ?p = "unat (cs_part_size c)" and ?z = "unat z"
  let ?P = "mcopy_planned v ?p ?z" and ?R = "mcopy_answer A"
  let ?mk = "\<lambda>c rng. \<lparr>mci_upload_id = v, mci_part_number = cs_next_number c, mci_range = rng\<rparr>"
  let ?f = "\<lambda>c. (mcp_upload_id c, mcp_parts c, cs_source_size c, cs_completed c, cs_part_size c, cs_copy_once_threshold c)"
  have f: "?f (copy_awaited t c) = ?f c" "?f (c\<lparr>cs_next_offset := a, cs_next_number := b\<rparr>) = ?f c" for t c a b
    by (simp_all add: copy_awaited_def)
  have mk: "?P (cs_next_number c) (?mk c (part_range ?p ?z (cs_next_number c)))" for c :: multipart_copier
    by (simp add: mcopy_planned_def)
  have keep: "mcopy_inv A c1 \<and> \<not> cs_completed c1" if "?f c1 = ?f c" "copy_inv ?P ?R ?p ?z c1 js os" for c1 js
    using that c by (auto simp: mcopy_inv_def)
  from rest show ?thesis
  proof (cases rule: io_bind_cases)
    case (err e)
    then have fill: "copy_fill run ?mk (\<lambda>i c. c) z 0 c = Some (Err e, c')" by (auto simp: mcopy_fill_tasks_def io_copier_def)
    have "fill_keeps ?P ?R ?p z ?f c (Err e, c')"
      by (rule copy_fill_keeps[where P = ?P and p = ?p and f = ?f, OF fill run]) (rule mk f refl)+
    with inv obtain js where "?f c' = ?f c" "copy_inv ?P ?R ?p ?z c' (is @ js) os" unfolding fill_keeps_def by blast
    from keep[OF this] err(2) show ?thesis by simp
  next
    case panic
    then have fill: "copy_fill run ?mk (\<lambda>i c. c) z 0 c = Some (Panic, c')" by (auto simp: mcopy_fill_tasks_def io_copier_def)
    have "fill_keeps ?P ?R ?p z ?f c (Panic, c')"
      by (rule copy_fill_keeps[where P = ?P and p = ?p and f = ?f, OF fill run]) (rule mk f refl)+
    with inv show ?thesis unfolding fill_keeps_def by blast
  next
    case (ok u x1)
    obtain c1 where x1: "x1 = (c1, s)" and fill: "copy_fill run ?mk (\<lambda>i c. c) z 0 c = Some (Ok (), c1)"
      using ok(1) by (auto simp: mcopy_fill_tasks_def io_copier_def)
    note round = copy_round[where P = ?P and f = ?f and c = c and mk = ?mk and note_input = "\<lambda>i c. c", OF inv run mk refl refl f fill]
    from ok(2)[unfolded x1] show ?thesis
    proof (cases rule: io_bind_cases)
      case (err e)
      then have "copy_collect run c1 = Some (Err e, c')" by (auto simp: io_copier_def)
      from round[OF this] obtain js where "?f c' = ?f c" "copy_inv ?P ?R ?p ?z c' js os" by auto
      from keep[OF this] err(2) show ?thesis by simp
    next
      case panic
      then have "copy_collect run c1 = Some (Panic, c')" by (auto simp: io_copier_def)
      from round[OF this] show ?thesis by simp
    next
      case (ok q x2)
      obtain c2 where x2: "x2 = (c2, s)" and co: "copy_collect run c1 = Some (Ok q, c2)" using ok(1) by (auto simp: io_copier_def)
      note res = round[OF co]
      show ?thesis
      proof (cases q)
        case None
        with res obtain js where js: "?f c2 = ?f c" "copy_inv ?P ?R ?p ?z c2 js os" "list_all2 ?R js os" "length js = part_count ?p ?z"
          by auto
        have p: "cs_part_size c2 = cs_part_size c" using js(1) by simp
        from ok(2) None have "mcopy_finish svc v (c2, s) = Some (r, c', s')" by (simp add: x2)
        from mcopy_finish_done[OF numbered js(2)[folded p] js(3) js(4)[folded p] _ _ _ _ this] js(1) c show ?thesis by simp
      next
        case (Some y)
        with res obtain js where js: "?f c2 = ?f c" "copy_inv ?P ?R ?p ?z c2 js (os @ [y])" by auto
        from ok(2) Some have r: "c' = c2\<lparr>mcp_parts := mcp_parts c2 @ [cpd_part y]\<rparr>" "r = Ok (Some (unat (cpd_size y)))"
          by (auto simp: x2 io_defs)
        have "copy_inv ?P ?R ?p ?z c' js (os @ [y])" by (rule copy_inv_core[OF js(2)]) (simp add: r copy_core_def)
        with js(1) c r show ?thesis by (auto simp: mcopy_inv_def intro!: exI[of _ "os @ [y]"])
      qed
    qed
  qed
qed

lemma mcopy_upload_id_cases:
  assumes "mcopy_upload_id svc (c, s) = Some (q, c1, s1)"
  shows "(\<forall>v. q = Ok v \<longrightarrow> c1 = c\<lparr>mcp_upload_id := Some v\<rparr> \<and> (mcp_upload_id c = None \<or> mcp_upload_id c = Some v)) \<and>
    ((\<forall>v. q \<noteq> Ok v) \<longrightarrow> c1 = c)"
  using assms by (cases c) (auto simp: mcopy_upload_id_def io_defs split: option.splits res.splits)

lemma mcopy_inv_source:
  assumes "mcopy_inv A c" "cs_source_size c = None \<or> cs_source_size c = Some z"
  shows "mcopy_inv A (c\<lparr>cs_source_size := Some z\<rparr>)"
proof -
  have core: "copy_core (c\<lparr>cs_source_size := Some z\<rparr>) = copy_core c" by (simp add: copy_core_def)
  show ?thesis using assms copy_inv_core[OF _ core] unfolding mcopy_inv_def by (cases "mcp_upload_id c") (auto, blast)
qed

text \<open>The state when the tasks are filled: the upload has begun.\<close>

lemma mcopy_inv_begun:
  assumes "mcopy_inv A c" "\<not> cs_completed c" "cs_source_size c = Some z" "mcp_upload_id c = None \<or> mcp_upload_id c = Some v"
  shows "\<exists>is os. mcp_parts c = map cpd_part os \<and>
    copy_inv (mcopy_planned v (unat (cs_part_size c)) (unat z)) (mcopy_answer A) (unat (cs_part_size c)) (unat z)
      (c\<lparr>mcp_upload_id := Some v\<rparr>) is os"
proof (cases "mcp_upload_id c")
  case None
  with assms have "mcp_parts c = []" "copy_inv (\<lambda>j i. True) (mcopy_answer A) (unat (cs_part_size c)) 0 c [] []"
    by (auto simp: mcopy_inv_def)
  with copy_inv_empty[OF this(2) unat_lt_u64[of z], of "mcopy_planned v (unat (cs_part_size c)) (unat z)"] show ?thesis
    by (intro exI[of _ "[]"]) (auto intro: copy_inv_core simp: copy_core_def)
next
  case (Some w)
  with assms obtain "is" os where "mcp_parts c = map cpd_part os"
    "copy_inv (mcopy_planned v (unat (cs_part_size c)) (unat z)) (mcopy_answer A) (unat (cs_part_size c)) (unat z) c is os"
    by (auto simp: mcopy_inv_def)
  moreover have "c\<lparr>mcp_upload_id := Some v\<rparr> = c" using Some assms(4) by (cases c) simp
  ultimately show ?thesis by auto
qed

lemma mcopy_next_sized:
  assumes numbered: "copy_numbered A" and inv: "mcopy_inv A c" and run: "\<forall>k. run_ok (mcopy_answer A) (run k)" and c: "\<not> cs_completed c" "cs_source_size c = Some z"
    and nx: "(if mcp_upload_id c0 = None \<and> z \<le> cs_copy_once_threshold c0 then copy_complete (mcs_copy_once svc)
       else
         io_bind (if mcp_upload_id c0 = None then io_res (validate_part_count c0 z) else io_ok ()) (\<lambda>_.
         io_bind (mcopy_upload_id svc) (\<lambda>upload_id.
         io_bind (mcopy_fill_tasks run upload_id z) (\<lambda>_.
         io_bind (io_copier (copy_collect run)) (\<lambda>r.
         case r of
           Some result \<Rightarrow>
             io_bind (io_update (\<lambda>c. c\<lparr>mcp_parts := mcp_parts c @ [cpd_part result]\<rparr>)) (\<lambda>_.
             io_ok (Some (unat (cpd_size result))))
         | None \<Rightarrow> mcopy_finish svc upload_id))))) (c, s) = Some (r, c', s')"
    and c0: "c = c0\<lparr>cs_source_size := Some z\<rparr>"
  shows "mcopy_inv A c' \<and> (cs_completed c' \<or> r = Ok None \<longrightarrow> mcopy_done svc A c' s')"
proof (cases "mcp_upload_id c0 = None \<and> z \<le> cs_copy_once_threshold c0")
  case True
  with nx have "copy_complete (mcs_copy_once svc) (c, s) = Some (r, c', s')" by simp
  from copy_complete_cases[OF this] True inv c c0 show ?thesis by (auto simp: mcopy_inv_def mcopy_done_def)
next
  case False
  note nx = nx[unfolded if_not_P[OF False]]
  from nx show ?thesis
  proof (cases rule: io_bind_cases)
    case (ok u x1)
    then have x1: "x1 = (c, s)" by (auto simp: io_defs split: if_splits)
    from ok(2)[unfolded x1] show ?thesis
    proof (cases rule: io_bind_cases)
      case (ok v x2)
      obtain c2 s2 where x2: "x2 = (c2, s2)" by (cases x2)
      from mcopy_upload_id_cases[OF ok(1)[unfolded x2]]
      have up: "c2 = c\<lparr>mcp_upload_id := Some v\<rparr>" "mcp_upload_id c = None \<or> mcp_upload_id c = Some v" by auto
      from mcopy_inv_begun[OF inv c up(2)] obtain "is" os where b: "mcp_parts c = map cpd_part os"
        "copy_inv (mcopy_planned v (unat (cs_part_size c2)) (unat z)) (mcopy_answer A) (unat (cs_part_size c2)) (unat z) c2 is os"
        by (auto simp: up(1))
      from mcopy_next_rest[OF numbered b(2) _ _ _ _ run ok(2)[unfolded x2]] b(1) c up(1) show ?thesis by simp
    next
      case (err e)
      with mcopy_upload_id_cases[of svc c s "Err e" c' s'] inv c(1) show ?thesis by auto
    next
      case panic
      with mcopy_upload_id_cases[of svc c s Panic c' s'] inv c(1) show ?thesis by auto
    qed
  qed (use inv c(1) in \<open>auto simp: io_defs split: if_splits\<close>)
qed

lemma mcopy_next_step:
  assumes numbered: "copy_numbered A" and inv: "mcopy_inv A c" and run: "\<forall>k. run_ok (mcopy_answer A) (run k)"
    and nx: "mcopy_next svc run (c, s) = Some (r, c', s')"
  shows "mcopy_inv A c' \<and> (\<not> cs_completed c \<longrightarrow> cs_completed c' \<or> r = Ok None \<longrightarrow> mcopy_done svc A c' s')"
proof (cases "cs_completed c")
  case True
  with nx inv show ?thesis by (auto simp: mcopy_next_def io_defs)
next
  case False
  from nx[unfolded mcopy_next_def io_with_def prod.case if_not_P[OF False]] show ?thesis
  proof (cases rule: io_bind_cases)
    case (ok z x1)
    obtain c1 s1 where x1: "x1 = (c1, s1)" by (cases x1)
    from copy_source_size_cases[OF ok(1)[unfolded x1]]
    have src: "c1 = c\<lparr>cs_source_size := Some z\<rparr>" "cs_source_size c = None \<or> cs_source_size c = Some z" by auto
    from mcopy_next_sized[OF numbered mcopy_inv_source[OF inv src(2)] run _ _ ok(2)[unfolded x1 src(1)] refl] False show ?thesis by simp
  next
    case (err e)
    with copy_source_size_cases[of "mcs_source_metadata svc" c s "Err e" c' s'] inv show ?thesis by auto
  next
    case panic
    with copy_source_size_cases[of "mcs_source_metadata svc" c s Panic c' s'] inv show ?thesis by auto
  qed
qed

text \<open>The states of a copier, with the tasks completing at any time.\<close>

definition copy_task_done ::
  "('i \<Rightarrow> error + 'o) \<Rightarrow> nat \<Rightarrow> ('i, 'o, 'z) copy_state_scheme \<Rightarrow> ('i, 'o, 'z) copy_state_scheme" where
  "copy_task_done run k c = c\<lparr>cs_tasks := ct_complete run k (cs_tasks c)\<rparr>"

inductive mcopy_reach ::
  "'s multipart_copy \<Rightarrow> (mcopy_input \<Rightarrow> multipart_part \<Rightarrow> bool) \<Rightarrow> u64 \<Rightarrow> multipart_copier \<Rightarrow> bool" for svc A psize where
  mreach_new: "mcopy_reach svc A psize (mcopy_new cap hint thr psize conc)"
| mreach_complete: "mcopy_reach svc A psize c \<Longrightarrow> mcopy_runs A run \<Longrightarrow> mcopy_reach svc A psize (copy_task_done run k c)"
| mreach_next: "mcopy_reach svc A psize c \<Longrightarrow> \<forall>k. mcopy_runs A (run k) \<Longrightarrow>
    mcopy_next svc run (c, s) = Some (r, c', s') \<Longrightarrow> mcopy_reach svc A psize c'"

lemma copy_inv_task_done:
  assumes "copy_inv P R p z c is os" "run_ok R run"
  shows "copy_inv P R p z (copy_task_done run k c) is os"
  using assms ct_inv_complete[of R "cs_concurrent c" 8192 "cs_tasks c" "is" os run k] by (auto simp: copy_inv_def copy_task_done_def)

lemma mcopy_inv_task_done:
  assumes "mcopy_inv A c" "run_ok (mcopy_answer A) run"
  shows "mcopy_inv A (copy_task_done run k c)"
proof -
  have same: "cs_completed (copy_task_done run k c) = cs_completed c" "mcp_upload_id (copy_task_done run k c) = mcp_upload_id c"
    "mcp_parts (copy_task_done run k c) = mcp_parts c" "cs_part_size (copy_task_done run k c) = cs_part_size c"
    "cs_source_size (copy_task_done run k c) = cs_source_size c"
    by (simp_all add: copy_task_done_def)
  show ?thesis
  proof (cases "cs_completed c \<or> mcp_upload_id c = None")
    case True
    with assms(1) copy_inv_task_done[OF _ assms(2), of _ _ _ c] show ?thesis unfolding mcopy_inv_def same by auto
  next
    case False
    then obtain v where v: "mcp_upload_id c = Some v" by blast
    with False assms(1) obtain z "is" os where "cs_source_size c = Some z" "mcp_parts c = map cpd_part os"
      "copy_inv (mcopy_planned v (unat (cs_part_size c)) (unat z)) (mcopy_answer A) (unat (cs_part_size c)) (unat z) c is os"
      by (auto simp: mcopy_inv_def)
    with copy_inv_task_done[OF this(3) assms(2), of k] v show ?thesis unfolding mcopy_inv_def same by auto
  qed
qed

lemma mcopy_reach_inv:
  assumes numbered: "copy_numbered A" and size: "0 < psize"
  shows "mcopy_reach svc A psize c \<Longrightarrow> mcopy_inv A c"
proof (induction rule: mcopy_reach.induct)
  case (mreach_new cap hint thr conc)
  from size show ?case by (intro mcopy_inv_new) (simp add: word_less_nat_alt)
next
  case (mreach_complete c run k)
  then show ?case by (simp add: mcopy_inv_task_done mcopy_runs_ok)
next
  case (mreach_next c run s r c' s')
  then have "\<forall>k. run_ok (mcopy_answer A) (run k)" by (simp add: mcopy_runs_ok)
  from mcopy_next_step[OF numbered mreach_next.IH this mreach_next.hyps(3)] show ?case ..
qed

text \<open>\<open>close\<close> is \<open>next\<close> until the copy is completed.\<close>

lemma copy_close_induct:
  assumes close: "copy_close_loop nx c s = Some (Ok m, c', s')" and I: "I c" "\<not> cs_completed c"
    and step: "\<And>c s r c' s'. I c \<Longrightarrow> \<not> cs_completed c \<Longrightarrow> nx (c, s) = Some (Ok r, c', s') \<Longrightarrow>
      I c' \<and> (cs_completed c' \<longrightarrow> D c' s')"
  shows "D c' s' \<and> cs_completed c' \<and> m = (case cs_metadata c' of Some m \<Rightarrow> m | None \<Rightarrow> metadata_default)"
proof -
  let ?Q = "\<lambda>z. case z of (r, c', s') \<Rightarrow> r = Ok m \<longrightarrow>
    D c' s' \<and> cs_completed c' \<and> m = (case cs_metadata c' of Some m \<Rightarrow> m | None \<Rightarrow> metadata_default)"
  have "nx' = nx \<longrightarrow> I c \<longrightarrow> (cs_completed c \<longrightarrow> D c s) \<longrightarrow> ?Q z" if "copy_close_loop nx' c s = Some z" for nx' c s z
  proof (rule copy_close_loop.raw_induct[OF _ that, where P = "\<lambda>nx' c s z. nx' = nx \<longrightarrow> I c \<longrightarrow> (cs_completed c \<longrightarrow> D c s) \<longrightarrow> ?Q z"], goal_cases)
    case (1 loop nx' c s z)
    show ?case
    proof (intro impI)
      assume a: "nx' = nx" "I c" "cs_completed c \<longrightarrow> D c s"
      show "?Q z"
      proof (cases "cs_completed c")
        case True
        with 1(2) have "z = (Ok (case cs_metadata c of Some m \<Rightarrow> m | None \<Rightarrow> metadata_default), c, s)" by simp
        with a True show ?thesis by simp
      next
        case False
        show ?thesis
        proof (cases "\<exists>r c1 s1. nx (c, s) = Some (Ok r, c1, s1)")
          case True
          then obtain r c1 s1 where r: "nx (c, s) = Some (Ok r, c1, s1)" by blast
          with 1(2) a(1) False have "loop nx c1 s1 = Some z" by simp
          from 1(1)[OF this] step[OF a(2) False r] show ?thesis by blast
        next
          case err: False
          with 1(2) a(1) False show ?thesis by (auto split: option.splits res.splits)
        qed
      qed
    qed
  qed
  from this[OF close] I show ?thesis unfolding prod.case by blast
qed

lemma mcopy_done_parts:
  assumes "mcopy_done svc A c s"
  shows "\<exists>z m s0. cs_source_size c = Some z \<and> cs_metadata c = Some m \<and>
    (mcp_upload_id c = None \<and> mcs_copy_once svc s0 = Some (Ok m, s) \<or>
     (\<exists>v is parts. mcp_upload_id c = Some v \<and> mcs_complete_copy svc v parts s0 = Some (Ok m, s) \<and>
        list_all2 A is parts \<and> map mci_part_number is = [0..<length is] \<and> (\<forall>i\<in>set is. mci_upload_id i = v) \<and>
        (\<forall>content. length content = unat z \<longrightarrow> concat (map (\<lambda>i. requested (mci_range i) content) is) = content)))"
proof -
  from assms obtain z m s0 where d: "cs_source_size c = Some z" "cs_metadata c = Some m"
    "if mcp_upload_id c = None then z \<le> cs_copy_once_threshold c \<and> mcs_copy_once svc s0 = Some (Ok m, s)
     else \<exists>parts. mcs_complete_copy svc (the (mcp_upload_id c)) parts s0 = Some (Ok m, s) \<and>
       list_all2 A (mcopy_plan (the (mcp_upload_id c)) (unat (cs_part_size c)) (unat z)) parts \<and> 0 < unat (cs_part_size c)"
    unfolding mcopy_done_def by blast
  show ?thesis
  proof (cases "mcp_upload_id c")
    case None
    with d show ?thesis by auto
  next
    case (Some v)
    let ?is = "mcopy_plan v (unat (cs_part_size c)) (unat z)"
    from d(3) Some obtain parts where parts: "mcs_complete_copy svc v parts s0 = Some (Ok m, s)" "list_all2 A ?is parts"
      "0 < unat (cs_part_size c)" by auto
    have "map mci_part_number ?is = [0..<length ?is]" "\<forall>i\<in>set ?is. mci_upload_id i = v"
      by (auto simp: mcopy_plan_def comp_def)
    moreover have "concat (map (\<lambda>i. requested (mci_range i) content) ?is) = content" if "length content = unat z" for content
      using parts_make_up_all[OF parts(3), of content] that unat_lt_u64[of z] by (simp add: mcopy_plan_def comp_def)
    ultimately show ?thesis using d(1,2) Some parts by blast
  qed
qed

section \<open>BlockCopier: invariant\<close>

definition bcopy_planned :: "nat \<Rightarrow> nat \<Rightarrow> nat \<Rightarrow> 'u bcopy_input \<Rightarrow> bool" where
  "bcopy_planned p z j i \<longleftrightarrow> bci_block_number i = j \<and> bci_range i = part_range p z j"

text \<open>\<open>W v rng\<close>: the service has copied the range \<open>rng\<close> to the block \<open>v\<close>.\<close>

definition bcopy_answer :: "('u \<Rightarrow> bytes_range \<Rightarrow> bool) \<Rightarrow> 'u bcopy_input \<Rightarrow> 'u copied_block \<Rightarrow> bool" where
  "bcopy_answer W i r \<longleftrightarrow> W (bci_block_id i) (bci_range i) \<and> cbd_block_id r = bci_block_id i \<and>
     cbd_block_number r = bci_block_number i \<and> (\<forall>n. br_size (bci_range i) = Some n \<longrightarrow> cbd_size r = n)"

definition block_of :: "'u copied_block \<Rightarrow> usize \<times> 'u" where
  "block_of r = (cbd_block_number r, cbd_block_id r)"

text \<open>A copy that has not begun has no inputs; the size of the source may then still be unknown.\<close>

definition bcopy_inv :: "('u \<Rightarrow> bytes_range \<Rightarrow> bool) \<Rightarrow> 'u block_copier \<Rightarrow> bool" where
  "bcopy_inv W c \<longleftrightarrow> cs_completed c \<or>
     (\<exists>z is os. copy_inv (bcopy_planned (unat (cs_part_size c)) z) (bcopy_answer W) (unat (cs_part_size c)) z c is os \<and>
        bcp_block_ids c = map block_of os \<and> (case cs_source_size c of None \<Rightarrow> is = [] \<and> os = [] | Some n \<Rightarrow> z = unat n))"

definition bcopy_done :: "('s, 'u) block_copy \<Rightarrow> ('u \<Rightarrow> bytes_range \<Rightarrow> bool) \<Rightarrow> 'u block_copier \<Rightarrow> 's \<Rightarrow> bool" where
  "bcopy_done svc W c s \<longleftrightarrow>
     (\<exists>z m s0. cs_completed c \<and> cs_source_size c = Some z \<and> cs_metadata c = Some m \<and>
        (z \<le> cs_copy_once_threshold c \<and> bcs_copy_once svc s0 = Some (Ok m, s) \<or>
         (\<exists>ids. bcs_complete_block svc ids s0 = Some (Ok m, s) \<and> 0 < unat (cs_part_size c) \<and>
           list_all2 W ids (map (part_range (unat (cs_part_size c)) (unat z)) [0..<part_count (unat (cs_part_size c)) (unat z)]))))"

lemma bcopy_inv_new: "0 < unat psize \<Longrightarrow> bcopy_inv W (bcopy_new hint thr psize conc)"
  by (auto simp: bcopy_inv_def bcopy_new_def copy_inv_def ct_inv_new Let_def unat_lt_u64[simplified]
      intro!: exI[of _ "case hint of None \<Rightarrow> 0 | Some n \<Rightarrow> unat n"] split: option.splits)

lemma bcopy_finish_done:
  assumes inv: "copy_inv (bcopy_planned (unat (cs_part_size c)) (unat z)) (bcopy_answer W) (unat (cs_part_size c)) (unat z) c is os"
    and all: "list_all2 (bcopy_answer W) is os" "length is = part_count (unat (cs_part_size c)) (unat z)"
    and c: "\<not> cs_completed c" "cs_source_size c = Some z" "bcp_block_ids c = map block_of os"
    and fin: "bcopy_finish svc (c, s) = Some (r, c', s')"
  shows "bcopy_inv W c' \<and> (cs_completed c' \<or> r = Ok None \<longrightarrow> bcopy_done svc W c' s')"
proof -
  let ?p = "unat (cs_part_size c)"
  have num: "\<forall>j<length is. bci_block_number (is ! j) = j" using inv by (auto simp: copy_inv_def bcopy_planned_def)
  have "sorted (map (\<lambda>r. fst (block_of r)) os)"
    by (rule answers_sorted[OF all(1), of bci_block_number]) (simp_all add: planned_numbers[OF num] bcopy_answer_def block_of_def)
  then have "sorted (map fst (bcp_block_ids c))" by (simp add: c(3) comp_def)
  then have sorted: "sort_key fst (bcp_block_ids c) = bcp_block_ids c" by (rule sort_key_id_if_sorted)
  have len: "length (bcp_block_ids c) = cs_next_number c"
    using inv c(3) list_all2_lengthD[OF all(1)] by (simp add: copy_inv_def)
  have "bcopy_finish svc (c, s) = copy_complete (bcs_complete_block svc (map snd (bcp_block_ids c))) (c, s)"
    using len sorted by (simp add: bcopy_finish_def io_with_def io_bind_def io_update_def Let_def)
  with copy_complete_cases fin
  have cases: "(\<exists>md. bcs_complete_block svc (map snd (bcp_block_ids c)) s = Some (Ok md, s') \<and> r = Ok None \<and>
        c' = c\<lparr>cs_metadata := Some md, cs_completed := True\<rparr>) \<or> (c' = c \<and> (\<forall>x. r \<noteq> Ok x))" by metis
  have "list_all2 W (map snd (bcp_block_ids c)) (map (part_range ?p (unat z)) [0..<part_count ?p (unat z)])"
  proof (rule list_all2_all_nthI)
    show "length (map snd (bcp_block_ids c)) = length (map (part_range ?p (unat z)) [0..<part_count ?p (unat z)])"
      using list_all2_lengthD[OF all(1)] all(2) c(3) by simp
    fix j assume "j < length (map snd (bcp_block_ids c))"
    then have j: "j < length is" "j < length os" using list_all2_lengthD[OF all(1)] c(3) by simp_all
    from list_all2_nthD[OF all(1) j(1)] inv j all(2)
    show "W (map snd (bcp_block_ids c) ! j) (map (part_range ?p (unat z)) [0..<part_count ?p (unat z)] ! j)"
      by (auto simp: c(3) block_of_def bcopy_answer_def copy_inv_def bcopy_planned_def)
  qed
  moreover have "0 < ?p" using inv by (simp add: copy_inv_def)
  ultimately have "r = Ok None \<longrightarrow> bcopy_done svc W c' s'" using cases c unfolding bcopy_done_def by auto blast
  moreover have "cs_completed c' \<longrightarrow> r = Ok None" using cases c(1) by auto
  moreover have "bcopy_inv W c'" using cases inv c unfolding bcopy_inv_def by auto blast
  ultimately show ?thesis by blast
qed

lemma bcopy_next_rest:
  assumes inv: "copy_inv (bcopy_planned (unat (cs_part_size c)) (unat z)) (bcopy_answer W) (unat (cs_part_size c)) (unat z) c is os"
    and c: "\<not> cs_completed c" "cs_source_size c = Some z" "bcp_block_ids c = map block_of os"
    and run: "\<forall>k. run_ok (bcopy_answer W) (run k)"
    and rest: "io_bind (bcopy_fill_tasks new_v4 run z) (\<lambda>_. io_bind (io_copier (copy_collect run)) (\<lambda>r.
         case r of
           Some result \<Rightarrow>
             io_bind (io_update (\<lambda>c. c\<lparr>bcp_block_ids := bcp_block_ids c @ [(cbd_block_number result, cbd_block_id result)]\<rparr>)) (\<lambda>_.
             io_ok (Some (unat (cbd_size result))))
         | None \<Rightarrow> bcopy_finish svc)) (c, s) = Some (r, c', s')"
  shows "bcopy_inv W c' \<and> (cs_completed c' \<or> r = Ok None \<longrightarrow> bcopy_done svc W c' s')"
proof -
  let ?p = "unat (cs_part_size c)" and ?z = "unat z"
  let ?P = "bcopy_planned ?p ?z" and ?R = "bcopy_answer W"
  let ?mk = "\<lambda>c rng. \<lparr>bci_block_id = new_v4 (cs_awaits c), bci_block_number = cs_next_number c, bci_range = rng\<rparr>"
  let ?nt = "\<lambda>i c. c\<lparr>bcp_scheduled_block_ids := bcp_scheduled_block_ids c @ [bci_block_id i]\<rparr>"
  let ?f = "\<lambda>c. (bcp_block_ids c, cs_source_size c, cs_completed c, cs_part_size c, cs_copy_once_threshold c)"
  have f: "?f (copy_awaited t c) = ?f c" "?f (c\<lparr>cs_next_offset := a, cs_next_number := b\<rparr>) = ?f c" for t c a b
    by (simp_all add: copy_awaited_def)
  have nt: "copy_core (?nt i c) = copy_core c" "?f (?nt i c) = ?f c" for i c by (simp_all add: copy_core_def)
  have mk: "?P (cs_next_number c) (?mk c (part_range ?p ?z (cs_next_number c)))" for c :: "'a block_copier"
    by (simp add: bcopy_planned_def)
  have keep: "bcopy_inv W c1 \<and> \<not> cs_completed c1" if "?f c1 = ?f c" "copy_inv ?P ?R ?p ?z c1 js os" for c1 js
    unfolding bcopy_inv_def using that c by (intro conjI disjI2 exI[of _ ?z] exI[of _ js] exI[of _ os]) auto
  from rest show ?thesis
  proof (cases rule: io_bind_cases)
    case (err e)
    then have fill: "copy_fill run ?mk ?nt z 0 c = Some (Err e, c')" by (auto simp: bcopy_fill_tasks_def io_copier_def)
    have "fill_keeps ?P ?R ?p z ?f c (Err e, c')"
      by (rule copy_fill_keeps[where P = ?P and p = ?p and f = ?f, OF fill run]) (rule mk f nt)+
    with inv obtain js where "?f c' = ?f c" "copy_inv ?P ?R ?p ?z c' (is @ js) os" unfolding fill_keeps_def by blast
    from keep[OF this] err(2) show ?thesis by simp
  next
    case panic
    then have fill: "copy_fill run ?mk ?nt z 0 c = Some (Panic, c')" by (auto simp: bcopy_fill_tasks_def io_copier_def)
    have "fill_keeps ?P ?R ?p z ?f c (Panic, c')"
      by (rule copy_fill_keeps[where P = ?P and p = ?p and f = ?f, OF fill run]) (rule mk f nt)+
    with inv show ?thesis unfolding fill_keeps_def by blast
  next
    case (ok u x1)
    obtain c1 where x1: "x1 = (c1, s)" and fill: "copy_fill run ?mk ?nt z 0 c = Some (Ok (), c1)"
      using ok(1) by (auto simp: bcopy_fill_tasks_def io_copier_def)
    note round = copy_round[where P = ?P and f = ?f and c = c and mk = ?mk and note_input = ?nt, OF inv run mk nt f fill]
    from ok(2)[unfolded x1] show ?thesis
    proof (cases rule: io_bind_cases)
      case (err e)
      then have "copy_collect run c1 = Some (Err e, c')" by (auto simp: io_copier_def)
      from round[OF this] obtain js where "?f c' = ?f c" "copy_inv ?P ?R ?p ?z c' js os" by auto
      from keep[OF this] err(2) show ?thesis by simp
    next
      case panic
      then have "copy_collect run c1 = Some (Panic, c')" by (auto simp: io_copier_def)
      from round[OF this] show ?thesis by simp
    next
      case (ok q x2)
      obtain c2 where x2: "x2 = (c2, s)" and co: "copy_collect run c1 = Some (Ok q, c2)" using ok(1) by (auto simp: io_copier_def)
      note res = round[OF co]
      show ?thesis
      proof (cases q)
        case None
        with res obtain js where js: "?f c2 = ?f c" "copy_inv ?P ?R ?p ?z c2 js os" "list_all2 ?R js os" "length js = part_count ?p ?z"
          by auto
        have p: "cs_part_size c2 = cs_part_size c" using js(1) by simp
        from ok(2) None have "bcopy_finish svc (c2, s) = Some (r, c', s')" by (simp add: x2)
        from bcopy_finish_done[OF js(2)[folded p] js(3) js(4)[folded p] _ _ _ this] js(1) c show ?thesis by simp
      next
        case (Some y)
        with res obtain js where js: "?f c2 = ?f c" "copy_inv ?P ?R ?p ?z c2 js (os @ [y])" by auto
        from ok(2) Some have r: "c' = c2\<lparr>bcp_block_ids := bcp_block_ids c2 @ [block_of y]\<rparr>" "r = Ok (Some (unat (cbd_size y)))"
          by (auto simp: x2 io_defs block_of_def)
        have "copy_inv ?P ?R ?p ?z c' js (os @ [y])" by (rule copy_inv_core[OF js(2)]) (simp add: r copy_core_def)
        then have "bcopy_inv W c'"
          unfolding bcopy_inv_def using js(1) c r by (intro disjI2 exI[of _ ?z] exI[of _ js] exI[of _ "os @ [y]"]) auto
        with r js(1) c(1) show ?thesis by simp
      qed
    qed
  qed
qed

lemma bcopy_next_step:
  assumes inv: "bcopy_inv W c" and run: "\<forall>k. run_ok (bcopy_answer W) (run k)"
    and nx: "bcopy_next svc new_v4 run (c, s) = Some (r, c', s')"
  shows "bcopy_inv W c' \<and> (\<not> cs_completed c \<longrightarrow> cs_completed c' \<or> r = Ok None \<longrightarrow> bcopy_done svc W c' s')"
proof (cases "cs_completed c")
  case True
  with nx inv show ?thesis by (auto simp: bcopy_next_def io_defs)
next
  case False
  from nx[unfolded bcopy_next_def io_with_def prod.case if_not_P[OF False]] show ?thesis
  proof (cases rule: io_bind_cases)
    case (ok z x1)
    obtain c1 s1 where x1: "x1 = (c1, s1)" by (cases x1)
    from copy_source_size_cases[OF ok(1)[unfolded x1]]
    have src: "c1 = c\<lparr>cs_source_size := Some z\<rparr>" "cs_source_size c = None \<or> cs_source_size c = Some z" by auto
    have core: "copy_core c1 = copy_core c" by (simp add: src(1) copy_core_def)
    let ?p = "unat (cs_part_size c)"
    from inv False obtain y "is" os where y: "copy_inv (bcopy_planned ?p y) (bcopy_answer W) ?p y c is os"
      "bcp_block_ids c = map block_of os" "case cs_source_size c of None \<Rightarrow> is = [] \<and> os = [] | Some n \<Rightarrow> y = unat n"
      by (auto simp: bcopy_inv_def)
    have "copy_inv (bcopy_planned ?p (unat z)) (bcopy_answer W) ?p (unat z) c is os"
      using y src(2) copy_inv_empty[of _ _ ?p y c "unat z"] unat_lt_u64[of z] by auto
    from copy_inv_core[OF this core]
    have inv1: "copy_inv (bcopy_planned (unat (cs_part_size c1)) (unat z)) (bcopy_answer W) (unat (cs_part_size c1)) (unat z) c1 is os"
      by (simp add: src(1))
    have c1: "\<not> cs_completed c1" "cs_source_size c1 = Some z" "bcp_block_ids c1 = map block_of os" using False y(2) by (simp_all add: src(1))
    show ?thesis
    proof (cases "bcp_block_ids c = [] \<and> z \<le> cs_copy_once_threshold c")
      case True
      with ok(2) have "copy_complete (bcs_copy_once svc) (c1, s1) = Some (r, c', s')" by (simp add: x1)
      from copy_complete_cases[OF this] show ?thesis
      proof
        assume "\<exists>md. bcs_copy_once svc s1 = Some (Ok md, s') \<and> r = Ok None \<and> c' = c1\<lparr>cs_metadata := Some md, cs_completed := True\<rparr>"
        then show ?thesis using True by (auto simp: bcopy_inv_def bcopy_done_def src(1))
      next
        assume "c' = c1 \<and> (\<forall>x. r \<noteq> Ok x)"
        then show ?thesis unfolding bcopy_inv_def using inv1 c1 by (auto intro!: exI[of _ "unat z"])
      qed
    next
      case two: False
      from bcopy_next_rest[OF inv1 c1 run ok(2)[unfolded x1 if_not_P[OF two]]] show ?thesis by simp
    qed
  next
    case (err e)
    with copy_source_size_cases[of "bcs_source_metadata svc" c s "Err e" c' s'] inv show ?thesis by auto
  next
    case panic
    with copy_source_size_cases[of "bcs_source_metadata svc" c s Panic c' s'] inv show ?thesis by auto
  qed
qed

inductive bcopy_reach :: "('s, 'u) block_copy \<Rightarrow> ('u \<Rightarrow> bytes_range \<Rightarrow> bool) \<Rightarrow> u64 \<Rightarrow> 'u block_copier \<Rightarrow> bool" for svc W psize where
  breach_new: "bcopy_reach svc W psize (bcopy_new hint thr psize conc)"
| breach_complete: "bcopy_reach svc W psize c \<Longrightarrow> run_ok (bcopy_answer W) run \<Longrightarrow> bcopy_reach svc W psize (copy_task_done run k c)"
| breach_next: "bcopy_reach svc W psize c \<Longrightarrow> \<forall>k. run_ok (bcopy_answer W) (run k) \<Longrightarrow>
    bcopy_next svc new_v4 run (c, s) = Some (r, c', s') \<Longrightarrow> bcopy_reach svc W psize c'"

lemma bcopy_inv_task_done:
  assumes "bcopy_inv W c" "run_ok (bcopy_answer W) run"
  shows "bcopy_inv W (copy_task_done run k c)"
proof -
  have same: "cs_completed (copy_task_done run k c) = cs_completed c" "bcp_block_ids (copy_task_done run k c) = bcp_block_ids c"
    "cs_part_size (copy_task_done run k c) = cs_part_size c" "cs_source_size (copy_task_done run k c) = cs_source_size c"
    by (simp_all add: copy_task_done_def)
  show ?thesis using assms(1) copy_inv_task_done[OF _ assms(2), of _ _ _ c] unfolding bcopy_inv_def same by blast
qed

lemma bcopy_reach_inv: "bcopy_reach svc W psize c \<Longrightarrow> 0 < psize \<Longrightarrow> bcopy_inv W c"
proof (induction rule: bcopy_reach.induct)
  case (breach_new hint thr conc)
  then show ?case by (intro bcopy_inv_new) (simp add: word_less_nat_alt)
next
  case (breach_complete c run k)
  then show ?case by (simp add: bcopy_inv_task_done)
next
  case (breach_next c run new_v4 s r c' s')
  from bcopy_next_step[OF breach_next.IH[OF breach_next.prems] breach_next.hyps(2,3)] show ?case ..
qed

lemma bcopy_done_blocks:
  assumes "bcopy_done svc W c s"
  shows "\<exists>z m s0. cs_source_size c = Some z \<and> cs_metadata c = Some m \<and>
    (bcs_copy_once svc s0 = Some (Ok m, s) \<or>
     (\<exists>ids rngs. bcs_complete_block svc ids s0 = Some (Ok m, s) \<and> list_all2 W ids rngs \<and>
        (\<forall>content. length content = unat z \<longrightarrow> concat (map (\<lambda>rng. requested rng content) rngs) = content)))"
proof -
  let ?p = "unat (cs_part_size c)"
  from assms obtain z m s0 where d: "cs_source_size c = Some z" "cs_metadata c = Some m"
    "bcs_copy_once svc s0 = Some (Ok m, s) \<or> (\<exists>ids. bcs_complete_block svc ids s0 = Some (Ok m, s) \<and> 0 < ?p \<and>
       list_all2 W ids (map (part_range ?p (unat z)) [0..<part_count ?p (unat z)]))"
    unfolding bcopy_done_def by blast
  have "concat (map (\<lambda>rng. requested rng content) (map (part_range ?p (unat z)) [0..<part_count ?p (unat z)])) = content"
    if "0 < ?p" "length content = unat z" for content
    using parts_make_up_all[OF that(1), of content] that(2) unat_lt_u64[of z] by (simp add: comp_def)
  with d show ?thesis by blast
qed

end
