(* ===== verification/Copy_Completion.thy ===== *)
theory Copy_Completion
  imports Task_Copiers
begin

text \<open>
  What closing a \<open>MultipartCopier\<close> or a \<open>BlockCopier\<close> means (\<open>core/core/src/raw/oio/copy/multipart_copy.rs\<close>,
  \<open>block_copy.rs\<close>): a successful close has copied the whole source, and with tasks and a service that do not fail
  it does succeed.
\<close>

section \<open>What a successful close has done\<close>

text \<open>
  C20: let the parts that the service's \<open>copy_part\<close> answers be numbered in the order of the numbers it is asked for. When
  \<open>MultipartCopier::close\<close> then succeeds, in whatever order the background tasks completed and however many of them
  failed and were retried, it returns what the last call of the service answered: either the whole source was copied
  by \<open>copy_once\<close>, or \<open>complete_copy\<close> was called with the parts answered to a sequence of requests, whose numbers are 0, 1,
  2 and so on and whose ranges put together are the source.
\<close>

theorem multipart_copy_complete:
  assumes "copy_numbered A" "mcopy_reach svc A psize c" "0 < psize" "\<not> cs_completed c" "\<forall>k. mcopy_runs A (run k)"
    and "mcopy_close svc run (c, s) = Some (Ok m, c', s')"
  shows "\<exists>z s0. cs_source_size c' = Some z \<and>
    (mcs_copy_once svc s0 = Some (Ok m, s') \<or>
     (\<exists>v is parts. mcs_complete_copy svc v parts s0 = Some (Ok m, s') \<and> list_all2 A is parts \<and>
        map mci_part_number is = [0..<length is] \<and> (\<forall>i\<in>set is. mci_upload_id i = v) \<and>
        (\<forall>content. length content = unat z \<longrightarrow> concat (map (\<lambda>i. requested (mci_range i) content) is) = content)))"
proof -
  have close: "copy_close_loop (mcopy_next svc run) c s = Some (Ok m, c', s')" using assms(6) by (simp add: mcopy_close_def)
  have run: "\<forall>k. run_ok (mcopy_answer A) (run k)" using assms(5) by (simp add: mcopy_runs_ok)
  have "mcopy_done svc A c' s' \<and> cs_completed c' \<and> m = (case cs_metadata c' of Some m \<Rightarrow> m | None \<Rightarrow> metadata_default)"
  proof (rule copy_close_induct[where I = "mcopy_inv A" and D = "mcopy_done svc A", OF close mcopy_reach_inv[OF assms(1,3,2)] assms(4)])
    fix c s r c' s'
    assume "mcopy_inv A c" "\<not> cs_completed c" "mcopy_next svc run (c, s) = Some (Ok r, c', s')"
    with mcopy_next_step[OF assms(1) this(1) run this(3)]
    show "mcopy_inv A c' \<and> (cs_completed c' \<longrightarrow> mcopy_done svc A c' s')" by blast
  qed
  then have d: "mcopy_done svc A c' s'" "m = (case cs_metadata c' of Some m \<Rightarrow> m | None \<Rightarrow> metadata_default)" by simp_all
  from mcopy_done_parts[OF d(1)] obtain z m' s0 where "cs_metadata c' = Some m'" and z: "cs_source_size c' = Some z"
    "mcp_upload_id c' = None \<and> mcs_copy_once svc s0 = Some (Ok m', s') \<or>
     (\<exists>v is parts. mcp_upload_id c' = Some v \<and> mcs_complete_copy svc v parts s0 = Some (Ok m', s') \<and>
        list_all2 A is parts \<and> map mci_part_number is = [0..<length is] \<and> (\<forall>i\<in>set is. mci_upload_id i = v) \<and>
        (\<forall>content. length content = unat z \<longrightarrow> concat (map (\<lambda>i. requested (mci_range i) content) is) = content))"
    by blast
  with d(2) have m: "m' = m" by simp
  show ?thesis by (intro exI[of _ z] exI[of _ s0]) (use z[unfolded m] in blast)
qed

text \<open>
  C21: when \<open>BlockCopier::close\<close> succeeds, it returns what the last call of the service answered: either
  \<open>copy_once\<close> copied the whole source, or \<open>complete_block\<close> was called with blocks to which the service has copied
  ranges of the source, in the order of the blocks, whose contents put together are the source.
\<close>

theorem block_copy_complete:
  assumes "bcopy_reach svc W psize c" "0 < psize" "\<not> cs_completed c" "\<forall>k. run_ok (bcopy_answer W) (run k)"
    and "bcopy_close svc new_v4 run (c, s) = Some (Ok m, c', s')"
  shows "\<exists>z s0. cs_source_size c' = Some z \<and>
    (bcs_copy_once svc s0 = Some (Ok m, s') \<or>
     (\<exists>ids rngs. bcs_complete_block svc ids s0 = Some (Ok m, s') \<and> list_all2 W ids rngs \<and>
        (\<forall>content. length content = unat z \<longrightarrow> concat (map (\<lambda>rng. requested rng content) rngs) = content)))"
proof -
  have close: "copy_close_loop (bcopy_next svc new_v4 run) c s = Some (Ok m, c', s')" using assms(5) by (simp add: bcopy_close_def)
  have "bcopy_done svc W c' s' \<and> cs_completed c' \<and> m = (case cs_metadata c' of Some m \<Rightarrow> m | None \<Rightarrow> metadata_default)"
  proof (rule copy_close_induct[where I = "bcopy_inv W" and D = "bcopy_done svc W", OF close bcopy_reach_inv[OF assms(1,2)] assms(3)])
    fix c s r c' s'
    assume "bcopy_inv W c" "\<not> cs_completed c" "bcopy_next svc new_v4 run (c, s) = Some (Ok r, c', s')"
    with bcopy_next_step[OF this(1) assms(4) this(3)]
    show "bcopy_inv W c' \<and> (cs_completed c' \<longrightarrow> bcopy_done svc W c' s')" by blast
  qed
  then have d: "bcopy_done svc W c' s'" "m = (case cs_metadata c' of Some m \<Rightarrow> m | None \<Rightarrow> metadata_default)" by simp_all
  from bcopy_done_blocks[OF d(1)] obtain z m' s0 where "cs_metadata c' = Some m'" and z: "cs_source_size c' = Some z"
    "bcs_copy_once svc s0 = Some (Ok m', s') \<or>
     (\<exists>ids rngs. bcs_complete_block svc ids s0 = Some (Ok m', s') \<and> list_all2 W ids rngs \<and>
        (\<forall>content. length content = unat z \<longrightarrow> concat (map (\<lambda>rng. requested rng content) rngs) = content))"
    by blast
  with d(2) have m: "m' = m" by simp
  show ?thesis by (intro exI[of _ z] exI[of _ s0]) (use z[unfolded m] in blast)
qed

section \<open>A copy without failures\<close>

lemma copy_execute_healthy:
  assumes "ct_inv R n q (cs_tasks c) is os" "\<forall>k. run_ok R (run k)" "\<forall>k i. \<exists>b. run k i = Inr b" "ct_healthy (cs_tasks c)"
  shows "\<exists>t. copy_execute run i c = Some (Ok (), copy_awaited t c) \<and> ct_healthy t \<and> ct_inv R n q t (is @ [i]) os"
proof -
  obtain r t where ex: "ct_execute (run (cs_awaits c)) i (cs_tasks c) = (r, t)" by force
  from ct_healthy_execute[OF assms(1) assms(2)[rule_format] assms(3)[rule_format, THEN allI] assms(4) ex] have r: "r = Ok ()" "ct_healthy t" by auto
  with ct_inv_execute[OF assms(1) assms(2)[rule_format] ex] ex show ?thesis by (auto simp: copy_execute.simps[of run i c])
qed

lemma copy_collect_healthy:
  assumes "ct_inv R n q (cs_tasks c) is os" "\<forall>k. run_ok R (run k)" "\<forall>k i. \<exists>b. run k i = Inr b" "ct_healthy (cs_tasks c)"
  shows "\<exists>x t. copy_collect run c = Some (Ok x, copy_awaited t c) \<and> ct_healthy t"
proof -
  obtain r t where nx: "ct_next (run (cs_awaits c)) (cs_tasks c) = (r, t)" by force
  have "r \<noteq> Some Panic" using nx by (auto simp: ct_next_def split: if_splits list.splits prod.splits sum.splits)
  with ct_healthy_next[OF assms(3)[rule_format, THEN allI] assms(4) nx] nx show ?thesis
    by (auto simp: copy_collect.simps[of run c] split: option.splits res.splits)
qed

text \<open>\<open>fill_tasks\<close> ends: it submits at most as many inputs as the copy may run concurrently.\<close>

lemma copy_fill_healthy:
  assumes run: "\<forall>k. run_ok R (run k)" "\<forall>k i. \<exists>b. run k i = Inr b"
    and nt: "\<And>i c. copy_core (note_input i c) = copy_core c"
  shows "ct_inv R n q (cs_tasks c) is os \<Longrightarrow> ct_healthy (cs_tasks c) \<Longrightarrow>
    \<exists>c'. copy_fill run mk note_input src_size k c = Some (Ok (), c') \<and> ct_healthy (cs_tasks c')"
proof (induction "cs_concurrent c - k" arbitrary: k c "is" rule: less_induct)
  case less
  show ?case
  proof (cases "cs_next_offset c < src_size \<and> ct_has_remaining (cs_tasks c) \<and> k < cs_concurrent c")
    case False
    with less.prems(2) show ?thesis unfolding copy_fill.simps[of run mk note_input src_size k c] if_not_P[OF False] by simp
  next
    case True
    define w where "w = min (cs_part_size c) (src_size - cs_next_offset c)"
    define input where "input = mk c (BytesRange (cs_next_offset c) (Some w))"
    from copy_execute_healthy[OF less.prems(1) run less.prems(2), of input] obtain t where
      t: "copy_execute run input c = Some (Ok (), copy_awaited t c)" "ct_healthy t" "ct_inv R n q t (is @ [input]) os" by blast
    define c1 where "c1 = copy_awaited t c"
    define c2 where "c2 = (note_input input c1)\<lparr>cs_next_offset := cs_next_offset c1 + w, cs_next_number := cs_next_number c1 + 1\<rparr>"
    have c2: "cs_tasks c2 = t" "cs_concurrent c2 = cs_concurrent c"
      using nt[of input c1] by (simp_all add: c2_def copy_core_def c1_def copy_awaited_def)
    have "copy_fill run mk note_input src_size k c =
      (if ct_has_result t then Some (Ok (), c2) else copy_fill run mk note_input src_size (k + 1) c2)"
      unfolding copy_fill.simps[of run mk note_input src_size k c] if_P[OF True] Let_def w_def[symmetric] input_def[symmetric]
        t(1)[folded c1_def] option.case prod.case res.case c2_def[symmetric] c2(1) by (rule refl)
    with less.hyps[of c2 "k + 1" "is @ [input]"] True t(2,3) c2 show ?thesis by auto
  qed
qed

text \<open>A round of \<open>next\<close>: fill the queue, then await one result.\<close>

lemma copy_round_healthy:
  assumes inv: "copy_inv P R p (unat src_size) c is os" and run: "\<forall>k. run_ok R (run k)" "\<forall>k i. \<exists>b. run k i = Inr b"
    and c: "ct_healthy (cs_tasks c)"
    and mk: "\<And>c. P (cs_next_number c) (mk c (part_range p (unat src_size) (cs_next_number c)))"
    and nt: "\<And>i c. copy_core (note_input i c) = copy_core c" "\<And>i c. f (note_input i c) = f c"
    and f: "\<And>t c. f (copy_awaited t c) = f c" "\<And>c a b. f (c\<lparr>cs_next_offset := a, cs_next_number := b\<rparr>) = f c"
  obtains c1 q c2 is' where "copy_fill run mk note_input src_size 0 c = Some (Ok (), c1)" "copy_collect run c1 = Some (Ok q, c2)"
    "ct_healthy (cs_tasks c2)" "f c2 = f c"
    "case q of Some x \<Rightarrow> copy_inv P R p (unat src_size) c2 is' (os @ [x])
       | None \<Rightarrow> copy_inv P R p (unat src_size) c2 is' os \<and> list_all2 R is' os"
proof -
  have ct: "ct_inv R (cs_concurrent c) 8192 (cs_tasks c) is os" using inv by (simp add: copy_inv_def)
  from copy_fill_healthy[where mk = mk and note_input = note_input and src_size = src_size and k = 0, OF run nt(1) ct c] obtain c1 where
    fill: "copy_fill run mk note_input src_size 0 c = Some (Ok (), c1)" "ct_healthy (cs_tasks c1)" by blast
  have "fill_keeps P R p src_size f c (Ok (), c1)"
    by (rule copy_fill_keeps[where P = P and p = p and f = f, OF fill(1) run(1)]) (rule mk nt f)+
  with inv obtain js where "copy_inv P R p (unat src_size) c1 (is @ js) os" unfolding fill_keeps_def by blast
  then have "ct_inv R (cs_concurrent c1) 8192 (cs_tasks c1) (is @ js) os" by (simp add: copy_inv_def)
  from copy_collect_healthy[OF this run fill(2)] obtain q t where
    co: "copy_collect run c1 = Some (Ok q, copy_awaited t c1)" "ct_healthy t" by blast
  from copy_round[where P = P and f = f, OF inv run(1) mk nt f fill(1) co(1)] obtain is' where
    "f (copy_awaited t c1) = f c" "case q of Some x \<Rightarrow> copy_inv P R p (unat src_size) (copy_awaited t c1) is' (os @ [x])
      | None \<Rightarrow> copy_inv P R p (unat src_size) (copy_awaited t c1) is' os \<and> list_all2 R is' os"
    by (cases q) auto
  with that[OF fill(1) co(1)] co(2) show thesis by (simp add: copy_awaited_def)
qed

lemma copy_inv_results:
  assumes "copy_inv P R p z c is os" "ct_healthy (cs_tasks c)"
  shows "length os \<le> part_count p z"
proof -
  have "length os \<le> length is" using assms by (auto simp: copy_inv_def ct_inv_def ct_healthy_def fifo_inv_def dest: list_all2_lengthD)
  moreover have "\<not> part_count p z < length is"
    using part_count_iff[of p "part_count p z" z] assms(1) unfolding copy_inv_def by blast
  ultimately show ?thesis by simp
qed

lemma io_bind_Ok: "m x = Some (Ok v, y) \<Longrightarrow> io_bind m f x = f v y"
  by (simp add: io_bind_def)

lemma copy_source_size_ok:
  assumes "cs_source_size c = None \<or> cs_source_size c = Some z" "\<exists>m s'. sm s = Some (Ok m, s') \<and> metadata_content_length m = z"
  shows "\<exists>s1. copy_source_size sm (c, s) = Some (Ok z, c\<lparr>cs_source_size := Some z\<rparr>, s1)"
  using assms(1)
proof
  assume "cs_source_size c = None"
  with assms(2) show ?thesis by (auto simp: copy_source_size_def io_defs)
next
  assume *: "cs_source_size c = Some z"
  then have "c\<lparr>cs_source_size := Some z\<rparr> = c" by (cases c) simp
  with * show ?thesis by (simp add: copy_source_size_def io_defs)
qed

text \<open>The service answers every request of the foreground.\<close>

definition mcs_answers :: "'s multipart_copy \<Rightarrow> u64 \<Rightarrow> bool" where
  "mcs_answers svc z \<longleftrightarrow>
     (\<forall>s. \<exists>m s'. mcs_source_metadata svc s = Some (Ok m, s') \<and> metadata_content_length m = z) \<and>
     (\<forall>s. \<exists>m s'. mcs_copy_once svc s = Some (Ok m, s')) \<and>
     (\<forall>s. \<exists>v s'. mcs_initiate_copy svc s = Some (Ok v, s')) \<and>
     (\<forall>v parts s. \<exists>m s'. mcs_complete_copy svc v parts s = Some (Ok m, s'))"

lemma mcs_answersD:
  assumes "mcs_answers svc z"
  shows "\<exists>m s'. mcs_source_metadata svc s = Some (Ok m, s') \<and> metadata_content_length m = z"
    "\<exists>m s'. mcs_copy_once svc s = Some (Ok m, s')"
    "\<exists>v s'. mcs_initiate_copy svc s = Some (Ok v, s')"
    "\<exists>m s'. mcs_complete_copy svc v parts s = Some (Ok m, s')"
  using assms unfolding mcs_answers_def by simp_all

lemma mcopy_upload_id_ok:
  assumes "\<exists>v s'. mcs_initiate_copy svc s = Some (Ok v, s')"
  shows "\<exists>v s'. mcopy_upload_id svc (c, s) = Some (Ok v, c\<lparr>mcp_upload_id := Some v\<rparr>, s') \<and>
    (mcp_upload_id c = None \<or> mcp_upload_id c = Some v)"
proof (cases "mcp_upload_id c")
  case None
  with assms show ?thesis by (auto simp: mcopy_upload_id_def io_defs)
next
  case (Some v)
  then have "c\<lparr>mcp_upload_id := Some v\<rparr> = c" by (cases c) simp
  with Some show ?thesis by (intro exI[of _ v] exI[of _ s]) (simp add: mcopy_upload_id_def io_defs)
qed

lemma mcopy_next_healthy:
  assumes inv: "mcopy_inv A c" "\<not> cs_completed c" and run: "\<forall>k. run_ok (mcopy_answer A) (run k)" "\<forall>k i. \<exists>b. run k i = Inr b"
    and svc: "mcs_answers svc z" and src: "cs_source_size c = None \<or> cs_source_size c = Some z"
    and valid: "mcp_upload_id c = None \<longrightarrow> validate_part_count c z = Ok ()" and healthy: "ct_healthy (cs_tasks c)"
  shows "\<exists>r c' s'. mcopy_next svc run (c, s) = Some (Ok r, c', s') \<and>
    (cs_completed c' \<or> mcp_upload_id c' \<noteq> None \<and> cs_source_size c' = Some z \<and> cs_part_size c' = cs_part_size c \<and>
      ct_healthy (cs_tasks c') \<and> length (mcp_parts c') = Suc (length (mcp_parts c)))"
proof -
  define c1 where "c1 = c\<lparr>cs_source_size := Some z\<rparr>"
  have "\<exists>s1. copy_source_size (mcs_source_metadata svc) (c, s) = Some (Ok z, c1, s1)"
    unfolding c1_def by (rule copy_source_size_ok[OF src mcs_answersD(1)[OF svc]])
  then obtain s1 where s1: "copy_source_size (mcs_source_metadata svc) (c, s) = Some (Ok z, c1, s1)" ..
  have next_eq: "mcopy_next svc run (c, s) = (if mcp_upload_id c = None \<and> z \<le> cs_copy_once_threshold c then copy_complete (mcs_copy_once svc)
       else
         io_bind (if mcp_upload_id c = None then io_res (validate_part_count c z) else io_ok ()) (\<lambda>_.
         io_bind (mcopy_upload_id svc) (\<lambda>upload_id.
         io_bind (mcopy_fill_tasks run upload_id z) (\<lambda>_.
         io_bind (io_copier (copy_collect run)) (\<lambda>r.
         case r of
           Some result \<Rightarrow>
             io_bind (io_update (\<lambda>c. c\<lparr>mcp_parts := mcp_parts c @ [cpd_part result]\<rparr>)) (\<lambda>_.
             io_ok (Some (unat (cpd_size result))))
         | None \<Rightarrow> mcopy_finish svc upload_id))))) (c1, s1)"
    using inv(2) s1 by (simp add: mcopy_next_def io_with_def io_bind_def)
  show ?thesis
  proof (cases "mcp_upload_id c = None \<and> z \<le> cs_copy_once_threshold c")
    case True
    obtain m s2 where "mcs_copy_once svc s1 = Some (Ok m, s2)" using mcs_answersD(2)[OF svc] by blast
    then show ?thesis unfolding next_eq if_P[OF True] by (simp add: copy_complete_def io_defs)
  next
    case False
    have val: "(if mcp_upload_id c = None then io_res (validate_part_count c z) else io_ok ()) (c1, s1) = Some (Ok (), c1, s1)"
      using valid by (simp add: io_defs)
    obtain v s2 where up: "mcopy_upload_id svc (c1, s1) = Some (Ok v, c1\<lparr>mcp_upload_id := Some v\<rparr>, s2)"
      "mcp_upload_id c1 = None \<or> mcp_upload_id c1 = Some v"
      using mcopy_upload_id_ok[OF mcs_answersD(3)[OF svc], of c1] by blast
    define c2 where "c2 = c1\<lparr>mcp_upload_id := Some v\<rparr>"
    let ?p = "unat (cs_part_size c2)"
    have inv1: "mcopy_inv A c1" unfolding c1_def by (rule mcopy_inv_source[OF inv(1) src])
    from mcopy_inv_begun[OF inv1 _ _ up(2)] inv(2) obtain "is" os where os: "mcp_parts c = map cpd_part os"
      "copy_inv (mcopy_planned v ?p (unat z)) (mcopy_answer A) ?p (unat z) c2 is os"
      by (auto simp: c1_def c2_def)
    let ?P = "mcopy_planned v ?p (unat z)" and ?R = "mcopy_answer A"
    let ?mk = "\<lambda>c rng. \<lparr>mci_upload_id = v, mci_part_number = cs_next_number c, mci_range = rng\<rparr>"
    let ?f = "\<lambda>c. (mcp_upload_id c, mcp_parts c, cs_source_size c, cs_part_size c)"
    have f: "?f (copy_awaited t c) = ?f c" "?f (c\<lparr>cs_next_offset := a, cs_next_number := b\<rparr>) = ?f c" for t c a b
      by (simp_all add: copy_awaited_def)
    have mk: "?P (cs_next_number c) (?mk c (part_range ?p (unat z) (cs_next_number c)))" for c :: multipart_copier
      by (simp add: mcopy_planned_def)
    have h2: "ct_healthy (cs_tasks c2)" using healthy by (simp add: c1_def c2_def)
    from copy_round_healthy[where P = ?P and f = ?f and mk = ?mk and note_input = "\<lambda>i c. c", OF os(2) run h2 mk refl refl f]
    obtain c3 q c4 is' where round: "copy_fill run ?mk (\<lambda>i c. c) z 0 c2 = Some (Ok (), c3)" "copy_collect run c3 = Some (Ok q, c4)"
      "ct_healthy (cs_tasks c4)" "?f c4 = ?f c2"
      "case q of Some x \<Rightarrow> copy_inv ?P ?R ?p (unat z) c4 is' (os @ [x]) | None \<Rightarrow> copy_inv ?P ?R ?p (unat z) c4 is' os \<and> list_all2 ?R is' os" .
    have fill3: "mcopy_fill_tasks run v z (c2, s2) = Some (Ok (), c3, s2)" using round(1) by (simp add: mcopy_fill_tasks_def io_copier_def)
    have collect4: "io_copier (copy_collect run) (c3, s2) = Some (Ok q, c4, s2)" using round(2) by (simp add: io_copier_def)
    have next_q: "mcopy_next svc run (c, s) = (case q of
           Some result \<Rightarrow>
             io_bind (io_update (\<lambda>c. c\<lparr>mcp_parts := mcp_parts c @ [cpd_part result]\<rparr>)) (\<lambda>_.
             io_ok (Some (unat (cpd_size result))))
         | None \<Rightarrow> mcopy_finish svc v) (c4, s2)"
      unfolding next_eq if_not_P[OF False] 
        io_bind_Ok[where m = "if mcp_upload_id c = None then io_res (validate_part_count c z) else io_ok ()", OF val]
        io_bind_Ok[where m = "mcopy_upload_id svc", OF up(1)[folded c2_def]]
        io_bind_Ok[where m = "mcopy_fill_tasks run v z", OF fill3]
        io_bind_Ok[where m = "io_copier (copy_collect run)", OF collect4] by (rule refl)
    show ?thesis
    proof (cases q)
      case (Some x)
      with next_q round(3,4) show ?thesis by (simp add: io_defs c1_def c2_def)
    next
      case None
      with round(5) have "length os = cs_next_number c4" by (auto simp: copy_inv_def dest: list_all2_lengthD)
      with round(4) os(1) have "length (mcp_parts c4) = cs_next_number c4" by (simp add: c1_def c2_def)
      moreover obtain m s3 where "mcs_complete_copy svc v (sort_key part_number (mcp_parts c4)) s2 = Some (Ok m, s3)"
        using mcs_answersD(4)[OF svc] by blast
      ultimately show ?thesis using next_q None by (simp add: mcopy_finish_def copy_complete_def io_defs Let_def)
    qed
  qed
qed

lemma mcopy_inv_results:
  assumes "mcopy_inv A c" "\<not> cs_completed c" "mcp_upload_id c \<noteq> None" "cs_source_size c = Some z" "ct_healthy (cs_tasks c)"
  shows "length (mcp_parts c) \<le> part_count (unat (cs_part_size c)) (unat z)"
  using assms copy_inv_results[OF _ assms(5)] by (auto simp: mcopy_inv_def)

text \<open>Every round of \<open>close\<close> ends the copy or collects one more part.\<close>

lemma mcopy_close_healthy:
  assumes numbered: "copy_numbered A"
    and run: "\<forall>k. run_ok (mcopy_answer A) (run k)" "\<forall>k i. \<exists>b. run k i = Inr b" and svc: "mcs_answers svc z"
  shows "mcopy_inv A c \<Longrightarrow> \<not> cs_completed c \<Longrightarrow> cs_source_size c = None \<or> cs_source_size c = Some z \<Longrightarrow>
    (mcp_upload_id c = None \<longrightarrow> validate_part_count c z = Ok ()) \<Longrightarrow> ct_healthy (cs_tasks c) \<Longrightarrow>
    \<exists>m c' s'. copy_close_loop (mcopy_next svc run) c s = Some (Ok m, c', s')"
proof (induction "part_count (unat (cs_part_size c)) (unat z) - length (mcp_parts c)" arbitrary: c s rule: less_induct)
  case less
  from mcopy_next_healthy[OF less.prems(1,2) run svc less.prems(3-5)] obtain r c1 s1 where
    nx: "mcopy_next svc run (c, s) = Some (Ok r, c1, s1)" and
    c1: "cs_completed c1 \<or> mcp_upload_id c1 \<noteq> None \<and> cs_source_size c1 = Some z \<and> cs_part_size c1 = cs_part_size c \<and>
      ct_healthy (cs_tasks c1) \<and> length (mcp_parts c1) = Suc (length (mcp_parts c))" by blast
  have loop: "copy_close_loop (mcopy_next svc run) c s = copy_close_loop (mcopy_next svc run) c1 s1"
    using less.prems(2) nx by (simp add: copy_close_loop.simps[of "mcopy_next svc run" c s])
  show ?case
  proof (cases "cs_completed c1")
    case True
    then show ?thesis unfolding loop by (simp add: copy_close_loop.simps[of "mcopy_next svc run" c1 s1])
  next
    case False
    have inv: "mcopy_inv A c1" using mcopy_next_step[OF numbered less.prems(1) run(1) nx] ..
    with mcopy_inv_results[OF inv False, of z] c1 False
    have "part_count (unat (cs_part_size c1)) (unat z) - length (mcp_parts c1) <
        part_count (unat (cs_part_size c)) (unat z) - length (mcp_parts c)" by auto
    from less.hyps[OF this inv False, where s = s1] c1 False show ?thesis unfolding loop by auto
  qed
qed

text \<open>
  C22: \<open>MultipartCopier::close\<close> comes to an end: if no task fails, the service answers and numbers its parts in order, and
  the source does not need more parts than the service allows, a new copier is closed successfully, for every size of
  the source and of the queue and every part size but zero (with a part size of zero the offset would never advance).
\<close>

theorem multipart_copy_finishes:
  assumes "copy_numbered A" "0 < psize" "\<forall>k. mcopy_runs A (run k)" "\<forall>k i. \<exists>b. run k i = Inr b"
    and "mcs_answers svc z" "hint = None \<or> hint = Some z"
    and "validate_part_count (mcopy_new cap hint thr psize conc) z = Ok ()"
  shows "\<exists>m c s'. mcopy_close svc run (mcopy_new cap hint thr psize conc, s) = Some (Ok m, c, s')"
proof -
  let ?c = "mcopy_new cap hint thr psize conc"
  have "mcopy_inv A ?c" using assms(2) by (intro mcopy_inv_new) (simp add: word_less_nat_alt)
  moreover have "\<not> cs_completed ?c" "cs_source_size ?c = hint" "ct_healthy (cs_tasks ?c)"
    by (simp_all add: mcopy_new_def Let_def ct_healthy_new)
  moreover have "\<forall>k. run_ok (mcopy_answer A) (run k)" using assms(3) by (simp add: mcopy_runs_ok)
  ultimately show ?thesis using mcopy_close_healthy[OF assms(1) _ assms(4,5), of ?c s] assms(6,7) by (simp add: mcopy_close_def)
qed

text \<open>
  A service that notes the parts it is given and copies every range. As S3 and TOS do, it answers a part number that is
  one more than the number it was asked for.
\<close>

definition noting_copy :: "multipart_part list multipart_copy" where
  "noting_copy =
     \<lparr>mcs_source_metadata = io_ok (md_with_content_length 5 (metadata_new FILE)), mcs_copy_once = io_ok metadata_default,
      mcs_initiate_copy = io_ok ''u'', mcs_complete_copy = (\<lambda>v parts s. Some (Ok metadata_default, parts)),
      mcs_abort_copy = (\<lambda>v. io_ok ())\<rparr>"

definition noting_copy_part :: "str \<Rightarrow> usize \<Rightarrow> bytes_range \<Rightarrow> error + multipart_part" where
  "noting_copy_part v n rng = Inr \<lparr>part_number = Suc n, part_etag = ''e'', part_checksum = None, part_size = None\<rparr>"

definition copied_range :: "nat \<Rightarrow> mcopy_input \<Rightarrow> error + copied_part" where
  "copied_range k i =
     (case mcopy_task noting_copy_part (\<lambda>i. False) i of Some r \<Rightarrow> r
      | None \<Rightarrow> Inr \<lparr>cpd_part = \<lparr>part_number = 0, part_etag = [], part_checksum = None, part_size = None\<rparr>, cpd_size = 0\<rparr>)"

definition counted_from_one :: "mcopy_input \<Rightarrow> multipart_part \<Rightarrow> bool" where
  "counted_from_one i q \<longleftrightarrow> part_number q = Suc (mci_part_number i)"

lemma copied_range_ok: "\<forall>k. mcopy_runs counted_from_one (copied_range k)" "copy_numbered counted_from_one"
proof -
  show "\<forall>k. mcopy_runs counted_from_one (copied_range k)"
    unfolding mcopy_runs_def by (intro allI impI exI[of _ noting_copy_part] exI[of _ "\<lambda>i. False"])
      (auto simp: copied_range_def mcopy_task_def noting_copy_part_def counted_from_one_def)
qed (simp add: copy_numbered_def counted_from_one_def)

lemma noting_copy_ok:
  "mcs_answers noting_copy 5" "validate_part_count (mcopy_new capability_default None 0 2 2) 5 = Ok ()"
  "\<forall>k i. \<exists>b. copied_range k i = Inr b"
  by (simp_all add: mcs_answers_def noting_copy_def io_defs validate_part_count_def mcopy_new_def capability_default_def Let_def
      metadata_content_length_def md_with_content_length_def copied_range_def mcopy_task_def noting_copy_part_def split: option.split)

theorem multipart_copy_finishes_witness:
  "\<exists>m c s'. mcopy_close noting_copy copied_range (mcopy_new capability_default None 0 2 2, []) = Some (Ok m, c, s')"
  by (rule multipart_copy_finishes[OF copied_range_ok(2) _ copied_range_ok(1) noting_copy_ok(3,1) _ noting_copy_ok(2)]) simp_all

lemma noting_copy_close:
  "\<exists>m c s'. mcopy_close noting_copy copied_range (mcopy_new capability_default None 0 2 2, []) = Some (Ok m, c, s')"
proof -
  let ?c = "mcopy_new capability_default None 0 2 2"
  have "mcopy_inv counted_from_one ?c" by (rule mcopy_inv_new) simp
  moreover have "\<not> cs_completed ?c" "cs_source_size ?c = None" "ct_healthy (cs_tasks ?c)"
    by (simp_all add: mcopy_new_def Let_def ct_healthy_new)
  moreover have "\<forall>k. run_ok (mcopy_answer counted_from_one) (copied_range k)" using copied_range_ok(1) by (simp add: mcopy_runs_ok)
  ultimately show ?thesis
    using mcopy_close_healthy[OF copied_range_ok(2) _ noting_copy_ok(3,1), of ?c "[]"] noting_copy_ok(2) by (simp add: mcopy_close_def)
qed

theorem multipart_copy_complete_witness:
  "\<exists>m c s'. mcopy_close noting_copy copied_range (mcopy_new capability_default None 0 2 2, []) = Some (Ok m, c, s') \<and>
    (\<exists>z s0. cs_source_size c = Some z \<and>
      (mcs_copy_once noting_copy s0 = Some (Ok m, s') \<or>
       (\<exists>v is parts. mcs_complete_copy noting_copy v parts s0 = Some (Ok m, s') \<and>
          list_all2 counted_from_one is parts \<and>
          map mci_part_number is = [0..<length is] \<and> (\<forall>i\<in>set is. mci_upload_id i = v) \<and>
          (\<forall>content. length content = unat z \<longrightarrow> concat (map (\<lambda>i. requested (mci_range i) content) is) = (content :: 8 word list)))))"
proof -
  obtain m c s' where close: "mcopy_close noting_copy copied_range (mcopy_new capability_default None 0 2 2, []) = Some (Ok m, c, s')"
    using noting_copy_close by blast
  have new: "\<not> cs_completed (mcopy_new capability_default None 0 2 2)" by (simp add: mcopy_new_def Let_def)
  have two: "0 < (2 :: u64)" by simp
  note complete = multipart_copy_complete[OF copied_range_ok(2) mreach_new two new copied_range_ok(1) close]
  show ?thesis by (rule exI[of _ m], rule exI[of _ c], rule exI[of _ s']) (rule conjI[OF close complete])
qed

section \<open>A block copy without failures\<close>

definition bcs_answers :: "('s, 'u) block_copy \<Rightarrow> u64 \<Rightarrow> bool" where
  "bcs_answers svc z \<longleftrightarrow>
     (\<forall>s. \<exists>m s'. bcs_source_metadata svc s = Some (Ok m, s') \<and> metadata_content_length m = z) \<and>
     (\<forall>s. \<exists>m s'. bcs_copy_once svc s = Some (Ok m, s')) \<and>
     (\<forall>ids s. \<exists>m s'. bcs_complete_block svc ids s = Some (Ok m, s'))"

lemma bcs_answersD:
  assumes "bcs_answers svc z"
  shows "\<exists>m s'. bcs_source_metadata svc s = Some (Ok m, s') \<and> metadata_content_length m = z"
    "\<exists>m s'. bcs_copy_once svc s = Some (Ok m, s')"
    "\<exists>m s'. bcs_complete_block svc ids s = Some (Ok m, s')"
  using assms unfolding bcs_answers_def by simp_all

lemma bcopy_inv_sized:
  assumes "bcopy_inv W c" "\<not> cs_completed c" "cs_source_size c = None \<or> cs_source_size c = Some z"
  shows "\<exists>is os. bcp_block_ids c = map block_of os \<and>
    copy_inv (bcopy_planned (unat (cs_part_size c)) (unat z)) (bcopy_answer W) (unat (cs_part_size c)) (unat z)
      (c\<lparr>cs_source_size := Some z\<rparr>) is os"
proof -
  let ?p = "unat (cs_part_size c)"
  from assms(1,2) obtain y "is" os where y: "copy_inv (bcopy_planned ?p y) (bcopy_answer W) ?p y c is os"
    "bcp_block_ids c = map block_of os" "case cs_source_size c of None \<Rightarrow> is = [] \<and> os = [] | Some n \<Rightarrow> y = unat n"
    by (auto simp: bcopy_inv_def)
  have "copy_inv (bcopy_planned ?p (unat z)) (bcopy_answer W) ?p (unat z) c is os"
    using y assms(3) copy_inv_empty[of _ _ ?p y c "unat z"] unat_lt_u64[of z] by auto
  from copy_inv_core[OF this, of "c\<lparr>cs_source_size := Some z\<rparr>"] y(2) show ?thesis by (auto simp: copy_core_def)
qed

lemma bcopy_next_healthy:
  assumes inv: "bcopy_inv W c" "\<not> cs_completed c" and run: "\<forall>k. run_ok (bcopy_answer W) (run k)" "\<forall>k i. \<exists>b. run k i = Inr b"
    and svc: "bcs_answers svc z" and src: "cs_source_size c = None \<or> cs_source_size c = Some z" and healthy: "ct_healthy (cs_tasks c)"
  shows "\<exists>r c' s'. bcopy_next svc new_v4 run (c, s) = Some (Ok r, c', s') \<and>
    (cs_completed c' \<or> cs_source_size c' = Some z \<and> cs_part_size c' = cs_part_size c \<and>
      ct_healthy (cs_tasks c') \<and> length (bcp_block_ids c') = Suc (length (bcp_block_ids c)))"
proof -
  define c2 where "c2 = c\<lparr>cs_source_size := Some z\<rparr>"
  from copy_source_size_ok[where sm = "bcs_source_metadata svc" and s = s, OF src bcs_answersD(1)[OF svc]] obtain s1 where
    s1: "copy_source_size (bcs_source_metadata svc) (c, s) = Some (Ok z, c2, s1)" unfolding c2_def by blast
  have next_eq: "bcopy_next svc new_v4 run (c, s) = (if bcp_block_ids c = [] \<and> z \<le> cs_copy_once_threshold c then copy_complete (bcs_copy_once svc)
       else
         io_bind (bcopy_fill_tasks new_v4 run z) (\<lambda>_.
         io_bind (io_copier (copy_collect run)) (\<lambda>r.
         case r of
           Some result \<Rightarrow>
             io_bind (io_update (\<lambda>c. c\<lparr>bcp_block_ids := bcp_block_ids c @ [(cbd_block_number result, cbd_block_id result)]\<rparr>)) (\<lambda>_.
             io_ok (Some (unat (cbd_size result))))
         | None \<Rightarrow> bcopy_finish svc))) (c2, s1)"
    using inv(2) s1 by (simp add: bcopy_next_def io_with_def io_bind_def)
  show ?thesis
  proof (cases "bcp_block_ids c = [] \<and> z \<le> cs_copy_once_threshold c")
    case True
    obtain m s2 where "bcs_copy_once svc s1 = Some (Ok m, s2)" using bcs_answersD(2)[OF svc] by blast
    then show ?thesis unfolding next_eq if_P[OF True] by (simp add: copy_complete_def io_defs)
  next
    case False
    let ?p = "unat (cs_part_size c2)"
    let ?P = "bcopy_planned ?p (unat z)" and ?R = "bcopy_answer W"
    let ?mk = "\<lambda>c rng. \<lparr>bci_block_id = new_v4 (cs_awaits c), bci_block_number = cs_next_number c, bci_range = rng\<rparr>"
    let ?nt = "\<lambda>i c. c\<lparr>bcp_scheduled_block_ids := bcp_scheduled_block_ids c @ [bci_block_id i]\<rparr>"
    let ?f = "\<lambda>c. (bcp_block_ids c, cs_source_size c, cs_part_size c)"
    from bcopy_inv_sized[OF inv src] obtain "is" os where os: "bcp_block_ids c = map block_of os"
      "copy_inv ?P ?R ?p (unat z) c2 is os" by (auto simp: c2_def)
    have f: "?f (copy_awaited t c) = ?f c" "?f (c\<lparr>cs_next_offset := a, cs_next_number := b\<rparr>) = ?f c" for t c a b
      by (simp_all add: copy_awaited_def)
    have nt: "copy_core (?nt i c) = copy_core c" "?f (?nt i c) = ?f c" for i c by (simp_all add: copy_core_def)
    have mk: "?P (cs_next_number c) (?mk c (part_range ?p (unat z) (cs_next_number c)))" for c :: "'a block_copier"
      by (simp add: bcopy_planned_def)
    have h2: "ct_healthy (cs_tasks c2)" using healthy by (simp add: c2_def)
    from copy_round_healthy[where P = ?P and f = ?f and mk = ?mk and note_input = ?nt, OF os(2) run h2 mk nt f]
    obtain c3 q c4 is' where round: "copy_fill run ?mk ?nt z 0 c2 = Some (Ok (), c3)" "copy_collect run c3 = Some (Ok q, c4)"
      "ct_healthy (cs_tasks c4)" "?f c4 = ?f c2"
      "case q of Some x \<Rightarrow> copy_inv ?P ?R ?p (unat z) c4 is' (os @ [x]) | None \<Rightarrow> copy_inv ?P ?R ?p (unat z) c4 is' os \<and> list_all2 ?R is' os" .
    have fill3: "bcopy_fill_tasks new_v4 run z (c2, s1) = Some (Ok (), c3, s1)" using round(1) by (simp add: bcopy_fill_tasks_def io_copier_def)
    have collect4: "io_copier (copy_collect run) (c3, s1) = Some (Ok q, c4, s1)" using round(2) by (simp add: io_copier_def)
    have next_q: "bcopy_next svc new_v4 run (c, s) = (case q of
           Some result \<Rightarrow>
             io_bind (io_update (\<lambda>c. c\<lparr>bcp_block_ids := bcp_block_ids c @ [(cbd_block_number result, cbd_block_id result)]\<rparr>)) (\<lambda>_.
             io_ok (Some (unat (cbd_size result))))
         | None \<Rightarrow> bcopy_finish svc) (c4, s1)"
      unfolding next_eq if_not_P[OF False]
        io_bind_Ok[where m = "bcopy_fill_tasks new_v4 run z", OF fill3]
        io_bind_Ok[where m = "io_copier (copy_collect run)", OF collect4] by (rule refl)
    show ?thesis
    proof (cases q)
      case (Some x)
      with next_q round(3,4) show ?thesis by (simp add: io_defs c2_def)
    next
      case None
      with round(5) have "length os = cs_next_number c4" by (auto simp: copy_inv_def dest: list_all2_lengthD)
      with round(4) os(1) have "length (bcp_block_ids c4) = cs_next_number c4" by (simp add: c2_def)
      moreover obtain m s3 where "bcs_complete_block svc (map snd (sort_key fst (bcp_block_ids c4))) s1 = Some (Ok m, s3)"
        using bcs_answersD(3)[OF svc] by blast
      ultimately show ?thesis using next_q None by (simp add: bcopy_finish_def copy_complete_def io_defs Let_def)
    qed
  qed
qed

lemma bcopy_inv_results:
  assumes "bcopy_inv W c" "\<not> cs_completed c" "cs_source_size c = Some z" "ct_healthy (cs_tasks c)"
  shows "length (bcp_block_ids c) \<le> part_count (unat (cs_part_size c)) (unat z)"
  using assms copy_inv_results[OF _ assms(4)] by (auto simp: bcopy_inv_def)

lemma bcopy_close_healthy:
  assumes run: "\<forall>k. run_ok (bcopy_answer W) (run k)" "\<forall>k i. \<exists>b. run k i = Inr b" and svc: "bcs_answers svc z"
  shows "bcopy_inv W c \<Longrightarrow> \<not> cs_completed c \<Longrightarrow> cs_source_size c = None \<or> cs_source_size c = Some z \<Longrightarrow> ct_healthy (cs_tasks c) \<Longrightarrow>
    \<exists>m c' s'. copy_close_loop (bcopy_next svc new_v4 run) c s = Some (Ok m, c', s')"
proof (induction "part_count (unat (cs_part_size c)) (unat z) - length (bcp_block_ids c)" arbitrary: c s rule: less_induct)
  case less
  let ?next = "bcopy_next svc new_v4 run"
  from bcopy_next_healthy[OF less.prems(1,2) run svc less.prems(3,4)] obtain r c1 s1 where
    nx: "?next (c, s) = Some (Ok r, c1, s1)" and
    c1: "cs_completed c1 \<or> cs_source_size c1 = Some z \<and> cs_part_size c1 = cs_part_size c \<and>
      ct_healthy (cs_tasks c1) \<and> length (bcp_block_ids c1) = Suc (length (bcp_block_ids c))" by blast
  have loop: "copy_close_loop ?next c s = copy_close_loop ?next c1 s1"
    using less.prems(2) nx by (simp add: copy_close_loop.simps[of ?next c s])
  show ?case
  proof (cases "cs_completed c1")
    case True
    then show ?thesis unfolding loop by (simp add: copy_close_loop.simps[of ?next c1 s1])
  next
    case False
    have inv: "bcopy_inv W c1" using bcopy_next_step[OF less.prems(1) run(1) nx] ..
    with bcopy_inv_results[OF inv False, of z] c1 False
    have "part_count (unat (cs_part_size c1)) (unat z) - length (bcp_block_ids c1) <
        part_count (unat (cs_part_size c)) (unat z) - length (bcp_block_ids c)" by auto
    from less.hyps[OF this inv False, where s = s1] c1 False show ?thesis unfolding loop by auto
  qed
qed

lemma bcopy_new_closes:
  assumes "0 < psize" "\<forall>k. run_ok (bcopy_answer W) (run k)" "\<forall>k i. \<exists>b. run k i = Inr b" "bcs_answers svc z" "hint = None \<or> hint = Some z"
  shows "\<exists>m c s'. bcopy_close svc new_v4 run (bcopy_new hint thr psize conc, s) = Some (Ok m, c, s')"
proof -
  let ?c = "bcopy_new hint thr psize conc"
  have "bcopy_inv W ?c" using assms(1) by (intro bcopy_inv_new) (simp add: word_less_nat_alt)
  moreover have "\<not> cs_completed ?c" "cs_source_size ?c = hint" "ct_healthy (cs_tasks ?c)"
    by (simp_all add: bcopy_new_def Let_def ct_healthy_new)
  ultimately show ?thesis using bcopy_close_healthy[OF assms(2-4), of ?c new_v4 s] assms(5) by (auto simp: bcopy_close_def)
qed

definition noting_block_copy :: "(nat list, nat) block_copy" where
  "noting_block_copy =
     \<lparr>bcs_source_metadata = io_ok (md_with_content_length 5 (metadata_new FILE)), bcs_copy_once = io_ok metadata_default,
      bcs_complete_block = (\<lambda>ids s. Some (Ok metadata_default, ids)), bcs_abort_block = (\<lambda>ids. io_ok ())\<rparr>"

definition copied_block_range :: "nat \<Rightarrow> nat bcopy_input \<Rightarrow> error + nat copied_block" where
  "copied_block_range k i = Inr \<lparr>cbd_block_id = bci_block_id i, cbd_block_number = bci_block_number i,
     cbd_size = (case br_size (bci_range i) of Some n \<Rightarrow> n | None \<Rightarrow> 0)\<rparr>"

theorem block_copy_complete_witness:
  "\<exists>m c s'. bcopy_close noting_block_copy (\<lambda>n. n) copied_block_range (bcopy_new None 0 2 2, []) = Some (Ok m, c, s') \<and>
    (\<exists>z s0. cs_source_size c = Some z \<and>
      (bcs_copy_once noting_block_copy s0 = Some (Ok m, s') \<or>
       (\<exists>ids rngs. bcs_complete_block noting_block_copy ids s0 = Some (Ok m, s') \<and> list_all2 (\<lambda>v rng. True) ids rngs \<and>
          (\<forall>content. length content = unat z \<longrightarrow> concat (map (\<lambda>rng. requested rng content) rngs) = (content :: 8 word list)))))"
proof -
  have run: "\<forall>k. run_ok (bcopy_answer (\<lambda>v rng. True)) (copied_block_range k)" "\<forall>k i. \<exists>b. copied_block_range k i = Inr b"
    by (auto simp: run_ok_def bcopy_answer_def copied_block_range_def)
  have "bcs_answers noting_block_copy 5"
    by (simp add: bcs_answers_def noting_block_copy_def io_defs metadata_content_length_def md_with_content_length_def)
  then obtain m c s' where close: "bcopy_close noting_block_copy (\<lambda>n. n) copied_block_range (bcopy_new None 0 2 2, []) = Some (Ok m, c, s')"
    using bcopy_new_closes[OF _ run, of 2 noting_block_copy 5 None "\<lambda>n. n" 0 2 "[]"] by auto
  have new: "\<not> cs_completed (bcopy_new None 0 2 2)" "0 < (2 :: u64)" by (simp_all add: bcopy_new_def Let_def)
  show ?thesis
    by (intro exI[of _ m] exI[of _ c] exI[of _ s'] conjI) (rule close, rule block_copy_complete[OF breach_new new(2,1) run(1) close])
qed

end
