(* ===== verification/Retry_Properties.thy ===== *)
theory Retry_Properties
  imports Chaos_Layer Copy_Completion
begin

text \<open>
  Properties of \<open>RetryLayer\<close>: writing over a service that fails now and then, the status of the errors that leave the
  layer, and what a reader re-opens when the read at the end of a range fails.
\<close>

section \<open>Sessions of a writer that does not fail\<close>

context reliable_writer
begin

lemma writer_write_all_total:
  assumes "wg_inv g data" "\<forall>b\<in>set bs. buffer_ok b" "wg_chunk_size g \<noteq> Some 0"
  shows "\<exists>g'. writer_write_all ops g bs = Some (Ok (), g') \<and> wg_inv g' (data @ concat (map buffer_view bs))"
proof -
  have "\<exists>g'. writer_write_all ops g bs = Some (Ok (), g')"
    using assms
  proof (induction bs arbitrary: g data)
    case (Cons b bs)
    then have b: "buffer_ok b" by simp
    from writer_write_total[OF Cons.prems(1) b Cons.prems(3)] writer_write_ok[OF Cons.prems(1) b Cons.prems(3)]
    obtain g1 where "writer_write ops g b = Some (Ok (), g1)" "wg_inv g1 (data @ buffer_view b)" "wg_chunk_size g1 \<noteq> Some 0"
      using Cons.prems(3) by auto
    with Cons.IH[of g1] Cons.prems(2) show ?case by simp
  qed simp
  with writer_write_all_ok[OF assms] show ?thesis by auto
qed

lemma writer_session_total:
  assumes "winv w" "writes w = []" "\<forall>b\<in>set bs. buffer_ok b" "c \<noteq> Some 0"
  shows "\<exists>g1 m g2. writer_write_all ops \<lparr>wg_w = w, wg_chunk_size = c, wg_exact = x, wg_buffer = queue_new\<rparr> bs = Some (Ok (), g1) \<and>
    writer_close ops g1 = (Ok m, g2) \<and> metadata_content_length m = of_nat (length (concat (map buffer_view bs))) \<and>
    stored (wg_w g2) = Some (concat (map buffer_view bs))"
proof -
  let ?g = "\<lparr>wg_w = w, wg_chunk_size = c, wg_exact = x, wg_buffer = queue_new\<rparr>"
  have "wg_chunk_size ?g \<noteq> Some 0" using assms(4) by simp
  from writer_write_all_total[OF wg_inv_new[OF assms(1,2)] assms(3) this] obtain g1 where
    g1: "writer_write_all ops ?g bs = Some (Ok (), g1)" "wg_inv g1 (concat (map buffer_view bs))" by auto
  from wg_close_total[OF g1(2)] g1(1) show ?thesis by (auto simp: writer_close_def)
qed

end

section \<open>A service with hiccups\<close>

text \<open>The writers of this service fail every other call, before they do anything.\<close>

definition hiccup :: "('o \<times> 's, 'a) io \<Rightarrow> ('o \<times> 's \<times> bool, 'a) io" where
  "hiccup m = (\<lambda>(ob, s, g).
     if g then map_option (\<lambda>(r, ob1, s1). (r, ob1, s1, False)) (m (ob, s)) else Some (Err unexpected_eof, ob, s, True))"

definition hiccup_accessor ::
  "('s, 'r, 'w, 'l, 'd, 'c) accessor \<Rightarrow> ('s \<times> bool, 'r chaos_reader, 'w, 'l, 'd, 'c) accessor" where
  "hiccup_accessor acc = (chaos_layer alternating 50 acc)
     \<lparr>ac_writer_write := (\<lambda>bs. hiccup (ac_writer_write acc bs)), ac_writer_close := hiccup (ac_writer_close acc)\<rparr>"

definition forget :: "'o \<times> 's \<times> bool \<Rightarrow> 'o \<times> 's" where
  "forget = (\<lambda>(ob, s, g). (ob, s))"

lemma hiccup_writer_ops:
  "w_write (writer_ops (hiccup_accessor acc)) (w, s, g) bs =
     (if g then case w_write (writer_ops acc) (w, s) bs of (q, w', s') \<Rightarrow> (q, w', s', ac_writer_write acc bs (w, s) = None)
      else (Err unexpected_eof, w, s, True))"
  "w_close (writer_ops (hiccup_accessor acc)) (w, s, g) =
     (if g then case w_close (writer_ops acc) (w, s) of (q, w', s') \<Rightarrow> (q, w', s', ac_writer_close acc (w, s) = None)
      else (Err unexpected_eof, w, s, True))"
  by (auto simp: writer_ops_def hiccup_accessor_def hiccup_def io_total_def split: option.splits prod.splits)

lemma hiccup_flaky_writer:
  assumes "reliable_writer (writer_ops acc) winv writes stored"
  shows "flaky_writer (writer_ops (hiccup_accessor acc)) (\<lambda>x. winv (forget x)) (\<lambda>x. writes (forget x)) (\<lambda>x. stored (forget x))
    (\<lambda>(w, s, g). if g then 0 else 1) 1"
proof -
  let ?ops = "writer_ops (hiccup_accessor acc)"
  note ow = reliable_writer.axioms(1)[OF assms]
  have oio: "oio_writer ?ops (\<lambda>x. winv (forget x)) (\<lambda>x. writes (forget x)) (\<lambda>x. stored (forget x))"
  proof
    fix x bs y e m
    assume x: "winv (forget x)"
    obtain w s g where wsg: "x = (w, s, g)" by (cases x)
    show "stored (forget y) = Some (concat (writes (forget x)))" if "w_close ?ops x = (Ok m, y)"
      using that oio_writer.close_Ok[OF ow x] by (auto simp: wsg hiccup_writer_ops forget_def split: if_splits prod.splits)
    assume bs: "buffer_ok bs" "buffer_view bs \<noteq> []"
    show "fst (w_write ?ops x bs) \<noteq> Panic"
      using oio_writer.write_no_panic[OF ow x bs] by (auto simp: wsg hiccup_writer_ops forget_def split: prod.splits)
    show "winv (forget y) \<and> writes (forget y) = writes (forget x) @ [buffer_view bs]" if "w_write ?ops x bs = (Ok (), y)"
      using that oio_writer.write_Ok[OF ow x bs] by (auto simp: wsg hiccup_writer_ops forget_def split: if_splits prod.splits)
    show "winv (forget y) \<and> writes (forget y) = writes (forget x)" if "w_write ?ops x bs = (Err e, y)"
      using that x oio_writer.write_Err[OF ow x bs] by (auto simp: wsg hiccup_writer_ops forget_def split: if_splits prod.splits)
  qed
  show ?thesis
  proof (intro flaky_writer.intro resumable_writer.intro resumable_writer_axioms.intro flaky_writer_axioms.intro oio)
    fix x bs y e
    assume x: "winv (forget x)"
    obtain w s g where wsg: "x = (w, s, g)" by (cases x)
    show "(case x of (w, s, g) \<Rightarrow> if g then 0 else 1) \<le> (1 :: nat)" by (simp add: wsg)
    show "winv (forget y) \<and> writes (forget y) = writes (forget x)" if "w_close ?ops x = (Err e, y)"
      using that x reliable_writer.close_total[OF assms x]
      by (auto simp: wsg hiccup_writer_ops forget_def split: if_splits prod.splits)
    show "(\<exists>w'. w_write ?ops x bs = (Ok (), w')) \<or>
        (\<exists>e w'. w_write ?ops x bs = (Err e, w') \<and> is_temporary e \<and>
          (case w' of (w, s, g) \<Rightarrow> if g then 0 else 1) < (case x of (w, s, g) \<Rightarrow> if g then 0 else (1 :: nat)))"
      if "buffer_ok bs" "buffer_view bs \<noteq> []"
      using reliable_writer.write_total[OF assms x that] by (auto simp: wsg hiccup_writer_ops forget_def unexpected_eof_def)
    show "(\<exists>m w'. w_close ?ops x = (Ok m, w') \<and> metadata_content_length m = of_nat (length (concat (writes (forget x))))) \<or>
        (\<exists>e w'. w_close ?ops x = (Err e, w') \<and> is_temporary e \<and>
          (case w' of (w, s, g) \<Rightarrow> if g then 0 else 1) < (case x of (w, s, g) \<Rightarrow> if g then 0 else (1 :: nat)))"
      using reliable_writer.close_total[OF assms x] by (auto simp: wsg hiccup_writer_ops forget_def unexpected_eof_def)
  qed
qed

section \<open>Properties\<close>



text \<open>
  An error that is not temporary is returned by \<open>RetryLayer\<close> after a single attempt, and yet with the status
  persistent, which means that it was retried; its kind is kept.
\<close>

theorem retry_permanent_marked:
  assumes "backon_ok m b" "\<not> is_temporary e"
  shows "is_persistent (set_persistent e) \<and> e_kind (set_persistent e) = e_kind e \<and>
    (ac_create_dir acc path s = Some (Err e, s') \<longrightarrow>
      ac_create_dir (retry_layer b acc) path s = Some (Err (set_persistent e), s')) \<and>
    (ac_stat acc path sargs s = Some (Err e, s') \<longrightarrow>
      ac_stat (retry_layer b acc) path sargs s = Some (Err (set_persistent e), s')) \<and>
    (ac_read acc path rargs s = Some (Err e, s') \<longrightarrow>
      ac_read (retry_layer b acc) path rargs s = Some (Err (set_persistent e), s')) \<and>
    (ac_write acc path wargs s = Some (Err e, s') \<longrightarrow>
      ac_write (retry_layer b acc) path wargs s = Some (Err (set_persistent e), s')) \<and>
    (ac_list acc path largs s = Some (Err e, s') \<longrightarrow>
      ac_list (retry_layer b acc) path largs s = Some (Err (set_persistent e), s')) \<and>
    (ac_copy acc path to cargs copts s = Some (Err e, s') \<longrightarrow>
      ac_copy (retry_layer b acc) path to cargs copts s = Some (Err (set_persistent e), s')) \<and>
    (ac_writer_write acc bs (w, s) = Some (Err e, w', s') \<longrightarrow>
      ac_writer_write (retry_layer b acc) bs (retry_wrapper_new w, s) = Some (Err (set_persistent e), retry_wrapper_new w', s'))"
proof -
  have once: "tries m f t = Some (Err e, t')" if "f t = Some (Err e, t')" for f :: "('x, 'y) io" and t t'
    using that assms(2) by (cases m) auto
  show ?thesis
    by (intro conjI impI)
      (simp_all add: retry_methods backon_ok_simps[OF assms(1)] io_map_err_def io_map_def io_bind_def once
        retry_wrapper_new_def retry_call_eq is_persistent_def)
qed

text \<open>
  C37: When a \<open>RetryReader\<close> has delivered a range of known size and the read that finds the end fails, the next attempt
  opens the empty range at the end of the object, which no \<open>Range\<close> header can express: \<open>to_header\<close> panics on it.
\<close>

theorem retry_reopens_empty:
  assumes "ord_range args = BytesRange off (Some n)" "unat off + unat n < 2 ^ 64" "buffer_len bs = unat n"
    "ac_reader_read acc (r, s) = Some (Ok bs, r1, s1)" "ac_reader_read acc (r1, s1) = Some (Err e, r2, s2)"
  shows "\<exists>rr1 rr2. retry_reader_read acc (retry_reader_new path args r, s) = Some (Ok bs, rr1, s1) \<and>
    retry_reader_read acc (rr1, s1) = Some (Err e, rr2, s2) \<and>
    ord_range (rr_args rr2) = BytesRange (off + n) (Some 0) \<and> br_to_header (ord_range (rr_args rr2)) = None \<and>
    (\<forall>s3 s4. ac_read acc path (rr_args rr2) s3 = Some (Panic, s4) \<longrightarrow> retry_reader_read acc (rr2, s3) = Some (Panic, rr2, s4))"
proof -
  let ?rr1 = "\<lparr>rr_reader = Some r1, rr_path = path, rr_args = ord_with_range (BytesRange (off + n) (Some 0)) args\<rparr>"
  let ?rr2 = "?rr1\<lparr>rr_reader := None\<rparr>"
  have "br_advance (BytesRange off (Some n)) n = Some (BytesRange (off + n) (Some 0))"
    using assms(2) by (simp add: br_advance_def checked_add_u64_def checked_sub_u64_def)
  then have "retry_reader_read acc (retry_reader_new path args r, s) = Some (Ok bs, ?rr1, s1)"
    using assms(1,3,4) by (simp add: retry_reader_read_def retry_reader_new_def retry_loop_read)
  moreover have "retry_reader_read acc (?rr1, s1) = Some (Err e, ?rr2, s2)"
    using assms(5) by (simp add: retry_reader_read_def retry_loop_read)
  moreover have "retry_reader_read acc (?rr2, s3) = Some (Panic, ?rr2, s4)"
    if "ac_read acc path (rr_args ?rr2) s3 = Some (Panic, s4)" for s3 s4
    using that by (simp add: retry_reader_read_def retry_loop_open)
  moreover have "ord_range (rr_args ?rr2) = BytesRange (off + n) (Some 0)" by (simp add: ord_with_range_def)
  moreover have "br_to_header (BytesRange (off + n) (Some 0)) = None" by (simp add: br_to_header_def show_bytes_range_def)
  ultimately show ?thesis by (intro exI[of _ ?rr1] exI[of _ ?rr2]) (simp del: retry_reader.update_convs)
qed

theorem retry_reopens_empty_witness:
  "\<exists>rr1 rr2 s2.
    retry_reader_read (chaos_layer alternating 50 (memory_accessor [] ''/''))
      (retry_reader_new ''f'' (ord_with_range (BytesRange 1 (Some 2)) op_read_default) \<lparr>chr_inner = buffer_from_bytes [2, 3]\<rparr>, [], True) =
        Some (Ok (buffer_from_bytes [2, 3]), rr1, [], False) \<and>
    retry_reader_read (chaos_layer alternating 50 (memory_accessor [] ''/'')) (rr1, [], False) = Some (Err unexpected_eof, rr2, s2) \<and>
    br_to_header (ord_range (rr_args rr2)) = None"
proof -
  let ?acc = "chaos_layer alternating 50 (memory_accessor [] ''/'')" and ?b = "buffer_from_bytes [2, 3]"
  obtain b where take: "buffer_take ?b = (Ok ?b, b)" by (simp add: buffer_take_def)
  have "ord_range (ord_with_range (BytesRange 1 (Some 2)) op_read_default) = BytesRange 1 (Some 2)" by (simp add: ord_with_range_def)
  moreover have "unat (1 :: u64) + unat (2 :: u64) < 2 ^ 64" "buffer_len ?b = unat (2 :: u64)"
    using buffer_ok_len[of ?b] by simp_all
  moreover have "ac_reader_read ?acc (\<lparr>chr_inner = ?b\<rparr>, [], True) = Some (Ok ?b, \<lparr>chr_inner = b\<rparr>, [], False)"
    using take by (simp add: chaos_read_eq alternating_def memory_accessor_def)
  moreover have "ac_reader_read ?acc (\<lparr>chr_inner = b\<rparr>, [], False) = Some (Err unexpected_eof, \<lparr>chr_inner = b\<rparr>, [], True)"
    by (simp add: chaos_read_eq alternating_def)
  ultimately show ?thesis
    using retry_reopens_empty[of "ord_with_range (BytesRange 1 (Some 2)) op_read_default" 1 2 ?b ?acc] by blast
qed

text \<open>
  C38: \<open>RetryLayer\<close> over a \<open>MultipartCopier\<close> reports an abort as done that was never done: when \<open>abort_copy\<close>
  fails with a temporary error, the copier has already given up its upload id, so the retried \<open>abort\<close> finds nothing to
  abort and succeeds; the state of the service is the one the failed call left, and the upload stays.
\<close>

theorem retry_abort_loses_upload:
  assumes "backon_ok n b" "0 < n" "ac_copier acc = mcopy_ops svc run"
    and "mcp_upload_id c = Some v" "mcs_abort_copy svc v s = Some (Err e, s1)" "is_temporary e"
  shows "\<exists>c'. c_abort (ac_copier (retry_layer b acc)) (retry_wrapper_new c, s) = Some (Ok (), retry_wrapper_new c', s1) \<and>
    mcp_upload_id c' = None"
proof -
  define c1 where "c1 = c\<lparr>cs_tasks := ct_clear (cs_tasks c), mcp_upload_id := None\<rparr>"
  have first: "mcopy_abort svc (c, s) = Some (Err e, c1, s1)"
    using assms(4,5) by (simp add: mcopy_abort_def io_defs c1_def)
  have again: "mcopy_abort svc (c1, s1) = Some (Ok (), c1\<lparr>cs_tasks := ct_clear (cs_tasks c1)\<rparr>, s1)"
    by (simp add: mcopy_abort_def io_defs c1_def)
  obtain k where n: "n = Suc k" using assms(2) by (cases n) auto
  have "tries n (mcopy_abort svc) (c, s) = Some (Ok (), c1\<lparr>cs_tasks := ct_clear (cs_tasks c1)\<rparr>, s1)"
    using first again assms(6) by (cases k) (simp_all add: n)
  then show ?thesis
    using assms(1,3) by (intro exI[of _ "c1\<lparr>cs_tasks := ct_clear (cs_tasks c1)\<rparr>"])
      (simp add: retry_layer_def retry_wrapper_copy_abort_def mcopy_ops_def retry_wrapper_new_def retry_call_eq backon_ok_def c1_def)
qed

text \<open>The service fails its first request to abort; its state counts the requests.\<close>

definition busy_copy :: "nat multipart_copy" where
  "busy_copy =
     \<lparr>mcs_source_metadata = io_ok (md_with_content_length 5 (metadata_new FILE)), mcs_copy_once = io_ok metadata_default,
      mcs_initiate_copy = io_ok ''u'', mcs_complete_copy = (\<lambda>v parts. io_ok metadata_default),
      mcs_abort_copy = (\<lambda>v s. Some (if s = 0 then Err unexpected_eof else Ok (), Suc s))\<rparr>"

definition copying_accessor :: "(nat, unit, unit, unit, unit, multipart_copier) accessor" where
  "copying_accessor =
     \<lparr>ac_info = unit_info, ac_create_dir = ac_create_dir unit_accessor, ac_stat = ac_stat unit_accessor,
      ac_read = ac_read unit_accessor, ac_write = ac_write unit_accessor, ac_delete = ac_delete unit_accessor,
      ac_list = ac_list unit_accessor, ac_copy = (\<lambda>from to args opts. io_ok (mcopy_new capability_default None 0 2 2)),
      ac_rename = ac_rename unit_accessor, ac_reader_read = ac_reader_read unit_accessor,
      ac_writer_write = ac_writer_write unit_accessor, ac_writer_close = ac_writer_close unit_accessor,
      ac_writer_abort = ac_writer_abort unit_accessor, ac_lister_next = ac_lister_next unit_accessor,
      ac_deleter_delete = ac_deleter_delete unit_accessor, ac_deleter_close = ac_deleter_close unit_accessor,
      ac_copier = mcopy_ops busy_copy copied_range\<rparr>"

theorem retry_abort_loses_upload_witness:
  "\<exists>c'. c_abort (ac_copier (retry_layer (backon_tries 3) copying_accessor))
      (retry_wrapper_new ((mcopy_new capability_default None 0 2 2)\<lparr>mcp_upload_id := Some ''u''\<rparr>), 0) =
    Some (Ok (), retry_wrapper_new c', 1) \<and> mcp_upload_id c' = None"
  by (rule retry_abort_loses_upload[OF backon_tries_ok, where svc = busy_copy and run = copied_range and v = "''u''" and e = unexpected_eof])
    (simp_all add: copying_accessor_def busy_copy_def unexpected_eof_def)

end
