(* ===== verification/Path_Cache.thy ===== *)
theory Path_Cache
  imports Accessor
begin

text \<open>
  \<open>PathCacher\<close> (\<open>core/core/src/raw/path_cache.rs\<close>): the services that address files by ids, such as drives, keep
  the ids of paths in a cache and look up the ones that are missing from the nearest cached parent.

  The cache is the crate \<open>moka\<close>, which is not part of the sources: a parameter (record \<open>moka\<close>), of which
  \<open>moka_ok\<close> says what its documentation promises of a bounded cache: it returns only what was inserted last under
  a key, and may drop any entry at any time.  The service is the trait \<open>PathQuery\<close>.

  The lock is held during the whole of every method, so a method is one step; methods of a cacher without the lock,
  which may interleave at their requests, are not modelled.
\<close>

section \<open>PathCacher\<close>

record 's path_query =
  pq_root :: "('s, str) io"
  pq_query :: "str \<Rightarrow> str \<Rightarrow> ('s, str option) io"
  pq_create_dir :: "str \<Rightarrow> str \<Rightarrow> ('s, str) io"

record 'c moka =
  mk_get :: "str \<Rightarrow> 'c \<Rightarrow> str option \<times> 'c"
  mk_contains_key :: "str \<Rightarrow> 'c \<Rightarrow> bool \<times> 'c"
  mk_insert :: "str \<Rightarrow> str \<Rightarrow> 'c \<Rightarrow> 'c"
  mk_invalidate :: "str \<Rightarrow> 'c \<Rightarrow> 'c"

definition pc_cache :: "('c \<Rightarrow> 'a \<times> 'c) \<Rightarrow> ('c \<times> 's, 'a) io" where
  "pc_cache f = (\<lambda>(c, s). case f c of (r, c1) \<Rightarrow> Some (Ok r, c1, s))"

text \<open>The assertion on an existing entry is one of debug builds.\<close>

definition pc_insert :: "'c moka \<Rightarrow> str \<Rightarrow> str \<Rightarrow> ('c \<times> 's, unit) io" where
  "pc_insert mk path id' =
     io_bind (pc_cache (mk_contains_key mk path)) (\<lambda>exists.
     if exists then io_ok () else io_update (mk_insert mk path id'))"

definition pc_remove :: "'c moka \<Rightarrow> str \<Rightarrow> ('c \<times> 's, unit) io" where
  "pc_remove mk path = io_update (mk_invalidate mk path)"

fun pc_query_down :: "'c moka \<Rightarrow> 's path_query \<Rightarrow> str \<Rightarrow> str list \<Rightarrow> ('c \<times> 's, str option) io" where
  "pc_query_down mk pq current_id [] = io_ok (Some current_id)"
| "pc_query_down mk pq current_id (path # paths) =
     io_bind (io_lift (pq_query pq current_id (get_basename path))) (\<lambda>r.
     case r of
       Some id' \<Rightarrow> io_bind (io_update (mk_insert mk path id')) (\<lambda>_. pc_query_down mk pq id' paths)
     | None \<Rightarrow> io_ok None)"

text \<open>The loop of \<open>get\<close> that walks up to the nearest cached parent, and what follows it.\<close>

function pc_up :: "'c moka \<Rightarrow> 's path_query \<Rightarrow> str \<Rightarrow> str list \<Rightarrow> ('c \<times> 's, str option) io" where
  "pc_up mk pq current_path paths =
     (if current_path \<noteq> ''/'' \<and> current_path \<noteq> [] then
        let paths = current_path # paths; current_path = get_parent current_path
        in io_bind (pc_cache (mk_get mk current_path)) (\<lambda>r.
           case r of
             Some id' \<Rightarrow> pc_query_down mk pq id' paths
           | None \<Rightarrow> pc_up mk pq current_path paths)
      else
        io_bind (io_lift (pq_root pq)) (\<lambda>root_id.
        io_bind (io_update (mk_insert mk ''/'' root_id)) (\<lambda>_. pc_query_down mk pq root_id paths)))"
  by pat_completeness auto

definition path_depth :: "str \<Rightarrow> nat" where
  "path_depth p = (if p = ''/'' \<or> p = [] then 0 else Suc (length p))"

lemma path_depth_parent: "p \<noteq> ''/'' \<Longrightarrow> p \<noteq> [] \<Longrightarrow> path_depth (get_parent p) < path_depth p"
  using get_parent_shorter[of p] by (auto simp: path_depth_def)

termination pc_up
  by (relation "measure (\<lambda>(mk, pq, p, paths). path_depth p)") (simp_all add: path_depth_parent)

declare pc_up.simps [simp del]

definition pc_get :: "'c moka \<Rightarrow> 's path_query \<Rightarrow> str \<Rightarrow> ('c \<times> 's, str option) io" where
  "pc_get mk pq path =
     io_bind (pc_cache (mk_get mk path)) (\<lambda>r.
     case r of Some id' \<Rightarrow> io_ok (Some id') | None \<Rightarrow> pc_up mk pq path [])"

text \<open>\<open>ensure_dir\<close>: the directories of a path, and the loop over them.\<close>

fun dir_parents :: "str \<Rightarrow> str list \<Rightarrow> str list" where
  "dir_parents tmp [] = []"
| "dir_parents tmp (component # cs) =
     (if component = [] then dir_parents tmp cs
      else let tmp = tmp @ component @ ''/'' in tmp # dir_parents tmp cs)"

fun pc_ensure_loop :: "'c moka \<Rightarrow> 's path_query \<Rightarrow> str \<Rightarrow> str list \<Rightarrow> ('c \<times> 's, str) io" where
  "pc_ensure_loop mk pq parent_id [] = io_ok parent_id"
| "pc_ensure_loop mk pq parent_id (parent # parents) =
     io_bind (pc_cache (mk_get mk parent)) (\<lambda>r.
     case r of
       Some v \<Rightarrow> pc_ensure_loop mk pq v parents
     | None \<Rightarrow>
         io_bind (io_lift (pq_query pq parent_id (get_basename parent))) (\<lambda>q.
         io_bind (case q of Some v \<Rightarrow> io_ok v | None \<Rightarrow> io_lift (pq_create_dir pq parent_id (get_basename parent))) (\<lambda>v.
         io_bind (io_update (mk_insert mk parent v)) (\<lambda>_. pc_ensure_loop mk pq v parents))))"

definition pc_ensure_dir :: "'c moka \<Rightarrow> 's path_query \<Rightarrow> str \<Rightarrow> ('c \<times> 's, str) io" where
  "pc_ensure_dir mk pq path =
     io_bind (pc_cache (mk_get mk ''/'')) (\<lambda>r.
     io_bind (case r of Some v \<Rightarrow> io_ok v | None \<Rightarrow> io_lift (pq_root pq)) (\<lambda>root_id.
     pc_ensure_loop mk pq root_id (dir_parents [] (split_on slash path))))"

section \<open>What is assumed of the cache and of the service\<close>

definition moka_ok :: "('c \<Rightarrow> str \<rightharpoonup> str) \<Rightarrow> 'c moka \<Rightarrow> bool" where
  "moka_ok entries mk \<longleftrightarrow>
     (\<forall>k c r c'. mk_get mk k c = (r, c') \<longrightarrow> (r = None \<or> r = entries c k) \<and> entries c' \<subseteq>\<^sub>m entries c) \<and>
     (\<forall>k c b c'. mk_contains_key mk k c = (b, c') \<longrightarrow> entries c' \<subseteq>\<^sub>m entries c) \<and>
     (\<forall>k v c. entries (mk_insert mk k v c) \<subseteq>\<^sub>m (entries c)(k \<mapsto> v)) \<and>
     (\<forall>k c. entries (mk_invalidate mk k c) \<subseteq>\<^sub>m (entries c)(k := None))"

text \<open>A drive: \<open>tree s p n\<close> is the id of what is called \<open>n\<close> in the directory with the id \<open>p\<close>.\<close>

definition drive :: "str \<Rightarrow> ('s \<Rightarrow> str \<Rightarrow> str \<rightharpoonup> str) \<Rightarrow> 's path_query \<Rightarrow> bool" where
  "drive root_id tree pq \<longleftrightarrow>
     (\<forall>s. pq_root pq s = Some (Ok root_id, s)) \<and>
     (\<forall>p n s. pq_query pq p n s = Some (Ok (tree s p n), s)) \<and>
     (\<forall>p n s. tree s p n = None \<longrightarrow>
       (\<exists>id' s'. pq_create_dir pq p n s = Some (Ok id', s') \<and> tree s' = (tree s)(p := (tree s p)(n \<mapsto> id'))))"

section \<open>Looking up without a cache\<close>

fun walk :: "(str \<Rightarrow> str \<rightharpoonup> str) \<Rightarrow> str \<Rightarrow> str list \<Rightarrow> str option" where
  "walk t id' [] = Some id'"
| "walk t id' (n # ns) = Option.bind (t id' n) (\<lambda>i. walk t i ns)"

function path_chain :: "str \<Rightarrow> str list" where
  "path_chain p = (if p \<noteq> ''/'' \<and> p \<noteq> [] then path_chain (get_parent p) @ [p] else [])"
  by pat_completeness auto
termination path_chain
  by (relation "measure path_depth") (simp_all add: path_depth_parent)

declare path_chain.simps [simp del]

definition resolve :: "(str \<Rightarrow> str \<rightharpoonup> str) \<Rightarrow> str \<Rightarrow> str \<Rightarrow> str option" where
  "resolve t root_id p = walk t root_id (map get_basename (path_chain p))"

definition coherent :: "('c \<Rightarrow> str \<rightharpoonup> str) \<Rightarrow> (str \<Rightarrow> str \<rightharpoonup> str) \<Rightarrow> str \<Rightarrow> 'c \<Rightarrow> bool" where
  "coherent entries t root_id c \<longleftrightarrow> (\<forall>k v. entries c k = Some v \<longrightarrow> resolve t root_id k = Some v)"

text \<open>\<open>paths\<close> leads down from \<open>q\<close>, one directory at a time.\<close>

fun leads_down :: "str \<Rightarrow> str list \<Rightarrow> bool" where
  "leads_down q [] = True"
| "leads_down q (p # ps) \<longleftrightarrow> p \<noteq> ''/'' \<and> p \<noteq> [] \<and> get_parent p = q \<and> leads_down p ps"

lemma walk_append: "walk t id' (ms @ ns) = Option.bind (walk t id' ms) (\<lambda>i. walk t i ns)"
  by (induction ms arbitrary: id') (auto split: bind_splits)

lemma resolve_root [simp]: "resolve t root_id ''/'' = Some root_id" "resolve t root_id [] = Some root_id"
  by (simp_all add: resolve_def path_chain.simps)

lemma resolve_step:
  "p \<noteq> ''/'' \<Longrightarrow> p \<noteq> [] \<Longrightarrow> resolve t root_id p = Option.bind (resolve t root_id (get_parent p)) (\<lambda>i. t i (get_basename p))"
  by (simp add: resolve_def path_chain.simps[of p] walk_append)

lemma resolve_leads_down:
  "leads_down q ps \<Longrightarrow> resolve t root_id (last (q # ps)) = Option.bind (resolve t root_id q) (\<lambda>i. walk t i (map get_basename ps))"
proof (induction ps arbitrary: q)
  case (Cons p ps)
  then have "resolve t root_id (last (q # p # ps)) = Option.bind (resolve t root_id p) (\<lambda>i. walk t i (map get_basename ps))" by simp
  then show ?case using Cons.prems resolve_step[of p t root_id] by (simp add: ac_simps)
qed simp

lemma coherent_mono: "coherent entries t root_id c \<Longrightarrow> entries c' \<subseteq>\<^sub>m entries c \<Longrightarrow> coherent entries t root_id c'"
  unfolding coherent_def map_le_def by (metis domI)

lemma coherent_insert:
  assumes "coherent entries t root_id c" "entries c' \<subseteq>\<^sub>m (entries c)(k \<mapsto> v)" "resolve t root_id k = Some v"
  shows "coherent entries t root_id c'"
  unfolding coherent_def
proof (intro allI impI)
  fix k' v' assume "entries c' k' = Some v'"
  with assms(2) have "((entries c)(k \<mapsto> v)) k' = Some v'" unfolding map_le_def by (metis domI)
  with assms(1,3) show "resolve t root_id k' = Some v'" by (auto simp: coherent_def split: if_splits)
qed

lemma moka_get_coherent:
  assumes "moka_ok entries mk" "coherent entries t root_id c" "mk_get mk k c = (r, c')"
  shows "coherent entries t root_id c'" "r = Some v \<Longrightarrow> resolve t root_id k = Some v"
proof -
  have r: "r = None \<or> r = entries c k" "entries c' \<subseteq>\<^sub>m entries c" using assms(1,3) unfolding moka_ok_def by blast+
  show "coherent entries t root_id c'" by (rule coherent_mono[OF assms(2) r(2)])
  show "resolve t root_id k = Some v" if "r = Some v"
  proof -
    from that r(1) have "entries c k = Some v" by auto
    with assms(2) show ?thesis unfolding coherent_def by blast
  qed
qed

lemma walk_grows:
  assumes "\<And>p. t p \<subseteq>\<^sub>m t' p" "walk t id' ns = Some v"
  shows "walk t' id' ns = Some v"
  using assms(2)
proof (induction ns arbitrary: id')
  case (Cons n ns)
  then obtain i where i: "t id' n = Some i" "walk t i ns = Some v" by (auto simp: bind_eq_Some_conv)
  from i(1) assms(1)[of id'] have "t' id' n = Some i" unfolding map_le_def by (metis domI)
  with Cons.IH[OF i(2)] show ?case by simp
qed simp

section \<open>Looking up\<close>

lemma pc_query_down_exact:
  assumes mk: "moka_ok entries mk" and pq: "drive root_id tree pq"
  shows "leads_down q paths \<Longrightarrow> resolve (tree s) root_id q = Some cur \<Longrightarrow> coherent entries (tree s) root_id c \<Longrightarrow>
    \<exists>c'. pc_query_down mk pq cur paths (c, s) = Some (Ok (resolve (tree s) root_id (last (q # paths))), c', s) \<and>
      coherent entries (tree s) root_id c'"
proof (induction paths arbitrary: q cur c)
  case Nil
  then show ?case by (simp add: io_ok_def)
next
  case (Cons p paths)
  have query: "pq_query pq cur (get_basename p) s = Some (Ok (tree s cur (get_basename p)), s)" using pq by (simp add: drive_def)
  have res: "resolve (tree s) root_id p = tree s cur (get_basename p)" using Cons.prems(1,2) resolve_step[of p] by simp
  show ?case
  proof (cases "tree s cur (get_basename p)")
    case None
    then have "resolve (tree s) root_id (last (p # paths)) = None" using resolve_leads_down[of p paths] Cons.prems(1) res by simp
    with None query Cons.prems(3) show ?thesis by (simp add: io_defs)
  next
    case (Some v)
    have "entries (mk_insert mk p v c) \<subseteq>\<^sub>m (entries c)(p \<mapsto> v)" using mk by (simp add: moka_ok_def)
    from coherent_insert[OF Cons.prems(3) this] res Some have "coherent entries (tree s) root_id (mk_insert mk p v c)" by simp
    from Cons.IH[OF _ _ this, of p v] Cons.prems(1) res Some query show ?thesis by (simp add: io_defs)
  qed
qed

lemma pc_up_exact:
  assumes mk: "moka_ok entries mk" and pq: "drive root_id tree pq"
  shows "leads_down p paths \<Longrightarrow> coherent entries (tree s) root_id c \<Longrightarrow>
    \<exists>c'. pc_up mk pq p paths (c, s) = Some (Ok (resolve (tree s) root_id (last (p # paths))), c', s) \<and>
      coherent entries (tree s) root_id c'"
proof (induction "path_depth p" arbitrary: p paths c rule: less_induct)
  case less
  show ?case
  proof (cases "p \<noteq> ''/'' \<and> p \<noteq> []")
    case True
    obtain r c1 where get: "mk_get mk (get_parent p) c = (r, c1)" by force
    note co = moka_get_coherent[OF mk less.prems(2) get]
    have down: "leads_down (get_parent p) (p # paths)" using True less.prems(1) by simp
    have up: "pc_up mk pq p paths (c, s) =
      (case r of Some v \<Rightarrow> pc_query_down mk pq v (p # paths) | None \<Rightarrow> pc_up mk pq (get_parent p) (p # paths)) (c1, s)"
      unfolding pc_up.simps[of mk pq p paths] using True get by (simp add: Let_def io_bind_def pc_cache_def del: pc_query_down.simps)
    show ?thesis
    proof (cases r)
      case None
      from less.hyps[OF path_depth_parent down co(1)] True None show ?thesis unfolding up by simp
    next
      case (Some v)
      from pc_query_down_exact[OF mk pq down co(2)[OF Some] co(1)] Some show ?thesis unfolding up by simp
    qed
  next
    case False
    have root: "pq_root pq s = Some (Ok root_id, s)" using pq by (simp add: drive_def)
    have "entries (mk_insert mk ''/'' root_id c) \<subseteq>\<^sub>m (entries c)(''/'' \<mapsto> root_id)" using mk by (simp add: moka_ok_def)
    from coherent_insert[OF less.prems(2) this] have co: "coherent entries (tree s) root_id (mk_insert mk ''/'' root_id c)" by simp
    have "resolve (tree s) root_id p = Some root_id" using False by auto
    from pc_query_down_exact[OF mk pq less.prems(1) this co] root False show ?thesis
      unfolding pc_up.simps[of mk pq p paths] if_not_P[OF False] by (simp add: io_bind_def io_lift_def io_update_def)
  qed
qed

lemma pc_get_exact:
  assumes mk: "moka_ok entries mk" and pq: "drive root_id tree pq" and co: "coherent entries (tree s) root_id c"
  shows "\<exists>c'. pc_get mk pq path (c, s) = Some (Ok (resolve (tree s) root_id path), c', s) \<and> coherent entries (tree s) root_id c'"
proof -
  obtain r c1 where get: "mk_get mk path c = (r, c1)" by force
  note co1 = moka_get_coherent[OF mk co get]
  have eq: "pc_get mk pq path (c, s) = (case r of Some v \<Rightarrow> io_ok (Some v) | None \<Rightarrow> pc_up mk pq path []) (c1, s)"
    using get by (simp add: pc_get_def io_bind_def pc_cache_def)
  show ?thesis
  proof (cases r)
    case None
    from pc_up_exact[OF mk pq _ co1(1), of path "[]"] None show ?thesis unfolding eq by simp
  next
    case (Some v)
    with co1(1) co1(2)[OF Some] show ?thesis unfolding eq by (simp add: io_ok_def)
  qed
qed

section \<open>Making directories\<close>

definition tree_grows :: "('s \<Rightarrow> str \<Rightarrow> str \<rightharpoonup> str) \<Rightarrow> 's \<Rightarrow> 's \<Rightarrow> bool" where
  "tree_grows tree s s' \<longleftrightarrow> (\<forall>p. tree s p \<subseteq>\<^sub>m tree s' p)"

lemma tree_grows_resolve: "tree_grows tree s s' \<Longrightarrow> resolve (tree s) root_id p = Some v \<Longrightarrow> resolve (tree s') root_id p = Some v"
  unfolding tree_grows_def resolve_def by (rule walk_grows) auto

lemma tree_grows_coherent:
  "tree_grows tree s s' \<Longrightarrow> coherent entries (tree s) root_id c \<Longrightarrow> coherent entries (tree s') root_id c"
  using tree_grows_resolve unfolding coherent_def by metis

lemma tree_grows_trans: "tree_grows tree s s1 \<Longrightarrow> tree_grows tree s1 s2 \<Longrightarrow> tree_grows tree s s2"
  unfolding tree_grows_def using map_le_trans by blast

lemma pc_ensure_loop_exact:
  assumes mk: "moka_ok entries mk" and pq: "drive root_id tree pq"
  shows "leads_down q parents \<Longrightarrow> resolve (tree s) root_id q = Some cur \<Longrightarrow> coherent entries (tree s) root_id c \<Longrightarrow>
    \<exists>v c' s'. pc_ensure_loop mk pq cur parents (c, s) = Some (Ok v, c', s') \<and> tree_grows tree s s' \<and>
      coherent entries (tree s') root_id c' \<and> resolve (tree s') root_id (last (q # parents)) = Some v"
proof (induction parents arbitrary: q cur c s)
  case Nil
  then show ?case by (simp add: io_ok_def tree_grows_def)
next
  case (Cons p parents)
  obtain r c1 where get: "mk_get mk p c = (r, c1)" by force
  note co1 = moka_get_coherent[OF mk Cons.prems(3) get]
  show ?case
  proof (cases r)
    case (Some v)
    from Cons.IH[OF _ co1(2)[OF Some] co1(1)] Cons.prems(1) get Some show ?thesis by (simp add: io_bind_def pc_cache_def)
  next
    case None
    let ?b = "get_basename p"
    have query: "pq_query pq cur ?b s = Some (Ok (tree s cur ?b), s)" using pq by (simp add: drive_def)
    obtain v s1 where v: "(case tree s cur ?b of Some v \<Rightarrow> io_ok v | None \<Rightarrow> io_lift (pq_create_dir pq cur ?b)) (c1, s) = Some (Ok v, c1, s1)"
      "tree_grows tree s s1" "tree s1 cur ?b = Some v"
    proof (cases "tree s cur ?b")
      case None
      with pq obtain v s1 where "pq_create_dir pq cur ?b s = Some (Ok v, s1)" "tree s1 = (tree s)(cur := (tree s cur)(?b \<mapsto> v))"
        unfolding drive_def by blast
      moreover from this(2) None have "tree_grows tree s s1" by (auto simp: tree_grows_def map_le_def)
      ultimately show thesis using that[of v s1] None by (simp add: io_lift_def)
    next
      case (Some v)
      with that[of v s] show thesis by (simp add: io_ok_def tree_grows_def)
    qed
    have "resolve (tree s1) root_id p = Some v"
      using resolve_step[of p "tree s1" root_id] tree_grows_resolve[OF v(2) Cons.prems(2)] Cons.prems(1) v(3) by simp
    moreover have "entries (mk_insert mk p v c1) \<subseteq>\<^sub>m (entries c1)(p \<mapsto> v)" using mk by (simp add: moka_ok_def)
    ultimately have co2: "coherent entries (tree s1) root_id (mk_insert mk p v c1)"
      using coherent_insert[OF tree_grows_coherent[OF v(2) co1(1)]] by blast
    have "pc_ensure_loop mk pq cur (p # parents) (c, s) = pc_ensure_loop mk pq v parents (mk_insert mk p v c1, s1)"
      using get None query v(1) by (simp add: io_bind_def pc_cache_def io_update_def io_lift_def)
    with Cons.IH[OF _ \<open>resolve (tree s1) root_id p = Some v\<close> co2] Cons.prems(1) tree_grows_trans[OF v(2)] show ?thesis by fastforce
  qed
qed

lemma dir_parents_lead_down:
  "\<forall>c\<in>set cs. slash \<notin> set c \<Longrightarrow> tmp = [] \<and> q = ''/'' \<or> (\<exists>u. tmp = u @ ''/'') \<and> q = tmp \<Longrightarrow> leads_down q (dir_parents tmp cs)"
proof (induction cs arbitrary: tmp q)
  case (Cons c cs)
  show ?case
  proof (cases "c = []")
    case False
    have "get_parent (tmp @ c @ ''/'') = q" using Cons.prems by auto
    moreover have "leads_down (tmp @ c @ ''/'') (dir_parents (tmp @ c @ ''/'') cs)"
      by (rule Cons.IH) (use Cons.prems(1) in simp_all)
    ultimately show ?thesis using False by (auto simp: Let_def append_eq_Cons_conv)
  qed (use Cons in simp)
qed simp

definition dir_key :: "str \<Rightarrow> str" where
  "dir_key path = concat (map (\<lambda>c. c @ ''/'') (path_components path))"

lemma dir_parents_last: "dir_parents tmp cs = [] \<and> filter (\<lambda>c. c \<noteq> []) cs = [] \<or>
  dir_parents tmp cs \<noteq> [] \<and> last (dir_parents tmp cs) = tmp @ concat (map (\<lambda>c. c @ ''/'') (filter (\<lambda>c. c \<noteq> []) cs))"
proof (induction cs arbitrary: tmp)
  case (Cons c cs)
  from Cons.IH[of "tmp @ c @ ''/''"] Cons.IH[of tmp] show ?case by (auto simp: Let_def filter_empty_conv)
qed simp

lemma ensure_path:
  "leads_down ''/'' (dir_parents [] (split_on slash path))"
  "resolve t root_id (last (''/'' # dir_parents [] (split_on slash path))) = resolve t root_id (dir_key path)"
proof -
  show "leads_down ''/'' (dir_parents [] (split_on slash path))"
    by (rule dir_parents_lead_down) (auto dest: split_on_no_sep)
  show "resolve t root_id (last (''/'' # dir_parents [] (split_on slash path))) = resolve t root_id (dir_key path)"
    using dir_parents_last[of "[]" "split_on slash path"] by (auto simp: dir_key_def path_components_def)
qed

lemma pc_ensure_dir_exact:
  assumes mk: "moka_ok entries mk" and pq: "drive root_id tree pq" and co: "coherent entries (tree s) root_id c"
  shows "\<exists>v c' s'. pc_ensure_dir mk pq path (c, s) = Some (Ok v, c', s') \<and> tree_grows tree s s' \<and>
    coherent entries (tree s') root_id c' \<and> resolve (tree s') root_id (dir_key path) = Some v"
proof -
  obtain r c1 where get: "mk_get mk ''/'' c = (r, c1)" by force
  note co1 = moka_get_coherent[OF mk co get]
  have "(case r of Some v \<Rightarrow> io_ok v | None \<Rightarrow> io_lift (pq_root pq)) (c1, s) = Some (Ok root_id, c1, s)"
    using pq co1(2) by (cases r) (simp_all add: io_ok_def io_lift_def drive_def)
  then have "pc_ensure_dir mk pq path (c, s) = pc_ensure_loop mk pq root_id (dir_parents [] (split_on slash path)) (c1, s)"
    using get by (simp add: pc_ensure_dir_def io_bind_def pc_cache_def)
  with pc_ensure_loop_exact[OF mk pq ensure_path(1) resolve_root(1) co1(1), of path] show ?thesis by (simp only: ensure_path(2))
qed

text \<open>
  The states of a cacher: from an empty cache, by its methods and by whatever else adds to the drive.  An id that a
  client inserts is the one of the path.
\<close>

inductive pc_reach ::
  "('c \<Rightarrow> str \<rightharpoonup> str) \<Rightarrow> 'c moka \<Rightarrow> str \<Rightarrow> ('s \<Rightarrow> str \<Rightarrow> str \<rightharpoonup> str) \<Rightarrow> 's path_query \<Rightarrow> 'c \<Rightarrow> 's \<Rightarrow> bool"
  for entries mk root_id tree pq where
  preach_new: "entries c = Map.empty \<Longrightarrow> pc_reach entries mk root_id tree pq c s"
| preach_get: "pc_reach entries mk root_id tree pq c s \<Longrightarrow> pc_get mk pq path (c, s) = Some (r, c', s') \<Longrightarrow>
    pc_reach entries mk root_id tree pq c' s'"
| preach_ensure: "pc_reach entries mk root_id tree pq c s \<Longrightarrow> pc_ensure_dir mk pq path (c, s) = Some (r', c', s') \<Longrightarrow>
    pc_reach entries mk root_id tree pq c' s'"
| preach_remove: "pc_reach entries mk root_id tree pq c s \<Longrightarrow> pc_remove mk path (c, s) = Some (u, c', s') \<Longrightarrow>
    pc_reach entries mk root_id tree pq c' s'"
| preach_insert: "pc_reach entries mk root_id tree pq c s \<Longrightarrow> resolve (tree s) root_id path = Some v \<Longrightarrow>
    pc_insert mk path v (c, s) = Some (u, c', s') \<Longrightarrow> pc_reach entries mk root_id tree pq c' s'"
| preach_grow: "pc_reach entries mk root_id tree pq c s \<Longrightarrow> tree_grows tree s s' \<Longrightarrow> pc_reach entries mk root_id tree pq c s'"

lemma pc_reach_coherent:
  assumes mk: "moka_ok entries mk" and pq: "drive root_id tree pq"
  shows "pc_reach entries mk root_id tree pq c s \<Longrightarrow> coherent entries (tree s) root_id c"
proof (induction rule: pc_reach.induct)
  case (preach_new c s)
  then show ?case by (simp add: coherent_def)
next
  case (preach_get c s path r c' s')
  from pc_get_exact[OF mk pq preach_get.IH, of path] preach_get.hyps(2) show ?case by auto
next
  case (preach_ensure c s path r' c' s')
  from pc_ensure_dir_exact[OF mk pq preach_ensure.IH, of path] preach_ensure.hyps(2) show ?case by auto
next
  case (preach_remove c s path u c' s')
  then have "entries c' \<subseteq>\<^sub>m (entries c)(path := None)" using mk by (auto simp: pc_remove_def io_update_def moka_ok_def)
  moreover have "(entries c)(path := None) \<subseteq>\<^sub>m entries c" by (auto simp: map_le_def)
  ultimately have "entries c' \<subseteq>\<^sub>m entries c" by (rule map_le_trans)
  then show ?case using preach_remove by (auto simp: pc_remove_def io_update_def intro: coherent_mono)
next
  case (preach_insert c s path v u c' s')
  obtain b c1 where ck: "mk_contains_key mk path c = (b, c1)" by force
  with mk have "entries c1 \<subseteq>\<^sub>m entries c" unfolding moka_ok_def by blast
  from coherent_mono[OF preach_insert.IH this] have co: "coherent entries (tree s) root_id c1" .
  have "entries (mk_insert mk path v c1) \<subseteq>\<^sub>m (entries c1)(path \<mapsto> v)" using mk by (simp add: moka_ok_def)
  from coherent_insert[OF co this preach_insert.hyps(2)] co preach_insert.hyps(3) ck show ?case
    by (auto simp: pc_insert_def io_defs pc_cache_def split: if_splits)
next
  case (preach_grow c s s')
  then show ?case by (simp add: tree_grows_coherent)
qed

section \<open>Properties\<close>

text \<open>
  C14: \<open>PathCacher::get\<close> finds, whatever the cache holds or has dropped after any sequence of calls, exactly the id that
  a lookup from the root without a cache finds, and none if there is none.
\<close>

theorem path_cache_get_exact:
  assumes "moka_ok entries mk" "drive root_id tree pq" "pc_reach entries mk root_id tree pq c s"
  shows "\<exists>c'. pc_get mk pq path (c, s) = Some (Ok (walk (tree s) root_id (map get_basename (path_chain path))), c', s)"
  using pc_get_exact[OF assms(1,2) pc_reach_coherent[OF assms], of path] by (auto simp: resolve_def)

text \<open>
  C15: After \<open>PathCacher::ensure_dir\<close> the directory exists: \<open>ensure_dir\<close> succeeds, only adds to the drive, and
  \<open>get\<close> finds the id it returned under the path of the directory, with a trailing and without a leading slash.
\<close>

theorem path_cache_ensure_get:
  assumes "moka_ok entries mk" "drive root_id tree pq" "pc_reach entries mk root_id tree pq c s"
  shows "\<exists>v c' s'. pc_ensure_dir mk pq path (c, s) = Some (Ok v, c', s') \<and> (\<forall>p. tree s p \<subseteq>\<^sub>m tree s' p) \<and>
    (\<exists>c''. pc_get mk pq (concat (map (\<lambda>c. c @ ''/'') (path_components path))) (c', s') = Some (Ok (Some v), c'', s'))"
proof -
  from pc_ensure_dir_exact[OF assms(1,2) pc_reach_coherent[OF assms], of path] obtain v c' s' where
    e: "pc_ensure_dir mk pq path (c, s) = Some (Ok v, c', s')" "tree_grows tree s s'" "coherent entries (tree s') root_id c'"
      "resolve (tree s') root_id (dir_key path) = Some v" by blast
  with pc_get_exact[OF assms(1,2) e(3), of "dir_key path"] show ?thesis by (auto simp: tree_grows_def dir_key_def)
qed

text \<open>A cache that keeps one entry, and a drive whose ids are the paths of its directories.\<close>

definition one_entry :: "(str \<times> str) option moka" where
  "one_entry =
     \<lparr>mk_get = (\<lambda>k c. (map_of (case c of Some e \<Rightarrow> [e] | None \<Rightarrow> []) k, c)),
      mk_contains_key = (\<lambda>k c. (map_of (case c of Some e \<Rightarrow> [e] | None \<Rightarrow> []) k \<noteq> None, c)),
      mk_insert = (\<lambda>k v c. Some (k, v)),
      mk_invalidate = (\<lambda>k c. case c of Some e \<Rightarrow> (if fst e = k then None else c) | None \<Rightarrow> None)\<rparr>"

definition path_drive :: "(str \<times> str) list path_query" where
  "path_drive =
     \<lparr>pq_root = io_ok ''root/'', pq_query = (\<lambda>p n s. Some (Ok (if (p, n) \<in> set s then Some (p @ n) else None), s)),
      pq_create_dir = (\<lambda>p n s. Some (Ok (p @ n), (p, n) # s))\<rparr>"

lemma one_entry_ok: "moka_ok (\<lambda>c. map_of (case c of Some e \<Rightarrow> [e] | None \<Rightarrow> [])) one_entry"
  by (auto simp: moka_ok_def one_entry_def map_le_def split: option.splits)

lemma path_drive_ok: "drive ''root/'' (\<lambda>s p n. if (p, n) \<in> set s then Some (p @ n) else None) path_drive"
  by (auto simp: drive_def path_drive_def io_ok_def fun_eq_iff)

lemma path_cache_new:
  "pc_reach (\<lambda>c. map_of (case c of Some e \<Rightarrow> [e] | None \<Rightarrow> [])) one_entry ''root/''
     (\<lambda>s p n. if (p, n) \<in> set s then Some (p @ n) else None) path_drive None s"
  by (rule preach_new) simp

theorem path_cache_get_exact_witness:
  "\<exists>c'. pc_get one_entry path_drive ''a/b'' (None, [(''root/'', ''a/''), (''root/a/'', ''b'')]) =
    Some (Ok (Some ''root/a/b''), c', [(''root/'', ''a/''), (''root/a/'', ''b'')])"
proof -
  have "path_chain ''a/b'' = [''a/'', ''a/b'']" "get_basename ''a/'' = ''a/''" "get_basename ''a/b'' = ''b''" by code_simp+
  then show ?thesis
    using path_cache_get_exact[OF one_entry_ok path_drive_ok path_cache_new, of "''a/b''" "[(''root/'', ''a/''), (''root/a/'', ''b'')]"] by simp
qed

theorem path_cache_ensure_get_witness:
  "\<exists>v c' s'. pc_ensure_dir one_entry path_drive ''/a//b'' (None, []) = Some (Ok v, c', s') \<and>
    (\<exists>c''. pc_get one_entry path_drive ''a/b/'' (c', s') = Some (Ok (Some v), c'', s'))"
proof -
  have "concat (map (\<lambda>c. c @ ''/'') (path_components ''/a//b'')) = ''a/b/''" by code_simp
  then show ?thesis using path_cache_ensure_get[OF one_entry_ok path_drive_ok path_cache_new, of "''/a//b''" "[]"] by auto
qed

end
