(* ===== verification/Immutable_Index.thy ===== *)
theory Immutable_Index
  imports Operators
begin

text \<open>
  \<open>ImmutableIndexLayer\<close> (\<open>core/layers/immutable-index/src/lib.rs\<close>): listings are answered from an index of keys
  that is given when the layer is built; everything else is passed on.  The direct children of a directory are collected
  in a \<open>HashSet\<close>, whose order is not specified: \<open>iter xs\<close> is the sequence in which the set built by inserting
  \<open>xs\<close> is iterated.
\<close>

section \<open>ImmutableIndexLayer\<close>

definition iil_insert :: "str \<Rightarrow> str list \<Rightarrow> str list" where
  "iil_insert key vec = vec @ [key]"

definition iil_extend_iter :: "str list \<Rightarrow> str list \<Rightarrow> str list" where
  "iil_extend_iter iter vec = vec @ iter"

definition children_flat :: "str list \<Rightarrow> str \<Rightarrow> str list" where
  "children_flat vec path = filter (\<lambda>v. starts_with v path \<and> v \<noteq> path) vec"

text \<open>The body of the loop: what the key \<open>i\<close> inserts.\<close>

definition hierarchy_child :: "str \<Rightarrow> str \<Rightarrow> str option" where
  "hierarchy_child path i =
     (if \<not> starts_with i path then None
      else if i = path then None
      else case find_char (drop (length path) i) slash of
             None \<Rightarrow> Some i
           | Some idx \<Rightarrow>
               let dir_idx = idx + 1 + length path
               in if dir_idx = length i then Some i else Some (take dir_idx i))"

definition children_hierarchy :: "(str list \<Rightarrow> str list) \<Rightarrow> str list \<Rightarrow> str \<Rightarrow> str list" where
  "children_hierarchy iter vec path = iter (List.map_filter (hierarchy_child path) vec)"

definition immutable_list :: "(str list \<Rightarrow> str list) \<Rightarrow> str list \<Rightarrow> str \<Rightarrow> op_list \<Rightarrow> ('s, str list) io" where
  "immutable_list iter vec path args =
     (let path = (if path = ''/'' then [] else path)
      in io_ok (if ol_recursive args then children_flat vec path else children_hierarchy iter vec path))"

definition immutable_dir_next :: "str list lister_next" where
  "immutable_dir_next idx =
     Some (case idx of
             [] \<Rightarrow> (Ok None, [])
           | v # vs \<Rightarrow>
               (Ok (Some (oio_entry_with v (metadata_new (if ends_with_char v slash then DIR else FILE)))), vs))"

definition immutable_index_layer ::
  "(str list \<Rightarrow> str list) \<Rightarrow> str list \<Rightarrow> ('s, 'r, 'w, 'l, 'd, 'c) accessor \<Rightarrow> ('s, 'r, 'w, str list, 'd, 'c) accessor" where
  "immutable_index_layer iter vec acc =
     \<lparr>ac_info = update_full_capability (\<lambda>cap. cap\<lparr>cap_list := True, cap_list_with_recursive := True\<rparr>) (ac_info acc),
      ac_create_dir = ac_create_dir acc,
      ac_stat = ac_stat acc,
      ac_read = ac_read acc,
      ac_write = ac_write acc,
      ac_delete = ac_delete acc,
      ac_list = immutable_list iter vec,
      ac_copy = ac_copy acc,
      ac_rename = ac_rename acc,
      ac_reader_read = ac_reader_read acc,
      ac_writer_write = ac_writer_write acc,
      ac_writer_close = ac_writer_close acc,
      ac_writer_abort = ac_writer_abort acc,
      ac_lister_next = (\<lambda>(l, s). map_option (\<lambda>(r, l'). (r, l', s)) (immutable_dir_next l)),
      ac_deleter_delete = ac_deleter_delete acc,
      ac_deleter_close = ac_deleter_close acc,
      ac_copier = ac_copier acc\<rparr>"

section \<open>Listings\<close>

definition index_entry :: "str \<Rightarrow> oio_entry" where
  "index_entry v = oio_entry_with v (metadata_new (if ends_with_char v slash then DIR else FILE))"

interpretation iidx: finite_lister "ac_lister_next (immutable_index_layer iter vec acc)" "\<lambda>(l, s). map index_entry l" "\<lambda>(l, s). s = s0"
  by unfold_locales (auto simp: immutable_index_layer_def immutable_dir_next_def index_entry_def)

definition hash_set_iter :: "(str list \<Rightarrow> str list) \<Rightarrow> bool" where
  "hash_set_iter iter \<longleftrightarrow> (\<forall>xs. distinct (iter xs) \<and> set (iter xs) = set xs)"

lemma hierarchy_child_eq:
  "hierarchy_child path i = (if starts_with i path \<and> i \<noteq> path then Some (child_of path i) else None)"
  by (auto simp: hierarchy_child_def child_of_def Let_def add.commute add.left_commute split: option.splits dest!: find_char_Some_D)

lemma children_hierarchy_exact:
  assumes "hash_set_iter iter"
  shows "distinct (children_hierarchy iter vec path)"
    "set (children_hierarchy iter vec path) = child_of path ` {k \<in> set vec. starts_with k path \<and> k \<noteq> path}"
  using assms by (auto simp: children_hierarchy_def hash_set_iter_def hierarchy_child_eq map_filter_def split: if_splits)

text \<open>No child is the empty path, for which an entry shows the root.\<close>

lemma listed_nonempty:
  "hash_set_iter iter \<Longrightarrow> [] \<notin> set (children_hierarchy iter vec path)" "[] \<notin> set (children_flat vec path)"
  by (auto simp: children_hierarchy_exact child_of_def children_flat_def starts_with_def image_iff split: option.splits)

lemma index_entry_path: "v \<noteq> [] \<Longrightarrow> oe_path (index_entry v) = v"
  by (simp add: index_entry_def oio_entry_with_def)

lemma immutable_operator_list:
  "operator_list (immutable_index_layer iter vec acc) path opts s =
     (let p = (if normalize_path path = ''/'' then [] else normalize_path path)
      in Some (Ok (map (\<lambda>v. into_entry (index_entry v))
           (if lo_recursive opts then children_flat vec p else children_hierarchy iter vec p)), s))"
proof -
  have list: "ac_list (immutable_index_layer iter vec acc) = immutable_list iter vec" by (simp add: immutable_index_layer_def)
  have "\<exists>l' s'. lister_collect (ac_lister_next (immutable_index_layer iter vec acc)) [] l s =
      Some (Ok ([] @ map into_entry (map index_entry l)), s') \<and> s' = s" for l
    using lister_collect_ok[OF iidx.finite_lister_axioms[of iter vec acc s], of l s "[]"] by simp
  then show ?thesis
    by (simp add: operator_list_def list immutable_list_def io_bind_def io_ok_def Let_def op_list_from_def comp_def)
qed

section \<open>Property\<close>

text \<open>
  C16: \<open>Operator::list\<close> under \<open>ImmutableIndexLayer\<close>, over every service, succeeds without a call of the service.  A
  recursive listing returns the keys of the index below the path, in the order of the index; any other listing returns
  every direct child once, a directory for every key further down.  What ends in a slash is a directory.  Neither returns a
  key that equals the path, where the documentation of \<open>Operator::list\<close> has an existing path returned in addition to
  what is below it.
\<close>

theorem immutable_index_lists:
  assumes "hash_set_iter iter"
  shows "\<exists>es. operator_list (immutable_index_layer iter vec acc) path opts s = Some (Ok es, s) \<and>
    (let p = (if normalize_path path = ''/'' then [] else normalize_path path)
     in if lo_recursive opts then map en_path es = filter (\<lambda>k. starts_with k p \<and> k \<noteq> p) vec
        else distinct (map en_path es) \<and> set (map en_path es) = child_of p ` {k \<in> set vec. starts_with k p \<and> k \<noteq> p}) \<and>
    (\<forall>e\<in>set es. md_mode (en_metadata e) = (if ends_with_char (en_path e) slash then DIR else FILE))"
proof -
  define p where "p = (if normalize_path path = ''/'' then [] else normalize_path path)"
  define l where "l = (if lo_recursive opts then children_flat vec p else children_hierarchy iter vec p)"
  let ?es = "map (\<lambda>v. into_entry (index_entry v)) l"
  have "[] \<notin> set l" using listed_nonempty assms by (simp add: l_def)
  then have path: "en_path (into_entry (index_entry v)) = v" if "v \<in> set l" for v
    using that index_entry_path[of v] by (auto simp: into_entry_def)
  then have paths: "map en_path ?es = l" by (simp add: map_idI)
  have "operator_list (immutable_index_layer iter vec acc) path opts s = Some (Ok ?es, s)"
    by (simp only: immutable_operator_list Let_def p_def[symmetric] l_def[symmetric])
  moreover have "if lo_recursive opts then l = filter (\<lambda>k. starts_with k p \<and> k \<noteq> p) vec
      else distinct l \<and> set l = child_of p ` {k \<in> set vec. starts_with k p \<and> k \<noteq> p}"
    using children_hierarchy_exact[OF assms] by (simp add: l_def children_flat_def)
  moreover have "\<forall>e\<in>set ?es. md_mode (en_metadata e) = (if ends_with_char (en_path e) slash then DIR else FILE)"
    using path by (auto simp: into_entry_def index_entry_def oio_entry_with_def metadata_new_def)
  ultimately show ?thesis unfolding Let_def p_def[symmetric] by (intro exI[of _ ?es]) (simp only: paths)
qed

theorem immutable_index_lists_witness:
  "\<exists>es. operator_list (immutable_index_layer remdups [''file'', ''dir/'', ''dir/file'', ''other/file''] unit_accessor) ''/''
      list_options_default () = Some (Ok es, ()) \<and>
    distinct (map en_path es) \<and> set (map en_path es) = {''file'', ''dir/'', ''other/''}"
proof -
  have iter: "hash_set_iter remdups" by (simp add: hash_set_iter_def)
  have "normalize_path ''/'' = ''/''" "\<not> lo_recursive list_options_default" by code_simp+
  moreover have "child_of [] ` {k \<in> set [''file'', ''dir/'', ''dir/file'', ''other/file'']. starts_with k [] \<and> k \<noteq> []} =
      {''file'', ''dir/'', ''other/''}" by code_simp
  ultimately show ?thesis
    using immutable_index_lists[OF iter, of "[''file'', ''dir/'', ''dir/file'', ''other/file'']" unit_accessor "''/''" list_options_default "()"]
    by (simp only: Let_def if_True if_False simp_thms) blast
qed

end
