(* ===== verification/Async_Reader.thy ===== *)
theory Async_Reader
  imports Memory
begin

text \<open>
  \<open>FuturesAsyncReader\<close> (\<open>core/core/src/types/read/futures_async_reader.rs\<close>): the adapter of a \<open>Reader\<close> to
  \<open>AsyncRead\<close>, \<open>AsyncBufRead\<close> and \<open>AsyncSeek\<close>.

  A method that returns has the outcome \<open>None\<close> if it panics, \<open>Some (Inl k)\<close> for an \<open>io::Error\<close> of kind
  \<open>k\<close> and \<open>Some (Inr x)\<close> for a success; a poll that is pending is not modelled.  Arithmetic on \<open>u64\<close> and
  \<open>i64\<close> wraps.  \<open>copy_to_slice\<close> is a provided method of the trait \<open>Buf\<close> of the crate \<open>bytes\<close> and an
  argument: \<open>copy b n\<close> are the first \<open>n\<close> bytes of \<open>b\<close> and what is left of it.
\<close>

section \<open>FuturesAsyncReader\<close>

record 'r futures_async_reader =
  far_ctx :: read_context
  far_stream :: "'r buffer_stream"
  far_buf :: buffer
  far_start :: u64
  far_end :: u64
  far_pos :: u64

definition far_new :: "read_context \<Rightarrow> u64 \<Rightarrow> u64 \<Rightarrow> 'r futures_async_reader" where
  "far_new ctx start fin =
     \<lparr>far_ctx = ctx, far_stream = bst_new ctx start (Some (fin - start)), far_buf = buffer_new,
      far_start = start, far_end = fin, far_pos = 0\<rparr>"

partial_function (option) far_fill_buf ::
  "('r, 's) read_ops \<Rightarrow> 'r chunk_env \<Rightarrow> 'r futures_async_reader \<Rightarrow> 's \<Rightarrow>
     ((io_error_kind + bytes) option \<times> 'r futures_async_reader \<times> 's) option" where
  "far_fill_buf ops env r s =
     (if buffer_remaining (far_buf r) \<noteq> 0 then Some (map_option Inr (buffer_chunk (far_buf r)), r, s)
      else case bst_poll_next ops env (far_stream r) s of
        None \<Rightarrow> None
      | Some (Ok (Some buf), st, s1) \<Rightarrow> far_fill_buf ops env (r\<lparr>far_stream := st, far_buf := buf\<rparr>) s1
      | Some (Ok None, st, s1) \<Rightarrow> Some (Some (Inr []), r\<lparr>far_stream := st\<rparr>, s1)
      | Some (Err e, st, s1) \<Rightarrow> Some (Some (Inl (format_std_io_error e)), r\<lparr>far_stream := st\<rparr>, s1)
      | Some (Panic, st, s1) \<Rightarrow> Some (None, r\<lparr>far_stream := st\<rparr>, s1))"

definition far_consume :: "usize \<Rightarrow> 'r futures_async_reader \<Rightarrow> 'r futures_async_reader option" where
  "far_consume amt r =
     map_option (\<lambda>b. r\<lparr>far_buf := if buffer_is_empty b then buffer_new else b, far_pos := far_pos r + of_nat amt\<rparr>)
       (buffer_advance (far_buf r) amt)"

partial_function (option) far_read ::
  "(buffer \<Rightarrow> usize \<Rightarrow> (bytes \<times> buffer) option) \<Rightarrow> ('r, 's) read_ops \<Rightarrow> 'r chunk_env \<Rightarrow> usize \<Rightarrow>
     'r futures_async_reader \<Rightarrow> 's \<Rightarrow> ((io_error_kind + bytes) option \<times> 'r futures_async_reader \<times> 's) option" where
  "far_read copy ops env n r s =
     (if buffer_remaining (far_buf r) > 0
      then let sz = min (buffer_remaining (far_buf r)) n
           in Some (case copy (far_buf r) sz of
                None \<Rightarrow> (None, r, s)
              | Some (bs, b) \<Rightarrow> (Some (Inr bs), r\<lparr>far_buf := b, far_pos := far_pos r + of_nat sz\<rparr>, s))
      else case bst_poll_next ops env (far_stream r) s of
        None \<Rightarrow> None
      | Some (Ok (Some buf), st, s1) \<Rightarrow> far_read copy ops env n (r\<lparr>far_stream := st, far_buf := buf\<rparr>) s1
      | Some (Ok None, st, s1) \<Rightarrow> Some (Some (Inr []), r\<lparr>far_stream := st\<rparr>, s1)
      | Some (Err e, st, s1) \<Rightarrow> Some (Some (Inl (format_std_io_error e)), r\<lparr>far_stream := st\<rparr>, s1)
      | Some (Panic, st, s1) \<Rightarrow> Some (None, r\<lparr>far_stream := st\<rparr>, s1))"

definition far_seek :: "seek_from \<Rightarrow> 'r futures_async_reader \<Rightarrow> (io_error_kind + u64) option \<times> 'r futures_async_reader" where
  "far_seek pos r =
     (let new_pos = (case pos of
            SeekStart n \<Rightarrow> of_nat n
          | SeekEnd i \<Rightarrow> far_end r - far_start r + of_int i
          | SeekCurrent i \<Rightarrow> far_pos r + of_int i)
      in if sint new_pos < 0 then (Some (Inl IoInvalidInput), r)
         else let len = far_end r - far_start r
              in if len < new_pos then (Some (Inl IoInvalidInput), r)
                 else if far_pos r \<le> new_pos \<and> new_pos < far_pos r + of_nat (buffer_remaining (far_buf r))
                 then (case buffer_advance (far_buf r) (unat (new_pos - far_pos r)) of
                         None \<Rightarrow> (None, r)
                       | Some b \<Rightarrow> (Some (Inr new_pos), r\<lparr>far_buf := b, far_pos := new_pos\<rparr>))
                 else (Some (Inr new_pos),
                       r\<lparr>far_buf := buffer_new, far_stream := bst_new (far_ctx r) (new_pos + far_start r) (Some (len - new_pos)),
                         far_pos := new_pos\<rparr>))"

section \<open>The bytes from a position\<close>

definition copy_ok :: "(buffer \<Rightarrow> usize \<Rightarrow> (bytes \<times> buffer) option) \<Rightarrow> bool" where
  "copy_ok copy \<longleftrightarrow> (\<forall>b n. buffer_ok b \<longrightarrow> n \<le> buffer_remaining b \<longrightarrow>
     copy b n = map_option (\<lambda>b'. (take n (buffer_view b), b')) (buffer_advance b n))"

definition far_inv ::
  "str \<Rightarrow> bytes \<Rightarrow> ('s \<Rightarrow> bool) \<Rightarrow> ('r \<Rightarrow> bool) \<Rightarrow> ('r \<Rightarrow> bytes) \<Rightarrow> 'r futures_async_reader \<Rightarrow> 's \<Rightarrow> bool" where
  "far_inv path content sinv rinv rest r s \<longleftrightarrow>
     reader_ready path content (far_ctx r) \<and> far_start r \<le> far_end r \<and> far_pos r \<le> far_end r - far_start r \<and> buffer_ok (far_buf r) \<and>
     (\<exists>l. stream_inv path content sinv rinv rest (far_stream r) s l \<and>
        buffer_view (far_buf r) @ l =
          drop (unat (far_pos r)) (requested (BytesRange (far_start r) (Some (far_end r - far_start r))) content))"

context object_reader
begin

lemma bst_new_inv:
  assumes "reader_ready path content ctx" "sinv s" "unat off + unat n < 2 ^ 64"
  shows "stream_inv path content sinv rinv rest (bst_new ctx off (Some n)) s (requested (BytesRange off (Some n)) content)"
proof (cases "orr_chunk (rc_options ctx)")
  case None
  with assms show ?thesis by (simp add: bst_new_def stream_inv_def reader_ready_def sr_ok_def sr_new_def sr_left_def rg_new_def)
next
  case (Some ch)
  have ready: "rc_path ctx = path" "0 < orr_concurrent (rc_options ctx)" "(of_nat ch :: u64) \<noteq> 0"
    using assms(1) Some of_nat_chunk[of ch] by (auto simp: reader_ready_def)
  have "cr_inv content (of_nat ch) (orr_concurrent (rc_options ctx)) (orr_prefetch (rc_options ctx)) (cr_new ctx (BytesRange off (Some n))) off n"
    using cr_inv_new[of "BytesRange off (Some n)" n] assms(3) by simp
  then have "stream_inv path content sinv rinv rest \<lparr>bst_ctx = ctx, bst_reader = Two (cr_new ctx (BytesRange off (Some n)))\<rparr> s
      (requested (BytesRange off (Some n)) content)"
    using ready Some assms(2) by (intro stream_inv_TwoI[OF _ _ _ _ ready(3,2)]) (simp_all del: requested_simps)
  with Some show ?thesis by (simp add: bst_new_def)
qed

end

lemma requested_drop:
  assumes "start \<le> fin" "k \<le> fin - start"
  shows "requested (BytesRange (k + start) (Some (fin - start - k))) content =
      drop (unat k) (requested (BytesRange start (Some (fin - start))) content)"
    "unat (k + start) + unat (fin - start - k) < 2 ^ 64"
proof -
  have len: "unat (fin - start) = unat fin - unat start" "unat (fin - start - k) = unat fin - unat start - unat k"
    using assms unat_sub_u64[of start fin] unat_sub_u64[of k "fin - start"] by simp_all
  have "unat k + unat start \<le> unat fin" using assms len(1) by (simp add: word_le_nat_alt)
  moreover have "unat fin < 2 ^ 64" by (rule unat_lt_u64)
  ultimately have add: "unat (k + start) = unat k + unat start" by (simp add: unat_word_ariths)
  show "requested (BytesRange (k + start) (Some (fin - start - k))) content =
      drop (unat k) (requested (BytesRange start (Some (fin - start))) content)"
    unfolding requested_def by (simp add: len add drop_take add.commute)
  show "unat (k + start) + unat (fin - start - k) < 2 ^ 64"
    using \<open>unat k + unat start \<le> unat fin\<close> \<open>unat fin < 2 ^ 64\<close> by (simp add: len add)
qed

lemma far_inv_new:
  assumes "object_reader ops path content sinv rinv rest" "reader_ready path content ctx" "sinv s" "start \<le> fin"
  shows "far_inv path content sinv rinv rest (far_new ctx start fin) s"
  using object_reader.bst_new_inv[OF assms(1-3), of start "fin - start"] requested_drop(2)[OF assms(4), of 0] assms(2,4)
  by (auto simp: far_new_def far_inv_def)

lemma far_inv_bound:
  assumes "far_inv path content sinv rinv rest r s"
  shows "length (buffer_view (far_buf r)) + unat (far_pos r) \<le> unat (far_end r - far_start r) \<or> buffer_view (far_buf r) = []"
proof (rule ccontr)
  assume neg: "\<not> ?thesis"
  let ?L = "requested (BytesRange (far_start r) (Some (far_end r - far_start r))) content"
  from assms obtain l where "buffer_view (far_buf r) @ l = drop (unat (far_pos r)) ?L" by (auto simp: far_inv_def)
  then have "length (buffer_view (far_buf r)) \<le> length ?L - unat (far_pos r)" by (metis le_add1 length_append length_drop)
  moreover have "length ?L \<le> unat (far_end r - far_start r)" by (simp add: requested_def)
  ultimately show False using neg by (cases "buffer_view (far_buf r)") auto
qed

text \<open>Moving on within the buffer.\<close>

lemma far_inv_advance:
  assumes inv: "far_inv path content sinv rinv rest r s" and n: "n \<le> buffer_len (far_buf r)"
    and b: "buffer_advance (far_buf r) n = Some b" and b': "b' = b \<or> b' = buffer_new \<and> buffer_is_empty b"
  shows "far_inv path content sinv rinv rest (r\<lparr>far_buf := b', far_pos := far_pos r + of_nat n\<rparr>) s"
    "unat (far_pos r + of_nat n) = unat (far_pos r) + n"
proof -
  have ok: "buffer_ok (far_buf r)" using inv by (simp add: far_inv_def)
  from buffer_ok_advance[OF ok n] b have "buffer_ok b" "buffer_view b = drop n (buffer_view (far_buf r))" by auto
  with b' have b1: "buffer_ok b'" "buffer_view b' = drop n (buffer_view (far_buf r))"
    using buffer_ok_len[of b] by (auto simp: buffer_is_empty_def)
  have n': "n \<le> length (buffer_view (far_buf r))" using n buffer_ok_len[OF ok] by simp
  then have le: "n + unat (far_pos r) \<le> unat (far_end r - far_start r)"
    using far_inv_bound[OF inv] inv by (auto simp: far_inv_def word_le_nat_alt)
  then have lt: "n + unat (far_pos r) < 2 ^ 64" using unat_lt_u64[of "far_end r - far_start r"] by linarith
  have "unat (of_nat n :: u64) = n" by (rule unat_of_nat_u64) (use lt in linarith)
  with lt show pos: "unat (far_pos r + of_nat n) = unat (far_pos r) + n" by (simp add: unat_word_ariths)
  from inv obtain l where l: "stream_inv path content sinv rinv rest (far_stream r) s l"
    "buffer_view (far_buf r) @ l = drop (unat (far_pos r)) (requested (BytesRange (far_start r) (Some (far_end r - far_start r))) content)"
    by (auto simp: far_inv_def)
  have "buffer_view b' @ l =
      drop (unat (far_pos r) + n) (requested (BytesRange (far_start r) (Some (far_end r - far_start r))) content)"
    using arg_cong[OF l(2), of "drop n"] n' by (simp add: b1(2) add.commute)
  moreover have "far_pos r + of_nat n \<le> far_end r - far_start r" using le pos by (simp add: word_le_nat_alt)
  ultimately show "far_inv path content sinv rinv rest (r\<lparr>far_buf := b', far_pos := far_pos r + of_nat n\<rparr>) s"
    using inv l(1) b1(1) pos unfolding far_inv_def by (intro conjI exI[of _ l]) simp_all
qed

text \<open>The next buffer of the stream.\<close>

lemma far_poll:
  assumes rd: "object_reader ops path content sinv rinv rest" and env: "run_ok (fresh_answer content) (ce_run env)"
    and inv: "far_inv path content sinv rinv rest r s" and empty: "buffer_len (far_buf r) = 0"
  shows "\<exists>x st s'. bst_poll_next ops env (far_stream r) s = Some (x, st, s') \<and>
    (\<forall>b. x = Ok (Some b) \<longrightarrow> far_inv path content sinv rinv rest (r\<lparr>far_stream := st, far_buf := b\<rparr>) s' \<and> buffer_len b \<noteq> 0) \<and>
    (x = Ok None \<longrightarrow> far_inv path content sinv rinv rest (r\<lparr>far_stream := st\<rparr>) s' \<and>
      drop (unat (far_pos r)) (requested (BytesRange (far_start r) (Some (far_end r - far_start r))) content) = [])"
proof -
  have "buffer_view (far_buf r) = []" using inv empty buffer_ok_len[of "far_buf r"] by (simp add: far_inv_def)
  with inv obtain l where l: "stream_inv path content sinv rinv rest (far_stream r) s l"
    "l = drop (unat (far_pos r)) (requested (BytesRange (far_start r) (Some (far_end r - far_start r))) content)"
    by (auto simp: far_inv_def)
  from object_reader.bst_read_step[OF rd l(1) env] obtain y st s' where
    y: "bst_read ops env (far_stream r) s = Some (y, st, s')" "\<And>b. y = Ok b \<Longrightarrow> buffer_ok b \<and>
      (\<exists>l'. stream_inv path content sinv rinv rest st s' l' \<and> l = buffer_view b @ l' \<and> (buffer_view b = [] \<longrightarrow> l = []))" by blast
  have "far_inv path content sinv rinv rest (r\<lparr>far_stream := st, far_buf := b\<rparr>) s'" if "y = Ok b" for b
    using y(2)[OF that] inv l(2) by (auto simp: far_inv_def)
  moreover have "far_inv path content sinv rinv rest (r\<lparr>far_stream := st\<rparr>) s' \<and> l = []" if "y = Ok b" "buffer_is_empty b" for b
  proof -
    from y(2)[OF that(1)] have "buffer_view b = []" using that(2) buffer_ok_len[of b] by (simp add: buffer_is_empty_def)
    with y(2)[OF that(1)] inv l(2) \<open>buffer_view (far_buf r) = []\<close> show ?thesis by (auto simp: far_inv_def)
  qed
  ultimately show ?thesis using y(1) l(2)
    by (cases y) (auto simp: bst_poll_next_def stream_item_def buffer_is_empty_def)
qed

definition far_bytes :: "bytes \<Rightarrow> 'r futures_async_reader \<Rightarrow> bytes" where
  "far_bytes content r = drop (unat (far_pos r)) (requested (BytesRange (far_start r) (Some (far_end r - far_start r))) content)"

text \<open>What a read returns: bytes at the position, none only at the end, and the position behind them.\<close>

definition far_step ::
  "str \<Rightarrow> bytes \<Rightarrow> ('s \<Rightarrow> bool) \<Rightarrow> ('r \<Rightarrow> bool) \<Rightarrow> ('r \<Rightarrow> bytes) \<Rightarrow> nat \<Rightarrow> bytes \<Rightarrow> 'r futures_async_reader \<Rightarrow>
     'r futures_async_reader \<Rightarrow> 's \<Rightarrow> bool" where
  "far_step path content sinv rinv rest n bs r r' s' \<longleftrightarrow>
     far_inv path content sinv rinv rest r' s' \<and> bs = take (length bs) (far_bytes content r) \<and> length bs \<le> n \<and>
     (bs = [] \<longrightarrow> n = 0 \<or> far_bytes content r = []) \<and> unat (far_pos r') = unat (far_pos r) + length bs \<and>
     far_start r' = far_start r \<and> far_end r' = far_end r"

lemma far_inv_prefix:
  assumes "far_inv path content sinv rinv rest r s"
  shows "\<exists>l. far_bytes content r = buffer_view (far_buf r) @ l"
  using assms by (auto simp: far_inv_def far_bytes_def) metis

lemma far_read_buffered:
  assumes copy: "copy_ok copy" and inv: "far_inv path content sinv rinv rest r s" and buf: "buffer_len (far_buf r) \<noteq> 0"
  shows "\<exists>bs r'. far_read copy ops env n r s = Some (Some (Inr bs), r', s) \<and> far_step path content sinv rinv rest n bs r r' s"
proof -
  let ?b = "far_buf r" and ?n = "min (buffer_len (far_buf r)) n"
  have ok: "buffer_ok ?b" using inv by (simp add: far_inv_def)
  from buffer_ok_advance[OF ok, of ?n] obtain b where b: "buffer_advance ?b ?n = Some b" by auto
  have cp: "copy ?b ?n = Some (take ?n (buffer_view ?b), b)" using copy ok b unfolding copy_ok_def by (simp add: buffer_remaining_def)
  let ?r = "r\<lparr>far_buf := b, far_pos := far_pos r + of_nat ?n\<rparr>"
  note adv = far_inv_advance[OF inv min.cobounded1 b disjI1[OF refl]]
  have "far_read copy ops env n r s = Some (Some (Inr (take ?n (buffer_view ?b))), ?r, s)"
    using cp buf by (simp add: far_read.simps[of copy ops env n r s] buffer_remaining_def Let_def)
  moreover have len: "length (take ?n (buffer_view ?b)) = ?n" using buffer_ok_len[OF ok] by simp
  moreover obtain l where "far_bytes content r = buffer_view ?b @ l" using far_inv_prefix[OF inv] by blast
  ultimately show ?thesis
    using adv buf buffer_ok_len[OF ok] by (intro exI[of _ "take ?n (buffer_view ?b)"] exI[of _ ?r]) (auto simp: far_step_def min_def)
qed

lemma far_read_step:
  assumes rd: "object_reader ops path content sinv rinv rest" and env: "run_ok (fresh_answer content) (ce_run env)" and copy: "copy_ok copy"
    and inv: "far_inv path content sinv rinv rest r s"
  shows "\<exists>x r' s'. far_read copy ops env n r s = Some (x, r', s') \<and>
    (\<forall>bs. x = Some (Inr bs) \<longrightarrow> far_step path content sinv rinv rest n bs r r' s')"
proof (cases "buffer_len (far_buf r) = 0")
  case False
  from far_read_buffered[OF copy inv this] show ?thesis by fastforce
next
  case True
  from far_poll[OF rd env inv True] obtain x st s1 where p: "bst_poll_next ops env (far_stream r) s = Some (x, st, s1)"
    "\<And>b. x = Ok (Some b) \<Longrightarrow> far_inv path content sinv rinv rest (r\<lparr>far_stream := st, far_buf := b\<rparr>) s1 \<and> buffer_len b \<noteq> 0"
    "x = Ok None \<Longrightarrow> far_inv path content sinv rinv rest (r\<lparr>far_stream := st\<rparr>) s1 \<and> far_bytes content r = []"
    unfolding far_bytes_def by blast
  show ?thesis
  proof (cases "\<exists>b. x = Ok (Some b)")
    case some: True
    then obtain b where b: "x = Ok (Some b)" by blast
    let ?r = "r\<lparr>far_stream := st, far_buf := b\<rparr>"
    have eq: "far_read copy ops env n r s = far_read copy ops env n ?r s1"
      using True p(1) b by (simp add: far_read.simps[of copy ops env n r s] buffer_remaining_def)
    have "far_bytes content ?r = far_bytes content r" by (simp add: far_bytes_def)
    moreover from far_read_buffered[OF copy, of path content sinv rinv rest ?r s1 ops env n] p(2)[OF b] obtain bs r' where
      "far_read copy ops env n ?r s1 = Some (Some (Inr bs), r', s1)" "far_step path content sinv rinv rest n bs ?r r' s1" by auto
    ultimately show ?thesis unfolding eq by (intro exI[of _ "Some (Inr bs)"] exI[of _ r'] exI[of _ s1]) (simp add: far_step_def)
  next
    case False
    with p True show ?thesis
      by (auto simp: far_read.simps[of copy ops env n r s] buffer_remaining_def far_step_def split: res.splits option.splits)
  qed
qed

lemma far_fill_buf_step:
  assumes rd: "object_reader ops path content sinv rinv rest" and env: "run_ok (fresh_answer content) (ce_run env)"
    and inv: "far_inv path content sinv rinv rest r s"
  shows "\<exists>x r' s'. far_fill_buf ops env r s = Some (x, r', s') \<and>
    (\<forall>bs. x = Some (Inr bs) \<longrightarrow> far_inv path content sinv rinv rest r' s' \<and> far_pos r' = far_pos r \<and> far_start r' = far_start r \<and> far_end r' = far_end r)"
proof (cases "buffer_len (far_buf r) = 0")
  case False
  with inv show ?thesis by (auto simp: far_fill_buf.simps[of ops env r s] buffer_remaining_def)
next
  case True
  from far_poll[OF rd env inv True] obtain x st s1 where p: "bst_poll_next ops env (far_stream r) s = Some (x, st, s1)"
    "\<And>b. x = Ok (Some b) \<Longrightarrow> far_inv path content sinv rinv rest (r\<lparr>far_stream := st, far_buf := b\<rparr>) s1 \<and> buffer_len b \<noteq> 0"
    "x = Ok None \<Longrightarrow> far_inv path content sinv rinv rest (r\<lparr>far_stream := st\<rparr>) s1" by blast
  show ?thesis
  proof (cases "\<exists>b. x = Ok (Some b)")
    case some: True
    then obtain b where b: "x = Ok (Some b)" by blast
    from p(1) p(2)[OF b] b True show ?thesis
      by (simp add: far_fill_buf.simps[of ops env r s] far_fill_buf.simps[of ops env "r\<lparr>far_stream := st, far_buf := b\<rparr>" s1] buffer_remaining_def)
  next
    case False
    with p True show ?thesis
      by (auto simp: far_fill_buf.simps[of ops env r s] buffer_remaining_def split: res.splits option.splits)
  qed
qed

lemma far_consume_step:
  assumes "far_inv path content sinv rinv rest r s" "far_consume amt r = Some r'"
  shows "far_inv path content sinv rinv rest r' s" "far_start r' = far_start r" "far_end r' = far_end r"
proof -
  from assms(2) obtain b where b: "buffer_advance (far_buf r) amt = Some b"
    "r' = r\<lparr>far_buf := if buffer_is_empty b then buffer_new else b, far_pos := far_pos r + of_nat amt\<rparr>"
    by (auto simp: far_consume_def)
  have "amt \<le> buffer_len (far_buf r)" using buffer_advance_fail[of "far_buf r" amt] b(1) by (cases "buffer_len (far_buf r) < amt") auto
  from far_inv_advance(1)[OF assms(1) this b(1)] b(2) show "far_inv path content sinv rinv rest r' s" by auto
  show "far_start r' = far_start r" "far_end r' = far_end r" by (simp_all add: b(2))
qed

section \<open>Seeking\<close>

text \<open>The position a seek asks for, as an integer; offsets are a \<open>u64\<close> or an \<open>i64\<close>.\<close>

definition seek_to :: "seek_from \<Rightarrow> 'r futures_async_reader \<Rightarrow> int" where
  "seek_to pos r =
     (case pos of
        SeekStart n \<Rightarrow> int n
      | SeekEnd i \<Rightarrow> uint (far_end r - far_start r) + i
      | SeekCurrent i \<Rightarrow> uint (far_pos r) + i)"

definition seek_valid :: "seek_from \<Rightarrow> bool" where
  "seek_valid pos =
     (case pos of
        SeekStart n \<Rightarrow> n < 2 ^ 64
      | SeekEnd i \<Rightarrow> - (2 ^ 63) \<le> i \<and> i < 2 ^ 63
      | SeekCurrent i \<Rightarrow> - (2 ^ 63) \<le> i \<and> i < 2 ^ 63)"

lemma seek_new_pos:
  "(case pos of SeekStart n \<Rightarrow> of_nat n | SeekEnd i \<Rightarrow> far_end r - far_start r + of_int i | SeekCurrent i \<Rightarrow> far_pos r + of_int i) =
    (of_int (seek_to pos r) :: u64)"
  by (cases pos) (simp_all add: seek_to_def)

lemma seek_in_range:
  assumes "- (2 ^ 63) \<le> t" "t < 2 ^ 64" "uint (len :: u64) < 2 ^ 63"
  shows "\<not> sint (of_int t :: u64) < 0 \<and> (of_int t :: u64) \<le> len \<longleftrightarrow> 0 \<le> t \<and> t \<le> uint len"
proof -
  let ?w = "of_int t :: u64"
  have u: "uint ?w = t mod 2 ^ 64" by (simp add: uint_word_of_int)
  have s: "sint ?w = (if uint ?w < 2 ^ 63 then uint ?w else uint ?w - 2 ^ 64)"
  proof (cases "uint ?w < 2 ^ 63")
    case False
    have "(uint ?w - 2 ^ 63 + 2 ^ 64) mod 2 ^ 64 = uint ?w - 2 ^ 63"
      unfolding mod_add_self2 by (rule mod_pos_pos_trivial) (use False uint_lt2p[of ?w] in simp_all)
    with False show ?thesis by (simp add: sint_uint signed_take_bit_eq_take_bit_shift take_bit_eq_mod add.commute)
  qed (simp add: sint_uint signed_take_bit_eq_take_bit_shift take_bit_eq_mod)
  show ?thesis
  proof (cases "0 \<le> t")
    case True
    with assms(2) u have "uint ?w = t" by simp
    with s assms(3) True show ?thesis by (auto simp: word_le_def)
  next
    case False
    have "(t + 2 ^ 64) mod 2 ^ 64 = t + 2 ^ 64" by (rule mod_pos_pos_trivial) (use False assms(1) in simp_all)
    then have "t mod 2 ^ 64 = t + 2 ^ 64" unfolding mod_add_self2 .
    with s u False assms show ?thesis by (auto simp: word_le_def)
  qed
qed

lemma far_seek_step:
  assumes rd: "object_reader ops path content sinv rinv rest" and inv: "far_inv path content sinv rinv rest r s"
    and len: "uint (far_end r - far_start r) < 2 ^ 63" and valid: "seek_valid pos"
  shows "if 0 \<le> seek_to pos r \<and> seek_to pos r \<le> uint (far_end r - far_start r)
    then \<exists>r'. far_seek pos r = (Some (Inr (of_int (seek_to pos r))), r') \<and> far_pos r' = of_int (seek_to pos r) \<and>
      far_inv path content sinv rinv rest r' s \<and> far_start r' = far_start r \<and> far_end r' = far_end r
    else far_seek pos r = (Some (Inl IoInvalidInput), r)"
proof -
  let ?t = "seek_to pos r" and ?len = "far_end r - far_start r"
  let ?w = "of_int ?t :: u64"
  from inv have r: "reader_ready path content (far_ctx r)" "far_start r \<le> far_end r" "far_pos r \<le> ?len" "sinv s"
    by (auto simp: far_inv_def stream_inv_def)
  have "uint (far_pos r) \<le> uint ?len" using r(3) by (simp add: word_le_def)
  then have u: "0 \<le> uint ?len" "0 \<le> uint (far_pos r)" "uint ?len < 2 ^ 63" "uint (far_pos r) < 2 ^ 63" using len by simp_all
  have two: "(2 :: int) ^ 64 = 2 ^ 63 + 2 ^ 63" by simp
  have "- (2 ^ 63) \<le> ?t \<and> ?t < 2 ^ 64"
  proof (cases pos)
    case (SeekStart n)
    with valid show ?thesis by (simp add: seek_to_def seek_valid_def)
  next
    case (SeekEnd i)
    with valid have "- (2 ^ 63) \<le> i" "i < 2 ^ 63" by (simp_all add: seek_valid_def)
    with u two show ?thesis unfolding seek_to_def SeekEnd seek_from.case by (intro conjI) linarith+
  next
    case (SeekCurrent i)
    with valid have "- (2 ^ 63) \<le> i" "i < 2 ^ 63" by (simp_all add: seek_valid_def)
    with u two show ?thesis unfolding seek_to_def SeekCurrent seek_from.case by (intro conjI) linarith+
  qed
  note in_range = seek_in_range[OF conjunct1[OF this] conjunct2[OF this] len]
  show ?thesis
  proof (cases "0 \<le> ?t \<and> ?t \<le> uint ?len")
    case False
    with in_range have "sint ?w < 0 \<or> ?len < ?w" by (simp add: not_le)
    with False show ?thesis by (auto simp: far_seek_def seek_new_pos Let_def)
  next
    case True
    with in_range have w: "\<not> sint ?w < 0" "\<not> ?len < ?w" "?w \<le> ?len" by (simp_all add: not_less)
    show ?thesis
    proof (cases "far_pos r \<le> ?w \<and> ?w < far_pos r + of_nat (buffer_remaining (far_buf r))")
      case here: True
      let ?n = "unat (?w - far_pos r)"
      have n: "unat ?w = unat (far_pos r) + ?n" using here unat_sub_u64[of "far_pos r" ?w] by (simp add: word_le_nat_alt)
      have "?n \<le> buffer_len (far_buf r)"
      proof (rule ccontr)
        assume neg: "\<not> ?n \<le> buffer_len (far_buf r)"
        then have lt: "unat (far_pos r) + buffer_len (far_buf r) < 2 ^ 64" using n unat_lt_u64[of ?w] by linarith
        then have "unat (of_nat (buffer_len (far_buf r)) :: u64) = buffer_len (far_buf r)" by (intro unat_of_nat_u64) linarith
        with lt have "unat (far_pos r + of_nat (buffer_len (far_buf r))) = unat (far_pos r) + buffer_len (far_buf r)"
          by (simp add: unat_word_ariths)
        with here neg n show False by (simp add: word_less_nat_alt buffer_remaining_def)
      qed
      moreover from buffer_ok_advance[OF _ this] inv obtain b where b: "buffer_advance (far_buf r) ?n = Some b"
        by (auto simp: far_inv_def)
      ultimately have "far_inv path content sinv rinv rest (r\<lparr>far_buf := b, far_pos := ?w\<rparr>) s"
        using far_inv_advance(1)[OF inv _ b disjI1[OF refl]] by simp
      moreover have "far_seek pos r = (Some (Inr ?w), r\<lparr>far_buf := b, far_pos := ?w\<rparr>)"
        unfolding far_seek_def seek_new_pos Let_def if_not_P[OF w(1)] if_not_P[OF w(2)] if_P[OF here] b by simp
      ultimately show ?thesis using True by simp
    next
      case away: False
      let ?st = "bst_new (far_ctx r) (?w + far_start r) (Some (?len - ?w))"
      note st = object_reader.bst_new_inv[OF rd r(1,4) requested_drop(2)[OF r(2) w(3)]]
      have "far_inv path content sinv rinv rest (r\<lparr>far_buf := buffer_new, far_stream := ?st, far_pos := ?w\<rparr>) s"
        using r(1,2) w(3) st requested_drop(1)[OF r(2) w(3), of content] by (simp add: far_inv_def del: requested_simps)
      moreover have "far_seek pos r = (Some (Inr ?w), r\<lparr>far_buf := buffer_new, far_stream := ?st, far_pos := ?w\<rparr>)"
        unfolding far_seek_def seek_new_pos Let_def if_not_P[OF w(1)] if_not_P[OF w(2)] if_not_P[OF away] by simp
      ultimately show ?thesis using True by simp
    qed
  qed
qed

section \<open>Sessions\<close>

text \<open>The states of an adapter that has not seen an error of the stream.\<close>

inductive far_reach ::
  "(buffer \<Rightarrow> usize \<Rightarrow> (bytes \<times> buffer) option) \<Rightarrow> ('r, 's) read_ops \<Rightarrow> 'r chunk_env \<Rightarrow> ('s \<Rightarrow> bool) \<Rightarrow>
     read_context \<Rightarrow> u64 \<Rightarrow> u64 \<Rightarrow> 'r futures_async_reader \<Rightarrow> 's \<Rightarrow> bool"
  for copy ops env sinv ctx start fin where
  freach_new: "sinv s \<Longrightarrow> far_reach copy ops env sinv ctx start fin (far_new ctx start fin) s"
| freach_read: "far_reach copy ops env sinv ctx start fin r s \<Longrightarrow> far_read copy ops env n r s = Some (Some (Inr bs), r', s') \<Longrightarrow>
    far_reach copy ops env sinv ctx start fin r' s'"
| freach_fill: "far_reach copy ops env sinv ctx start fin r s \<Longrightarrow> far_fill_buf ops env r s = Some (Some (Inr bs), r', s') \<Longrightarrow>
    far_reach copy ops env sinv ctx start fin r' s'"
| freach_consume: "far_reach copy ops env sinv ctx start fin r s \<Longrightarrow> far_consume amt r = Some r' \<Longrightarrow>
    far_reach copy ops env sinv ctx start fin r' s"
| freach_seek: "far_reach copy ops env sinv ctx start fin r s \<Longrightarrow> seek_valid pos \<Longrightarrow> far_seek pos r = (x, r') \<Longrightarrow>
    far_reach copy ops env sinv ctx start fin r' s"

lemma far_reach_inv:
  assumes rd: "object_reader ops path content sinv rinv rest" and env: "run_ok (fresh_answer content) (ce_run env)" and copy: "copy_ok copy"
    and ctx: "reader_ready path content ctx" "start \<le> fin" "uint (fin - start) < 2 ^ 63"
  shows "far_reach copy ops env sinv ctx start fin r s \<Longrightarrow>
    far_inv path content sinv rinv rest r s \<and> far_start r = start \<and> far_end r = fin"
proof (induction rule: far_reach.induct)
  case (freach_new s)
  from far_inv_new[OF rd ctx(1) this ctx(2)] show ?case by (simp add: far_new_def)
next
  case (freach_read r s n bs r' s')
  then have inv: "far_inv path content sinv rinv rest r s" by simp
  from far_read_step[OF rd env copy inv, of n] freach_read show ?case by (auto simp: far_step_def)
next
  case (freach_fill r s bs r' s')
  then have inv: "far_inv path content sinv rinv rest r s" by simp
  from far_fill_buf_step[OF rd env inv] freach_fill show ?case by auto
next
  case (freach_consume r s amt r')
  then have inv: "far_inv path content sinv rinv rest r s" by simp
  from far_consume_step[OF inv freach_consume.hyps(2)] freach_consume.IH show ?case by simp
next
  case (freach_seek r s pos x r')
  then have inv: "far_inv path content sinv rinv rest r s" by simp
  from far_seek_step[OF rd inv _ freach_seek.hyps(2)] freach_seek ctx(3) show ?case by (auto split: if_splits)
qed


definition copy_bytes :: "buffer \<Rightarrow> usize \<Rightarrow> (bytes \<times> buffer) option" where
  "copy_bytes b n = map_option (\<lambda>b'. (take n (buffer_view b), b')) (buffer_advance b n)"


end
