(* ===== verification/Spec2Isabelle.thy ===== *)
theory Spec2Isabelle
  imports Prelude Errors Paths Ranges Buffers Buf_Queues Ops Concurrent_Tasks Oio_Write
    Task_Writers Read_Context Write_Context Listers Deleters Memory
    Accessor Complete_Layer Error_Context Correctness_Check Flat_Lister Simulate_Layer Copiers
    Memory_Accessor Operators Memory_Operator Memory_Delete Access_Types Operator_Types
    Retry_Layer Chaos_Layer Task_Copiers Copy_Completion Retry_Properties
    Path_Cache Immutable_Index Async_Reader
begin

text \<open>
  A verification development of OpenDAL, a Rust library that gives one interface to many storage services.  Paths
  without a crate are those under \<open>core/core/src\<close>.

  \<^bold>\<open>The program.\<close>  A service implements the trait \<open>Access\<close> (\<open>raw/accessor.rs\<close>): it opens readers, writers,
  listers, deleters and copiers, which implement the small traits of \<open>raw/oio\<close>.  Adapters in \<open>raw/oio\<close> build
  these objects from simpler ones: a writer that uploads parts in background tasks, a lister that cuts a flat listing
  into directories, a deleter that collects batches, a copier that copies ranges.  A layer wraps an accessor in another
  one.  The public \<open>Operator\<close> puts the default layers on a service, normalises paths, translates options to
  arguments, and drives the objects: \<open>Writer\<close> cuts and buffers, \<open>Reader\<close> streams or reads chunks
  concurrently, \<open>Lister\<close>, \<open>Deleter\<close> and \<open>Copier\<close> run to their ends.

  \<^bold>\<open>The model.\<close>  A struct is a record and an enum a datatype, with the fields and constructors of the source; a
  method is one definition.  A \<open>str\<close> is the list of its UTF-8 bytes, a \<open>usize\<close> a natural number, a \<open>u64\<close> a
  64-bit word whose arithmetic wraps as in a release build.  A subtraction of \<open>usize\<close> that would be negative counts as a
  panic, as with overflow checks; the theorems on buffers show that a well-formed buffer never has one.  A panic is \<open>None\<close> in pure code and \<open>Panic\<close> in the
  result type \<open>res\<close>; an error is a value with its kind, status, operation, context and source.  An asynchronous
  method is a function from the state to a result and a new state, or to \<open>None\<close> where a loop of the code does not
  end (type \<open>io\<close> of theory Accessor, with one combinator per construct of the code).  Such loops are
  \<open>partial_function\<close>s, so that there is no fuel in the model; that they end is proved where it is claimed.  Bounds
  on a number of steps occur in functions of the specifications only: \<open>list_all_entries\<close> and \<open>chunks_run\<close> collect
  what an iterator yields, with its length as the bound, and \<open>flat_walk\<close> walks down a tree, with a bound on its depth
  that the contract \<open>dir_lister\<close> asks for.  An accessor is a record of such
  methods, and a layer is a function on accessors, so the default stack (\<open>operator_new\<close>) is a composition of
  functions as it is in the code.

  \<^bold>\<open>Background tasks.\<close>  The outcome of the tasks of a writer or copier is an argument (\<open>run\<close>); the tasks may
  complete in any order at any time (\<open>ct_complete\<close>).  For the copier of parts \<open>mcopy_runs\<close> says that the outcomes are
  those of the code of its tasks (\<open>mcopy_task\<close>), and \<open>copy_numbered\<close> that the numbers of the answered parts keep the
  order of the requested ones; S3 and TOS answer one more than they are asked for.  The tasks of a chunked read are given by
  an environment (\<open>chunk_env\<close>): which tasks the executor has completed before each step of the reader, also within the loop
  that fills the queue, and with what outcome.  \<open>chunked_runs\<close> says that every task has run the code of
  \<open>ChunkedReader::new\<close> (\<open>chunked_task\<close>) on some state of the service that satisfies a given predicate, with its errors, and that one that panics or
  hangs delivers nothing.  Metadata that such a task puts into the shared context is not passed on to the stream, which
  uses it only to answer \<open>metadata\<close>.

  \<^bold>\<open>Base.\<close>
    \<^item> Prelude: machine types, and the functions of the Rust standard library that the code calls.
    \<^item> Errors: \<open>types/error.rs\<close> and \<open>raw/std_io_util.rs\<close>.
    \<^item> Paths: \<open>raw/path.rs\<close>, \<open>types/mode.rs\<close>.  The result of \<open>normalize_path\<close> is the canonical form of a path;
      absolute and relative paths are inverse to each other.
    \<^item> Ranges: \<open>raw/http_util/bytes_range.rs\<close>, \<open>bytes_content_range.rs\<close>.  What is printed parses back.
    \<^item> Buffers: \<open>types/buffer.rs\<close>.  Every operation of the zero-copy buffer refines the one on byte lists.
    \<^item> Buf\_Queues: \<open>raw/oio/buf\<close>.  \<open>QueueBuf\<close> keeps the contract \<open>byte_queue\<close>.
    \<^item> Ops: \<open>raw/ops.rs\<close>, \<open>types/options.rs\<close>, \<open>metadata.rs\<close>, \<open>capability.rs\<close>.
    \<^item> Concurrent\_Tasks: \<open>ConcurrentTasks\<close> of \<open>raw/futures_util.rs\<close>.  Over all interleavings the results come
      in the order of submission, none lost or repeated, with a bound on what is held.

  \<^bold>\<open>Objects.\<close>  Each theory has a locale for the contract of its trait; what is built on the trait is proved once in
  the locale, and the interpretations discharge the contract for the modelled implementations.
    \<^item> Oio\_Write: \<open>raw/oio/write/api.rs\<close>, \<open>one_shot_write.rs\<close>, \<open>append_write.rs\<close>; contracts \<open>oio_writer\<close>,
      \<open>reliable_writer\<close>.
    \<^item> Task\_Writers: \<open>multipart_write.rs\<close>, \<open>position_write.rs\<close>, \<open>block_write.rs\<close>.  A successful close has
      completed the upload with exactly what was written.
    \<^item> Write\_Context: \<open>types/context/write.rs\<close>, \<open>types/write/writer.rs\<close>.  What a session of the buffering writer
      stores is the concatenation of the buffers, cut as configured.
    \<^item> Read\_Context: \<open>raw/oio/read/api.rs\<close>, \<open>types/context/read.rs\<close>, \<open>types/read/buffer_stream.rs\<close>,
      \<open>types/read/reader.rs\<close>; contracts \<open>object_reader\<close>, \<open>reliable_reader\<close>.  Reading and fetching return the
      requested bytes.
    \<^item> Async\_Reader: \<open>types/read/futures_async_reader.rs\<close>.  The adapter is a cursor over its range.
    \<^item> Listers, Flat\_Lister: \<open>raw/oio/list\<close>, \<open>raw/oio/entry.rs\<close>, \<open>types/entry.rs\<close>, \<open>types/list.rs\<close>; contracts
      \<open>finite_lister\<close>, \<open>dir_lister\<close>.  The adapters yield every direct child, or the whole tree, once.
    \<^item> Deleters: \<open>raw/oio/delete\<close>, \<open>types/delete\<close>; contract \<open>oio_deleter\<close>.
    \<^item> Copiers, Task\_Copiers, Copy\_Completion: \<open>types/copy.rs\<close>, \<open>raw/oio/copy/multipart_copy.rs\<close>,
      \<open>block_copy.rs\<close>; contract \<open>finite_copier\<close>.  A successful close has copied the whole source, and without
      failures it succeeds.
    \<^item> Path\_Cache: \<open>raw/path_cache.rs\<close>.  A cached lookup finds what a lookup from the root finds.

  \<^bold>\<open>Services, layers and operator.\<close>
    \<^item> Memory, Memory\_Accessor: \<open>services/memory\<close>, first the store and its objects, then the service as an
      accessor.  It interprets the contracts of readers, writers, listers and deleters.
    \<^item> Accessor: \<open>raw/accessor.rs\<close>, \<open>raw/operation.rs\<close>, \<open>raw/enum_utils.rs\<close>, \<open>raw/oio/copy/api.rs\<close>.
    \<^item> Complete\_Layer, Error\_Context, Correctness\_Check, Simulate\_Layer: the default layers (\<open>layers\<close>).
      Each keeps the contracts of the objects it wraps; what it checks or adds is stated on its own: the state of the
      complete writer against the log of its calls, the checks of the arguments against what a call asks for
      (\<open>asks_read\<close> and so on) and which of it is critical.
    \<^item> Operators: \<open>types/operator/operator.rs\<close>, \<open>builder.rs\<close>.
    \<^item> Memory\_Operator, Memory\_Delete: the public methods over the default layers and the memory service, from the
      arguments of the user down to the store.
    \<^item> Access\_Types, Operator\_Types: invariants of a service through all layers and methods, in every outcome
      (contract \<open>safe_access\<close>); every session of calls, with any paths and options, leaves a well-formed store.
    \<^item> Retry\_Layer, Chaos\_Layer, Retry\_Properties: \<open>core/layers/retry\<close> and \<open>core/layers/chaos\<close>; contracts
      \<open>flaky_reader\<close>, \<open>flaky_writer\<close>.  Retrying over a flaky service is a reliable service.
    \<^item> Immutable\_Index: \<open>core/layers/immutable-index\<close>.  The listing of the layer is exact; unlike that of the
      other services it leaves out the path itself.

  The properties are the theorems whose text begins with a claim id.  Those about errors show where the code, faithfully
  modelled, departs from what its callers rely on.

  \<^bold>\<open>Parameters.\<close>  Code that is not in the repository is an argument with a named hypothesis: \<open>backon_ok\<close> for the
  crate \<open>backon\<close>, \<open>moka_ok\<close> for \<open>moka\<close>, \<open>copy_ok\<close> and \<open>put_spec\<close> for the provided methods of the
  traits of \<open>bytes\<close>, the generator of \<open>rand\<close> and of \<open>Uuid\<close> as functions.  The order in which a hash set is
  iterated is an argument too.

  \<^bold>\<open>Not modelled.\<close>  The HTTP client and the remote services send requests with \<open>reqwest\<close> and sign them with
  \<open>reqsign\<close>; their logic is the format of the requests.  The layers for logging, metrics, tracing, timeouts,
  throttling and concurrency limits observe or delay calls, and time is not part of the model.  The blocking API and the
  bindings run the asynchronous one on a runtime or through a foreign interface.  Presigning, the operator registry and
  the builders from configurations and URIs rest on \<open>serde\<close> and \<open>http\<close>.  The sink, bytes stream and
  \<open>AsyncWrite\<close> adapters, futures that are dropped before they are ready, and executors are not modelled; a
  poll is taken when it is ready.  Debug assertions and debug output are not part of the definitions.
\<close>

end
